(* ===== verification/Fish_Prelude.thy ===== *)
theory Fish_Prelude
  imports Main "HOL-Library.AList" "HOL-Library.Monad_Syntax" "HOL-Library.Code_Target_Nat"
begin

text \<open>
  Shared vocabulary of the development: bounds-checked vector access, loops that may
  panic, the finite-graph facts that the build-graph, query and scheduler theories share,
  and the named collections their proofs draw on.

  A Rust \<open>Vec\<close> is a HOL list. \<open>xs.get(i)\<close> is \<open>vec_get xs i\<close>; the panicking index \<open>xs[i]\<close>
  is the same function with \<open>None\<close> read as the panic. A \<open>for\<close> loop whose body may panic is
  \<open>fold_opt\<close>.
\<close>

named_theorems wf_intros \<open>well-formedness of the results of operations\<close>
named_theorems vec_simps \<open>bounds-checked access\<close>

subsection \<open>Vectors\<close>

definition vec_get :: "'a list \<Rightarrow> nat \<Rightarrow> 'a option" where
  "vec_get xs i = (if i < length xs then Some (xs ! i) else None)"

definition vec_set :: "'a list \<Rightarrow> nat \<Rightarrow> 'a \<Rightarrow> 'a list option" where
  "vec_set xs i x = (if i < length xs then Some (xs[i := x]) else None)"

lemma vec_get_Some [vec_simps, simp]: "i < length xs \<Longrightarrow> vec_get xs i = Some (xs ! i)"
  by (simp add: vec_get_def)

lemma vec_get_None [vec_simps, simp]: "\<not> i < length xs \<Longrightarrow> vec_get xs i = None"
  by (simp add: vec_get_def)

lemma vec_get_eq_Some_iff [vec_simps]:
  "vec_get xs i = Some x \<longleftrightarrow> i < length xs \<and> x = xs ! i"
  by (auto simp: vec_get_def)

lemma vec_get_eq_None_iff [vec_simps]: "vec_get xs i = None \<longleftrightarrow> \<not> i < length xs"
  by (simp add: vec_get_def)

lemma vec_set_Some [vec_simps, simp]: "i < length xs \<Longrightarrow> vec_set xs i x = Some (xs[i := x])"
  by (simp add: vec_set_def)

lemma vec_set_eq_Some_iff [vec_simps]:
  "vec_set xs i x = Some ys \<longleftrightarrow> i < length xs \<and> ys = xs[i := x]"
  by (auto simp: vec_set_def)

text \<open>\<open>iter().max().unwrap_or(0)\<close> on unsigned numbers.\<close>

definition max_or_zero :: "nat list \<Rightarrow> nat" where
  "max_or_zero xs = foldl max 0 xs"

lemma foldl_max_eq: "foldl max a xs = Max (insert (a::nat) (set xs))"
proof (induction xs arbitrary: a)
  case Nil
  then show ?case by simp
next
  case (Cons x xs)
  then show ?case by (cases "xs = []") (simp_all add: max.assoc max.left_commute)
qed

lemma max_or_zero_ge [simp]: "x \<in> set xs \<Longrightarrow> x \<le> max_or_zero xs"
  by (simp add: max_or_zero_def foldl_max_eq)

lemma max_or_zero_in: "xs \<noteq> [] \<Longrightarrow> max_or_zero xs \<in> set xs"
proof -
  assume "xs \<noteq> []"
  moreover have "max_or_zero xs \<in> insert 0 (set xs)"
    unfolding max_or_zero_def foldl_max_eq by (rule Max_in) auto
  moreover have "max_or_zero xs = 0 \<Longrightarrow> xs \<noteq> [] \<Longrightarrow> 0 \<in> set xs"
    using max_or_zero_ge[of "hd xs" xs] by (metis hd_in_set le_zero_eq)
  ultimately show ?thesis by auto
qed

lemma max_or_zero_Nil [simp]: "max_or_zero [] = 0"
  by (simp add: max_or_zero_def)

lemma max_or_zero_le_iff: "max_or_zero xs \<le> b \<longleftrightarrow> (\<forall>x\<in>set xs. x \<le> b)"
  by (cases "xs = []") (auto intro: max_or_zero_ge order_trans dest: max_or_zero_in)

lemma option_eqI: "(\<And>t. x = Some t \<longleftrightarrow> y = Some t) \<Longrightarrow> x = y"
  by (cases x; cases y) auto

subsection \<open>Loops that may panic\<close>

fun fold_opt :: "('s \<Rightarrow> 'x \<Rightarrow> 's option) \<Rightarrow> 's \<Rightarrow> 'x list \<Rightarrow> 's option" where
  "fold_opt f s [] = Some s"
| "fold_opt f s (x # xs) = (case f s x of None \<Rightarrow> None | Some s' \<Rightarrow> fold_opt f s' xs)"

lemma fold_opt_append:
  "fold_opt f s (xs @ ys) = Option.bind (fold_opt f s xs) (\<lambda>s'. fold_opt f s' ys)"
  by (induction xs arbitrary: s) (auto split: option.splits)

lemma fold_opt_inv:
  assumes "\<And>s x. P s \<Longrightarrow> x \<in> set xs \<Longrightarrow> \<exists>s'. f s x = Some s' \<and> P s'" and "P s"
  shows "\<exists>s'. fold_opt f s xs = Some s' \<and> P s'"
  using assms
proof (induction xs arbitrary: s)
  case Nil
  then show ?case by simp
next
  case (Cons x xs)
  from Cons.prems obtain s1 where "f s x = Some s1" "P s1" by fastforce
  with Cons.IH[of s1] Cons.prems(1) show ?case by auto
qed

fun opt_all :: "'a option list \<Rightarrow> 'a list option" where
  "opt_all [] = Some []"
| "opt_all (x # xs) = (case x of None \<Rightarrow> None | Some a \<Rightarrow> map_option ((#) a) (opt_all xs))"

lemma opt_all_map_Some: "(\<And>x. x \<in> set xs \<Longrightarrow> f x = Some (g x)) \<Longrightarrow> opt_all (map f xs) = Some (map g xs)"
  by (induction xs) auto

subsection \<open>Unsigned 64-bit numbers\<close>

text \<open>
  A \<open>u64\<close> is a natural number up to \<open>u64_max\<close>. Plain \<open>+\<close> and \<open>-\<close> whose result does not fit
  panic in builds with overflow checks; here they are \<open>None\<close>.
\<close>

definition u64_max :: nat where
  "u64_max = 2 ^ 64 - 1"

definition saturating_mul :: "nat \<Rightarrow> nat \<Rightarrow> nat" where
  "saturating_mul a b = min (a * b) u64_max"

definition saturating_add :: "nat \<Rightarrow> nat \<Rightarrow> nat" where
  "saturating_add a b = min (a + b) u64_max"

definition add_u64 :: "nat \<Rightarrow> nat \<Rightarrow> nat option" where
  "add_u64 a b = (if a + b \<le> u64_max then Some (a + b) else None)"

definition sub_u64 :: "nat \<Rightarrow> nat \<Rightarrow> nat option" where
  "sub_u64 a b = (if b \<le> a then Some (a - b) else None)"

lemma add_u64_fits [simp]: "a + b \<le> u64_max \<Longrightarrow> add_u64 a b = Some (a + b)"
  by (simp add: add_u64_def)

lemma sub_u64_fits [simp]: "b \<le> a \<Longrightarrow> sub_u64 a b = Some (a - b)"
  by (simp add: sub_u64_def)

subsection \<open>Hash maps\<close>

text \<open>
  A \<open>HashMap\<close> is an association list without repeated keys. Only its lookups are meaningful:
  where the code iterates over a map, the order is an argument of the model.
\<close>

type_synonym ('k, 'v) hash_map = "('k \<times> 'v) list"

abbreviation hm_get :: "('k, 'v) hash_map \<Rightarrow> 'k \<Rightarrow> 'v option" where
  "hm_get \<equiv> map_of"

abbreviation hm_insert :: "'k \<Rightarrow> 'v \<Rightarrow> ('k, 'v) hash_map \<Rightarrow> ('k, 'v) hash_map" where
  "hm_insert \<equiv> AList.update"

abbreviation hm_remove :: "'k \<Rightarrow> ('k, 'v) hash_map \<Rightarrow> ('k, 'v) hash_map" where
  "hm_remove \<equiv> AList.delete"

abbreviation hm_keys :: "('k, 'v) hash_map \<Rightarrow> 'k list" where
  "hm_keys \<equiv> map fst"

text \<open>The total of a measure over the entries, as insertion and removal change it.\<close>

definition hm_sum :: "('v \<Rightarrow> nat) \<Rightarrow> ('k, 'v) hash_map \<Rightarrow> nat" where
  "hm_sum f m = sum_list (map (f \<circ> snd) m)"

lemma hm_sum_Nil [simp]: "hm_sum f [] = 0"
  by (simp add: hm_sum_def)

lemma hm_get_le_sum: "hm_get m k = Some e \<Longrightarrow> f e \<le> hm_sum f m"
  by (induction m) (auto simp: hm_sum_def split: if_splits)

lemma hm_sum_remove:
  "distinct (hm_keys m) \<Longrightarrow> hm_get m k = Some e \<Longrightarrow> hm_sum f (hm_remove k m) + f e = hm_sum f m"
proof (induction m)
  case (Cons p m)
  then show ?case
    by (cases p) (auto simp: hm_sum_def delete_simps split: if_splits intro!: arg_cong[of _ _ "\<lambda>m. sum_list (map (f \<circ> snd) m)"])
qed simp

lemma hm_sum_insert_new: "hm_get m k = None \<Longrightarrow> hm_sum f (hm_insert k v m) = hm_sum f m + f v"
  by (induction m) (auto simp: hm_sum_def split: if_splits)

lemma hm_sum_insert_old:
  "hm_get m k = Some e \<Longrightarrow> hm_sum f (hm_insert k v m) + f e = hm_sum f m + f v"
  by (induction m) (auto simp: hm_sum_def split: if_splits)

lemma length_hm_insert:
  "length (hm_insert k v m) = (if hm_get m k = None then Suc (length m) else length m)"
  by (induction m) auto

lemma length_hm_remove:
  "distinct (hm_keys m) \<Longrightarrow> hm_get m k = Some e \<Longrightarrow> Suc (length (hm_remove k m)) = length m"
  using hm_sum_remove[of m k e "\<lambda>_. 1"] by (simp add: hm_sum_def sum_list_triv comp_def)

lemma hm_get_remove [simp]: "hm_get (hm_remove k m) j = (if j = k then None else hm_get m j)"
  by (simp add: delete_conv')

lemma hm_get_insert [simp]: "hm_get (hm_insert k v m) j = (if j = k then Some v else hm_get m j)"
  by (simp add: update_conv')

lemma hm_keys_remove [simp]: "hm_keys (hm_remove k m) = removeAll k (hm_keys m)"
  by (induction m) auto

lemma set_hm_keys_insert [simp]: "fst ` set (hm_insert k v m) = insert k (fst ` set m)"
  by (induction m) auto

lemma set_hm_keys_remove [simp]: "fst ` set (hm_remove k m) = fst ` set m - {k}"
  by (metis hm_keys_remove list.set_map set_removeAll)

lemma hm_get_key: "hm_get m k = Some e \<Longrightarrow> k \<in> fst ` set m"
  by (induction m) (auto split: if_splits)

lemma hm_key_get: "k \<in> fst ` set m \<Longrightarrow> \<exists>e. hm_get m k = Some e"
  by (induction m) auto

subsection \<open>File names\<close>

lemma set_map_filter: "set (List.map_filter r xs) = {y. \<exists>x \<in> set xs. r x = Some y}"
  by (induction xs) (auto split: option.splits)

text \<open>
  A file name split into \<open>file_stem\<close> and \<open>extension\<close>: the extension follows the last dot, unless
  that dot starts the name.
\<close>

definition split_ext :: "'a \<Rightarrow> 'a list \<Rightarrow> 'a list \<times> 'a list option" where
  "split_ext dot n =
     (let ext = rev (takeWhile (\<lambda>b. b \<noteq> dot) (rev n))
      in if dot \<notin> set n \<or> n = [dot, dot] \<or> length n = Suc (length ext) then (n, None)
         else (take (length n - Suc (length ext)) n, Some ext))"

lemma split_ext_none [simp]: "dot \<notin> set n \<Longrightarrow> split_ext dot n = (n, None)"
  by (simp add: split_ext_def Let_def)

lemma split_ext_append [simp]:
  assumes "dot \<notin> set ext" "n \<noteq> []" "n \<noteq> [dot] \<or> ext \<noteq> []"
  shows "split_ext dot (n @ dot # ext) = (n, Some ext)"
proof -
  have "takeWhile (\<lambda>b. b \<noteq> dot) (rev ext @ dot # rev n) = rev ext"
    using assms(1) by (subst takeWhile_append2) auto
  then show ?thesis
    using assms by (auto simp: split_ext_def Let_def Cons_eq_append_conv append_eq_Cons_conv)
qed

subsection \<open>Counting in lists\<close>

lemma count_list_le_length_filter:
  "count_list xs x \<le> length (filter P xs)" if "P x"
  using that by (induction xs) auto

lemma length_filter_remove_one:
  assumes "P x"
  shows "length (filter (\<lambda>z. P z \<and> z \<noteq> x) xs) = length (filter P xs) - count_list xs x"
  using assms
proof (induction xs)
  case Nil
  then show ?case by simp
next
  case (Cons y xs)
  then show ?case
    using count_list_le_length_filter[of P x xs] by (auto simp: Suc_diff_le)
qed

lemma length_filter_update:
  "i < length xs \<Longrightarrow>
     length (filter P (xs[i := x])) + (if P (xs ! i) then 1 else 0)
       = length (filter P xs) + (if P x then 1 else 0)"
proof -
  assume i: "i < length xs"
  have "filter P xs = filter P (take i xs) @ filter P [xs ! i] @ filter P (drop (Suc i) xs)"
    using id_take_nth_drop[OF i] by (metis append_Cons append_Nil filter_append)
  moreover have "filter P (xs[i := x]) = filter P (take i xs) @ filter P [x] @ filter P (drop (Suc i) xs)"
    using i by (simp add: upd_conv_take_nth_drop)
  ultimately show ?thesis by simp
qed

lemma count_list_pos_iff: "0 < count_list xs x \<longleftrightarrow> x \<in> set xs"
  by (induction xs) auto

subsection \<open>Relations on finite sets of node numbers\<close>

lemma rtrancl_closed:
  assumes "(x, y) \<in> r\<^sup>*" "x \<in> S" "\<And>a b. a \<in> S \<Longrightarrow> (a, b) \<in> r \<Longrightarrow> b \<in> S"
  shows "y \<in> S"
  using assms by (induction rule: rtrancl_induct) auto

lemma acyclic_has_source:
  assumes "finite S" "S \<noteq> {}" "acyclic r"
  shows "\<exists>x\<in>S. \<forall>y\<in>S. (y, x) \<notin> r"
proof -
  have "wf (r \<inter> S \<times> S)"
    using assms by (intro finite_acyclic_wf) (auto intro: acyclic_subset)
  then have "\<forall>Q. (\<exists>x. x \<in> Q) \<longrightarrow> (\<exists>z\<in>Q. \<forall>y. (y, z) \<in> r \<inter> S \<times> S \<longrightarrow> y \<notin> Q)"
    by (simp add: wf_eq_minimal)
  with \<open>S \<noteq> {}\<close> have "\<exists>z\<in>S. \<forall>y. (y, z) \<in> r \<inter> S \<times> S \<longrightarrow> y \<notin> S"
    by (elim allE[of _ S]) (simp add: ex_in_conv)
  then show ?thesis by auto
qed

lemma acyclic_by_rank:
  assumes "\<And>x y. (x, y) \<in> r \<Longrightarrow> f x < (f y :: nat)"
  shows "acyclic r"
proof (rule acyclicI, rule allI, rule notI)
  fix x assume "(x, x) \<in> r\<^sup>+"
  moreover have "(x, y) \<in> r\<^sup>+ \<Longrightarrow> f x < f y" for x y
    by (induction rule: trancl_induct) (auto dest: assms intro: less_trans)
  ultimately show False by blast
qed

text \<open>Positions in a duplicate-free order.\<close>

definition precedes :: "'a list \<Rightarrow> 'a \<Rightarrow> 'a \<Rightarrow> bool" where
  "precedes xs a b \<longleftrightarrow> (\<exists>i j. i < j \<and> j < length xs \<and> xs ! i = a \<and> xs ! j = b)"

lemma precedes_iff_take:
  "precedes xs a b \<longleftrightarrow> (\<exists>j < length xs. xs ! j = b \<and> a \<in> set (take j xs))"
  by (auto simp: precedes_def in_set_conv_nth nth_image)
     (metis dual_order.strict_trans nth_take)+

lemma precedes_append: "precedes xs a b \<Longrightarrow> precedes (xs @ ys) a b"
  unfolding precedes_def
  by (elim exE conjE, rule_tac x = i in exI, rule_tac x = j in exI) (auto simp: nth_append)

lemma precedes_rank:
  assumes "distinct xs" "precedes xs a b"
  shows "(THE i. i < length xs \<and> xs ! i = a) < (THE i. i < length xs \<and> xs ! i = b)"
proof -
  from assms(2) obtain i j where ij: "i < j" "j < length xs" "xs ! i = a" "xs ! j = b"
    by (auto simp: precedes_def)
  have "(THE k. k < length xs \<and> xs ! k = a) = i"
    using ij assms(1) by (intro the_equality) (auto simp: nth_eq_iff_index_eq)
  moreover have "(THE k. k < length xs \<and> xs ! k = b) = j"
    using ij assms(1) by (intro the_equality) (auto simp: nth_eq_iff_index_eq)
  ultimately show ?thesis using ij by simp
qed

end
