(* ===== verification/Task_State.thy ===== *)
theory Task_State
  imports Fish_Prelude
begin

text \<open>
  The life cycle of a node of the build graph: \<open>fish-graph/src/state.rs\<close>.
\<close>

datatype task_state =
    Pending | Ready | Running | Succeeded | Failed | Skipped | Cached | Cancelled

fun is_terminal :: "task_state \<Rightarrow> bool" where
  "is_terminal Succeeded = True"
| "is_terminal Failed = True"
| "is_terminal Skipped = True"
| "is_terminal Cached = True"
| "is_terminal Cancelled = True"
| "is_terminal _ = False"

fun is_successful :: "task_state \<Rightarrow> bool" where
  "is_successful Succeeded = True"
| "is_successful Skipped = True"
| "is_successful Cached = True"
| "is_successful _ = False"

fun is_unsuccessful :: "task_state \<Rightarrow> bool" where
  "is_unsuccessful Failed = True"
| "is_unsuccessful Cancelled = True"
| "is_unsuccessful _ = False"

text \<open>A terminal state is exactly one of successful and unsuccessful.\<close>

lemma terminal_iff: "is_terminal s \<longleftrightarrow> is_successful s \<or> is_unsuccessful s"
  by (cases s) auto

lemma successful_not_unsuccessful [simp]: "is_successful s \<Longrightarrow> \<not> is_unsuccessful s"
  by (cases s) auto

lemma successful_terminal [simp]: "is_successful s \<Longrightarrow> is_terminal s"
  by (simp add: terminal_iff)

lemma unsuccessful_terminal [simp]: "is_unsuccessful s \<Longrightarrow> is_terminal s"
  by (simp add: terminal_iff)

end
