(* ===== verification/Dag.thy ===== *)
theory Dag
  imports Fish_Prelude
begin

text \<open>
  The interface between the build graph and the components that walk it (ordering,
  scheduling, queries): a type of graphs over the node numbers \<open>0 ..< size g\<close> with
  predecessor and successor lists that are converse with multiplicity and acyclic.
  The theory also holds the loop shape the source uses four times on such graphs: one pass
  along a topological order that fills a vector from the entries of the predecessors.
\<close>

locale dag =
  fixes invar :: "'g \<Rightarrow> bool"
    and size_of :: "'g \<Rightarrow> nat"
    and preds :: "'g \<Rightarrow> nat \<Rightarrow> nat list"
    and succs :: "'g \<Rightarrow> nat \<Rightarrow> nat list"
  assumes converse_count: "invar g \<Longrightarrow> count_list (preds g y) x = count_list (succs g x) y"
    and succs_bound: "invar g \<Longrightarrow> y \<in> set (succs g x) \<Longrightarrow> x < size_of g \<and> y < size_of g"
    and succs_acyclic: "invar g \<Longrightarrow> acyclic {(x, y). y \<in> set (succs g x)}"
begin

lemma preds_iff_succs: "invar g \<Longrightarrow> x \<in> set (preds g y) \<longleftrightarrow> y \<in> set (succs g x)"
  by (metis converse_count count_list_pos_iff)

lemma preds_bound: "invar g \<Longrightarrow> x \<in> set (preds g y) \<Longrightarrow> x < size_of g \<and> y < size_of g"
  by (auto simp: preds_iff_succs dest: succs_bound)

lemma has_source:
  assumes "invar g" "finite S" "S \<noteq> {}"
  shows "\<exists>x\<in>S. set (preds g x) \<inter> S = {}"
proof -
  obtain x where "x \<in> S" "\<And>y. y \<in> S \<Longrightarrow> x \<notin> set (succs g y)"
    using acyclic_has_source[OF assms(2,3) succs_acyclic[OF assms(1)]] by auto
  then show ?thesis using assms(1) by (intro bexI[of _ x]) (auto simp: preds_iff_succs)
qed

text \<open>
  The progress argument of a scheduler: if some node of \<open>S\<close> is left, one of them has all
  its predecessors outside of \<open>S\<close>.
\<close>

lemma some_unblocked:
  assumes "invar g" "x < size_of g" "P x"
  shows "\<exists>y < size_of g. P y \<and> (\<forall>z \<in> set (preds g y). \<not> P z)"
proof -
  let ?S = "{y. y < size_of g \<and> P y}"
  have "finite ?S" "?S \<noteq> {}" using assms by auto
  from has_source[OF assms(1) this] obtain y where
    "y \<in> ?S" "set (preds g y) \<inter> ?S = {}" by blast
  with assms(1) show ?thesis by (auto dest: preds_bound)
qed

lemma no_self_loop: "invar g \<Longrightarrow> x \<notin> set (preds g x)"
  using succs_acyclic[of g] by (auto simp: preds_iff_succs acyclic_def)

text \<open>A rank below the size: the longest walk is bounded by the number of nodes.\<close>

lemma bounded_rank:
  assumes "invar g"
  obtains f :: "nat \<Rightarrow> nat"
    where "\<And>x y. y \<in> set (succs g x) \<Longrightarrow> f x < f y" "\<And>x. x < size_of g \<Longrightarrow> f x < size_of g"
proof -
  let ?r = "{(x, y). y \<in> set (succs g x)}"
  define f where "f y = card {z. (z, y) \<in> ?r\<^sup>+}" for y
  have sub: "{z. (z, y) \<in> ?r\<^sup>+} \<subseteq> {..<size_of g}" for y
    using assms by (auto dest!: tranclD dest: succs_bound)
  have ac: "(y, y) \<notin> ?r\<^sup>+" for y
    using succs_acyclic[OF assms] unfolding acyclic_def by blast
  have "f x < f y" if "y \<in> set (succs g x)" for x y
  proof -
    have xy: "(x, y) \<in> ?r" using that by simp
    have "{z. (z, x) \<in> ?r\<^sup>+} \<subseteq> {z. (z, y) \<in> ?r\<^sup>+}"
      using xy by (blast intro: trancl_into_trancl)
    moreover have "x \<in> {z. (z, y) \<in> ?r\<^sup>+}" using xy by blast
    ultimately have "{z. (z, x) \<in> ?r\<^sup>+} \<subset> {z. (z, y) \<in> ?r\<^sup>+}"
      using ac[of x] by blast
    then show ?thesis
      unfolding f_def by (rule psubset_card_mono[OF finite_subset[OF sub finite_lessThan]])
  qed
  moreover have "f x < size_of g" if "x < size_of g" for x
  proof -
    have "x \<in> {..<size_of g}" "x \<notin> {z. (z, x) \<in> ?r\<^sup>+}" using that ac[of x] by simp_all
    then have "{z. (z, x) \<in> ?r\<^sup>+} \<subset> {..<size_of g}" using sub[of x] by blast
    then have "f x < card {..<size_of g}"
      unfolding f_def by (rule psubset_card_mono[OF finite_lessThan])
    then show ?thesis by simp
  qed
  ultimately show ?thesis using that by blast
qed

end

subsection \<open>Topological enumerations and passes along them\<close>

definition topo_enum :: "(nat \<Rightarrow> nat list) \<Rightarrow> nat \<Rightarrow> nat list \<Rightarrow> bool" where
  "topo_enum ps n order \<longleftrightarrow>
     distinct order \<and> set order = {..<n} \<and>
     (\<forall>i < length order. set (ps (order ! i)) \<subseteq> set (take i order))"

text \<open>
  \<open>vec[id] = f(id, [vec[p] for p in ps(id)])\<close>, with the panics of the two index
  expressions.
\<close>

definition dp_step :: "(nat \<Rightarrow> nat list) \<Rightarrow> (nat \<Rightarrow> 'v list \<Rightarrow> 'v) \<Rightarrow> 'v list \<Rightarrow> nat \<Rightarrow> 'v list option" where
  "dp_step ps f vec i =
     (case opt_all (map (vec_get vec) (ps i)) of
        None \<Rightarrow> None
      | Some vs \<Rightarrow> vec_set vec i (f i vs))"

definition prefix_closed :: "(nat \<Rightarrow> nat list) \<Rightarrow> nat list \<Rightarrow> bool" where
  "prefix_closed ps xs \<longleftrightarrow> (\<forall>i < length xs. set (ps (xs ! i)) \<subseteq> set (take i xs))"

lemma prefix_closed_snoc:
  "prefix_closed ps (xs @ [x]) \<longleftrightarrow> prefix_closed ps xs \<and> set (ps x) \<subseteq> set xs"
  by (auto simp: prefix_closed_def nth_append less_Suc_eq)

lemma prefix_closed_subset: "prefix_closed ps xs \<Longrightarrow> x \<in> set xs \<Longrightarrow> set (ps x) \<subseteq> set xs"
  unfolding prefix_closed_def by (metis dual_order.trans in_set_conv_nth set_take_subset)

lemma topo_enum_prefix_closed: "topo_enum ps n order \<Longrightarrow> prefix_closed ps order"
  by (simp add: topo_enum_def prefix_closed_def)

lemma dp_step_eq:
  assumes "set (ps i) \<subseteq> {..<length vec}" "i < length vec"
  shows "dp_step ps f vec i = Some (vec[i := f i (map ((!) vec) (ps i))])"
proof -
  have "opt_all (map (vec_get vec) (ps i)) = Some (map ((!) vec) (ps i))"
    using assms(1) by (intro opt_all_map_Some) auto
  with assms(2) show ?thesis by (simp add: dp_step_def)
qed

lemma dp_fold_prefix:
  assumes "prefix_closed ps xs" "distinct xs" "set xs \<subseteq> {..<n}" "length v0 = n"
  shows "\<exists>vec. fold_opt (dp_step ps f) v0 xs = Some vec \<and> length vec = n \<and>
           (\<forall>x \<in> set xs. vec ! x = f x (map ((!) vec) (ps x)))"
  using assms
proof (induction xs rule: rev_induct)
  case Nil
  then show ?case by simp
next
  case (snoc x xs)
  then obtain vec where
    vec: "fold_opt (dp_step ps f) v0 xs = Some vec" "length vec = n"
      "\<And>y. y \<in> set xs \<Longrightarrow> vec ! y = f y (map ((!) vec) (ps y))"
    by (auto simp: prefix_closed_snoc)
  let ?vec = "vec[x := f x (map ((!) vec) (ps x))]"
  have x: "x \<notin> set xs" "x < n" "set (ps x) \<subseteq> set xs"
    using snoc.prems by (auto simp: prefix_closed_snoc)
  have unchanged: "map ((!) ?vec) (ps y) = map ((!) vec) (ps y)" if "set (ps y) \<subseteq> set xs" for y
    using that x by (intro map_cong refl nth_list_update_neq) blast
  have "dp_step ps f vec x = Some ?vec"
    using x snoc.prems vec(2) by (intro dp_step_eq) auto
  moreover have "?vec ! y = f y (map ((!) ?vec) (ps y))" if "y \<in> set (xs @ [x])" for y
  proof (cases "y = x")
    case True
    then show ?thesis using unchanged[OF x(3)] x(2) vec(2) by (simp del: map_eq_conv)
  next
    case False
    then have y: "y \<in> set xs" using that by simp
    have "set (ps y) \<subseteq> set xs"
      using snoc.prems(1) y by (auto simp: prefix_closed_snoc dest: prefix_closed_subset)
    then show ?thesis using False vec(3)[OF y] unchanged by (simp del: map_eq_conv)
  qed
  ultimately show ?case using vec(1,2) by (auto simp: fold_opt_append)
qed

lemma dp_fold:
  assumes "topo_enum ps n order" "length v0 = n"
  obtains vec where "fold_opt (dp_step ps f) v0 order = Some vec" "length vec = n"
    "\<And>x. x < n \<Longrightarrow> vec ! x = f x (map ((!) vec) (ps x))"
proof -
  from assms have "prefix_closed ps order" "distinct order" "set order = {..<n}"
    by (auto simp: topo_enum_def prefix_closed_def)
  with dp_fold_prefix[of ps order n v0 f] assms(2) that show ?thesis by auto
qed

lemma topo_enum_precedes:
  assumes "topo_enum ps n order" "y < n" "x \<in> set (ps y)"
  shows "precedes order x y"
proof -
  from assms(1,2) obtain j where "j < length order" "order ! j = y"
    by (metis in_set_conv_nth lessThan_iff topo_enum_def)
  with assms(1,3) show ?thesis by (auto simp: topo_enum_def precedes_iff_take)
qed

context dag
begin

text \<open>Read backwards, a topological order enumerates the converse graph.\<close>

lemma topo_enum_rev:
  assumes g: "invar g" and t: "topo_enum (preds g) (size_of g) order"
  shows "topo_enum (succs g) (size_of g) (rev order)"
proof -
  let ?m = "length order"
  have "set (succs g (rev order ! i)) \<subseteq> set (take i (rev order))" if i: "i < ?m" for i
  proof
    fix y assume y: "y \<in> set (succs g (rev order ! i))"
    let ?k = "?m - Suc i"
    have k: "rev order ! i = order ! ?k" "?k < ?m" using i by (auto simp: rev_nth)
    have x: "order ! ?k \<in> set (preds g y)" using y g k by (simp add: preds_iff_succs)
    obtain j where j: "j < ?m" "order ! j = y"
      using succs_bound[OF g y] t by (metis in_set_conv_nth lessThan_iff topo_enum_def)
    with x t have "order ! ?k \<in> set (take j order)" by (auto simp: topo_enum_def)
    then obtain l where "l < j" "order ! l = order ! ?k"
      using j(1) by (auto simp: in_set_conv_nth)
    then have "?k < j" using t j(1) k(2) by (auto simp: topo_enum_def nth_eq_iff_index_eq)
    then have "rev order ! (?m - Suc j) = y" "?m - Suc j < i"
      using j i by (auto simp: rev_nth)
    then show "y \<in> set (take i (rev order))"
      using i by (auto simp: in_set_conv_nth intro!: exI[of _ "?m - Suc j"])
  qed
  with t show ?thesis by (simp add: topo_enum_def)
qed

end

end
