(* ===== verification/Build_Graph.thy ===== *)
theory Build_Graph
  imports Task_State Dag
begin

text \<open>
  The build graph of \<open>fish-graph/src/graph.rs\<close> and its error type
  (\<open>fish-graph/src/error.rs\<close>): construction, cycle-checked edges, queries of one node.

  A \<open>NodeId\<close> is the number of its slot. An edge points from a dependency to its dependent.
  The fields of the Rust struct are private, so every graph of the program is built by the
  operations below (those of a node are public, see \<open>node_mut\<close>); \<open>shape_ok\<close> and \<open>wf_graph\<close> are the invariants they keep: the three
  vectors have one length, the two adjacency vectors are converse to each other with
  multiplicity (parallel edges are allowed), and the edges are acyclic. They make the
  panicking index expressions of the source (\<open>self.deps[dependent.0]\<close>) safe.
\<close>

datatype graph_error =
    MissingNode nat
  | SelfDependency nat
  | Cycle (dependency: nat) (dependent: nat)

record 'a node =
  node_id :: nat
  payload :: 'a
  state :: task_state

record 'a build_graph =
  nodes :: "'a node list"
  deps :: "nat list list"
  dependents :: "nat list list"

definition new_graph :: "'a build_graph" where
  "new_graph = \<lparr>nodes = [], deps = [], dependents = []\<rparr>"

definition is_empty_graph :: "'a build_graph \<Rightarrow> bool" where
  "is_empty_graph g \<longleftrightarrow> nodes g = []"

definition len :: "'a build_graph \<Rightarrow> nat" where
  "len g = length (nodes g)"

definition add_node :: "'a \<Rightarrow> 'a build_graph \<Rightarrow> nat \<times> 'a build_graph" where
  "add_node p g =
     (let i = length (nodes g)
      in (i, g\<lparr>nodes := nodes g @ [\<lparr>node_id = i, payload = p, state = Pending\<rparr>],
               deps := deps g @ [[]],
               dependents := dependents g @ [[]]\<rparr>))"

definition get_node :: "'a build_graph \<Rightarrow> nat \<Rightarrow> 'a node option" where
  "get_node g i = vec_get (nodes g) i"

text \<open>
  \<open>node_mut\<close> hands out a mutable reference to a node, all of whose fields are public; \<open>w\<close> is what its
  holder writes there.
\<close>

definition node_mut :: "nat \<Rightarrow> ('a node \<Rightarrow> 'a node) \<Rightarrow> 'a build_graph \<Rightarrow> 'a build_graph option" where
  "node_mut i w g =
     (case get_node g i of None \<Rightarrow> None | Some nd \<Rightarrow> Some (g\<lparr>nodes := (nodes g)[i := w nd]\<rparr>))"

definition state_of :: "'a build_graph \<Rightarrow> nat \<Rightarrow> graph_error + task_state" where
  "state_of g i =
     (case get_node g i of None \<Rightarrow> Inl (MissingNode i) | Some nd \<Rightarrow> Inr (state nd))"

definition set_state :: "nat \<Rightarrow> task_state \<Rightarrow> 'a build_graph \<Rightarrow> graph_error + 'a build_graph" where
  "set_state i st g =
     (case get_node g i of
        None \<Rightarrow> Inl (MissingNode i)
      | Some nd \<Rightarrow> Inr (g\<lparr>nodes := (nodes g)[i := nd\<lparr>state := st\<rparr>]\<rparr>))"

definition deps_of :: "'a build_graph \<Rightarrow> nat \<Rightarrow> graph_error + nat list" where
  "deps_of g i = (case vec_get (deps g) i of None \<Rightarrow> Inl (MissingNode i) | Some ds \<Rightarrow> Inr ds)"

definition dependents_of :: "'a build_graph \<Rightarrow> nat \<Rightarrow> graph_error + nat list" where
  "dependents_of g i =
     (case vec_get (dependents g) i of None \<Rightarrow> Inl (MissingNode i) | Some ds \<Rightarrow> Inr ds)"

text \<open>\<open>unwrap_or_default()\<close> of the two lookups.\<close>

definition deps_or_empty :: "'a build_graph \<Rightarrow> nat \<Rightarrow> nat list" where
  "deps_or_empty g i = (case deps_of g i of Inl _ \<Rightarrow> [] | Inr ds \<Rightarrow> ds)"

definition dependents_or_empty :: "'a build_graph \<Rightarrow> nat \<Rightarrow> nat list" where
  "dependents_or_empty g i = (case dependents_of g i of Inl _ \<Rightarrow> [] | Inr ds \<Rightarrow> ds)"

subsection \<open>Reachability: the breadth-first search behind the cycle check\<close>

text \<open>
  The loop of \<open>reaches\<close>: \<open>seen\<close> is the bit vector of length \<open>n\<close>, the list is the
  \<open>VecDeque\<close> with its front first. A node is expanded at most once, so the search stops.
\<close>

function reaches_loop :: "'a build_graph \<Rightarrow> nat \<Rightarrow> bool list \<Rightarrow> nat list \<Rightarrow> bool" where
  "reaches_loop g to seen [] = False"
| "reaches_loop g to seen (i # queue) =
     (if i = to then True
      else if i < length seen \<and> \<not> seen ! i
      then reaches_loop g to (seen[i := True])
             (case vec_get (dependents g) i of
                Some ds \<Rightarrow> queue @ ds
              | None \<Rightarrow> queue)
      else reaches_loop g to seen queue)"
  by pat_completeness auto

lemma length_filter_not_update:
  "i < length seen \<Longrightarrow> \<not> seen ! i \<Longrightarrow> length (filter Not (seen[i := True])) < length (filter Not seen)"
  using length_filter_update[of i seen Not True] by simp

termination reaches_loop
  by (relation "measures [\<lambda>(g, to, seen, queue). length (filter Not seen), \<lambda>(g, to, seen, queue). length queue]")
     (auto simp: length_filter_not_update)

declare reaches_loop.simps(2) [simp del]

definition reaches :: "'a build_graph \<Rightarrow> nat \<Rightarrow> nat \<Rightarrow> bool" where
  "reaches g from to = reaches_loop g to (replicate (length (nodes g)) False) [from]"

definition push_at :: "'a list list \<Rightarrow> nat \<Rightarrow> 'a \<Rightarrow> 'a list list" where
  "push_at xss i x = xss[i := xss ! i @ [x]]"

definition add_dependency :: "nat \<Rightarrow> nat \<Rightarrow> 'a build_graph \<Rightarrow> graph_error + 'a build_graph" where
  "add_dependency dep dnt g =
     (if Option.is_none (get_node g dep) then Inl (MissingNode dep)
      else if Option.is_none (get_node g dnt) then Inl (MissingNode dnt)
      else if dep = dnt then Inl (SelfDependency dep)
      else if reaches g dnt dep then Inl (Cycle dep dnt)
      else Inr (g\<lparr>deps := push_at (deps g) dnt dep,
                 dependents := push_at (dependents g) dep dnt\<rparr>))"

subsection \<open>Edges and well-formedness\<close>

definition succ_rel :: "nat list list \<Rightarrow> (nat \<times> nat) set" where
  "succ_rel ds = {(x, y). x < length ds \<and> y \<in> set (ds ! x)}"

definition edges :: "'a build_graph \<Rightarrow> (nat \<times> nat) set" where
  "edges g = succ_rel (dependents g)"

definition shape_ok :: "'a build_graph \<Rightarrow> bool" where
  "shape_ok g \<longleftrightarrow>
     length (deps g) = len g \<and> length (dependents g) = len g \<and>
     (\<forall>i < len g. node_id (nodes g ! i) = i) \<and>
     (\<forall>y < len g. \<forall>x \<in> set (deps g ! y). x < len g) \<and>
     (\<forall>x < len g. \<forall>y \<in> set (dependents g ! x). y < len g) \<and>
     (\<forall>x < len g. \<forall>y < len g. count_list (deps g ! y) x = count_list (dependents g ! x) y)"

definition wf_graph :: "'a build_graph \<Rightarrow> bool" where
  "wf_graph g \<longleftrightarrow> shape_ok g \<and> acyclic (edges g)"

lemma length_nodes [simp]: "length (nodes g) = len g"
  by (simp add: len_def)

lemma shape_lengths [simp]:
  "shape_ok g \<Longrightarrow> length (deps g) = len g" "shape_ok g \<Longrightarrow> length (dependents g) = len g"
  by (simp_all add: shape_ok_def)

lemma wf_shape [simp]: "wf_graph g \<Longrightarrow> shape_ok g"
  by (simp add: wf_graph_def)

lemma wf_acyclic: "wf_graph g \<Longrightarrow> acyclic (edges g)"
  by (simp add: wf_graph_def)

lemma get_node_Some [simp]: "i < len g \<Longrightarrow> get_node g i = Some (nodes g ! i)"
  by (simp add: get_node_def)

lemma get_node_None [simp]: "\<not> i < len g \<Longrightarrow> get_node g i = None"
  by (simp add: get_node_def)

lemma is_none_get_node [simp]: "Option.is_none (get_node g i) \<longleftrightarrow> \<not> i < len g"
  by (cases "i < len g") (simp_all)

lemma state_of_eq [simp]: "i < len g \<Longrightarrow> state_of g i = Inr (state (nodes g ! i))"
  by (simp add: state_of_def)

lemma deps_of_eq [simp]: "shape_ok g \<Longrightarrow> i < len g \<Longrightarrow> deps_of g i = Inr (deps g ! i)"
  by (simp add: deps_of_def)

lemma dependents_of_eq [simp]:
  "shape_ok g \<Longrightarrow> i < len g \<Longrightarrow> dependents_of g i = Inr (dependents g ! i)"
  by (simp add: dependents_of_def)

lemma deps_or_empty_eq:
  "shape_ok g \<Longrightarrow> deps_or_empty g i = (if i < len g then deps g ! i else [])"
  by (simp add: deps_or_empty_def deps_of_def)

lemma dependents_or_empty_eq:
  "shape_ok g \<Longrightarrow> dependents_or_empty g i = (if i < len g then dependents g ! i else [])"
  by (simp add: dependents_or_empty_def dependents_of_def)

lemma shape_deps_bound: "shape_ok g \<Longrightarrow> y < len g \<Longrightarrow> x \<in> set (deps g ! y) \<Longrightarrow> x < len g"
  unfolding shape_ok_def by blast

lemma shape_dependents_bound:
  "shape_ok g \<Longrightarrow> x < len g \<Longrightarrow> y \<in> set (dependents g ! x) \<Longrightarrow> y < len g"
  unfolding shape_ok_def by blast

lemma shape_converse_count:
  "shape_ok g \<Longrightarrow> x < len g \<Longrightarrow> y < len g \<Longrightarrow>
     count_list (deps g ! y) x = count_list (dependents g ! x) y"
  unfolding shape_ok_def by blast

lemma shape_okI:
  assumes "length (deps g) = len g" "length (dependents g) = len g"
    and "\<And>i. i < len g \<Longrightarrow> node_id (nodes g ! i) = i"
    and "\<And>x y. y < len g \<Longrightarrow> x \<in> set (deps g ! y) \<Longrightarrow> x < len g"
    and "\<And>x y. x < len g \<Longrightarrow> y \<in> set (dependents g ! x) \<Longrightarrow> y < len g"
    and "\<And>x y. x < len g \<Longrightarrow> y < len g \<Longrightarrow>
           count_list (deps g ! y) x = count_list (dependents g ! x) y"
  shows "shape_ok g"
  using assms unfolding shape_ok_def by blast

lemma node_id_eq: "shape_ok g \<Longrightarrow> i < len g \<Longrightarrow> node_id (nodes g ! i) = i"
  unfolding shape_ok_def by blast

lemma edges_dependents: "shape_ok g \<Longrightarrow> (x, y) \<in> edges g \<longleftrightarrow> x < len g \<and> y \<in> set (dependents g ! x)"
  by (simp add: edges_def succ_rel_def)

lemma edges_deps: "shape_ok g \<Longrightarrow> (x, y) \<in> edges g \<longleftrightarrow> y < len g \<and> x \<in> set (deps g ! y)"
  by (metis count_list_pos_iff edges_dependents shape_converse_count
      shape_dependents_bound shape_deps_bound)

lemma edges_bound: "shape_ok g \<Longrightarrow> (x, y) \<in> edges g \<Longrightarrow> x < len g \<and> y < len g"
  by (auto simp: edges_dependents shape_dependents_bound)

lemma finite_edges: "shape_ok g \<Longrightarrow> finite (edges g)"
  by (rule finite_subset[of _ "{..<len g} \<times> {..<len g}"]) (auto dest: edges_bound)

lemma edges_rtrancl_bound: "shape_ok g \<Longrightarrow> (x, y) \<in> (edges g)\<^sup>* \<Longrightarrow> x < len g \<Longrightarrow> y < len g"
  by (rule rtrancl_closed[of x y "edges g" "{..<len g}", simplified]) (auto dest: edges_bound)

subsection \<open>The search is correct\<close>

lemma reaches_loop_sound:
  "reaches_loop g to seen queue \<Longrightarrow> \<exists>q \<in> set queue. (q, to) \<in> (edges g)\<^sup>*"
proof (induction g to seen queue rule: reaches_loop.induct)
  case (1 g to seen)
  then show ?case by simp
next
  case (2 g to seen i queue)
  consider "i = to" | "i \<noteq> to" "i < length seen \<and> \<not> seen ! i"
    | "i \<noteq> to" "\<not> (i < length seen \<and> \<not> seen ! i)" by blast
  then show ?case
  proof cases
    case 1
    then show ?thesis by auto
  next
    case 2
    from "2.prems" 2 have "reaches_loop g to (seen[i := True])
        (case vec_get (dependents g) i of Some ds \<Rightarrow> queue @ ds | None \<Rightarrow> queue)"
      by (simp add: reaches_loop.simps(2))
    with "2.IH"(1)[OF 2] obtain q where
      q: "q \<in> set (case vec_get (dependents g) i of Some ds \<Rightarrow> queue @ ds | None \<Rightarrow> queue)"
        "(q, to) \<in> (edges g)\<^sup>*" by blast
    show ?thesis
    proof (cases "q \<in> set queue")
      case True
      with q show ?thesis by auto
    next
      case False
      with q have "(i, q) \<in> edges g"
        by (cases "i < length (dependents g)") (auto simp: edges_def succ_rel_def)
      with q show ?thesis by (auto intro: converse_rtrancl_into_rtrancl)
    qed
  next
    case 3
    from "2.prems" 3 have "reaches_loop g to seen queue"
      by (subst (asm) reaches_loop.simps(2)) (simp split: if_splits)
    with "2.IH"(2)[OF 3] show ?thesis by auto
  qed
qed

text \<open>
  Completeness: whenever the successors of the visited nodes are visited or queued, a search
  that answers \<open>False\<close> has explored a set closed under edges that misses the target.
\<close>

lemma reaches_loop_complete:
  assumes "\<not> reaches_loop g to seen queue" "length seen = length (dependents g)"
    and "\<And>x y. x < length seen \<Longrightarrow> seen ! x \<Longrightarrow> y \<in> set (dependents g ! x) \<Longrightarrow>
            y \<in> set queue \<or> (if y < length seen then seen ! y else y \<noteq> to)"
    and "\<And>x. x < length seen \<Longrightarrow> seen ! x \<Longrightarrow> x \<noteq> to"
    and "q \<in> set queue \<or> (q < length seen \<and> seen ! q)"
  shows "(q, to) \<notin> (edges g)\<^sup>*"
  using assms
proof (induction g to seen queue arbitrary: q rule: reaches_loop.induct)
  case (1 g to seen)
  show ?case
  proof
    let ?S = "{x. if x < length seen then seen ! x else x \<noteq> to}"
    assume "(q, to) \<in> (edges g)\<^sup>*"
    moreover have "q \<in> ?S" using "1.prems"(5) by simp
    moreover have "y \<in> ?S" if "x \<in> ?S" "(x, y) \<in> edges g" for x y
      using that "1.prems"(2) "1.prems"(3)[of x y] by (simp add: edges_def succ_rel_def)
    ultimately have "to \<in> ?S" by (rule rtrancl_closed)
    with "1.prems"(4)[of to] show False by (simp split: if_splits)
  qed
next
  case (2 g to seen i queue)
  have ne: "i \<noteq> to" using "2.prems"(1) by (auto simp: reaches_loop.simps)
  show ?case
  proof (cases "i < length seen \<and> \<not> seen ! i")
    case True
    let ?queue = "case vec_get (dependents g) i of Some ds \<Rightarrow> queue @ ds | None \<Rightarrow> queue"
    have q': "?queue = queue @ dependents g ! i"
      using True "2.prems"(2) by simp
    have *: "\<And>q. q \<in> set ?queue \<or> (q < length seen \<and> seen[i := True] ! q) \<Longrightarrow> (q, to) \<notin> (edges g)\<^sup>*"
    proof (rule "2.IH"(1)[OF ne True])
      show "\<not> reaches_loop g to (seen[i := True]) ?queue"
        using "2.prems"(1) True ne by (simp add: reaches_loop.simps(2))
      show "length (seen[i := True]) = length (dependents g)" using "2.prems"(2) by simp
    next
      fix q x y
      assume "x < length (seen[i := True])" "seen[i := True] ! x" "y \<in> set (dependents g ! x)"
      then show "y \<in> set ?queue \<or> (if y < length (seen[i := True]) then seen[i := True] ! y else y \<noteq> to)"
        using True "2.prems"(3)[of x y] unfolding q' by (cases "x = i") (auto simp: nth_list_update)
    next
      fix q x
      assume "x < length (seen[i := True])" "seen[i := True] ! x"
      then show "x \<noteq> to" using True ne "2.prems"(4)[of x] by (cases "x = i") auto
    qed auto
    show ?thesis
      by (rule *) (use "2.prems"(5) True in \<open>auto simp: q' nth_list_update\<close>)
  next
    case False
    have *: "\<And>q. q \<in> set queue \<or> (q < length seen \<and> seen ! q) \<Longrightarrow> (q, to) \<notin> (edges g)\<^sup>*"
    proof (rule "2.IH"(2)[OF ne False])
      show "\<not> reaches_loop g to seen queue"
        using "2.prems"(1) False ne by (subst (asm) reaches_loop.simps(2)) (simp split: if_splits)
    next
      fix q x y
      assume "x < length seen" "seen ! x" "y \<in> set (dependents g ! x)"
      with "2.prems"(3)[of x y] False
      show "y \<in> set queue \<or> (if y < length seen then seen ! y else y \<noteq> to)" using ne by auto
    qed (use "2.prems" in auto)
    have "q \<noteq> i \<or> i < length seen \<Longrightarrow> ?thesis"
      using * [of q] "2.prems"(5) False by auto
    moreover have "\<not> i < length seen \<Longrightarrow> (i, to) \<notin> (edges g)\<^sup>*"
      using ne "2.prems"(2)
      by (auto elim!: converse_rtranclE simp: edges_def succ_rel_def)
    ultimately show ?thesis by auto
  qed
qed

lemma reaches_iff: "shape_ok g \<Longrightarrow> reaches g a b \<longleftrightarrow> (a, b) \<in> (edges g)\<^sup>*"
proof
  assume "reaches g a b"
  then show "(a, b) \<in> (edges g)\<^sup>*"
    unfolding reaches_def by (auto dest: reaches_loop_sound)
next
  assume "shape_ok g" "(a, b) \<in> (edges g)\<^sup>*"
  then show "reaches g a b"
    unfolding reaches_def
    by (rule_tac ccontr) (drule reaches_loop_complete[where q = a], auto)
qed

subsection \<open>What the mutators do\<close>

lemma len_new [simp]: "len new_graph = 0"
  by (simp add: len_def new_graph_def)

lemma shape_new [simp, wf_intros]: "shape_ok new_graph"
  by (simp add: shape_ok_def new_graph_def len_def)

lemma edges_new [simp]: "edges new_graph = {}"
  by (simp add: edges_def succ_rel_def new_graph_def)

lemma wf_new [simp, wf_intros]: "wf_graph new_graph"
  by (simp add: wf_graph_def acyclic_def)

lemma add_node_fst [simp]: "fst (add_node p g) = len g"
  by (simp add: add_node_def Let_def)

lemma add_node_parts [simp]:
  "nodes (snd (add_node p g)) = nodes g @ [\<lparr>node_id = len g, payload = p, state = Pending\<rparr>]"
  "deps (snd (add_node p g)) = deps g @ [[]]"
  "dependents (snd (add_node p g)) = dependents g @ [[]]"
  "len (snd (add_node p g)) = Suc (len g)"
  by (simp_all add: add_node_def Let_def len_def del: length_nodes)

lemma shape_add_node [wf_intros]:
  assumes g: "shape_ok g"
  shows "shape_ok (snd (add_node p g))"
proof (rule shape_okI)
  fix i assume "i < len (snd (add_node p g))"
  then show "node_id (nodes (snd (add_node p g)) ! i) = i"
    using g by (simp add: nth_append node_id_eq)
next
  fix x y assume "y < len (snd (add_node p g))" "x \<in> set (deps (snd (add_node p g)) ! y)"
  then show "x < len (snd (add_node p g))"
    using g shape_deps_bound[of g y x] by (simp add: nth_append split: if_splits)
next
  fix x y assume "x < len (snd (add_node p g))" "y \<in> set (dependents (snd (add_node p g)) ! x)"
  then show "y < len (snd (add_node p g))"
    using g shape_dependents_bound[of g x y] by (simp add: nth_append split: if_splits)
next
  fix x y assume "x < len (snd (add_node p g))" "y < len (snd (add_node p g))"
  moreover have "len g \<notin> set (deps g ! y)" if "y < len g" for y
    using g that by (blast dest: shape_deps_bound)
  moreover have "len g \<notin> set (dependents g ! x)" if "x < len g" for x
    using g that by (blast dest: shape_dependents_bound)
  ultimately show "count_list (deps (snd (add_node p g)) ! y) x
      = count_list (dependents (snd (add_node p g)) ! x) y"
    using g shape_converse_count[of g x y]
    by (auto simp: nth_append less_Suc_eq count_list_0_iff)
qed (use g in simp_all)

lemma edges_add_node [simp]: "edges (snd (add_node p g)) = edges g"
  if "shape_ok g"
  using that by (auto simp: edges_def succ_rel_def nth_append less_Suc_eq split: if_splits)

lemma wf_add_node [wf_intros]: "wf_graph g \<Longrightarrow> wf_graph (snd (add_node p g))"
  by (simp add: wf_graph_def shape_add_node)

lemma set_state_eq:
  "set_state i st g =
     (if i < len g then Inr (g\<lparr>nodes := (nodes g)[i := (nodes g ! i)\<lparr>state := st\<rparr>]\<rparr>)
      else Inl (MissingNode i))"
  by (simp add: set_state_def)

text \<open>A change of the node vector that keeps the ids keeps shape and edges.\<close>

lemma shape_nodes_update:
  assumes "shape_ok g" "length ns = len g" "\<And>i. i < len g \<Longrightarrow> node_id (ns ! i) = i"
  shows "shape_ok (g\<lparr>nodes := ns\<rparr>)"
proof -
  have [simp]: "len (g\<lparr>nodes := ns\<rparr>) = len g" using assms(2) by (simp add: len_def del: length_nodes)
  show ?thesis
  proof (rule shape_okI)
    show "length (deps (g\<lparr>nodes := ns\<rparr>)) = len (g\<lparr>nodes := ns\<rparr>)"
      "length (dependents (g\<lparr>nodes := ns\<rparr>)) = len (g\<lparr>nodes := ns\<rparr>)"
      using assms(1) by simp_all
  next
    fix i assume "i < len (g\<lparr>nodes := ns\<rparr>)"
    then show "node_id (nodes (g\<lparr>nodes := ns\<rparr>) ! i) = i" using assms(3)[of i] by simp
  next
    fix x y assume "y < len (g\<lparr>nodes := ns\<rparr>)" "x \<in> set (deps (g\<lparr>nodes := ns\<rparr>) ! y)"
    then show "x < len (g\<lparr>nodes := ns\<rparr>)" using shape_deps_bound[OF assms(1), of y x] by simp
  next
    fix x y assume "x < len (g\<lparr>nodes := ns\<rparr>)" "y \<in> set (dependents (g\<lparr>nodes := ns\<rparr>) ! x)"
    then show "y < len (g\<lparr>nodes := ns\<rparr>)" using shape_dependents_bound[OF assms(1), of x y] by simp
  next
    fix x y assume "x < len (g\<lparr>nodes := ns\<rparr>)" "y < len (g\<lparr>nodes := ns\<rparr>)"
    then show "count_list (deps (g\<lparr>nodes := ns\<rparr>) ! y) x = count_list (dependents (g\<lparr>nodes := ns\<rparr>) ! x) y"
      using shape_converse_count[OF assms(1), of x y] by simp
  qed
qed

lemma edges_nodes_update [simp]: "edges (g\<lparr>nodes := ns\<rparr>) = edges g"
  by (simp add: edges_def)

lemma set_state_frame:
  assumes "set_state i st g = Inr g'"
  shows "edges g' = edges g" "len g' = len g" "deps g' = deps g" "dependents g' = dependents g"
    "shape_ok g \<Longrightarrow> shape_ok g'" "wf_graph g \<Longrightarrow> wf_graph g'"
    "i < len g"
    "j < len g \<Longrightarrow> state (nodes g' ! j) = (if j = i then st else state (nodes g ! j))"
    "j < len g \<Longrightarrow> payload (nodes g' ! j) = payload (nodes g ! j)"
proof -
  have i: "i < len g" and g': "g' = g\<lparr>nodes := (nodes g)[i := (nodes g ! i)\<lparr>state := st\<rparr>]\<rparr>"
    using assms by (auto simp: set_state_eq split: if_splits)
  show "edges g' = edges g" "deps g' = deps g" "dependents g' = dependents g" "i < len g"
    using i by (simp_all add: g')
  show "len g' = len g" by (simp add: g' len_def del: length_nodes)
  show s: "shape_ok g \<Longrightarrow> shape_ok g'"
    unfolding g'
  proof (rule shape_nodes_update)
    fix j assume "shape_ok g" "j < len g"
    then show "node_id ((nodes g)[i := (nodes g ! i)\<lparr>state := st\<rparr>] ! j) = j"
      using i node_id_eq[of g j] by (cases "j = i") simp_all
  qed simp_all
  show "wf_graph g \<Longrightarrow> wf_graph g'"
    using s by (simp add: wf_graph_def g')
  show "j < len g \<Longrightarrow> state (nodes g' ! j) = (if j = i then st else state (nodes g ! j))"
    "j < len g \<Longrightarrow> payload (nodes g' ! j) = payload (nodes g ! j)"
    using i by (auto simp: g' nth_list_update)
qed

lemma length_push_at [simp]: "length (push_at xss i x) = length xss"
  by (simp add: push_at_def)

lemma nth_push_at:
  "j < length xss \<Longrightarrow> push_at xss i x ! j = (if j = i then xss ! j @ [x] else xss ! j)"
  by (auto simp: push_at_def nth_list_update)

definition with_edge :: "nat \<Rightarrow> nat \<Rightarrow> 'a build_graph \<Rightarrow> 'a build_graph" where
  "with_edge x y g = g\<lparr>deps := push_at (deps g) y x, dependents := push_at (dependents g) x y\<rparr>"

lemma with_edge_simps [simp]:
  "nodes (with_edge x y g) = nodes g" "len (with_edge x y g) = len g"
  "deps (with_edge x y g) = push_at (deps g) y x"
  "dependents (with_edge x y g) = push_at (dependents g) x y"
  by (simp_all add: with_edge_def len_def del: length_nodes)

lemma edges_with_edge:
  "shape_ok g \<Longrightarrow> x < len g \<Longrightarrow> edges (with_edge x y g) = insert (x, y) (edges g)"
  by (auto simp: edges_def succ_rel_def nth_push_at split: if_splits)

lemma shape_with_edge:
  assumes "shape_ok g" "x < len g" "y < len g"
  shows "shape_ok (with_edge x y g)"
proof (rule shape_okI)
  fix i assume "i < len (with_edge x y g)"
  then show "node_id (nodes (with_edge x y g) ! i) = i"
    using node_id_eq[OF assms(1), of i] by simp
next
  fix a b assume "b < len (with_edge x y g)" "a \<in> set (deps (with_edge x y g) ! b)"
  then show "a < len (with_edge x y g)"
    using assms shape_deps_bound[OF assms(1), of b a] by (auto simp: nth_push_at split: if_splits)
next
  fix a b assume "a < len (with_edge x y g)" "b \<in> set (dependents (with_edge x y g) ! a)"
  then show "b < len (with_edge x y g)"
    using assms shape_dependents_bound[OF assms(1), of a b]
    by (auto simp: nth_push_at split: if_splits)
next
  fix a b assume "a < len (with_edge x y g)" "b < len (with_edge x y g)"
  then show "count_list (deps (with_edge x y g) ! b) a = count_list (dependents (with_edge x y g) ! a) b"
    using shape_converse_count[OF assms(1), of a b] assms by (auto simp: nth_push_at)
qed (use assms in simp_all)

text \<open>
  The whole behaviour of \<open>add_dependency\<close> on a well-shaped graph, one line per branch.
\<close>

lemma add_dependency_eq:
  assumes "shape_ok g"
  shows "add_dependency x y g =
     (if \<not> x < len g then Inl (MissingNode x)
      else if \<not> y < len g then Inl (MissingNode y)
      else if x = y then Inl (SelfDependency x)
      else if (y, x) \<in> (edges g)\<^sup>* then Inl (Cycle x y)
      else Inr (with_edge x y g))"
  using assms by (simp add: add_dependency_def reaches_iff with_edge_def)

lemma acyclic_insert_edge:
  "acyclic r \<Longrightarrow> (y, x) \<notin> r\<^sup>* \<Longrightarrow> acyclic (insert (x, y) r)"
  by (simp add: acyclic_insert)

lemma wf_add_dependency [wf_intros]:
  "wf_graph g \<Longrightarrow> add_dependency x y g = Inr g' \<Longrightarrow> wf_graph g'"
  by (auto simp: add_dependency_eq wf_graph_def edges_with_edge shape_with_edge
      acyclic_insert_edge split: if_splits)

text \<open>
  An edge that follows a rank is always accepted: the tool that shows that the copying
  operations never hit their \<open>expect\<close>.
\<close>

lemma add_dependency_ranked:
  assumes "shape_ok g" "x < len g" "y < len g" "f x < (f y :: nat)"
    and "\<And>a b. (a, b) \<in> edges g \<Longrightarrow> f a < f b"
  shows "add_dependency x y g = Inr (with_edge x y g)"
proof -
  have "f a \<le> f b" if "(a, b) \<in> (edges g)\<^sup>*" for a b
    using that by (induction rule: rtrancl_induct) (auto dest!: assms(5))
  then have "(y, x) \<notin> (edges g)\<^sup>*" using assms(4) by fastforce
  with assms show ?thesis by (auto simp: add_dependency_eq)
qed

lemma acyclic_rank:
  assumes "finite r" "acyclic r"
  obtains f :: "nat \<Rightarrow> nat" where "\<And>x y. (x, y) \<in> r \<Longrightarrow> f x < f y"
proof
  fix x y assume xy: "(x, y) \<in> r"
  have fin: "finite {z. (z, y) \<in> r\<^sup>+}" for y
    by (rule finite_subset[of _ "Domain r"]) (use assms(1) in \<open>auto intro: finite_Domain dest: tranclD\<close>)
  have "{z. (z, x) \<in> r\<^sup>+} \<subset> {z. (z, y) \<in> r\<^sup>+}"
    using xy assms(2) unfolding acyclic_def by (auto intro: trancl_into_trancl)
  then show "card {z. (z, x) \<in> r\<^sup>+} < card {z. (z, y) \<in> r\<^sup>+}"
    by (rule psubset_card_mono[OF fin])
qed

subsection \<open>The build graph provides the \<open>dag\<close> interface\<close>

interpretation bg: dag wf_graph len deps_or_empty dependents_or_empty
proof unfold_locales
  fix g :: "'a build_graph" and x y
  assume g: "wf_graph g"
  then have shape: "shape_ok g" by simp
  have "y \<notin> set (dependents g ! x)" if "x < len g" "\<not> y < len g"
    using shape that by (blast dest: shape_dependents_bound)
  moreover have "x \<notin> set (deps g ! y)" if "y < len g" "\<not> x < len g"
    using shape that by (blast dest: shape_deps_bound)
  ultimately show "count_list (deps_or_empty g y) x = count_list (dependents_or_empty g x) y"
    using shape shape_converse_count[OF shape, of x y]
    by (auto simp: deps_or_empty_eq dependents_or_empty_eq count_list_0_iff)
next
  fix g :: "'a build_graph" and x y
  assume "wf_graph g" "y \<in> set (dependents_or_empty g x)"
  then have "x < len g" "y \<in> set (dependents g ! x)"
    by (auto simp: dependents_or_empty_eq split: if_splits)
  with \<open>wf_graph g\<close> show "x < len g \<and> y < len g"
    using shape_dependents_bound[of g x y] by simp
next
  fix g :: "'a build_graph"
  assume g: "wf_graph g"
  have "{(x, y). y \<in> set (dependents_or_empty g x)} \<subseteq> edges g"
    using g by (auto simp: dependents_or_empty_eq edges_dependents split: if_splits)
  then show "acyclic {(x, y). y \<in> set (dependents_or_empty g x)}"
    using acyclic_subset[OF wf_acyclic[OF g]] by blast
qed

lemma succs_eq_edges:
  "shape_ok g \<Longrightarrow> y \<in> set (dependents_or_empty g x) \<longleftrightarrow> (x, y) \<in> edges g"
  by (cases "x < len g") (simp_all add: dependents_or_empty_eq edges_dependents)

lemma preds_eq_edges: "shape_ok g \<Longrightarrow> x \<in> set (deps_or_empty g y) \<longleftrightarrow> (x, y) \<in> edges g"
  by (cases "y < len g") (simp_all add: deps_or_empty_eq edges_deps)

end
