(* ===== verification/Graph_Order.thy ===== *)
theory Graph_Order
  imports Build_Graph
begin

text \<open>
  Orders on the build graph, \<open>fish-graph/src/graph.rs\<close>: Kahn's algorithm
  (\<open>topological_order\<close>), the stages of \<open>levels\<close>, and \<open>validate\<close>. A result of \<open>None\<close> is a
  panic: an index out of range or the underflow of \<open>indegree[..] -= 1\<close>.
\<close>

subsection \<open>Kahn's algorithm\<close>

fun relax_dependents :: "nat list \<Rightarrow> nat list \<Rightarrow> nat list \<Rightarrow> (nat list \<times> nat list) option" where
  "relax_dependents indegree ready [] = Some (indegree, ready)"
| "relax_dependents indegree ready (d # ds) =
     (if d < length indegree \<and> 0 < indegree ! d
      then let indegree' = indegree[d := indegree ! d - 1]
           in relax_dependents indegree' (if indegree' ! d = 0 then ready @ [d] else ready) ds
      else None)"

lemma positives_update:
  "d < length xs \<Longrightarrow> 0 < xs ! d \<Longrightarrow>
     length (filter ((<) 0) (xs[d := xs ! d - Suc 0])) + (if xs ! d = Suc 0 then 1 else 0)
       = length (filter ((<) (0::nat)) xs)"
  using length_filter_update[of d xs "(<) 0" "xs ! d - Suc 0"] by (auto split: if_splits)

lemma relax_dependents_measure:
  "relax_dependents indegree ready ds = Some (indegree', ready') \<Longrightarrow>
     length ready' + length (filter ((<) 0) indegree') = length ready + length (filter ((<) 0) indegree)"
proof (induction indegree ready ds rule: relax_dependents.induct)
  case (1 indegree ready)
  then show ?case by simp
next
  case (2 indegree ready d ds)
  then have d: "d < length indegree \<and> 0 < indegree ! d" by (auto split: if_splits)
  with 2 positives_update[of d indegree] show ?case
    by (auto simp: Let_def split: if_splits)
qed

function topo_loop :: "'a build_graph \<Rightarrow> nat list \<Rightarrow> nat list \<Rightarrow> nat list \<Rightarrow> nat list option" where
  "topo_loop g indegree [] order = Some order"
| "topo_loop g indegree (i # ready) order =
     (case vec_get (dependents g) i of
        None \<Rightarrow> topo_loop g indegree ready (order @ [i])
      | Some ds \<Rightarrow>
          (case relax_dependents indegree ready ds of
             None \<Rightarrow> None
           | Some (indegree', ready') \<Rightarrow> topo_loop g indegree' ready' (order @ [i])))"
  by pat_completeness auto
termination topo_loop
  by (relation "measure (\<lambda>(g, indegree, ready, order). length ready + length (filter ((<) 0) indegree))")
     (auto dest: relax_dependents_measure)

definition topological_order :: "'a build_graph \<Rightarrow> nat list option" where
  "topological_order g =
     topo_loop g (map length (deps g))
       (map fst (filter (\<lambda>(index, ds). ds = []) (enumerate 0 (deps g)))) []"

subsection \<open>Levels\<close>

definition level_step ::
  "'a build_graph \<Rightarrow> nat list \<times> nat list list \<Rightarrow> nat \<Rightarrow> (nat list \<times> nat list list) option" where
  "level_step g = (\<lambda>(level_of, levels) i.
     case opt_all (map (\<lambda>d. map_option Suc (vec_get level_of d)) (deps_or_empty g i)) of
       None \<Rightarrow> None
     | Some ds \<Rightarrow>
         let depth = max_or_zero ds
         in case vec_set level_of i depth of
              None \<Rightarrow> None
            | Some level_of' \<Rightarrow>
                Some (level_of', push_at (levels @ replicate (Suc depth - length levels) []) depth i))"

definition levels :: "'a build_graph \<Rightarrow> nat list list option" where
  "levels g =
     (case topological_order g of
        None \<Rightarrow> None
      | Some order \<Rightarrow>
          map_option snd (fold_opt (level_step g) (replicate (len g) 0, []) order))"

subsection \<open>Validation\<close>

fun check_deps :: "nat \<Rightarrow> nat \<Rightarrow> nat list \<Rightarrow> graph_error + unit" where
  "check_deps n i [] = Inr ()"
| "check_deps n i (d # ds) =
     (if n \<le> d then Inl (MissingNode d)
      else if d = i then Inl (SelfDependency i)
      else check_deps n i ds)"

fun check_dependents :: "nat \<Rightarrow> nat list \<Rightarrow> graph_error + unit" where
  "check_dependents n [] = Inr ()"
| "check_dependents n (d # ds) =
     (if n \<le> d then Inl (MissingNode d) else check_dependents n ds)"

fun check_rows :: "nat \<Rightarrow> nat \<Rightarrow> (nat list \<times> nat list) list \<Rightarrow> graph_error + unit" where
  "check_rows n index [] = Inr ()"
| "check_rows n index ((ds, dnts) # rows) =
     (case check_deps n index ds of
        Inl e \<Rightarrow> Inl e
      | Inr _ \<Rightarrow>
          (case check_dependents n dnts of
             Inl e \<Rightarrow> Inl e
           | Inr _ \<Rightarrow> check_rows n (Suc index) rows))"

definition validate :: "'a build_graph \<Rightarrow> (graph_error + unit) option" where
  "validate g =
     (case check_rows (len g) 0 (zip (deps g) (dependents g)) of
        Inl e \<Rightarrow> Some (Inl e)
      | Inr _ \<Rightarrow>
          map_option
            (\<lambda>order. if length order \<noteq> len g then Inl (Cycle 0 0) else Inr ())
            (topological_order g))"

subsection \<open>Correctness of one relaxation\<close>

lemma relax_dependents_spec:
  assumes "\<And>d. d \<in> set ds \<Longrightarrow> d < length indegree"
    and "\<And>y. y \<in> set ds \<Longrightarrow> count_list ds y \<le> indegree ! y"
  shows "\<exists>indegree' new.
     relax_dependents indegree ready ds = Some (indegree', ready @ new) \<and>
     length indegree' = length indegree \<and>
     (\<forall>y < length indegree. indegree' ! y = indegree ! y - count_list ds y) \<and>
     distinct new \<and> set new = {y \<in> set ds. indegree ! y = count_list ds y}"
  using assms
proof (induction indegree ready ds rule: relax_dependents.induct)
  case (1 indegree ready)
  then show ?case by simp
next
  case (2 indegree ready d ds)
  let ?ind = "indegree[d := indegree ! d - 1]"
  let ?ready = "if ?ind ! d = 0 then ready @ [d] else ready"
  have d: "d < length indegree \<and> 0 < indegree ! d"
    using "2.prems"(1)[of d] "2.prems"(2)[of d] by simp
  have le: "count_list ds y \<le> ?ind ! y" if "y \<in> set ds" for y
    using "2.prems"(2)[of y] that d by (auto simp: nth_list_update split: if_splits)
  have "\<exists>indegree' new.
     relax_dependents ?ind ?ready ds = Some (indegree', ?ready @ new) \<and>
     length indegree' = length ?ind \<and>
     (\<forall>y < length ?ind. indegree' ! y = ?ind ! y - count_list ds y) \<and>
     distinct new \<and> set new = {y \<in> set ds. ?ind ! y = count_list ds y}"
    by (rule "2.IH"[OF d refl]) (use "2.prems"(1) le in auto)
  then obtain indegree' new where IH:
    "relax_dependents ?ind ?ready ds = Some (indegree', ?ready @ new)"
    "length indegree' = length indegree"
    "\<And>y. y < length indegree \<Longrightarrow> indegree' ! y = ?ind ! y - count_list ds y"
    "distinct new" "set new = {y \<in> set ds. ?ind ! y = count_list ds y}" by auto
  have eq: "relax_dependents indegree ready (d # ds) = Some (indegree', ?ready @ new)"
    using d IH(1) by (simp add: Let_def)
  have counts: "indegree' ! y = indegree ! y - count_list (d # ds) y" if "y < length indegree" for y
    using IH(3)[OF that] d by (auto simp: nth_list_update)
  let ?new = "if ?ind ! d = 0 then d # new else new"
  have zero: "?ind ! d = 0 \<Longrightarrow> d \<notin> set ds"
    using "2.prems"(2)[of d] d by (auto simp flip: count_list_pos_iff)
  have "distinct ?new" using zero IH(4,5) by auto
  moreover have "y \<in> set ?new \<longleftrightarrow> y \<in> set (d # ds) \<and> indegree ! y = count_list (d # ds) y" for y
  proof (cases "y = d")
    case True
    obtain m where m: "indegree ! d = Suc m" "?ind ! d = m"
      using d by (cases "indegree ! d") simp_all
    with zero have "d \<in> set ds \<Longrightarrow> 0 < m" by (cases m) simp_all
    with m show ?thesis
      using True IH(5) by (cases "d \<in> set ds") (simp_all add: count_list_0_iff)
  next
    case False
    then show ?thesis using IH(5) by simp
  qed
  then have "set ?new = {y \<in> set (d # ds). indegree ! y = count_list (d # ds) y}" by blast
  moreover have "?ready @ new = ready @ ?new" by simp
  ultimately show ?case
    using eq counts IH(2) by (intro exI[of _ indegree'] exI[of _ ?new]) simp
qed

subsection \<open>The invariant of Kahn's loop\<close>

definition pending_deps :: "'a build_graph \<Rightarrow> nat list \<Rightarrow> nat \<Rightarrow> nat" where
  "pending_deps g order y = length (filter (\<lambda>x. x \<notin> set order) (deps g ! y))"

definition kahn_inv :: "'a build_graph \<Rightarrow> nat list \<Rightarrow> nat list \<Rightarrow> nat list \<Rightarrow> bool" where
  "kahn_inv g indegree ready order \<longleftrightarrow>
     length indegree = len g \<and> distinct (order @ ready) \<and> set (order @ ready) \<subseteq> {..<len g} \<and>
     (\<forall>y < len g. indegree ! y = pending_deps g order y) \<and>
     (\<forall>y < len g. y \<in> set (order @ ready) \<longleftrightarrow> pending_deps g order y = 0) \<and>
     prefix_closed (deps_or_empty g) order"

lemma pending_deps_snoc:
  assumes "shape_ok g" "i < len g" "y < len g" "i \<notin> set order"
  shows "pending_deps g (order @ [i]) y = pending_deps g order y - count_list (dependents g ! i) y"
    and "count_list (dependents g ! i) y \<le> pending_deps g order y"
proof -
  have "filter (\<lambda>x. x \<notin> set (order @ [i])) (deps g ! y)
      = filter (\<lambda>x. x \<notin> set order \<and> x \<noteq> i) (deps g ! y)"
    by (intro filter_cong) auto
  then show "pending_deps g (order @ [i]) y = pending_deps g order y - count_list (dependents g ! i) y"
    using length_filter_remove_one[of "\<lambda>x. x \<notin> set order" i "deps g ! y"] assms
    by (simp add: pending_deps_def shape_converse_count)
  show "count_list (dependents g ! i) y \<le> pending_deps g order y"
    using count_list_le_length_filter[of "\<lambda>x. x \<notin> set order" i "deps g ! y"] assms
    by (simp add: pending_deps_def shape_converse_count)
qed

lemma pending_deps_0_iff: "pending_deps g order y = 0 \<longleftrightarrow> set (deps g ! y) \<subseteq> set order"
  by (auto simp: pending_deps_def filter_empty_conv)

lemma kahn_step:
  assumes g: "shape_ok g" and inv: "kahn_inv g indegree (i # ready) order"
  shows "\<exists>indegree' ready'.
     relax_dependents indegree ready (dependents g ! i) = Some (indegree', ready') \<and>
     kahn_inv g indegree' ready' (order @ [i])"
proof -
  have i: "i < len g" "i \<notin> set order" "i \<notin> set ready" "set ready \<inter> set order = {}"
    and len: "length indegree = len g"
    and ind: "\<And>y. y < len g \<Longrightarrow> indegree ! y = pending_deps g order y"
    and mem: "\<And>y. y < len g \<Longrightarrow> y \<in> set (order @ i # ready) \<longleftrightarrow> pending_deps g order y = 0"
    using inv by (auto simp: kahn_inv_def)
  note snoc = pending_deps_snoc[OF g i(1) _ i(2)]
  have bound: "y < len g" if "y \<in> set (dependents g ! i)" for y
    using g i(1) that by (rule shape_dependents_bound)
  have "\<exists>indegree' new.
     relax_dependents indegree ready (dependents g ! i) = Some (indegree', ready @ new) \<and>
     length indegree' = length indegree \<and>
     (\<forall>y < length indegree. indegree' ! y = indegree ! y - count_list (dependents g ! i) y) \<and>
     distinct new \<and> set new = {y \<in> set (dependents g ! i). indegree ! y = count_list (dependents g ! i) y}"
    using bound ind snoc(2) len by (intro relax_dependents_spec) simp_all
  then obtain indegree' new where relax:
    "relax_dependents indegree ready (dependents g ! i) = Some (indegree', ready @ new)"
    "length indegree' = length indegree"
    "\<forall>y < length indegree. indegree' ! y = indegree ! y - count_list (dependents g ! i) y"
    "distinct new"
    "set new = {y \<in> set (dependents g ! i). indegree ! y = count_list (dependents g ! i) y}"
    by (elim exE conjE)
  have ind': "indegree' ! y = pending_deps g (order @ [i]) y" if "y < len g" for y
    using that relax(3) ind[OF that] snoc(1)[OF that] len by simp
  have old: "count_list (dependents g ! i) y = 0" if "y < len g" "pending_deps g order y = 0" for y
    using snoc(2)[OF that(1)] that(2) by simp
  have mem': "y \<in> set (order @ [i] @ ready @ new) \<longleftrightarrow> pending_deps g (order @ [i]) y = 0"
    if y: "y < len g" for y
  proof -
    have "y \<in> set new \<longleftrightarrow> 0 < pending_deps g order y \<and> pending_deps g (order @ [i]) y = 0"
    proof -
      have "y \<in> set new \<longleftrightarrow> 0 < count_list (dependents g ! i) y \<and>
          pending_deps g order y = count_list (dependents g ! i) y"
        by (simp add: relax(5) count_list_pos_iff ind[OF y])
      with snoc(2)[OF y] show ?thesis unfolding snoc(1)[OF y] by auto
    qed
    moreover have "pending_deps g order y = 0 \<Longrightarrow> pending_deps g (order @ [i]) y = 0"
      using snoc(1)[OF y] by simp
    ultimately show ?thesis using mem[OF y] by auto
  qed
  have "set new \<subseteq> {..<len g}" using relax(5) bound by auto
  moreover have "set new \<inter> set (order @ i # ready) = {}"
  proof -
    have "y \<notin> set (order @ i # ready)" if "y \<in> set new" for y
    proof
      assume "y \<in> set (order @ i # ready)"
      moreover have y: "y \<in> set (dependents g ! i)" using that relax(5) by simp
      ultimately have "count_list (dependents g ! i) y = 0"
        using mem[OF bound[OF y]] old[OF bound[OF y]] by simp
      with y show False by (simp add: count_list_0_iff)
    qed
    then show ?thesis by blast
  qed
  moreover have "set (deps g ! i) \<subseteq> set order"
    using mem[OF i(1)] by (simp add: pending_deps_0_iff)
  ultimately have "kahn_inv g indegree' (ready @ new) (order @ [i])"
    using inv relax(2,4) ind' mem' i g len
    unfolding kahn_inv_def by (auto simp: prefix_closed_snoc deps_or_empty_eq)
  with relax(1) show ?thesis by blast
qed

lemma topo_loop_inv:
  assumes "shape_ok g" "kahn_inv g indegree ready order"
  shows "\<exists>order' indegree'. topo_loop g indegree ready order = Some order' \<and>
           kahn_inv g indegree' [] order'"
  using assms
proof (induction g indegree ready order rule: topo_loop.induct)
  case (1 g indegree order)
  then show ?case by auto
next
  case (2 g indegree i ready order)
  have i: "i < len g" using "2.prems"(2) by (simp add: kahn_inv_def)
  then have get: "vec_get (dependents g) i = Some (dependents g ! i)"
    using "2.prems"(1) by simp
  from kahn_step[OF "2.prems"] obtain indegree' ready' where
    step: "relax_dependents indegree ready (dependents g ! i) = Some (indegree', ready')"
      "kahn_inv g indegree' ready' (order @ [i])" by blast
  from "2.IH"(2)[OF get step(1) refl "2.prems"(1) step(2)] get step(1) show ?case by simp
qed

lemma kahn_init:
  assumes g: "shape_ok g"
  shows "kahn_inv g (map length (deps g))
    (map fst (filter (\<lambda>(index, ds). ds = []) (enumerate 0 (deps g)))) []"
proof -
  let ?ready = "map fst (filter (\<lambda>(index, ds). ds = []) (enumerate 0 (deps g)))"
  have "distinct ?ready"
    using distinct_enumerate by (intro distinct_map_filter) simp
  moreover have "set ?ready = {y. y < len g \<and> deps g ! y = []}"
    using g by (force simp: in_set_enumerate_eq image_iff)
  ultimately show ?thesis
    using g by (auto simp: kahn_inv_def pending_deps_def prefix_closed_def)
qed

lemma topological_order_inv:
  assumes "shape_ok g"
  obtains order indegree where "topological_order g = Some order" "kahn_inv g indegree [] order"
  using topo_loop_inv[OF assms kahn_init[OF assms]] that by (auto simp: topological_order_def)

lemma kahn_final_topo_enum:
  assumes "kahn_inv g indegree [] order" "length order = len g"
  shows "topo_enum (deps_or_empty g) (len g) order"
proof -
  have "distinct order" "set order \<subseteq> {..<len g}" "prefix_closed (deps_or_empty g) order"
    using assms(1) by (auto simp: kahn_inv_def)
  moreover then have "set order = {..<len g}"
    using assms(2) by (intro card_subset_eq) (auto simp: distinct_card)
  ultimately show ?thesis by (simp add: topo_enum_def prefix_closed_def)
qed

lemma kahn_final_complete:
  assumes g: "wf_graph g" and inv: "kahn_inv g indegree [] order"
  shows "length order = len g"
proof -
  have "set order = {..<len g}"
  proof (rule ccontr)
    assume "set order \<noteq> {..<len g}"
    then obtain x where "x < len g" "x \<notin> set order" using inv by (auto simp: kahn_inv_def)
    from bg.some_unblocked[OF g this(1), of "\<lambda>y. y \<notin> set order"] this(2)
    obtain y where y: "y < len g" "y \<notin> set order" "set (deps_or_empty g y) \<subseteq> set order" by blast
    then have "pending_deps g order y = 0"
      using g by (simp add: pending_deps_0_iff deps_or_empty_eq)
    with inv y show False by (simp add: kahn_inv_def)
  qed
  moreover have "distinct order" using inv by (simp add: kahn_inv_def)
  ultimately show ?thesis by (metis card_lessThan distinct_card)
qed

lemma topological_order_wf:
  assumes "wf_graph g"
  obtains order where "topological_order g = Some order"
    "topo_enum (deps_or_empty g) (len g) order"
  using assms topological_order_inv[of g] kahn_final_complete[OF assms] kahn_final_topo_enum that
  by (metis wf_shape)

lemma topo_enum_acyclic:
  assumes "shape_ok g" "topo_enum (deps_or_empty g) (len g) order"
  shows "acyclic (edges g)"
proof (rule acyclic_by_rank)
  fix x y assume "(x, y) \<in> edges g"
  then have "precedes order x y"
    using assms by (intro topo_enum_precedes[OF assms(2)]) (auto simp: preds_eq_edges dest: edges_bound)
  with assms(2) show "(THE i. i < length order \<and> order ! i = x) < (THE i. i < length order \<and> order ! i = y)"
    by (auto simp: topo_enum_def intro: precedes_rank)
qed

subsection \<open>Validation decides acyclicity\<close>

lemma check_deps_ok: "(\<And>d. d \<in> set ds \<Longrightarrow> d < n \<and> d \<noteq> i) \<Longrightarrow> check_deps n i ds = Inr ()"
  by (induction ds) (auto simp: not_le)

lemma check_deps_self:
  "(\<And>d. d \<in> set ds \<Longrightarrow> d < n) \<Longrightarrow> i \<in> set ds \<Longrightarrow> check_deps n i ds = Inl (SelfDependency i)"
  by (induction ds) (auto simp: not_le)

lemma check_dependents_ok: "(\<And>d. d \<in> set ds \<Longrightarrow> d < n) \<Longrightarrow> check_dependents n ds = Inr ()"
  by (induction ds) (auto simp: not_le)

lemma check_rows_ok:
  assumes "\<And>k. k < length rows \<Longrightarrow>
      (\<forall>d \<in> set (fst (rows ! k)). d < n \<and> d \<noteq> i + k) \<and> (\<forall>d \<in> set (snd (rows ! k)). d < n)"
  shows "check_rows n i rows = Inr ()"
  using assms
proof (induction n i rows rule: check_rows.induct)
  case (1 n i)
  then show ?case by simp
next
  case (2 n i ds dnts rows)
  have "check_deps n i ds = Inr ()" "check_dependents n dnts = Inr ()"
    using "2.prems"[of 0] by (auto intro: check_deps_ok check_dependents_ok)
  moreover have "check_rows n (Suc i) rows = Inr ()"
    using calculation by (intro "2.IH") (use "2.prems"[of "Suc k" for k] in auto)
  ultimately show ?case by simp
qed

lemma validate_no_self:
  assumes g: "shape_ok g" and no_self: "\<And>i. i < len g \<Longrightarrow> i \<notin> set (deps g ! i)"
  obtains order where "topological_order g = Some order"
    "validate g = Some (if length order = len g then Inr () else Inl (Cycle 0 0))"
    "length order = len g \<longleftrightarrow> acyclic (edges g)"
proof -
  obtain order indegree where
    order: "topological_order g = Some order" "kahn_inv g indegree [] order"
    using topological_order_inv[OF g] by blast
  have "check_rows (len g) 0 (zip (deps g) (dependents g)) = Inr ()"
  proof (rule check_rows_ok, intro conjI ballI)
    fix k d assume k: "k < length (zip (deps g) (dependents g))"
      and "d \<in> set (fst (zip (deps g) (dependents g) ! k))"
    then have "k < len g" "d \<in> set (deps g ! k)" using g by simp_all
    then show "d < len g" "d \<noteq> 0 + k"
      using shape_deps_bound[OF g, of k d] no_self[of k] by auto
  next
    fix k d assume k: "k < length (zip (deps g) (dependents g))"
      and "d \<in> set (snd (zip (deps g) (dependents g) ! k))"
    then show "d < len g"
      using shape_dependents_bound[OF g, of k d] g by simp
  qed
  moreover have "length order = len g \<longleftrightarrow> acyclic (edges g)"
    using order(2) g kahn_final_topo_enum[OF order(2)] topo_enum_acyclic[OF g]
      kahn_final_complete[OF _ order(2)] by (auto simp: wf_graph_def)
  ultimately show ?thesis using that order(1) by (simp add: validate_def)
qed

lemma validate_self:
  assumes g: "shape_ok g" and self: "i < len g" "i \<in> set (deps g ! i)"
  shows "\<exists>e. validate g = Some (Inl e)"
proof -
  have "\<exists>e. check_rows (len g) j rows = Inl e"
    if "k < length rows" "j + k \<in> set (fst (rows ! k))"
      "\<And>l d. l < length rows \<Longrightarrow> d \<in> set (fst (rows ! l)) \<Longrightarrow> d < len g" for j k rows
    using that
  proof (induction "len g" j rows arbitrary: k rule: check_rows.induct)
    case (1 j)
    then show ?case by simp
  next
    case (2 j ds dnts rows)
    show ?case
    proof (cases k)
      case 0
      then have "check_deps (len g) j ds = Inl (SelfDependency j)"
        using 2 by (intro check_deps_self) force+
      then show ?thesis by simp
    next
      case (Suc k')
      show ?thesis
      proof (cases "check_deps (len g) j ds = Inr () \<and> check_dependents (len g) dnts = Inr ()")
        case True
        then have "\<exists>e. check_rows (len g) (Suc j) rows = Inl e"
          using 2 Suc by (intro "2.hyps"(1)[of "()" "()" k']) force+
        with True show ?thesis by simp
      next
        case False
        then show ?thesis by (auto split: sum.splits)
      qed
    qed
  qed
  from this[of i "zip (deps g) (dependents g)" 0]
  have "\<exists>e. check_rows (len g) 0 (zip (deps g) (dependents g)) = Inl e"
    using g self shape_deps_bound[OF g] by simp
  then show ?thesis by (auto simp: validate_def)
qed

lemma validate_iff:
  assumes g: "shape_ok g"
  shows "validate g = Some (Inr ()) \<longleftrightarrow> acyclic (edges g)"
proof (cases "\<exists>i < len g. i \<in> set (deps g ! i)")
  case True
  then obtain i where "i < len g" "i \<in> set (deps g ! i)" by blast
  moreover from this g have "(i, i) \<in> edges g" by (simp add: edges_deps)
  then have "\<not> acyclic (edges g)" by (auto simp: acyclic_def)
  ultimately show ?thesis using validate_self[OF g] by fastforce
next
  case False
  then have no_self: "\<And>i. i < len g \<Longrightarrow> i \<notin> set (deps g ! i)" by blast
  show ?thesis by (rule validate_no_self[OF g no_self]) simp_all
qed

subsection \<open>Levels\<close>

definition level_fun :: "nat \<Rightarrow> nat list \<Rightarrow> nat" where
  "level_fun i vs = max_or_zero (map Suc vs)"

lemma opt_all_map_option: "opt_all (map (\<lambda>x. map_option f (h x)) xs) = map_option (map f) (opt_all (map h xs))"
  by (induction xs) (auto split: option.splits simp: option.map_comp comp_def)

lemma level_step_eq:
  "level_step g (vec, ls) i =
     map_option (\<lambda>vec'. (vec', push_at (ls @ replicate (Suc (vec' ! i) - length ls) []) (vec' ! i) i))
       (dp_step (deps_or_empty g) level_fun vec i)"
  by (auto simp: level_step_def dp_step_def level_fun_def opt_all_map_option Let_def vec_set_def
      split: option.splits)

lemma level_fold:
  assumes "prefix_closed (deps_or_empty g) xs" "distinct xs" "set xs \<subseteq> {..<n}"
    and "length v0 = n"
    and "fold_opt (dp_step (deps_or_empty g) level_fun) v0 xs = Some vec"
  shows "\<exists>ls. fold_opt (level_step g) (v0, []) xs = Some (vec, ls) \<and>
           (\<forall>k < length ls. ls ! k = filter (\<lambda>x. vec ! x = k) xs) \<and>
           (\<forall>x \<in> set xs. vec ! x < length ls)"
  using assms
proof (induction xs arbitrary: vec rule: rev_induct)
  case Nil
  then show ?case by simp
next
  case (snoc x xs)
  from snoc.prems obtain vec0 where
    vec0: "fold_opt (dp_step (deps_or_empty g) level_fun) v0 xs = Some vec0"
      "dp_step (deps_or_empty g) level_fun vec0 x = Some vec"
    by (auto simp: fold_opt_append split: option.splits bind_splits)
  from snoc.IH[OF _ _ _ snoc.prems(4) vec0(1)] snoc.prems obtain ls where
    ls: "fold_opt (level_step g) (v0, []) xs = Some (vec0, ls)"
      "\<And>k. k < length ls \<Longrightarrow> ls ! k = filter (\<lambda>x. vec0 ! x = k) xs"
      "\<And>y. y \<in> set xs \<Longrightarrow> vec0 ! y < length ls"
    by (auto simp: prefix_closed_snoc)
  have x: "x \<notin> set xs" using snoc.prems(2) by simp
  have vec: "vec ! y = vec0 ! y" if "y \<noteq> x" for y
    using vec0(2) that by (auto simp: dp_step_def vec_set_eq_Some_iff split: option.splits)
  let ?d = "vec ! x"
  let ?pad = "ls @ replicate (Suc ?d - length ls) []"
  have same: "filter (\<lambda>y. vec ! y = k) xs = filter (\<lambda>y. vec0 ! y = k) xs" for k
    using x vec by (intro filter_cong refl) metis
  have empty: "filter (\<lambda>y. vec ! y = k) xs = []" if "\<not> k < length ls" for k
    using that ls(3) unfolding same by (auto simp: filter_empty_conv)
  have pad: "?pad ! k = filter (\<lambda>y. vec ! y = k) xs" if "k < length ?pad" for k
    using that ls(2) empty same by (auto simp: nth_append)
  have "push_at ?pad ?d x ! k = filter (\<lambda>y. vec ! y = k) (xs @ [x])" if "k < length ?pad" for k
    using pad[OF that] that by (auto simp: nth_push_at)
  moreover have "vec ! y < length ?pad" if "y \<in> set (xs @ [x])" for y
    using that ls(3)[of y] vec[of y] by (cases "y = x") auto
  ultimately show ?case
    using ls(1) vec0(2)
    by (intro exI[of _ "push_at ?pad ?d x"]) (simp add: fold_opt_append level_step_eq)
qed

lemma levels_wf:
  assumes g: "wf_graph g"
  obtains depth ls where "levels g = Some ls"
    "\<And>x. x < len g \<Longrightarrow> depth x = max_or_zero (map (\<lambda>d. Suc (depth d)) (deps g ! x))"
    "\<And>x. x < len g \<Longrightarrow> depth x < length ls"
    "\<And>k. k < length ls \<Longrightarrow> distinct (ls ! k) \<and> set (ls ! k) = {x. x < len g \<and> depth x = k}"
proof -
  obtain order where order: "topological_order g = Some order"
    "topo_enum (deps_or_empty g) (len g) order"
    using topological_order_wf[OF g] by blast
  obtain vec where vec: "fold_opt (dp_step (deps_or_empty g) level_fun) (replicate (len g) 0) order = Some vec"
    "length vec = len g"
    "\<And>x. x < len g \<Longrightarrow> vec ! x = level_fun x (map ((!) vec) (deps_or_empty g x))"
    by (rule dp_fold[OF order(2), of "replicate (len g) 0" level_fun]) simp_all
  have props: "prefix_closed (deps_or_empty g) order" "distinct order" "set order = {..<len g}"
    using order(2) topo_enum_prefix_closed by (auto simp: topo_enum_def)
  obtain ls where ls: "fold_opt (level_step g) (replicate (len g) 0, []) order = Some (vec, ls)"
    "\<And>k. k < length ls \<Longrightarrow> ls ! k = filter (\<lambda>x. vec ! x = k) order"
    "\<And>x. x < len g \<Longrightarrow> vec ! x < length ls"
    using level_fold[OF props(1,2) _ _ vec(1), of "len g"] props(3) by auto
  show thesis
  proof (rule that[of ls "(!) vec"])
    show "levels g = Some ls" using order(1) ls(1) by (simp add: levels_def)
    show "vec ! x = max_or_zero (map (\<lambda>d. Suc (vec ! d)) (deps g ! x))" if "x < len g" for x
      using vec(3)[OF that] that g by (simp add: level_fun_def deps_or_empty_eq comp_def)
  qed (use ls(2,3) props(2,3) in auto)
qed

end
