(* ===== verification/Graph_States.thy ===== *)
theory Graph_States
  imports Graph_Order
begin

text \<open>
  The operations of \<open>fish-graph/src/graph.rs\<close> that read or change node states: readiness,
  blocking, failure propagation (\<open>mark_failed\<close>), the affected set, and the reset.
  \<open>mark_failed\<close> returns its \<open>Result\<close> together with the graph, which is partly updated when an
  inner lookup fails.
\<close>

definition is_ready :: "'a build_graph \<Rightarrow> nat \<Rightarrow> graph_error + bool" where
  "is_ready g i =
     (case deps_of g i of
        Inl e \<Rightarrow> Inl e
      | Inr ds \<Rightarrow>
          Inr (list_all (\<lambda>d. case state_of g d of Inl _ \<Rightarrow> False | Inr s \<Rightarrow> is_successful s) ds))"

definition ready_nodes :: "'a build_graph \<Rightarrow> nat list" where
  "ready_nodes g =
     map node_id
       (filter
         (\<lambda>nd. state nd = Pending \<and> (case is_ready g (node_id nd) of Inl _ \<Rightarrow> False | Inr b \<Rightarrow> b))
         (nodes g))"

definition is_blocked :: "'a build_graph \<Rightarrow> nat \<Rightarrow> graph_error + bool" where
  "is_blocked g i =
     (case deps_of g i of
        Inl e \<Rightarrow> Inl e
      | Inr ds \<Rightarrow>
          Inr (list_ex (\<lambda>d. case state_of g d of Inl _ \<Rightarrow> False | Inr s \<Rightarrow> is_unsuccessful s) ds))"

definition reset_states :: "'a build_graph \<Rightarrow> 'a build_graph" where
  "reset_states g = g\<lparr>nodes := map (\<lambda>nd. nd\<lparr>state := Pending\<rparr>) (nodes g)\<rparr>"

subsection \<open>Failure propagation\<close>

fun cancel_each ::
  "'a build_graph \<Rightarrow> nat list \<Rightarrow> nat list \<Rightarrow> (graph_error + nat list) \<times> 'a build_graph" where
  "cancel_each g queue [] = (Inr queue, g)"
| "cancel_each g queue (d # ds) =
     (case state_of g d of
        Inl e \<Rightarrow> (Inl e, g)
      | Inr s \<Rightarrow>
          if \<not> is_terminal s
          then (case set_state d Cancelled g of
                  Inl e \<Rightarrow> (Inl e, g)
                | Inr g' \<Rightarrow> cancel_each g' (queue @ [d]) ds)
          else cancel_each g queue ds)"

definition live_count :: "'a build_graph \<Rightarrow> nat" where
  "live_count g = length (filter (\<lambda>nd. \<not> is_terminal (state nd)) (nodes g))"

lemma live_count_set_terminal:
  assumes "set_state i st g = Inr g'" "\<not> is_terminal (state (nodes g ! i))" "is_terminal st"
  shows "Suc (live_count g') = live_count g"
  using assms length_filter_update[of i "nodes g" "\<lambda>nd. \<not> is_terminal (state nd)" "(nodes g ! i)\<lparr>state := st\<rparr>"]
  by (auto simp: set_state_eq live_count_def split: if_splits)

lemma cancel_each_measure:
  "cancel_each g queue ds = (Inr queue', g') \<Longrightarrow>
     length queue' + live_count g' = length queue + live_count g"
proof (induction g queue ds arbitrary: queue' g' rule: cancel_each.induct)
  case (1 g queue)
  then show ?case by simp
next
  case (2 g queue d ds)
  show ?case
  proof (cases "state_of g d")
    case (Inl e)
    with "2.prems" show ?thesis by simp
  next
    case (Inr s)
    then have s: "s = state (nodes g ! d)" by (auto simp: state_of_def get_node_def vec_get_def split: if_splits option.splits)
    show ?thesis
    proof (cases "is_terminal s")
      case True
      with Inr 2 show ?thesis by simp
    next
      case False
      with Inr "2.prems" obtain g1 where g1: "set_state d Cancelled g = Inr g1"
        by (auto split: sum.splits)
      with "2.IH"(1)[OF Inr False g1] "2.prems" Inr False
        live_count_set_terminal[OF g1] s show ?thesis by simp
    qed
  qed
qed

function fail_loop :: "'a build_graph \<Rightarrow> nat list \<Rightarrow> (graph_error + unit) \<times> 'a build_graph" where
  "fail_loop g [] = (Inr (), g)"
| "fail_loop g (current # queue) =
     (case dependents_of g current of
        Inl e \<Rightarrow> (Inl e, g)
      | Inr ds \<Rightarrow>
          (case cancel_each g queue ds of
             (Inl e, g') \<Rightarrow> (Inl e, g')
           | (Inr queue', g') \<Rightarrow> fail_loop g' queue'))"
  by pat_completeness auto
termination fail_loop
  by (relation "measure (\<lambda>(g, queue). length queue + live_count g)")
     (auto dest!: cancel_each_measure[OF sym])

definition mark_failed :: "nat \<Rightarrow> 'a build_graph \<Rightarrow> (graph_error + unit) \<times> 'a build_graph" where
  "mark_failed i g =
     (case set_state i Failed g of
        Inl e \<Rightarrow> (Inl e, g)
      | Inr g' \<Rightarrow> fail_loop g' [i])"

subsection \<open>Affected nodes\<close>

fun mark_unseen :: "nat \<Rightarrow> bool list \<Rightarrow> nat list \<Rightarrow> nat list \<Rightarrow> bool list \<times> nat list" where
  "mark_unseen n seen queue [] = (seen, queue)"
| "mark_unseen n seen queue (d # ds) =
     (if d < n \<and> \<not> seen ! d then mark_unseen n (seen[d := True]) (queue @ [d]) ds
      else mark_unseen n seen queue ds)"

lemma mark_unseen_measure:
  "mark_unseen n seen queue ds = (seen', queue') \<Longrightarrow> length seen = n \<Longrightarrow>
     length seen' = n \<and>
     length queue' + length (filter Not seen') = length queue + length (filter Not seen)"
proof (induction n seen queue ds rule: mark_unseen.induct)
  case (1 n seen queue)
  then show ?case by simp
next
  case (2 n seen queue d ds)
  show ?case
  proof (cases "d < n \<and> \<not> seen ! d")
    case True
    with 2 length_filter_update[of d seen Not True] show ?thesis by simp
  next
    case False
    with 2 show ?thesis by (simp split: if_splits)
  qed
qed

function affected_loop :: "'a build_graph \<Rightarrow> bool list \<Rightarrow> nat list \<Rightarrow> nat list \<Rightarrow> nat list" where
  "affected_loop g seen [] affected = affected"
| "affected_loop g seen (i # queue) affected =
     (case vec_get (dependents g) i of
        None \<Rightarrow> affected_loop g seen queue (affected @ [i])
      | Some ds \<Rightarrow>
          (case mark_unseen (length seen) seen queue ds of
             (seen', queue') \<Rightarrow> affected_loop g seen' queue' (affected @ [i])))"
  by pat_completeness auto
termination affected_loop
proof (relation "measure (\<lambda>(g, seen, queue, affected). length queue + length (filter Not seen))", goal_cases)
  case (3 g seen i queue affected ds seen' queue')
  then show ?case using mark_unseen_measure[of "length seen" seen queue ds seen' queue'] by simp
qed simp_all

definition affected_nodes :: "'a build_graph \<Rightarrow> nat list \<Rightarrow> nat list" where
  "affected_nodes g changed =
     (case mark_unseen (len g) (replicate (len g) False) [] changed of
        (seen, queue) \<Rightarrow> affected_loop g seen queue [])"

subsection \<open>Readiness\<close>

abbreviation st :: "'a build_graph \<Rightarrow> nat \<Rightarrow> task_state" where
  "st g i \<equiv> state (nodes g ! i)"

lemma is_ready_eq:
  "shape_ok g \<Longrightarrow> i < len g \<Longrightarrow> is_ready g i = Inr (\<forall>d \<in> set (deps g ! i). is_successful (st g d))"
  using shape_deps_bound[of g i] by (auto simp: is_ready_def list_all_iff)

lemma is_blocked_eq:
  "shape_ok g \<Longrightarrow> i < len g \<Longrightarrow> is_blocked g i = Inr (\<exists>d \<in> set (deps g ! i). is_unsuccessful (st g d))"
  using shape_deps_bound[of g i] by (auto simp: is_blocked_def list_ex_iff)

lemma ready_nodes_eq:
  assumes "shape_ok g"
  shows "ready_nodes g =
    filter (\<lambda>i. st g i = Pending \<and> (\<forall>d \<in> set (deps g ! i). is_successful (st g d))) [0..<len g]"
proof -
  have "nodes g = map ((!) (nodes g)) [0..<len g]"
    by (simp add: map_nth flip: length_nodes del: length_nodes)
  then have "ready_nodes g = map node_id (filter
         (\<lambda>nd. state nd = Pending \<and> (case is_ready g (node_id nd) of Inl _ \<Rightarrow> False | Inr b \<Rightarrow> b))
         (map ((!) (nodes g)) [0..<len g]))"
    unfolding ready_nodes_def by simp
  also have "\<dots> = map (\<lambda>i. node_id (nodes g ! i))
      (filter (\<lambda>i. st g i = Pending \<and> (\<forall>d \<in> set (deps g ! i). is_successful (st g d))) [0..<len g])"
    using assms by (auto simp: filter_map comp_def node_id_eq is_ready_eq intro!: map_cong filter_cong)
  also have "\<dots> = map (\<lambda>i. i)
      (filter (\<lambda>i. st g i = Pending \<and> (\<forall>d \<in> set (deps g ! i). is_successful (st g d))) [0..<len g])"
    using assms by (intro map_cong) (auto simp: node_id_eq)
  finally show ?thesis by simp
qed

lemma set_ready_nodes:
  "shape_ok g \<Longrightarrow> set (ready_nodes g) =
     {i. i < len g \<and> st g i = Pending \<and> (\<forall>d \<in> set (deps g ! i). is_successful (st g d))}"
  by (auto simp: ready_nodes_eq)

lemma distinct_ready_nodes: "shape_ok g \<Longrightarrow> distinct (ready_nodes g)"
  by (simp add: ready_nodes_eq)

text \<open>No node is at once ready and blocked.\<close>

lemma ready_not_blocked:
  "shape_ok g \<Longrightarrow> i < len g \<Longrightarrow> is_ready g i = Inr True \<Longrightarrow> is_blocked g i = Inr False"
  by (auto simp: is_ready_eq is_blocked_eq dest: successful_not_unsuccessful)

lemma reset_states_frame [simp]:
  "edges (reset_states g) = edges g" "deps (reset_states g) = deps g"
  "dependents (reset_states g) = dependents g" "len (reset_states g) = len g"
  by (simp_all add: reset_states_def len_def del: length_nodes)

lemma st_reset_states [simp]: "i < len g \<Longrightarrow> st (reset_states g) i = Pending"
  by (simp add: reset_states_def)

lemma payload_reset_states [simp]:
  "i < len g \<Longrightarrow> payload (nodes (reset_states g) ! i) = payload (nodes g ! i)"
  by (simp add: reset_states_def)

lemma shape_reset_states [wf_intros]: "shape_ok g \<Longrightarrow> shape_ok (reset_states g)"
  unfolding reset_states_def by (rule shape_nodes_update) (simp_all add: node_id_eq)

lemma wf_reset_states [wf_intros]: "wf_graph g \<Longrightarrow> wf_graph (reset_states g)"
  by (simp add: wf_graph_def shape_reset_states)

subsection \<open>The affected set\<close>

lemma mark_unseen_spec:
  "mark_unseen n seen queue ds = (seen', queue') \<Longrightarrow> length seen = n \<Longrightarrow>
     length seen' = n \<and> (\<forall>x < n. seen' ! x \<longleftrightarrow> seen ! x \<or> x \<in> set ds) \<and>
     (\<exists>new. queue' = queue @ new \<and> distinct new \<and> set new = {d \<in> set ds. d < n \<and> \<not> seen ! d})"
proof (induction n seen queue ds rule: mark_unseen.induct)
  case (1 n seen queue)
  then show ?case by simp
next
  case (2 n seen queue d ds)
  show ?case
  proof (cases "d < n \<and> \<not> seen ! d")
    case True
    with 2 have IH: "length seen' = n"
      "\<forall>x < n. seen' ! x \<longleftrightarrow> seen[d := True] ! x \<or> x \<in> set ds"
      "\<exists>new. queue' = (queue @ [d]) @ new \<and> distinct new \<and>
        set new = {x \<in> set ds. x < n \<and> \<not> seen[d := True] ! x}" by simp_all
    from IH(3) obtain new where new: "queue' = queue @ d # new" "distinct new"
      "set new = {x \<in> set ds. x < n \<and> \<not> seen[d := True] ! x}" by auto
    have "distinct (d # new)" "set (d # new) = {x \<in> set (d # ds). x < n \<and> \<not> seen ! x}"
      using new(2,3) True "2.prems"(2) by (auto simp: nth_list_update)
    moreover have "\<forall>x < n. seen' ! x \<longleftrightarrow> seen ! x \<or> x \<in> set (d # ds)"
      using IH(2) True "2.prems"(2) by (auto simp: nth_list_update)
    ultimately show ?thesis using IH(1) new(1) by blast
  next
    case False
    with 2 have IH: "length seen' = n" "\<forall>x < n. seen' ! x \<longleftrightarrow> seen ! x \<or> x \<in> set ds"
      "\<exists>new. queue' = queue @ new \<and> distinct new \<and> set new = {x \<in> set ds. x < n \<and> \<not> seen ! x}"
      by (simp_all split: if_splits)
    have "{x \<in> set (d # ds). x < n \<and> \<not> seen ! x} = {x \<in> set ds. x < n \<and> \<not> seen ! x}"
      using False by auto
    with IH False show ?thesis by auto
  qed
qed

lemma affected_loop_spec:
  assumes "shape_ok g" "length seen = len g" "distinct (affected @ queue)"
    and "set (affected @ queue) = {x. x < len g \<and> seen ! x}"
    and "\<And>x y. x \<in> set affected \<Longrightarrow> (x, y) \<in> edges g \<Longrightarrow> seen ! y"
  shows "distinct (affected_loop g seen queue affected) \<and>
    set (affected_loop g seen queue affected) = (edges g)\<^sup>* `` set (affected @ queue)"
  using assms
proof (induction g seen queue affected rule: affected_loop.induct)
  case (1 g seen affected)
  have "(edges g)\<^sup>* `` set affected \<subseteq> set affected"
  proof
    fix y assume "y \<in> (edges g)\<^sup>* `` set affected"
    then obtain x where "(x, y) \<in> (edges g)\<^sup>*" "x \<in> set affected" by blast
    then show "y \<in> set affected"
    proof (rule rtrancl_closed)
      fix a b assume "a \<in> set affected" "(a, b) \<in> edges g"
      with "1.prems"(4,5) edges_bound[OF "1.prems"(1)] show "b \<in> set affected" by auto
    qed
  qed
  with "1.prems"(3) show ?case by auto
next
  case (2 g seen i queue affected)
  let ?E = "edges g"
  have i: "i < len g" using "2.prems"(4) by auto
  obtain seen' queue' where m: "mark_unseen (length seen) seen queue (dependents g ! i) = (seen', queue')"
    by fastforce
  from mark_unseen_spec[OF m refl] "2.prems"(2) obtain new where
    new: "queue' = queue @ new" "distinct new" "length seen' = len g"
      "set new = {d \<in> set (dependents g ! i). d < len g \<and> \<not> seen ! d}"
      "\<And>x. x < len g \<Longrightarrow> seen' ! x \<longleftrightarrow> seen ! x \<or> x \<in> set (dependents g ! i)" by auto
  have get: "vec_get (dependents g) i = Some (dependents g ! i)" using i "2.prems"(1) by simp
  have IH: "distinct (affected_loop g seen' queue' (affected @ [i])) \<and>
    set (affected_loop g seen' queue' (affected @ [i])) = ?E\<^sup>* `` set ((affected @ [i]) @ queue')"
  proof (rule "2.IH"(2)[OF get m[symmetric]])
    show "distinct ((affected @ [i]) @ queue')"
      using "2.prems"(3,4) new(1,2,4) by auto
    show "set ((affected @ [i]) @ queue') = {x. x < len g \<and> seen' ! x}"
      using "2.prems"(4) new(1,4,5) shape_dependents_bound[OF "2.prems"(1) i] by auto
    show "seen' ! y" if "x \<in> set (affected @ [i])" "(x, y) \<in> ?E" for x y
      using that "2.prems"(5)[of x y] new(5)[of y] edges_bound[OF "2.prems"(1) that(2)]
        edges_dependents[OF "2.prems"(1)] by auto
  qed (use "2.prems"(1) new(3) in auto)
  have "?E\<^sup>* `` set ((affected @ [i]) @ queue') = ?E\<^sup>* `` set (affected @ i # queue)"
  proof
    have "(i, z) \<in> ?E" if "z \<in> set new" for z
      using that new(4) i by (simp add: edges_dependents[OF "2.prems"(1)])
    then show "?E\<^sup>* `` set ((affected @ [i]) @ queue') \<subseteq> ?E\<^sup>* `` set (affected @ i # queue)"
      using new(1) by (auto intro: converse_rtrancl_into_rtrancl)
  qed (use new(1) in auto)
  with IH get m show ?case by simp
qed

lemma affected_nodes_spec:
  assumes "shape_ok g"
  shows "distinct (affected_nodes g changed)"
    and "set (affected_nodes g changed) = (edges g)\<^sup>* `` {c \<in> set changed. c < len g}"
proof -
  obtain seen queue where m: "mark_unseen (len g) (replicate (len g) False) [] changed = (seen, queue)"
    by fastforce
  from mark_unseen_spec[OF m] have "length seen = len g" "distinct queue"
    "set queue = {c \<in> set changed. c < len g}"
    "\<And>x. x < len g \<Longrightarrow> seen ! x \<longleftrightarrow> x \<in> set changed" by auto
  with affected_loop_spec[OF assms, of seen "[]" queue] m
  show "distinct (affected_nodes g changed)"
    "set (affected_nodes g changed) = (edges g)\<^sup>* `` {c \<in> set changed. c < len g}"
    by (auto simp: affected_nodes_def)
qed

subsection \<open>What failure propagation does\<close>

definition same_frame :: "'a build_graph \<Rightarrow> 'a build_graph \<Rightarrow> bool" where
  "same_frame g g' \<longleftrightarrow>
     deps g' = deps g \<and> dependents g' = dependents g \<and> len g' = len g \<and>
     (\<forall>j < len g. node_id (nodes g' ! j) = node_id (nodes g ! j) \<and>
                  payload (nodes g' ! j) = payload (nodes g ! j))"

lemma same_frame_refl [simp]: "same_frame g g"
  by (simp add: same_frame_def)

lemma same_frame_trans: "same_frame g g' \<Longrightarrow> same_frame g' g'' \<Longrightarrow> same_frame g g''"
  by (simp add: same_frame_def)

lemma same_frame_edges: "same_frame g g' \<Longrightarrow> edges g' = edges g"
  by (simp add: same_frame_def edges_def)

lemma same_frame_len: "same_frame g g' \<Longrightarrow> len g' = len g"
  by (simp add: same_frame_def)

lemma same_frame_shape:
  assumes f: "same_frame g g'" and g: "shape_ok g"
  shows "shape_ok g'"
proof (rule shape_okI)
  fix x y assume "y < len g'" "x \<in> set (deps g' ! y)"
  then show "x < len g'" using f shape_deps_bound[OF g, of y x] by (simp add: same_frame_def)
next
  fix x y assume "x < len g'" "y \<in> set (dependents g' ! x)"
  then show "y < len g'" using f shape_dependents_bound[OF g, of x y] by (simp add: same_frame_def)
next
  fix x y assume "x < len g'" "y < len g'"
  then show "count_list (deps g' ! y) x = count_list (dependents g' ! x) y"
    using f shape_converse_count[OF g, of x y] by (simp add: same_frame_def)
qed (use f g in \<open>simp_all add: same_frame_def node_id_eq\<close>)

lemma same_frame_wf: "same_frame g g' \<Longrightarrow> wf_graph g \<Longrightarrow> wf_graph g'"
  by (simp add: wf_graph_def same_frame_shape same_frame_edges)

lemma set_state_same_frame: "set_state i s g = Inr g' \<Longrightarrow> same_frame g g'"
  by (auto simp: set_state_eq same_frame_def nth_list_update len_def simp del: length_nodes split: if_splits)

lemma st_set_state:
  "set_state i s g = Inr g' \<Longrightarrow> j < len g \<Longrightarrow> st g' j = (if j = i then s else st g j)"
  by (rule set_state_frame)

lemma cancel_each_spec:
  assumes "shape_ok g" "\<And>d. d \<in> set ds \<Longrightarrow> d < len g"
  shows "\<exists>g' new. cancel_each g queue ds = (Inr (queue @ new), g') \<and> same_frame g g' \<and>
    set new = {d \<in> set ds. \<not> is_terminal (st g d)} \<and>
    (\<forall>j < len g. st g' j = (if j \<in> set new then Cancelled else st g j))"
  using assms
proof (induction ds arbitrary: g queue)
  case Nil
  then show ?case by simp
next
  case (Cons d ds)
  have d: "d < len g" using Cons.prems(2) by simp
  show ?case
  proof (cases "is_terminal (st g d)")
    case True
    from Cons.IH[of g queue] Cons.prems obtain g' new where
      IH: "cancel_each g queue ds = (Inr (queue @ new), g')" "same_frame g g'"
      "set new = {d \<in> set ds. \<not> is_terminal (st g d)}"
      "\<forall>j < len g. st g' j = (if j \<in> set new then Cancelled else st g j)" by auto
    then show ?thesis using True d by (intro exI[of _ g'] exI[of _ new]) auto
  next
    case False
    obtain g1 where g1: "set_state d Cancelled g = Inr g1" using d by (simp add: set_state_eq)
    note f = set_state_same_frame[OF g1]
    from Cons.IH[of g1 "queue @ [d]"] Cons.prems obtain g' new where
      IH: "cancel_each g1 (queue @ [d]) ds = (Inr ((queue @ [d]) @ new), g')" "same_frame g1 g'"
      "set new = {d \<in> set ds. \<not> is_terminal (st g1 d)}"
      "\<forall>j < len g. st g' j = (if j \<in> set new then Cancelled else st g1 j)"
      using same_frame_shape[OF f] same_frame_len[OF f] by auto
    have "cancel_each g queue (d # ds) = (Inr (queue @ d # new), g')"
      using IH(1) False d g1 by simp
    moreover have "set (d # new) = {x \<in> set (d # ds). \<not> is_terminal (st g x)}"
      using IH(3) False Cons.prems(2) st_set_state[OF g1] by (auto split: if_splits)
    moreover have "\<forall>j < len g. st g' j = (if j \<in> set (d # new) then Cancelled else st g j)"
      using IH(4) st_set_state[OF g1] by simp
    ultimately show ?thesis using same_frame_trans[OF f IH(2)] by blast
  qed
qed

definition live_edges :: "'a build_graph \<Rightarrow> (nat \<times> nat) set" where
  "live_edges g = {(x, y). (x, y) \<in> edges g \<and> \<not> is_terminal (st g y)}"

lemma fail_loop_spec:
  assumes "shape_ok g" "set queue \<subseteq> {..<len g}"
  shows "\<exists>g' C. fail_loop g queue = (Inr (), g') \<and> same_frame g g' \<and>
    (\<forall>j < len g. st g' j = (if j \<in> C then Cancelled else st g j)) \<and>
    C \<subseteq> (live_edges g)\<^sup>+ `` set queue \<and>
    (\<forall>x \<in> C \<union> set queue. \<forall>y. (x, y) \<in> edges g \<longrightarrow> is_terminal (st g' y))"
  using assms
proof (induction g queue rule: fail_loop.induct)
  case (1 g)
  then show ?case by simp
next
  case (2 g c queue)
  have c: "c < len g" using "2.prems"(2) by simp
  note bound = shape_dependents_bound[OF "2.prems"(1) c]
  obtain g1 new where ce: "cancel_each g queue (dependents g ! c) = (Inr (queue @ new), g1)"
    "same_frame g g1" "set new = {d \<in> set (dependents g ! c). \<not> is_terminal (st g d)}"
    "\<forall>j < len g. st g1 j = (if j \<in> set new then Cancelled else st g j)"
    using cancel_each_spec[OF "2.prems"(1), of "dependents g ! c" queue] bound by blast
  have dep: "dependents_of g c = Inr (dependents g ! c)" using "2.prems"(1) c by simp
  have "\<exists>g' C. fail_loop g1 (queue @ new) = (Inr (), g') \<and> same_frame g1 g' \<and>
    (\<forall>j < len g1. st g' j = (if j \<in> C then Cancelled else st g1 j)) \<and>
    C \<subseteq> (live_edges g1)\<^sup>+ `` set (queue @ new) \<and>
    (\<forall>x \<in> C \<union> set (queue @ new). \<forall>y. (x, y) \<in> edges g1 \<longrightarrow> is_terminal (st g' y))"
    by (rule "2.IH"[OF dep ce(1)[symmetric] refl])
      (use "2.prems" ce(2,3) bound in \<open>auto simp: same_frame_len intro: same_frame_shape\<close>)
  then obtain g' C where IH: "fail_loop g1 (queue @ new) = (Inr (), g')" "same_frame g1 g'"
    "\<And>j. j < len g \<Longrightarrow> st g' j = (if j \<in> C then Cancelled else st g1 j)"
    "C \<subseteq> (live_edges g1)\<^sup>+ `` set (queue @ new)"
    "\<And>x y. x \<in> C \<union> set (queue @ new) \<Longrightarrow> (x, y) \<in> edges g \<Longrightarrow> is_terminal (st g' y)"
    using same_frame_len[OF ce(2)] same_frame_edges[OF ce(2)] by auto
  have sub: "live_edges g1 \<subseteq> live_edges g"
  proof -
    have "\<not> is_terminal (st g y)" if "\<not> is_terminal (st g1 y)" "y < len g" for y
      using that ce(4) by (cases "y \<in> set new") simp_all
    then show ?thesis
      using edges_bound[OF "2.prems"(1)]
      by (auto simp: live_edges_def same_frame_edges[OF ce(2)])
  qed
  have new_edge: "(c, d) \<in> live_edges g" if "d \<in> set new" for d
    using that c ce(3) by (simp add: live_edges_def edges_dependents[OF "2.prems"(1)])
  have "C \<union> set new \<subseteq> (live_edges g)\<^sup>+ `` set (c # queue)"
  proof
    fix y assume "y \<in> C \<union> set new"
    moreover have "y \<in> (live_edges g)\<^sup>+ `` set (c # queue)" if "y \<in> C"
    proof -
      from that IH(4) obtain q where "q \<in> set (queue @ new)" "(q, y) \<in> (live_edges g1)\<^sup>+" by blast
      then have "(q, y) \<in> (live_edges g)\<^sup>+" using trancl_mono sub by blast
      then show ?thesis
        using \<open>q \<in> set (queue @ new)\<close> new_edge[of q] trancl_into_trancl2[of c q "live_edges g" y]
        by (cases "q \<in> set new") auto
    qed
    ultimately show "y \<in> (live_edges g)\<^sup>+ `` set (c # queue)" using new_edge by auto
  qed
  moreover have "\<forall>j < len g. st g' j = (if j \<in> C \<union> set new then Cancelled else st g j)"
    using IH(3) ce(4) by auto
  moreover have "is_terminal (st g' y)" if "x \<in> (C \<union> set new) \<union> set (c # queue)" "(x, y) \<in> edges g" for x y
  proof (cases "x = c")
    case True
    then have "y < len g" "y \<in> set (dependents g ! c)"
      using that(2) edges_bound[OF "2.prems"(1) that(2)] edges_dependents[OF "2.prems"(1)] by auto
    with ce(3,4) IH(3) show ?thesis by auto
  next
    case False
    with that IH(5) show ?thesis by auto
  qed
  ultimately show ?case
    using IH(1) dep ce(1) same_frame_trans[OF ce(2) IH(2)]
    by (intro exI[of _ g'] exI[of _ "C \<union> set new"]) simp
qed

text \<open>
  The nodes that \<open>mark_failed i\<close> cancels: those reached from \<open>i\<close> through nodes still active.
\<close>

definition cascade :: "'a build_graph \<Rightarrow> nat \<Rightarrow> nat set" where
  "cascade g i = {y. (i, y) \<in> {(x, y). (x, y) \<in> edges g \<and> y \<noteq> i \<and> \<not> is_terminal (st g y)}\<^sup>+}"

lemma mark_failed_spec:
  assumes g: "shape_ok g" and i: "i < len g"
  obtains g' where "mark_failed i g = (Inr (), g')" "same_frame g g'"
    "\<And>j. j < len g \<Longrightarrow>
       st g' j = (if j = i then Failed else if j \<in> cascade g i then Cancelled else st g j)"
proof -
  obtain g1 where g1: "set_state i Failed g = Inr g1" using i by (simp add: set_state_eq)
  note f = set_state_same_frame[OF g1]
  have st1: "st g1 j = (if j = i then Failed else st g j)" if "j < len g" for j
    using st_set_state[OF g1 that] .
  have "set [i] \<subseteq> {..<len g1}" using i same_frame_len[OF f] by simp
  from fail_loop_spec[OF same_frame_shape[OF f g] this]
  obtain g' C where loop: "fail_loop g1 [i] = (Inr (), g')" "same_frame g1 g'"
    "\<forall>j < len g. st g' j = (if j \<in> C then Cancelled else st g1 j)"
    "C \<subseteq> (live_edges g1)\<^sup>+ `` set [i]"
    "\<forall>x \<in> C \<union> set [i]. \<forall>y. (x, y) \<in> edges g \<longrightarrow> is_terminal (st g' y)"
    unfolding same_frame_len[OF f] same_frame_edges[OF f] by (elim exE conjE)
  have live: "live_edges g1 = {(x, y). (x, y) \<in> edges g \<and> y \<noteq> i \<and> \<not> is_terminal (st g y)}"
    using edges_bound[OF g] st1 by (auto simp: live_edges_def same_frame_edges[OF f] split: if_splits)
  have cancelled: "z \<in> C" if "x \<in> C \<union> set [i]" "(x, z) \<in> live_edges g1" for x z
  proof (rule ccontr)
    assume "z \<notin> C"
    moreover have "(x, z) \<in> edges g" "\<not> is_terminal (st g1 z)"
      using that(2) by (simp_all add: live_edges_def same_frame_edges[OF f])
    ultimately show False
      using that(1) loop(3,5) edges_bound[OF g, of x z] by (metis (no_types, lifting))
  qed
  have "y \<in> C" if "(i, y) \<in> (live_edges g1)\<^sup>+" for y
    using that by (induction rule: trancl_induct) (auto intro: cancelled)
  with loop(4) live have C: "C = cascade g i" by (auto simp: cascade_def)
  have "i \<notin> C"
    unfolding C cascade_def by (auto elim: tranclE)
  with loop(1-3) C st1 g1 same_frame_trans[OF f loop(2)] show thesis
    by (intro that[of g']) (auto simp: mark_failed_def)
qed

end
