(* ===== verification/Graph_Transform.thy ===== *)
theory Graph_Transform
  imports Graph_States
begin

text \<open>
  Operations that build one graph from another: \<open>map_nodes\<close>, \<open>subgraph\<close> and
  \<open>merge_subgraph\<close> of \<open>fish-graph/src/graph.rs\<close>, and the run-time expansion of
  \<open>fish-graph/src/dynamic.rs\<close>. \<open>None\<close> is a panic: a failed \<open>expect\<close> or an index out of range.
\<close>

definition expect :: "'e + 'a \<Rightarrow> 'a option" where
  "expect r = (case r of Inl _ \<Rightarrow> None | Inr a \<Rightarrow> Some a)"

definition map_nodes :: "(nat \<Rightarrow> 'a \<Rightarrow> 'b) \<Rightarrow> 'a build_graph \<Rightarrow> 'b build_graph option" where
  "map_nodes f g =
     (let out = foldl (\<lambda>out nd. snd (add_node (f (node_id nd) (payload nd)) out)) new_graph (nodes g)
      in fold_opt
           (\<lambda>out i. case deps_of g i of
               Inl _ \<Rightarrow> Some out
             | Inr ds \<Rightarrow> fold_opt (\<lambda>out d. expect (add_dependency d i out)) out ds)
           out [0..<len g])"

definition keep_node ::
  "'a build_graph \<Rightarrow> 'a build_graph \<times> (nat \<rightharpoonup> nat) \<Rightarrow> nat \<Rightarrow> 'a build_graph \<times> (nat \<rightharpoonup> nat)" where
  "keep_node g = (\<lambda>(out, renumber) i.
     case get_node g i of
       None \<Rightarrow> (out, renumber)
     | Some nd \<Rightarrow>
         (case add_node (payload nd) out of (new, out') \<Rightarrow> (out', renumber(i \<mapsto> new))))"

definition subgraph :: "'a build_graph \<Rightarrow> nat list \<Rightarrow> 'a build_graph option" where
  "subgraph g keep =
     (case foldl (keep_node g) (new_graph, Map.empty) keep of
        (out, renumber) \<Rightarrow>
          fold_opt
            (\<lambda>out i. case renumber i of
                None \<Rightarrow> Some out
              | Some new \<Rightarrow>
                  (case deps_of g i of
                     Inl _ \<Rightarrow> Some out
                   | Inr ds \<Rightarrow>
                       fold_opt
                         (\<lambda>out d. case renumber d of
                             None \<Rightarrow> Some out
                           | Some new_dep \<Rightarrow> expect (add_dependency new_dep new out))
                         out ds))
            out keep)"

fun add_all :: "'a node list \<Rightarrow> 'a build_graph \<Rightarrow> nat list \<times> 'a build_graph" where
  "add_all [] g = ([], g)"
| "add_all (nd # nds) g =
     (case add_node (payload nd) g of (new, g') \<Rightarrow>
        (case add_all nds g' of (ids, g'') \<Rightarrow> (new # ids, g'')))"

definition merge_subgraph ::
  "'a build_graph \<Rightarrow> 'a build_graph \<Rightarrow> ((nat \<rightharpoonup> nat) \<times> 'a build_graph) option" where
  "merge_subgraph g other =
     (case add_all (nodes other) g of
        (new_ids, g1) \<Rightarrow>
          map_option (\<lambda>g2. (map_of (enumerate 0 new_ids), g2))
            (fold_opt
               (\<lambda>g (dep_idx, ds).
                  case vec_get new_ids dep_idx of
                    None \<Rightarrow> None
                  | Some dnt \<Rightarrow>
                      fold_opt
                        (\<lambda>g dep. case vec_get new_ids dep of
                            None \<Rightarrow> None
                          | Some dep' \<Rightarrow>
                              (case add_dependency dep' dnt g of Inl _ \<Rightarrow> Some g | Inr g' \<Rightarrow> Some g'))
                        g ds)
               g1 (enumerate 0 (deps other))))"

subsection \<open>Run-time expansion\<close>

record 'a dynamic_task_spec =
  task_payload :: 'a
  task_dependencies :: "nat list"

fun link_all :: "nat \<Rightarrow> nat list \<Rightarrow> 'a build_graph \<Rightarrow> (graph_error + unit) \<times> 'a build_graph" where
  "link_all child [] g = (Inr (), g)"
| "link_all child (d # ds) g =
     (case add_dependency d child g of
        Inl e \<Rightarrow> (Inl e, g)
      | Inr g' \<Rightarrow> link_all child ds g')"

fun expand_loop ::
  "nat \<Rightarrow> 'a dynamic_task_spec list \<Rightarrow> nat list \<Rightarrow> 'a build_graph \<Rightarrow>
     (graph_error + nat list) \<times> 'a build_graph" where
  "expand_loop parent [] created g = (Inr created, g)"
| "expand_loop parent (task # tasks) created g =
     (case add_node (task_payload task) g of
        (child, g1) \<Rightarrow>
          (case link_all child (parent # task_dependencies task) g1 of
             (Inl e, g2) \<Rightarrow> (Inl e, g2)
           | (Inr _, g2) \<Rightarrow> expand_loop parent tasks (created @ [child]) g2))"

definition expand_node ::
  "nat \<Rightarrow> 'a dynamic_task_spec list \<Rightarrow> 'a build_graph \<Rightarrow> (graph_error + nat list) \<times> 'a build_graph" where
  "expand_node parent new_tasks g = expand_loop parent new_tasks [] g"

subsection \<open>Adding a list of edges along a rank\<close>

lemma fold_edges:
  assumes h: "\<And>out x y out'. add_dependency x y out = Inr out' \<Longrightarrow> h out (x, y) = Some out'"
    and "shape_ok out" "\<And>a b. (a, b) \<in> edges out \<Longrightarrow> f a < (f b :: nat)"
    and "\<And>x y. (x, y) \<in> set es \<Longrightarrow> x < len out \<and> y < len out \<and> f x < f y"
  shows "\<exists>out'. fold_opt h out es = Some out' \<and> wf_graph out' \<and> nodes out' = nodes out \<and>
    edges out' = edges out \<union> set es \<and>
    (\<forall>y < len out. deps out' ! y = deps out ! y @ map fst (filter (\<lambda>e. snd e = y) es))"
  using assms(2-)
proof (induction es arbitrary: out)
  case Nil
  then show ?case by (auto simp: wf_graph_def intro: acyclic_by_rank)
next
  case (Cons e es)
  obtain x y where e: "e = (x, y)" by fastforce
  have xy: "x < len out" "y < len out" "f x < f y" using Cons.prems(3)[of x y] e by auto
  have step: "h out e = Some (with_edge x y out)"
    unfolding e using Cons.prems xy by (intro h add_dependency_ranked) auto
  have "\<exists>out'. fold_opt h (with_edge x y out) es = Some out' \<and> wf_graph out' \<and>
    nodes out' = nodes (with_edge x y out) \<and>
    edges out' = edges (with_edge x y out) \<union> set es \<and>
    (\<forall>z < len (with_edge x y out).
       deps out' ! z = deps (with_edge x y out) ! z @ map fst (filter (\<lambda>e. snd e = z) es))"
  proof (rule Cons.IH)
    show "shape_ok (with_edge x y out)" using Cons.prems(1) xy by (simp add: shape_with_edge)
    show "f a < f b" if "(a, b) \<in> edges (with_edge x y out)" for a b
      using that Cons.prems(1,2) xy by (auto simp: edges_with_edge)
    show "a < len (with_edge x y out) \<and> b < len (with_edge x y out) \<and> f a < f b"
      if "(a, b) \<in> set es" for a b using Cons.prems(3)[of a b] that by simp
  qed
  then show ?case
    using step e Cons.prems(1) xy by (auto simp: edges_with_edge nth_push_at)
qed

lemma fold_opt_concat:
  "fold_opt (\<lambda>out i. fold_opt h out (f i)) s is = fold_opt h s (concat (map f is))"
  by (induction "is" arbitrary: s) (auto simp: fold_opt_append split: option.splits)

lemma fold_opt_map: "fold_opt h s (map f xs) = fold_opt (\<lambda>s x. h s (f x)) s xs"
  by (induction xs arbitrary: s) (auto split: option.splits)

lemma fold_opt_cong:
  "(\<And>s x. x \<in> set xs \<Longrightarrow> f s x = g s x) \<Longrightarrow> fold_opt f s xs = fold_opt g s xs"
  by (induction xs arbitrary: s) (auto split: option.splits)

lemma fold_opt_map_filter:
  "fold_opt (\<lambda>s x. case r x of None \<Rightarrow> Some s | Some y \<Rightarrow> h s y) s xs = fold_opt h s (List.map_filter r xs)"
  by (induction xs arbitrary: s) (auto simp: List.map_filter_simps split: option.splits)

subsection \<open>Copies of the nodes\<close>

definition add_payloads :: "('b \<Rightarrow> 'a) \<Rightarrow> 'b list \<Rightarrow> 'a build_graph \<Rightarrow> 'a build_graph" where
  "add_payloads f xs g = foldl (\<lambda>out x. snd (add_node (f x) out)) g xs"

lemma add_payloads_Nil [simp]: "add_payloads f [] g = g"
  by (simp add: add_payloads_def)

lemma add_payloads_Cons [simp]: "add_payloads f (x # xs) g = add_payloads f xs (snd (add_node (f x) g))"
  by (simp add: add_payloads_def)

lemma add_payloads_parts [simp]:
  "deps (add_payloads f xs g) = deps g @ replicate (length xs) []"
  "dependents (add_payloads f xs g) = dependents g @ replicate (length xs) []"
  "len (add_payloads f xs g) = len g + length xs"
  by (induction xs arbitrary: g) (simp_all add: replicate_append_same flip: replicate_Suc)

lemma nodes_add_payloads:
  "nodes (add_payloads f xs g) =
     nodes g @ map (\<lambda>(i, x). \<lparr>node_id = i, payload = f x, state = Pending\<rparr>) (enumerate (len g) xs)"
  by (induction xs arbitrary: g) simp_all

lemma shape_add_payloads [wf_intros]: "shape_ok g \<Longrightarrow> shape_ok (add_payloads f xs g)"
  by (induction xs arbitrary: g) (simp_all add: shape_add_node)

lemma edges_add_payloads [simp]: "shape_ok g \<Longrightarrow> edges (add_payloads f xs g) = edges g"
  by (induction xs arbitrary: g) (simp_all add: shape_add_node)

lemma node_add_payloads:
  "i < len g \<Longrightarrow> nodes (add_payloads f xs g) ! i = nodes g ! i"
  "j < length xs \<Longrightarrow> nodes (add_payloads f xs g) ! (len g + j) =
     \<lparr>node_id = len g + j, payload = f (xs ! j), state = Pending\<rparr>"
  by (simp_all add: nodes_add_payloads nth_append nth_enumerate_eq)

subsection \<open>\<open>map_nodes\<close>\<close>

lemma graph_rank:
  assumes "wf_graph g"
  obtains f :: "nat \<Rightarrow> nat" where "\<And>x y. (x, y) \<in> edges g \<Longrightarrow> f x < f y"
  using acyclic_rank[OF finite_edges wf_acyclic] assms by (metis wf_shape)

lemma map_nodes_wf:
  assumes g: "wf_graph g"
  obtains out where "map_nodes f g = Some out" "wf_graph out" "len out = len g"
    "edges out = edges g" "deps out = deps g"
    "\<And>i. i < len g \<Longrightarrow> payload (nodes out ! i) = f i (payload (nodes g ! i))"
    "\<And>i. i < len g \<Longrightarrow> st out i = Pending"
proof -
  have shape: "shape_ok g" using g by simp
  obtain r :: "nat \<Rightarrow> nat" where r: "\<And>x y. (x, y) \<in> edges g \<Longrightarrow> r x < r y"
    using graph_rank[OF g] by blast
  let ?o = "add_payloads (\<lambda>nd. f (node_id nd) (payload nd)) (nodes g) new_graph"
  let ?es = "concat (map (\<lambda>i. map (\<lambda>d. (d, i)) (deps g ! i)) [0..<len g])"
  let ?h = "\<lambda>out (x, y). expect (add_dependency x y out)"
  have es: "set ?es = edges g"
    by (auto simp: edges_deps[OF shape])
  have "\<exists>out. fold_opt ?h ?o ?es = Some out \<and> wf_graph out \<and> nodes out = nodes ?o \<and>
      edges out = edges ?o \<union> set ?es \<and>
      (\<forall>y < len ?o. deps out ! y = deps ?o ! y @ map fst (filter (\<lambda>e. snd e = y) ?es))"
  proof (rule fold_edges[where f = r])
    show "?h out (x, y) = Some out'" if "add_dependency x y out = Inr out'" for out x y out'
      using that by (simp add: expect_def)
    show "x < len ?o \<and> y < len ?o \<and> r x < r y" if "(x, y) \<in> set ?es" for x y
      using that r edges_bound[OF shape] unfolding es by auto
  qed (simp_all add: shape_add_payloads)
  then obtain out where out: "fold_opt ?h ?o ?es = Some out" "wf_graph out" "nodes out = nodes ?o"
    "edges out = edges ?o \<union> set ?es"
    "\<forall>y < len ?o. deps out ! y = deps ?o ! y @ map fst (filter (\<lambda>e. snd e = y) ?es)"
    by blast
  have "map_nodes f g = fold_opt ?h ?o ?es"
    unfolding map_nodes_def Let_def add_payloads_def fold_opt_concat[symmetric] fold_opt_map
    using shape by (intro fold_opt_cong) (auto simp: fold_opt_map)
  moreover have len: "len out = len g" using arg_cong[OF out(3), of length] by simp
  moreover have "edges out = edges g" using out(4) es by simp
  moreover have "deps out = deps g"
  proof (rule nth_equalityI)
    fix y assume "y < length (deps out)"
    then have y: "y < len g" using out(2) len by simp
    have "map fst (filter (\<lambda>e. snd e = y) (concat (map (\<lambda>i. map (\<lambda>d. (d, i)) (ds i)) [0..<n])))
        = (if y < n then ds y else [])" for n and ds :: "nat \<Rightarrow> nat list"
      by (induction n) (auto simp: filter_map comp_def less_Suc_eq)
    with out(5) y show "deps out ! y = deps g ! y" by (simp add: new_graph_def)
  qed (use out(2) len shape in simp)
  moreover have "payload (nodes out ! i) = f i (payload (nodes g ! i))" "st out i = Pending"
    if "i < len g" for i
    using that node_add_payloads(2)[of i "nodes g" "\<lambda>nd. f (node_id nd) (payload nd)" new_graph]
      node_id_eq[OF shape that] out(3) by simp_all
  ultimately show thesis using out(1,2) by (intro that[of out]) simp_all
qed

subsection \<open>\<open>subgraph\<close>\<close>

definition kept :: "'a build_graph \<Rightarrow> nat list \<Rightarrow> nat list" where
  "kept g keep = filter (\<lambda>i. i < len g) keep"

lemma keep_fold:
  "\<exists>m. foldl (keep_node g) (out, ren) keep =
       (add_payloads (\<lambda>i. payload (nodes g ! i)) (kept g keep) out, ren ++ m) \<and>
     dom m = set (kept g keep) \<and>
     (\<forall>i j. m i = Some j \<longrightarrow> len out \<le> j \<and> j < len out + length (kept g keep) \<and>
                          kept g keep ! (j - len out) = i)"
proof (induction keep arbitrary: out ren)
  case Nil
  then show ?case by (simp add: kept_def)
next
  case (Cons i keep)
  show ?case
  proof (cases "i < len g")
    case False
    then have "keep_node g (out, ren) i = (out, ren)" "kept g (i # keep) = kept g keep"
      by (simp_all add: keep_node_def kept_def)
    with Cons.IH[of out ren] show ?thesis by simp
  next
    case True
    let ?out = "snd (add_node (payload (nodes g ! i)) out)"
    have step: "keep_node g (out, ren) i = (?out, ren(i \<mapsto> len out))"
      using True by (simp add: keep_node_def split_beta)
    have k: "kept g (i # keep) = i # kept g keep" using True by (simp add: kept_def)
    obtain m where m: "foldl (keep_node g) (?out, ren(i \<mapsto> len out)) keep =
       (add_payloads (\<lambda>i. payload (nodes g ! i)) (kept g keep) ?out, ren(i \<mapsto> len out) ++ m)"
      "dom m = set (kept g keep)"
      "\<forall>x j. m x = Some j \<longrightarrow> Suc (len out) \<le> j \<and> j < Suc (len out) + length (kept g keep) \<and>
         kept g keep ! (j - Suc (len out)) = x"
      using Cons.IH[of ?out "ren(i \<mapsto> len out)"] unfolding add_node_parts(4) by blast
    have "ren(i \<mapsto> len out) ++ m = ren ++ ([i \<mapsto> len out] ++ m)"
      by (metis map_add_assoc map_add_empty map_add_upd)
    moreover have "len out \<le> j \<and> j < len out + length (i # kept g keep) \<and>
        (i # kept g keep) ! (j - len out) = x" if "([i \<mapsto> len out] ++ m) x = Some j" for x j
    proof (cases "m x")
      case None
      then show ?thesis using that by (auto simp: map_add_def split: if_splits)
    next
      case (Some j')
      with that have "m x = Some j" by simp
      with m(3) have "Suc (len out) \<le> j \<and> j < Suc (len out) + length (kept g keep) \<and>
         kept g keep ! (j - Suc (len out)) = x" by blast
      then show ?thesis by (auto simp: nth_Cons' Suc_diff_Suc)
    qed
    ultimately show ?thesis
      using m(1,2) step k by (intro exI[of _ "[i \<mapsto> len out] ++ m"]) auto
  qed
qed

lemma subgraph_wf:
  assumes g: "wf_graph g"
  obtains out m where "subgraph g keep = Some out" "wf_graph out" "len out = length (kept g keep)"
    "dom m = set (kept g keep)"
    "\<And>i j. m i = Some j \<Longrightarrow> j < len out \<and> kept g keep ! j = i"
    "edges out = {(x, y). \<exists>a b. (a, b) \<in> edges g \<and> m a = Some x \<and> m b = Some y}"
    "\<And>j. j < len out \<Longrightarrow>
       payload (nodes out ! j) = payload (nodes g ! (kept g keep ! j)) \<and> st out j = Pending"
proof -
  have shape: "shape_ok g" using g by simp
  obtain r :: "nat \<Rightarrow> nat" where r: "\<And>x y. (x, y) \<in> edges g \<Longrightarrow> r x < r y"
    using graph_rank[OF g] by blast
  let ?p = "\<lambda>i. payload (nodes g ! i)"
  let ?o = "add_payloads ?p (kept g keep) (new_graph :: 'a build_graph)"
  obtain m where m: "foldl (keep_node g) (new_graph, Map.empty) keep = (?o, m)"
    "dom m = set (kept g keep)"
    "\<And>i j. m i = Some j \<Longrightarrow> j < length (kept g keep) \<and> kept g keep ! j = i"
    using keep_fold[of g new_graph Map.empty keep] by auto
  let ?row = "\<lambda>i y. List.map_filter (\<lambda>d. map_option (\<lambda>x. (x, y)) (m d)) (deps g ! i)"
  let ?es = "concat (map (\<lambda>i. case m i of None \<Rightarrow> [] | Some y \<Rightarrow> ?row i y) keep)"
  let ?h = "\<lambda>out (x, y). expect (add_dependency x y out)"
  have bound: "i < len g" if "m i = Some y" for i y
    using that m(2) by (auto simp: kept_def)
  have es: "set ?es = {(x, y). \<exists>a b. (a, b) \<in> edges g \<and> m a = Some x \<and> m b = Some y}"
  proof -
    have "b \<in> set keep" if "m b = Some y" for b y
      using domI[of m, OF that] unfolding m(2) by (simp add: kept_def)
    then have "(x, y) \<in> set ?es \<longleftrightarrow> (\<exists>a b. (a, b) \<in> edges g \<and> m a = Some x \<and> m b = Some y)"
      if "(x, y) \<in> set ?es \<longleftrightarrow>
        (\<exists>b \<in> set keep. m b = Some y \<and> (\<exists>a \<in> set (deps g ! b). m a = Some x))" for x y
      unfolding that edges_deps[OF shape] using bound by blast
    moreover have "(x, y) \<in> set ?es \<longleftrightarrow>
        (\<exists>b \<in> set keep. m b = Some y \<and> (\<exists>a \<in> set (deps g ! b). m a = Some x))" for x y
      by (simp add: set_map_filter split: option.splits) metis
    ultimately show ?thesis by (intro set_eqI) (simp only: split_paired_all mem_Collect_eq prod.case)
  qed
  have "\<exists>out. fold_opt ?h ?o ?es = Some out \<and> wf_graph out \<and> nodes out = nodes ?o \<and>
      edges out = edges ?o \<union> set ?es \<and>
      (\<forall>y < len ?o. deps out ! y = deps ?o ! y @ map fst (filter (\<lambda>e. snd e = y) ?es))"
  proof (rule fold_edges[where f = "\<lambda>j. r (kept g keep ! j)"])
    show "?h out (x, y) = Some out'" if "add_dependency x y out = Inr out'" for out x y out'
      using that by (simp add: expect_def)
    show "x < len ?o \<and> y < len ?o \<and> r (kept g keep ! x) < r (kept g keep ! y)"
      if xy: "(x, y) \<in> set ?es" for x y
    proof -
      obtain a b where "(a, b) \<in> edges g" "m a = Some x" "m b = Some y"
        using xy unfolding es by blast
      then show ?thesis using m(3) r by force
    qed
  qed (simp_all add: shape_add_payloads)
  then obtain out where out: "fold_opt ?h ?o ?es = Some out" "wf_graph out" "nodes out = nodes ?o"
    "edges out = edges ?o \<union> set ?es" by blast
  have "subgraph g keep = fold_opt ?h ?o ?es"
    unfolding subgraph_def m(1) fold_opt_concat[symmetric]
    using shape bound
    by (auto simp: fold_opt_map_filter[symmetric] split: option.splits intro!: fold_opt_cong)
  moreover have "len out = length (kept g keep)" using arg_cong[OF out(3), of length] by simp
  moreover have "payload (nodes out ! j) = ?p (kept g keep ! j) \<and> st out j = Pending"
    if "j < length (kept g keep)" for j
    using that node_add_payloads(2)[of j "kept g keep" ?p "new_graph :: 'a build_graph"] out(3) by simp
  ultimately show thesis using out(1,2,4) es m by (intro that[of out m]) simp_all
qed

subsection \<open>\<open>merge_subgraph\<close>\<close>

lemma add_all_eq:
  "add_all nds g = ([len g..<len g + length nds], add_payloads payload nds g)"
proof (induction nds arbitrary: g)
  case (Cons nd nds)
  have *: "[len g..<len g + length (nd # nds)] = len g # [Suc (len g)..<Suc (len g) + length nds]"
    by (simp add: upt_conv_Cons del: upt_Suc)
  show ?case unfolding * by (simp add: split_beta Cons)
qed simp

lemma merge_subgraph_wf:
  assumes g: "wf_graph g" and h: "wf_graph other"
  obtains out m where "merge_subgraph g other = Some (m, out)" "wf_graph out"
    "len out = len g + len other"
    "\<And>i. m i = (if i < len other then Some (len g + i) else None)"
    "edges out = edges g \<union> (\<lambda>(x, y). (len g + x, len g + y)) ` edges other"
    "\<And>i. i < len g \<Longrightarrow> nodes out ! i = nodes g ! i \<and> deps out ! i = deps g ! i"
    "\<And>i. i < len other \<Longrightarrow> nodes out ! (len g + i) =
       \<lparr>node_id = len g + i, payload = payload (nodes other ! i), state = Pending\<rparr>"
proof -
  have sg: "shape_ok g" and sh: "shape_ok other" using g h by simp_all
  obtain r1 :: "nat \<Rightarrow> nat" where r1: "\<And>x y. (x, y) \<in> edges g \<Longrightarrow> r1 x < r1 y"
    using graph_rank[OF g] by blast
  obtain r2 :: "nat \<Rightarrow> nat" where r2: "\<And>x y. (x, y) \<in> edges other \<Longrightarrow> r2 x < r2 y"
    using graph_rank[OF h] by blast
  let ?r = "\<lambda>i. if i < len g then r1 i else r2 (i - len g)"
  let ?o = "add_payloads payload (nodes other) g"
  let ?ids = "[len g..<len g + len other]"
  let ?es = "concat (map (\<lambda>(i, ds). map (\<lambda>d. (len g + d, len g + i)) ds) (enumerate 0 (deps other)))"
  let ?h = "\<lambda>g (x, y). case add_dependency x y g of Inl _ \<Rightarrow> Some g | Inr g' \<Rightarrow> Some g'"
  have es: "set ?es = (\<lambda>(x, y). (len g + x, len g + y)) ` edges other"
  proof -
    have "(x, y) \<in> set ?es \<longleftrightarrow>
        (\<exists>i < len other. \<exists>d \<in> set (deps other ! i). x = len g + d \<and> y = len g + i)" for x y
      using sh by (fastforce simp: in_set_enumerate_eq)
    moreover have "(x, y) \<in> (\<lambda>(x, y). (len g + x, len g + y)) ` edges other \<longleftrightarrow>
        (\<exists>i < len other. \<exists>d \<in> set (deps other ! i). x = len g + d \<and> y = len g + i)" for x y
      using edges_deps[OF sh] by (auto simp: image_iff) force
    ultimately show ?thesis by (intro equalityI subrelI) (simp_all only:)
  qed
  have "\<exists>out. fold_opt ?h ?o ?es = Some out \<and> wf_graph out \<and> nodes out = nodes ?o \<and>
      edges out = edges ?o \<union> set ?es \<and>
      (\<forall>y < len ?o. deps out ! y = deps ?o ! y @ map fst (filter (\<lambda>e. snd e = y) ?es))"
  proof (rule fold_edges[where f = ?r])
    show "?h out (x, y) = Some out'" if "add_dependency x y out = Inr out'" for out x y out'
      using that by simp
    show "?r a < ?r b" if "(a, b) \<in> edges ?o" for a b
      using that r1 edges_bound[OF sg] by (simp add: sg)
    show "x < len ?o \<and> y < len ?o \<and> ?r x < ?r y" if "(x, y) \<in> set ?es" for x y
      using that r2 edges_bound[OF sh] unfolding es by auto
  qed (simp add: shape_add_payloads sg)
  then obtain out where out: "fold_opt ?h ?o ?es = Some out" "wf_graph out" "nodes out = nodes ?o"
    "edges out = edges ?o \<union> set ?es"
    "\<forall>y < len ?o. deps out ! y = deps ?o ! y @ map fst (filter (\<lambda>e. snd e = y) ?es)"
    by blast
  have "fold_opt
      (\<lambda>g (dep_idx, ds). case vec_get ?ids dep_idx of None \<Rightarrow> None
        | Some dnt \<Rightarrow> fold_opt
            (\<lambda>g dep. case vec_get ?ids dep of None \<Rightarrow> None
              | Some dep' \<Rightarrow> (case add_dependency dep' dnt g of Inl _ \<Rightarrow> Some g | Inr g' \<Rightarrow> Some g'))
            g ds)
      ?o (enumerate 0 (deps other)) = fold_opt ?h ?o ?es"
    unfolding fold_opt_concat[symmetric]
    using sh shape_deps_bound[OF sh]
    by (intro fold_opt_cong) (auto simp: in_set_enumerate_eq fold_opt_map intro!: fold_opt_cong)
  then have run: "merge_subgraph g other = Some (map_of (enumerate 0 ?ids), out)"
    using out(1) by (simp add: merge_subgraph_def add_all_eq)
  have n: "len out = len g + len other" using arg_cong[OF out(3), of length] by simp
  have m: "map_of (enumerate 0 ?ids) i = (if i < len other then Some (len g + i) else None)" for i
  proof -
    have "enumerate 0 ?ids = map (\<lambda>i. (i, len g + i)) [0..<len other]"
      by (rule nth_equalityI) (simp_all add: nth_enumerate_eq)
    then show ?thesis by (auto simp: map_of_map_restrict restrict_map_def)
  qed
  have e: "edges out = edges g \<union> (\<lambda>(x, y). (len g + x, len g + y)) ` edges other"
    using out(4) es by (simp add: sg)
  have old: "nodes out ! i = nodes g ! i \<and> deps out ! i = deps g ! i" if "i < len g" for i
  proof -
    have "filter (\<lambda>e. snd e = i) ?es = []" using that es by (auto simp: filter_empty_conv)
    with that out(3,5) sg show ?thesis by (simp add: node_add_payloads nth_append)
  qed
  have new: "nodes out ! (len g + i) =
      \<lparr>node_id = len g + i, payload = payload (nodes other ! i), state = Pending\<rparr>" if "i < len other" for i
    using that out(3) by (simp add: node_add_payloads)
  show thesis by (rule that[OF run out(2) n m e old new])
qed

subsection \<open>\<open>expand_node\<close>\<close>

lemma no_out_edges:
  "shape_ok g \<Longrightarrow> c < len g \<Longrightarrow> dependents g ! c = [] \<Longrightarrow> (c, x) \<in> (edges g)\<^sup>* \<longleftrightarrow> x = c"
  by (auto simp: edges_dependents elim: converse_rtranclE)

lemma link_all_spec:
  assumes "wf_graph g" "c < len g" "dependents g ! c = []"
  obtains r g' where "link_all c ds g = (r, g')" "wf_graph g'" "nodes g' = nodes g"
    "\<And>j. j < len g \<Longrightarrow> j \<noteq> c \<Longrightarrow> deps g' ! j = deps g ! j"
    "r = Inr () \<longleftrightarrow> (\<forall>d \<in> set ds. d < len g \<and> d \<noteq> c)"
    "r = Inr () \<Longrightarrow> deps g' ! c = deps g ! c @ ds"
proof -
  have "\<exists>r g'. link_all c ds g = (r, g') \<and> wf_graph g' \<and> nodes g' = nodes g \<and>
    (\<forall>j < len g. j \<noteq> c \<longrightarrow> deps g' ! j = deps g ! j) \<and>
    (r = Inr () \<longleftrightarrow> (\<forall>d \<in> set ds. d < len g \<and> d \<noteq> c)) \<and>
    (r = Inr () \<longrightarrow> deps g' ! c = deps g ! c @ ds)"
    using assms
  proof (induction ds arbitrary: g)
    case Nil
    then show ?case by simp
  next
    case (Cons d ds)
    show ?case
    proof (cases "d < len g \<and> d \<noteq> c")
      case False
      then have "\<exists>e. add_dependency d c g = Inl e"
        using Cons.prems(1,2) by (auto simp: add_dependency_eq)
      with False Cons.prems show ?thesis by auto
    next
      case True
      with Cons.prems have ok: "add_dependency d c g = Inr (with_edge d c g)"
        by (simp add: add_dependency_eq no_out_edges)
      have "wf_graph (with_edge d c g)" using Cons.prems(1) ok by (rule wf_add_dependency)
      moreover have "dependents (with_edge d c g) ! c = []"
        using Cons.prems True by (simp add: nth_push_at)
      ultimately obtain r g' where "link_all c ds (with_edge d c g) = (r, g')" "wf_graph g'"
        "nodes g' = nodes g" "\<forall>j < len g. j \<noteq> c \<longrightarrow> deps g' ! j = deps (with_edge d c g) ! j"
        "r = Inr () \<longleftrightarrow> (\<forall>d \<in> set ds. d < len g \<and> d \<noteq> c)"
        "r = Inr () \<longrightarrow> deps g' ! c = deps (with_edge d c g) ! c @ ds"
        using Cons.IH[of "with_edge d c g"] Cons.prems(2) by auto
      with True ok Cons.prems show ?thesis by (auto simp: nth_push_at)
    qed
  qed
  with that show thesis by blast
qed

definition specs_ok :: "nat \<Rightarrow> nat \<Rightarrow> 'a dynamic_task_spec list \<Rightarrow> bool" where
  "specs_ok n parent tasks \<longleftrightarrow>
     (\<forall>i < length tasks. \<forall>d \<in> set (parent # task_dependencies (tasks ! i)). d < n + i)"

lemma specs_ok_Cons:
  "specs_ok n parent (t # ts) \<longleftrightarrow>
     (\<forall>d \<in> set (parent # task_dependencies t). d < n) \<and> specs_ok (Suc n) parent ts"
  by (auto simp: specs_ok_def All_less_Suc2)

lemma expand_loop_Cons:
  "link_all (len g) (parent # task_dependencies t) (snd (add_node (task_payload t) g)) = (r, g2) \<Longrightarrow>
     expand_loop parent (t # ts) created g =
       (case r of Inl e \<Rightarrow> (Inl e, g2) | Inr _ \<Rightarrow> expand_loop parent ts (created @ [len g]) g2)"
  by (simp add: split_beta del: link_all.simps split: sum.splits)

lemma expand_loop_spec:
  assumes "wf_graph g"
  shows "\<exists>r g'. expand_loop parent tasks created g = (r, g') \<and> wf_graph g' \<and> len g \<le> len g' \<and>
    (\<forall>j < len g. nodes g' ! j = nodes g ! j \<and> deps g' ! j = deps g ! j) \<and>
    (if specs_ok (len g) parent tasks
     then r = Inr (created @ [len g..<len g + length tasks]) \<and> len g' = len g + length tasks \<and>
       (\<forall>i < length tasks.
          payload (nodes g' ! (len g + i)) = task_payload (tasks ! i) \<and> st g' (len g + i) = Pending \<and>
          deps g' ! (len g + i) = parent # task_dependencies (tasks ! i))
     else \<exists>e. r = Inl e)"
  using assms
proof (induction tasks arbitrary: created g)
  case Nil
  then show ?case by (simp add: specs_ok_def)
next
  case (Cons t ts)
  let ?g1 = "snd (add_node (task_payload t) g)" and ?ds = "parent # task_dependencies t"
  have sh: "shape_ok g" using Cons.prems by simp
  have g1: "wf_graph ?g1" using Cons.prems by (rule wf_add_node)
  have "dependents ?g1 ! len g = []" "deps ?g1 ! len g = []" using sh by (simp_all add: nth_append)
  moreover have "len g < len ?g1" by simp
  ultimately obtain r g2 where raw: "link_all (len g) ?ds ?g1 = (r, g2)" "wf_graph g2"
    "nodes g2 = nodes ?g1" "\<And>j. j < len ?g1 \<Longrightarrow> j \<noteq> len g \<Longrightarrow> deps g2 ! j = deps ?g1 ! j"
    "r = Inr () \<longleftrightarrow> (\<forall>d \<in> set ?ds. d < len ?g1 \<and> d \<noteq> len g)"
    "r = Inr () \<Longrightarrow> deps g2 ! len g = deps ?g1 ! len g @ ?ds"
    using link_all_spec[OF g1, of "len g" ?ds] by blast
  have link: "r = Inr () \<longleftrightarrow> (\<forall>d \<in> set ?ds. d < len g)"
    "r = Inr () \<Longrightarrow> deps g2 ! len g = ?ds"
    "\<And>j. j < len g \<Longrightarrow> deps g2 ! j = deps g ! j"
    using raw(4-6) sh by (auto simp: nth_append less_Suc_eq)
  have len2: "len g2 = Suc (len g)" using arg_cong[OF raw(3), of length] by simp
  have old: "nodes g2 ! j = nodes g ! j" if "j < len g" for j
    using that raw(3) by (simp add: nth_append)
  have new: "nodes g2 ! len g = \<lparr>node_id = len g, payload = task_payload t, state = Pending\<rparr>"
    using raw(3) by (simp add: nth_append)
  show ?case
  proof (cases r)
    case (Inl e)
    have "expand_loop parent (t # ts) created g = (Inl e, g2)"
      using expand_loop_Cons[OF raw(1)] Inl by simp
    moreover have "\<not> specs_ok (len g) parent (t # ts)"
      using link(1) Inl by (simp add: specs_ok_Cons)
    ultimately show ?thesis using raw(2) link(3) old len2 by auto
  next
    case (Inr u)
    then have u: "r = Inr ()" by simp
    from Cons.IH[OF raw(2), of "created @ [len g]"] obtain r' g' where IH:
      "expand_loop parent ts (created @ [len g]) g2 = (r', g')" "wf_graph g'" "Suc (len g) \<le> len g'"
      "\<forall>j < Suc (len g). nodes g' ! j = nodes g2 ! j \<and> deps g' ! j = deps g2 ! j"
      "if specs_ok (Suc (len g)) parent ts
       then r' = Inr ((created @ [len g]) @ [Suc (len g)..<Suc (len g) + length ts]) \<and>
         len g' = Suc (len g) + length ts \<and>
         (\<forall>i < length ts.
            payload (nodes g' ! (Suc (len g) + i)) = task_payload (ts ! i) \<and> st g' (Suc (len g) + i) = Pending \<and>
            deps g' ! (Suc (len g) + i) = parent # task_dependencies (ts ! i))
       else \<exists>e. r' = Inl e"
      unfolding len2 by blast
    have run: "expand_loop parent (t # ts) created g = (r', g')"
      using expand_loop_Cons[OF raw(1)] IH(1) u by simp
    have ok: "specs_ok (len g) parent (t # ts) \<longleftrightarrow> specs_ok (Suc (len g)) parent ts"
      using link(1) u by (simp add: specs_ok_Cons)
    show ?thesis
    proof (cases "specs_ok (Suc (len g)) parent ts")
      case False
      with run IH link old ok show ?thesis by auto
    next
      case True
      have "payload (nodes g' ! (len g + i)) = task_payload ((t # ts) ! i) \<and> st g' (len g + i) = Pending \<and>
          deps g' ! (len g + i) = parent # task_dependencies ((t # ts) ! i)"
        if "i < length (t # ts)" for i
        using that True IH(4,5) new link(2)[OF u] by (cases i) auto
      moreover have "[len g..<len g + length (t # ts)] = len g # [Suc (len g)..<Suc (len g) + length ts]"
        by (simp add: upt_conv_Cons del: upt_Suc)
      ultimately show ?thesis using run IH link(3) old ok True by auto
    qed
  qed
qed

end
