(* ===== verification/Graph_Api.thy ===== *)
theory Graph_Api
  imports Graph_Transform
begin

text \<open>
  What a client of \<open>fish-graph\<close> may rely on: every graph that the public operations can
  build is well-formed, up to the ids that holders of a mutable reference write, and on such graphs each
  operation of the earlier theories meets its specification. The diamond \<open>core \<rightarrow> {lib, gen} \<rightarrow> app\<close> is the running example.
\<close>

subsection \<open>Graphs built through the API\<close>

text \<open>
  The struct's fields are private, so these rules are all the ways to obtain a graph. An operation that
  fails half way (\<open>mark_failed\<close>, \<open>expand_node\<close>) leaves its partial result. The fields of a node are
  public, so the holder of a reference from \<open>node_mut\<close> can write any node there, one with another \<open>id\<close>
  included; \<open>built True\<close> are the graphs where no such write changed an \<open>id\<close>. The only caller of
  \<open>node_mut\<close> in the repository is \<open>set_state\<close>, which changes the state alone.
\<close>

inductive built :: "bool \<Rightarrow> 'a build_graph \<Rightarrow> bool" for ids where
  built_new: "built ids new_graph"
| built_add_node: "built ids g \<Longrightarrow> built ids (snd (add_node p g))"
| built_add_dependency: "built ids g \<Longrightarrow> add_dependency x y g = Inr g' \<Longrightarrow> built ids g'"
| built_node_mut:
    "built ids g \<Longrightarrow> node_mut i w g = Some g' \<Longrightarrow> (ids \<Longrightarrow> node_id (w (nodes g ! i)) = node_id (nodes g ! i)) \<Longrightarrow>
     built ids g'"
| built_set_state: "built ids g \<Longrightarrow> set_state i s g = Inr g' \<Longrightarrow> built ids g'"
| built_reset: "built ids g \<Longrightarrow> built ids (reset_states g)"
| built_mark_failed: "built ids g \<Longrightarrow> built ids (snd (mark_failed i g))"
| built_map_nodes: "built ids g \<Longrightarrow> map_nodes f g = Some g' \<Longrightarrow> built ids g'"
| built_subgraph: "built ids g \<Longrightarrow> subgraph g keep = Some g' \<Longrightarrow> built ids g'"
| built_merge: "built ids g \<Longrightarrow> built ids other \<Longrightarrow> merge_subgraph g other = Some (m, g') \<Longrightarrow> built ids g'"
| built_expand: "built ids g \<Longrightarrow> built ids (snd (expand_node parent tasks g))"

text \<open>
  \<open>numbered\<close> says that each node carries the number of its slot, \<open>renumber_nodes\<close> restores that. The
  adjacency vectors of \<open>g\<close> are in order exactly if \<open>renumber_nodes g\<close> is well-formed.
\<close>

definition numbered :: "'a build_graph \<Rightarrow> bool" where
  "numbered g \<longleftrightarrow> (\<forall>i < len g. node_id (nodes g ! i) = i)"

definition renumber_nodes :: "'a build_graph \<Rightarrow> 'a build_graph" where
  "renumber_nodes g = g\<lparr>nodes := map (\<lambda>(i, nd). nd\<lparr>node_id := i\<rparr>) (enumerate 0 (nodes g))\<rparr>"

lemma renumber_frame [simp]:
  "len (renumber_nodes g) = len g" "deps (renumber_nodes g) = deps g" "dependents (renumber_nodes g) = dependents g"
  "edges (renumber_nodes g) = edges g"
  by (simp_all add: renumber_nodes_def len_def edges_def del: length_nodes)

lemma nth_renumber [simp]: "i < len g \<Longrightarrow> nodes (renumber_nodes g) ! i = (nodes g ! i)\<lparr>node_id := i\<rparr>"
  by (simp add: renumber_nodes_def nth_enumerate_eq)

lemma graph_eqI:
  fixes g h :: "'a build_graph"
  assumes "len g = len h" "\<And>i. i < len g \<Longrightarrow> nodes g ! i = nodes h ! i" "deps g = deps h" "dependents g = dependents h"
  shows "g = h"
proof -
  have "nodes g = nodes h" using assms(1,2) by (intro nth_equalityI) simp_all
  with assms(3,4) show ?thesis by simp
qed

lemma renumber_id: "node_id nd = i \<Longrightarrow> nd\<lparr>node_id := i\<rparr> = nd"
  by (cases nd) simp

lemma renumber_numbered: "numbered g \<longleftrightarrow> renumber_nodes g = g"
proof
  assume n: "numbered g"
  show "renumber_nodes g = g"
  proof (rule graph_eqI)
    fix i assume "i < len (renumber_nodes g)"
    then have i: "i < len g" by simp
    with n have "node_id (nodes g ! i) = i" by (simp add: numbered_def)
    from renumber_id[OF this] show "nodes (renumber_nodes g) ! i = nodes g ! i" unfolding nth_renumber[OF i] .
  qed simp_all
next
  assume eq: "renumber_nodes g = g"
  have "node_id (nodes g ! i) = i" if "i < len g" for i
  proof -
    have "node_id (nodes (renumber_nodes g) ! i) = i" using that by simp
    then show ?thesis by (simp only: eq)
  qed
  then show "numbered g" by (simp add: numbered_def)
qed

lemma wf_renumber_cong:
  assumes "len g' = len g" "deps g' = deps g" "dependents g' = dependents g"
  shows "wf_graph (renumber_nodes g') \<longleftrightarrow> wf_graph (renumber_nodes g)"
proof -
  have "\<forall>i < len g. node_id (nodes (renumber_nodes g') ! i) = i" "\<forall>i < len g. node_id (nodes (renumber_nodes g) ! i) = i"
    using assms(1) by simp_all
  then show ?thesis unfolding wf_graph_def shape_ok_def edges_def renumber_frame assms by blast
qed

lemma wf_renumber: "wf_graph g \<Longrightarrow> wf_graph (renumber_nodes g) \<and> numbered g"
  using renumber_numbered[of g] by (simp add: numbered_def node_id_eq)

subsection \<open>What the operations keep, whatever the ids of the nodes are\<close>

definition sound :: "bool \<Rightarrow> 'a build_graph \<Rightarrow> bool" where
  "sound ids g \<longleftrightarrow> wf_graph (renumber_nodes g) \<and> (ids \<longrightarrow> numbered g)"

lemma sound_new: "sound ids new_graph"
  by (simp add: sound_def wf_renumber[OF wf_new])

lemma sound_add_node: "sound ids g \<Longrightarrow> sound ids (snd (add_node p g))"
proof -
  assume s: "sound ids g"
  then have "wf_graph (snd (add_node p (renumber_nodes g)))" by (auto simp: sound_def intro: wf_intros)
  moreover have "renumber_nodes (snd (add_node p (renumber_nodes g))) = renumber_nodes (snd (add_node p g))"
    by (rule graph_eqI) (auto simp: less_Suc_eq nth_append)
  moreover have "ids \<longrightarrow> numbered (snd (add_node p g))"
    using s by (auto simp: sound_def numbered_def nth_append less_Suc_eq)
  ultimately show ?thesis using wf_renumber by (metis sound_def)
qed

lemma sound_add_dependency:
  assumes "sound ids g" "add_dependency x y g = Inr g'"
  shows "sound ids g'"
proof -
  have r: "reaches_loop (renumber_nodes g) t seen q = reaches_loop g t seen q" for t seen q
    by (induction g t seen q rule: reaches_loop.induct) (simp_all add: reaches_loop.simps(2) split: option.split)
  have g': "g' = with_edge x y g" "x < len g" "y < len g" "x \<noteq> y" "\<not> reaches g y x"
    using assms(2) by (auto simp: add_dependency_def with_edge_def get_node_def vec_get_def Option.is_none_def split: if_splits)
  then have "add_dependency x y (renumber_nodes g) = Inr (with_edge x y (renumber_nodes g))"
    by (simp add: add_dependency_def with_edge_def get_node_def vec_get_def reaches_def r)
  then have "wf_graph (with_edge x y (renumber_nodes g))"
    using assms(1) wf_add_dependency by (auto simp: sound_def)
  moreover have "with_edge x y (renumber_nodes g) = renumber_nodes g'"
    by (simp add: g'(1) renumber_nodes_def with_edge_def)
  ultimately have "wf_graph (renumber_nodes g')" by simp
  then show ?thesis using assms(1) by (simp add: sound_def numbered_def g'(1) with_edge_def len_def del: length_nodes)
qed

lemma sound_frame:
  assumes "sound ids g" "len g' = len g" "deps g' = deps g" "dependents g' = dependents g"
    "ids \<Longrightarrow> numbered g \<Longrightarrow> numbered g'"
  shows "sound ids g'"
  using assms wf_renumber_cong[OF assms(2-4)] by (auto simp: sound_def)

lemma sound_node_mut:
  assumes "sound ids g" "node_mut i w g = Some g'" "ids \<Longrightarrow> node_id (w (nodes g ! i)) = node_id (nodes g ! i)"
  shows "sound ids g'"
  using assms by (intro sound_frame[OF assms(1)])
    (auto simp: node_mut_def get_node_def vec_get_def len_def numbered_def nth_list_update simp del: length_nodes
      split: option.splits if_splits)

text \<open>A state is written through \<open>node_mut\<close>.\<close>

lemma set_state_node_mut:
  "set_state i s g =
     (case node_mut i (\<lambda>nd. nd\<lparr>state := s\<rparr>) g of None \<Rightarrow> Inl (MissingNode i) | Some g' \<Rightarrow> Inr g')"
  by (simp add: set_state_def node_mut_def split: option.split)

lemma sound_set_state: "sound ids g \<Longrightarrow> set_state i s g = Inr g' \<Longrightarrow> sound ids g'"
  by (auto simp: set_state_node_mut split: option.splits intro: sound_node_mut)

lemma sound_reset: "sound ids g \<Longrightarrow> sound ids (reset_states g)"
  by (rule sound_frame) (auto simp: reset_states_def len_def numbered_def simp del: length_nodes)

lemma sound_cancel_each: "cancel_each g q ds = (r, g') \<Longrightarrow> sound ids g \<Longrightarrow> sound ids g'"
  by (induction g q ds rule: cancel_each.induct) (auto split: sum.splits if_splits intro: sound_set_state)

lemma sound_fail_loop: "fail_loop g q = (r, g') \<Longrightarrow> sound ids g \<Longrightarrow> sound ids g'"
proof (induction g q rule: fail_loop.induct)
  case (2 g c q)
  show ?case
  proof (cases "dependents_of g c")
    case (Inr ds)
    obtain q' g1 where c: "cancel_each g q ds = (q', g1)" by (cases "cancel_each g q ds")
    then have "sound ids g1" using 2(3) by (rule sound_cancel_each)
    with 2 Inr c show ?thesis by (cases q') simp_all
  qed (use 2 in simp)
qed simp

lemma sound_mark_failed: "sound ids g \<Longrightarrow> sound ids (snd (mark_failed i g))"
proof (cases "set_state i Failed g")
  case (Inr g1)
  assume "sound ids g"
  then have "sound ids g1" using Inr by (rule sound_set_state)
  then show ?thesis using sound_fail_loop[of g1 "[i]"] by (cases "fail_loop g1 [i]") (simp add: mark_failed_def Inr)
qed (simp add: mark_failed_def)

text \<open>The operations that add nodes and edges one by one.\<close>

lemma sound_fold_opt:
  assumes "fold_opt h g xs = Some g'" "sound ids g" "\<And>g x g'. sound ids g \<Longrightarrow> h g x = Some g' \<Longrightarrow> sound ids g'"
  shows "sound ids g'"
  using assms(1,2) by (induction xs arbitrary: g) (auto split: option.splits dest: assms(3))

lemma sound_expect: "expect (add_dependency x y g) = Some g' \<Longrightarrow> sound ids g \<Longrightarrow> sound ids g'"
  by (auto simp: expect_def split: sum.splits intro: sound_add_dependency)

lemma sound_map_nodes: "map_nodes f g = Some g' \<Longrightarrow> sound ids g'"
proof -
  assume m: "map_nodes f g = Some g'"
  have "sound ids (foldl (\<lambda>out nd. snd (add_node (f (node_id nd) (payload nd)) out)) out ns)" if "sound ids out" for out ns
    using that by (induction ns arbitrary: out) (auto intro: sound_add_node)
  note start = this[OF sound_new]
  show ?thesis
    by (rule sound_fold_opt[OF m[unfolded map_nodes_def Let_def] start])
      (auto split: sum.splits elim: sound_fold_opt sound_expect)
qed

lemma sound_subgraph: "subgraph g keep = Some g' \<Longrightarrow> sound ids g'"
proof -
  assume m: "subgraph g keep = Some g'"
  have "sound ids (fst (foldl (keep_node g) acc ks))" if "sound ids (fst acc)" for acc ks
    using that
  proof (induction ks arbitrary: acc)
    case (Cons k ks)
    have "sound ids (fst (keep_node g acc k))"
      using Cons.prems sound_add_node[of ids "fst acc"]
      by (auto simp: keep_node_def split: prod.split option.split) (metis snd_conv)
    with Cons.IH show ?case by simp
  qed simp
  from this[of "(new_graph, Map.empty)" keep] obtain out m' where
    start: "foldl (keep_node g) (new_graph, Map.empty) keep = (out, m')" "sound ids out"
    by (cases "foldl (keep_node g) (new_graph, Map.empty) keep") (simp add: sound_new)
  have link: "sound ids b" if "(case m' d of None \<Rightarrow> Some a | Some x \<Rightarrow> expect (add_dependency x n a)) = Some b"
    "sound ids a" for a b d n
    using that sound_expect[of _ n a b ids] by (cases "m' d") auto
  show ?thesis
    by (rule sound_fold_opt[OF m[unfolded subgraph_def start(1) prod.case] start(2)])
      (auto split: sum.splits option.splits elim: sound_fold_opt link)
qed

lemma sound_merge: "merge_subgraph g other = Some (m, g') \<Longrightarrow> sound ids g \<Longrightarrow> sound ids g'"
proof -
  assume m: "merge_subgraph g other = Some (m, g')" and s: "sound ids g"
  have "sound ids (snd (add_all ns g))" if "sound ids g" for ns and g :: "'a build_graph"
    using that by (induction ns arbitrary: g) (auto split: prod.split, metis snd_conv sound_add_node)
  then obtain ids' g1 where start: "add_all (nodes other) g = (ids', g1)" "sound ids g1"
    using s by (cases "add_all (nodes other) g") (metis snd_conv)
  have link: "sound ids b" if "(case vec_get ids' d of None \<Rightarrow> None | Some x \<Rightarrow>
      (case add_dependency x n a of Inl _ \<Rightarrow> Some a | Inr a' \<Rightarrow> Some a')) = Some b" "sound ids a" for a b d n
    using that sound_add_dependency[of ids a _ n b] by (auto split: option.splits sum.splits)
  obtain h where "fold_opt h g1 (enumerate 0 (deps other)) = Some g'"
    "\<And>a r b. h a r = Some b \<Longrightarrow> sound ids a \<Longrightarrow> sound ids b"
  proof
    show "fold_opt (\<lambda>g (dep_idx, ds). case vec_get ids' dep_idx of None \<Rightarrow> None
      | Some dnt \<Rightarrow> fold_opt (\<lambda>g dep. case vec_get ids' dep of None \<Rightarrow> None
          | Some dep' \<Rightarrow> (case add_dependency dep' dnt g of Inl _ \<Rightarrow> Some g | Inr g' \<Rightarrow> Some g')) g ds)
      g1 (enumerate 0 (deps other)) = Some g'"
      using m by (simp add: merge_subgraph_def start(1))
    fix a :: "'a build_graph" and r b
    assume r: "(\<lambda>(dep_idx, ds). case vec_get ids' dep_idx of None \<Rightarrow> None
      | Some dnt \<Rightarrow> fold_opt (\<lambda>g dep. case vec_get ids' dep of None \<Rightarrow> None
          | Some dep' \<Rightarrow> (case add_dependency dep' dnt g of Inl _ \<Rightarrow> Some g | Inr g' \<Rightarrow> Some g')) a ds) r = Some b"
      "sound ids a"
    obtain dep_idx ds where "r = (dep_idx, ds)" by (cases r)
    with r(1) obtain dnt where f: "fold_opt (\<lambda>g dep. case vec_get ids' dep of None \<Rightarrow> None
          | Some dep' \<Rightarrow> (case add_dependency dep' dnt g of Inl _ \<Rightarrow> Some g | Inr g' \<Rightarrow> Some g')) a ds = Some b"
      by (cases "vec_get ids' dep_idx") auto
    show "sound ids b" by (rule sound_fold_opt[OF f r(2)]) (erule link)
  qed
  with start(2) show ?thesis by (blast intro: sound_fold_opt)
qed

lemma sound_link_all: "link_all c ds g = (r, g') \<Longrightarrow> sound ids g \<Longrightarrow> sound ids g'"
  by (induction c ds g rule: link_all.induct) (auto split: sum.splits intro: sound_add_dependency)

lemma sound_expand_loop: "expand_loop parent tasks created g = (r, g') \<Longrightarrow> sound ids g \<Longrightarrow> sound ids g'"
proof (induction parent tasks created g rule: expand_loop.induct)
  case (2 parent task tasks created g)
  have "sound ids (snd (add_node (task_payload task) g))" using 2(3) by (rule sound_add_node)
  with 2 show ?case by (auto split: prod.splits sum.splits dest: sound_link_all simp del: link_all.simps)
qed simp

lemma sound_expand: "sound ids g \<Longrightarrow> sound ids (snd (expand_node parent tasks g))"
  using sound_expand_loop[of parent tasks "[]" g]
  by (cases "expand_loop parent tasks [] g") (simp add: expand_node_def)

lemma built_sound: "built ids g \<Longrightarrow> sound ids g"
  by (induction rule: built.induct)
    (blast intro: sound_new sound_add_node sound_add_dependency sound_node_mut sound_set_state sound_reset
      sound_mark_failed sound_map_nodes sound_subgraph sound_merge sound_expand)+

subsection \<open>The running example\<close>

definition diamond :: "string build_graph" where
  "diamond = \<lparr>nodes = [\<lparr>node_id = 0, payload = ''core'', state = Pending\<rparr>,
                      \<lparr>node_id = 1, payload = ''lib'', state = Pending\<rparr>,
                      \<lparr>node_id = 2, payload = ''gen'', state = Pending\<rparr>,
                      \<lparr>node_id = 3, payload = ''app'', state = Pending\<rparr>],
             deps = [[], [0], [0], [1, 2]], dependents = [[1, 2], [3], [3], []]\<rparr>"

lemma len_diamond [simp]: "len diamond = 4"
  by (simp add: diamond_def len_def del: length_nodes)

lemma edges_diamond: "edges diamond = {(0, 1), (0, 2), (1, 3), (2, 3)}"
  by (auto simp: edges_def succ_rel_def diamond_def less_Suc_eq nth_Cons' split: if_splits)

lemma shape_diamond: "shape_ok diamond"
  by (rule shape_okI) (auto simp: diamond_def len_def less_Suc_eq nth_Cons' simp del: length_nodes split: if_splits)

lemma wf_diamond: "wf_graph diamond"
proof -
  have "acyclic (edges diamond)"
    by (rule acyclic_by_rank[where f = "\<lambda>x. x"]) (auto simp: edges_diamond)
  with shape_diamond show ?thesis by (simp add: wf_graph_def)
qed

lemma built_diamond: "built ids diamond"
proof -
  let ?add = "\<lambda>p g. snd (add_node p g)"
  define g4 where "g4 = ?add ''app'' (?add ''gen'' (?add ''lib'' (?add ''core'' new_graph)))"
  define g1 where "g1 = with_edge 0 1 g4"
  define g2 where "g2 = with_edge 0 2 g1"
  define g3 where "g3 = with_edge 1 3 g2"
  note defs = g4_def g1_def g2_def g3_def
  have "built ids g4" unfolding g4_def by (intro built_add_node built_new)
  have sh: "shape_ok g4" "shape_ok g1" "shape_ok g2" "shape_ok g3"
    unfolding defs by (intro shape_with_edge shape_add_node; simp)+
  have e: "edges g4 = {}" "edges g1 = {(0, 1)}" "edges g2 = {(0, 1), (0, 2)}"
    "edges g3 = {(0, 1), (0, 2), (1, 3)}"
    unfolding g1_def g2_def g3_def using sh
    by (auto simp: edges_with_edge g4_def g1_def g2_def shape_add_node)
  have ranked: "add_dependency x y g = Inr (with_edge x y g)"
    if "shape_ok g" "x < y" "y < len g" "\<forall>(a, b) \<in> edges g. a < b" for x y and g :: "string build_graph"
    using that by (intro add_dependency_ranked[where f = "\<lambda>x. x"]) auto
  have "built ids g1"
    by (rule built_add_dependency[OF \<open>built ids g4\<close>, of 0 1])
      (unfold g1_def, rule ranked, use sh e in \<open>simp_all add: defs\<close>)
  have "built ids g2"
    by (rule built_add_dependency[OF \<open>built ids g1\<close>, of 0 2])
      (unfold g2_def, rule ranked, use sh e in \<open>simp_all add: defs\<close>)
  have "built ids g3"
    by (rule built_add_dependency[OF \<open>built ids g2\<close>, of 1 3])
      (unfold g3_def, rule ranked, use sh e in \<open>simp_all add: defs\<close>)
  have "built ids (with_edge 2 3 g3)"
    by (rule built_add_dependency[OF \<open>built ids g3\<close>, of 2 3])
      (rule ranked, use sh e in \<open>simp_all add: defs\<close>)
  moreover have "with_edge 2 3 g3 = diamond"
    by (simp add: defs with_edge_def add_node_def new_graph_def push_at_def diamond_def)
  ultimately show ?thesis by simp
qed

subsection \<open>Properties\<close>

text \<open>
  C1. Every graph that the public operations can build, in any order and with any arguments, has sound
  adjacency vectors, also if references from \<open>node_mut\<close> were used to write arbitrary nodes: the three
  vectors agree in length, the adjacency vectors are converse to each other with multiplicity, every stored
  index is in range, and the edges are acyclic. If no such write changed the \<open>id\<close> of a node, the ids are
  the numbers of the slots, so the graph itself is well-formed.
\<close>

theorem built_graph_wf:
  assumes "built ids g"
  shows "wf_graph (renumber_nodes g) \<and> (ids \<longrightarrow> wf_graph g)"
  using built_sound[OF assms] by (auto simp: sound_def renumber_numbered)

theorem built_graph_wf_witness:
  "wf_graph diamond \<and>
   (\<exists>g'. node_mut 0 (\<lambda>nd. nd\<lparr>node_id := 7\<rparr>) diamond = Some g' \<and> \<not> wf_graph g' \<and> wf_graph (renumber_nodes g'))"
proof -
  obtain g' where g': "node_mut 0 (\<lambda>nd. nd\<lparr>node_id := 7\<rparr>) diamond = Some g'" "node_id (nodes g' ! 0) = 7" "0 < len g'"
    by (simp add: node_mut_def get_node_def vec_get_def) (simp add: diamond_def len_def del: length_nodes)
  have "built False g'" by (rule built_node_mut[OF built_diamond g'(1)]) simp
  then have "wf_graph (renumber_nodes g')" using built_graph_wf[of False g'] by simp
  moreover have "\<not> wf_graph g'" using g'(2,3) node_id_eq[of g' 0] by auto
  moreover have "wf_graph diamond" using built_graph_wf[OF built_diamond, of True] by simp
  ultimately show ?thesis using g'(1) by blast
qed

text \<open>
  C2. \<open>add_dependency\<close>, on every branch: it reports the first missing endpoint, then a self
  edge, then a cycle exactly when the dependency is already reachable from the dependent;
  otherwise it appends the edge to both adjacency rows and changes nothing else.
\<close>

theorem add_dependency_correct:
  assumes "wf_graph g"
  shows "case add_dependency x y g of
      Inl (MissingNode i) \<Rightarrow> i = (if x < len g then y else x) \<and> \<not> i < len g
    | Inl (SelfDependency i) \<Rightarrow> x < len g \<and> x = y \<and> i = x
    | Inl (Cycle a b) \<Rightarrow> a = x \<and> b = y \<and> x \<noteq> y \<and> (y, x) \<in> (edges g)\<^sup>+
    | Inr g' \<Rightarrow> x < len g \<and> y < len g \<and> x \<noteq> y \<and> (y, x) \<notin> (edges g)\<^sup>* \<and>
        wf_graph g' \<and> nodes g' = nodes g \<and> edges g' = insert (x, y) (edges g) \<and>
        (\<forall>z < len g. deps g' ! z = deps g ! z @ (if z = y then [x] else []) \<and>
                    dependents g' ! z = dependents g ! z @ (if z = x then [y] else []))"
proof -
  have "wf_graph (with_edge x y g)" if "x < len g" "y < len g" "x \<noteq> y" "(y, x) \<notin> (edges g)\<^sup>*"
    using that assms by (intro wf_add_dependency[OF assms, of x y]) (simp add: add_dependency_eq)
  with assms show ?thesis
    by (auto simp: add_dependency_eq edges_with_edge nth_push_at rtrancl_eq_or_trancl)
qed

theorem add_dependency_correct_witness:
  "add_dependency 3 0 diamond = Inl (Cycle 3 0) \<and> (0, 3) \<in> (edges diamond)\<^sup>+"
proof -
  have "add_dependency 3 0 diamond = Inl (Cycle 3 0)" by code_simp
  then show ?thesis using add_dependency_correct[OF wf_diamond, of 3 0] by simp
qed

text \<open>
  C3. Kahn's algorithm never panics on a well-formed graph and returns every node exactly
  once, each dependency before its dependent.
\<close>

theorem topological_order_correct:
  assumes "wf_graph g"
  shows "\<exists>order. topological_order g = Some order \<and> distinct order \<and> set order = {..<len g} \<and>
    (\<forall>(x, y) \<in> edges g. precedes order x y)"
proof -
  obtain order where o: "topological_order g = Some order" "topo_enum (deps_or_empty g) (len g) order"
    using topological_order_wf[OF assms] by blast
  have "precedes order x y" if "(x, y) \<in> edges g" for x y
    using topo_enum_precedes[OF o(2)] that assms edges_bound[of g x y] by (simp add: preds_eq_edges)
  with o show ?thesis by (auto simp: topo_enum_def)
qed

theorem topological_order_correct_witness:
  "topological_order diamond = Some [0, 1, 2, 3] \<and> precedes [0, 1, 2, 3 :: nat] 2 3"
proof -
  have "topological_order diamond = Some [0, 1, 2, 3]" by code_simp
  then show ?thesis using topological_order_correct[OF wf_diamond] by (simp add: edges_diamond)
qed

text \<open>
  \<open>validate\<close> decides acyclicity: on a graph of the right shape it never panics, and it
  accepts exactly when the edges are acyclic.
\<close>

theorem validate_decides_acyclic:
  "shape_ok g \<Longrightarrow> validate g = Some (Inr ()) \<longleftrightarrow> acyclic (edges g)"
  by (rule validate_iff)

theorem validate_decides_acyclic_witness:
  "validate diamond = Some (Inr ()) \<and> acyclic (edges diamond)"
proof -
  have "validate diamond = Some (Inr ())" by code_simp
  then show ?thesis using validate_decides_acyclic[OF shape_diamond] by blast
qed

text \<open>
  \<open>levels\<close> partitions the nodes by depth, where a node without dependencies has depth 0
  and any other node is one deeper than its deepest dependency; each stage is free of
  duplicates and every edge goes to a strictly later stage.
\<close>

theorem levels_correct:
  assumes "wf_graph g"
  shows "\<exists>ls depth. levels g = Some ls \<and>
    (\<forall>x < len g. depth x = max_or_zero (map (\<lambda>d. Suc (depth d)) (deps g ! x)) \<and> depth x < length ls) \<and>
    (\<forall>k < length ls. distinct (ls ! k) \<and> set (ls ! k) = {x. x < len g \<and> depth x = k}) \<and>
    (\<forall>(x, y) \<in> edges g. depth x < depth y)"
proof (rule levels_wf[OF assms])
  fix depth ls
  assume ls: "levels g = Some ls"
    "\<And>x. x < len g \<Longrightarrow> depth x = max_or_zero (map (\<lambda>d. Suc (depth d)) (deps g ! x))"
    "\<And>x. x < len g \<Longrightarrow> depth x < length ls"
    "\<And>k. k < length ls \<Longrightarrow> distinct (ls ! k) \<and> set (ls ! k) = {x. x < len g \<and> depth x = k}"
  have "depth x < depth y" if "(x, y) \<in> edges g" for x y
  proof -
    have y: "y < len g" "x \<in> set (deps g ! y)" using that assms by (simp_all add: edges_deps)
    then have "Suc (depth x) \<in> set (map (\<lambda>d. Suc (depth d)) (deps g ! y))" by simp
    then have "Suc (depth x) \<le> depth y" unfolding ls(2)[OF y(1)] by (rule max_or_zero_ge)
    then show ?thesis by simp
  qed
  with ls show ?thesis by (intro exI[of _ ls] exI[of _ depth]) blast
qed

theorem levels_correct_witness:
  "levels diamond = Some [[0], [1, 2], [3]] \<and>
   (\<exists>ls depth. levels diamond = Some ls \<and> (\<forall>(x, y) \<in> edges diamond. depth x < (depth y :: nat)))"
proof -
  have "levels diamond = Some [[0], [1, 2], [3]]" by code_simp
  then show ?thesis using levels_correct[OF wf_diamond] by blast
qed

text \<open>
  \<open>ready_nodes\<close> lists, in index order and without repetition, exactly the pending nodes
  whose dependencies all succeeded; such a node is never blocked.
\<close>

theorem ready_nodes_correct:
  assumes "shape_ok g"
  shows "sorted_wrt (<) (ready_nodes g) \<and> set (ready_nodes g) =
    {i. i < len g \<and> state_of g i = Inr Pending \<and>
        is_ready g i = Inr True \<and> is_blocked g i = Inr False}"
  using assms ready_not_blocked[OF assms]
  by (auto simp: ready_nodes_eq is_ready_eq sorted_wrt_filter)

theorem ready_nodes_correct_witness:
  "ready_nodes diamond = [0] \<and> is_blocked diamond 0 = Inr False"
proof -
  have "ready_nodes diamond = [0]" by code_simp
  then show ?thesis using ready_nodes_correct[OF shape_diamond] by auto
qed

text \<open>
  C4. \<open>mark_failed\<close> on a node of a well-formed graph always returns \<open>Ok\<close>; it marks the node
  failed and cancels exactly the nodes reachable from it through nodes that had not reached
  a terminal state, leaving every other state, payload and edge as it was.
\<close>

theorem mark_failed_correct:
  assumes "wf_graph g" "i < len g"
  shows "\<exists>g'. mark_failed i g = (Inr (), g') \<and> same_frame g g' \<and>
    (\<forall>j < len g. st g' j = (if j = i then Failed else if j \<in> cascade g i then Cancelled else st g j))"
  using mark_failed_spec[of g i] assms by (metis wf_shape)

theorem mark_failed_correct_witness:
  "map state (nodes (snd (mark_failed 1 diamond))) = [Pending, Failed, Pending, Cancelled] \<and>
   same_frame diamond (snd (mark_failed 1 diamond))"
proof -
  have "map state (nodes (snd (mark_failed 1 diamond))) = [Pending, Failed, Pending, Cancelled]"
    by code_simp
  then show ?thesis using mark_failed_correct[OF wf_diamond, of 1] by auto
qed

text \<open>
  \<open>affected_nodes\<close> returns, each once, exactly the nodes reachable from the changed nodes
  that exist; ids out of range are ignored.
\<close>

theorem affected_nodes_correct:
  assumes "shape_ok g"
  shows "distinct (affected_nodes g changed) \<and>
    set (affected_nodes g changed) = {y. \<exists>c \<in> set changed. c < len g \<and> (c, y) \<in> (edges g)\<^sup>*}"
  using affected_nodes_spec[OF assms, of changed] by auto

theorem affected_nodes_correct_witness:
  "affected_nodes diamond [2, 9, 2] = [2, 3] \<and> (2, 3) \<in> (edges diamond)\<^sup>*"
proof -
  have "affected_nodes diamond [2, 9, 2] = [2, 3]" by code_simp
  then show ?thesis using affected_nodes_correct[OF shape_diamond, of "[2, 9, 2]"] by auto
qed

text \<open>
  \<open>map_nodes\<close> never hits its \<open>expect\<close>: the result has the same dependency rows, every
  payload replaced by the function's value at its id, and all states pending.
\<close>

theorem map_nodes_correct:
  assumes "wf_graph g"
  shows "\<exists>out. map_nodes f g = Some out \<and> wf_graph out \<and> len out = len g \<and> deps out = deps g \<and>
    (\<forall>i < len g. nodes out ! i =
       \<lparr>node_id = i, payload = f i (payload (nodes g ! i)), state = Pending\<rparr>)"
proof -
  obtain out where out: "map_nodes f g = Some out" "wf_graph out" "len out = len g"
    "edges out = edges g" "deps out = deps g"
    "\<And>i. i < len g \<Longrightarrow> payload (nodes out ! i) = f i (payload (nodes g ! i))"
    "\<And>i. i < len g \<Longrightarrow> st out i = Pending"
    using map_nodes_wf[OF assms, of f] by blast
  moreover have "node_id (nodes out ! i) = i" if "i < len g" for i
    using that out(2,3) by (simp add: node_id_eq)
  ultimately show ?thesis by auto
qed

theorem map_nodes_correct_witness:
  "map_nodes (\<lambda>i p. (i, length p)) diamond \<noteq> None"
  using map_nodes_correct[OF wf_diamond, of "\<lambda>i p. (i, length p)"] by auto

text \<open>
  \<open>subgraph\<close> never hits its \<open>expect\<close>, whatever ids it is asked to keep (unknown or
  repeated ones included): its nodes are the kept nodes in the order given, and its edges
  are exactly the edges of the graph between kept nodes, renumbered.
\<close>

theorem subgraph_correct:
  assumes "wf_graph g"
  shows "\<exists>out m. subgraph g keep = Some out \<and> wf_graph out \<and>
    map payload (nodes out) = map (\<lambda>i. payload (nodes g ! i)) (filter (\<lambda>i. i < len g) keep) \<and>
    dom m = {i \<in> set keep. i < len g} \<and>
    (\<forall>i j. m i = Some j \<longrightarrow> j < len out \<and> filter (\<lambda>i. i < len g) keep ! j = i) \<and>
    edges out = {(x, y). \<exists>a b. (a, b) \<in> edges g \<and> m a = Some x \<and> m b = Some y}"
proof (rule subgraph_wf[OF assms, of keep])
  fix out m
  assume *: "subgraph g keep = Some out" "wf_graph out" "len out = length (kept g keep)"
    "dom m = set (kept g keep)" "\<And>i j. m i = Some j \<Longrightarrow> j < len out \<and> kept g keep ! j = i"
    "edges out = {(x, y). \<exists>a b. (a, b) \<in> edges g \<and> m a = Some x \<and> m b = Some y}"
    "\<And>j. j < len out \<Longrightarrow>
       payload (nodes out ! j) = payload (nodes g ! (kept g keep ! j)) \<and> st out j = Pending"
  then have "map payload (nodes out) = map (\<lambda>i. payload (nodes g ! i)) (kept g keep)"
    by (intro nth_equalityI) simp_all
  with * show ?thesis by (intro exI[of _ out] exI[of _ m]) (auto simp: kept_def)
qed

theorem subgraph_correct_witness:
  "map_option (\<lambda>s. (map payload (nodes s), deps s)) (subgraph diamond [3, 7, 1, 0]) =
     Some ([''app'', ''lib'', ''core''], [[1], [2], []]) \<and>
   (\<exists>out. subgraph diamond [3, 7, 1, 0] = Some out \<and> wf_graph out)"
proof -
  have "map_option (\<lambda>s. (map payload (nodes s), deps s)) (subgraph diamond [3, 7, 1, 0]) =
     Some ([''app'', ''lib'', ''core''], [[1], [2], []])" by code_simp
  then show ?thesis using subgraph_correct[OF wf_diamond, of "[3, 7, 1, 0]"] by blast
qed

text \<open>
  \<open>merge_subgraph\<close> of two well-formed graphs never panics and never drops an edge: the
  first graph keeps its nodes and rows, node \<open>i\<close> of the second becomes node \<open>len g + i\<close>
  with its payload and a pending state, the returned map says so, and the edges are the
  disjoint union.
\<close>

theorem merge_subgraph_correct:
  assumes "wf_graph g" "wf_graph other"
  shows "\<exists>out m. merge_subgraph g other = Some (m, out) \<and> wf_graph out \<and>
    len out = len g + len other \<and>
    (\<forall>i. m i = (if i < len other then Some (len g + i) else None)) \<and>
    (\<forall>i < len g. nodes out ! i = nodes g ! i \<and> deps out ! i = deps g ! i) \<and>
    (\<forall>i < len other. nodes out ! (len g + i) =
       \<lparr>node_id = len g + i, payload = payload (nodes other ! i), state = Pending\<rparr>) \<and>
    edges out = edges g \<union> {(len g + x, len g + y) | x y. (x, y) \<in> edges other}"
proof (rule merge_subgraph_wf[OF assms])
  fix out m
  assume "merge_subgraph g other = Some (m, out)" "wf_graph out" "len out = len g + len other"
    "\<And>i. m i = (if i < len other then Some (len g + i) else None)"
    "edges out = edges g \<union> (\<lambda>(x, y). (len g + x, len g + y)) ` edges other"
    "\<And>i. i < len g \<Longrightarrow> nodes out ! i = nodes g ! i \<and> deps out ! i = deps g ! i"
    "\<And>i. i < len other \<Longrightarrow> nodes out ! (len g + i) =
       \<lparr>node_id = len g + i, payload = payload (nodes other ! i), state = Pending\<rparr>"
  moreover have "(\<lambda>(x, y). (len g + x, len g + y)) ` edges other =
      {(len g + x, len g + y) | x y. (x, y) \<in> edges other}" by force
  ultimately show ?thesis by (intro exI[of _ out] exI[of _ m]) simp
qed

theorem merge_subgraph_correct_witness:
  "\<exists>out m. merge_subgraph diamond diamond = Some (m, out) \<and> len out = 8 \<and> m 1 = Some 5 \<and>
     (5, 7) \<in> edges out"
  using merge_subgraph_correct[OF wf_diamond wf_diamond] by (auto simp: edges_diamond)

text \<open>
  \<open>expand_node\<close> succeeds exactly when every child's dependencies (and the parent) are
  older nodes; then child \<open>i\<close> gets id \<open>len g + i\<close> with the parent and its dependencies in
  order. On success and on failure alike the old nodes and rows are untouched and the graph
  stays well-formed.
\<close>

theorem expand_node_correct:
  assumes "wf_graph g"
  shows "\<exists>r g'. expand_node parent tasks g = (r, g') \<and> wf_graph g' \<and>
    (\<forall>j < len g. nodes g' ! j = nodes g ! j \<and> deps g' ! j = deps g ! j) \<and>
    (if \<forall>i < length tasks. \<forall>d \<in> set (parent # task_dependencies (tasks ! i)). d < len g + i
     then r = Inr [len g..<len g + length tasks] \<and> len g' = len g + length tasks \<and>
       (\<forall>i < length tasks.
          payload (nodes g' ! (len g + i)) = task_payload (tasks ! i) \<and>
          deps g' ! (len g + i) = parent # task_dependencies (tasks ! i))
     else \<exists>e. r = Inl e)"
proof -
  obtain r g' where "expand_loop parent tasks [] g = (r, g')" "wf_graph g'"
    "\<forall>j < len g. nodes g' ! j = nodes g ! j \<and> deps g' ! j = deps g ! j"
    "if specs_ok (len g) parent tasks
     then r = Inr ([] @ [len g..<len g + length tasks]) \<and> len g' = len g + length tasks \<and>
       (\<forall>i < length tasks.
          payload (nodes g' ! (len g + i)) = task_payload (tasks ! i) \<and> st g' (len g + i) = Pending \<and>
          deps g' ! (len g + i) = parent # task_dependencies (tasks ! i))
     else \<exists>e. r = Inl e"
    using expand_loop_spec[OF assms, of parent tasks "[]"] by (elim exE conjE)
  then show ?thesis
    unfolding expand_node_def specs_ok_def[symmetric]
    by (intro exI[of _ r] exI[of _ g']) (simp split: if_splits)
qed

theorem expand_node_correct_witness:
  "fst (expand_node 3 [\<lparr>task_payload = ''a'', task_dependencies = []\<rparr>,
                       \<lparr>task_payload = ''b'', task_dependencies = [4]\<rparr>] diamond) = Inr [4, 5]"
proof -
  let ?ts = "[\<lparr>task_payload = ''a'', task_dependencies = []\<rparr>,
              \<lparr>task_payload = ''b'', task_dependencies = [4::nat]\<rparr>]"
  have "\<forall>i < length ?ts. \<forall>d \<in> set (3 # task_dependencies (?ts ! i)). d < len diamond + i"
    by (simp add: All_less_Suc numeral_2_eq_2)
  moreover have "[4..<4 + length ?ts] = [4, 5]" by (simp add: upt_rec)
  ultimately show ?thesis using expand_node_correct[OF wf_diamond, of 3 ?ts] by auto
qed

end
