(* ===== verification/Rust_Str.thy ===== *)
theory Rust_Str
  imports Main "HOL-Library.Char_ord" "HOL-Library.Word"
begin

text \<open>
  The operations of \<open>str\<close> and \<open>Path\<close> that the text-handling parts use. A string is a list of code
  points; HOL's characters are the code points below 256, and \<open>is_whitespace\<close> lists the white
  space among those.
\<close>

subsection \<open>String operations of the standard library\<close>

definition is_whitespace :: "char \<Rightarrow> bool" where
  "is_whitespace c \<longleftrightarrow> (let n = of_char c :: nat in (9 \<le> n \<and> n \<le> 13) \<or> n = 32 \<or> n = 133 \<or> n = 160)"

definition trim_by :: "(char \<Rightarrow> bool) \<Rightarrow> string \<Rightarrow> string" where
  "trim_by P s = rev (dropWhile P (rev (dropWhile P s)))"

definition trim :: "string \<Rightarrow> string" where
  "trim = trim_by is_whitespace"

definition trim_matches :: "char \<Rightarrow> string \<Rightarrow> string" where
  "trim_matches c = trim_by ((=) c)"

fun strip_prefix :: "string \<Rightarrow> string \<Rightarrow> string option" where
  "strip_prefix [] s = Some s"
| "strip_prefix (p # ps) [] = None"
| "strip_prefix (p # ps) (c # cs) = (if p = c then strip_prefix ps cs else None)"

definition strip_suffix_char :: "char \<Rightarrow> string \<Rightarrow> string option" where
  "strip_suffix_char c s = (if s \<noteq> [] \<and> last s = c then Some (butlast s) else None)"

fun trim_start_slashes :: "string \<Rightarrow> string" where
  "trim_start_slashes (a # b # s) =
     (if a = CHR ''/'' \<and> b = CHR ''/'' then trim_start_slashes s else a # b # s)"
| "trim_start_slashes s = s"

fun split_char :: "char \<Rightarrow> string \<Rightarrow> string list" where
  "split_char c [] = [[]]"
| "split_char c (x # xs) =
     (if x = c then [] # split_char c xs
      else case split_char c xs of
          [] \<Rightarrow> [[x]]
        | p # ps \<Rightarrow> (x # p) # ps)"

lemma split_char_not_Nil [simp]: "split_char c s \<noteq> []"
  by (induction s) (auto split: list.splits)

lemma split_char_parts: "p \<in> set (split_char c s) \<Longrightarrow> c \<notin> set p \<and> set p \<subseteq> set s"
  by (induction s arbitrary: p) (fastforce split: if_splits list.splits)+

lemma split_char_none: "c \<notin> set s \<Longrightarrow> split_char c s = [s]"
  by (induction s) auto

lemma split_char_one: "c \<notin> set a \<Longrightarrow> split_char c (a @ c # s) = a # split_char c s"
  by (induction a) auto

definition splitn2 :: "char \<Rightarrow> string \<Rightarrow> string list" where
  "splitn2 c s =
     (if c \<in> set s then [takeWhile ((\<noteq>) c) s, tl (dropWhile ((\<noteq>) c) s)] else [s])"

definition trimmed_by :: "(char \<Rightarrow> bool) \<Rightarrow> string \<Rightarrow> bool" where
  "trimmed_by P s \<longleftrightarrow> (s \<noteq> [] \<longrightarrow> \<not> P (hd s) \<and> \<not> P (last s))"

lemma trim_by_id: "trimmed_by P s \<Longrightarrow> trim_by P s = s"
proof -
  assume "trimmed_by P s"
  then have "dropWhile P s = s" "dropWhile P (rev s) = rev s"
    by (auto simp: trimmed_by_def dropWhile_eq_self_iff hd_rev)
  then show ?thesis by (simp add: trim_by_def)
qed

lemma trim_id: "trimmed_by is_whitespace s \<Longrightarrow> trim s = s"
  by (simp add: trim_def trim_by_id)

lemma trim_space: "trim (CHR '' '' # s) = trim s"
  by (simp add: trim_def trim_by_def is_whitespace_def)

lemma splitn2_one: "c \<notin> set a \<Longrightarrow> splitn2 c (a @ c # s) = [a, s]"
proof -
  assume "c \<notin> set a"
  then have "takeWhile ((\<noteq>) c) (a @ c # s) = a" "dropWhile ((\<noteq>) c) (a @ c # s) = c # s"
    by (subst takeWhile_append2 dropWhile_append2; auto)+
  then show ?thesis by (simp add: splitn2_def)
qed

text \<open>\<open>str::contains\<close>.\<close>

fun contains_str :: "string \<Rightarrow> string \<Rightarrow> bool" where
  "contains_str pat [] = (pat = [])"
| "contains_str pat (c # cs) = (take (length pat) (c # cs) = pat \<or> contains_str pat cs)"

text \<open>\<open>len\<close> of a string counts the bytes of its UTF-8 form.\<close>

definition utf8_len :: "string \<Rightarrow> nat" where
  "utf8_len s = sum_list (map (\<lambda>c. if (of_char c :: nat) < 128 then 1 else 2) s)"

type_synonym octets = "8 word list"

text \<open>The UTF-8 form of a text whose code points are below 256.\<close>

definition utf8_bytes :: "string \<Rightarrow> octets" where
  "utf8_bytes s =
     concat (map (\<lambda>c. let n = of_char c :: nat in
       if n < 128 then [word_of_nat n] else [word_of_nat (192 + n div 64), word_of_nat (128 + n mod 64)]) s)"

text \<open>The letters and numbers among the code points below 256.\<close>

definition is_alphanumeric :: "char \<Rightarrow> bool" where
  "is_alphanumeric c \<longleftrightarrow> (let n = of_char c :: nat in
     48 \<le> n \<and> n \<le> 57 \<or> 65 \<le> n \<and> n \<le> 90 \<or> 97 \<le> n \<and> n \<le> 122 \<or>
     n \<in> {170, 178, 179, 181, 185, 186, 188, 189, 190} \<or> 192 \<le> n \<and> n \<noteq> 215 \<and> n \<noteq> 247)"

function split_whitespace :: "string \<Rightarrow> string list" where
  "split_whitespace [] = []"
| "split_whitespace (c # cs) =
     (if is_whitespace c then split_whitespace cs
      else (c # takeWhile (\<lambda>x. \<not> is_whitespace x) cs)
           # split_whitespace (dropWhile (\<lambda>x. \<not> is_whitespace x) cs))"
  by pat_completeness auto
termination split_whitespace
  by (relation "measure length") (simp_all add: less_Suc_eq_le length_dropWhile_le)

text \<open>\<open>str::lines\<close> splits at line feeds, drops a carriage return before one, and has no last empty line.\<close>

definition str_lines :: "string \<Rightarrow> string list" where
  "str_lines s =
     (let ls = split_char (CHR 0x0A) s;
          strip = (\<lambda>l. case strip_suffix_char (CHR 0x0D) l of Some l' \<Rightarrow> l' | None \<Rightarrow> l)
      in map strip (butlast ls) @ (if last ls = [] then [] else [last ls]))"

lemma split_lines:
  "\<forall>l \<in> set ls. CHR 0x0A \<notin> set l \<Longrightarrow> split_char (CHR 0x0A) (concat (map (\<lambda>l. l @ [CHR 0x0A]) ls)) = ls @ [[]]"
  by (induction ls) (simp_all add: split_char_one del: split_char.simps(2))

lemma printed_lines:
  assumes "\<forall>l \<in> set ls. CHR 0x0A \<notin> set l \<and> l \<noteq> [] \<and> last l \<noteq> CHR 0x0D"
  shows "str_lines (concat (map (\<lambda>l. l @ [CHR 0x0A]) ls)) = ls"
  using assms by (auto simp: str_lines_def split_lines strip_suffix_char_def Let_def intro: map_idI)

text \<open>
  The components of a Unix path, by which \<open>PathBuf\<close> compares and hashes: whether it is absolute,
  and its parts without repeated slashes and without \<open>.\<close>, except a leading one.
\<close>

definition path_components :: "string \<Rightarrow> bool \<times> string list" where
  "path_components p =
     (let absolute = (p \<noteq> [] \<and> hd p = CHR ''/'');
          parts = filter (\<lambda>c. c \<noteq> []) (split_char (CHR ''/'') p)
      in (absolute,
          case parts of
            [] \<Rightarrow> []
          | c # cs \<Rightarrow>
              if \<not> absolute \<and> c = ''.'' then c # filter (\<lambda>c. c \<noteq> ''.'') cs
              else filter (\<lambda>c. c \<noteq> ''.'') parts))"

text \<open>\<open>join\<close> of a slice of strings, and a number as \<open>format!\<close> prints it.\<close>

fun join_with :: "string \<Rightarrow> string list \<Rightarrow> string" where
  "join_with sep [] = []"
| "join_with sep [x] = x"
| "join_with sep (x # y # xs) = x @ sep @ join_with sep (y # xs)"

definition decimal_digit :: "nat \<Rightarrow> char" where
  "decimal_digit d = char_of (48 + d)"

fun decimal :: "nat \<Rightarrow> string" where
  "decimal n = (if n < 10 then [] else decimal (n div 10)) @ [decimal_digit (n mod 10)]"

declare decimal.simps [simp del]

lemma of_char_decimal_digit: "d < 10 \<Longrightarrow> (of_char (decimal_digit d) :: nat) = 48 + d"
  by (simp add: decimal_digit_def)

lemma decimal_digits: "c \<in> set (decimal n) \<Longrightarrow> 48 \<le> (of_char c :: nat) \<and> (of_char c :: nat) < 58"
proof (induction n rule: decimal.induct)
  case (1 n)
  have "n mod 10 < 10" by simp
  with 1 show ?case
    by (subst (asm) decimal.simps) (auto simp: of_char_decimal_digit split: if_splits)
qed

definition parse_decimal :: "string \<Rightarrow> nat" where
  "parse_decimal s = foldl (\<lambda>v c. 10 * v + (of_char c - 48)) 0 s"

lemma parse_decimal: "parse_decimal (decimal n) = n"
proof (induction n rule: decimal.induct)
  case (1 n)
  have "n mod 10 < 10" by simp
  then have d: "(of_char (decimal_digit (n mod 10)) :: nat) = 48 + n mod 10" by (rule of_char_decimal_digit)
  show ?case
  proof (cases "n < 10")
    case True
    with d show ?thesis by (subst decimal.simps) (simp add: parse_decimal_def)
  next
    case False
    with 1 d show ?thesis by (subst decimal.simps) (simp add: parse_decimal_def)
  qed
qed

lemma decimal_inject [simp]: "decimal m = decimal n \<longleftrightarrow> m = n"
  by (metis parse_decimal)

end
