(* ===== verification/Graph_Query.thy ===== *)
theory Graph_Query
  imports Graph_Api Rust_Str
begin

text \<open>
  The query engine of \<open>fish-graph/src/query.rs\<close>: expressions, their evaluation on a build
  graph, and the two searches behind it. A Rust \<open>HashSet\<close> is a set; where the code iterates
  over one, the order is given by the parameter \<open>iter\<close>. Each set has a hasher with a seed of its own, so
  \<open>iter\<close> gets the place in the expression whose evaluation made the set: equal sets at two places, of
  equal subexpressions too, may come in different orders. \<open>find_all_path_nodes\<close> keeps no visited set and recurses along the
  dependencies, so it takes fuel; \<open>Suc (len g)\<close> calls deep is enough on an acyclic graph.
\<close>

datatype query_expr =
    Target string
  | All
  | Deps query_expr
  | Rdeps query_expr
  | AllPaths query_expr query_expr
  | SomePath query_expr query_expr
  | Filter string query_expr
  | Union query_expr query_expr
  | Intersect query_expr query_expr

subsection \<open>Transitive closure by depth-first search\<close>

text \<open>
  The recursive calls of \<open>collect_transitive_deps\<close> for the entries of one row, threaded
  through the shared \<open>visited\<close> set.
\<close>

function collect_rows :: "nat list list \<Rightarrow> nat list \<Rightarrow> nat set \<Rightarrow> nat set" where
  "collect_rows rows [] visited = visited"
| "collect_rows rows (start # starts) visited =
     (if start \<in> visited then collect_rows rows starts visited
      else
        let visited' = insert start visited
        in case vec_get rows start of
             None \<Rightarrow> collect_rows rows starts visited'
           | Some ds \<Rightarrow> collect_rows rows starts (collect_rows rows ds visited'))"
  by pat_completeness auto

definition unvisited :: "nat list list \<Rightarrow> nat set \<Rightarrow> nat" where
  "unvisited rows visited = card ({..<length rows} - visited)"

lemma unvisited_mono: "A \<subseteq> B \<Longrightarrow> unvisited rows B \<le> unvisited rows A"
  unfolding unvisited_def by (rule card_mono) auto

lemma unvisited_insert: "x < length rows \<Longrightarrow> x \<notin> A \<Longrightarrow> unvisited rows (insert x A) < unvisited rows A"
  unfolding unvisited_def by (rule psubset_card_mono) auto

lemma collect_rows_mono_dom:
  "collect_rows_dom (rows, starts, visited) \<Longrightarrow> visited \<subseteq> collect_rows rows starts visited"
proof (induction rule: collect_rows.pinduct)
  case (1 rows visited)
  then show ?case by (simp add: collect_rows.psimps)
next
  case (2 rows start starts visited)
  show ?case
  proof (cases "start \<in> visited")
    case True
    with "2.IH"(1)[OF True] "2.hyps" show ?thesis by (simp add: collect_rows.psimps)
  next
    case False
    with "2.IH"(2)[OF False refl] "2.IH"(3,4)[OF False refl] "2.hyps" show ?thesis
      by (cases "vec_get rows start") (simp_all add: collect_rows.psimps Let_def, blast+)
  qed
qed

termination collect_rows
proof (relation "measures [\<lambda>(rows, starts, visited). unvisited rows visited, \<lambda>(rows, starts, visited). length starts]", goal_cases)
  case (2 rows start starts visited)
  then show ?case by simp
next
  case (3 rows start starts visited)
  then show ?case using unvisited_mono[OF subset_insertI[of visited start], of rows] by auto
next
  case (4 rows start starts visited)
  then show ?case by (auto simp: unvisited_insert vec_simps)
next
  case (5 rows start starts visited v' ds)
  then have "unvisited rows (collect_rows rows ds (insert start visited)) \<le> unvisited rows (insert start visited)"
    by (intro unvisited_mono collect_rows_mono_dom) simp
  with 5 show ?case using unvisited_insert[of start rows visited] by (simp add: vec_simps)
qed simp

definition collect_transitive_deps :: "'a build_graph \<Rightarrow> nat \<Rightarrow> nat set \<Rightarrow> nat set" where
  "collect_transitive_deps g start visited = collect_rows (deps g) [start] visited"

definition collect_transitive_rdeps :: "'a build_graph \<Rightarrow> nat \<Rightarrow> nat set \<Rightarrow> nat set" where
  "collect_transitive_rdeps g start visited = collect_rows (dependents g) [start] visited"

subsection \<open>Nodes on the paths between two nodes\<close>

fun find_all_path_nodes :: "nat \<Rightarrow> 'a build_graph \<Rightarrow> nat \<Rightarrow> nat \<Rightarrow> nat set \<Rightarrow> (bool \<times> nat set) option" where
  "find_all_path_nodes 0 g current target result = None"
| "find_all_path_nodes (Suc fuel) g current target result =
     (if current = target then Some (True, insert current result)
      else case deps_of g current of
          Inl _ \<Rightarrow> Some (False, result)
        | Inr ds \<Rightarrow>
            fold_opt
              (\<lambda>(on_path, result) dep.
                 case find_all_path_nodes fuel g dep target result of
                   None \<Rightarrow> None
                 | Some (True, result') \<Rightarrow> Some (True, insert current result')
                 | Some (False, result') \<Rightarrow> Some (on_path, result'))
              (False, result) ds)"

subsection \<open>Shortest path by breadth-first search\<close>

fun discover ::
  "nat \<Rightarrow> nat list \<Rightarrow> nat list \<times> nat set \<times> (nat \<rightharpoonup> nat) \<Rightarrow> nat list \<times> nat set \<times> (nat \<rightharpoonup> nat)" where
  "discover current [] s = s"
| "discover current (dep # ds) (queue, visited, parent) =
     (if dep \<notin> visited
      then discover current ds (queue @ [dep], insert dep visited, parent(dep \<mapsto> current))
      else discover current ds (queue, visited, parent))"

definition row_entries :: "'a build_graph \<Rightarrow> nat set" where
  "row_entries g = set (concat (deps g))"

lemma discover_measure:
  "discover current ds (queue, visited, parent) = (queue', visited', parent') \<Longrightarrow>
     set ds \<subseteq> row_entries g \<Longrightarrow>
     length queue' + card (row_entries g - visited') = length queue + card (row_entries g - visited)"
proof (induction ds arbitrary: queue visited parent)
  case Nil
  then show ?case by simp
next
  case (Cons d ds)
  show ?case
  proof (cases "d \<in> visited")
    case True
    with Cons show ?thesis by simp
  next
    case False
    have "row_entries g - insert d visited = (row_entries g - visited) - {d}" by blast
    moreover have "d \<in> row_entries g - visited" "finite (row_entries g - visited)"
      using False Cons.prems(2) by (auto simp: row_entries_def)
    ultimately have "Suc (card (row_entries g - insert d visited)) = card (row_entries g - visited)"
      by (simp add: card_Suc_Diff1 del: card_Diff_insert)
    with Cons False show ?thesis by simp
  qed
qed

text \<open>
  The walk back over \<open>parent\<close>. The code's \<open>while let\<close> has no bound; \<open>fuel\<close> is one more than
  the number of dependency entries, and every step follows the entry that discovered a node.
\<close>

fun walk_parents :: "nat \<Rightarrow> (nat \<rightharpoonup> nat) \<Rightarrow> nat \<Rightarrow> nat list \<Rightarrow> nat list option" where
  "walk_parents 0 parent cur path = None"
| "walk_parents (Suc fuel) parent cur path =
     (case parent cur of
        None \<Rightarrow> Some (rev path)
      | Some p \<Rightarrow> walk_parents fuel parent p (path @ [p]))"

function bfs_loop ::
  "'a build_graph \<Rightarrow> nat \<Rightarrow> nat list \<Rightarrow> nat set \<Rightarrow> (nat \<rightharpoonup> nat) \<Rightarrow> nat list option option" where
  "bfs_loop g to [] visited parent = Some None"
| "bfs_loop g to (current # queue) visited parent =
     (if current = to
      then map_option Some (walk_parents (Suc (length (concat (deps g)))) parent to [to])
      else case deps_of g current of
          Inl _ \<Rightarrow> bfs_loop g to queue visited parent
        | Inr ds \<Rightarrow>
            (case discover current ds (queue, visited, parent) of
               (queue', visited', parent') \<Rightarrow> bfs_loop g to queue' visited' parent'))"
  by pat_completeness auto

lemma deps_of_entries: "deps_of g i = Inr ds \<Longrightarrow> set ds \<subseteq> row_entries g"
  by (auto simp: deps_of_def row_entries_def vec_simps split: option.splits intro!: bexI[OF _ nth_mem])

termination bfs_loop
proof (relation "measure (\<lambda>(g, to, queue, visited, parent). length queue + card (row_entries g - visited))", goal_cases)
  case 3
  then show ?case
    by (auto dest!: deps_of_entries dest: discover_measure split: prod.splits)
qed simp_all

definition find_shortest_path :: "'a build_graph \<Rightarrow> nat \<Rightarrow> nat \<Rightarrow> nat list option option" where
  "find_shortest_path g from to = bfs_loop g to [from] {from} Map.empty"

subsection \<open>Evaluation\<close>

text \<open>
  The outer option is the fuel of the two searches. \<open>some_path\<close> is the early return of the
  two nested loops. \<open>p\<close> is the place of the expression: its operands are at \<open>0 # p\<close> and \<open>1 # p\<close>.
\<close>

fun some_path :: "'a build_graph \<Rightarrow> (nat \<times> nat) list \<Rightarrow> nat set option" where
  "some_path g [] = Some {}"
| "some_path g ((from, to) # pairs) =
     (case find_shortest_path g from to of
        None \<Rightarrow> None
      | Some (Some path) \<Rightarrow> Some (set path)
      | Some None \<Rightarrow> some_path g pairs)"

fun eval_query ::
  "(nat list \<Rightarrow> nat set \<Rightarrow> nat list) \<Rightarrow> nat list \<Rightarrow> ('a \<Rightarrow> string) \<Rightarrow> 'a build_graph \<Rightarrow> query_expr \<Rightarrow> nat set option" where
  "eval_query iter p name g (Target n) =
     Some (set (map node_id (filter (\<lambda>nd. name (payload nd) = n) (nodes g))))"
| "eval_query iter p name g All = Some (set (map node_id (nodes g)))"
| "eval_query iter p name g (Deps e) =
     map_option (\<lambda>s. foldl (\<lambda>r t. collect_transitive_deps g t r) {} (iter (0 # p) s)) (eval_query iter (0 # p) name g e)"
| "eval_query iter p name g (Rdeps e) =
     map_option (\<lambda>s. foldl (\<lambda>r t. collect_transitive_rdeps g t r) {} (iter (0 # p) s)) (eval_query iter (0 # p) name g e)"
| "eval_query iter p name g (AllPaths e1 e2) =
     (case (eval_query iter (0 # p) name g e1, eval_query iter (1 # p) name g e2) of
        (Some from_set, Some to_set) \<Rightarrow>
          fold_opt
            (\<lambda>r (from, to). map_option snd (find_all_path_nodes (Suc (len g)) g from to r))
            {} (List.product (iter (0 # p) from_set) (iter (1 # p) to_set))
      | _ \<Rightarrow> None)"
| "eval_query iter p name g (SomePath e1 e2) =
     (case (eval_query iter (0 # p) name g e1, eval_query iter (1 # p) name g e2) of
        (Some from_set, Some to_set) \<Rightarrow>
          some_path g (List.product (iter (0 # p) from_set) (iter (1 # p) to_set))
      | _ \<Rightarrow> None)"
| "eval_query iter p name g (Filter pattern e) =
     map_option
       (\<lambda>s. {i \<in> s. case get_node g i of
                None \<Rightarrow> False
              | Some nd \<Rightarrow> contains_str pattern (name (payload nd))})
       (eval_query iter (0 # p) name g e)"
| "eval_query iter p name g (Union e1 e2) =
     (case (eval_query iter (0 # p) name g e1, eval_query iter (1 # p) name g e2) of
        (Some l, Some r) \<Rightarrow> Some (l \<union> r)
      | _ \<Rightarrow> None)"
| "eval_query iter p name g (Intersect e1 e2) =
     (case (eval_query iter (0 # p) name g e1, eval_query iter (1 # p) name g e2) of
        (Some l, Some r) \<Rightarrow> Some (l \<inter> r)
      | _ \<Rightarrow> None)"

subsection \<open>The searches are correct\<close>

lemma collect_rows_props:
  defines "R rows \<equiv> {(x, y). x < length rows \<and> y \<in> set (rows ! x)}"
  shows "visited \<subseteq> collect_rows rows starts visited \<and>
    set starts \<subseteq> collect_rows rows starts visited \<and>
    collect_rows rows starts visited \<subseteq> visited \<union> (R rows)\<^sup>* `` set starts \<and>
    (\<forall>x \<in> collect_rows rows starts visited - visited. R rows `` {x} \<subseteq> collect_rows rows starts visited)"
proof (induction rows starts visited rule: collect_rows.induct)
  case (1 rows visited)
  then show ?case by simp
next
  case (2 rows start starts visited)
  show ?case
  proof (cases "start \<in> visited")
    case True
    then show ?thesis using "2.IH"(1)[OF True] by auto
  next
    case False
    show ?thesis
    proof (cases "start < length rows")
      case no: False
      then have "R rows `` {start} = {}" by (auto simp: R_def)
      with "2.IH"(2)[OF False refl] no False show ?thesis by auto
    next
      case yes: True
      let ?v = "insert start visited" and ?c = "collect_rows rows (rows ! start) (insert start visited)"
      have eq: "collect_rows rows (start # starts) visited = collect_rows rows starts ?c"
        using False yes by simp
      have Rs: "R rows `` {start} = set (rows ! start)" using yes by (auto simp: R_def)
      have get: "vec_get rows start = Some (rows ! start)" using yes by simp
      note IH1 = "2.IH"(3)[OF False refl get] and IH2 = "2.IH"(4)[OF False refl get]
      have reach: "(R rows)\<^sup>* `` set (rows ! start) \<subseteq> (R rows)\<^sup>* `` {start}"
        unfolding Rs[symmetric] by (auto intro: converse_rtrancl_into_rtrancl)
      have "?c \<subseteq> visited \<union> (R rows)\<^sup>* `` {start}"
        using IH1 reach by blast
      moreover have "collect_rows rows starts ?c \<subseteq> ?c \<union> (R rows)\<^sup>* `` set starts"
        using IH2 by blast
      ultimately have "collect_rows rows starts ?c \<subseteq> visited \<union> (R rows)\<^sup>* `` set (start # starts)"
        by auto
      moreover have "R rows `` {x} \<subseteq> collect_rows rows starts ?c"
        if "x \<in> collect_rows rows starts ?c - visited" for x
      proof (cases "x \<in> ?c")
        case True
        have "R rows `` {x} \<subseteq> ?c"
          using that True IH1 Rs by (cases "x = start") blast+
        then show ?thesis using IH2 by blast
      qed (use that IH2 in blast)
      ultimately show ?thesis unfolding eq using IH1 IH2 by auto
    qed
  qed
qed

lemma rows_rel_deps: "shape_ok g \<Longrightarrow> {(x, y). x < length (deps g) \<and> y \<in> set (deps g ! x)} = (edges g)\<inverse>"
  by (auto simp: edges_deps)

lemma rows_rel_dependents:
  "shape_ok g \<Longrightarrow> {(x, y). x < length (dependents g) \<and> y \<in> set (dependents g ! x)} = edges g"
  by (auto simp: edges_dependents)

lemma collect_rows_closed:
  defines "R rows \<equiv> {(x, y). x < length rows \<and> y \<in> set (rows ! x)}"
  assumes closed: "R rows `` visited \<subseteq> visited"
  shows "collect_rows rows starts visited = visited \<union> (R rows)\<^sup>* `` set starts"
proof -
  let ?c = "collect_rows rows starts visited"
  note props = collect_rows_props[of visited rows starts, folded R_def]
  have "y \<in> ?c" if "(x, y) \<in> (R rows)\<^sup>*" "x \<in> set starts" for x y
    using that(1) by (rule rtrancl_closed) (use props closed that(2) in blast)+
  with props show ?thesis by blast
qed

lemma fold_collect:
  defines "R rows \<equiv> {(x, y). x < length rows \<and> y \<in> set (rows ! x)}"
  shows "foldl (\<lambda>r t. collect_rows rows [t] r) {} ts = (R rows)\<^sup>* `` set ts"
proof -
  have "R rows `` r \<subseteq> r \<Longrightarrow>
      foldl (\<lambda>r t. collect_rows rows [t] r) r ts = r \<union> (R rows)\<^sup>* `` set ts" for r
  proof (induction ts arbitrary: r)
    case Nil
    then show ?case by simp
  next
    case (Cons t ts)
    have c: "collect_rows rows [t] r = r \<union> (R rows)\<^sup>* `` {t}"
      using collect_rows_closed[of rows r "[t]", folded R_def] Cons.prems by simp
    have "R rows `` (r \<union> (R rows)\<^sup>* `` {t}) \<subseteq> r \<union> (R rows)\<^sup>* `` {t}"
      using Cons.prems by (auto intro: rtrancl_into_rtrancl)
    from Cons.IH[OF this] show ?case by (auto simp: c simp del: collect_rows.simps)
  qed
  then show ?thesis by simp
qed

definition between :: "('n \<times> 'n) set \<Rightarrow> 'n \<Rightarrow> 'n \<Rightarrow> 'n set" where
  "between E a b = {x. (a, x) \<in> E\<^sup>* \<and> (x, b) \<in> E\<^sup>*}"

lemma between_step:
  assumes "c \<noteq> t" "\<And>d. (d, c) \<in> E \<longleftrightarrow> d \<in> D"
  shows "between E t c = (\<Union>d \<in> D. between E t d) \<union> (if \<exists>d \<in> D. (t, d) \<in> E\<^sup>* then {c} else {})"
    and "(t, c) \<in> E\<^sup>* \<longleftrightarrow> (\<exists>d \<in> D. (t, d) \<in> E\<^sup>*)"
proof -
  have step: "(x, c) \<in> E\<^sup>* \<longleftrightarrow> x = c \<or> (\<exists>d \<in> D. (x, d) \<in> E\<^sup>*)" for x
  proof
    assume "(x, c) \<in> E\<^sup>*"
    then show "x = c \<or> (\<exists>d \<in> D. (x, d) \<in> E\<^sup>*)"
      by (cases rule: rtranclE) (use assms(2) in auto)
  next
    assume "x = c \<or> (\<exists>d \<in> D. (x, d) \<in> E\<^sup>*)"
    then show "(x, c) \<in> E\<^sup>*"
    proof
      assume "\<exists>d \<in> D. (x, d) \<in> E\<^sup>*"
      then obtain d where "d \<in> D" "(x, d) \<in> E\<^sup>*" ..
      with assms(2)[of d] show ?thesis by (simp add: rtrancl_into_rtrancl)
    qed simp
  qed
  show tc: "(t, c) \<in> E\<^sup>* \<longleftrightarrow> (\<exists>d \<in> D. (t, d) \<in> E\<^sup>*)" using step[of t] assms(1) by auto
  have "x \<in> between E t c \<longleftrightarrow> (\<exists>d \<in> D. x \<in> between E t d) \<or> ((t, c) \<in> E\<^sup>* \<and> x = c)" for x
    unfolding between_def mem_Collect_eq step[of x] by blast
  then show "between E t c = (\<Union>d \<in> D. between E t d) \<union> (if \<exists>d \<in> D. (t, d) \<in> E\<^sup>* then {c} else {})"
    unfolding tc by (simp add: set_eq_iff)
qed

lemma find_all_path_nodes_spec:
  assumes g: "wf_graph g"
    and rank: "\<And>x y. y \<in> set (dependents_or_empty g x) \<Longrightarrow> f x < (f y :: nat)"
    and "0 < fuel" "c < len g \<Longrightarrow> f c < fuel"
  shows "find_all_path_nodes fuel g c t r = Some ((t, c) \<in> (edges g)\<^sup>*, r \<union> between (edges g) t c)"
  using assms(3,4)
proof (induction fuel arbitrary: c r)
  case 0
  then show ?case by simp
next
  case (Suc fuel)
  let ?E = "edges g"
  have shape: "shape_ok g" using g by simp
  show ?case
  proof (cases "c = t")
    case True
    moreover have "between ?E t t = {t}"
    proof -
      have "x = t" if "(t, x) \<in> ?E\<^sup>*" "(x, t) \<in> ?E\<^sup>*" for x
        using that wf_acyclic[OF g] unfolding acyclic_def
        by (metis rtranclD trancl_rtrancl_trancl)
      then show ?thesis by (auto simp: between_def)
    qed
    ultimately show ?thesis by simp
  next
    case ne: False
    show ?thesis
    proof (cases "c < len g")
      case False
      then have "\<And>d. (d, c) \<notin> ?E" using edges_bound[OF shape] by blast
      then have "(x, c) \<in> ?E\<^sup>* \<longleftrightarrow> x = c" for x by (auto elim: rtranclE)
      with False ne show ?thesis by (auto simp: deps_of_def between_def shape)
    next
      case c: True
      have IH: "find_all_path_nodes fuel g d t r = Some ((t, d) \<in> ?E\<^sup>*, r \<union> between ?E t d)"
        if "d \<in> set (deps g ! c)" for d r
      proof (rule Suc.IH)
        have "f d < f c"
          using rank[of c d] that c by (simp add: succs_eq_edges edges_deps shape)
        with Suc.prems(2)[OF c] show "0 < fuel" "f d < fuel" by simp_all
      qed
      have "fold_opt (\<lambda>(on_path, result) dep.
                 case find_all_path_nodes fuel g dep t result of
                   None \<Rightarrow> None
                 | Some (True, result') \<Rightarrow> Some (True, insert c result')
                 | Some (False, result') \<Rightarrow> Some (on_path, result')) (b, r) ds
          = Some (b \<or> (\<exists>d \<in> set ds. (t, d) \<in> ?E\<^sup>*),
              r \<union> (\<Union>d \<in> set ds. between ?E t d) \<union> (if \<exists>d \<in> set ds. (t, d) \<in> ?E\<^sup>* then {c} else {}))"
        if "set ds \<subseteq> set (deps g ! c)" for b r ds
        using that
      proof (induction ds arbitrary: b r)
        case (Cons d ds)
        then show ?case using IH[of d r] by (cases "(t, d) \<in> ?E\<^sup>*") auto
      qed simp
      from this[of "deps g ! c" False r] show ?thesis
        using ne c shape between_step[of c t ?E "set (deps g ! c)"] edges_deps[OF shape, of _ c]
        by (simp add: Un_assoc)
    qed
  qed
qed

lemma find_all_path_nodes_wf:
  assumes g: "wf_graph g"
  shows "find_all_path_nodes (Suc (len g)) g c t r =
    Some ((t, c) \<in> (edges g)\<^sup>*, r \<union> between (edges g) t c)"
proof -
  obtain f :: "nat \<Rightarrow> nat" where
    "\<And>x y. y \<in> set (dependents_or_empty g x) \<Longrightarrow> f x < f y" "\<And>x. x < len g \<Longrightarrow> f x < len g"
    using bg.bounded_rank[OF g] by blast
  then show ?thesis
    by (intro find_all_path_nodes_spec[OF g, of f]) (auto intro: less_SucI)
qed

subsection \<open>The breadth-first search finds a shortest path\<close>

definition dep_path :: "'a build_graph \<Rightarrow> nat \<Rightarrow> nat \<Rightarrow> nat list \<Rightarrow> bool" where
  "dep_path g from to xs \<longleftrightarrow>
     xs \<noteq> [] \<and> hd xs = from \<and> last xs = to \<and> successively (\<lambda>x y. y \<in> set (deps_or_empty g x)) xs"

lemma dep_path_snoc:
  "dep_path g a c (xs @ [y]) \<longleftrightarrow>
     y = c \<and> (if xs = [] then a = c else dep_path g a (last xs) xs \<and> c \<in> set (deps_or_empty g (last xs)))"
  by (auto simp: dep_path_def successively_append_iff)

lemma discover_spec:
  "\<exists>new. discover c ds (queue, visited, parent) =
       (queue @ new, visited \<union> set ds, \<lambda>x. if x \<in> set new then Some c else parent x) \<and>
     distinct new \<and> set new = set ds - visited"
proof (induction ds arbitrary: queue visited parent)
  case Nil
  then show ?case by simp
next
  case (Cons d ds)
  show ?case
  proof (cases "d \<in> visited")
    case True
    with Cons.IH[of queue visited parent] show ?thesis by (auto simp: insert_absorb)
  next
    case False
    from Cons.IH[of "queue @ [d]" "insert d visited" "parent(d \<mapsto> c)"] obtain new where
      new: "discover c ds (queue @ [d], insert d visited, parent(d \<mapsto> c)) =
         ((queue @ [d]) @ new, insert d visited \<union> set ds,
          \<lambda>x. if x \<in> set new then Some c else (parent(d \<mapsto> c)) x)"
        "distinct new" "set new = set ds - insert d visited" by blast
    then show ?thesis using False by (intro exI[of _ "d # new"]) (auto simp: fun_eq_iff)
  qed
qed

definition bfs_inv ::
  "'a build_graph \<Rightarrow> nat \<Rightarrow> nat list \<Rightarrow> nat set \<Rightarrow> (nat \<rightharpoonup> nat) \<Rightarrow> (nat \<Rightarrow> nat) \<Rightarrow> bool" where
  "bfs_inv g from queue visited parent dp \<longleftrightarrow>
     dp from = 0 \<and> from \<in> visited \<and> parent from = None \<and> distinct queue \<and> set queue \<subseteq> visited \<and>
     (\<forall>v \<in> visited - {from}. \<exists>p \<in> visited.
        parent v = Some p \<and> v \<in> set (deps_or_empty g p) \<and> dp v = Suc (dp p)) \<and>
     sorted (map dp queue) \<and>
     (\<forall>q \<in> set queue. dp q \<le> Suc (dp (hd queue))) \<and>
     (\<forall>x \<in> visited - set queue. \<forall>y \<in> set (deps_or_empty g x). y \<in> visited \<and> dp y \<le> Suc (dp x)) \<and>
     (\<forall>x \<in> visited - set queue. \<forall>q \<in> set queue. dp x \<le> dp q)"

lemma bfs_inv_init: "bfs_inv g from [from] {from} Map.empty (\<lambda>_. 0)"
  by (simp add: bfs_inv_def)

lemma bfs_inv_step:
  assumes inv: "bfs_inv g from (c # queue) visited parent dp"
    and d: "discover c (deps_or_empty g c) (queue, visited, parent) = (queue', visited', parent')"
  shows "\<exists>dp'. bfs_inv g from queue' visited' parent' dp'"
proof -
  let ?ds = "deps_or_empty g c"
  obtain new where new: "queue' = queue @ new" "visited' = visited \<union> set ?ds"
    "parent' = (\<lambda>x. if x \<in> set new then Some c else parent x)" "distinct new" "set new = set ?ds - visited"
    using discover_spec[of c ?ds queue visited parent] d by auto
  define dp' where "dp' x = (if x \<in> set new then Suc (dp c) else dp x)" for x
  have old: "dp' x = dp x" if "x \<in> visited" for x using that new(5) by (simp add: dp'_def)
  have start: "dp from = 0" "from \<in> visited" "parent from = None"
    and queue: "distinct (c # queue)" "set (c # queue) \<subseteq> visited" "sorted (map dp (c # queue))"
      "\<forall>q \<in> set (c # queue). dp q \<le> Suc (dp (hd (c # queue)))"
    and par: "\<forall>v \<in> visited - {from}. \<exists>p \<in> visited.
        parent v = Some p \<and> v \<in> set (deps_or_empty g p) \<and> dp v = Suc (dp p)"
    and proc: "\<forall>x \<in> visited - set (c # queue). \<forall>y \<in> set (deps_or_empty g x). y \<in> visited \<and> dp y \<le> Suc (dp x)"
      "\<forall>x \<in> visited - set (c # queue). \<forall>q \<in> set (c # queue). dp x \<le> dp q"
    using inv unfolding bfs_inv_def by - (elim conjE, assumption)+
  have c: "c \<in> visited" "c \<notin> set queue" "set queue \<subseteq> visited"
    using queue(1,2) by simp_all
  have ge: "dp c \<le> dp q" if "q \<in> set queue" for q using queue(3) that by simp
  have le: "dp q \<le> Suc (dp c)" if "q \<in> visited" for q
  proof (cases "q \<in> set (c # queue)")
    case True
    with queue(4) have "dp q \<le> Suc (dp (hd (c # queue)))" by blast
    then show ?thesis by simp
  next
    case False
    then have "dp q \<le> dp c" using proc(2) that by auto
    then show ?thesis by simp
  qed
  have "from \<notin> set new" "distinct (queue @ new)" "set (queue @ new) \<subseteq> visited'"
    using new(2,4,5) start c queue(1,2) by auto
  moreover have "\<exists>p \<in> visited'. parent' v = Some p \<and> v \<in> set (deps_or_empty g p) \<and> dp' v = Suc (dp' p)"
    if v: "v \<in> visited' - {from}" for v
  proof (cases "v \<in> set new")
    case True
    then show ?thesis using new(2,3,5) c(1) old[OF c(1)] by (auto simp: dp'_def)
  next
    case False
    then have vis: "v \<in> visited - {from}" using v new(2,5) by blast
    then obtain p where "p \<in> visited" "parent v = Some p" "v \<in> set (deps_or_empty g p)" "dp v = Suc (dp p)"
      using par by blast
    then show ?thesis using False vis old new(2,3) by auto
  qed
  moreover have "sorted (map dp' (queue @ new))"
  proof -
    have "map dp' queue = map dp queue" using c(3) old by (intro map_cong refl) blast
    moreover have "map dp' new = replicate (length new) (Suc (dp c))"
      by (auto simp: dp'_def simp flip: map_replicate_const)
    ultimately show ?thesis
      using queue(3) le c(3) by (simp add: sorted_append subset_iff del: map_eq_conv)
  qed
  moreover have "dp' q \<le> Suc (dp' (hd (queue @ new)))" if q: "q \<in> set (queue @ new)" for q
  proof -
    have "dp' q \<le> Suc (dp c)" using q le[of q] c(3) by (auto simp: dp'_def)
    moreover have "dp c \<le> dp' (hd (queue @ new))"
    proof (cases queue)
      case Nil
      with q have "hd (queue @ new) \<in> set new" by (cases new) auto
      then show ?thesis by (simp add: dp'_def)
    next
      case (Cons a list)
      then show ?thesis using ge[of a] c(3) old[of a] by simp
    qed
    ultimately show ?thesis by simp
  qed
  moreover have "y \<in> visited' \<and> dp' y \<le> Suc (dp' x)"
    if "x \<in> visited' - set (queue @ new)" "y \<in> set (deps_or_empty g x)" for x y
  proof (cases "x = c")
    case True
    then show ?thesis
      using that(2) new(2) le[of y] old[OF c(1)] by (cases "y \<in> visited") (auto simp: dp'_def new(5))
  next
    case False
    then have x: "x \<in> visited - set (c # queue)" using that(1) new(2,5) by auto
    then have "y \<in> visited" "dp y \<le> Suc (dp x)" using proc(1) that(2) by blast+
    then show ?thesis using x old new(2) by auto
  qed
  moreover have "dp' x \<le> dp' q" if "x \<in> visited' - set (queue @ new)" "q \<in> set (queue @ new)" for x q
  proof -
    have x: "x \<in> visited" using that(1) new(2,5) by auto
    have "dp x \<le> dp c"
    proof (cases "x = c")
      case False
      with that(1) x have "x \<in> visited - set (c # queue)" by simp
      with proc(2) show ?thesis by simp
    qed simp
    moreover have "dp c \<le> dp' q" using that(2) ge[of q] c(3) old[of q] by (auto simp: dp'_def)
    ultimately show ?thesis using old[OF x] by simp
  qed
  ultimately have "bfs_inv g from queue' visited' parent' dp'"
    using start old[of "from"] new(2,3) unfolding bfs_inv_def new(1) by simp
  then show ?thesis by (rule exI[of _ dp'])
qed

lemma bfs_chain:
  assumes inv: "bfs_inv g from queue visited parent dp" and "v \<in> visited"
  shows "\<exists>ps. (\<forall>fuel path. dp v < fuel \<longrightarrow> walk_parents fuel parent v path = Some (ps @ rev path)) \<and>
    dep_path g from v (ps @ [v]) \<and> map dp (ps @ [v]) = [0..<Suc (dp v)] \<and>
    set (tl (ps @ [v])) \<subseteq> row_entries g"
  using assms(2)
proof (induction "dp v" arbitrary: v)
  case 0
  have "v = from"
    using inv 0 unfolding bfs_inv_def by (metis Diff_iff Suc_neq_Zero singletonD)
  have "walk_parents fuel parent v path = Some ([] @ rev path)" if "dp v < fuel" for fuel path
    using that inv \<open>v = from\<close> by (cases fuel) (simp_all add: bfs_inv_def)
  then show ?case
    using 0 \<open>v = from\<close> by (intro exI[of _ "[]"]) (simp add: dep_path_def)
next
  case (Suc n)
  then have "v \<noteq> from" using inv by (auto simp: bfs_inv_def)
  then obtain p where p: "p \<in> visited" "parent v = Some p" "v \<in> set (deps_or_empty g p)" "dp v = Suc (dp p)"
    using inv Suc.prems unfolding bfs_inv_def by blast
  from Suc.hyps(1)[of p] Suc.hyps(2) p obtain ps where
    ps: "\<And>fuel path. dp p < fuel \<Longrightarrow> walk_parents fuel parent p path = Some (ps @ rev path)"
      "dep_path g from p (ps @ [p])" "map dp (ps @ [p]) = [0..<Suc (dp p)]"
      "set (tl (ps @ [p])) \<subseteq> row_entries g" by auto
  have "walk_parents fuel parent v path = Some ((ps @ [p]) @ rev path)" if "dp v < fuel" for fuel path
    using that p ps(1)[of "fuel - 1" "path @ [p]"] by (cases fuel) auto
  moreover have "dep_path g from v ((ps @ [p]) @ [v])"
    using ps(2) p(3) by (subst dep_path_snoc) simp
  moreover have "v \<in> row_entries g"
    using p(3) by (auto simp: deps_or_empty_def dest: deps_of_entries[OF sym] split: sum.splits)
  ultimately show ?case
    using ps(3,4) p(4) by (intro exI[of _ "ps @ [p]"]) (cases ps; simp)
qed

lemma bfs_depth_bound:
  assumes "map dp (ps @ [v]) = [0..<Suc (dp v)]" "set (tl (ps @ [v])) \<subseteq> row_entries g"
  shows "dp v \<le> length (concat (deps g))"
proof -
  have "distinct (ps @ [v])"
    using assms(1) distinct_map[of dp "ps @ [v]"] by (metis distinct_upt)
  then have "card (set (tl (ps @ [v]))) = length (tl (ps @ [v]))"
    by (metis distinct_card distinct_tl)
  also have "\<dots> = dp v" using arg_cong[OF assms(1), of length] by simp
  finally have "dp v = card (set (tl (ps @ [v])))" by simp
  also have "\<dots> \<le> card (row_entries g)"
    by (rule card_mono[OF _ assms(2)]) (simp add: row_entries_def)
  also have "\<dots> \<le> length (concat (deps g))" unfolding row_entries_def by (rule card_length)
  finally show ?thesis .
qed

text \<open>
  Every walk from the start has reached a discovered node no later than its depth, or has
  passed a queued node strictly before.
\<close>

lemma bfs_frontier:
  assumes inv: "bfs_inv g from queue visited parent dp" and "dep_path g from v xs"
  shows "(v \<in> visited \<and> dp v < length xs) \<or> (\<exists>q \<in> set queue. Suc (dp q) < length xs)"
  using assms(2)
proof (induction xs arbitrary: v rule: rev_induct)
  case Nil
  then show ?case by (simp add: dep_path_def)
next
  case (snoc y xs)
  show ?case
  proof (cases "xs = []")
    case True
    with snoc.prems dep_path_snoc[of g "from" v "[]" y] inv show ?thesis by (auto simp: bfs_inv_def)
  next
    case False
    let ?u = "last xs"
    have u: "dep_path g from ?u xs" "v \<in> set (deps_or_empty g ?u)"
      using False snoc.prems by (simp_all add: dep_path_snoc)
    from snoc.IH[OF u(1)] show ?thesis
    proof (elim disjE)
      assume h: "?u \<in> visited \<and> dp ?u < length xs"
      show ?thesis
      proof (cases "?u \<in> set queue")
        case True
        with h show ?thesis by auto
      next
        case False
        with h have "?u \<in> visited - set queue" by blast
        then have "v \<in> visited \<and> dp v \<le> Suc (dp ?u)" using inv u(2) unfolding bfs_inv_def by blast
        with h show ?thesis by auto
      qed
    next
      assume "\<exists>q \<in> set queue. Suc (dp q) < length xs"
      then obtain q where "q \<in> set queue" "Suc (dp q) < length xs" ..
      then show ?thesis by (intro disjI2 bexI[of _ q]) simp_all
    qed
  qed
qed

lemma bfs_loop_Cons:
  "bfs_loop g to (c # queue) visited parent =
     (if c = to
      then map_option Some (walk_parents (Suc (length (concat (deps g)))) parent to [to])
      else case discover c (deps_or_empty g c) (queue, visited, parent) of
             (queue', visited', parent') \<Rightarrow> bfs_loop g to queue' visited' parent')"
  by (simp add: deps_or_empty_def split: sum.splits)

definition shortest_result :: "'a build_graph \<Rightarrow> nat \<Rightarrow> nat \<Rightarrow> nat list option \<Rightarrow> bool" where
  "shortest_result g from to r =
     (case r of
        None \<Rightarrow> \<forall>xs. \<not> dep_path g from to xs
      | Some p \<Rightarrow> dep_path g from to p \<and> (\<forall>xs. dep_path g from to xs \<longrightarrow> length p \<le> length xs))"

lemma bfs_loop_spec:
  assumes "bfs_inv g from queue visited parent dp" "to \<notin> visited - set queue"
  shows "\<exists>r. bfs_loop g to queue visited parent = Some r \<and> shortest_result g from to r"
  using assms
proof (induction g to queue visited parent arbitrary: dp rule: bfs_loop.induct)
  case (1 g to visited parent)
  have "\<not> dep_path g from to xs" for xs
    using bfs_frontier[OF "1.prems"(1), of to xs] "1.prems"(2) by auto
  then show ?case by (simp add: shortest_result_def)
next
  case (2 g to c queue visited parent)
  note inv = "2.prems"(1)
  have c: "c \<in> visited" using inv by (simp add: bfs_inv_def)
  show ?case
  proof (cases "c = to")
    case True
    from bfs_chain[OF inv c] obtain ps where
      ps: "\<And>fuel path. dp c < fuel \<Longrightarrow> walk_parents fuel parent c path = Some (ps @ rev path)"
        "dep_path g from c (ps @ [c])" "map dp (ps @ [c]) = [0..<Suc (dp c)]"
        "set (tl (ps @ [c])) \<subseteq> row_entries g" by blast
    have "bfs_loop g to (c # queue) visited parent = Some (Some (ps @ [c]))"
      using True ps(1)[of "Suc (length (concat (deps g)))" "[c]"] bfs_depth_bound[OF ps(3,4)]
      by (simp add: bfs_loop_Cons del: bfs_loop.simps walk_parents.simps)
    moreover have "length (ps @ [c]) \<le> length xs" if "dep_path g from to xs" for xs
    proof -
      have "length (ps @ [c]) = Suc (dp c)" using arg_cong[OF ps(3), of length] by simp
      moreover have "sorted (map dp (c # queue))"
        using inv unfolding bfs_inv_def by (elim conjE)
      then have "\<And>q. q \<in> set (c # queue) \<Longrightarrow> dp c \<le> dp q" by auto
      moreover have "(dp c < length xs) \<or> (\<exists>q \<in> set (c # queue). Suc (dp q) < length xs)"
        using bfs_frontier[OF inv that] True by blast
      ultimately show ?thesis by (metis Suc_leI Suc_lessD le_less_trans)
    qed
    ultimately show ?thesis using True ps(2) by (simp add: shortest_result_def)
  next
    case False
    obtain queue' visited' parent' where
      d: "discover c (deps_or_empty g c) (queue, visited, parent) = (queue', visited', parent')"
      using prod_cases3 by blast
    obtain dp' where inv': "bfs_inv g from queue' visited' parent' dp'"
      using bfs_inv_step[OF inv d] by blast
    obtain new where "queue' = queue @ new" "visited' = visited \<union> set (deps_or_empty g c)"
      "set new = set (deps_or_empty g c) - visited"
      using discover_spec[of c "deps_or_empty g c" queue visited parent] unfolding d by blast
    with "2.prems"(2) False have to: "to \<notin> visited' - set queue'" by auto
    have run: "bfs_loop g to (c # queue) visited parent = bfs_loop g to queue' visited' parent'"
      using False d by (simp add: bfs_loop_Cons del: bfs_loop.simps)
    show ?thesis
    proof (cases "deps_of g c")
      case (Inl e)
      with d have "queue' = queue" "visited' = visited" "parent' = parent"
        by (simp_all add: deps_or_empty_def)
      with "2.IH"(1)[OF False Inl] inv' to show ?thesis unfolding run by blast
    next
      case (Inr ds)
      with d have d': "(queue', visited', parent') = discover c ds (queue, visited, parent)"
        by (simp add: deps_or_empty_def)
      from "2.IH"(2)[OF False Inr d' refl inv' to] show ?thesis unfolding run .
    qed
  qed
qed

lemma find_shortest_path_spec:
  "\<exists>r. find_shortest_path g from to = Some r \<and> shortest_result g from to r"
  unfolding find_shortest_path_def by (rule bfs_loop_spec[OF bfs_inv_init]) simp

lemma dep_path_bound:
  "shape_ok g \<Longrightarrow> dep_path g a b xs \<Longrightarrow> a < len g \<Longrightarrow> set xs \<subseteq> {..<len g}"
proof (induction xs arbitrary: b rule: rev_induct)
  case (snoc y xs)
  show ?case
  proof (cases "xs = []")
    case True
    with snoc.prems show ?thesis by (auto simp: dep_path_def)
  next
    case False
    with snoc.prems have "dep_path g a (last xs) xs" "y \<in> set (deps_or_empty g (last xs))"
      by (simp_all add: dep_path_snoc)
    with snoc.IH snoc.prems show ?thesis using edges_bound[of g y] by (auto simp: preds_eq_edges)
  qed
qed simp

lemma dep_path_ex: "shape_ok g \<Longrightarrow> (\<exists>xs. dep_path g a b xs) \<longleftrightarrow> (b, a) \<in> (edges g)\<^sup>*"
proof
  assume g: "shape_ok g"
  assume "\<exists>xs. dep_path g a b xs"
  then obtain xs where "dep_path g a b xs" ..
  then show "(b, a) \<in> (edges g)\<^sup>*"
  proof (induction xs arbitrary: b rule: rev_induct)
    case (snoc y xs)
    show ?case
    proof (cases "xs = []")
      case True
      with snoc.prems show ?thesis by (auto simp: dep_path_def)
    next
      case False
      with snoc.prems have "dep_path g a (last xs) xs" "b \<in> set (deps_or_empty g (last xs))"
        by (simp_all add: dep_path_snoc)
      with snoc.IH have "(b, last xs) \<in> edges g" "(last xs, a) \<in> (edges g)\<^sup>*"
        using g by (simp_all add: preds_eq_edges)
      then show ?thesis by (rule converse_rtrancl_into_rtrancl)
    qed
  qed (simp add: dep_path_def)
next
  assume g: "shape_ok g"
  assume "(b, a) \<in> (edges g)\<^sup>*"
  then show "\<exists>xs. dep_path g a b xs"
  proof (induction rule: converse_rtrancl_induct)
    case base
    have "dep_path g a a [a]" by (simp add: dep_path_def)
    then show ?case by blast
  next
    case (step y z)
    then obtain xs where xs: "dep_path g a z xs" by blast
    then have "xs \<noteq> []" "last xs = z" by (simp_all add: dep_path_def)
    with xs step.hyps(1) g have "dep_path g a y (xs @ [y])"
      by (simp add: dep_path_snoc preds_eq_edges)
    then show ?case by blast
  qed
qed

subsection \<open>What a query means\<close>

definition path_answer :: "'a build_graph \<Rightarrow> (nat \<times> nat) set \<Rightarrow> nat set \<Rightarrow> bool" where
  "path_answer g pairs s \<longleftrightarrow>
     (\<exists>f t p. (f, t) \<in> pairs \<and> s = set p \<and> dep_path g f t p \<and>
        (\<forall>xs. dep_path g f t xs \<longrightarrow> length p \<le> length xs)) \<or>
     (s = {} \<and> (\<forall>(f, t) \<in> pairs. (t, f) \<notin> (edges g)\<^sup>*))"

text \<open>
  \<open>answers name g e s\<close>: the set \<open>s\<close> is an answer to \<open>e\<close>. Every construct but \<open>SomePath\<close> has
  one answer; \<open>SomePath\<close> may answer with any shortest dependency path between the two sets,
  which one depends on the iteration order.
\<close>

fun answers :: "('a \<Rightarrow> string) \<Rightarrow> 'a build_graph \<Rightarrow> query_expr \<Rightarrow> nat set \<Rightarrow> bool" where
  "answers name g (Target n) s \<longleftrightarrow> s = {i. i < len g \<and> name (payload (nodes g ! i)) = n}"
| "answers name g All s \<longleftrightarrow> s = {..<len g}"
| "answers name g (Deps e) s \<longleftrightarrow> (\<exists>t. answers name g e t \<and> s = ((edges g)\<inverse>)\<^sup>* `` t)"
| "answers name g (Rdeps e) s \<longleftrightarrow> (\<exists>t. answers name g e t \<and> s = (edges g)\<^sup>* `` t)"
| "answers name g (AllPaths e1 e2) s \<longleftrightarrow>
     (\<exists>a b. answers name g e1 a \<and> answers name g e2 b \<and>
        s = {x. \<exists>f \<in> a. \<exists>t \<in> b. (t, x) \<in> (edges g)\<^sup>* \<and> (x, f) \<in> (edges g)\<^sup>*})"
| "answers name g (SomePath e1 e2) s \<longleftrightarrow>
     (\<exists>a b. answers name g e1 a \<and> answers name g e2 b \<and>
        path_answer g (a \<times> b) s)"
| "answers name g (Filter pattern e) s \<longleftrightarrow>
     (\<exists>t. answers name g e t \<and>
        s = {i \<in> t. i < len g \<and> contains_str pattern (name (payload (nodes g ! i)))})"
| "answers name g (Union e1 e2) s \<longleftrightarrow>
     (\<exists>a b. answers name g e1 a \<and> answers name g e2 b \<and> s = a \<union> b)"
| "answers name g (Intersect e1 e2) s \<longleftrightarrow>
     (\<exists>a b. answers name g e1 a \<and> answers name g e2 b \<and> s = a \<inter> b)"

lemma some_path_spec:
  assumes g: "shape_ok g"
  shows "\<exists>s. some_path g pairs = Some s \<and> path_answer g (set pairs) s"
proof (induction pairs)
  case Nil
  then show ?case by (simp add: path_answer_def)
next
  case (Cons pair pairs)
  obtain f t where pair: "pair = (f, t)" by fastforce
  obtain r where r: "find_shortest_path g f t = Some r" "shortest_result g f t r"
    using find_shortest_path_spec by blast
  show ?case
  proof (cases r)
    case None
    with r(2) dep_path_ex[OF g, of f t] have no: "(t, f) \<notin> (edges g)\<^sup>*" by (simp add: shortest_result_def)
    obtain s where s: "some_path g pairs = Some s" "path_answer g (set pairs) s" using Cons.IH by blast
    from s(2) no have "path_answer g (set (pair # pairs)) s"
      unfolding path_answer_def pair by (elim disjE) (fastforce, simp)
    then show ?thesis using s(1) r(1) None pair by simp
  next
    case (Some p)
    with r(2) have "dep_path g f t p" "\<forall>xs. dep_path g f t xs \<longrightarrow> length p \<le> length xs"
      by (simp_all add: shortest_result_def)
    then have "path_answer g (set (pair # pairs)) (set p)"
      unfolding path_answer_def pair by (intro disjI1 exI[of _ f] exI[of _ t] exI[of _ p]) simp
    then show ?thesis using r(1) Some pair by simp
  qed
qed

lemma fold_all_paths:
  assumes g: "wf_graph g"
  shows "fold_opt (\<lambda>r (f, t). map_option snd (find_all_path_nodes (Suc (len g)) g f t r)) r pairs =
    Some (r \<union> (\<Union>(f, t) \<in> set pairs. between (edges g) t f))"
proof (induction pairs arbitrary: r)
  case (Cons p pairs)
  then show ?case
    by (cases p) (simp add: find_all_path_nodes_wf[OF g] Un_assoc del: find_all_path_nodes.simps)
qed simp

lemma node_ids_filter:
  assumes "shape_ok g"
  shows "set (map node_id (filter P (nodes g))) = {i. i < len g \<and> P (nodes g ! i)}"
  using assms by (auto simp: in_set_conv_nth node_id_eq image_iff) (metis node_id_eq)

lemma eval_query_answers:
  assumes g: "wf_graph g" and iter: "\<And>q s. finite s \<Longrightarrow> set (iter q s) = s"
  shows "\<exists>s. eval_query iter p name g e = Some s \<and> answers name g e s \<and> s \<subseteq> {..<len g}"
proof (induction e arbitrary: p)
  case (Target n)
  then show ?case using node_ids_filter[of g "\<lambda>nd. name (payload nd) = n"] g by auto
next
  case All
  then show ?case using node_ids_filter[of g "\<lambda>_. True"] g by auto
next
  case (Deps e)
  from Deps.IH obtain s where s: "eval_query iter (0 # p) name g e = Some s" "answers name g e s" "s \<subseteq> {..<len g}" by blast
  have "eval_query iter p name g (Deps e) = Some (((edges g)\<inverse>)\<^sup>* `` s)"
    using s g fold_collect[of "deps g" "iter (0 # p) s", unfolded rows_rel_deps[OF wf_shape[OF g]]]
    by (simp add: collect_transitive_deps_def iter finite_subset del: collect_rows.simps)
  moreover have "((edges g)\<inverse>)\<^sup>* `` s \<subseteq> {..<len g}"
    using s(3) edges_bound[of g] g
    by (auto elim!: rtrancl_closed[of _ _ _ "{..<len g}", simplified])
  ultimately show ?case using s(2) by auto
next
  case (Rdeps e)
  from Rdeps.IH obtain s where s: "eval_query iter (0 # p) name g e = Some s" "answers name g e s" "s \<subseteq> {..<len g}" by blast
  have "eval_query iter p name g (Rdeps e) = Some ((edges g)\<^sup>* `` s)"
    using s g fold_collect[of "dependents g" "iter (0 # p) s", unfolded rows_rel_dependents[OF wf_shape[OF g]]]
    by (simp add: collect_transitive_rdeps_def iter finite_subset del: collect_rows.simps)
  moreover have "(edges g)\<^sup>* `` s \<subseteq> {..<len g}"
    using s(3) edges_rtrancl_bound[of g] g by auto
  ultimately show ?case using s(2) by auto
next
  case (AllPaths e1 e2)
  from AllPaths.IH obtain a b where ab: "eval_query iter (0 # p) name g e1 = Some a" "answers name g e1 a" "a \<subseteq> {..<len g}"
    "eval_query iter (1 # p) name g e2 = Some b" "answers name g e2 b" "b \<subseteq> {..<len g}" by blast
  let ?s = "{x. \<exists>f \<in> a. \<exists>t \<in> b. (t, x) \<in> (edges g)\<^sup>* \<and> (x, f) \<in> (edges g)\<^sup>*}"
  have "eval_query iter p name g (AllPaths e1 e2) = Some ?s"
    using ab fold_all_paths[OF g]
    by (auto simp: iter finite_subset between_def simp del: find_all_path_nodes.simps)
  moreover have "?s \<subseteq> {..<len g}" using ab(6) edges_rtrancl_bound[of g] g by auto
  ultimately show ?case using ab by auto
next
  case (SomePath e1 e2)
  from SomePath.IH obtain a b where ab: "eval_query iter (0 # p) name g e1 = Some a" "answers name g e1 a" "a \<subseteq> {..<len g}"
    "eval_query iter (1 # p) name g e2 = Some b" "answers name g e2 b" "b \<subseteq> {..<len g}" by blast
  obtain s where s: "some_path g (List.product (iter (0 # p) a) (iter (1 # p) b)) = Some s" "path_answer g (a \<times> b) s"
    using some_path_spec[of g "List.product (iter (0 # p) a) (iter (1 # p) b)"] ab(3,6) g
    by (auto simp: iter finite_subset)
  have "s \<subseteq> {..<len g}"
    using s(2) dep_path_bound[of g] ab(3,6) g unfolding path_answer_def by fastforce
  then show ?case using ab s by auto
next
  case (Filter pat e)
  from Filter.IH obtain s where s: "eval_query iter (0 # p) name g e = Some s" "answers name g e s" "s \<subseteq> {..<len g}" by blast
  let ?P = "\<lambda>i. contains_str pat (name (payload (nodes g ! i)))"
  have "eval_query iter p name g (Filter pat e) = Some {i \<in> s. i < len g \<and> ?P i}"
  proof -
    have "(case get_node g i of None \<Rightarrow> False | Some nd \<Rightarrow> contains_str pat (name (payload nd))) \<longleftrightarrow>
        i < len g \<and> ?P i" for i
      by (cases "i < len g") simp_all
    with s(1) show ?thesis by simp
  qed
  moreover have "answers name g (Filter pat e) {i \<in> s. i < len g \<and> ?P i}" using s(2) by auto
  ultimately show ?case using s(3) by blast
next
  case (Union e1 e2)
  from Union.IH(1)[of "0 # p"] Union.IH(2)[of "1 # p"] show ?case by fastforce
next
  case (Intersect e1 e2)
  from Intersect.IH(1)[of "0 # p"] Intersect.IH(2)[of "1 # p"] show ?case by fastforce
qed

end
