(* ===== verification/Query_Parser.thy ===== *)
theory Query_Parser
  imports Graph_Query Rust_Str
begin

text \<open>
  The textual form of queries: \<open>parse_query\<close> of \<open>fish-graph/src/query.rs\<close>.
\<close>

subsection \<open>The parser\<close>

definition call_args :: "string \<Rightarrow> string \<Rightarrow> string option" where
  "call_args name s = Option.bind (strip_prefix name s) (strip_suffix_char CHR '')'')"

definition two_args :: "string list \<Rightarrow> (string \<times> string) option" where
  "two_args parts = (case map trim parts of [l, r] \<Rightarrow> Some (l, r) | _ \<Rightarrow> None)"

lemma strip_prefix_eq: "strip_prefix p s = Some r \<longleftrightarrow> s = p @ r"
  by (induction p s rule: strip_prefix.induct) auto

lemma call_args_eq: "call_args name s = Some r \<longleftrightarrow> s = name @ r @ '')''"
proof
  assume "call_args name s = Some r"
  then obtain t where "s = name @ t" "t \<noteq> []" "last t = CHR '')''" "r = butlast t"
    by (auto simp: call_args_def strip_suffix_char_def strip_prefix_eq bind_eq_Some_conv split: if_splits)
  then show "s = name @ r @ '')''" by (metis append_butlast_last_id)
next
  assume "s = name @ r @ '')''"
  then have "strip_prefix name s = Some (r @ '')'')" by (simp add: strip_prefix_eq)
  then show "call_args name s = Some r" by (simp add: call_args_def strip_suffix_char_def)
qed

lemma length_trim_by: "length (trim_by P s) \<le> length s"
  unfolding trim_by_def length_rev by (metis length_dropWhile_le length_rev order_trans)

lemma length_trim: "length (trim s) \<le> length s"
  by (simp add: trim_def length_trim_by)

lemma length_split_char: "p \<in> set (split_char c s) \<Longrightarrow> length p \<le> length s"
  by (induction c s arbitrary: p rule: split_char.induct) (fastforce split: if_splits list.splits)+

lemma length_splitn2: "p \<in> set (splitn2 c s) \<Longrightarrow> length p \<le> length s"
  by (auto simp: splitn2_def length_takeWhile_le le_diff_conv le_SucI length_dropWhile_le split: if_splits)

lemma two_args_Some:
  "two_args parts = Some (l, r) \<longleftrightarrow> (\<exists>a b. parts = [a, b] \<and> l = trim a \<and> r = trim b)"
  by (auto simp: two_args_def map_eq_Cons_conv split: list.splits)

lemma two_args_length:
  assumes "two_args (split s) = Some (l, r)" "\<And>p. p \<in> set (split s) \<Longrightarrow> length p \<le> length s"
  shows "length l \<le> length s \<and> length r \<le> length s"
  using assms by (auto simp: two_args_Some intro!: order_trans[OF length_trim])

lemma call_args_length:
  "call_args (n # name) (trim s) = Some inner \<Longrightarrow> length inner < length s"
  using length_trim[of s] by (auto simp: call_args_eq)

lemma call_two_args_length:
  assumes "call_args (n # name) (trim s) = Some args" "two_args (split args) = Some (l, r)"
    and "\<And>p. p \<in> set (split args) \<Longrightarrow> length p \<le> length args"
  shows "length l < length s" "length r < length s"
  using call_args_length[OF assms(1)] two_args_length[of split args l r, OF assms(2,3)] by simp_all

function parse_query :: "string \<Rightarrow> string + query_expr" where
  "parse_query input =
     (let trimmed = trim input in
      if trimmed = ''//...'' \<or> trimmed = ''*'' then Inr All
      else case call_args ''deps('' trimmed of
        Some inner \<Rightarrow> (case parse_query inner of Inl e \<Rightarrow> Inl e | Inr q \<Rightarrow> Inr (Deps q))
      | None \<Rightarrow>
      (case call_args ''rdeps('' trimmed of
        Some inner \<Rightarrow> (case parse_query inner of Inl e \<Rightarrow> Inl e | Inr q \<Rightarrow> Inr (Rdeps q))
      | None \<Rightarrow>
      (case Option.bind (call_args ''allpaths('' trimmed) (\<lambda>args. two_args (split_char CHR '','' args)) of
        Some (l, r) \<Rightarrow>
          (case parse_query l of Inl e \<Rightarrow> Inl e
           | Inr left \<Rightarrow> (case parse_query r of Inl e \<Rightarrow> Inl e | Inr right \<Rightarrow> Inr (AllPaths left right)))
      | None \<Rightarrow>
      (case Option.bind (call_args ''somepath('' trimmed) (\<lambda>args. two_args (split_char CHR '','' args)) of
        Some (l, r) \<Rightarrow>
          (case parse_query l of Inl e \<Rightarrow> Inl e
           | Inr left \<Rightarrow> (case parse_query r of Inl e \<Rightarrow> Inl e | Inr right \<Rightarrow> Inr (SomePath left right)))
      | None \<Rightarrow>
      (case Option.bind (call_args ''filter('' trimmed) (\<lambda>args. two_args (splitn2 CHR '','' args)) of
        Some (p, r) \<Rightarrow>
          (case parse_query r of Inl e \<Rightarrow> Inl e
           | Inr inner \<Rightarrow> Inr (Filter (trim_matches (CHR 0x27) (trim_matches (CHR 0x22) p)) inner))
      | None \<Rightarrow> Inr (Target (trim_start_slashes trimmed)))))))"
  by pat_completeness auto
termination parse_query
  by (relation "measure length")
     (auto simp: bind_eq_Some_conv dest: call_args_length
       intro: call_two_args_length length_split_char length_splitn2)

declare parse_query.simps [simp del]

subsection \<open>Every input parses\<close>

fun parseable :: "query_expr \<Rightarrow> bool" where
  "parseable (Target n) = True"
| "parseable All = True"
| "parseable (Deps e) = parseable e"
| "parseable (Rdeps e) = parseable e"
| "parseable (AllPaths a b) = (parseable a \<and> parseable b)"
| "parseable (SomePath a b) = (parseable a \<and> parseable b)"
| "parseable (Filter p e) = parseable e"
| "parseable (Union a b) = False"
| "parseable (Intersect a b) = False"

lemma two_args_call_length:
  assumes "Option.bind (call_args (n # name) (trim s)) (\<lambda>args. two_args (split args)) = Some (l, r)"
    and "\<And>args p. p \<in> set (split args) \<Longrightarrow> length p \<le> length args"
  shows "length l < length s" "length r < length s"
  using assms call_two_args_length[of n name s _ split l r] by (auto simp: bind_eq_Some_conv)

lemma parse_query_total: "\<exists>q. parse_query input = Inr q \<and> parseable q"
proof (induction input rule: measure_induct_rule[where f = length])
  case (less input)
  let ?t = "trim input"
  let ?two = "\<lambda>name split. Option.bind (call_args name ?t) (\<lambda>args. two_args (split args))"
  have one: "\<exists>q. parse_query inner = Inr q \<and> parseable q" if "call_args (n # name) ?t = Some inner" for n name inner
    using less.IH call_args_length[OF that] .
  have two: "\<exists>q q'. parse_query l = Inr q \<and> parse_query r = Inr q' \<and> parseable q \<and> parseable q'"
    if "?two (n # name) split = Some (l, r)" "\<And>args p. p \<in> set (split args) \<Longrightarrow> length p \<le> length args"
    for n name split l r
    using less.IH[OF two_args_call_length(1)[OF that]] less.IH[OF two_args_call_length(2)[OF that]] by blast
  note two_c = two[where split = "split_char CHR '',''", OF _ length_split_char]
    and two_n = two[where split = "splitn2 CHR '',''", OF _ length_splitn2]
  show ?case
    by (subst parse_query.simps)
      (auto simp: Let_def simp del: bind_eq_Some_conv split: option.split dest!: one two_c two_n)
qed

subsection \<open>Canonical text\<close>

text \<open>
  The text of an expression that a user would write. It is unambiguous when target names and
  patterns avoid the syntax and when the arguments of the two path functions print without a
  comma.
\<close>

fun render :: "query_expr \<Rightarrow> string" where
  "render (Target n) = n"
| "render All = ''//...''"
| "render (Deps e) = ''deps('' @ render e @ '')''"
| "render (Rdeps e) = ''rdeps('' @ render e @ '')''"
| "render (AllPaths a b) = ''allpaths('' @ render a @ '', '' @ render b @ '')''"
| "render (SomePath a b) = ''somepath('' @ render a @ '', '' @ render b @ '')''"
| "render (Filter p e) = ''filter('' @ p @ '', '' @ render e @ '')''"
| "render (Union a b) = []"
| "render (Intersect a b) = []"

fun printable :: "query_expr \<Rightarrow> bool" where
  "printable (Target n) \<longleftrightarrow>
     trimmed_by is_whitespace n \<and> n \<noteq> ''*'' \<and> (n \<noteq> [] \<longrightarrow> last n \<noteq> CHR '')'') \<and>
     strip_prefix ''//'' n = None"
| "printable All = True"
| "printable (Deps e) = printable e"
| "printable (Rdeps e) = printable e"
| "printable (AllPaths a b) \<longleftrightarrow>
     printable a \<and> printable b \<and> CHR '','' \<notin> set (render a) \<union> set (render b)"
| "printable (SomePath a b) \<longleftrightarrow>
     printable a \<and> printable b \<and> CHR '','' \<notin> set (render a) \<union> set (render b)"
| "printable (Filter p e) \<longleftrightarrow>
     printable e \<and> CHR '','' \<notin> set p \<and>
     trimmed_by (\<lambda>c. is_whitespace c \<or> c = CHR 0x22 \<or> c = CHR 0x27) p"
| "printable (Union a b) = False"
| "printable (Intersect a b) = False"

lemma render_trimmed: "printable e \<Longrightarrow> trimmed_by is_whitespace (render e)"
  by (cases e) (auto simp: trimmed_by_def is_whitespace_def Let_def)

lemma trim_render: "printable e \<Longrightarrow> trim (render e) = render e"
  by (simp add: trim_id render_trimmed)

lemma call_args_literal [simp]: "call_args name (name @ s @ '')'') = Some s"
  by (simp add: call_args_eq)

lemma trim_start_slashes_id: "strip_prefix ''//'' n = None \<Longrightarrow> trim_start_slashes n = n"
proof -
  assume *: "strip_prefix ''//'' n = None"
  show ?thesis
  proof (cases n)
    case (Cons a m)
    then show ?thesis using * by (cases m) (auto split: if_splits)
  qed simp
qed

lemma call_args_last: "s \<noteq> [] \<longrightarrow> last s \<noteq> CHR '')'' \<Longrightarrow> call_args name s = None"
proof (cases "call_args name s")
  case (Some r)
  then have "s = name @ r @ '')''" by (simp add: call_args_eq)
  moreover assume "s \<noteq> [] \<longrightarrow> last s \<noteq> CHR '')''"
  ultimately show ?thesis by simp
qed


lemma parse_render: "printable e \<Longrightarrow> parse_query (render e) = Inr e"
proof (induction e)
  case (Target n)
  have n: "trim n = n" "n \<noteq> ''*''" "strip_prefix ''//'' n = None" "\<And>f. call_args f n = None"
    using Target by (auto simp: trim_id call_args_last simp del: strip_prefix.simps)
  moreover have "n \<noteq> ''//...''" using n(3) by auto
  ultimately show ?case
    by (subst parse_query.simps) (simp add: trim_start_slashes_id del: strip_prefix.simps)
next
  case All
  show ?case by (subst parse_query.simps) (simp add: trim_id trimmed_by_def is_whitespace_def)
next
  case (Deps e)
  have "call_args ''deps('' (render (Deps e)) = Some (render e)"
    using call_args_literal[of "''deps(''" "render e"] by simp
  with Deps trim_render[of "Deps e"] show ?case
    by (subst parse_query.simps) (simp add: Let_def)
next
  case (Rdeps e)
  have "call_args ''rdeps('' (render (Rdeps e)) = Some (render e)"
    using call_args_literal[of "''rdeps(''" "render e"] by simp
  with Rdeps trim_render[of "Rdeps e"] show ?case
    by (subst parse_query.simps) (simp add: Let_def call_args_def)
next
  case (AllPaths a b)
  let ?args = "render a @ '', '' @ render b"
  have c: "call_args ''allpaths('' (render (AllPaths a b)) = Some ?args"
    using call_args_literal[of "''allpaths(''" ?args] by simp
  have "two_args (split_char CHR '','' ?args) = Some (render a, render b)"
    using AllPaths.prems by (simp add: split_char_one split_char_none two_args_Some trim_render trim_space)
  with c AllPaths trim_render[of "AllPaths a b"] show ?case
    by (subst parse_query.simps) (simp add: Let_def call_args_def)
next
  case (SomePath a b)
  let ?args = "render a @ '', '' @ render b"
  have c: "call_args ''somepath('' (render (SomePath a b)) = Some ?args"
    using call_args_literal[of "''somepath(''" ?args] by simp
  have "two_args (split_char CHR '','' ?args) = Some (render a, render b)"
    using SomePath.prems by (simp add: split_char_one split_char_none two_args_Some trim_render trim_space)
  with c SomePath trim_render[of "SomePath a b"] show ?case
    by (subst parse_query.simps) (simp add: Let_def call_args_def)
next
  case (Filter p e)
  let ?args = "p @ '', '' @ render e"
  have c: "call_args ''filter('' (render (Filter p e)) = Some ?args"
    using call_args_literal[of "''filter(''" ?args] by simp
  have p: "trimmed_by is_whitespace p" "trimmed_by ((=) CHR 0x22) p" "trimmed_by ((=) (CHR 0x27)) p"
    using Filter.prems by (auto simp: trimmed_by_def)
  have "two_args (splitn2 CHR '','' ?args) = Some (p, render e)"
    using Filter.prems p by (simp add: splitn2_one two_args_Some trim_render trim_space trim_id)
  with c Filter p trim_render[of "Filter p e"] show ?case
    by (subst parse_query.simps) (simp add: Let_def call_args_def trim_matches_def trim_by_id)
qed simp_all

text \<open>
  A comma inside an argument of a path function defeats the split: a nested call parses
  as the name of a target.
\<close>

lemma nested_path_query_is_a_target:
  "parse_query ''allpaths(app, somepath(lib, core))'' =
     Inr (Target ''allpaths(app, somepath(lib, core))'')"
  by code_simp

text \<open>
  The two sets of \<open>somepath(*, *)\<close> are equal but made apart. If the first is iterated from its end and
  the second from its start, the answer is a path of three nodes; one common order would always start with a
  pair of equal nodes.
\<close>

lemma equal_sets_iterate_apart:
  "eval_query (\<lambda>q s. if q = [0] then rev (sorted_list_of_set s) else sorted_list_of_set s) [] (\<lambda>p. p) diamond
     (SomePath All All) = Some {0, 1, 3}"
  "eval_query (\<lambda>q. sorted_list_of_set) [] (\<lambda>p. p) diamond (SomePath All All) = Some {0}"
  by code_simp+

subsection \<open>Properties\<close>

text \<open>
  C5. Evaluation of any query on a well-formed graph returns (the fuel suffices, nothing
  panics), whatever the iteration order of each of the hash sets that it makes, and the answer is the one
  the query denotes: closures under dependencies and dependents, nodes on the paths between two
  sets, a shortest dependency path, substring filters, and the set operations.
\<close>

theorem eval_query_correct:
  assumes "wf_graph g" and "\<And>q s. finite s \<Longrightarrow> set (iter q s) = s"
  shows "\<exists>s. eval_query iter p name g e = Some s \<and> answers name g e s \<and> s \<subseteq> {..<len g}"
  by (rule eval_query_answers[OF assms])

theorem eval_query_correct_witness:
  "\<exists>s. eval_query (\<lambda>_. sorted_list_of_set) [] (\<lambda>p. p) diamond (Deps (Target ''lib'')) = Some s \<and> s = {0, 1}"
proof -
  have target: "{i. i < 4 \<and> payload (nodes diamond ! i) = ''lib''} = {1}"
    by (auto simp: diamond_def less_Suc_eq eval_nat_numeral)
  have "x = 0 \<or> x = 1" if "(x, 1) \<in> (edges diamond)\<^sup>*" for x
    using that by (induction rule: converse_rtrancl_induct) (auto simp: edges_diamond)
  moreover have "(0, 1) \<in> (edges diamond)\<^sup>*" by (rule r_into_rtrancl) (simp add: edges_diamond)
  ultimately have "((edges diamond)\<inverse>)\<^sup>* `` {1} = {0, 1}"
    by (auto simp: rtrancl_converse simp del: One_nat_def)
  then have "answers (\<lambda>p. p) diamond (Deps (Target ''lib'')) s \<longleftrightarrow> s = {0, 1}" for s
    by (simp add: target del: One_nat_def)
  with eval_query_correct[OF wf_diamond, of "\<lambda>_. sorted_list_of_set" "[]" "\<lambda>p. p" "Deps (Target ''lib'')"]
  show ?thesis by simp
qed

text \<open>
  The breadth-first search returns on every graph, well-formed or not: \<open>None\<close> exactly
  when no dependency path leads from the one node to the other, and otherwise a path between
  them that is at most as long as any other.
\<close>

theorem find_shortest_path_correct:
  "\<exists>r. find_shortest_path g from to = Some r \<and>
     (case r of
        None \<Rightarrow> \<forall>xs. \<not> dep_path g from to xs
      | Some p \<Rightarrow> dep_path g from to p \<and> (\<forall>xs. dep_path g from to xs \<longrightarrow> length p \<le> length xs))"
  using find_shortest_path_spec[of g "from" to] unfolding shortest_result_def .

theorem find_shortest_path_correct_witness:
  "find_shortest_path diamond 3 0 = Some (Some [3, 1, 0]) \<and> dep_path diamond 3 0 [3, 1, 0]"
proof -
  have "find_shortest_path diamond 3 0 = Some (Some [3, 1, 0])" by code_simp
  then show ?thesis using find_shortest_path_correct[of diamond 3 0] by simp
qed

text \<open>
  \<open>parse_query\<close> accepts every input: it always returns \<open>Ok\<close>, and never with a union or an
  intersection in the result, for which the grammar has no syntax.
\<close>

theorem parse_query_never_fails: "\<exists>q. parse_query input = Inr q \<and> parseable q"
  by (rule parse_query_total)

text \<open>
  C6. Parsing the canonical text of an expression gives back that expression, for every
  expression whose names avoid the syntax and whose path arguments print without commas.
\<close>

theorem parse_query_roundtrip: "printable e \<Longrightarrow> parse_query (render e) = Inr e"
  by (rule parse_render)

theorem parse_query_roundtrip_witness:
  "parse_query ''filter(li, rdeps(somepath(app, core)))'' =
     Inr (Filter ''li'' (Rdeps (SomePath (Target ''app'') (Target ''core''))))"
  using parse_query_roundtrip[of "Filter ''li'' (Rdeps (SomePath (Target ''app'') (Target ''core'')))"]
  by (simp add: trimmed_by_def is_whitespace_def)

end
