(* ===== verification/Task_Model.thy ===== *)
theory Task_Model
  imports Fish_Prelude Rust_Str
begin

text \<open>
  Tasks and their outcomes, the payload of the build graph: \<open>fish-executor/src/task.rs\<close>,
  \<open>command.rs\<close> and the middleware chain of \<open>middleware.rs\<close>. Spawning the process
  (\<open>executor.rs\<close>) is operating-system code; an executor is a parameter of the chain.
\<close>

record command_spec =
  program :: string
  args :: "string list"
  env :: "string \<rightharpoonup> string"
  env_clear :: bool
  cwd :: "string option"

record cache_entry =
  key :: string
  fingerprint :: string

record task =
  label :: string
  description :: string
  spec :: command_spec
  cache :: "cache_entry option"
  artifacts :: "string list"

datatype task_status = Run_Executed | Run_Cached | Run_Failed

record task_outcome =
  status :: task_status
  exit_code :: "int option"
  stdout :: string
  stderr :: string
  duration :: nat

definition new_command :: "string \<Rightarrow> command_spec" where
  "new_command p = \<lparr>program = p, args = [], env = Map.empty, env_clear = False, cwd = None\<rparr>"

definition with_arg :: "string \<Rightarrow> command_spec \<Rightarrow> command_spec" where
  "with_arg a c = c\<lparr>args := args c @ [a]\<rparr>"

definition with_args :: "string list \<Rightarrow> command_spec \<Rightarrow> command_spec" where
  "with_args as c = c\<lparr>args := args c @ as\<rparr>"

definition with_env :: "string \<Rightarrow> string \<Rightarrow> command_spec \<Rightarrow> command_spec" where
  "with_env k v c = c\<lparr>env := (env c)(k \<mapsto> v)\<rparr>"

text \<open>\<open>CommandSpec::command_line\<close>.\<close>

definition needs_quotes :: "string \<Rightarrow> bool" where
  "needs_quotes a \<longleftrightarrow> list_ex is_whitespace a \<or>
     list_ex (\<lambda>c. c \<in> set ([CHR 0x22] @ ''$'' @ [CHR 0x60, CHR 0x5C] @ '';|&<>()[]{}*?!~'')) a"

definition command_line :: "command_spec \<Rightarrow> string" where
  "command_line c =
     foldl (\<lambda>line a. if needs_quotes a then line @ '' '' @ [CHR 0x27] @ a @ [CHR 0x27] else line @ '' '' @ a)
       (program c) (args c)"

definition new_task :: "string \<Rightarrow> string \<Rightarrow> command_spec \<Rightarrow> task" where
  "new_task l d s = \<lparr>label = l, description = d, spec = s, cache = None, artifacts = []\<rparr>"

definition with_cache :: "cache_entry \<Rightarrow> task \<Rightarrow> task" where
  "with_cache e t = t\<lparr>cache := Some e\<rparr>"

definition with_artifacts :: "string list \<Rightarrow> task \<Rightarrow> task" where
  "with_artifacts as t = t\<lparr>artifacts := as\<rparr>"

definition outcome_executed :: task_outcome where
  "outcome_executed = \<lparr>status = Run_Executed, exit_code = Some 0, stdout = [], stderr = [], duration = 0\<rparr>"

definition outcome_cached :: task_outcome where
  "outcome_cached = \<lparr>status = Run_Cached, exit_code = None, stdout = [], stderr = [], duration = 0\<rparr>"

definition outcome_failed :: "string \<Rightarrow> task_outcome" where
  "outcome_failed message =
     \<lparr>status = Run_Failed, exit_code = None, stdout = [], stderr = message, duration = 0\<rparr>"

subsection \<open>Middleware\<close>

text \<open>A trait object is the pair of its two methods; both may fail.\<close>

record 'e middleware =
  pre_execute :: "task \<Rightarrow> 'e + task"
  post_execute :: "task \<Rightarrow> task_outcome \<Rightarrow> 'e + task_outcome"

fun run_pre :: "'e middleware list \<Rightarrow> task \<Rightarrow> 'e + task" where
  "run_pre [] t = Inr t"
| "run_pre (m # ms) t = (case pre_execute m t of Inl e \<Rightarrow> Inl e | Inr t' \<Rightarrow> run_pre ms t')"

fun run_post :: "'e middleware list \<Rightarrow> task \<Rightarrow> task_outcome \<Rightarrow> 'e + task_outcome" where
  "run_post [] t r = Inr r"
| "run_post (m # ms) t r = (case post_execute m t r of Inl e \<Rightarrow> Inl e | Inr r' \<Rightarrow> run_post ms t r')"

definition chain_execute ::
  "(task \<Rightarrow> 'e + task_outcome) \<Rightarrow> 'e middleware list \<Rightarrow> task \<Rightarrow> 'e + task_outcome" where
  "chain_execute inner ms t =
     (case run_pre ms t of
        Inl e \<Rightarrow> Inl e
      | Inr t' \<Rightarrow> (case inner t' of Inl e \<Rightarrow> Inl e | Inr r \<Rightarrow> run_post (rev ms) t' r))"

lemma chain_execute_Nil [simp]: "chain_execute inner [] t = inner t"
  by (simp add: chain_execute_def split: sum.splits)

end
