(* ===== verification/Critical_Path.thy ===== *)
theory Critical_Path
  imports Graph_Api Task_Model
begin

text \<open>
  Longest paths of the build graph, \<open>fish-scheduler/src/lib.rs\<close>: the tails that order the
  ready list (\<open>critical_path_tails\<close>) and the critical path of a finished build
  (\<open>BuildSummary::critical_path\<close>). A \<open>Duration\<close> is its number of nanoseconds; adding two
  durations panics when the sum does not fit.
\<close>

subsection \<open>Tails\<close>

definition critical_path_tails :: "'a build_graph \<Rightarrow> nat list option" where
  "critical_path_tails g =
     (case topological_order g of
        None \<Rightarrow> None
      | Some order \<Rightarrow>
          fold_opt (dp_step (dependents_or_empty g) (\<lambda>i ts. Suc (max_or_zero ts)))
            (replicate (len g) 0) (rev order))"

text \<open>A chain of nodes along the edges, dependencies first.\<close>

definition edge_chain :: "'a build_graph \<Rightarrow> nat list \<Rightarrow> bool" where
  "edge_chain g xs \<longleftrightarrow> set xs \<subseteq> {..<len g} \<and> successively (\<lambda>x y. (x, y) \<in> edges g) xs"

lemma edge_chain_Cons:
  "edge_chain g (x # xs) \<longleftrightarrow> x < len g \<and> edge_chain g xs \<and> (xs \<noteq> [] \<longrightarrow> (x, hd xs) \<in> edges g)"
  by (auto simp: edge_chain_def successively_Cons)

lemma edge_chain_snoc:
  "edge_chain g (xs @ [x]) \<longleftrightarrow> x < len g \<and> edge_chain g xs \<and> (xs \<noteq> [] \<longrightarrow> (last xs, x) \<in> edges g)"
  by (auto simp: edge_chain_def successively_append_iff)

lemma edge_chain_two:
  "edge_chain g (xs @ [y, x]) \<longleftrightarrow> x < len g \<and> edge_chain g (xs @ [y]) \<and> (y, x) \<in> edges g"
  using edge_chain_snoc[of g "xs @ [y]" x] by auto

lemma edge_chain_induct [consumes 2, case_names step]:
  assumes "wf_graph g" "x < len g"
    and step: "\<And>x. x < len g \<Longrightarrow> (\<And>y. (x, y) \<in> edges g \<Longrightarrow> P y) \<Longrightarrow> P x"
  shows "P x"
proof -
  have "finite ((edges g)\<inverse>)" "acyclic ((edges g)\<inverse>)"
    using assms(1) by (simp_all add: finite_edges wf_acyclic acyclic_converse)
  then have "wf ((edges g)\<inverse>)" by (rule finite_acyclic_wf)
  then show ?thesis using assms(2)
  proof (induction x rule: wf_induct_rule)
    case (less x)
    show ?case
    proof (rule step[OF less.prems])
      fix y assume "(x, y) \<in> edges g"
      then show "P y" using less.IH[of y] edges_bound[of g x y] assms(1) by simp
    qed
  qed
qed

lemma critical_path_tails_spec:
  assumes g: "wf_graph g"
  obtains tail where "critical_path_tails g = Some tail" "length tail = len g"
    "\<And>x. x < len g \<Longrightarrow> tail ! x = Suc (max_or_zero (map ((!) tail) (dependents g ! x)))"
proof -
  obtain order where order: "topological_order g = Some order" "topo_enum (deps_or_empty g) (len g) order"
    using topological_order_wf[OF g] by blast
  have "topo_enum (dependents_or_empty g) (len g) (rev order)"
    using bg.topo_enum_rev[OF g order(2)] .
  from dp_fold[OF this, of "replicate (len g) 0" "\<lambda>i ts. Suc (max_or_zero ts)"] obtain tail where
    "fold_opt (dp_step (dependents_or_empty g) (\<lambda>i ts. Suc (max_or_zero ts)))
       (replicate (len g) 0) (rev order) = Some tail" "length tail = len g"
    "\<And>x. x < len g \<Longrightarrow> tail ! x = Suc (max_or_zero (map ((!) tail) (dependents_or_empty g x)))"
    by auto
  then show thesis
    using that order(1) g by (auto simp: critical_path_tails_def dependents_or_empty_eq)
qed

lemma tail_longest_chain:
  assumes g: "wf_graph g" and "x < len g"
    and tail: "\<And>x. x < len g \<Longrightarrow> tail ! x = Suc (max_or_zero (map ((!) tail) (dependents g ! x)))"
  shows "(\<exists>xs. edge_chain g xs \<and> xs \<noteq> [] \<and> hd xs = x \<and> length xs = tail ! x) \<and>
    (\<forall>xs. edge_chain g xs \<and> xs \<noteq> [] \<and> hd xs = x \<longrightarrow> length xs \<le> tail ! x)"
  using assms(1,2)
proof (induction x rule: edge_chain_induct)
  case (step x)
  have shape: "shape_ok g" using g by simp
  let ?ts = "map ((!) tail) (dependents g ! x)"
  have edge: "(x, y) \<in> edges g \<longleftrightarrow> y \<in> set (dependents g ! x)" for y
    using step(1) by (simp add: edges_dependents[OF shape])
  have "\<exists>xs. edge_chain g xs \<and> xs \<noteq> [] \<and> hd xs = x \<and> length xs = tail ! x"
  proof (cases "dependents g ! x = []")
    case True
    then show ?thesis using step(1) tail[OF step(1)]
      by (intro exI[of _ "[x]"]) (simp add: edge_chain_def)
  next
    case False
    then have "max_or_zero ?ts \<in> set ?ts" by (intro max_or_zero_in) simp
    then obtain y where y: "y \<in> set (dependents g ! x)" "tail ! y = max_or_zero ?ts" by auto
    with step(2)[of y] edge obtain ys where
      "edge_chain g ys" "ys \<noteq> []" "hd ys = y" "length ys = tail ! y" by blast
    then show ?thesis using y edge step(1) tail[OF step(1)]
      by (intro exI[of _ "x # ys"]) (simp add: edge_chain_Cons)
  qed
  moreover have "length xs \<le> tail ! x" if "edge_chain g xs" "xs \<noteq> []" "hd xs = x" for xs
  proof (cases xs)
    case (Cons a ys)
    show ?thesis
    proof (cases "ys = []")
      case False
      then have y: "edge_chain g ys" "(x, hd ys) \<in> edges g"
        using that Cons by (auto simp: edge_chain_Cons)
      then have "length ys \<le> tail ! hd ys" using step(2) False by blast
      also have "\<dots> \<le> max_or_zero ?ts" using y(2) edge by (intro max_or_zero_ge) auto
      finally show ?thesis using Cons tail[OF step(1)] by simp
    qed (use Cons tail[OF step(1)] in simp)
  qed (use that in simp)
  ultimately show ?case by blast
qed

subsection \<open>The critical path of a finished build\<close>

record task_timing =
  t_label :: string
  t_description :: string
  start_offset :: nat
  t_duration :: nat
  t_node_id :: nat
  worker_id :: nat
  t_status :: task_status

definition duration_max :: nat where
  "duration_max = 2 ^ 64 * 1000000000 - 1"

definition add_duration :: "nat \<Rightarrow> nat \<Rightarrow> nat option" where
  "add_duration a b = (if a + b \<le> duration_max then Some (a + b) else None)"

definition timing_vector :: "nat \<Rightarrow> task_timing list \<Rightarrow> nat list" where
  "timing_vector n ts =
     foldl (\<lambda>vec t. if t_node_id t < n then vec[t_node_id t := t_duration t] else vec) (replicate n 0) ts"

text \<open>\<open>Iterator::max_by_key\<close> returns the last of several maximal elements.\<close>

fun max_by_cost :: "('a \<times> nat) option \<Rightarrow> ('a \<times> nat) list \<Rightarrow> ('a \<times> nat) option" where
  "max_by_cost best [] = best"
| "max_by_cost None (x # xs) = max_by_cost (Some x) xs"
| "max_by_cost (Some b) (x # xs) = max_by_cost (Some (if snd b \<le> snd x then x else b)) xs"

definition path_step ::
  "'a build_graph \<Rightarrow> nat list \<Rightarrow> nat list \<times> nat option list \<Rightarrow> nat \<Rightarrow> (nat list \<times> nat option list) option" where
  "path_step g timing = (\<lambda>(longest_to, predecessor) i.
     case vec_get timing i of None \<Rightarrow> None | Some own \<Rightarrow>
     (case opt_all (map (\<lambda>d. map_option (Pair d) (vec_get longest_to d)) (deps_or_empty g i)) of
        None \<Rightarrow> None
      | Some costs \<Rightarrow>
          (case (case max_by_cost None costs of
                   None \<Rightarrow> (None, 0)
                 | Some (d, c) \<Rightarrow> (Some d, c)) of
             (best_pred, best_cost) \<Rightarrow>
               (case add_duration best_cost own of
                  None \<Rightarrow> None
                | Some cost \<Rightarrow>
                    (case (vec_set longest_to i cost, vec_set predecessor i best_pred) of
                       (Some l, Some p) \<Rightarrow> Some (l, p)
                     | _ \<Rightarrow> None)))))"

definition path_end :: "nat list \<Rightarrow> nat \<times> nat" where
  "path_end longest_to =
     foldl (\<lambda>(at, best) (idx, cost). if best < cost then (idx, cost) else (at, best))
       (0, 0) (enumerate 0 longest_to)"

text \<open>
  The walk back along \<open>predecessor\<close>: the code's loop has no bound, \<open>fuel\<close> is one more than
  the number of nodes.
\<close>

fun path_labels ::
  "nat \<Rightarrow> task build_graph \<Rightarrow> nat option list \<Rightarrow> nat option \<Rightarrow> string list \<Rightarrow> string list option" where
  "path_labels fuel g predecessor None path = Some (rev path)"
| "path_labels 0 g predecessor (Some i) path = None"
| "path_labels (Suc fuel) g predecessor (Some i) path =
     (let path' = (case get_node g i of Some nd \<Rightarrow> path @ [label (payload nd)] | None \<Rightarrow> path)
      in if i < len g
         then (case vec_get predecessor i of
                 None \<Rightarrow> None
               | Some next \<Rightarrow> path_labels fuel g predecessor next path')
         else path_labels fuel g predecessor None path')"

definition critical_path :: "task_timing list \<Rightarrow> task build_graph \<Rightarrow> (nat \<times> string list) option" where
  "critical_path timings g =
     (case topological_order g of
        None \<Rightarrow> None
      | Some topo \<Rightarrow>
          (case fold_opt (path_step g (timing_vector (len g) timings))
                  (replicate (len g) 0, replicate (len g) None) topo of
             None \<Rightarrow> None
           | Some (longest_to, predecessor) \<Rightarrow>
               (case path_end longest_to of
                  (at, best) \<Rightarrow>
                    map_option (Pair best)
                      (path_labels (Suc (len g)) g predecessor (Some at) []))))"

subsection \<open>The critical path is a heaviest chain\<close>

lemma max_by_cost_Some: "\<exists>x. max_by_cost (Some b) xs = Some x \<and> x \<in> set (b # xs) \<and> (\<forall>y \<in> set (b # xs). snd y \<le> snd x)"
proof (induction "Some b" xs arbitrary: b rule: max_by_cost.induct)
  case (3 b x xs)
  from 3 show ?case by (auto split: if_splits intro: order_trans)
qed simp

lemma max_by_cost_None:
  "xs \<noteq> [] \<Longrightarrow> \<exists>x. max_by_cost None xs = Some x \<and> x \<in> set xs \<and> (\<forall>y \<in> set xs. snd y \<le> snd x)"
  using max_by_cost_Some by (cases xs) auto

definition heaviest :: "'a build_graph \<Rightarrow> nat list \<Rightarrow> nat list \<times> nat option list \<Rightarrow> nat \<Rightarrow> bool" where
  "heaviest g timing = (\<lambda>(lt, pr) x.
     if deps_or_empty g x = [] then pr ! x = None \<and> lt ! x = timing ! x
     else \<exists>d \<in> set (deps_or_empty g x). pr ! x = Some d \<and> lt ! x = lt ! d + timing ! x \<and>
            (\<forall>d' \<in> set (deps_or_empty g x). lt ! d' \<le> lt ! d))"

lemma path_step_eq:
  assumes "x < n" "length lt = n" "length pr = n" "length timing = n" "set (deps_or_empty g x) \<subseteq> {..<n}"
    and bound: "\<And>d. d \<in> set (deps_or_empty g x) \<Longrightarrow> lt ! d + timing ! x \<le> duration_max"
    and own: "timing ! x \<le> duration_max"
  shows "\<exists>c p. path_step g timing (lt, pr) x = Some (lt[x := c], pr[x := p]) \<and>
    (if deps_or_empty g x = [] then p = None \<and> c = timing ! x
     else \<exists>d \<in> set (deps_or_empty g x). p = Some d \<and> c = lt ! d + timing ! x \<and>
            (\<forall>d' \<in> set (deps_or_empty g x). lt ! d' \<le> lt ! d))"
proof -
  let ?ds = "deps_or_empty g x"
  let ?costs = "map (\<lambda>d. (d, lt ! d)) ?ds"
  have costs: "opt_all (map (\<lambda>d. map_option (Pair d) (vec_get lt d)) ?ds) = Some ?costs"
    using assms(2,5) by (intro opt_all_map_Some) auto
  show ?thesis
  proof (cases "?ds = []")
    case True
    then show ?thesis using assms own by (simp add: path_step_def add_duration_def)
  next
    case False
    then obtain d where d: "max_by_cost None ?costs = Some (d, lt ! d)" "d \<in> set ?ds"
      "\<forall>d' \<in> set ?ds. lt ! d' \<le> lt ! d"
      using max_by_cost_None[of ?costs] by auto
    then have "path_step g timing (lt, pr) x = Some (lt[x := lt ! d + timing ! x], pr[x := Some d])"
      using assms(1-4) bound[of d] costs by (simp add: path_step_def add_duration_def)
    then show ?thesis using False d(2,3) by auto
  qed
qed

lemma path_fold:
  assumes "prefix_closed (deps_or_empty g) xs" "distinct xs" "set xs \<subseteq> {..<n}"
    and "length timing = n" "sum_list timing \<le> duration_max"
  shows "\<exists>lt pr. fold_opt (path_step g timing) (replicate n 0, replicate n None) xs = Some (lt, pr) \<and>
    length lt = n \<and> length pr = n \<and> (\<forall>x \<in> set xs. heaviest g timing (lt, pr) x) \<and>
    (\<forall>x \<in> set xs. lt ! x \<le> (\<Sum>y \<in> set xs. timing ! y))"
  using assms(1-3)
proof (induction xs rule: rev_induct)
  case Nil
  then show ?case by simp
next
  case (snoc x xs)
  let ?sum = "\<lambda>xs. \<Sum>y \<in> set xs. timing ! y"
  from snoc obtain lt pr where
    IH: "fold_opt (path_step g timing) (replicate n 0, replicate n None) xs = Some (lt, pr)"
      "length lt = n" "length pr = n" "\<And>y. y \<in> set xs \<Longrightarrow> heaviest g timing (lt, pr) y"
      "\<And>y. y \<in> set xs \<Longrightarrow> lt ! y \<le> ?sum xs"
    by (auto simp: prefix_closed_snoc)
  have x: "x < n" "x \<notin> set xs" "set (deps_or_empty g x) \<subseteq> set xs" "set xs \<subseteq> {..<n}"
    using snoc.prems by (auto simp: prefix_closed_snoc)
  have sum: "?sum (xs @ [x]) = ?sum xs + timing ! x" using x(2) by simp
  have total: "?sum ys \<le> sum_list timing" if "set ys \<subseteq> {..<n}" for ys
  proof -
    have "?sum ys \<le> (\<Sum>y \<in> {..<n}. timing ! y)" by (rule sum_mono2) (use that in auto)
    also have "\<dots> = sum_list timing" by (simp add: assms(4) sum_list_sum_nth lessThan_atLeast0)
    finally show ?thesis .
  qed
  have "set (xs @ [x]) \<subseteq> {..<n}" using snoc.prems(3) .
  from total[OF this] have max: "?sum xs + timing ! x \<le> duration_max" using sum assms(5) by simp
  have "\<exists>c p. path_step g timing (lt, pr) x = Some (lt[x := c], pr[x := p]) \<and>
    (if deps_or_empty g x = [] then p = None \<and> c = timing ! x
     else \<exists>d \<in> set (deps_or_empty g x). p = Some d \<and> c = lt ! d + timing ! x \<and>
            (\<forall>d' \<in> set (deps_or_empty g x). lt ! d' \<le> lt ! d))"
  proof (rule path_step_eq)
    show "lt ! d + timing ! x \<le> duration_max" if "d \<in> set (deps_or_empty g x)" for d
      using that IH(5)[of d] x(3) max by fastforce
  qed (use x IH(2,3) assms(4) max in auto)
  then obtain c p where step: "path_step g timing (lt, pr) x = Some (lt[x := c], pr[x := p])"
    "if deps_or_empty g x = [] then p = None \<and> c = timing ! x
     else \<exists>d \<in> set (deps_or_empty g x). p = Some d \<and> c = lt ! d + timing ! x \<and>
            (\<forall>d' \<in> set (deps_or_empty g x). lt ! d' \<le> lt ! d)" by blast
  have keep: "lt[x := c] ! y = lt ! y" "pr[x := p] ! y = pr ! y" if "y \<in> set xs" for y
    using that x(2) by (metis nth_list_update_neq)+
  have "heaviest g timing (lt[x := c], pr[x := p]) y" if y: "y \<in> set (xs @ [x])" for y
  proof (cases "y = x")
    case True
    have "lt[x := c] ! d = lt ! d" if "d \<in> set (deps_or_empty g x)" for d using that keep(1) x(3) by blast
    then show ?thesis using True step(2) x(1) IH(2,3) by (auto simp: heaviest_def split: if_splits)
  next
    case False
    then have "y \<in> set xs" using y by simp
    moreover have "lt[x := c] ! d = lt ! d" if "d \<in> set (deps_or_empty g y)" for d
      using that keep(1) prefix_closed_subset[of _ xs y] snoc.prems(1) \<open>y \<in> set xs\<close>
      by (auto simp: prefix_closed_snoc)
    ultimately show ?thesis using IH(4)[of y] keep[of y] by (auto simp: heaviest_def split: if_splits)
  qed
  moreover have "lt[x := c] ! y \<le> ?sum (xs @ [x])" if y: "y \<in> set (xs @ [x])" for y
  proof (cases "y = x")
    case True
    have "c \<le> ?sum xs + timing ! x" using step(2) IH(5) x(3) by (fastforce split: if_splits)
    then show ?thesis using True x(1) IH(2) sum by simp
  next
    case False
    then have "lt ! y \<le> ?sum xs" using y IH(5) by simp
    then show ?thesis using False y keep(1)[of y] sum by simp
  qed
  moreover have "fold_opt (path_step g timing) (replicate n 0, replicate n None) (xs @ [x]) =
      Some (lt[x := c], pr[x := p])"
    using IH(1) step(1) by (simp add: fold_opt_append)
  ultimately show ?case using IH(2,3) by (intro exI[of _ "lt[x := c]"] exI[of _ "pr[x := p]"]) simp
qed

lemma path_end_spec:
  assumes "path_end lt = (at, best)"
  shows "(\<forall>c \<in> set lt. c \<le> best) \<and> (if lt = [] then at = 0 \<and> best = 0 else at < length lt \<and> lt ! at = best)"
  using assms
proof (induction lt arbitrary: at best rule: rev_induct)
  case Nil
  then show ?case by (simp add: path_end_def)
next
  case (snoc c lt)
  obtain at' best' where prev: "path_end lt = (at', best')" by fastforce
  have step: "path_end (lt @ [c]) = (if best' < c then (length lt, c) else (at', best'))"
    using prev by (simp add: path_end_def enumerate_append_eq)
  show ?case using snoc.IH[OF prev] step snoc.prems
    by (cases "lt = []") (auto simp: nth_append split: if_splits)
qed

definition chain_cost :: "nat list \<Rightarrow> nat list \<Rightarrow> nat" where
  "chain_cost timing xs = sum_list (map ((!) timing) xs)"

lemma heaviest_bounds_chains:
  assumes g: "wf_graph g" and h: "\<And>x. x < len g \<Longrightarrow> heaviest g timing (lt, pr) x"
  shows "edge_chain g (xs @ [x]) \<Longrightarrow> chain_cost timing (xs @ [x]) \<le> lt ! x"
proof (induction xs arbitrary: x rule: rev_induct)
  case Nil
  then have "x < len g" by (simp add: edge_chain_def)
  from h[OF this] show ?case by (auto simp: heaviest_def chain_cost_def split: if_splits)
next
  case (snoc y xs)
  then have "edge_chain g (xs @ [y])" "(y, x) \<in> edges g" "x < len g"
    by (simp_all add: edge_chain_two)
  then have y: "chain_cost timing (xs @ [y]) \<le> lt ! y" "y \<in> set (deps_or_empty g x)"
    using snoc.IH g by (simp_all add: preds_eq_edges)
  then have "lt ! y + timing ! x \<le> lt ! x"
    using h[OF \<open>x < len g\<close>] by (auto simp: heaviest_def split: if_splits)
  with y(1) show ?case by (simp add: chain_cost_def)
qed

lemma path_labels_chain:
  assumes g: "wf_graph g" and h: "\<And>x. x < len g \<Longrightarrow> heaviest g timing (lt, pr) x"
    and pr: "length pr = len g" and f: "\<And>x y. y \<in> set (dependents_or_empty g x) \<Longrightarrow> f x < (f y :: nat)"
    and "x < len g" "f x < fuel"
  shows "\<exists>ps. path_labels fuel g pr (Some x) path =
      Some (map (\<lambda>i. label (payload (nodes g ! i))) (ps @ [x]) @ rev path) \<and>
    edge_chain g (ps @ [x]) \<and> chain_cost timing (ps @ [x]) = lt ! x"
  using assms(5,6)
proof (induction fuel arbitrary: x path)
  case 0
  then show ?case by simp
next
  case (Suc fuel)
  have run: "path_labels (Suc fuel) g pr (Some x) path =
      path_labels fuel g pr (pr ! x) (path @ [label (payload (nodes g ! x))])"
    using Suc.prems(1) pr by simp
  show ?case
  proof (cases "deps_or_empty g x = []")
    case True
    then show ?thesis using h[OF Suc.prems(1)] Suc.prems(1) run
      by (intro exI[of _ "[]"]) (simp add: heaviest_def edge_chain_def chain_cost_def)
  next
    case False
    then obtain d where d: "d \<in> set (deps_or_empty g x)" "pr ! x = Some d" "lt ! x = lt ! d + timing ! x"
      using h[OF Suc.prems(1)] by (auto simp: heaviest_def)
    then have e: "(d, x) \<in> edges g" using g by (simp add: preds_eq_edges)
    then have "d < len g" "f d < f x" using g f[of x d] edges_bound[of g d x] by (simp_all add: succs_eq_edges)
    with Suc.IH[of d "path @ [label (payload (nodes g ! x))]"] Suc.prems(2) obtain ps where
      "path_labels fuel g pr (Some d) (path @ [label (payload (nodes g ! x))]) =
         Some (map (\<lambda>i. label (payload (nodes g ! i))) (ps @ [d]) @ rev (path @ [label (payload (nodes g ! x))]))"
      "edge_chain g (ps @ [d])" "chain_cost timing (ps @ [d]) = lt ! d" by auto
    then show ?thesis
      using run d e Suc.prems(1)
      by (intro exI[of _ "ps @ [d]"]) (simp add: edge_chain_two chain_cost_def)
  qed
qed

lemma length_timing_vector [simp]: "length (timing_vector n ts) = n"
proof -
  have "length (foldl (\<lambda>vec t. if t_node_id t < n then vec[t_node_id t := t_duration t] else vec) v ts) = length v" for v
    by (induction ts arbitrary: v) auto
  then show ?thesis by (simp add: timing_vector_def)
qed

lemma critical_path_spec:
  assumes g: "wf_graph g" and fits: "sum_list (timing_vector (len g) ts) \<le> duration_max" and ne: "0 < len g"
  obtains ps where "critical_path ts g =
      Some (chain_cost (timing_vector (len g) ts) ps, map (\<lambda>i. label (payload (nodes g ! i))) ps)"
    "edge_chain g ps" "ps \<noteq> []"
    "\<And>qs. edge_chain g qs \<Longrightarrow>
       chain_cost (timing_vector (len g) ts) qs \<le> chain_cost (timing_vector (len g) ts) ps"
proof -
  let ?t = "timing_vector (len g) ts"
  obtain order where order: "topological_order g = Some order" "topo_enum (deps_or_empty g) (len g) order"
    using topological_order_wf[OF g] by blast
  then have o: "prefix_closed (deps_or_empty g) order" "distinct order" "set order = {..<len g}"
    by (auto simp: topo_enum_def topo_enum_prefix_closed)
  obtain lt pr where fold: "fold_opt (path_step g ?t) (replicate (len g) 0, replicate (len g) None) order = Some (lt, pr)"
    "length lt = len g" "length pr = len g" "\<And>x. x < len g \<Longrightarrow> heaviest g ?t (lt, pr) x"
    using path_fold[OF o(1,2), of "len g" ?t] o(3) fits by auto
  obtain f :: "nat \<Rightarrow> nat" where f: "\<And>x y. y \<in> set (dependents_or_empty g x) \<Longrightarrow> f x < f y"
    "\<And>x. x < len g \<Longrightarrow> f x < len g"
    using bg.bounded_rank[OF g] by blast
  obtain at best where e: "path_end lt = (at, best)" by fastforce
  have lt: "lt \<noteq> []" using ne fold(2) by auto
  have at: "at < len g" "lt ! at = best" "\<And>x. x < len g \<Longrightarrow> lt ! x \<le> best"
    using path_end_spec[OF e] lt fold(2) by (auto simp: all_set_conv_all_nth)
  obtain ps where ps: "path_labels (Suc (len g)) g pr (Some at) [] =
      Some (map (\<lambda>i. label (payload (nodes g ! i))) (ps @ [at]) @ rev [])"
    "edge_chain g (ps @ [at])" "chain_cost ?t (ps @ [at]) = lt ! at"
    using path_labels_chain[where f = f and fuel = "Suc (len g)" and path = "[]", OF g fold(4) fold(3) f(1) at(1)]
      f(2)[OF at(1)] by (auto simp del: path_labels.simps)
  have "chain_cost ?t qs \<le> best" if "edge_chain g qs" for qs
  proof (cases qs rule: rev_cases)
    case (snoc ys y)
    then have "y < len g" using that by (simp add: edge_chain_snoc)
    moreover have "chain_cost ?t qs \<le> lt ! y" using heaviest_bounds_chains[OF g fold(4)] that snoc by simp
    ultimately show ?thesis using at(3) order_trans by blast
  qed (simp add: chain_cost_def)
  moreover have "critical_path ts g =
      Some (chain_cost ?t (ps @ [at]), map (\<lambda>i. label (payload (nodes g ! i))) (ps @ [at]))"
    using order(1) fold(1) e ps(1,3) at(2) by (simp add: critical_path_def del: path_labels.simps)
  ultimately show thesis using that[of "ps @ [at]"] ps(2,3) at(2) by simp
qed

subsection \<open>Properties\<close>

text \<open>
  The priority that orders the ready list is, for every node, the number of nodes of a
  longest chain of dependents that starts there: such a chain exists and none is longer.
\<close>

theorem critical_path_tails_correct:
  assumes "wf_graph g"
  shows "\<exists>tail. critical_path_tails g = Some tail \<and> length tail = len g \<and>
    (\<forall>x < len g.
       (\<exists>xs. edge_chain g xs \<and> xs \<noteq> [] \<and> hd xs = x \<and> length xs = tail ! x) \<and>
       (\<forall>xs. edge_chain g xs \<and> xs \<noteq> [] \<and> hd xs = x \<longrightarrow> length xs \<le> tail ! x))"
proof (rule critical_path_tails_spec[OF assms])
  fix tail
  assume "critical_path_tails g = Some tail" "length tail = len g"
    "\<And>x. x < len g \<Longrightarrow> tail ! x = Suc (max_or_zero (map ((!) tail) (dependents g ! x)))"
  then show ?thesis using tail_longest_chain[OF assms] by (intro exI[of _ tail]) blast
qed

theorem critical_path_tails_correct_witness:
  "critical_path_tails diamond = Some [3, 2, 2, 1] \<and>
   (\<exists>xs. edge_chain diamond xs \<and> xs \<noteq> [] \<and> hd xs = 0 \<and> length xs = 3)"
proof -
  have "critical_path_tails diamond = Some [3, 2, 2, 1]" by code_simp
  moreover have "0 < len diamond" by simp
  ultimately show ?thesis using critical_path_tails_correct[OF wf_diamond] by fastforce
qed

text \<open>
  C7. The critical path that a build reports is a chain of the graph of maximal total
  duration, and the reported duration is the total of that chain, as long as the durations
  of all tasks together fit into a \<open>Duration\<close>.
\<close>

theorem critical_path_correct:
  assumes "wf_graph g" "sum_list (timing_vector (len g) ts) \<le> duration_max" "0 < len g"
  shows "\<exists>ps. critical_path ts g =
      Some (chain_cost (timing_vector (len g) ts) ps, map (\<lambda>i. label (payload (nodes g ! i))) ps) \<and>
    edge_chain g ps \<and> ps \<noteq> [] \<and>
    (\<forall>qs. edge_chain g qs \<longrightarrow>
       chain_cost (timing_vector (len g) ts) qs \<le> chain_cost (timing_vector (len g) ts) ps)"
  using critical_path_spec[OF assms] by metis

definition echo_task :: "string \<Rightarrow> task" where
  "echo_task l = new_task l l (new_command ''echo'')"

definition task_diamond :: "task build_graph" where
  "task_diamond = the (map_nodes (\<lambda>_ l. echo_task l) diamond)"

lemma task_diamond_props:
  "wf_graph task_diamond \<and> len task_diamond = 4 \<and> edges task_diamond = {(0, 1), (0, 2), (1, 3), (2, 3)}"
  by (rule map_nodes_wf[OF wf_diamond, of "\<lambda>_ l. echo_task l"]) (simp add: task_diamond_def edges_diamond)

lemma wf_task_diamond: "wf_graph task_diamond"
  using task_diamond_props by blast

lemma len_task_diamond [simp]: "len task_diamond = 4"
  using task_diamond_props by blast

lemma edges_task_diamond: "edges task_diamond = {(0, 1), (0, 2), (1, 3), (2, 3)}"
  using task_diamond_props by blast

definition timed :: "nat \<Rightarrow> nat \<Rightarrow> task_timing" where
  "timed i d = \<lparr>t_label = [], t_description = [], start_offset = 0, t_duration = d,
     t_node_id = i, worker_id = 0, t_status = Run_Executed\<rparr>"

theorem critical_path_correct_witness:
  "\<exists>total labels. critical_path [timed 0 5, timed 1 2, timed 2 7, timed 3 1] task_diamond = Some (total, labels) \<and>
     13 \<le> total"
proof -
  let ?ts = "[timed 0 5, timed 1 2, timed 2 7, timed 3 1]"
  have vec: "timing_vector (len task_diamond) ?ts = [5, 2, 7, 1]"
    by (simp add: timing_vector_def timed_def eval_nat_numeral)
  have "edge_chain task_diamond [0, 2, 3]"
    by (simp add: edge_chain_Cons edges_task_diamond) (simp add: edge_chain_def)
  moreover have "chain_cost [5, 2, 7, 1] [0, 2, 3] = 13"
    by (simp add: chain_cost_def)
  ultimately show ?thesis
    using critical_path_correct[OF wf_task_diamond, of ?ts] unfolding vec
    by (fastforce simp: duration_max_def)
qed

end
