(* ===== verification/Run_States.thy ===== *)
theory Run_States
  imports Critical_Path
begin

text \<open>
  What every execution of a build graph does to the states of its nodes, shared by the two
  schedulers: the invariant \<open>states_ok\<close> between the state of a node and those of its
  dependencies, and the effect on it of dispatching a node, of a node that completes, and of
  a failure.
\<close>

subsection \<open>The invariant on task states\<close>

definition states_ok :: "nat \<Rightarrow> (nat \<Rightarrow> nat set) \<Rightarrow> (nat \<Rightarrow> task_state) \<Rightarrow> bool" where
  "states_ok n D \<sigma> \<longleftrightarrow> (\<forall>i < n.
     \<sigma> i \<noteq> Ready \<and> \<sigma> i \<noteq> Skipped \<and>
     (\<sigma> i \<in> {Running, Succeeded, Cached, Failed} \<longrightarrow> (\<forall>d \<in> D i. is_successful (\<sigma> d))) \<and>
     (\<sigma> i = Cancelled \<longrightarrow> (\<exists>d \<in> D i. is_unsuccessful (\<sigma> d))) \<and>
     (\<sigma> i = Pending \<longrightarrow> (\<forall>d \<in> D i. \<not> is_unsuccessful (\<sigma> d))))"

lemma states_okD:
  assumes "states_ok n D \<sigma>" "i < n"
  shows "\<sigma> i \<noteq> Ready" "\<sigma> i \<noteq> Skipped"
    "\<sigma> i \<in> {Running, Succeeded, Cached, Failed} \<Longrightarrow> d \<in> D i \<Longrightarrow> is_successful (\<sigma> d)"
    "\<sigma> i = Cancelled \<Longrightarrow> \<exists>d \<in> D i. is_unsuccessful (\<sigma> d)"
    "\<sigma> i = Pending \<Longrightarrow> d \<in> D i \<Longrightarrow> \<not> is_unsuccessful (\<sigma> d)"
  using assms unfolding states_ok_def by blast+

lemma states_ok_dispatch:
  assumes "states_ok n D \<sigma>" "\<sigma> i = Pending" "\<And>d. d \<in> D i \<Longrightarrow> is_successful (\<sigma> d)"
  shows "states_ok n D (\<sigma>(i := Running))"
proof -
  have s: "is_successful ((\<sigma>(i := Running)) d) \<longleftrightarrow> is_successful (\<sigma> d)"
    "is_unsuccessful ((\<sigma>(i := Running)) d) \<longleftrightarrow> is_unsuccessful (\<sigma> d)" for d
    using assms(2) by (cases "d = i", simp_all)+
  show ?thesis
    using assms unfolding states_ok_def s by auto
qed

lemma states_ok_success:
  assumes "states_ok n D \<sigma>" "\<sigma> i = Running" "c = Succeeded \<or> c = Cached" "i < n"
  shows "states_ok n D (\<sigma>(i := c))"
proof -
  have s: "is_successful ((\<sigma>(i := c)) d) \<longleftrightarrow> is_successful (\<sigma> d) \<or> d = i"
    "is_unsuccessful ((\<sigma>(i := c)) d) \<longleftrightarrow> is_unsuccessful (\<sigma> d)" for d
    using assms(2,3) by (cases "d = i", auto)+
  show ?thesis
    using assms unfolding states_ok_def s by auto
qed

text \<open>A node whose dependencies all succeeded is out of reach of a failing, running node.\<close>

lemma cascade_step:
  assumes "j \<in> cascade g i"
  shows "\<exists>x. (x, j) \<in> edges g \<and> (x = i \<or> x \<in> cascade g i) \<and> j \<noteq> i \<and> \<not> is_terminal (st g j)"
  using assms unfolding cascade_def mem_Collect_eq by (cases rule: tranclE) auto

lemma cascade_next:
  assumes "x = i \<or> x \<in> cascade g i" "(x, j) \<in> edges g" "j \<noteq> i" "\<not> is_terminal (st g j)"
  shows "j \<in> cascade g i"
  using assms unfolding cascade_def by (auto intro: trancl_into_trancl)

lemma cascade_needs_unsuccessful_dep:
  assumes g: "shape_ok g" and "j \<in> cascade g i" "\<not> is_successful (st g i)"
  shows "\<exists>d \<in> set (deps g ! j). \<not> is_successful (st g d)"
proof -
  from cascade_step[OF assms(2)] obtain x where x: "(x, j) \<in> edges g" "x = i \<or> x \<in> cascade g i" by blast
  have "\<not> is_successful (st g x)"
    using x(2) assms(3) cascade_step[of x g i] by auto
  with x(1) g show ?thesis by (auto simp: edges_deps)
qed

lemma states_ok_fail:
  assumes g: "shape_ok g" and ok: "states_ok (len g) (\<lambda>j. set (deps g ! j)) (st g)"
    and i: "i < len g" "st g i = Running"
  shows "states_ok (len g) (\<lambda>j. set (deps g ! j))
    (\<lambda>j. if j = i then Failed else if j \<in> cascade g i then Cancelled else st g j)"
    (is "states_ok _ _ ?\<sigma>")
proof -
  have cas: "st g j \<notin> {Running, Succeeded, Cached, Failed}" if "j \<in> cascade g i" "j < len g" for j
  proof
    assume "st g j \<in> {Running, Succeeded, Cached, Failed}"
    then have "\<forall>d \<in> set (deps g ! j). is_successful (st g d)" using states_okD(3)[OF ok that(2)] by blast
    then show False using cascade_needs_unsuccessful_dep[OF g that(1)] i(2) by auto
  qed
  have keep: "?\<sigma> d = st g d" if "is_terminal (st g d)" for d
    using that i(2) cascade_step[of d g i] by auto
  show ?thesis
    unfolding states_ok_def
  proof (intro allI impI conjI ballI)
    fix j assume j: "j < len g"
    show "?\<sigma> j \<noteq> Ready" "?\<sigma> j \<noteq> Skipped" using states_okD(1,2)[OF ok j] by simp_all
    show "is_successful (?\<sigma> d)" if "?\<sigma> j \<in> {Running, Succeeded, Cached, Failed}" "d \<in> set (deps g ! j)" for d
    proof -
      have "st g j \<in> {Running, Succeeded, Cached, Failed}"
        using that(1) i(2) by (auto split: if_splits)
      then have "is_successful (st g d)" using states_okD(3)[OF ok j _ that(2)] by blast
      then show ?thesis using keep[of d] by simp
    qed
    show "\<exists>d \<in> set (deps g ! j). is_unsuccessful (?\<sigma> d)" if c: "?\<sigma> j = Cancelled"
    proof (cases "j \<in> cascade g i")
      case True
      then obtain x where "(x, j) \<in> edges g" "x = i \<or> x \<in> cascade g i" using cascade_step by blast
      then show ?thesis using g by (auto simp: edges_deps)
    next
      case False
      with c have "st g j = Cancelled" by (simp split: if_splits)
      then obtain d where "d \<in> set (deps g ! j)" "is_unsuccessful (st g d)"
        using states_okD(4)[OF ok j] by blast
      then show ?thesis using keep[of d] by (intro bexI[of _ d]) simp_all
    qed
    show "\<not> is_unsuccessful (?\<sigma> d)" if "?\<sigma> j = Pending" "d \<in> set (deps g ! j)" for d
    proof
      assume u: "is_unsuccessful (?\<sigma> d)"
      have j': "st g j = Pending" "j \<noteq> i" "j \<notin> cascade g i" using that(1) by (auto split: if_splits)
      then have "\<not> is_unsuccessful (st g d)" using states_okD(5)[OF ok j j'(1) that(2)] by simp
      with u have "d = i \<or> d \<in> cascade g i" by (auto split: if_splits)
      moreover have "(d, j) \<in> edges g" using that(2) j g by (simp add: edges_deps)
      ultimately show False using cascade_next[of d i g j] j' by simp
    qed
  qed
qed

definition finished :: "'a build_graph \<Rightarrow> nat set" where
  "finished g = {i. i < len g \<and> st g i \<in> {Succeeded, Cached, Failed}}"

definition can_start :: "'a build_graph \<Rightarrow> nat \<Rightarrow> bool" where
  "can_start g i \<longleftrightarrow> i < len g \<and> st g i = Pending \<and> (\<forall>d \<in> set (deps g ! i). is_successful (st g d))"

lemma states_ok_cong:
  assumes "states_ok n D \<sigma>" "\<And>i. i < n \<Longrightarrow> \<sigma>' i = \<sigma> i" "\<And>i. i < n \<Longrightarrow> D i \<subseteq> {..<n}"
  shows "states_ok n D \<sigma>'"
proof -
  have "\<sigma>' d = \<sigma> d" if "i < n" "d \<in> D i" for i d using that assms(2,3) by blast
  then show ?thesis
    using assms(1,2) unfolding states_ok_def by (metis (no_types, lifting))
qed

lemma set_state_graph:
  assumes "i < len g"
  obtains g' where "set_state i c g = Inr g'" "same_frame g g'"
    "\<And>j. j < len g \<Longrightarrow> st g' j = (if j = i then c else st g j)"
proof -
  obtain g' where "set_state i c g = Inr g'" using assms by (simp add: set_state_eq)
  then show thesis using that set_state_same_frame st_set_state by blast
qed

definition status_state :: "task_status \<Rightarrow> task_state" where
  "status_state c = (case c of Run_Executed \<Rightarrow> Succeeded | Run_Cached \<Rightarrow> Cached | Run_Failed \<Rightarrow> Failed)"

definition final_state :: "task_outcome \<Rightarrow> task_state" where
  "final_state r = status_state (status r)"

lemma final_state_cases: "final_state r \<in> {Succeeded, Cached, Failed}"
  by (simp add: final_state_def status_state_def split: task_status.splits)

definition completed_states :: "'a build_graph \<Rightarrow> nat \<Rightarrow> task_outcome \<Rightarrow> nat \<Rightarrow> task_state" where
  "completed_states g i r j =
     (if j = i then final_state r
      else if status r = Run_Failed \<and> j \<in> cascade g i then Cancelled else st g j)"

lemma completed_states_ok:
  assumes "shape_ok g" "states_ok (len g) (\<lambda>j. set (deps g ! j)) (st g)" "i < len g" "st g i = Running"
  shows "states_ok (len g) (\<lambda>j. set (deps g ! j)) (completed_states g i r)"
proof (cases "status r = Run_Failed")
  case True
  then have "completed_states g i r = (\<lambda>j. if j = i then Failed else if j \<in> cascade g i then Cancelled else st g j)"
    by (auto simp: completed_states_def final_state_def status_state_def fun_eq_iff)
  with states_ok_fail[OF assms] show ?thesis by simp
next
  case False
  then have "completed_states g i r = (st g)(i := final_state r)" "final_state r = Succeeded \<or> final_state r = Cached"
    by (auto simp: completed_states_def final_state_def status_state_def fun_eq_iff split: task_status.splits)
  with states_ok_success[OF assms(2,4) _ assms(3)] show ?thesis by simp
qed

text \<open>Failure propagation cancels pending nodes only, and none that could start.\<close>

lemma cascade_pending:
  assumes g: "shape_ok g" and ok: "states_ok (len g) (\<lambda>j. set (deps g ! j)) (st g)"
    and "st g i = Running" "j \<in> cascade g i"
  shows "st g j = Pending" "\<not> can_start g j" "j < len g"
proof -
  obtain d where d: "d \<in> set (deps g ! j)" "\<not> is_successful (st g d)"
    using cascade_needs_unsuccessful_dep[OF g assms(4)] assms(3) by auto
  from cascade_step[OF assms(4)] have j: "j < len g" "\<not> is_terminal (st g j)"
    using edges_bound[OF g] by auto
  then have "st g j \<noteq> Running" using states_okD(3)[OF ok j(1)] d by blast
  then show "st g j = Pending" using j(2) states_okD(1)[OF ok j(1)] by (cases "st g j") auto
  show "\<not> can_start g j" using d by (auto simp: can_start_def)
  show "j < len g" by (rule j(1))
qed

definition all_terminal :: "'a build_graph \<Rightarrow> bool" where
  "all_terminal g \<longleftrightarrow> (\<forall>i < len g. is_terminal (st g i))"

lemma all_terminal_iff: "list_all (\<lambda>nd. is_terminal (state nd)) (nodes g) \<longleftrightarrow> all_terminal g"
  by (simp add: all_terminal_def list_all_length)

subsection \<open>The invariant of a graph that is being executed\<close>

definition executing :: "'a build_graph \<Rightarrow> 'a build_graph \<Rightarrow> bool" where
  "executing g h \<longleftrightarrow> same_frame g h \<and> states_ok (len g) (\<lambda>i. set (deps g ! i)) (st h)"

definition running :: "'a build_graph \<Rightarrow> nat set" where
  "running g = {i. i < len g \<and> st g i = Running}"

definition failed_nodes :: "'a build_graph \<Rightarrow> nat set" where
  "failed_nodes g = {i. i < len g \<and> st g i = Failed}"

lemma finite_failed_nodes [simp]: "finite (failed_nodes g)"
  by (simp add: failed_nodes_def)

lemma finite_finished [simp]: "finite (finished g)"
  by (simp add: finished_def)

lemma card_finished_le: "card (finished g) \<le> len g"
  using card_mono[OF finite_lessThan, of "finished g" "len g"] by (auto simp: finished_def)

lemma executing_frame:
  assumes "executing g h" "wf_graph g"
  shows "wf_graph h" "shape_ok h" "len h = len g" "deps h = deps g" "edges h = edges g"
    "states_ok (len h) (\<lambda>i. set (deps h ! i)) (st h)" "same_frame g h"
proof -
  have f: "same_frame g h" using assms(1) by (simp add: executing_def)
  show "wf_graph h" "len h = len g" "edges h = edges g"
    using same_frame_wf[OF f assms(2)] same_frame_len[OF f] same_frame_edges[OF f] by simp_all
  then show "shape_ok h" by simp
  show "deps h = deps g" using f by (simp add: same_frame_def)
  with \<open>len h = len g\<close> show "states_ok (len h) (\<lambda>i. set (deps h ! i)) (st h)"
    using assms(1) by (simp add: executing_def)
qed (use assms in \<open>simp add: executing_def\<close>)

lemma executing_reset:
  assumes "wf_graph g"
  shows "executing g (reset_states g)" "finished (reset_states g) = {}"
    "running (reset_states g) = {}" "failed_nodes (reset_states g) = {}"
proof -
  have "same_frame g (reset_states g)"
    by (simp add: same_frame_def reset_states_def len_def del: length_nodes)
  moreover have "d < len g" if "i < len g" "d \<in> set (deps g ! i)" for i d
    using that assms shape_deps_bound[of g i d] by simp
  ultimately show "executing g (reset_states g)"
    by (simp add: states_ok_def executing_def)
qed (simp_all add: finished_def running_def failed_nodes_def)

lemma dispatch_effect:
  assumes h: "executing g h" and g: "wf_graph g" and i: "can_start h i"
    and h': "same_frame h h'" "\<And>j. j < len g \<Longrightarrow> st h' j = (if j = i then Running else st h j)"
  shows "executing g h'" "finished h' = finished h" "running h' = insert i (running h)"
    "failed_nodes h' = failed_nodes h" "i \<notin> running h"
    "\<And>j. can_start h j \<Longrightarrow> j \<noteq> i \<Longrightarrow> can_start h' j"
    "\<And>j. j \<in> finished h \<Longrightarrow> st h' j = st h j"
proof -
  note fr = executing_frame[OF h g]
  have i': "i < len g" "st h i = Pending" "\<And>d. d \<in> set (deps g ! i) \<Longrightarrow> is_successful (st h d)"
    using i fr(3,4) by (auto simp: can_start_def)
  have len': "len h' = len g" "deps h' = deps g" using h'(1) fr(3,4) by (simp_all add: same_frame_def)
  have bound: "d < len g" if "j < len g" "d \<in> set (deps g ! j)" for j d
    using shape_deps_bound[of g j d] that g by simp
  have "states_ok (len g) (\<lambda>i. set (deps g ! i)) (st h')"
  proof (rule states_ok_cong)
    show "states_ok (len g) (\<lambda>i. set (deps g ! i)) ((st h)(i := Running))"
      by (rule states_ok_dispatch) (use fr(3,4,6) i' in simp_all)
    show "st h' j = ((st h)(i := Running)) j" if "j < len g" for j using h'(2)[OF that] by simp
  qed (use bound in auto)
  then show "executing g h'"
    using same_frame_trans[OF fr(7) h'(1)] by (simp add: executing_def)
  show "finished h' = finished h" "failed_nodes h' = failed_nodes h" "running h' = insert i (running h)" "i \<notin> running h"
    using h'(2) i'(1,2) len'(1) fr(3) by (auto simp: finished_def failed_nodes_def running_def split: if_splits)
  show "st h' j = st h j" if "j \<in> finished h" for j
    using that h'(2)[of j] i'(2) fr(3) by (auto simp: finished_def)
  show "can_start h' j" if j: "can_start h j" "j \<noteq> i" for j
  proof -
    have "is_successful (st h' d)" if "d \<in> set (deps g ! j)" for d
      using j(1) that h'(2)[of d] bound[of j d] i'(2) fr(3,4) by (auto simp: can_start_def)
    then show ?thesis using j h'(2)[of j] len' fr(3,4) by (simp add: can_start_def)
  qed
qed

lemma completion_effect:
  assumes h: "executing g h" and g: "wf_graph g" and i: "i \<in> running h"
    and h': "same_frame h h'" "\<And>j. j < len g \<Longrightarrow> st h' j = completed_states h i r j"
  shows "executing g h'" "finished h' = insert i (finished h)" "running h' = running h - {i}"
    "i \<notin> finished h" "i \<notin> failed_nodes h"
    "failed_nodes h' = (if status r = Run_Failed then insert i (failed_nodes h) else failed_nodes h)"
    "\<And>j. can_start h j \<Longrightarrow> can_start h' j"
    "\<And>j. j \<in> finished h \<Longrightarrow> st h' j = st h j" "st h' i = final_state r"
proof -
  note fr = executing_frame[OF h g]
  have i': "i < len g" "st h i = Running" using i fr(3) by (simp_all add: running_def)
  note pending = cascade_pending[OF fr(2,6) i'(2)]
  have len': "len h' = len g" "deps h' = deps g" using h'(1) fr(3,4) by (simp_all add: same_frame_def)
  have cases: "completed_states h i r j =
      (if j = i then final_state r else if status r = Run_Failed \<and> j \<in> cascade h i then Cancelled else st h j)" for j
    by (simp add: completed_states_def)
  have "states_ok (len g) (\<lambda>i. set (deps g ! i)) (st h')"
  proof (rule states_ok_cong)
    show "states_ok (len g) (\<lambda>i. set (deps g ! i)) (completed_states h i r)"
      using completed_states_ok[of h i r] fr i' by simp
    show "set (deps g ! j) \<subseteq> {..<len g}" if "j < len g" for j
      using shape_deps_bound[of g j] that g by auto
  qed (use h'(2) in simp)
  then show "executing g h'"
    using same_frame_trans[OF fr(7) h'(1)] by (simp add: executing_def)
  show "finished h' = insert i (finished h)" "running h' = running h - {i}"
    "failed_nodes h' = (if status r = Run_Failed then insert i (failed_nodes h) else failed_nodes h)"
    using h'(2) pending(1) i' len'(1) fr(3)
    by (auto simp: finished_def running_def failed_nodes_def cases final_state_def status_state_def split: if_splits task_status.splits)
  show "i \<notin> finished h" "i \<notin> failed_nodes h" using i'(2) by (simp_all add: finished_def failed_nodes_def)
  show "st h' j = st h j" if "j \<in> finished h" for j
    using that h'(2)[of j] i'(2) fr(3) pending(1)[of j] by (auto simp: finished_def cases)
  show "st h' i = final_state r" using h'(2)[OF i'(1)] by (simp add: cases)
  show "can_start h' x" if x: "can_start h x" for x
  proof -
    have "is_successful (st h' y)" if "y \<in> set (deps g ! x)" for y
    proof -
      have y: "is_successful (st h y)" "y < len g"
        using x that fr(3,4) shape_deps_bound[of g x y] g by (auto simp: can_start_def)
      then have "y \<noteq> i" "y \<notin> cascade h i" using i'(2) pending(1)[of y] by auto
      with y h'(2)[of y] show ?thesis by (simp add: cases)
    qed
    moreover have "x \<noteq> i" "x \<notin> cascade h i" using x i'(2) pending(2)[of x] by (auto simp: can_start_def)
    ultimately show ?thesis using x h'(2)[of x] len' fr(3,4) by (simp add: can_start_def cases)
  qed
qed

lemma set_ready_can_start:
  "executing g h \<Longrightarrow> wf_graph g \<Longrightarrow> set (ready_nodes h) = {i. can_start h i}"
  using set_ready_nodes[of h] executing_frame[of g h] by (simp add: can_start_def)

lemma nothing_left:
  assumes h: "executing g h" and g: "wf_graph g"
    and idle: "running h = {}" and none: "ready_nodes h = []"
  shows "all_terminal h"
proof (rule ccontr)
  note fr = executing_frame[OF h g]
  assume "\<not> all_terminal h"
  then obtain x where "x < len g" "\<not> is_terminal (st h x)"
    using fr(3) by (auto simp: all_terminal_def)
  with bg.some_unblocked[OF g, of x "\<lambda>i. \<not> is_terminal (st h i)"] obtain y where
    y: "y < len g" "\<not> is_terminal (st h y)" "\<And>d. d \<in> set (deps g ! y) \<Longrightarrow> is_terminal (st h d)"
    using g by (auto simp: deps_or_empty_eq)
  note ok = fr(6)[unfolded fr(3,4)]
  have "st h y \<noteq> Running" using idle y(1) fr(3) by (auto simp: running_def)
  with y(2) states_okD(1)[OF ok y(1)] have p: "st h y = Pending" by (cases "st h y") auto
  have "is_successful (st h d)" if "d \<in> set (deps g ! y)" for d
    using states_okD(5)[OF ok y(1) p that] y(3)[OF that] by (simp add: terminal_iff)
  with y(1) p fr have "y \<in> set (ready_nodes h)" by (simp add: set_ready_nodes)
  with none show False by simp
qed

subsection \<open>The states at the end\<close>

lemma cancelled_iff_failed_ancestor:
  assumes g: "wf_graph g" and ok: "states_ok (len g) (\<lambda>i. set (deps g ! i)) \<sigma>"
    and all_term: "\<And>i. i < len g \<Longrightarrow> is_terminal (\<sigma> i)" and "j < len g"
  shows "\<sigma> j = Cancelled \<longleftrightarrow> (\<exists>x. \<sigma> x = Failed \<and> (x, j) \<in> (edges g)\<^sup>+)"
proof
  assume "\<sigma> j = Cancelled"
  then show "\<exists>x. \<sigma> x = Failed \<and> (x, j) \<in> (edges g)\<^sup>+"
    using assms(4)
  proof (induction j rule: wf_induct_rule[OF finite_acyclic_wf[OF finite_edges wf_acyclic[OF g]]])
    case 1
    show ?case using g by simp
  next
    case (2 j)
    then obtain d where d: "d \<in> set (deps g ! j)" "is_unsuccessful (\<sigma> d)"
      using states_okD(4)[OF ok] by blast
    then have e: "(d, j) \<in> edges g" "d < len g" using 2 g edges_bound[of g d j] by (auto simp: edges_deps)
    show ?case
    proof (cases "\<sigma> d = Failed")
      case False
      with d(2) have "\<sigma> d = Cancelled" by (cases "\<sigma> d") auto
      with 2 e show ?thesis by (blast intro: trancl_into_trancl)
    qed (use e in blast)
  qed
next
  assume "\<exists>x. \<sigma> x = Failed \<and> (x, j) \<in> (edges g)\<^sup>+"
  then obtain x where x: "\<sigma> x = Failed" "(x, j) \<in> (edges g)\<^sup>+" by blast
  have step: "\<sigma> z = Cancelled" if e: "(y, z) \<in> edges g" and u: "is_unsuccessful (\<sigma> y)" for y z
  proof -
    have z: "z < len g" "y \<in> set (deps g ! z)" using e g edges_bound[of g y z] by (auto simp: edges_deps)
    then have "\<sigma> z \<notin> {Running, Succeeded, Cached, Failed}" using states_okD(3)[OF ok] u successful_not_unsuccessful by blast
    with states_okD(1,2)[OF ok z(1)] all_term[OF z(1)] show ?thesis by (cases "\<sigma> z") auto
  qed
  from x(2) show "\<sigma> j = Cancelled"
    by (induction rule: trancl_induct) (use x(1) in \<open>auto intro: step\<close>)
qed

text \<open>The final states depend on the results of the tasks only, not on the order of events.\<close>

lemma final_states_determined:
  assumes g: "wf_graph g"
    and ok: "executing g h" "executing g h'" "all_terminal h" "all_terminal h'"
    and f: "\<And>j. j \<in> finished h \<Longrightarrow> st h j = f j" "\<And>j. j \<in> finished h' \<Longrightarrow> st h' j = f j"
    and "j < len g"
  shows "st h j = st h' j"
  using assms(8)
proof (induction j rule: wf_induct_rule[OF finite_acyclic_wf[OF finite_edges wf_acyclic[OF g]]])
  case 1
  show ?case using g by simp
next
  case (2 j)
  note fr = executing_frame[OF ok(1) g] and fr' = executing_frame[OF ok(2) g]
  have deps: "st h d = st h' d" if "d \<in> set (deps g ! j)" for d
    using 2 that g edges_bound[of g d j] by (auto simp: edges_deps)
  have final: "st k j = Cancelled \<or> j \<in> finished k \<and> (\<forall>d \<in> set (deps g ! j). is_successful (st k d))"
    "st k j = Cancelled \<Longrightarrow> \<exists>d \<in> set (deps g ! j). is_unsuccessful (st k d)"
    if k: "executing g k" "all_terminal k" for k
  proof -
    note F = executing_frame[OF k(1) g]
    note sok = states_okD[OF F(6)[unfolded F(3,4)] 2(2)]
    have "is_terminal (st k j)" using k(2) 2(2) F(3) by (simp add: all_terminal_def)
    then have "st k j = Cancelled \<or> st k j \<in> {Succeeded, Cached, Failed}"
      using sok(2) by (cases "st k j") auto
    then show "st k j = Cancelled \<or> j \<in> finished k \<and> (\<forall>d \<in> set (deps g ! j). is_successful (st k d))"
      using sok(3) 2(2) F(3) by (auto simp: finished_def)
    show "st k j = Cancelled \<Longrightarrow> \<exists>d \<in> set (deps g ! j). is_unsuccessful (st k d)" by (rule sok(4))
  qed
  have "st h j = Cancelled \<longleftrightarrow> st h' j = Cancelled"
    using final[OF ok(1,3)] final[OF ok(2,4)] deps by (metis successful_not_unsuccessful)
  then show ?case
    using final(1)[OF ok(1,3)] final(1)[OF ok(2,4)] f by metis
qed

end
