(* ===== verification/Scheduler.thy ===== *)
theory Scheduler
  imports Run_States "HOL-Library.Multiset"
begin

text \<open>
  The scheduler of \<open>fish-scheduler/src/lib.rs\<close>: \<open>Scheduler::run\<close> with \<open>process_completion\<close>
  and the summary.

  The worker threads and the two channels are the environment. A task that was dispatched and
  whose result has not been received is an entry of \<open>sent\<close>; a worker catches the panics of
  its executor, so every entry is answered exactly once, in any order and with any outcome.
  One round of the loop takes from the environment the clock, whether memory is short, the
  answer that ends the blocking \<open>recv\<close>, and the answers that \<open>try_recv\<close> still finds. An
  answer picks an entry of \<open>sent\<close> by position, modulo the length, so any numbers describe a
  possible behaviour and every behaviour has such a description.

  Results are \<open>None\<close> for a panic (or for a \<open>recv\<close> that nobody will answer), \<open>Some (Inl e)\<close> for an \<open>Err\<close>, \<open>Some (Inr s)\<close> for \<open>Ok\<close>.
\<close>

datatype sched_error = InvalidGraph graph_error | Stalled

record failure_record =
  f_label :: string
  f_description :: string
  f_stdout :: string
  f_stderr :: string

record scheduler =
  workers :: nat
  use_critical_path :: bool
  ram_threshold :: "nat option"
  ram_floor :: nat

definition new_scheduler :: "nat \<Rightarrow> scheduler" where
  "new_scheduler n = \<lparr>workers = max n 1, use_critical_path = True, ram_threshold = None, ram_floor = 1\<rparr>"

definition with_critical_path_priority :: "bool \<Rightarrow> scheduler \<Rightarrow> scheduler" where
  "with_critical_path_priority enabled s = s\<lparr>use_critical_path := enabled\<rparr>"

definition with_ram_backpressure :: "nat \<Rightarrow> nat \<Rightarrow> scheduler \<Rightarrow> scheduler" where
  "with_ram_backpressure threshold_percent floor s =
     s\<lparr>ram_threshold := Some (min threshold_percent 100), ram_floor := max floor 1\<rparr>"

record run_state =
  graph :: "task build_graph"
  in_flight :: nat
  failures :: "failure_record list"
  timings :: "task_timing list"
  free_workers :: "nat list"
  ready :: "nat list"
  ready_index :: nat
  sent :: "(nat \<times> nat \<times> nat) list"
  progress :: "(string \<times> task_outcome) list"

record round_input =
  now :: nat
  ram_limited :: bool
  first_answer :: "nat \<times> task_outcome"
  more_answers :: "(nat \<times> task_outcome) list"

text \<open>\<open>?\<close> on a result that may also panic.\<close>

definition and_then :: "('e + 'a) option \<Rightarrow> ('a \<Rightarrow> ('e + 'b) option) \<Rightarrow> ('e + 'b) option" where
  "and_then r f = (case r of None \<Rightarrow> None | Some (Inl e) \<Rightarrow> Some (Inl e) | Some (Inr a) \<Rightarrow> f a)"

lemma and_then_simps [simp]:
  "and_then None f = None" "and_then (Some (Inl e)) f = Some (Inl e)" "and_then (Some (Inr a)) f = f a"
  by (simp_all add: and_then_def)

lemma and_then_cong [fundef_cong]:
  "r = r' \<Longrightarrow> (\<And>a. r' = Some (Inr a) \<Longrightarrow> f a = f' a) \<Longrightarrow> and_then r f = and_then r' f'"
  by (simp add: and_then_def split: option.splits sum.splits)

subsection \<open>One completion\<close>

definition process_completion ::
  "nat \<Rightarrow> task_outcome \<Rightarrow> nat \<Rightarrow> nat \<Rightarrow> run_state \<Rightarrow> (sched_error + run_state) option" where
  "process_completion i outcome worker offset s =
     (if in_flight s = 0 then None
      else
        let task = map_option payload (get_node (graph s) i);
            s1 = s\<lparr>in_flight := in_flight s - 1,
                   timings := (case task of None \<Rightarrow> timings s
                     | Some t \<Rightarrow> timings s @ [\<lparr>t_label = label t, t_description = description t,
                         start_offset = offset, t_duration = duration outcome, t_node_id = i,
                         worker_id = worker, t_status = status outcome\<rparr>])\<rparr>;
            stepped =
              (case status outcome of
                 Run_Executed \<Rightarrow> map_sum InvalidGraph (\<lambda>g. s1\<lparr>graph := g\<rparr>) (set_state i Succeeded (graph s1))
               | Run_Cached \<Rightarrow> map_sum InvalidGraph (\<lambda>g. s1\<lparr>graph := g\<rparr>) (set_state i Cached (graph s1))
               | Run_Failed \<Rightarrow>
                   (case mark_failed i (graph s1) of
                      (Inl e, g) \<Rightarrow> Inl (InvalidGraph e)
                    | (Inr _, g) \<Rightarrow>
                        Inr (s1\<lparr>graph := g,
                                failures := (case task of None \<Rightarrow> failures s1
                                  | Some t \<Rightarrow> failures s1 @ [\<lparr>f_label = label t, f_description = description t,
                                      f_stdout = stdout outcome, f_stderr = stderr outcome\<rparr>])\<rparr>)))
        in Some (map_sum (\<lambda>e. e)
             (\<lambda>s2. case task of None \<Rightarrow> s2
                | Some t \<Rightarrow> s2\<lparr>progress := progress s2 @ [(label t, outcome)]\<rparr>) stepped))"

text \<open>The receiver's end of the channel: an answer to one of the tasks sent.\<close>

definition receive :: "nat \<times> task_outcome \<Rightarrow> run_state \<Rightarrow> (sched_error + run_state) option" where
  "receive = (\<lambda>(k, outcome) s.
     let j = k mod length (sent s)
     in case sent s ! j of
          (i, worker, offset) \<Rightarrow>
            process_completion i outcome worker offset
              (s\<lparr>sent := take j (sent s) @ drop (Suc j) (sent s),
                 free_workers := free_workers s @ [worker]\<rparr>))"

fun receive_more :: "(nat \<times> task_outcome) list \<Rightarrow> run_state \<Rightarrow> (sched_error + run_state) option" where
  "receive_more [] s = Some (Inr s)"
| "receive_more (a # as) s =
     (if sent s = [] then Some (Inr s) else and_then (receive a s) (receive_more as))"

subsection \<open>Dispatch\<close>

definition sort_ready :: "scheduler \<Rightarrow> nat list \<Rightarrow> nat list \<Rightarrow> nat list option" where
  "sort_ready cfg tail ids =
     (if \<not> use_critical_path cfg then Some ids
      else if list_all (\<lambda>i. i < length tail) ids
      then Some (sort_key (\<lambda>i. - int (tail ! i)) ids)
      else None)"

definition refresh_ready :: "scheduler \<Rightarrow> nat list \<Rightarrow> run_state \<Rightarrow> run_state option" where
  "refresh_ready cfg tail s =
     (if length (ready s) \<le> ready_index s
      then map_option (\<lambda>r. s\<lparr>ready := r, ready_index := 0\<rparr>) (sort_ready cfg tail (ready_nodes (graph s)))
      else Some s)"

definition effective_workers :: "scheduler \<Rightarrow> bool \<Rightarrow> nat" where
  "effective_workers cfg limited =
     (case ram_threshold cfg of
        None \<Rightarrow> workers cfg
      | Some _ \<Rightarrow> if limited then min (ram_floor cfg) (workers cfg) else workers cfg)"

definition dispatch_one :: "nat \<Rightarrow> run_state \<Rightarrow> (sched_error + run_state) option" where
  "dispatch_one offset s =
     (let i = ready s ! ready_index s
      in case set_state i Running (graph s) of
           Inl e \<Rightarrow> Some (Inl (InvalidGraph e))
         | Inr g \<Rightarrow>
             if Option.is_none (get_node g i) then None
             else
               let worker = (if free_workers s = [] then 0 else last (free_workers s))
               in Some (Inr (s\<lparr>graph := g, ready_index := Suc (ready_index s),
                              in_flight := Suc (in_flight s),
                              free_workers := butlast (free_workers s),
                              sent := sent s @ [(i, worker, offset)]\<rparr>)))"

lemma dispatch_one_in_flight: "dispatch_one offset s = Some (Inr s') \<Longrightarrow> in_flight s' = Suc (in_flight s)"
  by (auto simp: dispatch_one_def Let_def split: sum.splits if_splits)

function dispatch_loop :: "nat \<Rightarrow> nat \<Rightarrow> run_state \<Rightarrow> (sched_error + run_state) option" where
  "dispatch_loop limit offset s =
     (if in_flight s < limit \<and> ready_index s < length (ready s)
      then and_then (dispatch_one offset s) (dispatch_loop limit offset)
      else Some (Inr s))"
  by pat_completeness auto
termination dispatch_loop
  by (relation "measure (\<lambda>(limit, offset, s). limit - in_flight s)")
     (auto dest!: dispatch_one_in_flight)

declare dispatch_loop.simps [simp del]

subsection \<open>The main loop\<close>

datatype 'a step_result = Continue 'a | Done 'a

definition run_round ::
  "scheduler \<Rightarrow> nat list \<Rightarrow> round_input \<Rightarrow> run_state \<Rightarrow> (sched_error + run_state step_result) option" where
  "run_round cfg tail inp s =
     (case refresh_ready cfg tail s of
        None \<Rightarrow> None
      | Some s1 \<Rightarrow>
          and_then (dispatch_loop (effective_workers cfg (ram_limited inp)) (now inp) s1)
            (\<lambda>s2.
               if list_all (\<lambda>nd. is_terminal (state nd)) (nodes (graph s2)) then Some (Inr (Done s2))
               else if in_flight s2 = 0 then Some (Inl Stalled)
               else if sent s2 = [] then None
               else and_then (receive (first_answer inp) s2)
                      (\<lambda>s3. and_then (receive_more (more_answers inp) s3) (\<lambda>s4. Some (Inr (Continue s4))))))"

text \<open>The outer option of \<open>run_rounds\<close> is also \<open>None\<close> when the fuel is used up.\<close>

fun run_rounds ::
  "nat \<Rightarrow> scheduler \<Rightarrow> nat list \<Rightarrow> (nat \<Rightarrow> round_input) \<Rightarrow> run_state \<Rightarrow> (sched_error + run_state) option" where
  "run_rounds 0 cfg tail inp s = None"
| "run_rounds (Suc fuel) cfg tail inp s =
     and_then (run_round cfg tail (inp 0) s)
       (\<lambda>r. case r of
          Done s' \<Rightarrow> Some (Inr s')
        | Continue s' \<Rightarrow> run_rounds fuel cfg tail (\<lambda>n. inp (Suc n)) s')"

definition initial_state :: "scheduler \<Rightarrow> task build_graph \<Rightarrow> run_state" where
  "initial_state cfg g =
     \<lparr>graph = reset_states g, in_flight = 0, failures = [], timings = [],
      free_workers = rev [0..<workers cfg], ready = [], ready_index = 0, sent = [], progress = []\<rparr>"

subsection \<open>The summary\<close>

record build_summary =
  total :: nat
  executed :: nat
  cached :: nat
  failed :: nat
  cancelled :: nat
  worker_count :: nat
  summary_failures :: "failure_record list"
  summary_timings :: "task_timing list"

definition from_graph ::
  "task build_graph \<Rightarrow> nat \<Rightarrow> failure_record list \<Rightarrow> task_timing list \<Rightarrow> build_summary" where
  "from_graph g w fs ts =
     foldl (\<lambda>b nd. case state nd of
         Succeeded \<Rightarrow> b\<lparr>executed := Suc (executed b)\<rparr>
       | Cached \<Rightarrow> b\<lparr>cached := Suc (cached b)\<rparr>
       | Failed \<Rightarrow> b\<lparr>failed := Suc (failed b)\<rparr>
       | Cancelled \<Rightarrow> b\<lparr>cancelled := Suc (cancelled b)\<rparr>
       | _ \<Rightarrow> b)
       \<lparr>total = len g, executed = 0, cached = 0, failed = 0, cancelled = 0, worker_count = w,
        summary_failures = fs, summary_timings = ts\<rparr>
       (nodes g)"

definition succeeded :: "build_summary \<Rightarrow> bool" where
  "succeeded b \<longleftrightarrow> failed b = 0"

definition run_build ::
  "nat \<Rightarrow> scheduler \<Rightarrow> (nat \<Rightarrow> round_input) \<Rightarrow> task build_graph \<Rightarrow>
     (sched_error + (run_state \<times> build_summary)) option" where
  "run_build fuel cfg inp g =
     (case validate g of
        None \<Rightarrow> None
      | Some (Inl e) \<Rightarrow> Some (Inl (InvalidGraph e))
      | Some (Inr _) \<Rightarrow>
          (case critical_path_tails (reset_states g) of
             None \<Rightarrow> None
           | Some tail \<Rightarrow>
               and_then (run_rounds fuel cfg tail inp (initial_state cfg g))
                 (\<lambda>s. Some (Inr (s, from_graph (graph s) (workers cfg) (failures s) (timings s))))))"

subsection \<open>The invariant of the run\<close>

definition sched_inv :: "scheduler \<Rightarrow> task build_graph \<Rightarrow> run_state \<Rightarrow> bool" where
  "sched_inv cfg g s \<longleftrightarrow>
     executing g (graph s) \<and>
     in_flight s = length (sent s) \<and>
     distinct (map fst (sent s)) \<and>
     set (map fst (sent s)) = running (graph s) \<and>
     mset (free_workers s) + mset (map (fst \<circ> snd) (sent s)) = mset [0..<workers cfg] \<and>
     distinct (drop (ready_index s) (ready s)) \<and>
     (\<forall>i \<in> set (drop (ready_index s) (ready s)). can_start (graph s) i) \<and>
     distinct (map t_node_id (timings s)) \<and>
     set (map t_node_id (timings s)) = finished (graph s) \<and>
     length (failures s) = card (failed_nodes (graph s)) \<and>
     (\<forall>tm \<in> set (timings s). st (graph s) (t_node_id tm) = status_state (t_status tm))"

lemma sched_invD:
  assumes "sched_inv cfg g s"
  shows "executing g (graph s)"
    "in_flight s = length (sent s)" "distinct (map fst (sent s))"
    "set (map fst (sent s)) = running (graph s)"
    "mset (free_workers s) + mset (map (fst \<circ> snd) (sent s)) = mset [0..<workers cfg]"
    "distinct (drop (ready_index s) (ready s))"
    "\<And>i. i \<in> set (drop (ready_index s) (ready s)) \<Longrightarrow> can_start (graph s) i"
    "distinct (map t_node_id (timings s))" "set (map t_node_id (timings s)) = finished (graph s)"
    "length (failures s) = card (failed_nodes (graph s))"
    "\<And>tm. tm \<in> set (timings s) \<Longrightarrow> st (graph s) (t_node_id tm) = status_state (t_status tm)"
  using assms unfolding sched_inv_def by blast+

lemmas sched_inv_frame = executing_frame[OF sched_invD(1)]

lemma free_and_busy:
  assumes "sched_inv cfg g s"
  shows "length (free_workers s) + in_flight s = workers cfg"
    "distinct (map (fst \<circ> snd) (sent s))" "set (map (fst \<circ> snd) (sent s)) \<subseteq> {..<workers cfg}"
proof -
  have m: "mset (free_workers s @ map (fst \<circ> snd) (sent s)) = mset [0..<workers cfg]"
    using sched_invD(5)[OF assms] by simp
  show "length (free_workers s) + in_flight s = workers cfg"
    using arg_cong[OF m, of size] sched_invD(2)[OF assms] by simp
  have "distinct (free_workers s @ map (fst \<circ> snd) (sent s))"
    using mset_eq_imp_distinct_iff[OF m] by simp
  then show "distinct (map (fst \<circ> snd) (sent s))" by simp
  have "set (free_workers s @ map (fst \<circ> snd) (sent s)) = set [0..<workers cfg]"
    using mset_eq_setD[OF m] .
  then show "set (map (fst \<circ> snd) (sent s)) \<subseteq> {..<workers cfg}"
    by (metis Un_upper2 atLeast_upt set_append)
qed

lemma refresh_ready_inv:
  assumes inv: "sched_inv cfg g s" and g: "wf_graph g" and tail: "length tail = len g"
  obtains s' where "refresh_ready cfg tail s = Some s'" "sched_inv cfg g s'"
    "graph s' = graph s" "in_flight s' = in_flight s" "timings s' = timings s"
    "ready_index s' < length (ready s') \<or> ready_nodes (graph s) = []"
proof (cases "length (ready s) \<le> ready_index s")
  case False
  then show thesis using that[of s] inv by (simp add: refresh_ready_def)
next
  case True
  note fr = sched_inv_frame[OF inv g]
  note rn = set_ready_can_start[OF sched_invD(1)[OF inv] g]
  obtain r where r: "sort_ready cfg tail (ready_nodes (graph s)) = Some r"
    "set r = set (ready_nodes (graph s))" "distinct r" "length r = length (ready_nodes (graph s))"
  proof -
    have "list_all (\<lambda>i. i < length tail) (ready_nodes (graph s))"
      using rn tail fr(3) by (auto simp: list_all_iff can_start_def)
    then show thesis
      using that distinct_ready_nodes[OF fr(2)] by (cases "use_critical_path cfg") (simp_all add: sort_ready_def)
  qed
  let ?s = "s\<lparr>ready := r, ready_index := 0\<rparr>"
  have "refresh_ready cfg tail s = Some ?s" using True r(1) by (simp add: refresh_ready_def)
  moreover have "sched_inv cfg g ?s"
    using inv r(2,3) rn unfolding sched_inv_def by simp
  moreover have "0 < length r \<or> ready_nodes (graph s) = []" using r(4) by auto
  ultimately show thesis using that[of ?s] by simp
qed

lemma dispatch_one_inv:
  assumes inv: "sched_inv cfg g s" and g: "wf_graph g"
    and more: "ready_index s < length (ready s)" and room: "in_flight s < workers cfg"
  obtains s' where "dispatch_one offset s = Some (Inr s')" "sched_inv cfg g s'"
    "ready s' = ready s" "ready_index s' = Suc (ready_index s)" "in_flight s' = Suc (in_flight s)"
    "timings s' = timings s" "finished (graph s') = finished (graph s)"
proof -
  note fr = sched_inv_frame[OF inv g] and I = sched_invD[OF inv]
  define i where "i = ready s ! ready_index s"
  have drop: "drop (ready_index s) (ready s) = i # drop (Suc (ready_index s)) (ready s)"
    using more by (simp add: i_def Cons_nth_drop_Suc)
  then have c: "can_start (graph s) i" using I(7)[of i] by simp
  then have i: "i < len g" using fr(3) by (simp add: can_start_def)
  obtain g' where g': "set_state i Running (graph s) = Inr g'" "same_frame (graph s) g'"
    "\<And>j. j < len g \<Longrightarrow> st g' j = (if j = i then Running else st (graph s) j)"
    using set_state_graph[of i "graph s" Running] i fr(3) by metis
  note E = dispatch_effect[OF I(1) g c g'(2,3)]
  have free: "free_workers s \<noteq> []" using free_and_busy(1)[OF inv] room by auto
  let ?w = "last (free_workers s)"
  let ?s = "s\<lparr>graph := g', ready_index := Suc (ready_index s), in_flight := Suc (in_flight s),
              free_workers := butlast (free_workers s), sent := sent s @ [(i, ?w, offset)]\<rparr>"
  have "len g' = len g" using g'(2) fr(3) by (simp add: same_frame_def)
  then have run: "dispatch_one offset s = Some (Inr ?s)"
    using g'(1) i free unfolding dispatch_one_def Let_def i_def[symmetric] by simp
  have d: "distinct (map fst (sent s @ [(i, ?w, offset)]))" using I(3,4) E(5) by simp
  have e: "set (map fst (sent s @ [(i, ?w, offset)])) = running g'" using I(4) E(3) by simp
  have w: "mset (butlast (free_workers s)) + mset (map (fst \<circ> snd) (sent s @ [(i, ?w, offset)])) = mset [0..<workers cfg]"
  proof -
    have "mset (free_workers s) = mset (butlast (free_workers s) @ [?w])" using free by simp
    with I(5) show ?thesis by simp
  qed
  have c': "can_start g' j" if "j \<in> set (drop (Suc (ready_index s)) (ready s))" for j
    using E(6) I(6,7) that drop by auto
  have "st g' (t_node_id tm) = status_state (t_status tm)" if "tm \<in> set (timings s)" for tm
    using E(7)[of "t_node_id tm"] I(9,11) that by (metis image_eqI list.set_map)
  then have "sched_inv cfg g ?s"
    using E(1,2,4) I(2,6,8-10) d e w c' drop unfolding sched_inv_def by simp
  then show thesis using that[OF run] E(2) by simp
qed

lemma process_completion_eq:
  assumes g: "shape_ok (graph s)" and i: "i < len (graph s)" and busy: "in_flight s \<noteq> 0"
  obtains g' fs ps tm where
    "process_completion i r w off s =
       Some (Inr (s\<lparr>graph := g', in_flight := in_flight s - 1, timings := timings s @ [tm],
                  failures := failures s @ fs, progress := progress s @ ps\<rparr>))"
    "same_frame (graph s) g'" "\<And>j. j < len (graph s) \<Longrightarrow> st g' j = completed_states (graph s) i r j"
    "t_node_id tm = i" "worker_id tm = w" "t_status tm = status r"
    "length fs = (if status r = Run_Failed then 1 else 0)"
    "ps = [(label (payload (nodes (graph s) ! i)), r)]" "t_label tm = label (payload (nodes (graph s) ! i))"
    "t_duration tm = duration r"
    "map (\<lambda>f. (f_label f, f_stdout f, f_stderr f)) fs =
       (if status r = Run_Failed then [(label (payload (nodes (graph s) ! i)), stdout r, stderr r)] else [])"
proof (cases "status r = Run_Failed")
  case True
  obtain g' where g': "mark_failed i (graph s) = (Inr (), g')" "same_frame (graph s) g'"
    "\<And>j. j < len (graph s) \<Longrightarrow>
       st g' j = (if j = i then Failed else if j \<in> cascade (graph s) i then Cancelled else st (graph s) j)"
    using mark_failed_spec[OF g i] by blast
  let ?t = "payload (nodes (graph s) ! i)"
  let ?tm = "\<lparr>t_label = label ?t, t_description = description ?t, start_offset = off,
     t_duration = duration r, t_node_id = i, worker_id = w, t_status = status r\<rparr>"
  let ?f = "\<lparr>f_label = label ?t, f_description = description ?t, f_stdout = stdout r, f_stderr = stderr r\<rparr>"
  have "process_completion i r w off s =
       Some (Inr (s\<lparr>graph := g', in_flight := in_flight s - 1, timings := timings s @ [?tm],
                  failures := failures s @ [?f], progress := progress s @ [(label ?t, r)]\<rparr>))"
    using True i busy g'(1) by (simp add: process_completion_def Let_def)
  then show thesis
    by (rule that[OF _ g'(2)]) (use True g'(3) in \<open>simp_all add: completed_states_def final_state_def status_state_def\<close>)
next
  case False
  obtain g' where g': "set_state i (final_state r) (graph s) = Inr g'" "same_frame (graph s) g'"
    "\<And>j. j < len (graph s) \<Longrightarrow> st g' j = (if j = i then final_state r else st (graph s) j)"
    using set_state_graph[OF i, of "final_state r"] by metis
  let ?t = "payload (nodes (graph s) ! i)"
  let ?tm = "\<lparr>t_label = label ?t, t_description = description ?t, start_offset = off,
     t_duration = duration r, t_node_id = i, worker_id = w, t_status = status r\<rparr>"
  have "process_completion i r w off s =
       Some (Inr (s\<lparr>graph := g', in_flight := in_flight s - 1, timings := timings s @ [?tm],
                  failures := failures s @ [], progress := progress s @ [(label ?t, r)]\<rparr>))"
    using False i busy g'(1)
    by (cases "status r") (simp_all add: process_completion_def Let_def final_state_def status_state_def)
  then show thesis
    by (rule that[OF _ g'(2)]) (use False g'(3) in \<open>simp_all add: completed_states_def\<close>)
qed

lemma receive_inv:
  assumes inv: "sched_inv cfg g s" and g: "wf_graph g" and busy: "sent s \<noteq> []"
  obtains s' i where "receive a s = Some (Inr s')" "sched_inv cfg g s'"
    "i < len g" "i \<notin> finished (graph s)" "finished (graph s') = insert i (finished (graph s))"
    "in_flight s = Suc (in_flight s')"
proof -
  note fr = sched_inv_frame[OF inv g] and I = sched_invD[OF inv]
  obtain k r where a: "a = (k, r)" by fastforce
  define j where "j = k mod length (sent s)"
  have j: "j < length (sent s)" using busy by (simp add: j_def)
  obtain i w off where e: "sent s ! j = (i, w, off)" by (cases "sent s ! j") auto
  define xs where "xs = take j (sent s)"
  define ys where "ys = drop (Suc j) (sent s)"
  have split: "sent s = xs @ (i, w, off) # ys"
    using id_take_nth_drop[OF j] e by (simp add: xs_def ys_def)
  let ?s0 = "s\<lparr>sent := xs @ ys, free_workers := free_workers s @ [w]\<rparr>"
  have run: "i \<in> running (graph s)" using I(4) split by auto
  then have i: "i < len g" using fr(3) by (simp add: running_def)
  have busy0: "in_flight ?s0 \<noteq> 0" using I(2) split by simp
  obtain g' fs ps tm where pc: "process_completion i r w off ?s0 =
       Some (Inr (?s0\<lparr>graph := g', in_flight := in_flight ?s0 - 1, timings := timings ?s0 @ [tm],
                  failures := failures ?s0 @ fs, progress := progress ?s0 @ ps\<rparr>))"
    "same_frame (graph s) g'" "\<And>j. j < len g \<Longrightarrow> st g' j = completed_states (graph s) i r j"
    "t_node_id tm = i" "length fs = (if status r = Run_Failed then 1 else 0)" "t_status tm = status r"
    by (rule process_completion_eq[of ?s0 i r w off]) (use fr i busy0 in auto)
  note E = completion_effect[OF I(1) g run pc(2,3)]
  let ?s = "?s0\<lparr>graph := g', in_flight := in_flight ?s0 - 1, timings := timings ?s0 @ [tm],
                failures := failures ?s0 @ fs, progress := progress ?s0 @ ps\<rparr>"
  have recv: "receive a s = Some (Inr ?s)"
    using pc(1) e by (simp add: receive_def a Let_def j_def[symmetric] xs_def ys_def)
  have "distinct (map fst (xs @ ys))" "set (map fst (xs @ ys)) = set (map fst (sent s)) - {i}"
    using I(3) unfolding split by auto
  then have d: "distinct (map fst (xs @ ys))" "set (map fst (xs @ ys)) = running g'"
    using I(4) E(3) by simp_all
  have work: "mset (free_workers s @ [w]) + mset (map (fst \<circ> snd) (xs @ ys)) = mset [0..<workers cfg]"
    using I(5) split by (simp add: ac_simps)
  have fails: "length (failures s @ fs) = card (failed_nodes g')"
    using I(10) pc(5) E(5,6) by simp
  have "distinct (map t_node_id (timings s @ [tm]))" "set (map t_node_id (timings s @ [tm])) = finished g'"
    using I(8,9) E(2,4) pc(4) by auto
  moreover have "st g' (t_node_id x) = status_state (t_status x)" if "x \<in> set (timings s @ [tm])" for x
  proof (cases "x = tm")
    case False
    with that have "x \<in> set (timings s)" by simp
    then show ?thesis using E(8)[of "t_node_id x"] I(9,11) by (metis image_eqI list.set_map)
  qed (use E(9) pc(4,6) in \<open>simp add: final_state_def\<close>)
  ultimately have "sched_inv cfg g ?s"
    using E(1,7) d work I(2,6,7) fails split unfolding sched_inv_def by simp
  then show thesis using that[OF recv _ i E(4)] E(2) I(2) split by simp
qed

subsection \<open>Rounds make progress\<close>

lemma dispatch_loop_inv:
  assumes "sched_inv cfg g s" "wf_graph g" "limit \<le> workers cfg"
  shows "\<exists>s'. dispatch_loop limit off s = Some (Inr s') \<and> sched_inv cfg g s' \<and>
    finished (graph s') = finished (graph s) \<and> in_flight s \<le> in_flight s' \<and>
    in_flight s' \<le> max limit (in_flight s) \<and>
    (if in_flight s < limit \<and> ready_index s < length (ready s) then in_flight s < in_flight s' else s' = s)"
  using assms
proof (induction limit off s rule: dispatch_loop.induct)
  case (1 limit off s)
  show ?case
  proof (cases "in_flight s < limit \<and> ready_index s < length (ready s)")
    case False
    then show ?thesis using "1.prems"(1) by (subst dispatch_loop.simps) auto
  next
    case True
    with "1.prems"(3) have room: "in_flight s < workers cfg" by simp
    obtain s1 where s1: "dispatch_one off s = Some (Inr s1)" "sched_inv cfg g s1"
      "in_flight s1 = Suc (in_flight s)" "finished (graph s1) = finished (graph s)"
      using dispatch_one_inv[OF "1.prems"(1,2) _ room] True by metis
    obtain s' where s': "dispatch_loop limit off s1 = Some (Inr s')" "sched_inv cfg g s'"
      "finished (graph s') = finished (graph s1)" "in_flight s1 \<le> in_flight s'"
      "in_flight s' \<le> max limit (in_flight s1)"
      using "1.IH"[OF True s1(1) s1(2) "1.prems"(2,3)] by blast
    have "dispatch_loop limit off s = Some (Inr s')"
      using True s1(1) s'(1) by (subst dispatch_loop.simps) simp
    then show ?thesis using True s' s1(3,4) by (intro exI[of _ s']) auto
  qed
qed

lemma receive_more_inv:
  assumes "sched_inv cfg g s" "wf_graph g"
  shows "\<exists>s'. receive_more as s = Some (Inr s') \<and> sched_inv cfg g s' \<and>
    finished (graph s) \<subseteq> finished (graph s')"
  using assms(1)
proof (induction "as" arbitrary: s)
  case (Cons a "as")
  show ?case
  proof (cases "sent s = []")
    case False
    obtain s1 where s1: "receive a s = Some (Inr s1)" "sched_inv cfg g s1"
      "finished (graph s) \<subseteq> finished (graph s1)"
      using receive_inv[OF Cons.prems assms(2) False] by (metis subset_insertI)
    with Cons.IH[OF s1(2)] False show ?thesis by auto
  qed (use Cons.prems in auto)
qed auto

text \<open>The scheduler never stalls: with nothing running and nothing ready, all is done.\<close>

lemma no_stall:
  assumes inv: "sched_inv cfg g s" and g: "wf_graph g"
    and idle: "in_flight s = 0" and none: "ready_nodes (graph s) = []"
  shows "all_terminal (graph s)"
proof (rule nothing_left[OF sched_invD(1)[OF inv] g _ none])
  show "running (graph s) = {}" using sched_invD(2,4)[OF inv] idle by simp
qed

definition scheduler_ok :: "scheduler \<Rightarrow> bool" where
  "scheduler_ok cfg \<longleftrightarrow> 1 \<le> workers cfg \<and> 1 \<le> ram_floor cfg"

lemma scheduler_ok_new [simp]: "scheduler_ok (new_scheduler n)"
  by (simp add: scheduler_ok_def new_scheduler_def)

lemma scheduler_ok_with [simp]:
  "scheduler_ok cfg \<Longrightarrow> scheduler_ok (with_critical_path_priority b cfg)"
  "scheduler_ok cfg \<Longrightarrow> scheduler_ok (with_ram_backpressure t f cfg)"
  by (simp_all add: scheduler_ok_def with_critical_path_priority_def with_ram_backpressure_def)

lemma effective_workers_bounds:
  "scheduler_ok cfg \<Longrightarrow> 1 \<le> effective_workers cfg b \<and> effective_workers cfg b \<le> workers cfg"
  by (auto simp: effective_workers_def scheduler_ok_def split: option.splits)

lemma run_round_inv:
  assumes inv: "sched_inv cfg g s" and g: "wf_graph g" and cfg: "scheduler_ok cfg"
    and tail: "length tail = len g"
  shows "(\<exists>s'. run_round cfg tail inp s = Some (Inr (Done s')) \<and> sched_inv cfg g s' \<and> all_terminal (graph s')) \<or>
    (\<exists>s'. run_round cfg tail inp s = Some (Inr (Continue s')) \<and> sched_inv cfg g s' \<and>
       finished (graph s) \<subset> finished (graph s'))"
proof -
  let ?limit = "effective_workers cfg (ram_limited inp)"
  obtain s1 where s1: "refresh_ready cfg tail s = Some s1" "sched_inv cfg g s1"
    "graph s1 = graph s" "ready_index s1 < length (ready s1) \<or> ready_nodes (graph s) = []"
    using refresh_ready_inv[OF inv g tail] by metis
  obtain s2 where s2: "dispatch_loop ?limit (now inp) s1 = Some (Inr s2)" "sched_inv cfg g s2"
    "finished (graph s2) = finished (graph s)" "in_flight s1 \<le> in_flight s2"
    "if in_flight s1 < ?limit \<and> ready_index s1 < length (ready s1) then in_flight s1 < in_flight s2 else s2 = s1"
    using dispatch_loop_inv[OF s1(2) g, of ?limit "now inp"] effective_workers_bounds[OF cfg] s1(3) by metis
  show ?thesis
  proof (cases "all_terminal (graph s2)")
    case True
    then show ?thesis using s1(1) s2(1,2) by (simp add: run_round_def all_terminal_iff)
  next
    case False
    have busy: "in_flight s2 \<noteq> 0"
    proof
      assume 0: "in_flight s2 = 0"
      then have "in_flight s1 < ?limit"
        using s2(4) effective_workers_bounds[OF cfg, of "ram_limited inp"] by linarith
      with 0 s2(5) have "\<not> ready_index s1 < length (ready s1)" "s2 = s1" by (auto split: if_splits)
      with s1(3,4) no_stall[OF s2(2) g 0] False show False by simp
    qed
    then have sent: "sent s2 \<noteq> []" using sched_invD(2)[OF s2(2)] by auto
    obtain s3 i where s3: "receive (first_answer inp) s2 = Some (Inr s3)" "sched_inv cfg g s3"
      "i \<notin> finished (graph s2)" "finished (graph s3) = insert i (finished (graph s2))"
      using receive_inv[OF s2(2) g sent] by metis
    obtain s4 where s4: "receive_more (more_answers inp) s3 = Some (Inr s4)" "sched_inv cfg g s4"
      "finished (graph s3) \<subseteq> finished (graph s4)"
      using receive_more_inv[OF s3(2) g] by blast
    have "run_round cfg tail inp s = Some (Inr (Continue s4))"
      using s1(1) s2(1) s3(1) s4(1) False busy sent by (simp add: run_round_def all_terminal_iff)
    moreover have "finished (graph s) \<subset> finished (graph s4)"
      using s2(3) s3(3,4) s4(3) by auto
    ultimately show ?thesis using s4(2) by blast
  qed
qed

lemma run_rounds_inv:
  assumes "wf_graph g" "scheduler_ok cfg" "length tail = len g"
    and "sched_inv cfg g s" "len g < fuel + card (finished (graph s))"
  shows "\<exists>s'. run_rounds fuel cfg tail inp s = Some (Inr s') \<and> sched_inv cfg g s' \<and> all_terminal (graph s')"
  using assms(4,5)
proof (induction fuel arbitrary: inp s)
  case 0
  have "finished (graph s) \<subseteq> {..<len g}"
    using sched_inv_frame(3)[OF 0(1) assms(1)] by (auto simp: finished_def)
  then have "card (finished (graph s)) \<le> len g"
    using card_mono[OF finite_lessThan, of "finished (graph s)" "len g"] by simp
  with 0 show ?case by simp
next
  case (Suc fuel)
  from run_round_inv[OF Suc.prems(1) assms(1-3), of "inp 0"] show ?case
  proof (elim disjE exE conjE)
    fix s' assume "run_round cfg tail (inp 0) s = Some (Inr (Continue s'))" "sched_inv cfg g s'"
      "finished (graph s) \<subset> finished (graph s')"
    moreover have "finite (finished (graph s'))" by (simp add: finished_def)
    ultimately show ?thesis
      using Suc.IH[of s' "\<lambda>n. inp (Suc n)"] Suc.prems(2) psubset_card_mono[of "finished (graph s')" "finished (graph s)"]
      by simp
  qed simp
qed

lemma initial_state_inv:
  assumes "wf_graph g"
  shows "sched_inv cfg g (initial_state cfg g)"
  using executing_reset[OF assms] by (simp add: sched_inv_def initial_state_def)

lemma run_build_ok:
  assumes g: "wf_graph g" and cfg: "scheduler_ok cfg"
  shows "\<exists>s. run_build (Suc (len g)) cfg inp g =
      Some (Inr (s, from_graph (graph s) (workers cfg) (failures s) (timings s))) \<and>
    sched_inv cfg g s \<and> all_terminal (graph s)"
proof -
  have "wf_graph (reset_states g)" using g by (rule wf_reset_states)
  then obtain tail where tail: "critical_path_tails (reset_states g) = Some tail" "length tail = len g"
    using critical_path_tails_spec by (metis reset_states_frame(4))
  have "validate g = Some (Inr ())" using g validate_iff wf_acyclic wf_shape by blast
  with tail run_rounds_inv[OF g cfg tail(2) initial_state_inv[OF g], of "Suc (len g)" inp]
  show ?thesis by (auto simp: run_build_def)
qed

subsection \<open>The steps of the scheduler and its environment\<close>

text \<open>
  Every intermediate state of a run, not only those at the end of a round, is reached by
  these steps: recomputing the ready list, one dispatch within the limit of the round, and
  one answer.
\<close>

inductive sched_step :: "scheduler \<Rightarrow> nat list \<Rightarrow> run_state \<Rightarrow> run_state \<Rightarrow> bool" for cfg tail where
  step_refresh: "refresh_ready cfg tail s = Some s' \<Longrightarrow> sched_step cfg tail s s'"
| step_dispatch: "in_flight s < effective_workers cfg limited \<Longrightarrow> ready_index s < length (ready s) \<Longrightarrow>
    dispatch_one offset s = Some (Inr s') \<Longrightarrow> sched_step cfg tail s s'"
| step_receive: "sent s \<noteq> [] \<Longrightarrow> receive a s = Some (Inr s') \<Longrightarrow> sched_step cfg tail s s'"

inductive_cases sched_stepE: "sched_step cfg tail s s'"

definition sched_reachable :: "scheduler \<Rightarrow> task build_graph \<Rightarrow> run_state \<Rightarrow> bool" where
  "sched_reachable cfg g s \<longleftrightarrow>
     (\<exists>tail. critical_path_tails (reset_states g) = Some tail \<and>
        (sched_step cfg tail)\<^sup>*\<^sup>* (initial_state cfg g) s)"

lemma sched_step_inv:
  assumes "sched_step cfg tail s s'" "sched_inv cfg g s" "wf_graph g" "scheduler_ok cfg" "length tail = len g"
  shows "sched_inv cfg g s'"
  using assms(1)
proof (cases rule: sched_step.cases)
  case step_refresh
  then show ?thesis using refresh_ready_inv[OF assms(2,3,5)] by (metis option.inject)
next
  case (step_dispatch limited offset)
  then have "in_flight s < workers cfg" using effective_workers_bounds[OF assms(4), of limited] by simp
  with step_dispatch show ?thesis
    using dispatch_one_inv[OF assms(2,3), of offset] by (metis option.inject sum.inject(2))
next
  case (step_receive a)
  then show ?thesis using receive_inv[OF assms(2,3), of a] by (metis option.inject sum.inject(2))
qed

lemma sched_reachable_inv:
  assumes "sched_reachable cfg g s" "wf_graph g" "scheduler_ok cfg"
  shows "sched_inv cfg g s"
proof -
  obtain tail where tail: "critical_path_tails (reset_states g) = Some tail"
    and steps: "(sched_step cfg tail)\<^sup>*\<^sup>* (initial_state cfg g) s"
    using assms(1) by (auto simp: sched_reachable_def)
  have "length tail = len g"
    using critical_path_tails_spec[OF wf_reset_states[OF assms(2)]] tail by (metis option.inject reset_states_frame(4))
  from steps show ?thesis
    by (induction rule: rtranclp_induct)
      (auto intro: initial_state_inv assms sched_step_inv \<open>length tail = len g\<close>)
qed

lemma dispatch_loop_steps:
  assumes "dispatch_loop limit off s = Some (Inr s')" "limit = effective_workers cfg b"
  shows "(sched_step cfg tail)\<^sup>*\<^sup>* s s'"
  using assms
proof (induction limit off s rule: dispatch_loop.induct)
  case (1 limit off s)
  show ?case
  proof (cases "in_flight s < limit \<and> ready_index s < length (ready s)")
    case False
    then have "s' = s" using "1.prems"(1) by (subst (asm) dispatch_loop.simps) auto
    then show ?thesis by simp
  next
    case True
    then obtain s1 where s1: "dispatch_one off s = Some (Inr s1)" "dispatch_loop limit off s1 = Some (Inr s')"
      using "1.prems"(1) by (subst (asm) dispatch_loop.simps) (auto simp: and_then_def split: option.splits sum.splits)
    then have "sched_step cfg tail s s1" using True "1.prems"(2) step_dispatch by blast
    then show ?thesis using "1.IH"[OF True s1(1) s1(2) "1.prems"(2)] by (rule converse_rtranclp_into_rtranclp)
  qed
qed

lemma receive_more_steps: "receive_more as s = Some (Inr s') \<Longrightarrow> (sched_step cfg tail)\<^sup>*\<^sup>* s s'"
proof (induction "as" arbitrary: s)
  case (Cons a "as")
  show ?case
  proof (cases "sent s = []")
    case False
    then obtain s1 where "receive a s = Some (Inr s1)" "receive_more as s1 = Some (Inr s')"
      using Cons.prems by (auto simp: and_then_def split: option.splits sum.splits)
    then show ?thesis
      using Cons.IH[of s1] False by (meson converse_rtranclp_into_rtranclp step_receive)
  qed (use Cons.prems in auto)
qed auto

lemma run_round_steps:
  assumes "run_round cfg tail inp s = Some (Inr r)"
  shows "(sched_step cfg tail)\<^sup>*\<^sup>* s (case r of Done s' \<Rightarrow> s' | Continue s' \<Rightarrow> s')"
proof -
  obtain s1 s2 where s: "refresh_ready cfg tail s = Some s1"
    "dispatch_loop (effective_workers cfg (ram_limited inp)) (now inp) s1 = Some (Inr s2)"
    using assms by (auto simp: run_round_def and_then_def split: option.splits sum.splits)
  have reach: "(sched_step cfg tail)\<^sup>*\<^sup>* s s2"
    using step_refresh[OF s(1)] dispatch_loop_steps[OF s(2) refl] by (rule converse_rtranclp_into_rtranclp)
  show ?thesis
  proof (cases "list_all (\<lambda>nd. is_terminal (state nd)) (nodes (graph s2))")
    case True
    then show ?thesis using assms s reach by (auto simp: run_round_def)
  next
    case False
    then obtain s3 s4 where "sent s2 \<noteq> []" "receive (first_answer inp) s2 = Some (Inr s3)"
      "receive_more (more_answers inp) s3 = Some (Inr s4)" "r = Continue s4"
      using assms s by (auto simp: run_round_def and_then_def split: option.splits sum.splits if_splits)
    then show ?thesis
      using reach step_receive[of s2 "first_answer inp" s3 cfg tail] receive_more_steps[of "more_answers inp" s3 s4 cfg tail]
      by simp
  qed
qed

lemma run_rounds_steps:
  "run_rounds fuel cfg tail inp s = Some (Inr s') \<Longrightarrow> (sched_step cfg tail)\<^sup>*\<^sup>* s s'"
proof (induction fuel arbitrary: inp s)
  case (Suc fuel)
  then obtain r where r: "run_round cfg tail (inp 0) s = Some (Inr r)"
    by (auto simp: and_then_def split: option.splits sum.splits)
  show ?case
  proof (cases r)
    case (Continue s1)
    with r Suc have "(sched_step cfg tail)\<^sup>*\<^sup>* s1 s'" by simp
    with run_round_steps[OF r] Continue show ?thesis by simp
  next
    case (Done s1)
    with r Suc.prems run_round_steps[OF r] show ?thesis by simp
  qed
qed simp

subsection \<open>What is recorded of the answers\<close>

text \<open>
  Each timing record belongs to one report to the progress callback, and both hold the answer that was
  received for the task; the failure records are the reports of failed tasks. \<open>A\<close> holds the answers given.
\<close>

definition logged :: "task build_graph \<Rightarrow> task_outcome set \<Rightarrow> run_state \<Rightarrow> bool" where
  "logged g A s \<longleftrightarrow>
     list_all2 (\<lambda>tm (l, r). r \<in> A \<and> l = label (payload (nodes g ! t_node_id tm)) \<and> t_label tm = l \<and>
         t_status tm = status r \<and> t_duration tm = duration r) (timings s) (progress s) \<and>
     map (\<lambda>f. (f_label f, f_stdout f, f_stderr f)) (failures s) =
       map (\<lambda>(l, r). (l, stdout r, stderr r)) (filter (\<lambda>(l, r). status r = Run_Failed) (progress s))"

lemma logged_cong:
  "timings s' = timings s \<Longrightarrow> progress s' = progress s \<Longrightarrow> failures s' = failures s \<Longrightarrow> logged g A s' = logged g A s"
  by (simp add: logged_def)

lemma logged_initial: "logged g A (initial_state cfg g)"
  by (simp add: logged_def initial_state_def)

lemma logged_refresh: "refresh_ready cfg tail s = Some s' \<Longrightarrow> logged g A s' = logged g A s"
  by (rule logged_cong) (auto simp: refresh_ready_def split: if_splits)

lemma logged_dispatch: "dispatch_loop limit off s = Some (Inr s') \<Longrightarrow> logged g A s' = logged g A s"
proof (induction limit off s rule: dispatch_loop.induct)
  case (1 limit off s)
  show ?case
  proof (cases "in_flight s < limit \<and> ready_index s < length (ready s)")
    case False
    with "1.prems" show ?thesis by (subst (asm) dispatch_loop.simps) auto
  next
    case True
    then obtain s1 where s1: "dispatch_one off s = Some (Inr s1)" "dispatch_loop limit off s1 = Some (Inr s')"
      using "1.prems" by (subst (asm) dispatch_loop.simps) (auto simp: and_then_def split: option.splits sum.splits)
    have "logged g A s1 = logged g A s"
      by (rule logged_cong) (use s1(1) in \<open>auto simp: dispatch_one_def Let_def split: sum.splits if_splits\<close>)
    with "1.IH"[OF True s1(1) s1(2)] show ?thesis by simp
  qed
qed

lemma logged_receive:
  assumes inv: "sched_inv cfg g s" and g: "wf_graph g" and busy: "sent s \<noteq> []"
    and log: "logged g A s" "snd a \<in> A" and run: "receive a s = Some (Inr s')"
  shows "logged g A s'"
proof -
  note fr = sched_inv_frame[OF inv g] and I = sched_invD[OF inv]
  obtain k r where a: "a = (k, r)" by fastforce
  define j where "j = k mod length (sent s)"
  have j: "j < length (sent s)" using busy by (simp add: j_def)
  obtain i w off where e: "sent s ! j = (i, w, off)" by (cases "sent s ! j") auto
  let ?s0 = "s\<lparr>sent := take j (sent s) @ drop (Suc j) (sent s), free_workers := free_workers s @ [w]\<rparr>"
  have "i \<in> running (graph s)" using I(4) nth_mem[OF j] e by force
  then have i: "i < len g" using fr(3) by (simp add: running_def)
  have busy0: "in_flight ?s0 \<noteq> 0" using I(2) busy by simp
  let ?t = "payload (nodes (graph s) ! i)"
  obtain g' fs ps tm where pc: "process_completion i r w off ?s0 =
       Some (Inr (?s0\<lparr>graph := g', in_flight := in_flight ?s0 - 1, timings := timings ?s0 @ [tm],
                  failures := failures ?s0 @ fs, progress := progress ?s0 @ ps\<rparr>))"
    "t_node_id tm = i" "t_status tm = status r" "ps = [(label ?t, r)]" "t_label tm = label ?t" "t_duration tm = duration r"
    "map (\<lambda>f. (f_label f, f_stdout f, f_stderr f)) fs =
       (if status r = Run_Failed then [(label ?t, stdout r, stderr r)] else [])"
    by (rule process_completion_eq[of ?s0 i r w off]) (use fr i busy0 in auto)
  have t: "?t = payload (nodes g ! i)" using fr(7) i by (simp add: same_frame_def)
  have "receive a s = process_completion i r w off ?s0"
    using e by (simp add: receive_def a Let_def j_def[symmetric])
  with run pc(1) have s': "timings s' = timings s @ [tm]" "progress s' = progress s @ ps" "failures s' = failures s @ fs"
    by auto
  show ?thesis
    using log pc(2-7) unfolding logged_def s' a t by (auto intro!: list_all2_appendI)
qed

lemma logged_receive_more:
  assumes "wf_graph g" "snd ` set as \<subseteq> A"
  shows "sched_inv cfg g s \<Longrightarrow> logged g A s \<Longrightarrow> receive_more as s = Some (Inr s') \<Longrightarrow> logged g A s'"
  using assms(2)
proof (induction "as" arbitrary: s)
  case (Cons a "as")
  show ?case
  proof (cases "sent s = []")
    case False
    then obtain s1 where s1: "receive a s = Some (Inr s1)" "receive_more as s1 = Some (Inr s')"
      using Cons.prems by (auto simp: and_then_def split: option.splits sum.splits)
    have "sched_inv cfg g s1" using receive_inv[OF Cons.prems(1) assms(1) False, of a] s1(1) by (metis option.inject sum.inject(2))
    moreover have "logged g A s1" using logged_receive[OF Cons.prems(1) assms(1) False Cons.prems(2) _ s1(1)] Cons.prems(4) by simp
    ultimately show ?thesis using Cons.IH s1(2) Cons.prems(4) by simp
  qed (use Cons.prems in auto)
qed auto

lemma list_all2_mono_in1:
  assumes "list_all2 P xs ys" "\<And>x y. x \<in> set xs \<Longrightarrow> P x y \<Longrightarrow> Q x y"
  shows "list_all2 Q xs ys"
  using assms by (induction rule: list_all2_induct) auto

lemma foldl_keeps: "(\<And>b x. h (f b x) = h b) \<Longrightarrow> h (foldl f b xs) = h b"
  by (induction xs arbitrary: b) simp_all

lemma from_graph_records:
  "summary_timings (from_graph g w fs ts) = ts" "summary_failures (from_graph g w fs ts) = fs"
  unfolding from_graph_def
   by (subst foldl_keeps[where h = summary_timings]; simp split: task_state.split)
     (subst foldl_keeps[where h = summary_failures]; simp split: task_state.split)

definition given :: "(nat \<Rightarrow> round_input) \<Rightarrow> task_outcome set" where
  "given inp = (\<Union>n. insert (snd (first_answer (inp n))) (snd ` set (more_answers (inp n))))"

lemma logged_round:
  assumes inv: "sched_inv cfg g s" and g: "wf_graph g" and cfg: "scheduler_ok cfg" and tail: "length tail = len g"
    and log: "logged g A s" and A: "insert (snd (first_answer inp)) (snd ` set (more_answers inp)) \<subseteq> A"
    and run: "run_round cfg tail inp s = Some (Inr r)"
  shows "logged g A (case r of Done s' \<Rightarrow> s' | Continue s' \<Rightarrow> s')"
proof -
  obtain s1 s2 where s: "refresh_ready cfg tail s = Some s1"
    "dispatch_loop (effective_workers cfg (ram_limited inp)) (now inp) s1 = Some (Inr s2)"
    using run by (auto simp: run_round_def and_then_def split: option.splits sum.splits)
  have "sched_inv cfg g s1" using refresh_ready_inv[OF inv g tail] s(1) by (metis option.inject)
  then have inv2: "sched_inv cfg g s2"
    using dispatch_loop_inv[OF _ g] effective_workers_bounds[OF cfg] s(2) by (metis option.inject sum.inject(2))
  have log2: "logged g A s2" using log logged_refresh[OF s(1)] logged_dispatch[OF s(2)] by blast
  show ?thesis
  proof (cases "list_all (\<lambda>nd. is_terminal (state nd)) (nodes (graph s2))")
    case True
    then show ?thesis using run s log2 by (auto simp: run_round_def)
  next
    case False
    then obtain s3 s4 where r: "sent s2 \<noteq> []" "receive (first_answer inp) s2 = Some (Inr s3)"
      "receive_more (more_answers inp) s3 = Some (Inr s4)" "r = Continue s4"
      using run s by (auto simp: run_round_def and_then_def split: option.splits sum.splits if_splits)
    have "sched_inv cfg g s3" using receive_inv[OF inv2 g r(1)] r(2) by (metis option.inject sum.inject(2))
    moreover have "logged g A s3" using logged_receive[OF inv2 g r(1) log2 _ r(2)] A by simp
    ultimately show ?thesis using logged_receive_more[OF g _ _ _ r(3)] A r(4) by simp
  qed
qed

lemma logged_rounds:
  assumes "wf_graph g" "scheduler_ok cfg" "length tail = len g"
  shows "sched_inv cfg g s \<Longrightarrow> logged g A s \<Longrightarrow> given inp \<subseteq> A \<Longrightarrow>
    run_rounds fuel cfg tail inp s = Some (Inr s') \<Longrightarrow> logged g A s'"
proof (induction fuel arbitrary: inp s)
  case (Suc fuel)
  then obtain r where r: "run_round cfg tail (inp 0) s = Some (Inr r)"
    by (auto simp: and_then_def split: option.splits sum.splits)
  have A: "insert (snd (first_answer (inp 0))) (snd ` set (more_answers (inp 0))) \<subseteq> A"
    "given (\<lambda>n. inp (Suc n)) \<subseteq> A"
    using Suc.prems(3) by (auto simp: given_def)
  note log = logged_round[OF Suc.prems(1) assms Suc.prems(2) A(1) r]
  from run_round_inv[OF Suc.prems(1) assms, of "inp 0"] r have inv: "sched_inv cfg g (case r of Done s' \<Rightarrow> s' | Continue s' \<Rightarrow> s')"
    by auto
  show ?case
    using Suc.IH[of _ "\<lambda>n. inp (Suc n)"] Suc.prems(4) log inv A(2) r by (cases r) auto
qed simp

lemma run_build_logged:
  assumes g: "wf_graph g" and cfg: "scheduler_ok cfg" and run: "run_build fuel cfg inp g = Some (Inr (s, b))"
  shows "logged g (given inp) s"
proof -
  have "wf_graph (reset_states g)" using g by (rule wf_reset_states)
  then obtain tail where tail: "critical_path_tails (reset_states g) = Some tail" "length tail = len g"
    using critical_path_tails_spec by (metis reset_states_frame(4))
  have "run_rounds fuel cfg tail inp (initial_state cfg g) = Some (Inr s)"
    using run tail(1) by (auto simp: run_build_def and_then_def split: option.splits sum.splits)
  then show ?thesis
    using logged_rounds[OF g cfg tail(2) initial_state_inv[OF g] logged_initial] by blast
qed

subsection \<open>What a finished build looks like\<close>

lemma from_graph_counts:
  "executed (from_graph g w fs ts) = length (filter (\<lambda>nd. state nd = Succeeded) (nodes g))"
  "cached (from_graph g w fs ts) = length (filter (\<lambda>nd. state nd = Cached) (nodes g))"
  "failed (from_graph g w fs ts) = length (filter (\<lambda>nd. state nd = Failed) (nodes g))"
  "cancelled (from_graph g w fs ts) = length (filter (\<lambda>nd. state nd = Cancelled) (nodes g))"
  "total (from_graph g w fs ts) = len g"
  "summary_timings (from_graph g w fs ts) = ts" "summary_failures (from_graph g w fs ts) = fs"
proof -
  define f :: "build_summary \<Rightarrow> task node \<Rightarrow> build_summary" where
    "f b nd = (case state nd of
         Succeeded \<Rightarrow> b\<lparr>executed := Suc (executed b)\<rparr>
       | Cached \<Rightarrow> b\<lparr>cached := Suc (cached b)\<rparr>
       | Failed \<Rightarrow> b\<lparr>failed := Suc (failed b)\<rparr>
       | Cancelled \<Rightarrow> b\<lparr>cancelled := Suc (cancelled b)\<rparr>
       | _ \<Rightarrow> b)" for b nd
  have gen: "executed (foldl f b nds) = executed b + length (filter (\<lambda>nd. state nd = Succeeded) nds) \<and>
     cached (foldl f b nds) = cached b + length (filter (\<lambda>nd. state nd = Cached) nds) \<and>
     failed (foldl f b nds) = failed b + length (filter (\<lambda>nd. state nd = Failed) nds) \<and>
     cancelled (foldl f b nds) = cancelled b + length (filter (\<lambda>nd. state nd = Cancelled) nds) \<and>
     total (foldl f b nds) = total b \<and> summary_timings (foldl f b nds) = summary_timings b \<and>
     summary_failures (foldl f b nds) = summary_failures b" for b nds
    by (induction nds arbitrary: b) (auto simp: f_def split: task_state.splits)
  show "executed (from_graph g w fs ts) = length (filter (\<lambda>nd. state nd = Succeeded) (nodes g))"
    "cached (from_graph g w fs ts) = length (filter (\<lambda>nd. state nd = Cached) (nodes g))"
    "failed (from_graph g w fs ts) = length (filter (\<lambda>nd. state nd = Failed) (nodes g))"
    "cancelled (from_graph g w fs ts) = length (filter (\<lambda>nd. state nd = Cancelled) (nodes g))"
    "total (from_graph g w fs ts) = len g"
    "summary_timings (from_graph g w fs ts) = ts" "summary_failures (from_graph g w fs ts) = fs"
    unfolding from_graph_def f_def[symmetric] using gen by simp_all
qed

subsection \<open>Properties\<close>

text \<open>
  C8. A build of a well-formed graph always completes: whatever the number of workers (at
  least one), the priorities, the memory readings, the order of the answers and their
  outcomes, the loop ends within one round per task and one more, without a panic, without a
  graph error and without ever reporting \<open>Stalled\<close>; then every task is in a terminal state
  and the graph has kept its nodes, payloads and edges.
\<close>

theorem build_completes:
  assumes "wf_graph g" "scheduler_ok cfg"
  shows "\<exists>s b. run_build (Suc (len g)) cfg inp g = Some (Inr (s, b)) \<and>
    same_frame g (graph s) \<and> (\<forall>i < len g. is_terminal (st (graph s) i))"
proof -
  obtain s where s: "run_build (Suc (len g)) cfg inp g =
      Some (Inr (s, from_graph (graph s) (workers cfg) (failures s) (timings s)))"
    "sched_inv cfg g s" "all_terminal (graph s)"
    using run_build_ok[OF assms, of inp] by blast
  then show ?thesis
    using sched_inv_frame[OF s(2) assms(1)] by (auto simp: all_terminal_def)
qed

theorem build_completes_witness:
  "\<exists>s b. run_build 5 (new_scheduler 2)
      (\<lambda>n. \<lparr>now = n, ram_limited = False, first_answer = (n, outcome_executed), more_answers = []\<rparr>)
      task_diamond = Some (Inr (s, b)) \<and> (\<forall>i < 4. is_terminal (st (graph s) i))"
  using build_completes[OF wf_task_diamond scheduler_ok_new[of 2],
    of "\<lambda>n. \<lparr>now = n, ram_limited = False, first_answer = (n, outcome_executed), more_answers = []\<rparr>"]
  by auto

text \<open>
  C9. At every moment of a run: no more tasks are in flight than there are workers, the
  tasks in flight occupy distinct workers and are exactly the running ones, no task is
  started twice, and a task that is running or has run had all its dependencies succeed.
\<close>

theorem scheduler_safe:
  assumes "wf_graph g" "scheduler_ok cfg" "sched_reachable cfg g s"
  shows "in_flight s = length (sent s) \<and> in_flight s \<le> workers cfg \<and>
    distinct (map (fst \<circ> snd) (sent s)) \<and> set (map (fst \<circ> snd) (sent s)) \<subseteq> {..<workers cfg} \<and>
    distinct (map fst (sent s) @ map t_node_id (timings s)) \<and>
    set (map fst (sent s)) = {i. i < len g \<and> st (graph s) i = Running} \<and>
    (\<forall>i < len g. st (graph s) i \<in> {Running, Succeeded, Cached, Failed} \<longrightarrow>
       (\<forall>d \<in> set (deps g ! i). is_successful (st (graph s) d)))"
proof -
  have inv: "sched_inv cfg g s" by (rule sched_reachable_inv[OF assms(3,1,2)])
  note I = sched_invD[OF inv] and fr = sched_inv_frame[OF inv assms(1)]
  have "set (map fst (sent s)) \<inter> set (map t_node_id (timings s)) = {}"
    unfolding I(4,9) by (auto simp: finished_def running_def)
  then have "distinct (map fst (sent s) @ map t_node_id (timings s))"
    using I(3,8) by (simp only: distinct_append simp_thms)
  moreover have "in_flight s \<le> workers cfg" using free_and_busy(1)[OF inv] by simp
  moreover have "\<forall>i < len g. st (graph s) i \<in> {Running, Succeeded, Cached, Failed} \<longrightarrow>
       (\<forall>d \<in> set (deps g ! i). is_successful (st (graph s) d))"
    using states_okD(3)[OF fr(6)] unfolding fr(3,4) by blast
  ultimately show ?thesis
    using I(2,4) free_and_busy(2,3)[OF inv] unfolding running_def fr(3) by blast
qed

text \<open>The second round on the diamond: the first task was answered, the two in the middle are running.\<close>

definition two_running :: "nat list \<Rightarrow> (sched_error + run_state) option" where
  "two_running tail =
     (case refresh_ready (new_scheduler 2) tail (initial_state (new_scheduler 2) task_diamond) of
        None \<Rightarrow> None
      | Some s1 \<Rightarrow> and_then (dispatch_loop 2 0 s1) (\<lambda>s2. if sent s2 = [] then None
          else and_then (receive (0, outcome_executed) s2) (\<lambda>s3.
            case refresh_ready (new_scheduler 2) tail s3 of None \<Rightarrow> None | Some s4 \<Rightarrow> dispatch_loop 2 1 s4)))"

lemma two_running_steps:
  assumes "two_running tail = Some (Inr s)"
  shows "(sched_step (new_scheduler 2) tail)\<^sup>*\<^sup>* (initial_state (new_scheduler 2) task_diamond) s"
proof -
  let ?step = "sched_step (new_scheduler 2) tail" and ?i = "initial_state (new_scheduler 2) task_diamond"
  have e: "2 = effective_workers (new_scheduler 2) False" by (simp add: effective_workers_def new_scheduler_def)
  obtain s1 s2 s3 s4 where r: "refresh_ready (new_scheduler 2) tail ?i = Some s1" "dispatch_loop 2 0 s1 = Some (Inr s2)"
    "sent s2 \<noteq> []" "receive (0, outcome_executed) s2 = Some (Inr s3)"
    "refresh_ready (new_scheduler 2) tail s3 = Some s4" "dispatch_loop 2 1 s4 = Some (Inr s)"
    using assms by (auto simp: two_running_def and_then_def split: option.splits sum.splits if_splits)
  have "?step\<^sup>*\<^sup>* ?i s1" using step_refresh[OF r(1)] by blast
  moreover have "?step\<^sup>*\<^sup>* s1 s2" by (rule dispatch_loop_steps[OF r(2) e])
  moreover have "?step s2 s3" by (rule step_receive[OF r(3,4)])
  moreover have "?step s3 s4" by (rule step_refresh[OF r(5)])
  moreover have "?step\<^sup>*\<^sup>* s4 s" by (rule dispatch_loop_steps[OF r(6) e])
  ultimately show ?thesis by (meson rtranclp.rtrancl_into_rtrancl rtranclp_trans)
qed

lemma two_running_state:
  "Option.bind (critical_path_tails (reset_states task_diamond))
     (\<lambda>tail. map_option (map_sum (\<lambda>e. e) (\<lambda>s. (in_flight s, map fst (sent s)))) (two_running tail)) = Some (Inr (2, [1, 2]))"
  by code_simp

theorem scheduler_safe_witness:
  "\<exists>s. sched_reachable (new_scheduler 2) task_diamond s \<and> in_flight s = 2 \<and> map fst (sent s) = [1, 2] \<and>
     distinct (map (fst \<circ> snd) (sent s)) \<and> is_successful (st (graph s) 0)"
proof -
  obtain tail s where s: "critical_path_tails (reset_states task_diamond) = Some tail" "two_running tail = Some (Inr s)"
    "in_flight s = 2" "map fst (sent s) = [1, 2]"
  proof -
    obtain tail r where r: "critical_path_tails (reset_states task_diamond) = Some tail" "two_running tail = Some r"
      "map_sum (\<lambda>e. e) (\<lambda>s. (in_flight s, map fst (sent s))) r = Inr (2, [1, 2])"
      using two_running_state by (auto simp: bind_eq_Some_conv)
    then show thesis using that by (cases r) auto
  qed
  then have reach: "sched_reachable (new_scheduler 2) task_diamond s"
    using two_running_steps by (auto simp: sched_reachable_def)
  note safe = scheduler_safe[OF wf_task_diamond scheduler_ok_new reach]
  from safe have "set (map fst (sent s)) = {i. i < len task_diamond \<and> st (graph s) i = Running}"
    by - (elim conjE, assumption)
  with s(4) have one: "st (graph s) 1 = Running" "1 < len task_diamond" by auto
  have "\<forall>i < len task_diamond. st (graph s) i \<in> {Running, Succeeded, Cached, Failed} \<longrightarrow>
       (\<forall>d \<in> set (deps task_diamond ! i). is_successful (st (graph s) d))"
    using safe by - (elim conjE, assumption)
  moreover have "0 \<in> set (deps task_diamond ! 1)" by code_simp
  moreover have "st (graph s) 1 \<in> {Running, Succeeded, Cached, Failed}" by (simp only: one insertI1)
  ultimately have "is_successful (st (graph s) 0)" using one(2) by blast
  moreover have "distinct (map (fst \<circ> snd) (sent s))" using safe by - (elim conjE, assumption)
  ultimately show ?thesis using reach s(3,4) by (intro exI[of _ s] conjI)
qed

text \<open>
  C10. The outcome of a finished build: a task is cancelled exactly when one of its transitive
  dependencies failed; every other task ran exactly once, with all its dependencies
  successful. Its timing record and its report to the progress callback hold the same one of the given
  answers, and its final state is the one of that answer. The failure records are, in order, the reports of
  failed tasks with what they printed, one for each failed task, and the summary holds these records.
\<close>

theorem build_outcome:
  assumes "wf_graph g" "scheduler_ok cfg" "run_build (Suc (len g)) cfg inp g = Some (Inr (s, b))"
  shows "(\<forall>j < len g. st (graph s) j = Cancelled \<longleftrightarrow> (\<exists>x. st (graph s) x = Failed \<and> (x, j) \<in> (edges g)\<^sup>+)) \<and>
    (\<forall>j < len g. st (graph s) j = Cancelled \<or> (\<forall>d \<in> set (deps g ! j). is_successful (st (graph s) d))) \<and>
    distinct (map t_node_id (timings s)) \<and>
    set (map t_node_id (timings s)) = {j. j < len g \<and> st (graph s) j \<noteq> Cancelled} \<and>
    list_all2 (\<lambda>tm (l, r). r \<in> given inp \<and> l = label (payload (nodes g ! t_node_id tm)) \<and>
        t_label tm = l \<and> t_status tm = status r \<and> t_duration tm = duration r \<and>
        st (graph s) (t_node_id tm) =
          (case status r of Run_Executed \<Rightarrow> Succeeded | Run_Cached \<Rightarrow> Cached | Run_Failed \<Rightarrow> Failed))
      (timings s) (progress s) \<and>
    map (\<lambda>f. (f_label f, f_stdout f, f_stderr f)) (failures s) =
      map (\<lambda>(l, r). (l, stdout r, stderr r)) (filter (\<lambda>(l, r). status r = Run_Failed) (progress s)) \<and>
    length (failures s) = card {j. j < len g \<and> st (graph s) j = Failed} \<and>
    summary_timings b = timings s \<and> summary_failures b = failures s"
proof -
  obtain s' where s': "run_build (Suc (len g)) cfg inp g =
      Some (Inr (s', from_graph (graph s') (workers cfg) (failures s') (timings s')))"
    "sched_inv cfg g s'" "all_terminal (graph s')"
    using run_build_ok[OF assms(1,2), of inp] by blast
  then have inv: "sched_inv cfg g s" and all: "all_terminal (graph s)" using assms(3) by simp_all
  note I = sched_invD[OF inv] and fr = sched_inv_frame[OF inv assms(1)]
  note ok = fr(6)[unfolded fr(3,4)]
  have t: "is_terminal (st (graph s) j)" if "j < len g" for j
    using all that fr(3) by (simp add: all_terminal_def)
  have c: "st (graph s) j = Cancelled \<or> st (graph s) j \<in> {Succeeded, Cached, Failed}" if "j < len g" for j
    using t[OF that] states_okD(2)[OF ok that] by (cases "st (graph s) j") auto
  have fin: "finished (graph s) = {j. j < len g \<and> st (graph s) j \<noteq> Cancelled}"
    using c fr(3) by (auto simp: finished_def)
  have deps: "\<forall>j < len g. st (graph s) j = Cancelled \<or> (\<forall>d \<in> set (deps g ! j). is_successful (st (graph s) d))"
    using c states_okD(3)[OF ok] by blast
  have log: "logged g (given inp) s" by (rule run_build_logged[OF assms])
  have records: "list_all2 (\<lambda>tm (l, r). r \<in> given inp \<and> l = label (payload (nodes g ! t_node_id tm)) \<and>
        t_label tm = l \<and> t_status tm = status r \<and> t_duration tm = duration r \<and>
        st (graph s) (t_node_id tm) =
          (case status r of Run_Executed \<Rightarrow> Succeeded | Run_Cached \<Rightarrow> Cached | Run_Failed \<Rightarrow> Failed))
      (timings s) (progress s)"
    by (rule list_all2_mono_in1[OF log[unfolded logged_def, THEN conjunct1]])
      (auto simp: I(11) status_state_def)
  have "summary_timings b = timings s" "summary_failures b = failures s"
    using s'(1) assms(3) by (simp_all add: from_graph_records)
  then show ?thesis
    using cancelled_iff_failed_ancestor[OF assms(1) ok t] deps I(8) I(9)[unfolded fin] records
      log[unfolded logged_def, THEN conjunct2] I(10)[unfolded failed_nodes_def fr(3)]
    by (intro conjI allI impI) blast+
qed

definition fail_first :: "nat \<Rightarrow> round_input" where
  "fail_first n = \<lparr>now = n, ram_limited = False,
     first_answer = (0, if n = 1 then outcome_failed ''boom'' else outcome_executed), more_answers = []\<rparr>"

lemma run_fail_first:
  "map_option (map_sum (\<lambda>e. e) (\<lambda>(s, b). (map state (nodes (graph s)), map (status \<circ> snd) (progress s), map f_stderr (summary_failures b))))
     (run_build (Suc (len task_diamond)) (new_scheduler 2) fail_first task_diamond) =
   Some (Inr ([Succeeded, Failed, Succeeded, Cancelled], [Run_Executed, Run_Failed, Run_Executed], [''boom'']))"
  by code_simp

theorem build_outcome_witness:
  "\<exists>s b. run_build (Suc (len task_diamond)) (new_scheduler 2) fail_first task_diamond = Some (Inr (s, b)) \<and>
     map state (nodes (graph s)) = [Succeeded, Failed, Succeeded, Cancelled] \<and>
     set (map t_node_id (timings s)) = {0, 1, 2} \<and>
     map t_status (timings s) = [Run_Executed, Run_Failed, Run_Executed] \<and>
     map f_stderr (failures s) = [''boom'']"
proof -
  obtain s b where run: "run_build (Suc (len task_diamond)) (new_scheduler 2) fail_first task_diamond = Some (Inr (s, b))"
    using run_build_ok[OF wf_task_diamond scheduler_ok_new[of 2], of fail_first] by blast
  with run_fail_first have end_state: "map state (nodes (graph s)) = [Succeeded, Failed, Succeeded, Cancelled]"
    "map (status \<circ> snd) (progress s) = [Run_Executed, Run_Failed, Run_Executed]" "map f_stderr (summary_failures b) = [''boom'']"
    by simp_all
  note out = build_outcome[OF wf_task_diamond scheduler_ok_new run]
  have "set (map t_node_id (timings s)) = {j. j < len task_diamond \<and> st (graph s) j \<noteq> Cancelled}"
    using out by - (elim conjE, assumption)
  moreover have "st (graph s) j = [Succeeded, Failed, Succeeded, Cancelled] ! j" if "j < 4" for j
  proof -
    have "length (nodes (graph s)) = 4" using arg_cong[OF end_state(1), of length] by (simp del: length_nodes)
    then have "map state (nodes (graph s)) ! j = st (graph s) j" using that by simp
    then show ?thesis unfolding end_state(1) by simp
  qed
  ultimately have "set (map t_node_id (timings s)) = {j. j < 4 \<and> [Succeeded, Failed, Succeeded, Cancelled] ! j \<noteq> Cancelled}"
    by (auto simp del: set_map)
  moreover have "{j. j < 4 \<and> [Succeeded, Failed, Succeeded, Cancelled] ! j \<noteq> Cancelled} = {0, 1, 2 :: nat}"
    by (auto simp: less_Suc_eq eval_nat_numeral)
  ultimately have ids: "set (map t_node_id (timings s)) = {0, 1, 2}" by (simp only:)
  have "list_all2 (\<lambda>tm p. t_status tm = (status \<circ> snd) p) (timings s) (progress s)"
    by (rule list_all2_mono_in1[OF out[THEN conjunct2, THEN conjunct2, THEN conjunct2, THEN conjunct2, THEN conjunct1]]) auto
  then have "map t_status (timings s) = map (status \<circ> snd) (progress s)"
    by (simp add: list_all2_conv_all_nth list_eq_iff_nth_eq)
  then have "map t_status (timings s) = [Run_Executed, Run_Failed, Run_Executed]" unfolding end_state(2) .
  moreover have "summary_failures b = failures s" using out by (elim conjE)
  then have "map f_stderr (failures s) = [''boom'']" using end_state(3) by (simp only:)
  moreover note ids
  ultimately show ?thesis using run end_state(1) by (intro exI[of _ s] exI[of _ b] conjI)
qed

text \<open>
  The summary counts every task once: executed, cached, failed and cancelled tasks add
  up to the total, and the build is reported as a success exactly when every task succeeded.
\<close>

theorem summary_correct:
  assumes "wf_graph g" "scheduler_ok cfg" "run_build (Suc (len g)) cfg inp g = Some (Inr (s, b))"
  shows "total b = len g \<and> executed b + cached b + failed b + cancelled b = len g \<and>
    (succeeded b \<longleftrightarrow> (\<forall>j < len g. is_successful (st (graph s) j))) \<and>
    length (summary_timings b) = executed b + cached b + failed b \<and>
    length (summary_failures b) = failed b"
proof -
  obtain s' where s': "run_build (Suc (len g)) cfg inp g =
      Some (Inr (s', from_graph (graph s') (workers cfg) (failures s') (timings s')))"
    "sched_inv cfg g s'" "all_terminal (graph s')"
    using run_build_ok[OF assms(1,2), of inp] by blast
  then have inv: "sched_inv cfg g s" and all: "all_terminal (graph s)"
    and b: "b = from_graph (graph s) (workers cfg) (failures s) (timings s)" using assms(3) by simp_all
  note I = sched_invD[OF inv] and fr = sched_inv_frame[OF inv assms(1)]
  note ok = fr(6)[unfolded fr(3,4)]
  let ?n = "\<lambda>c. length (filter (\<lambda>nd. state nd = c) (nodes (graph s)))"
  have card: "length (filter P (nodes (graph s))) = card {j. j < len g \<and> P (nodes (graph s) ! j)}" for P
    by (simp add: length_filter_conv_card fr(3))
  have c: "st (graph s) j = Cancelled \<or> st (graph s) j \<in> {Succeeded, Cached, Failed}" if "j < len g" for j
    using all states_okD(2)[OF ok that] that fr(3) by (cases "st (graph s) j") (auto simp: all_terminal_def)
  have parts: "state nd \<in> {Succeeded, Cached, Failed, Cancelled}" if "nd \<in> set (nodes (graph s))" for nd
    using that c fr(3) by (auto simp: in_set_conv_nth)
  have sum: "length nds = length (filter (\<lambda>nd. state nd = Succeeded) nds) + length (filter (\<lambda>nd. state nd = Cached) nds) +
      length (filter (\<lambda>nd. state nd = Failed) nds) + length (filter (\<lambda>nd. state nd = Cancelled) nds) \<and>
     length (filter (\<lambda>nd. state nd \<in> {Succeeded, Cached, Failed}) nds) =
      length (filter (\<lambda>nd. state nd = Succeeded) nds) + length (filter (\<lambda>nd. state nd = Cached) nds) +
      length (filter (\<lambda>nd. state nd = Failed) nds)"
    if "\<forall>nd \<in> set nds. state nd \<in> {Succeeded, Cached, Failed, Cancelled}" for nds :: "task node list"
    using that by (induction nds) auto
  have counts: "len g = ?n Succeeded + ?n Cached + ?n Failed + ?n Cancelled"
    "length (filter (\<lambda>nd. state nd \<in> {Succeeded, Cached, Failed}) (nodes (graph s))) = ?n Succeeded + ?n Cached + ?n Failed"
    using sum[of "nodes (graph s)"] parts fr(3) by simp_all
  have "length (timings s) = card (finished (graph s))"
    using I(8,9) by (metis distinct_card length_map)
  also have "\<dots> = length (filter (\<lambda>nd. state nd \<in> {Succeeded, Cached, Failed}) (nodes (graph s)))"
    unfolding card by (simp add: finished_def fr(3))
  finally have t: "length (timings s) = ?n Succeeded + ?n Cached + ?n Failed" unfolding counts(2) .
  have f: "length (failures s) = ?n Failed" unfolding card I(10) failed_nodes_def fr(3) ..
  have none: "?n Failed = 0 \<longleftrightarrow> (\<forall>j < len g. st (graph s) j \<noteq> Failed)"
    unfolding card by auto
  have "?n Failed = 0 \<longleftrightarrow> (\<forall>j < len g. is_successful (st (graph s) j))"
  proof
    assume "?n Failed = 0"
    then have nf: "\<And>j. j < len g \<Longrightarrow> st (graph s) j \<noteq> Failed" using none by blast
    have t: "is_terminal (st (graph s) j)" if "j < len g" for j
      using all that fr(3) by (simp add: all_terminal_def)
    have "st (graph s) j \<noteq> Cancelled" if j: "j < len g" for j
    proof
      assume "st (graph s) j = Cancelled"
      then obtain x where "st (graph s) x = Failed" "(x, j) \<in> (edges g)\<^sup>+"
        using cancelled_iff_failed_ancestor[OF assms(1) ok t j] by blast
      moreover from this(2) have "x < len g" using edges_bound[of g x] assms(1) by (auto dest: tranclD)
      ultimately show False using nf by blast
    qed
    with nf c show "\<forall>j < len g. is_successful (st (graph s) j)" by fastforce
  next
    assume "\<forall>j < len g. is_successful (st (graph s) j)"
    then show "?n Failed = 0" unfolding none by fastforce
  qed
  then show ?thesis
    unfolding b succeeded_def from_graph_counts using counts(1) t f fr(3) by simp
qed

theorem summary_correct_witness:
  "\<exists>s b. run_build 5 (new_scheduler 2) fail_first task_diamond = Some (Inr (s, b)) \<and>
     executed b + cached b + failed b + cancelled b = 4"
proof -
  obtain s b where run: "run_build (Suc (len task_diamond)) (new_scheduler 2) fail_first task_diamond = Some (Inr (s, b))"
    using run_build_ok[OF wf_task_diamond scheduler_ok_new[of 2], of fail_first] by blast
  from summary_correct[OF wf_task_diamond scheduler_ok_new run] run show ?thesis by auto
qed

end
