(* ===== verification/Resource_Limits.thy ===== *)
theory Resource_Limits
  imports Fish_Prelude
begin

text \<open>
  How many jobs may run when memory is short: \<open>ram_capped_workers\<close> of
  \<open>fish-scheduler/src/lib.rs\<close> and the governor of \<open>resource_governor.rs\<close>. Sizes are \<open>u64\<close>
  numbers; the source multiplies them with \<open>saturating_mul\<close>. The readings of the operating
  system are arguments. The percentage in use is computed in floating point; it is the
  parameter \<open>pct\<close>, a function of the two readings.
\<close>

definition ram_capped_workers :: "nat \<Rightarrow> nat \<Rightarrow> nat \<Rightarrow> nat \<Rightarrow> nat \<Rightarrow> nat" where
  "ram_capped_workers available total_mem requested floor threshold_percent =
     (let threshold = min threshold_percent 100;
          constrained = 0 < total_mem \<and> saturating_mul available 100 < saturating_mul total_mem threshold
      in if constrained then min (max floor 1) requested else requested)"

datatype memory_pressure = Normal | Warning | Critical

record governor =
  max_ram_bytes :: "nat option"
  ram_limit_pct :: nat

definition new_governor :: "nat option \<Rightarrow> nat option \<Rightarrow> governor" where
  "new_governor m pct = \<lparr>max_ram_bytes = m, ram_limit_pct = (case pct of None \<Rightarrow> 85 | Some p \<Rightarrow> p)\<rparr>"

definition check_memory_pressure :: "(nat \<Rightarrow> nat \<Rightarrow> nat) \<Rightarrow> nat \<Rightarrow> nat \<Rightarrow> governor \<Rightarrow> memory_pressure" where
  "check_memory_pressure pct total_mem used_mem gov =
     (if total_mem = 0 then Normal
      else
        let used_pct = pct used_mem total_mem
        in if (case max_ram_bytes gov of Some limit \<Rightarrow> limit \<le> used_mem | None \<Rightarrow> False) then Critical
           else if ram_limit_pct gov \<le> used_pct then Critical
           else if ram_limit_pct gov - 10 \<le> used_pct then Warning
           else Normal)"

definition should_throttle :: "(nat \<Rightarrow> nat \<Rightarrow> nat) \<Rightarrow> nat \<Rightarrow> nat \<Rightarrow> governor \<Rightarrow> bool" where
  "should_throttle pct total_mem used_mem gov \<longleftrightarrow> check_memory_pressure pct total_mem used_mem gov = Critical"

text \<open>The product \<open>base_jobs * 3\<close> is a \<open>usize\<close> product, which panics on overflow.\<close>

definition optimal_parallelism :: "(nat \<Rightarrow> nat \<Rightarrow> nat) \<Rightarrow> nat \<Rightarrow> nat \<Rightarrow> governor \<Rightarrow> nat \<Rightarrow> nat option" where
  "optimal_parallelism pct total_mem used_mem gov base_jobs =
     (case check_memory_pressure pct total_mem used_mem gov of
        Normal \<Rightarrow> Some (max base_jobs 1)
      | Warning \<Rightarrow> if base_jobs * 3 \<le> u64_max then Some (max (base_jobs * 3 div 4) 1) else None
      | Critical \<Rightarrow> Some (max (base_jobs div 2) 1))"

fun pressure_rank :: "memory_pressure \<Rightarrow> nat" where
  "pressure_rank Normal = 0"
| "pressure_rank Warning = 1"
| "pressure_rank Critical = 2"

lemma check_memory_pressure_mono:
  assumes "used \<le> used'" "pct used tot \<le> pct used' tot"
  shows "pressure_rank (check_memory_pressure pct tot used gov) \<le>
    pressure_rank (check_memory_pressure pct tot used' gov)"
  using assms by (auto simp: check_memory_pressure_def Let_def split: option.splits)

subsection \<open>Properties\<close>

text \<open>
  The memory cap only ever lowers the number of workers, never below one that was asked
  for, and the boundary is exact: with sizes small enough not to saturate, the cap applies
  exactly when less than the threshold share of a known total is available.
\<close>

theorem ram_capped_workers_correct:
  assumes "available * 100 \<le> u64_max" "total_mem * 100 \<le> u64_max"
  shows "ram_capped_workers available total_mem requested floor threshold =
      (if available * 100 < total_mem * min threshold 100 then min (max floor 1) requested else requested) \<and>
    ram_capped_workers available total_mem requested floor threshold \<le> requested \<and>
    (1 \<le> requested \<longrightarrow> 1 \<le> ram_capped_workers available total_mem requested floor threshold)"
proof -
  have "total_mem * min threshold 100 \<le> total_mem * 100" by simp
  then have "total_mem * min threshold 100 \<le> u64_max" using assms(2) by linarith
  then show ?thesis
    using assms(1) by (auto simp: ram_capped_workers_def Let_def saturating_mul_def)
qed

theorem ram_capped_workers_correct_witness:
  "ram_capped_workers 10 100 8 2 20 = 2 \<and> ram_capped_workers 10 100 8 2 20 \<le> 8"
  using ram_capped_workers_correct[of 10 100 8 2 20] by (simp add: u64_max_def)

text \<open>
  The governor's parallelism stays between one and the jobs asked for (or one), and more
  memory in use never yields more jobs, provided the percentage grows with the reading.
\<close>

theorem optimal_parallelism_correct:
  assumes "base * 3 \<le> u64_max" "used \<le> used'" "pct used tot \<le> pct used' tot"
  shows "\<exists>n n'. optimal_parallelism pct tot used gov base = Some n \<and>
    optimal_parallelism pct tot used' gov base = Some n' \<and>
    1 \<le> n' \<and> n' \<le> n \<and> n \<le> max base 1"
  using assms(1) check_memory_pressure_mono[where pct = pct, OF assms(2,3), of gov]
  by (auto simp: optimal_parallelism_def split: memory_pressure.splits)

theorem optimal_parallelism_correct_witness:
  "\<exists>n n'. optimal_parallelism (\<lambda>u t. u * 100 div t) 100 50 (new_governor None None) 8 = Some n \<and>
     optimal_parallelism (\<lambda>u t. u * 100 div t) 100 90 (new_governor None None) 8 = Some n' \<and> n' \<le> n \<and> n \<le> 8"
  using optimal_parallelism_correct[of 8 50 90 "\<lambda>u t. u * 100 div t" 100 "new_governor None None"]
  by (auto simp: u64_max_def)

end
