(* ===== verification/Work_Stealing.thy ===== *)
theory Work_Stealing
  imports Scheduler Resource_Limits "HOL-Library.Product_Lexorder"
begin

text \<open>
  The second scheduler, \<open>fish-scheduler/src/work_stealing.rs\<close>: one queue for all workers, no
  limit on the tasks in flight, and a ready list ordered by a score of the tail length and the
  measured durations.

  The environment is modelled as in \<open>Scheduler\<close>: an answer picks an unanswered entry of the
  queue. The workers write the measured durations concurrently with the scheduler, so the
  durations it reads in a round are an input of the round; \<open>record_execution\<close> is the update
  that a worker does. Products and sums of \<open>u64\<close> that do not fit are \<open>None\<close>, as in builds
  with overflow checks.
\<close>

type_synonym durations = "string \<rightharpoonup> nat"

definition get_estimated_weight :: "durations \<Rightarrow> task \<Rightarrow> nat" where
  "get_estimated_weight hist t =
     (case hist (label t) of Some d \<Rightarrow> (d div 1000000) mod 2 ^ 64 | None \<Rightarrow> 100)"

definition record_execution :: "task \<Rightarrow> nat \<Rightarrow> durations \<Rightarrow> durations option" where
  "record_execution t d hist =
     (case hist (label t) of
        Some existing \<Rightarrow>
          if existing * 8 \<le> duration_max \<and> d * 2 \<le> duration_max then
            map_option (\<lambda>s. hist(label t \<mapsto> s div 10)) (add_duration (existing * 8) (d * 2))
          else None
      | None \<Rightarrow> Some (hist(label t \<mapsto> d)))"

definition compute_all_tail_lengths :: "'a build_graph \<Rightarrow> nat list option" where
  "compute_all_tail_lengths g =
     (case topological_order g of
        None \<Rightarrow> None
      | Some topo \<Rightarrow>
          fold_opt (dp_step (dependents_or_empty g) (\<lambda>i ts. max_or_zero (map Suc ts)))
            (replicate (len g) 0) (rev topo))"

definition priority_score :: "task build_graph \<Rightarrow> durations \<Rightarrow> nat list \<Rightarrow> nat \<Rightarrow> nat option" where
  "priority_score g hist tails i =
     (case get_node g i of
        None \<Rightarrow> None
      | Some nd \<Rightarrow>
          let score = (case vec_get tails i of Some t \<Rightarrow> t | None \<Rightarrow> 0) * 1000
                + get_estimated_weight hist (payload nd)
          in if score \<le> u64_max then Some score else None)"

definition sort_by_score :: "task build_graph \<Rightarrow> durations \<Rightarrow> nat list \<Rightarrow> nat list \<Rightarrow> nat list option" where
  "sort_by_score g hist tails ids =
     map_option (\<lambda>scores. map snd (sort_key (\<lambda>(score, i). (- int score, i)) (zip scores ids)))
       (opt_all (map (priority_score g hist tails) ids))"

record ws_state =
  ws_graph :: "task build_graph"
  ws_in_flight :: nat
  ws_failures :: "failure_record list"
  ws_timings :: "task_timing list"
  ws_queue :: "nat list"

record ws_input =
  measured :: durations
  ws_first :: "nat \<times> task_outcome"
  ws_more :: "(nat \<times> task_outcome) list"

subsection \<open>One answer\<close>

definition apply_outcome :: "nat \<Rightarrow> task_outcome \<Rightarrow> ws_state \<Rightarrow> sched_error + ws_state" where
  "apply_outcome i outcome s =
     (case state_of (ws_graph s) i of
        Inl e \<Rightarrow> Inl (InvalidGraph e)
      | Inr c \<Rightarrow>
          if c = Cancelled then Inr s
          else
            let task = map_option payload (get_node (ws_graph s) i);
                s1 = s\<lparr>ws_timings := (case task of None \<Rightarrow> ws_timings s
                     | Some t \<Rightarrow> ws_timings s @ [\<lparr>t_label = label t, t_description = description t,
                         start_offset = 0, t_duration = duration outcome, t_node_id = i,
                         worker_id = 0, t_status = status outcome\<rparr>])\<rparr>
            in (case status outcome of
                  Run_Executed \<Rightarrow> map_sum InvalidGraph (\<lambda>g. s1\<lparr>ws_graph := g\<rparr>) (set_state i Succeeded (ws_graph s1))
                | Run_Cached \<Rightarrow> map_sum InvalidGraph (\<lambda>g. s1\<lparr>ws_graph := g\<rparr>) (set_state i Cached (ws_graph s1))
                | Run_Failed \<Rightarrow>
                    (case mark_failed i (ws_graph s1) of
                       (Inl e, g) \<Rightarrow> Inl (InvalidGraph e)
                     | (Inr _, g) \<Rightarrow>
                         Inr (s1\<lparr>ws_graph := g,
                                 ws_failures := (case task of None \<Rightarrow> ws_failures s1
                                   | Some t \<Rightarrow> ws_failures s1 @ [\<lparr>f_label = label t, f_description = description t,
                                       f_stdout = stdout outcome, f_stderr = stderr outcome\<rparr>])\<rparr>))))"

definition ws_receive :: "nat \<times> task_outcome \<Rightarrow> ws_state \<Rightarrow> (sched_error + ws_state) option" where
  "ws_receive = (\<lambda>(k, outcome) s.
     let j = k mod length (ws_queue s)
     in if ws_in_flight s = 0 then None
        else Some (apply_outcome (ws_queue s ! j) outcome
               (s\<lparr>ws_in_flight := ws_in_flight s - 1,
                  ws_queue := take j (ws_queue s) @ drop (Suc j) (ws_queue s)\<rparr>)))"

fun ws_receive_more :: "(nat \<times> task_outcome) list \<Rightarrow> ws_state \<Rightarrow> (sched_error + ws_state) option" where
  "ws_receive_more [] s = Some (Inr s)"
| "ws_receive_more (a # as) s =
     (if ws_queue s = [] then Some (Inr s) else and_then (ws_receive a s) (ws_receive_more as))"

subsection \<open>The loop\<close>

fun ws_dispatch :: "nat list \<Rightarrow> ws_state \<Rightarrow> (sched_error + ws_state) option" where
  "ws_dispatch [] s = Some (Inr s)"
| "ws_dispatch (i # is) s =
     (case get_node (ws_graph s) i of
        None \<Rightarrow> None
      | Some _ \<Rightarrow>
          (case set_state i Running (ws_graph s) of
             Inl e \<Rightarrow> Some (Inl (InvalidGraph e))
           | Inr g \<Rightarrow>
               ws_dispatch is (s\<lparr>ws_graph := g, ws_queue := ws_queue s @ [i],
                                 ws_in_flight := Suc (ws_in_flight s)\<rparr>)))"

definition ws_round :: "ws_input \<Rightarrow> ws_state \<Rightarrow> (sched_error + ws_state step_result) option" where
  "ws_round inp s =
     (case compute_all_tail_lengths (ws_graph s) of
        None \<Rightarrow> None
      | Some tails \<Rightarrow>
          (case sort_by_score (ws_graph s) (measured inp) tails (ready_nodes (ws_graph s)) of
             None \<Rightarrow> None
           | Some order \<Rightarrow>
               and_then (ws_dispatch order s)
                 (\<lambda>s1. if ws_in_flight s1 = 0 then Some (Inr (Done s1))
                    else if ws_queue s1 = [] then None
                    else and_then (ws_receive (ws_first inp) s1)
                           (\<lambda>s2. and_then (ws_receive_more (ws_more inp) s2) (\<lambda>s3. Some (Inr (Continue s3)))))))"

fun ws_rounds :: "nat \<Rightarrow> (nat \<Rightarrow> ws_input) \<Rightarrow> ws_state \<Rightarrow> (sched_error + ws_state) option" where
  "ws_rounds 0 inp s = None"
| "ws_rounds (Suc fuel) inp s =
     and_then (ws_round (inp 0) s)
       (\<lambda>r. case r of Done s' \<Rightarrow> Some (Inr s') | Continue s' \<Rightarrow> ws_rounds fuel (\<lambda>n. inp (Suc n)) s')"

definition ws_initial :: "task build_graph \<Rightarrow> ws_state" where
  "ws_initial g =
     \<lparr>ws_graph = reset_states g, ws_in_flight = 0, ws_failures = [], ws_timings = [], ws_queue = []\<rparr>"

definition ws_run ::
  "nat \<Rightarrow> nat \<Rightarrow> (nat \<Rightarrow> ws_input) \<Rightarrow> task build_graph \<Rightarrow> (sched_error + (ws_state \<times> build_summary)) option" where
  "ws_run fuel threads inp g =
     (case validate g of
        None \<Rightarrow> None
      | Some (Inl e) \<Rightarrow> Some (Inl (InvalidGraph e))
      | Some (Inr _) \<Rightarrow>
          and_then (ws_rounds fuel inp (ws_initial g))
            (\<lambda>s. Some (Inr (s, from_graph (ws_graph s) (max threads 1) (ws_failures s) (ws_timings s)))))"

subsection \<open>The invariant\<close>

definition ws_inv :: "task build_graph \<Rightarrow> ws_state \<Rightarrow> bool" where
  "ws_inv g s \<longleftrightarrow>
     executing g (ws_graph s) \<and>
     ws_in_flight s = length (ws_queue s) \<and>
     distinct (ws_queue s) \<and> set (ws_queue s) = running (ws_graph s) \<and>
     distinct (map t_node_id (ws_timings s)) \<and>
     set (map t_node_id (ws_timings s)) = finished (ws_graph s) \<and>
     length (ws_failures s) = card (failed_nodes (ws_graph s)) \<and>
     (\<forall>tm \<in> set (ws_timings s). st (ws_graph s) (t_node_id tm) = status_state (t_status tm))"

lemma ws_invD:
  assumes "ws_inv g s"
  shows "executing g (ws_graph s)" "ws_in_flight s = length (ws_queue s)"
    "distinct (ws_queue s)" "set (ws_queue s) = running (ws_graph s)"
    "distinct (map t_node_id (ws_timings s))" "set (map t_node_id (ws_timings s)) = finished (ws_graph s)"
    "length (ws_failures s) = card (failed_nodes (ws_graph s))"
    "\<And>tm. tm \<in> set (ws_timings s) \<Longrightarrow> st (ws_graph s) (t_node_id tm) = status_state (t_status tm)"
  using assms unfolding ws_inv_def by blast+

lemma ws_initial_inv: "wf_graph g \<Longrightarrow> ws_inv g (ws_initial g)"
  using executing_reset[of g] by (simp add: ws_inv_def ws_initial_def)

lemma ws_dispatch_inv:
  assumes "ws_inv g s" "wf_graph g" "distinct ids" "\<And>i. i \<in> set ids \<Longrightarrow> can_start (ws_graph s) i"
  shows "\<exists>s'. ws_dispatch ids s = Some (Inr s') \<and> ws_inv g s' \<and>
    finished (ws_graph s') = finished (ws_graph s) \<and> ws_in_flight s' = ws_in_flight s + length ids \<and>
    (ids = [] \<longrightarrow> s' = s)"
  using assms
proof (induction ids arbitrary: s)
  case (Cons i ids)
  note fr = executing_frame[OF ws_invD(1)[OF Cons.prems(1)] Cons.prems(2)] and I = ws_invD[OF Cons.prems(1)]
  have c: "can_start (ws_graph s) i" using Cons.prems(4) by simp
  then have i: "i < len g" using fr(3) by (simp add: can_start_def)
  obtain g' where g': "set_state i Running (ws_graph s) = Inr g'" "same_frame (ws_graph s) g'"
    "\<And>j. j < len g \<Longrightarrow> st g' j = (if j = i then Running else st (ws_graph s) j)"
    using set_state_graph[of i "ws_graph s" Running] i fr(3) by metis
  note E = dispatch_effect[OF I(1) Cons.prems(2) c g'(2,3)]
  let ?s = "s\<lparr>ws_graph := g', ws_queue := ws_queue s @ [i], ws_in_flight := Suc (ws_in_flight s)\<rparr>"
  have "st g' (t_node_id tm) = status_state (t_status tm)" if "tm \<in> set (ws_timings s)" for tm
    using E(7)[of "t_node_id tm"] I(6,8) that by (metis image_eqI list.set_map)
  then have inv: "ws_inv g ?s"
    using E(1-5) I(2-7) unfolding ws_inv_def by simp
  have "\<And>j. j \<in> set ids \<Longrightarrow> can_start (ws_graph ?s) j"
    using E(6) Cons.prems(3,4) by auto
  with Cons.IH[OF inv Cons.prems(2)] Cons.prems(3) obtain s' where
    "ws_dispatch ids ?s = Some (Inr s')" "ws_inv g s'" "finished (ws_graph s') = finished g'"
    "ws_in_flight s' = Suc (ws_in_flight s) + length ids" by auto
  then show ?case using g'(1) i fr(3) E(2) by simp
qed simp

lemma apply_outcome_eq:
  assumes g: "shape_ok (ws_graph s)" and i: "i < len (ws_graph s)" "st (ws_graph s) i \<noteq> Cancelled"
  obtains g' fs tm where
    "apply_outcome i r s =
       Inr (s\<lparr>ws_graph := g', ws_timings := ws_timings s @ [tm], ws_failures := ws_failures s @ fs\<rparr>)"
    "same_frame (ws_graph s) g'" "\<And>j. j < len (ws_graph s) \<Longrightarrow> st g' j = completed_states (ws_graph s) i r j"
    "t_node_id tm = i" "t_status tm = status r" "length fs = (if status r = Run_Failed then 1 else 0)"
proof -
  let ?t = "payload (nodes (ws_graph s) ! i)"
  let ?tm = "\<lparr>t_label = label ?t, t_description = description ?t, start_offset = 0,
     t_duration = duration r, t_node_id = i, worker_id = 0, t_status = status r\<rparr>"
  let ?f = "\<lparr>f_label = label ?t, f_description = description ?t, f_stdout = stdout r, f_stderr = stderr r\<rparr>"
  show thesis
  proof (cases "status r = Run_Failed")
    case True
    obtain g' where g': "mark_failed i (ws_graph s) = (Inr (), g')" "same_frame (ws_graph s) g'"
      "\<And>j. j < len (ws_graph s) \<Longrightarrow>
         st g' j = (if j = i then Failed else if j \<in> cascade (ws_graph s) i then Cancelled else st (ws_graph s) j)"
      using mark_failed_spec[OF g i(1)] by blast
    have "apply_outcome i r s =
         Inr (s\<lparr>ws_graph := g', ws_timings := ws_timings s @ [?tm], ws_failures := ws_failures s @ [?f]\<rparr>)"
      using True i g'(1) by (simp add: apply_outcome_def Let_def state_of_def)
    then show thesis
      by (rule that[OF _ g'(2)]) (use True g'(3) in \<open>simp_all add: completed_states_def final_state_def status_state_def\<close>)
  next
    case False
    obtain g' where g': "set_state i (final_state r) (ws_graph s) = Inr g'" "same_frame (ws_graph s) g'"
      "\<And>j. j < len (ws_graph s) \<Longrightarrow> st g' j = (if j = i then final_state r else st (ws_graph s) j)"
      using set_state_graph[OF i(1), of "final_state r"] by metis
    have "apply_outcome i r s =
         Inr (s\<lparr>ws_graph := g', ws_timings := ws_timings s @ [?tm], ws_failures := ws_failures s @ []\<rparr>)"
      using False i g'(1)
      by (cases "status r") (simp_all add: apply_outcome_def Let_def state_of_def final_state_def status_state_def)
    then show thesis
      by (rule that[OF _ g'(2)]) (use False g'(3) in \<open>simp_all add: completed_states_def\<close>)
  qed
qed

lemma ws_receive_inv:
  assumes inv: "ws_inv g s" and g: "wf_graph g" and busy: "ws_queue s \<noteq> []"
  obtains s' i where "ws_receive a s = Some (Inr s')" "ws_inv g s'"
    "i \<notin> finished (ws_graph s)" "finished (ws_graph s') = insert i (finished (ws_graph s))"
proof -
  note fr = executing_frame[OF ws_invD(1)[OF inv] g] and I = ws_invD[OF inv]
  obtain k r where a: "a = (k, r)" by fastforce
  define j where "j = k mod length (ws_queue s)"
  define i where "i = ws_queue s ! j"
  define xs where "xs = take j (ws_queue s)"
  define ys where "ys = drop (Suc j) (ws_queue s)"
  have j: "j < length (ws_queue s)" using busy by (simp add: j_def)
  have split: "ws_queue s = xs @ i # ys"
    using id_take_nth_drop[OF j] by (simp add: xs_def ys_def i_def)
  let ?s0 = "s\<lparr>ws_in_flight := ws_in_flight s - 1, ws_queue := xs @ ys\<rparr>"
  have run: "i \<in> running (ws_graph s)" using I(4) split by auto
  then have i: "i < len g" "st (ws_graph s) i \<noteq> Cancelled" using fr(3) by (simp_all add: running_def)
  obtain g' fs tm where pc: "apply_outcome i r ?s0 =
       Inr (?s0\<lparr>ws_graph := g', ws_timings := ws_timings ?s0 @ [tm], ws_failures := ws_failures ?s0 @ fs\<rparr>)"
    "same_frame (ws_graph s) g'" "\<And>j. j < len g \<Longrightarrow> st g' j = completed_states (ws_graph s) i r j"
    "t_node_id tm = i" "t_status tm = status r" "length fs = (if status r = Run_Failed then 1 else 0)"
    by (rule apply_outcome_eq[of ?s0 i r]) (use fr i in auto)
  note E = completion_effect[OF I(1) g run pc(2,3)]
  let ?s = "?s0\<lparr>ws_graph := g', ws_timings := ws_timings ?s0 @ [tm], ws_failures := ws_failures ?s0 @ fs\<rparr>"
  have recv: "ws_receive a s = Some (Inr ?s)"
    using pc(1) I(2) busy
    by (simp add: ws_receive_def a Let_def j_def[symmetric] xs_def[symmetric] ys_def[symmetric] i_def[symmetric])
  have d: "distinct (xs @ ys)" "set (xs @ ys) = set (ws_queue s) - {i}"
    using I(3) unfolding split by auto
  have t: "distinct (map t_node_id (ws_timings s @ [tm]))" "set (map t_node_id (ws_timings s @ [tm])) = finished g'"
    using I(5,6) E(2,4) pc(4) by auto
  have "st g' (t_node_id x) = status_state (t_status x)" if "x \<in> set (ws_timings s @ [tm])" for x
  proof (cases "x = tm")
    case False
    with that have "x \<in> set (ws_timings s)" by simp
    then show ?thesis using E(8)[of "t_node_id x"] I(6,8) by (metis image_eqI list.set_map)
  qed (use E(9) pc(4,5) in \<open>simp add: final_state_def\<close>)
  moreover have "length (ws_failures s @ fs) = card (failed_nodes g')" using I(7) pc(6) E(5,6) by simp
  moreover have "set (xs @ ys) = running g'" using d(2) I(4) E(3) by simp
  moreover have "ws_in_flight s - 1 = length (xs @ ys)" using I(2) split by simp
  ultimately have "ws_inv g ?s"
    using E(1) d(1) t unfolding ws_inv_def by simp
  then show thesis using that[OF recv _ E(4)] E(2) by simp
qed

lemma ws_receive_more_inv:
  assumes "ws_inv g s" "wf_graph g"
  shows "\<exists>s'. ws_receive_more as s = Some (Inr s') \<and> ws_inv g s' \<and>
    finished (ws_graph s) \<subseteq> finished (ws_graph s')"
  using assms(1)
proof (induction "as" arbitrary: s)
  case (Cons a "as")
  show ?case
  proof (cases "ws_queue s = []")
    case False
    obtain s1 where s1: "ws_receive a s = Some (Inr s1)" "ws_inv g s1"
      "finished (ws_graph s) \<subseteq> finished (ws_graph s1)"
      using ws_receive_inv[OF Cons.prems assms(2) False] by (metis subset_insertI)
    with Cons.IH[OF s1(2)] False show ?thesis by auto
  qed (use Cons.prems in auto)
qed auto

subsection \<open>The score fits into its word\<close>

lemma compute_all_tail_lengths_bound:
  assumes g: "wf_graph g"
  obtains tails where "compute_all_tail_lengths g = Some tails" "length tails = len g"
    "\<And>x. x < len g \<Longrightarrow> tails ! x < len g"
proof -
  obtain order where order: "topological_order g = Some order" "topo_enum (deps_or_empty g) (len g) order"
    using topological_order_wf[OF g] by blast
  have "topo_enum (dependents_or_empty g) (len g) (rev order)"
    using bg.topo_enum_rev[OF g order(2)] .
  from dp_fold[OF this, of "replicate (len g) 0" "\<lambda>i ts. max_or_zero (map Suc ts)"] obtain tails where
    run: "compute_all_tail_lengths g = Some tails" "length tails = len g" and
    step: "\<And>x. x < len g \<Longrightarrow> tails ! x = max_or_zero (map Suc (map ((!) tails) (dependents g ! x)))"
    using order(1) g by (auto simp: compute_all_tail_lengths_def dependents_or_empty_eq)
  define R where "R = (\<lambda>x. {y. (x, y) \<in> (edges g)\<^sup>+})"
  have R: "R x \<subseteq> {..<len g} - {x}" for x
  proof
    fix y assume "y \<in> R x"
    then have "(x, y) \<in> (edges g)\<^sup>+" by (simp add: R_def)
    then show "y \<in> {..<len g} - {x}"
      using wf_acyclic[OF g] edges_bound[of g _ y] g by (auto simp: acyclic_def dest: tranclD2)
  qed
  have fin: "finite (R x)" for x using finite_subset[OF R[of x]] by simp
  have tail: "tails ! x \<le> card (R x)" if "x < len g" for x
    using g that
  proof (induction x rule: edge_chain_induct)
    case (step x)
    have "Suc (tails ! y) \<le> card (R x)" if y: "y \<in> set (dependents g ! x)" for y
    proof -
      have e: "(x, y) \<in> edges g" using y step(1) g by (simp add: edges_dependents)
      have "insert y (R y) \<subseteq> R x" using e by (auto simp: R_def intro: trancl_into_trancl2)
      then have "card (insert y (R y)) \<le> card (R x)" by (rule card_mono[OF fin])
      moreover have "y \<notin> R y" using R[of y] by blast
      ultimately show ?thesis using step(2)[OF e] fin[of y] by simp
    qed
    then show ?case
      unfolding \<open>\<And>x. x < len g \<Longrightarrow> tails ! x = max_or_zero (map Suc (map ((!) tails) (dependents g ! x)))\<close>[OF step(1)]
      by (auto simp: max_or_zero_le_iff)
  qed
  have "tails ! x < len g" if "x < len g" for x
  proof -
    have "card (R x) \<le> card ({..<len g} - {x})" by (rule card_mono[OF _ R]) simp
    with tail[OF that] that show ?thesis by simp
  qed
  then show thesis using that[OF run] by blast
qed

definition weights_fit :: "task build_graph \<Rightarrow> durations \<Rightarrow> bool" where
  "weights_fit g hist \<longleftrightarrow>
     (\<forall>i < len g. len g * 1000 + get_estimated_weight hist (payload (nodes g ! i)) \<le> u64_max)"

lemma sort_by_score_ok:
  assumes tails: "length tails = len g" "\<And>x. x < len g \<Longrightarrow> tails ! x < len g"
    and fit: "weights_fit g hist" and ids: "set ids \<subseteq> {..<len g}"
  obtains order where "sort_by_score g hist tails ids = Some order" "mset order = mset ids"
proof -
  define f where "f i = tails ! i * 1000 + get_estimated_weight hist (payload (nodes g ! i))" for i
  have "priority_score g hist tails i = Some (f i)" if "i \<in> set ids" for i
  proof -
    have i: "i < len g" using that ids by auto
    with fit tails(2)[OF i] have "f i \<le> u64_max"
      unfolding weights_fit_def f_def by (meson add_le_mono1 less_imp_le_nat mult_le_mono1 order_trans)
    then show ?thesis using i tails(1) by (simp add: priority_score_def f_def)
  qed
  then have "opt_all (map (priority_score g hist tails) ids) = Some (map f ids)" by (rule opt_all_map_Some)
  moreover have "mset (map snd (sort_key (\<lambda>(score, i). (- int score, i)) (zip (map f ids) ids))) = mset ids"
    by (simp flip: mset_map add: mset_map[of snd "sort_key _ _"])
  ultimately show thesis using that by (simp add: sort_by_score_def)
qed

lemma weights_fit_frame:
  assumes "same_frame g h" "weights_fit g hist"
  shows "weights_fit h hist"
proof -
  have "map payload (nodes h) = map payload (nodes g)" "len h = len g"
    using assms(1) by (simp_all add: same_frame_def list_eq_iff_nth_eq)
  moreover from this have "payload (nodes h ! i) = payload (nodes g ! i)" if "i < len g" for i
    using that by (metis length_nodes nth_map)
  ultimately show ?thesis using assms(2) by (simp add: weights_fit_def)
qed

subsection \<open>The run completes\<close>

lemma ws_round_inv:
  assumes inv: "ws_inv g s" and g: "wf_graph g" and fit: "weights_fit g (measured inp)"
  shows "(\<exists>s'. ws_round inp s = Some (Inr (Done s')) \<and> ws_inv g s' \<and> all_terminal (ws_graph s')) \<or>
    (\<exists>s'. ws_round inp s = Some (Inr (Continue s')) \<and> ws_inv g s' \<and>
       finished (ws_graph s) \<subset> finished (ws_graph s'))"
proof -
  note fr = executing_frame[OF ws_invD(1)[OF inv] g] and I = ws_invD[OF inv]
  note rn = set_ready_can_start[OF I(1) g]
  obtain tails where tails: "compute_all_tail_lengths (ws_graph s) = Some tails"
    "length tails = len (ws_graph s)" "\<And>x. x < len (ws_graph s) \<Longrightarrow> tails ! x < len (ws_graph s)"
    using compute_all_tail_lengths_bound[OF fr(1)] by metis
  have "set (ready_nodes (ws_graph s)) \<subseteq> {..<len (ws_graph s)}"
    using rn by (auto simp: can_start_def)
  then obtain order where order: "sort_by_score (ws_graph s) (measured inp) tails (ready_nodes (ws_graph s)) = Some order"
    "mset order = mset (ready_nodes (ws_graph s))"
    using sort_by_score_ok[OF tails(2,3) weights_fit_frame[OF fr(7) fit]] by metis
  have o: "distinct order" "set order = {i. can_start (ws_graph s) i}"
    using mset_eq_imp_distinct_iff[OF order(2)] distinct_ready_nodes[OF fr(2)] mset_eq_setD[OF order(2)] rn by simp_all
  obtain s1 where s1: "ws_dispatch order s = Some (Inr s1)" "ws_inv g s1"
    "finished (ws_graph s1) = finished (ws_graph s)" "ws_in_flight s1 = ws_in_flight s + length order"
    "order = [] \<longrightarrow> s1 = s"
    using ws_dispatch_inv[OF inv g o(1)] o(2) by blast
  show ?thesis
  proof (cases "ws_in_flight s1 = 0")
    case True
    then have "order = []" "s1 = s" using s1(4,5) by simp_all
    moreover from this have "ready_nodes (ws_graph s) = []" using order(2) by simp
    moreover have "running (ws_graph s) = {}" using True \<open>s1 = s\<close> I(2,4) by simp
    ultimately show ?thesis
      using True inv nothing_left[OF I(1) g] tails(1) order(1) s1(1) by (simp add: ws_round_def)
  next
    case False
    then have q: "ws_queue s1 \<noteq> []" using ws_invD(2)[OF s1(2)] by auto
    obtain s2 i where s2: "ws_receive (ws_first inp) s1 = Some (Inr s2)" "ws_inv g s2"
      "i \<notin> finished (ws_graph s1)" "finished (ws_graph s2) = insert i (finished (ws_graph s1))"
      using ws_receive_inv[OF s1(2) g q] by metis
    obtain s3 where s3: "ws_receive_more (ws_more inp) s2 = Some (Inr s3)" "ws_inv g s3"
      "finished (ws_graph s2) \<subseteq> finished (ws_graph s3)"
      using ws_receive_more_inv[OF s2(2) g] by blast
    have "ws_round inp s = Some (Inr (Continue s3))"
      using tails(1) order(1) s1(1) s2(1) s3(1) False q by (simp add: ws_round_def)
    then show ?thesis using s1(3) s2(3,4) s3(2,3) by auto
  qed
qed

lemma ws_rounds_inv:
  assumes "wf_graph g" "\<And>n. weights_fit g (measured (inp n))"
    and "ws_inv g s" "len g < fuel + card (finished (ws_graph s))"
  shows "\<exists>s'. ws_rounds fuel inp s = Some (Inr s') \<and> ws_inv g s' \<and> all_terminal (ws_graph s')"
  using assms(2-4)
proof (induction fuel arbitrary: inp s)
  case 0
  then show ?case
    using card_finished_le[of "ws_graph s"] executing_frame(3)[OF ws_invD(1)[OF 0(2)] assms(1)] by simp
next
  case (Suc fuel)
  from ws_round_inv[OF Suc.prems(2) assms(1) Suc.prems(1), of 0] show ?case
  proof (elim disjE exE conjE)
    fix s' assume "ws_round (inp 0) s = Some (Inr (Continue s'))" "ws_inv g s'"
      "finished (ws_graph s) \<subset> finished (ws_graph s')"
    then show ?thesis
      using Suc.IH[of "\<lambda>n. inp (Suc n)" s'] Suc.prems(1,3)
        psubset_card_mono[of "finished (ws_graph s')" "finished (ws_graph s)"]
      by simp
  qed simp
qed

lemma ws_run_ok:
  assumes g: "wf_graph g" and fit: "\<And>n. weights_fit g (measured (inp n))"
  shows "\<exists>s. ws_run (Suc (len g)) threads inp g =
      Some (Inr (s, from_graph (ws_graph s) (max threads 1) (ws_failures s) (ws_timings s))) \<and>
    ws_inv g s \<and> all_terminal (ws_graph s)"
proof -
  have "validate g = Some (Inr ())" using g validate_iff wf_acyclic wf_shape by blast
  with ws_rounds_inv[where inp = inp, OF g fit ws_initial_inv[OF g], of "Suc (len g)"]
  show ?thesis by (auto simp: ws_run_def simp del: ws_rounds.simps)
qed

lemma record_execution_between:
  assumes "hist (label t) = Some e" "record_execution t d hist = Some hist'"
  obtains a where "hist' = hist(label t \<mapsto> a)" "min e d \<le> a" "a \<le> max e d"
  using assms by (auto simp: record_execution_def add_duration_def split: if_splits)

subsection \<open>Properties\<close>

text \<open>
  C14. A run of the work-stealing scheduler completes on every well-formed graph, for every
  number of threads, order of answers, outcomes and measured durations small enough for the
  score: within one round per task and one more it returns without panic, stall or graph
  error, every task is in a terminal state, exactly the tasks below a failure are cancelled,
  and every other task has run exactly once.
\<close>

theorem work_stealing_completes:
  assumes "wf_graph g" "\<And>n. weights_fit g (measured (inp n))"
  shows "\<exists>s b. ws_run (Suc (len g)) threads inp g = Some (Inr (s, b)) \<and> same_frame g (ws_graph s) \<and>
    (\<forall>j < len g. is_terminal (st (ws_graph s) j)) \<and>
    (\<forall>j < len g. st (ws_graph s) j = Cancelled \<longleftrightarrow>
       (\<exists>x. st (ws_graph s) x = Failed \<and> (x, j) \<in> (edges g)\<^sup>+)) \<and>
    distinct (map t_node_id (ws_timings s)) \<and>
    set (map t_node_id (ws_timings s)) = {j. j < len g \<and> st (ws_graph s) j \<in> {Succeeded, Cached, Failed}} \<and>
    length (ws_failures s) = card {j. j < len g \<and> st (ws_graph s) j = Failed}"
proof -
  obtain s where s: "ws_run (Suc (len g)) threads inp g =
      Some (Inr (s, from_graph (ws_graph s) (max threads 1) (ws_failures s) (ws_timings s)))"
    "ws_inv g s" "all_terminal (ws_graph s)"
    using ws_run_ok[where inp = inp, OF assms] by blast
  note I = ws_invD[OF s(2)] and fr = executing_frame[OF ws_invD(1)[OF s(2)] assms(1)]
  have t: "is_terminal (st (ws_graph s) j)" if "j < len g" for j
    using s(3) that fr(3) by (simp add: all_terminal_def)
  show ?thesis
    using s(1) fr(3,7) I(5-7) t cancelled_iff_failed_ancestor[OF assms(1) fr(6)[unfolded fr(3,4)] t]
    by (auto simp: finished_def failed_nodes_def)
qed

definition ws_quiet :: "nat \<Rightarrow> ws_input" where
  "ws_quiet n = \<lparr>measured = Map.empty,
     ws_first = (n, if n = 1 then outcome_failed ''boom'' else outcome_executed), ws_more = []\<rparr>"

lemma weights_fit_quiet: "weights_fit task_diamond (measured (ws_quiet n))"
  by (simp add: weights_fit_def get_estimated_weight_def ws_quiet_def u64_max_def)

theorem work_stealing_completes_witness:
  "\<exists>s b. ws_run 5 3 ws_quiet task_diamond = Some (Inr (s, b)) \<and>
     (\<forall>j < 4. is_terminal (st (ws_graph s) j))"
  using work_stealing_completes[where inp = ws_quiet, OF wf_task_diamond weights_fit_quiet, of 3] by auto

text \<open>
  C15. The two schedulers agree: when the status of a task's outcome depends on the task only,
  a run of \<open>Scheduler\<close> and a run of \<open>WorkStealingScheduler\<close> on the same graph end with every
  task in the same state and with the same counts in their summaries, whatever the workers,
  the priorities and the interleavings were.
\<close>

theorem schedulers_agree:
  assumes "wf_graph g" "scheduler_ok cfg" "\<And>n. weights_fit g (measured (inp' n))"
    and "run_build (Suc (len g)) cfg inp g = Some (Inr (s, b))"
    and "ws_run (Suc (len g)) threads inp' g = Some (Inr (s', b'))"
    and "\<forall>tm \<in> set (timings s) \<union> set (ws_timings s'). t_status tm = oc (t_node_id tm)"
  shows "(\<forall>j < len g. st (graph s) j = st (ws_graph s') j) \<and>
    executed b = executed b' \<and> cached b = cached b' \<and> failed b = failed b' \<and> cancelled b = cancelled b'"
proof -
  have s: "sched_inv cfg g s" "all_terminal (graph s)"
    "b = from_graph (graph s) (workers cfg) (failures s) (timings s)"
    using run_build_ok[OF assms(1,2), of inp] assms(4) by auto
  have s': "ws_inv g s'" "all_terminal (ws_graph s')"
    "b' = from_graph (ws_graph s') (max threads 1) (ws_failures s') (ws_timings s')"
    using ws_run_ok[where inp = inp', OF assms(1,3), of threads] unfolding assms(5) by simp_all
  note I = sched_invD[OF s(1)] and I' = ws_invD[OF s'(1)]
  have f: "st (graph s) j = status_state (oc j)" if j: "j \<in> finished (graph s)" for j
  proof -
    obtain tm where "tm \<in> set (timings s)" "j = t_node_id tm" using j unfolding I(9)[symmetric] by auto
    then show ?thesis using I(11)[of tm] assms(6) by simp
  qed
  have f': "st (ws_graph s') j = status_state (oc j)" if j: "j \<in> finished (ws_graph s')" for j
  proof -
    obtain tm where "tm \<in> set (ws_timings s')" "j = t_node_id tm" using j unfolding I'(6)[symmetric] by auto
    then show ?thesis using I'(8)[of tm] assms(6) by simp
  qed
  have same: "st (graph s) j = st (ws_graph s') j" if "j < len g" for j
    using final_states_determined[OF assms(1) I(1) I'(1) s(2) s'(2) f f' that] .
  have states: "map state (nodes (graph s)) = map state (nodes (ws_graph s'))"
    using same sched_inv_frame(3)[OF s(1) assms(1)] executing_frame(3)[OF I'(1) assms(1)]
    by (intro nth_equalityI) simp_all
  have count: "length (filter (\<lambda>nd. state nd = c) ns) = length (filter (\<lambda>x. x = c) (map state ns))"
    for c and ns :: "task node list"
    by (simp add: filter_map comp_def)
  have n: "length (filter (\<lambda>nd. state nd = c) (nodes (graph s))) =
      length (filter (\<lambda>nd. state nd = c) (nodes (ws_graph s')))" for c
    unfolding count states ..
  show ?thesis unfolding s(3) s'(3) from_graph_counts using same n by simp
qed

definition all_pass :: "nat \<Rightarrow> round_input" where
  "all_pass n = \<lparr>now = n, ram_limited = False, first_answer = (n, outcome_executed), more_answers = []\<rparr>"

definition ws_all_pass :: "nat \<Rightarrow> ws_input" where
  "ws_all_pass n = \<lparr>measured = Map.empty, ws_first = (0, outcome_executed), ws_more = []\<rparr>"

definition task_pair :: "task build_graph" where
  "task_pair = \<lparr>nodes = [\<lparr>node_id = 0, payload = echo_task ''a'', state = Pending\<rparr>,
                        \<lparr>node_id = 1, payload = echo_task ''b'', state = Pending\<rparr>],
               deps = [[], [0]], dependents = [[1], []]\<rparr>"

lemma wf_task_pair: "wf_graph task_pair"
proof -
  have "shape_ok task_pair"
    by (rule shape_okI) (auto simp: task_pair_def len_def less_Suc_eq nth_Cons' simp del: length_nodes split: if_splits)
  moreover have "edges task_pair = {(0, 1)}"
    by (auto simp: edges_def succ_rel_def task_pair_def less_Suc_eq nth_Cons' split: if_splits)
  then have "acyclic (edges task_pair)"
    by (intro acyclic_by_rank[where f = "\<lambda>x. x"]) simp
  ultimately show ?thesis by (simp add: wf_graph_def)
qed

lemma len_task_pair [simp]: "len task_pair = 2"
  by (simp add: task_pair_def len_def del: length_nodes)

lemma all_pass_runs:
  "case run_build 3 (new_scheduler 1) all_pass task_pair of
     Some (Inr (s, b)) \<Rightarrow> list_all (\<lambda>tm. t_status tm = Run_Executed) (timings s) | _ \<Rightarrow> False"
  by code_simp

lemma ws_all_pass_runs:
  "case ws_run 3 1 ws_all_pass task_pair of
     Some (Inr (s, b)) \<Rightarrow> list_all (\<lambda>tm. t_status tm = Run_Executed) (ws_timings s) | _ \<Rightarrow> False"
  by code_simp

lemma weights_fit_all_pass: "weights_fit task_pair (measured (ws_all_pass n))"
  by (simp add: weights_fit_def get_estimated_weight_def ws_all_pass_def u64_max_def)

theorem schedulers_agree_witness:
  "\<exists>s b s' b'. run_build 3 (new_scheduler 1) all_pass task_pair = Some (Inr (s, b)) \<and>
     ws_run 3 1 ws_all_pass task_pair = Some (Inr (s', b')) \<and>
     (\<forall>j < 2. st (graph s) j = st (ws_graph s') j)"
proof -
  obtain s b where r: "run_build 3 (new_scheduler 1) all_pass task_pair = Some (Inr (s, b))"
    "list_all (\<lambda>tm. t_status tm = Run_Executed) (timings s)"
    using all_pass_runs by (auto split: option.splits sum.splits)
  obtain s' b' where r': "ws_run 3 1 ws_all_pass task_pair = Some (Inr (s', b'))"
    "list_all (\<lambda>tm. t_status tm = Run_Executed) (ws_timings s')"
    using ws_all_pass_runs by (auto split: option.splits sum.splits)
  have n: "3 = Suc (len task_pair)" by simp
  have "\<forall>j < len task_pair. st (graph s) j = st (ws_graph s') j"
    using schedulers_agree[where oc = "\<lambda>_. Run_Executed", OF wf_task_pair scheduler_ok_new
        weights_fit_all_pass r(1)[unfolded n] r'(1)[unfolded n]] r(2) r'(2) unfolding list_all_iff by blast
  with r(1) r'(1) show ?thesis by auto
qed

end
