(* ===== verification/Bin_Packing.thy ===== *)
theory Bin_Packing
  imports Critical_Path "HOL-Library.Multiset" "HOL-Library.Product_Lexorder"
begin

text \<open>
  Distribution of tasks over remote agents: \<open>DteBinPacker::partition_tasks\<close> of
  \<open>fish-scheduler/src/bin_packing.rs\<close>. Longest task first, each to the agent with the
  least load, ties to the lower agent number.
\<close>

record task_estimate =
  e_node_id :: nat
  e_label :: string
  estimated_duration :: nat

record agent_bucket =
  agent_id :: nat
  total_duration :: nat
  task_ids :: "nat list"

definition give_task :: "task_estimate \<Rightarrow> agent_bucket list \<Rightarrow> agent_bucket list option" where
  "give_task t buckets =
     (case sort_key (\<lambda>b. (total_duration b, agent_id b)) buckets of
        [] \<Rightarrow> None
      | b # bs \<Rightarrow>
          map_option (\<lambda>d. b\<lparr>task_ids := task_ids b @ [e_node_id t], total_duration := d\<rparr> # bs)
            (add_duration (total_duration b) (estimated_duration t)))"

definition partition_tasks :: "task_estimate list \<Rightarrow> nat \<Rightarrow> agent_bucket list option" where
  "partition_tasks tasks agent_count =
     map_option (sort_key agent_id)
       (fold_opt (\<lambda>bs t. give_task t bs)
          (map (\<lambda>i. \<lparr>agent_id = i, total_duration = 0, task_ids = []\<rparr>) [0..<max agent_count 1])
          (sort_key (\<lambda>t. - int (estimated_duration t)) tasks))"

text \<open>The invariant of the loop, for the tasks handed out so far.\<close>

definition buckets_ok :: "nat \<Rightarrow> task_estimate list \<Rightarrow> agent_bucket list \<Rightarrow> bool" where
  "buckets_ok n ts bs \<longleftrightarrow>
     mset (map agent_id bs) = mset [0..<n] \<and>
     mset (concat (map task_ids bs)) = mset (map e_node_id ts) \<and>
     sum_list (map total_duration bs) = sum_list (map estimated_duration ts) \<and>
     (\<forall>b \<in> set bs. \<forall>c \<in> set bs. \<forall>M. (\<forall>t \<in> set ts. estimated_duration t \<le> M) \<longrightarrow>
        total_duration b \<le> total_duration c + M)"

lemma buckets_ok_mset:
  assumes "buckets_ok n ts bs" "mset bs' = mset bs"
  shows "buckets_ok n ts bs'"
proof -
  have "mset (map f bs') = mset (map f bs)" for f :: "agent_bucket \<Rightarrow> nat"
    using assms(2) by (metis mset_map)
  moreover have "mset (concat (map task_ids bs')) = mset (concat (map task_ids bs))"
    using assms(2) by (metis mset_concat mset_map sum_mset_sum_list)
  moreover have "sum_list (map total_duration bs') = sum_list (map total_duration bs)"
    using assms(2) by (metis mset_map sum_mset_sum_list)
  ultimately show ?thesis
    using assms mset_eq_setD[OF assms(2)] unfolding buckets_ok_def by simp
qed

lemma give_task_ok:
  assumes "buckets_ok n ts bs" "0 < n"
    and fits: "sum_list (map estimated_duration ts) + estimated_duration t \<le> duration_max"
  shows "\<exists>bs'. give_task t bs = Some bs' \<and> buckets_ok n (ts @ [t]) bs'"
proof -
  let ?s = "sort_key (\<lambda>b. (total_duration b, agent_id b)) bs"
  have s: "buckets_ok n ts ?s" by (rule buckets_ok_mset[OF assms(1)]) simp
  have "mset (map agent_id ?s) = mset [0..<n]" using s by (simp add: buckets_ok_def)
  then have "size (mset (map agent_id ?s)) = n" by simp
  then have "length bs \<noteq> 0" using assms(2) by simp
  then have "?s \<noteq> []" by (metis length_0_conv length_sort)
  then obtain b rest where b: "?s = b # rest" by (cases ?s) auto
  have min: "total_duration b \<le> total_duration c" if "c \<in> set rest" for c
  proof -
    have "sorted (map (\<lambda>b. (total_duration b, agent_id b)) (b # rest))"
      using sorted_sort_key[of "\<lambda>b. (total_duration b, agent_id b)" bs] unfolding b .
    then show ?thesis using that by (auto simp: less_eq_prod_def)
  qed
  have "total_duration b \<le> sum_list (map total_duration ?s)" by (simp add: b)
  also have "\<dots> = sum_list (map estimated_duration ts)" using s by (simp add: buckets_ok_def)
  finally have "add_duration (total_duration b) (estimated_duration t) =
      Some (total_duration b + estimated_duration t)"
    using fits by (simp add: add_duration_def)
  then have run: "give_task t bs =
      Some (b\<lparr>task_ids := task_ids b @ [e_node_id t], total_duration := total_duration b + estimated_duration t\<rparr> # rest)"
    (is "_ = Some (?b # rest)")
    by (simp add: give_task_def b)
  have "total_duration x \<le> total_duration y + M"
    if xy: "x \<in> set (?b # rest)" "y \<in> set (?b # rest)" and M: "\<forall>u \<in> set (ts @ [t]). estimated_duration u \<le> M" for x y M
  proof -
    have old: "total_duration u \<le> total_duration v + M" if "u \<in> set (b # rest)" "v \<in> set (b # rest)" for u v
    proof -
      have "\<forall>u \<in> set ts. estimated_duration u \<le> M"
        using M by simp
      with s that show ?thesis unfolding b buckets_ok_def by blast
    qed
    have "estimated_duration t \<le> M" using M by simp
    consider "x = ?b" "y = ?b" | "x = ?b" "y \<in> set rest" | "x \<in> set rest" "y = ?b" | "x \<in> set rest" "y \<in> set rest"
      using xy by auto
    then show ?thesis
    proof cases
      case 2
      then show ?thesis using min[of y] \<open>estimated_duration t \<le> M\<close> by simp
    next
      case 3
      then show ?thesis using old[of x b] by simp
    qed (use old in auto)
  qed
  moreover have "mset (concat (map task_ids (?b # rest))) = mset (map e_node_id (ts @ [t]))"
    "mset (map agent_id (?b # rest)) = mset [0..<n]"
    "sum_list (map total_duration (?b # rest)) = sum_list (map estimated_duration (ts @ [t]))"
    using s unfolding b buckets_ok_def by (simp_all add: ac_simps)
  ultimately show ?thesis unfolding run buckets_ok_def by blast
qed

lemma partition_tasks_ok:
  assumes fits: "sum_list (map estimated_duration tasks) \<le> duration_max"
  obtains bs where "partition_tasks tasks agents = Some bs" "map agent_id bs = [0..<max agents 1]"
    "mset (concat (map task_ids bs)) = mset (map e_node_id tasks)"
    "sum_list (map total_duration bs) = sum_list (map estimated_duration tasks)"
    "\<And>b c M. b \<in> set bs \<Longrightarrow> c \<in> set bs \<Longrightarrow> \<forall>t \<in> set tasks. estimated_duration t \<le> M \<Longrightarrow>
       total_duration b \<le> total_duration c + M"
proof -
  let ?n = "max agents 1"
  let ?init = "map (\<lambda>i. \<lparr>agent_id = i, total_duration = 0, task_ids = []\<rparr>) [0..<?n]"
  let ?ts = "sort_key (\<lambda>t. - int (estimated_duration t)) tasks"
  have sum: "sum_list (map estimated_duration ?ts) = sum_list (map estimated_duration tasks)"
    by (simp flip: sum_mset_sum_list)
  have "buckets_ok ?n [] ?init"
    by (auto simp: buckets_ok_def comp_def concat_eq_Nil_conv)
  moreover have "\<exists>bs'. fold_opt (\<lambda>bs t. give_task t bs) bs todo = Some bs' \<and> buckets_ok ?n (gone @ todo) bs'"
    if "buckets_ok ?n gone bs" "sum_list (map estimated_duration (gone @ todo)) \<le> duration_max" for gone todo bs
    using that
  proof (induction todo arbitrary: gone bs)
    case (Cons t todo)
    then obtain bs1 where "give_task t bs = Some bs1" "buckets_ok ?n (gone @ [t]) bs1"
      using give_task_ok[of ?n gone bs t] less_max_iff_disj[of 0 agents 1] by auto
    with Cons.IH[of "gone @ [t]" bs1] Cons.prems show ?case by auto
  qed simp
  ultimately obtain bs where bs: "fold_opt (\<lambda>bs t. give_task t bs) ?init ?ts = Some bs" "buckets_ok ?n ?ts bs"
    using fits sum by (metis append_Nil)
  then have ok: "buckets_ok ?n ?ts (sort_key agent_id bs)"
    using buckets_ok_mset by (metis mset_sort)
  then have "mset (map agent_id (sort_key agent_id bs)) = mset [0..<?n]" by (simp add: buckets_ok_def)
  moreover have "sorted (map agent_id (sort_key agent_id bs))" by (rule sorted_sort_key)
  ultimately have ids: "map agent_id (sort_key agent_id bs) = [0..<?n]"
    by (metis properties_for_sort sort_upt)
  have ids_m: "mset (map e_node_id ?ts) = mset (map e_node_id tasks)" by (metis mset_map mset_sort)
  show thesis
    by (rule that[of "sort_key agent_id bs"])
      (use bs(1) ids ok sum ids_m in \<open>auto simp: partition_tasks_def buckets_ok_def simp del: sort_key_simps\<close>)
qed

subsection \<open>Properties\<close>

text \<open>
  When the durations fit, the distribution returns one bucket per agent (at least one),
  in agent order; every task is in exactly one bucket and no duration is lost; and the loads
  are balanced: no agent has more than the longest task above any other.
\<close>

theorem partition_tasks_correct:
  assumes "sum_list (map estimated_duration tasks) \<le> duration_max"
  shows "\<exists>bs. partition_tasks tasks agents = Some bs \<and> map agent_id bs = [0..<max agents 1] \<and>
    mset (concat (map task_ids bs)) = mset (map e_node_id tasks) \<and>
    sum_list (map total_duration bs) = sum_list (map estimated_duration tasks) \<and>
    (\<forall>b \<in> set bs. \<forall>c \<in> set bs.
       total_duration b \<le> total_duration c + max_or_zero (map estimated_duration tasks))"
proof (rule partition_tasks_ok[OF assms, of agents])
  fix bs
  assume *: "partition_tasks tasks agents = Some bs" "map agent_id bs = [0..<max agents 1]"
    "mset (concat (map task_ids bs)) = mset (map e_node_id tasks)"
    "sum_list (map total_duration bs) = sum_list (map estimated_duration tasks)"
    "\<And>b c M. b \<in> set bs \<Longrightarrow> c \<in> set bs \<Longrightarrow> \<forall>t \<in> set tasks. estimated_duration t \<le> M \<Longrightarrow>
       total_duration b \<le> total_duration c + M"
  have "\<forall>t \<in> set tasks. estimated_duration t \<le> max_or_zero (map estimated_duration tasks)" by simp
  with * show ?thesis by (intro exI[of _ bs]) blast
qed

definition estimate :: "nat \<Rightarrow> nat \<Rightarrow> task_estimate" where
  "estimate i d = \<lparr>e_node_id = i, e_label = [], estimated_duration = d\<rparr>"

theorem partition_tasks_correct_witness:
  "\<exists>bs. partition_tasks [estimate 0 10, estimate 1 8, estimate 2 6, estimate 3 4] 2 = Some bs \<and>
     map agent_id bs = [0, 1] \<and> sum_list (map total_duration bs) = 28"
  using partition_tasks_correct[of "[estimate 0 10, estimate 1 8, estimate 2 6, estimate 3 4]" 2]
  by (auto simp: estimate_def duration_max_def upt_rec)

end
