(* ===== verification/Pipelining.thy ===== *)
theory Pipelining
  imports Fish_Prelude
begin

text \<open>
  Pipelined compilation, \<open>fish-scheduler/src/pipelining.rs\<close>: a dependent may start when the
  metadata of its dependencies is there, before they are linked. The stages are ordered by
  progress; the order is not in the source and serves the specifications.
\<close>

datatype pipeline_stage = StagePending | MetadataReady | ObjectReady | ArtifactLinked

fun stage_rank :: "pipeline_stage \<Rightarrow> nat" where
  "stage_rank StagePending = 0"
| "stage_rank MetadataReady = 1"
| "stage_rank ObjectReady = 2"
| "stage_rank ArtifactLinked = 3"

lemma stage_rank_inj: "stage_rank a = stage_rank b \<Longrightarrow> a = b"
  by (cases a; cases b) simp_all

instantiation pipeline_stage :: linorder
begin

definition less_eq_pipeline_stage :: "pipeline_stage \<Rightarrow> pipeline_stage \<Rightarrow> bool" where
  "less_eq_pipeline_stage a b \<longleftrightarrow> stage_rank a \<le> stage_rank b"

definition less_pipeline_stage :: "pipeline_stage \<Rightarrow> pipeline_stage \<Rightarrow> bool" where
  "less_pipeline_stage a b \<longleftrightarrow> stage_rank a < stage_rank b"

instance
  by standard (auto simp: less_eq_pipeline_stage_def less_pipeline_stage_def stage_rank_inj)

end

type_synonym coordinator = "nat \<rightharpoonup> pipeline_stage"

definition new_coordinator :: coordinator where
  "new_coordinator = Map.empty"

definition set_stage :: "nat \<Rightarrow> pipeline_stage \<Rightarrow> coordinator \<Rightarrow> coordinator" where
  "set_stage i s c = c(i \<mapsto> s)"

definition get_stage :: "coordinator \<Rightarrow> nat \<Rightarrow> pipeline_stage" where
  "get_stage c i = (case c i of None \<Rightarrow> StagePending | Some s \<Rightarrow> s)"

definition can_start_compilation :: "coordinator \<Rightarrow> nat list \<Rightarrow> bool" where
  "can_start_compilation c ds \<longleftrightarrow>
     list_all (\<lambda>d. case get_stage c d of
         MetadataReady \<Rightarrow> True | ObjectReady \<Rightarrow> True | ArtifactLinked \<Rightarrow> True | _ \<Rightarrow> False) ds"

definition can_start_linking :: "coordinator \<Rightarrow> nat \<Rightarrow> nat list \<Rightarrow> bool" where
  "can_start_linking c i ds \<longleftrightarrow>
     (if get_stage c i \<noteq> ObjectReady \<and> get_stage c i \<noteq> ArtifactLinked then False
      else list_all (\<lambda>d. get_stage c d = ArtifactLinked) ds)"

definition is_active :: "coordinator \<Rightarrow> nat \<Rightarrow> bool" where
  "is_active c i \<longleftrightarrow> (case c i of None \<Rightarrow> False | Some s \<Rightarrow> s \<noteq> StagePending)"

definition ready_pipelined_nodes :: "coordinator \<Rightarrow> nat list \<Rightarrow> (nat \<rightharpoonup> nat list) \<Rightarrow> nat list" where
  "ready_pipelined_nodes c ids deps_map =
     foldl (\<lambda>ready i.
         if is_active c i then ready
         else case deps_map i of
             Some ds \<Rightarrow> if can_start_compilation c ds then ready @ [i] else ready
           | None \<Rightarrow> ready @ [i])
       [] ids"

lemma can_start_compilation_iff:
  "can_start_compilation c ds \<longleftrightarrow> (\<forall>d \<in> set ds. MetadataReady \<le> get_stage c d)"
proof -
  have "(case s of MetadataReady \<Rightarrow> True | ObjectReady \<Rightarrow> True | ArtifactLinked \<Rightarrow> True | _ \<Rightarrow> False) \<longleftrightarrow>
      MetadataReady \<le> s" for s
    by (cases s) (simp_all add: less_eq_pipeline_stage_def)
  then show ?thesis by (simp add: can_start_compilation_def list_all_iff)
qed

lemma can_start_linking_iff:
  "can_start_linking c i ds \<longleftrightarrow>
     ObjectReady \<le> get_stage c i \<and> (\<forall>d \<in> set ds. ArtifactLinked \<le> get_stage c d)"
proof -
  have "ArtifactLinked \<le> s \<longleftrightarrow> s = ArtifactLinked" "ObjectReady \<le> s \<longleftrightarrow> s = ObjectReady \<or> s = ArtifactLinked" for s
    by (cases s; simp add: less_eq_pipeline_stage_def)+
  then show ?thesis by (auto simp: can_start_linking_def list_all_iff)
qed

lemma is_active_iff: "is_active c i \<longleftrightarrow> get_stage c i \<noteq> StagePending"
  by (simp add: is_active_def get_stage_def split: option.splits)

lemma get_set_stage: "get_stage (set_stage i s c) j = (if j = i then s else get_stage c j)"
  by (simp add: get_stage_def set_stage_def)

lemma ready_pipelined_nodes_eq:
  "ready_pipelined_nodes c ids dm =
     filter (\<lambda>i. get_stage c i = StagePending \<and>
               (\<forall>ds. dm i = Some ds \<longrightarrow> can_start_compilation c ds)) ids"
proof -
  let ?P = "\<lambda>i. get_stage c i = StagePending \<and> (\<forall>ds. dm i = Some ds \<longrightarrow> can_start_compilation c ds)"
  have "foldl (\<lambda>ready i.
         if is_active c i then ready
         else case dm i of
             Some ds \<Rightarrow> if can_start_compilation c ds then ready @ [i] else ready
           | None \<Rightarrow> ready @ [i]) acc ids = acc @ filter ?P ids" for acc
    by (induction ids arbitrary: acc) (auto simp: is_active_iff split: option.splits)
  then show ?thesis by (simp add: ready_pipelined_nodes_def)
qed

subsection \<open>Properties\<close>

text \<open>
  The pipelining rules: compilation may start exactly when every dependency has reached
  metadata, linking when the node has its object and every dependency is linked, and the
  ready list is exactly the listed nodes that have not started and whose dependencies allow
  it. Progress never revokes a permission: raising the stage of a node keeps every start of
  a compilation and every link allowed.
\<close>

theorem pipelining_correct:
  assumes "get_stage c i \<le> s"
  shows "(can_start_compilation c ds \<longleftrightarrow> (\<forall>d \<in> set ds. MetadataReady \<le> get_stage c d)) \<and>
    (can_start_linking c j ds \<longleftrightarrow>
       ObjectReady \<le> get_stage c j \<and> (\<forall>d \<in> set ds. get_stage c d = ArtifactLinked)) \<and>
    (can_start_compilation c ds \<longrightarrow> can_start_compilation (set_stage i s c) ds) \<and>
    (can_start_linking c j ds \<longrightarrow> can_start_linking (set_stage i s c) j ds) \<and>
    ready_pipelined_nodes c ids dm =
      filter (\<lambda>i. get_stage c i = StagePending \<and>
               (\<forall>ds. dm i = Some ds \<longrightarrow> can_start_compilation c ds)) ids"
proof -
  have linked: "ArtifactLinked \<le> x \<longleftrightarrow> x = ArtifactLinked" for x
    by (cases x) (simp_all add: less_eq_pipeline_stage_def)
  have "get_stage c d \<le> get_stage (set_stage i s c) d" for d
    using assms by (simp add: get_set_stage)
  then have mono: "x \<le> get_stage c d \<Longrightarrow> x \<le> get_stage (set_stage i s c) d" for x d
    using order_trans by blast
  show ?thesis
    unfolding can_start_compilation_iff can_start_linking_iff ready_pipelined_nodes_eq linked[symmetric]
    using mono by blast
qed

theorem pipelining_correct_witness:
  "can_start_compilation (set_stage 0 ObjectReady (set_stage 0 MetadataReady new_coordinator)) [0]"
proof -
  let ?c = "set_stage 0 MetadataReady new_coordinator"
  have "get_stage ?c 0 \<le> ObjectReady" "can_start_compilation ?c [0]"
    by (simp_all add: get_set_stage can_start_compilation_def less_eq_pipeline_stage_def)
  then show ?thesis using pipelining_correct[of ?c 0 ObjectReady "[0]"] by blast
qed

end
