(* ===== verification/Lru_Cache.thy ===== *)
theory Lru_Cache
  imports Fish_Prelude
begin

text \<open>
  The least-recently-used caches of \<open>fish-cache/src/strategies.rs\<close>: \<open>LruCache\<close> and its
  spin-lock variant. \<open>entries\<close> is the hash map, \<open>access_order\<close> the deque with the most
  recently used key first. The locks serialise the operations, so each operation is one
  function on the state. The clock is an argument. The abstract contract is a list of
  \<open>(key, value, size)\<close> in order of use; the operations refine its operations.
\<close>

record ('k, 'v) lru_entry =
  e_key :: 'k
  e_value :: 'v
  access_count :: nat
  last_access :: nat
  e_size :: nat

record ('k, 'v) lru_cache =
  capacity :: nat
  current_size :: nat
  max_size :: nat
  hits :: nat
  misses :: nat
  entries :: "('k, ('k, 'v) lru_entry) hash_map"
  access_order :: "'k list"

definition new_lru :: "nat \<Rightarrow> nat \<Rightarrow> ('k, 'v) lru_cache" where
  "new_lru cap mx = \<lparr>capacity = cap, current_size = 0, max_size = mx, hits = 0, misses = 0,
     entries = [], access_order = []\<rparr>"

text \<open>\<open>position\<close>, \<open>remove\<close> and \<open>push_front\<close> on the deque.\<close>

definition move_to_front :: "'k \<Rightarrow> 'k list \<Rightarrow> 'k list" where
  "move_to_front k order = (if k \<in> set order then k # remove1 k order else order)"

text \<open>
  The two counters are atomics, which wrap around. So does the access count of an entry, a \<open>u64\<close>, in a release
  build; with overflow checks the access after 2^64 - 1 hits of one entry panics.
\<close>

definition get_with_size :: "nat \<Rightarrow> 'k \<Rightarrow> ('k, 'v) lru_cache \<Rightarrow> ('v \<times> nat) option \<times> ('k, 'v) lru_cache" where
  "get_with_size now k c =
     (case hm_get (entries c) k of
        Some e \<Rightarrow>
          (Some (e_value e, e_size e),
           c\<lparr>entries := hm_insert k (e\<lparr>access_count := (access_count e + 1) mod 2 ^ 64, last_access := now\<rparr>) (entries c),
             hits := (hits c + 1) mod 2 ^ 64,
             access_order := move_to_front k (access_order c)\<rparr>)
      | None \<Rightarrow> (None, c\<lparr>misses := (misses c + 1) mod 2 ^ 64\<rparr>))"

definition lru_get :: "nat \<Rightarrow> 'k \<Rightarrow> ('k, 'v) lru_cache \<Rightarrow> 'v option \<times> ('k, 'v) lru_cache" where
  "lru_get now k c = (case get_with_size now k c of (r, c') \<Rightarrow> (map_option fst r, c'))"

text \<open>The condition of the eviction loop; the sum is evaluated only if there is room for a key.\<close>

definition must_evict :: "nat \<Rightarrow> ('k, 'v) lru_cache \<Rightarrow> bool option" where
  "must_evict s c =
     (if capacity c \<le> length (entries c) then Some True
      else map_option (\<lambda>t. max_size c < t) (add_u64 (current_size c) s))"

function evict_loop ::
  "nat \<Rightarrow> ('k, 'v) lru_cache \<Rightarrow> ('k \<times> 'v \<times> nat) list \<Rightarrow> (('k, 'v) lru_cache \<times> ('k \<times> 'v \<times> nat) list) option"
where
  "evict_loop s c evicted =
     (case must_evict s c of
        None \<Rightarrow> None
      | Some b \<Rightarrow>
          if b \<and> access_order c \<noteq> [] then
            let oldest = last (access_order c);
                c1 = c\<lparr>access_order := butlast (access_order c)\<rparr>
            in (case hm_get (entries c1) oldest of
                  None \<Rightarrow> evict_loop s c1 evicted
                | Some e \<Rightarrow>
                    (case sub_u64 (current_size c1) (e_size e) of
                       None \<Rightarrow> None
                     | Some n \<Rightarrow>
                         evict_loop s (c1\<lparr>entries := hm_remove oldest (entries c1), current_size := n\<rparr>)
                           (evicted @ [(e_key e, e_value e, e_size e)])))
          else Some (c, evicted))"
  by pat_completeness auto
termination evict_loop
  by (relation "measure (\<lambda>(s, c, evicted). length (access_order c))") auto

declare evict_loop.simps [simp del]

definition put_with_evictions ::
  "nat \<Rightarrow> 'k \<Rightarrow> 'v \<Rightarrow> nat \<Rightarrow> ('k, 'v) lru_cache \<Rightarrow>
     (('v option \<times> ('k \<times> 'v \<times> nat) list) \<times> ('k, 'v) lru_cache) option"
where
  "put_with_evictions now k v s c =
     (case hm_get (entries c) k of
        Some e \<Rightarrow> do {
          less \<leftarrow> sub_u64 (current_size c) (e_size e);
          sz \<leftarrow> add_u64 less s;
          Some ((Some (e_value e), []),
            c\<lparr>entries := hm_insert k (e\<lparr>e_value := v, e_size := s, last_access := now\<rparr>) (entries c),
              current_size := sz,
              access_order := move_to_front k (access_order c)\<rparr>)
        }
      | None \<Rightarrow> do {
          (c1, evicted) \<leftarrow> evict_loop s c [];
          sz \<leftarrow> add_u64 (current_size c1) s;
          Some ((None, evicted),
            c1\<lparr>current_size := sz,
               entries := hm_insert k \<lparr>e_key = k, e_value = v, access_count = 0, last_access = now, e_size = s\<rparr>
                            (entries c1),
               access_order := k # access_order c1\<rparr>)
        })"

definition lru_put :: "nat \<Rightarrow> 'k \<Rightarrow> 'v \<Rightarrow> nat \<Rightarrow> ('k, 'v) lru_cache \<Rightarrow> ('v option \<times> ('k, 'v) lru_cache) option" where
  "lru_put now k v s c = map_option (\<lambda>((old, _), c'). (old, c')) (put_with_evictions now k v s c)"

definition lru_remove :: "'k \<Rightarrow> ('k, 'v) lru_cache \<Rightarrow> ('v option \<times> ('k, 'v) lru_cache) option" where
  "lru_remove k c =
     (case hm_get (entries c) k of
        None \<Rightarrow> Some (None, c)
      | Some e \<Rightarrow>
          map_option (\<lambda>n. (Some (e_value e),
              c\<lparr>entries := hm_remove k (entries c), current_size := n,
                access_order := filter (\<lambda>j. j \<noteq> k) (access_order c)\<rparr>))
            (sub_u64 (current_size c) (e_size e)))"

definition lru_clear :: "('k, 'v) lru_cache \<Rightarrow> ('k, 'v) lru_cache" where
  "lru_clear c = c\<lparr>entries := [], access_order := [], current_size := 0\<rparr>"

subsection \<open>The invariant\<close>

definition lru_inv :: "('k, 'v) lru_cache \<Rightarrow> bool" where
  "lru_inv c \<longleftrightarrow>
     distinct (hm_keys (entries c)) \<and> distinct (access_order c) \<and>
     set (access_order c) = fst ` set (entries c) \<and>
     current_size c = hm_sum e_size (entries c) \<and> current_size c \<le> u64_max \<and>
     (\<forall>k e. hm_get (entries c) k = Some e \<longrightarrow> e_key e = k)"

lemma lru_invD:
  assumes "lru_inv c"
  shows "distinct (hm_keys (entries c))" "distinct (access_order c)"
    "set (access_order c) = fst ` set (entries c)" "current_size c = hm_sum e_size (entries c)"
    "current_size c \<le> u64_max" "\<And>k e. hm_get (entries c) k = Some e \<Longrightarrow> e_key e = k"
  using assms unfolding lru_inv_def by blast+

lemma lru_inv_length: "lru_inv c \<Longrightarrow> length (access_order c) = length (entries c)"
  using distinct_card[of "access_order c"] distinct_card[of "hm_keys (entries c)"]
  by (simp add: lru_inv_def)

lemma lru_inv_new [simp]: "lru_inv (new_lru cap mx)"
  by (simp add: lru_inv_def new_lru_def)

lemma distinct_hm_insert: "distinct (hm_keys m) \<Longrightarrow> distinct (hm_keys (hm_insert k v m))"
  by (rule distinct_update)

lemma distinct_hm_remove: "distinct (hm_keys m) \<Longrightarrow> distinct (hm_keys (hm_remove k m))"
  by (rule distinct_delete)

lemma hm_sum_update_same:
  "hm_get m k = Some e \<Longrightarrow> f e' = f e \<Longrightarrow> hm_sum f (hm_insert k e' m) = hm_sum f m"
  using hm_sum_insert_old[of m k e f e'] by simp

subsection \<open>The abstract cache\<close>

text \<open>Entries in order of use, most recent first.\<close>

type_synonym ('k, 'v) recency = "('k \<times> 'v \<times> nat) list"

definition view :: "('k, ('k, 'v) lru_entry) hash_map \<Rightarrow> 'k \<Rightarrow> 'k \<times> 'v \<times> nat" where
  "view m k = (let e = the (hm_get m k) in (k, e_value e, e_size e))"

definition lru_abs :: "('k, 'v) lru_cache \<Rightarrow> ('k, 'v) recency" where
  "lru_abs c = map (view (entries c)) (access_order c)"

definition recency_find :: "'k \<Rightarrow> ('k, 'v) recency \<Rightarrow> ('v \<times> nat) option" where
  "recency_find = (\<lambda>k xs. map_of xs k)"

definition recency_drop :: "'k \<Rightarrow> ('k, 'v) recency \<Rightarrow> ('k, 'v) recency" where
  "recency_drop k xs = filter (\<lambda>x. fst x \<noteq> k) xs"

definition recency_use :: "'k \<Rightarrow> ('k, 'v) recency \<Rightarrow> ('k, 'v) recency" where
  "recency_use k xs = (case recency_find k xs of None \<Rightarrow> xs | Some vs \<Rightarrow> (k, vs) # recency_drop k xs)"

definition total_size :: "('k, 'v) recency \<Rightarrow> nat" where
  "total_size xs = sum_list (map (snd \<circ> snd) xs)"

text \<open>How many entries may stay beside a new one of size \<open>s\<close>: as many of the most recent as fit.\<close>

fun keep_count :: "nat \<Rightarrow> nat \<Rightarrow> nat \<Rightarrow> ('k, 'v) recency \<Rightarrow> nat \<Rightarrow> nat" where
  "keep_count cap mx s xs 0 = 0"
| "keep_count cap mx s xs (Suc n) =
     (if Suc n < cap \<and> total_size (take (Suc n) xs) + s \<le> mx then Suc n else keep_count cap mx s xs n)"

definition recency_put ::
  "nat \<Rightarrow> nat \<Rightarrow> 'k \<Rightarrow> 'v \<Rightarrow> nat \<Rightarrow> ('k, 'v) recency \<Rightarrow> ('v option \<times> ('k, 'v) recency) \<times> ('k, 'v) recency"
where
  "recency_put cap mx k v s xs =
     (case recency_find k xs of
        Some (old, _) \<Rightarrow> ((Some old, []), (k, v, s) # recency_drop k xs)
      | None \<Rightarrow>
          let n = keep_count cap mx s xs (length xs)
          in ((None, rev (drop n xs)), (k, v, s) # take n xs))"

lemma fst_view [simp]: "fst (view m k) = k"
  by (simp add: view_def Let_def)

lemma view_insert: "view (hm_insert k e m) j = (if j = k then (k, e_value e, e_size e) else view m j)"
  by (simp add: view_def)

lemma view_remove: "j \<noteq> k \<Longrightarrow> view (hm_remove k m) j = view m j"
  by (simp add: view_def)

lemma keys_lru_abs [simp]: "map fst (lru_abs c) = access_order c"
  by (simp add: lru_abs_def comp_def)

lemma length_lru_abs [simp]: "length (lru_abs c) = length (access_order c)"
  by (simp add: lru_abs_def)

lemma lru_abs_Nil_iff [simp]: "lru_abs c = [] \<longleftrightarrow> access_order c = []"
  by (simp add: lru_abs_def)

lemma recency_find_abs:
  assumes "lru_inv c"
  shows "recency_find k (lru_abs c) = map_option (\<lambda>e. (e_value e, e_size e)) (hm_get (entries c) k)"
proof -
  note I = lru_invD[OF assms]
  have "map_of (map (view m) ks) k = (if k \<in> set ks then Some (snd (view m k)) else None)"
    for m :: "('a, ('a, 'b) lru_entry) hash_map" and ks
    by (induction ks) (auto simp: view_def Let_def)
  then show ?thesis
    using I(3) hm_get_key[of "entries c" k] hm_key_get[of k "entries c"]
    by (cases "hm_get (entries c) k") (auto simp: recency_find_def lru_abs_def view_def)
qed

lemma hm_sum_set:
  assumes "distinct (hm_keys m)"
  shows "hm_sum f m = (\<Sum>k \<in> fst ` set m. f (the (hm_get m k)))"
  using assms
proof (induction m)
  case (Cons p m)
  obtain k v where p: "p = (k, v)" by (cases p)
  have "(\<Sum>j \<in> fst ` set m. f (the (if j = k then Some v else hm_get m j))) = (\<Sum>j \<in> fst ` set m. f (the (hm_get m j)))"
    using Cons.prems p by (intro sum.cong) auto
  then show ?case using Cons p by (simp add: hm_sum_def)
qed (simp add: hm_sum_def)

lemma total_size_abs:
  assumes "lru_inv c"
  shows "total_size (lru_abs c) = current_size c"
proof -
  note I = lru_invD[OF assms]
  have "total_size (lru_abs c) = sum_list (map (\<lambda>k. e_size (the (hm_get (entries c) k))) (access_order c))"
    by (simp add: total_size_def lru_abs_def comp_def view_def Let_def)
  also have "\<dots> = (\<Sum>k \<in> set (access_order c). e_size (the (hm_get (entries c) k)))"
    using I(2) by (rule sum_list_distinct_conv_sum_set)
  finally show ?thesis using I(3,4) hm_sum_set[OF I(1), of e_size] by simp
qed

lemma keep_count_le: "keep_count cap mx s xs n \<le> n"
  by (induction n) auto

lemma keep_count_take: "n \<le> m \<Longrightarrow> keep_count cap mx s (take m xs) n = keep_count cap mx s xs n"
  by (induction n) (auto simp: min_def)

lemma keep_count_fits:
  "keep_count cap mx s xs n = 0 \<or>
   keep_count cap mx s xs n < cap \<and> total_size (take (keep_count cap mx s xs n) xs) + s \<le> mx"
  by (induction n) auto

lemma keep_count_maximal:
  "keep_count cap mx s xs n < m \<Longrightarrow> m \<le> n \<Longrightarrow> cap \<le> m \<or> mx < total_size (take m xs) + s"
  by (induction n) (auto simp: le_Suc_eq split: if_splits)

subsection \<open>Eviction\<close>

lemma must_evict_iff:
  assumes "lru_inv c" "current_size c + s \<le> u64_max"
  shows "must_evict s c = Some (\<not> (length (lru_abs c) < capacity c \<and> total_size (lru_abs c) + s \<le> max_size c))"
  using assms by (auto simp: must_evict_def lru_inv_length total_size_abs)

lemma evict_one:
  assumes inv: "lru_inv c" and "access_order c \<noteq> []"
  obtains e where "hm_get (entries c) (last (access_order c)) = Some e"
    "(e_key e, e_value e, e_size e) = last (lru_abs c)" "e_size e \<le> current_size c"
    "lru_inv (c\<lparr>access_order := butlast (access_order c),
        entries := hm_remove (last (access_order c)) (entries c), current_size := current_size c - e_size e\<rparr>)"
    "lru_abs (c\<lparr>access_order := butlast (access_order c),
        entries := hm_remove (last (access_order c)) (entries c), current_size := current_size c - e_size e\<rparr>)
      = butlast (lru_abs c)"
proof -
  note I = lru_invD[OF inv]
  let ?k = "last (access_order c)"
  have order: "access_order c = butlast (access_order c) @ [?k]" using assms(2) by simp
  have nin: "?k \<notin> set (butlast (access_order c))" "distinct (butlast (access_order c))"
    using I(2) by (subst (asm) order, simp)+
  have "?k \<in> set (access_order c)" using assms(2) by simp
  then obtain e where e: "hm_get (entries c) ?k = Some e" using I(3) hm_key_get by metis
  have key: "e_key e = ?k" using I(6)[OF e] .
  have size: "e_size e \<le> current_size c" using hm_get_le_sum[OF e, of e_size] I(4) by simp
  have sum: "hm_sum e_size (hm_remove ?k (entries c)) = current_size c - e_size e"
    using hm_sum_remove[OF I(1) e, of e_size] I(4) by simp
  have "set (butlast (access_order c)) = fst ` set (entries c) - {?k}"
    unfolding I(3)[symmetric] using nin by (subst (2) order) auto
  then have inv': "lru_inv (c\<lparr>access_order := butlast (access_order c),
        entries := hm_remove ?k (entries c), current_size := current_size c - e_size e\<rparr>)"
    using I(1,5,6) nin(2) sum by (auto simp: lru_inv_def distinct_removeAll)
  have "map (view (hm_remove ?k (entries c))) (butlast (access_order c)) =
      map (view (entries c)) (butlast (access_order c))"
    using nin(1) by (auto simp: view_def)
  then have "lru_abs (c\<lparr>access_order := butlast (access_order c),
        entries := hm_remove ?k (entries c), current_size := current_size c - e_size e\<rparr>) = butlast (lru_abs c)"
    by (simp add: lru_abs_def map_butlast)
  moreover have "last (lru_abs c) = (e_key e, e_value e, e_size e)"
    using assms(2) e key by (simp add: lru_abs_def last_map view_def)
  ultimately show thesis using that[OF e _ size inv'] by simp
qed

definition kept :: "nat \<Rightarrow> ('k, 'v) lru_cache \<Rightarrow> nat" where
  "kept s c = keep_count (capacity c) (max_size c) s (lru_abs c) (length (lru_abs c))"

definition same_limits :: "('k, 'v) lru_cache \<Rightarrow> ('k, 'v) lru_cache \<Rightarrow> bool" where
  "same_limits c c' \<longleftrightarrow> capacity c' = capacity c \<and> max_size c' = max_size c"

lemma kept_step:
  assumes "\<not> (length (lru_abs c) < capacity c \<and> total_size (lru_abs c) + s \<le> max_size c)"
    and "lru_abs c \<noteq> []" "lru_abs c1 = butlast (lru_abs c)" "same_limits c c1"
  shows "kept s c1 = kept s c" "kept s c < length (lru_abs c)"
proof -
  obtain m where m: "length (lru_abs c) = Suc m" using assms(2) by (cases "length (lru_abs c)") auto
  then have c: "kept s c = keep_count (capacity c) (max_size c) s (lru_abs c) m"
    using assms(1) by (auto simp: kept_def simp del: length_lru_abs)
  then show "kept s c < length (lru_abs c)" using m keep_count_le[of _ _ s "lru_abs c" m] by (simp add: le_imp_less_Suc)
  have "butlast (lru_abs c) = take m (lru_abs c)" using m by (simp add: butlast_conv_take del: length_lru_abs)
  then show "kept s c1 = kept s c"
    using assms(3,4) m unfolding c by (simp add: kept_def same_limits_def keep_count_take del: length_lru_abs)
qed

lemma evict_loop_spec:
  assumes "lru_inv c" "current_size c + s \<le> u64_max"
  shows "\<exists>c'. evict_loop s c ev = Some (c', ev @ rev (drop (kept s c) (lru_abs c))) \<and>
    lru_inv c' \<and> lru_abs c' = take (kept s c) (lru_abs c) \<and> same_limits c c' \<and>
    hits c' = hits c \<and> misses c' = misses c \<and> current_size c' \<le> current_size c"
  using assms
proof (induction "length (access_order c)" arbitrary: c ev)
  case 0
  then have "evict_loop s c ev = Some (c, ev)"
    by (subst evict_loop.simps) (simp add: must_evict_iff)
  with 0 show ?case by (simp add: kept_def same_limits_def)
next
  case (Suc n)
  let ?fits = "length (lru_abs c) < capacity c \<and> total_size (lru_abs c) + s \<le> max_size c"
  have must: "must_evict s c = Some (\<not> ?fits)" by (rule must_evict_iff[OF Suc.prems])
  show ?case
  proof (cases ?fits)
    case True
    then have "kept s c = length (lru_abs c)"
      using Suc.hyps(2) by (cases "length (lru_abs c)") (simp_all add: kept_def del: length_lru_abs)
    moreover have "evict_loop s c ev = Some (c, ev)"
      using True by (subst evict_loop.simps) (simp add: must)
    ultimately show ?thesis using Suc.prems by (simp add: same_limits_def)
  next
    case False
    let ?k = "last (access_order c)" and ?xs = "lru_abs c"
    have ne: "access_order c \<noteq> []" using Suc.hyps(2) by auto
    obtain e where e: "hm_get (entries c) ?k = Some e" "(e_key e, e_value e, e_size e) = last ?xs"
      "e_size e \<le> current_size c" and
      c1: "lru_inv (c\<lparr>access_order := butlast (access_order c), entries := hm_remove ?k (entries c),
         current_size := current_size c - e_size e\<rparr>)"
      "lru_abs (c\<lparr>access_order := butlast (access_order c), entries := hm_remove ?k (entries c),
         current_size := current_size c - e_size e\<rparr>) = butlast ?xs"
      by (rule evict_one[OF Suc.prems(1) ne])
    define c1 where "c1 = c\<lparr>access_order := butlast (access_order c), entries := hm_remove ?k (entries c),
         current_size := current_size c - e_size e\<rparr>"
    have c1: "lru_inv c1" "lru_abs c1 = butlast ?xs" using c1 by (simp_all add: c1_def)
    have frame: "same_limits c c1" "hits c1 = hits c" "misses c1 = misses c" "current_size c1 \<le> current_size c"
      "n = length (access_order c1)"
      using Suc.hyps(2) by (simp_all add: c1_def same_limits_def)
    have step: "evict_loop s c ev = evict_loop s c1 (ev @ [last ?xs])"
      using ne False e by (subst evict_loop.simps) (auto simp add: must Let_def c1_def)
    have room: "current_size c1 + s \<le> u64_max" using Suc.prems(2) frame(4) by linarith
    have xs: "?xs \<noteq> []" using ne by (metis length_0_conv length_lru_abs)
    note K = kept_step[OF False xs c1(2) frame(1)]
    have take: "take (kept s c) (butlast ?xs) = take (kept s c) ?xs"
      using K(2) by (simp add: butlast_conv_take del: length_lru_abs)
    have "?xs = butlast ?xs @ [last ?xs]" using xs by simp
    then have "drop (kept s c) ?xs = drop (kept s c) (butlast ?xs) @ [last ?xs]"
      using K(2) by (metis drop_append drop0 diff_is_0_eq' length_append_singleton less_Suc_eq_le)
    then show ?thesis
      using Suc.hyps(1)[OF frame(5) c1(1) room, of "ev @ [last ?xs]"] frame K(1) step c1(2) take
      by (auto simp: same_limits_def)
  qed
qed

subsection \<open>The operations refine the abstract ones\<close>

lemma map_view_move_to_front:
  assumes "distinct order" "k \<in> set order"
  shows "map (view (hm_insert k e m)) (move_to_front k order) =
    (k, e_value e, e_size e) # recency_drop k (map (view m) order)"
proof -
  have "remove1 k order = filter (\<lambda>j. j \<noteq> k) order"
    using assms(1) by (auto simp: distinct_remove1_removeAll removeAll_filter_not_eq intro: filter_cong)
  then show ?thesis
    using assms(2) by (simp add: move_to_front_def view_insert recency_drop_def filter_map comp_def)
qed

lemma set_move_to_front: "distinct order \<Longrightarrow> set (move_to_front k order) = set order"
  by (auto simp: move_to_front_def)

lemma distinct_move_to_front: "distinct order \<Longrightarrow> distinct (move_to_front k order)"
  by (simp add: move_to_front_def)

lemma get_with_size_refines:
  assumes "lru_inv c" "get_with_size now k c = (r, c')"
  shows "lru_inv c' \<and> lru_abs c' = recency_use k (lru_abs c) \<and> r = recency_find k (lru_abs c) \<and> same_limits c c'"
proof (cases "hm_get (entries c) k")
  case None
  then have c': "c' = c\<lparr>misses := (misses c + 1) mod 2 ^ 64\<rparr>" "r = None"
    using assms(2) by (simp_all add: get_with_size_def)
  have "lru_inv (c\<lparr>misses := m\<rparr>) \<longleftrightarrow> lru_inv c" for m by (simp add: lru_inv_def)
  then show ?thesis
    using None assms(1) recency_find_abs[OF assms(1), of k]
    by (simp add: c' recency_use_def same_limits_def lru_abs_def)
next
  case (Some e)
  note I = lru_invD[OF assms(1)]
  let ?e = "e\<lparr>access_count := (access_count e + 1) mod 2 ^ 64, last_access := now\<rparr>"
  have k: "k \<in> set (access_order c)" using Some I(3) hm_get_key by metis
  have c': "entries c' = hm_insert k ?e (entries c)" "access_order c' = move_to_front k (access_order c)"
    "current_size c' = current_size c" "same_limits c c'" "r = Some (e_value e, e_size e)"
    using assms(2) Some by (auto simp: get_with_size_def same_limits_def)
  have "hm_sum e_size (hm_insert k ?e (entries c)) = hm_sum e_size (entries c)"
    by (rule hm_sum_update_same[OF Some]) simp
  then have "lru_inv c'"
    using I c' Some k distinct_hm_insert[OF I(1)] by (auto simp: lru_inv_def set_move_to_front distinct_move_to_front)
  moreover have "lru_abs c' = recency_use k (lru_abs c)"
    using map_view_move_to_front[OF I(2) k, of ?e "entries c"] c' Some recency_find_abs[OF assms(1), of k]
    by (simp add: lru_abs_def recency_use_def)
  ultimately show ?thesis
    using c'(4,5) Some recency_find_abs[OF assms(1), of k] by simp
qed

lemma put_with_evictions_refines:
  assumes inv: "lru_inv c" and room: "current_size c + s \<le> u64_max"
  shows "\<exists>r c'. put_with_evictions now k v s c = Some (r, c') \<and> lru_inv c' \<and> same_limits c c' \<and>
    (r, lru_abs c') = recency_put (capacity c) (max_size c) k v s (lru_abs c)"
proof (cases "hm_get (entries c) k")
  case (Some e)
  note I = lru_invD[OF inv]
  let ?e = "e\<lparr>e_value := v, e_size := s, last_access := now\<rparr>"
  have k: "k \<in> set (access_order c)" using Some I(3) hm_get_key by metis
  have le: "e_size e \<le> current_size c" using hm_get_le_sum[OF Some, of e_size] I(4) by simp
  let ?c = "c\<lparr>entries := hm_insert k ?e (entries c), current_size := current_size c - e_size e + s,
      access_order := move_to_front k (access_order c)\<rparr>"
  have run: "put_with_evictions now k v s c = Some ((Some (e_value e), []), ?c)"
    using Some le room by (simp add: put_with_evictions_def)
  have "hm_sum e_size (hm_insert k ?e (entries c)) = current_size c - e_size e + s"
    using hm_sum_insert_old[OF Some, of e_size ?e] I(4) le by simp
  then have "lru_inv ?c"
    using I Some k le room distinct_hm_insert[OF I(1)] by (auto simp: lru_inv_def set_move_to_front distinct_move_to_front)
  moreover have "lru_abs ?c = (k, v, s) # recency_drop k (lru_abs c)"
    using map_view_move_to_front[OF I(2) k, of ?e "entries c"] by (simp add: lru_abs_def)
  ultimately show ?thesis
    using run Some recency_find_abs[OF inv, of k] by (simp add: recency_put_def same_limits_def)
next
  case None
  obtain c1 where c1: "evict_loop s c [] = Some (c1, rev (drop (kept s c) (lru_abs c)))" "lru_inv c1"
    "lru_abs c1 = take (kept s c) (lru_abs c)" "same_limits c c1" "current_size c1 \<le> current_size c"
    using evict_loop_spec[OF inv room, of "[]"] by auto
  note I1 = lru_invD[OF c1(2)]
  let ?e = "\<lparr>e_key = k, e_value = v, access_count = 0, last_access = now, e_size = s\<rparr>"
  let ?c = "c1\<lparr>current_size := current_size c1 + s, entries := hm_insert k ?e (entries c1),
      access_order := k # access_order c1\<rparr>"
  have room1: "current_size c1 + s \<le> u64_max" using c1(5) room by linarith
  have run: "put_with_evictions now k v s c = Some ((None, rev (drop (kept s c) (lru_abs c))), ?c)"
    using None c1(1) room1 by (simp add: put_with_evictions_def)
  have "k \<notin> set (access_order c)"
    using None lru_invD(3)[OF inv] hm_key_get[of k "entries c"] by auto
  moreover have "access_order c1 = take (kept s c) (access_order c)"
    using arg_cong[OF c1(3), of "map fst"] by (simp add: take_map[symmetric])
  ultimately have k: "k \<notin> set (access_order c1)" by (auto dest: in_set_takeD)
  then have none: "hm_get (entries c1) k = None"
    using I1(3) hm_get_key[of "entries c1" k] by (cases "hm_get (entries c1) k") auto
  have "lru_inv ?c"
    using I1 k none room1 hm_sum_insert_new[OF none, of e_size ?e] distinct_hm_insert[OF I1(1)]
    by (auto simp: lru_inv_def)
  moreover have "map (view (hm_insert k ?e (entries c1))) (access_order c1) = lru_abs c1"
    using k by (auto simp: lru_abs_def view_insert)
  then have "lru_abs ?c = (k, v, s) # take (kept s c) (lru_abs c)"
    using c1(3) by (simp add: lru_abs_def[of ?c] view_insert)
  ultimately show ?thesis
    using run c1(4) None recency_find_abs[OF inv, of k]
    by (simp add: recency_put_def same_limits_def kept_def Let_def)
qed

lemma lru_remove_refines:
  assumes inv: "lru_inv c"
  shows "\<exists>r c'. lru_remove k c = Some (r, c') \<and> lru_inv c' \<and> same_limits c c' \<and>
    r = map_option fst (recency_find k (lru_abs c)) \<and> lru_abs c' = recency_drop k (lru_abs c)"
proof (cases "hm_get (entries c) k")
  case None
  then have "k \<notin> set (access_order c)"
    using lru_invD(3)[OF inv] hm_key_get[of k "entries c"] by auto
  then have "recency_drop k (lru_abs c) = lru_abs c"
    by (auto simp: recency_drop_def lru_abs_def filter_id_conv)
  then show ?thesis
    using None inv recency_find_abs[OF inv, of k] by (simp add: lru_remove_def same_limits_def)
next
  case (Some e)
  note I = lru_invD[OF inv]
  let ?c = "c\<lparr>entries := hm_remove k (entries c), current_size := current_size c - e_size e,
      access_order := filter (\<lambda>j. j \<noteq> k) (access_order c)\<rparr>"
  have le: "e_size e \<le> current_size c" using hm_get_le_sum[OF Some, of e_size] I(4) by simp
  have "hm_sum e_size (hm_remove k (entries c)) = current_size c - e_size e"
    using hm_sum_remove[OF I(1) Some, of e_size] I(4) by simp
  then have "lru_inv ?c"
    using I by (auto simp: lru_inv_def distinct_removeAll)
  moreover have "lru_abs ?c = recency_drop k (lru_abs c)"
    by (auto simp: lru_abs_def recency_drop_def filter_map comp_def view_remove)
  ultimately show ?thesis
    using Some le recency_find_abs[OF inv, of k] by (auto simp: lru_remove_def same_limits_def)
qed

lemma lru_clear_refines: "lru_inv (lru_clear c)" "lru_abs (lru_clear c) = []" "same_limits c (lru_clear c)"
  by (simp_all add: lru_clear_def lru_inv_def lru_abs_def same_limits_def)

subsection \<open>The spin-lock variant\<close>

record ('k, 'v) spin_cache =
  sp_capacity :: nat
  sp_current_size :: nat
  sp_max_size :: nat
  sp_entries :: "('k, ('k, 'v) lru_entry) hash_map"
  sp_order :: "'k list"

definition new_spin :: "nat \<Rightarrow> nat \<Rightarrow> ('k, 'v) spin_cache" where
  "new_spin cap mx = \<lparr>sp_capacity = cap, sp_current_size = 0, sp_max_size = mx, sp_entries = [], sp_order = []\<rparr>"

definition spin_get :: "nat \<Rightarrow> 'k \<Rightarrow> ('k, 'v) spin_cache \<Rightarrow> 'v option \<times> ('k, 'v) spin_cache" where
  "spin_get now k c =
     (case hm_get (sp_entries c) k of
        Some e \<Rightarrow>
          (Some (e_value e),
           c\<lparr>sp_entries := hm_insert k (e\<lparr>access_count := (access_count e + 1) mod 2 ^ 64, last_access := now\<rparr>) (sp_entries c),
             sp_order := move_to_front k (sp_order c)\<rparr>)
      | None \<Rightarrow> (None, c))"

function spin_evict :: "nat \<Rightarrow> ('k, 'v) spin_cache \<Rightarrow> ('k, 'v) spin_cache option" where
  "spin_evict s c =
     (case (if sp_capacity c \<le> length (sp_entries c) then Some True
            else map_option (\<lambda>t. sp_max_size c < t) (add_u64 (sp_current_size c) s)) of
        None \<Rightarrow> None
      | Some b \<Rightarrow>
          if b \<and> sp_order c \<noteq> [] then
            let oldest = last (sp_order c);
                c1 = c\<lparr>sp_order := butlast (sp_order c)\<rparr>
            in (case hm_get (sp_entries c1) oldest of
                  None \<Rightarrow> spin_evict s c1
                | Some e \<Rightarrow>
                    (case sub_u64 (sp_current_size c1) (e_size e) of
                       None \<Rightarrow> None
                     | Some n \<Rightarrow>
                         spin_evict s (c1\<lparr>sp_entries := hm_remove oldest (sp_entries c1), sp_current_size := n\<rparr>)))
          else Some c)"
  by pat_completeness auto
termination spin_evict
  by (relation "measure (\<lambda>(s, c). length (sp_order c))") auto

declare spin_evict.simps [simp del]

definition spin_put :: "nat \<Rightarrow> 'k \<Rightarrow> 'v \<Rightarrow> nat \<Rightarrow> ('k, 'v) spin_cache \<Rightarrow> ('v option \<times> ('k, 'v) spin_cache) option" where
  "spin_put now k v s c =
     (case hm_get (sp_entries c) k of
        Some e \<Rightarrow> do {
          less \<leftarrow> sub_u64 (sp_current_size c) (e_size e);
          sz \<leftarrow> add_u64 less s;
          Some (Some (e_value e),
            c\<lparr>sp_entries := hm_insert k (e\<lparr>e_value := v, e_size := s, last_access := now\<rparr>) (sp_entries c),
              sp_current_size := sz,
              sp_order := move_to_front k (sp_order c)\<rparr>)
        }
      | None \<Rightarrow> do {
          c1 \<leftarrow> spin_evict s c;
          sz \<leftarrow> add_u64 (sp_current_size c1) s;
          Some (None,
            c1\<lparr>sp_current_size := sz,
               sp_entries := hm_insert k \<lparr>e_key = k, e_value = v, access_count = 0, last_access = now, e_size = s\<rparr>
                               (sp_entries c1),
               sp_order := k # sp_order c1\<rparr>)
        })"

definition spin_size :: "('k, 'v) spin_cache \<Rightarrow> nat" where
  "spin_size c = sp_current_size c"

definition spin_len :: "('k, 'v) spin_cache \<Rightarrow> nat" where
  "spin_len c = length (sp_entries c)"

definition spin_is_empty :: "('k, 'v) spin_cache \<Rightarrow> bool" where
  "spin_is_empty c \<longleftrightarrow> spin_len c = 0"

text \<open>Forgetting the counters of \<open>LruCache\<close> gives the state of the spin-lock cache.\<close>

definition to_spin :: "('k, 'v) lru_cache \<Rightarrow> ('k, 'v) spin_cache" where
  "to_spin c = \<lparr>sp_capacity = capacity c, sp_current_size = current_size c, sp_max_size = max_size c,
     sp_entries = entries c, sp_order = access_order c\<rparr>"

lemma to_spin_simps [simp]:
  "sp_capacity (to_spin c) = capacity c" "sp_current_size (to_spin c) = current_size c"
  "sp_max_size (to_spin c) = max_size c" "sp_entries (to_spin c) = entries c" "sp_order (to_spin c) = access_order c"
  by (simp_all add: to_spin_def)

lemma spin_evict_to_spin:
  "spin_evict s (to_spin c) =
     (case must_evict s c of
        None \<Rightarrow> None
      | Some b \<Rightarrow>
          if b \<and> access_order c \<noteq> [] then
            (case hm_get (entries c) (last (access_order c)) of
               None \<Rightarrow> spin_evict s (to_spin (c\<lparr>access_order := butlast (access_order c)\<rparr>))
             | Some e \<Rightarrow>
                 (case sub_u64 (current_size c) (e_size e) of
                    None \<Rightarrow> None
                  | Some n \<Rightarrow>
                      spin_evict s (to_spin (c\<lparr>access_order := butlast (access_order c),
                          entries := hm_remove (last (access_order c)) (entries c), current_size := n\<rparr>))))
          else Some (to_spin c))"
  by (subst spin_evict.simps, unfold must_evict_def to_spin_simps)
    (simp add: Let_def to_spin_def cong: option.case_cong if_cong)

lemma spin_evict_eq: "spin_evict s (to_spin c) = map_option (\<lambda>p. to_spin (fst p)) (evict_loop s c ev)"
proof (induction s c ev rule: evict_loop.induct)
  case (1 s c ev)
  let ?k = "last (access_order c)"
  note loops = spin_evict_to_spin[of s c] evict_loop.simps[of s c ev]
  show ?case
  proof (cases "must_evict s c")
    case (Some b)
    show ?thesis
    proof (cases "b \<and> access_order c \<noteq> []")
      case True
      note IH = "1.IH"[OF Some True refl refl]
      show ?thesis
      proof (cases "hm_get (entries c) ?k")
        case None
        then show ?thesis using Some True IH(1) by (simp add: loops Let_def)
      next
        case e: (Some e)
        show ?thesis
        proof (cases "sub_u64 (current_size c) (e_size e)")
          case None
          then show ?thesis using Some True e by (simp add: loops Let_def)
        next
          case (Some n)
          have "spin_evict s (to_spin (c\<lparr>access_order := butlast (access_order c),
              entries := hm_remove ?k (entries c), current_size := n\<rparr>)) =
            map_option (\<lambda>p. to_spin (fst p)) (evict_loop s (c\<lparr>access_order := butlast (access_order c),
              entries := hm_remove ?k (entries c), current_size := n\<rparr>) (ev @ [(e_key e, e_value e, e_size e)]))"
            using IH(2)[of e n] e Some by simp
          then show ?thesis using \<open>must_evict s c = Some b\<close> True e Some by (simp add: loops Let_def)
        qed
      qed
    next
      case False
      then show ?thesis unfolding loops Some option.case if_not_P[OF False] by simp
    qed
  qed (simp add: loops)
qed

lemma spin_get_eq: "spin_get now k (to_spin c) = map_prod id to_spin (lru_get now k c)"
  by (simp add: spin_get_def lru_get_def get_with_size_def to_spin_def split: option.splits)

lemma spin_put_eq: "spin_put now k v s (to_spin c) = map_option (map_prod id to_spin) (lru_put now k v s c)"
proof (cases "hm_get (entries c) k")
  case None
  show ?thesis
  proof (cases "evict_loop s c []")
    case (Some p)
    obtain c1 ev where "p = (c1, ev)" by (cases p)
    then show ?thesis
      using None Some spin_evict_eq[of s c "[]"]
      by (cases "add_u64 (current_size c1) s") (simp_all add: spin_put_def lru_put_def put_with_evictions_def to_spin_def)
  qed (use None spin_evict_eq[of s c "[]"] in \<open>simp add: spin_put_def lru_put_def put_with_evictions_def\<close>)
next
  case (Some e)
  then show ?thesis
    by (cases "sub_u64 (current_size c) (e_size e)"; cases "add_u64 (the (sub_u64 (current_size c) (e_size e))) s")
      (simp_all add: spin_put_def lru_put_def put_with_evictions_def to_spin_def)
qed

subsection \<open>Properties\<close>

text \<open>
  C16. \<open>LruCache\<close> refines the list of its entries in order of use: a hit returns the stored
  value and size and moves the entry to the front, a miss changes nothing, a \<open>put\<close> of a known
  key replaces the value, a \<open>put\<close> of a new key keeps the longest run of recently used entries
  that fits and hands out the others oldest first, \<open>remove\<close> and \<open>clear\<close> take entries out. No
  operation panics while the sizes fit into a word, and each keeps the deque, the map and the
  running total in step.
\<close>

theorem lru_cache_refines:
  assumes "lru_inv c" "current_size c + s \<le> u64_max"
  shows "(\<exists>c'. get_with_size now k c = (recency_find k (lru_abs c), c') \<and> lru_inv c' \<and>
           lru_abs c' = recency_use k (lru_abs c)) \<and>
    (\<exists>r c'. put_with_evictions now k v s c = Some (r, c') \<and> lru_inv c' \<and>
       (r, lru_abs c') = recency_put (capacity c) (max_size c) k v s (lru_abs c)) \<and>
    (\<exists>c'. lru_remove k c = Some (map_option fst (recency_find k (lru_abs c)), c') \<and> lru_inv c' \<and>
       lru_abs c' = recency_drop k (lru_abs c)) \<and>
    lru_inv (lru_clear c) \<and> lru_abs (lru_clear c) = []"
proof -
  obtain r c' where g: "get_with_size now k c = (r, c')" by (cases "get_with_size now k c")
  show ?thesis
    using get_with_size_refines[OF assms(1) g] g put_with_evictions_refines[OF assms, of now k v]
      lru_remove_refines[OF assms(1), of k] lru_clear_refines[of c] by metis
qed

definition three_entries :: "(nat, string) lru_cache" where
  "three_entries = (case do {
     (_, c1) \<leftarrow> lru_put 1 1 ''a'' 40 (new_lru 3 100);
     (_, c2) \<leftarrow> lru_put 2 2 ''b'' 30 c1;
     lru_put 3 3 ''c'' 20 c2 } of Some (_, c) \<Rightarrow> c | None \<Rightarrow> new_lru 0 0)"

lemma three_entries_eq: "three_entries =
  \<lparr>capacity = 3, current_size = 90, max_size = 100, hits = 0, misses = 0,
   entries = [(1, \<lparr>e_key = 1, e_value = ''a'', access_count = 0, last_access = 1, e_size = 40\<rparr>),
              (2, \<lparr>e_key = 2, e_value = ''b'', access_count = 0, last_access = 2, e_size = 30\<rparr>),
              (3, \<lparr>e_key = 3, e_value = ''c'', access_count = 0, last_access = 3, e_size = 20\<rparr>)],
   access_order = [3, 2, 1]\<rparr>"
  by code_simp

lemma three_entries_inv: "lru_inv three_entries" "current_size three_entries + 50 \<le> u64_max"
  by (auto simp: three_entries_eq lru_inv_def hm_sum_def u64_max_def split: if_splits)

theorem lru_cache_refines_witness:
  "\<exists>c'. put_with_evictions 4 7 ''d'' 50 three_entries = Some ((None, [(1, ''a'', 40)]), c') \<and>
     lru_abs c' = [(7, ''d'', 50), (3, ''c'', 20), (2, ''b'', 30)]"
proof -
  obtain r c' where "put_with_evictions 4 7 ''d'' 50 three_entries = Some (r, c')"
    "(r, lru_abs c') = recency_put (capacity three_entries) (max_size three_entries) 7 ''d'' 50 (lru_abs three_entries)"
    using lru_cache_refines[OF three_entries_inv, of 4 7 "''d''"] by blast
  moreover have "recency_put (capacity three_entries) (max_size three_entries) 7 ''d'' 50 (lru_abs three_entries) =
      ((None, [(1, ''a'', 40)]), [(7, ''d'', 50), (3, ''c'', 20), (2, ''b'', 30)])"
    by code_simp
  ultimately show ?thesis by auto
qed

text \<open>The two cases of a \<open>put\<close>; the second can leave the cache above its limit.\<close>

lemma put_new_key:
  assumes "lru_inv c" "current_size c + s \<le> u64_max" "recency_find k (lru_abs c) = None"
  shows "\<exists>kept_part evicted c'. put_with_evictions now k v s c = Some ((None, evicted), c') \<and>
    lru_abs c = kept_part @ rev evicted \<and> lru_abs c' = (k, v, s) # kept_part \<and>
    (kept_part = [] \<or> length (entries c') \<le> capacity c \<and> current_size c' \<le> max_size c) \<and>
    (evicted = [] \<or> capacity c \<le> Suc (length kept_part) \<or>
       max_size c < total_size kept_part + snd (snd (last evicted)) + s)"
proof -
  let ?xs = "lru_abs c"
  define n where "n = keep_count (capacity c) (max_size c) s ?xs (length ?xs)"
  obtain c' where c': "put_with_evictions now k v s c = Some ((None, rev (drop n ?xs)), c')"
    "lru_inv c'" "lru_abs c' = (k, v, s) # take n ?xs"
    using put_with_evictions_refines[OF assms(1,2), of now k v] assms(3) by (auto simp: recency_put_def Let_def n_def)
  have n: "n \<le> length ?xs" unfolding n_def by (rule keep_count_le)
  have "take n ?xs = [] \<or> length (entries c') \<le> capacity c \<and> current_size c' \<le> max_size c"
  proof (cases "n = 0")
    case False
    then have "n < capacity c" "total_size (take n ?xs) + s \<le> max_size c"
      using keep_count_fits[of "capacity c" "max_size c" s ?xs "length ?xs"] unfolding n_def by auto
    moreover have "length (entries c') = Suc n"
      using lru_inv_length[OF c'(2)] arg_cong[OF c'(3), of length] n by simp
    moreover have "current_size c' = total_size (take n ?xs) + s"
      using total_size_abs[OF c'(2)] unfolding c'(3) by (simp add: total_size_def)
    ultimately show ?thesis by simp
  qed simp
  moreover have "rev (drop n ?xs) = [] \<or> capacity c \<le> Suc (length (take n ?xs)) \<or>
       max_size c < total_size (take n ?xs) + snd (snd (last (rev (drop n ?xs)))) + s"
  proof (cases "n = length ?xs")
    case False
    then have lt: "n < length ?xs" using n by simp
    then have "capacity c \<le> Suc n \<or> max_size c < total_size (take (Suc n) ?xs) + s"
      using keep_count_maximal[of "capacity c" "max_size c" s ?xs "length ?xs" "Suc n"] unfolding n_def by simp
    moreover have "take (Suc n) ?xs = take n ?xs @ [?xs ! n]" "last (rev (drop n ?xs)) = ?xs ! n"
      using lt by (simp_all add: take_Suc_conv_app_nth last_rev hd_drop_conv_nth del: length_lru_abs)
    ultimately show ?thesis using lt by (simp add: total_size_def del: length_lru_abs)
  qed simp
  ultimately show ?thesis using c'(1,3) by (intro exI[of _ "take n ?xs"] exI[of _ "rev (drop n ?xs)"] exI[of _ c']) simp
qed

lemma put_known_key:
  assumes "lru_inv c" "current_size c + s \<le> u64_max" "recency_find k (lru_abs c) = Some (v0, s0)"
  shows "\<exists>c'. put_with_evictions now k v s c = Some ((Some v0, []), c') \<and>
    lru_abs c' = (k, v, s) # recency_drop k (lru_abs c) \<and> length (entries c') = length (entries c) \<and>
    current_size c' + s0 = current_size c + s"
proof -
  obtain e where e: "hm_get (entries c) k = Some e" "e_value e = v0" "e_size e = s0"
    using assms(3) recency_find_abs[OF assms(1), of k] by auto
  obtain c' where c': "put_with_evictions now k v s c = Some ((Some v0, []), c')"
    "lru_abs c' = (k, v, s) # recency_drop k (lru_abs c)"
    using put_with_evictions_refines[OF assms(1,2), of now k v] assms(3) by (auto simp: recency_put_def)
  have "s0 \<le> current_size c"
    using hm_get_le_sum[OF e(1), of e_size] lru_invD(4)[OF assms(1)] e(3) by simp
  then have "length (entries c') = length (entries c)" "current_size c' + s0 = current_size c + s"
    using c'(1) e by (auto simp: put_with_evictions_def length_hm_insert bind_eq_Some_conv add_u64_def split: if_splits)
  with c' show ?thesis by blast
qed

lemma overwrite_exceeds_limit:
  "(case put_with_evictions 4 3 ''d'' 80 three_entries of
      Some (r, c') \<Rightarrow> r = (Some ''c'', []) \<and> current_size c' = 150 \<and> max_size c' = 100 | None \<Rightarrow> False)"
  by code_simp

text \<open>
  C17. What a \<open>put\<close> does to the other entries. For a new key it evicts exactly the least recently used
  entries, oldest first, no more than the limits demand, and afterwards the cache is within both of its
  limits unless the new entry is alone in it. For a key that is present it evicts nothing: the entry is
  replaced and becomes the most recent one, the others stay, and the limit on the size is not checked.
\<close>

theorem lru_eviction_correct:
  assumes "lru_inv c" "current_size c + s \<le> u64_max"
  shows "\<exists>old evicted kept_part c'. put_with_evictions now k v s c = Some ((old, evicted), c') \<and>
    lru_abs c' = (k, v, s) # kept_part \<and>
    (case recency_find k (lru_abs c) of
       Some (v0, s0) \<Rightarrow> old = Some v0 \<and> evicted = [] \<and> kept_part = recency_drop k (lru_abs c) \<and>
         length (entries c') = length (entries c) \<and> current_size c' + s0 = current_size c + s
     | None \<Rightarrow> old = None \<and> lru_abs c = kept_part @ rev evicted \<and>
         (kept_part = [] \<or> length (entries c') \<le> capacity c \<and> current_size c' \<le> max_size c) \<and>
         (evicted = [] \<or> capacity c \<le> Suc (length kept_part) \<or>
            max_size c < total_size kept_part + snd (snd (last evicted)) + s))"
proof (cases "recency_find k (lru_abs c)")
  case None
  from put_new_key[OF assms None, of now v] obtain kept_part evicted c' where
    "put_with_evictions now k v s c = Some ((None, evicted), c')" "lru_abs c = kept_part @ rev evicted"
    "lru_abs c' = (k, v, s) # kept_part"
    "kept_part = [] \<or> length (entries c') \<le> capacity c \<and> current_size c' \<le> max_size c"
    "evicted = [] \<or> capacity c \<le> Suc (length kept_part) \<or>
       max_size c < total_size kept_part + snd (snd (last evicted)) + s" by blast
  with None show ?thesis by (intro exI[of _ None] exI[of _ evicted] exI[of _ kept_part] exI[of _ c']) simp
next
  case (Some vs)
  obtain v0 s0 where vs: "vs = (v0, s0)" by (cases vs)
  from put_known_key[OF assms Some[unfolded vs], of now v] obtain c' where
    "put_with_evictions now k v s c = Some ((Some v0, []), c')" "lru_abs c' = (k, v, s) # recency_drop k (lru_abs c)"
    "length (entries c') = length (entries c)" "current_size c' + s0 = current_size c + s" by blast
  with Some vs show ?thesis
    by (intro exI[of _ "Some v0"] exI[of _ "[]"] exI[of _ "recency_drop k (lru_abs c)"] exI[of _ c']) simp
qed

theorem lru_eviction_correct_witness:
  "\<exists>old evicted kept_part c'. put_with_evictions 4 7 ''d'' 50 three_entries = Some ((old, evicted), c') \<and>
     old = None \<and> lru_abs three_entries = kept_part @ rev evicted \<and> lru_abs c' = (7, ''d'', 50) # kept_part"
proof -
  have "recency_find 7 (lru_abs three_entries) = None" by code_simp
  then show ?thesis using lru_eviction_correct[OF three_entries_inv, of 4 7 "''d''"] by (simp only: option.case) blast
qed

text \<open>
  The spin-lock cache is \<open>LruCache\<close> without the statistics: from corresponding states every
  operation gives the same answer and corresponding states, panics included.
\<close>

theorem spin_cache_equivalent:
  "spin_get now k (to_spin c) = map_prod id to_spin (lru_get now k c) \<and>
   spin_put now k v s (to_spin c) = map_option (map_prod id to_spin) (lru_put now k v s c) \<and>
   spin_size (to_spin c) = current_size c \<and> spin_len (to_spin c) = length (entries c) \<and>
   spin_is_empty (to_spin c) = (entries c = []) \<and> new_spin cap mx = to_spin (new_lru cap mx)"
  by (intro conjI spin_get_eq spin_put_eq) (simp_all add: spin_size_def spin_len_def spin_is_empty_def new_spin_def new_lru_def to_spin_def)

end
