(* ===== verification/Tiered_Cache.thy ===== *)
theory Tiered_Cache
  imports Lru_Cache
begin

text \<open>
  Composite caches of \<open>fish-cache/src/strategies.rs\<close>: \<open>TieredCache\<close>, three \<open>LruCache\<close>s of
  growing size, and \<open>PredictiveCache\<close>. What the tiers need from one cache is the interface
  \<open>cache_tier\<close>; \<open>LruCache\<close> provides it. One clock reading is used for all the entries that one
  operation touches; the operations store it but never read it.
\<close>

subsection \<open>The interface of a tier\<close>

locale cache_tier =
  fixes invar :: "'c \<Rightarrow> bool"
    and contents :: "'c \<Rightarrow> 'k \<Rightarrow> ('v \<times> nat) option"
    and ok_size :: "nat \<Rightarrow> bool"
    and tier_get :: "'k \<Rightarrow> 'c \<Rightarrow> ('v \<times> nat) option \<times> 'c"
    and tier_put :: "'k \<Rightarrow> 'v \<Rightarrow> nat \<Rightarrow> 'c \<Rightarrow> (('v option \<times> ('k \<times> 'v \<times> nat) list) \<times> 'c) option"
    and tier_remove :: "'k \<Rightarrow> 'c \<Rightarrow> ('v option \<times> 'c) option"
  assumes get_law: "invar c \<Longrightarrow> tier_get k c = (r, c') \<Longrightarrow>
      invar c' \<and> contents c' = contents c \<and> r = contents c k"
    and put_law: "invar c \<Longrightarrow> ok_size s \<Longrightarrow>
      \<exists>old ev c'. tier_put k v s c = Some ((old, ev), c') \<and> invar c' \<and> contents c' k = Some (v, s) \<and>
        contents c' \<subseteq>\<^sub>m (contents c)(k \<mapsto> (v, s)) \<and>
        (\<forall>j w u. (j, w, u) \<in> set ev \<longrightarrow> contents c j = Some (w, u) \<and> j \<noteq> k) \<and>
        (\<forall>j w u. contents c j = Some (w, u) \<longrightarrow> j \<noteq> k \<longrightarrow> contents c' j = Some (w, u) \<or> (j, w, u) \<in> set ev)"
    and remove_law: "invar c \<Longrightarrow>
      \<exists>r c'. tier_remove k c = Some (r, c') \<and> invar c' \<and> contents c' = (contents c)(k := None)"
    and size_law: "invar c \<Longrightarrow> contents c k = Some (v, s) \<Longrightarrow> ok_size s"
begin

text \<open>Writing a list of entries one after the other, with everything that falls out on the way.\<close>

fun put_all :: "('k \<times> 'v \<times> nat) list \<Rightarrow> 'c \<Rightarrow> (('k \<times> 'v \<times> nat) list \<times> 'c) option" where
  "put_all [] c = Some ([], c)"
| "put_all ((k, v, s) # es) c = do {
     ((_, ev), c1) \<leftarrow> tier_put k v s c;
     (evs, c2) \<leftarrow> put_all es c1;
     Some (ev @ evs, c2)
   }"

lemma put_all_ok:
  assumes "invar c" "\<forall>(k, v, s) \<in> set es. ok_size s"
  shows "\<exists>evs c'. put_all es c = Some (evs, c') \<and> invar c' \<and>
    (\<forall>j w u. contents c' j = Some (w, u) \<longrightarrow> contents c j = Some (w, u) \<or> (j, w, u) \<in> set es) \<and>
    (\<forall>j w u. (j, w, u) \<in> set evs \<longrightarrow> (contents c j = Some (w, u) \<or> (j, w, u) \<in> set es) \<and> ok_size u)"
  using assms
proof (induction es arbitrary: c)
  case (Cons e es)
  obtain k v s where e: "e = (k, v, s)" by (cases e)
  obtain old ev c1 where c1: "tier_put k v s c = Some ((old, ev), c1)" "invar c1"
    "contents c1 \<subseteq>\<^sub>m (contents c)(k \<mapsto> (v, s))" "\<forall>j w u. (j, w, u) \<in> set ev \<longrightarrow> contents c j = Some (w, u) \<and> j \<noteq> k"
    using put_law[OF Cons.prems(1), of s k v] Cons.prems(2) e by auto
  obtain evs c2 where c2: "put_all es c1 = Some (evs, c2)" "invar c2"
    "\<forall>j w u. contents c2 j = Some (w, u) \<longrightarrow> contents c1 j = Some (w, u) \<or> (j, w, u) \<in> set es"
    "\<forall>j w u. (j, w, u) \<in> set evs \<longrightarrow> (contents c1 j = Some (w, u) \<or> (j, w, u) \<in> set es) \<and> ok_size u"
    using Cons.IH[OF c1(2)] Cons.prems(2) by auto
  have old: "contents c j = Some (w, u) \<or> (j, w, u) = e" if "contents c1 j = Some (w, u)" for j w u
  proof -
    have "((contents c)(k \<mapsto> (v, s))) j = Some (w, u)" using that c1(3) by (metis domI map_le_def)
    then show ?thesis using e by (auto split: if_splits)
  qed
  have "put_all (e # es) c = Some (ev @ evs, c2)" using c1(1) c2(1) e by simp
  moreover have "contents c j = Some (w, u) \<or> (j, w, u) \<in> set (e # es)" if "contents c2 j = Some (w, u)" for j w u
    using that c2(3) old by fastforce
  moreover have "(contents c j = Some (w, u) \<or> (j, w, u) \<in> set (e # es)) \<and> ok_size u" if "(j, w, u) \<in> set (ev @ evs)" for j w u
    using that c1(4) c2(4) old size_law[OF Cons.prems(1), of j w u] by fastforce
  ultimately show ?case using c2(2) by blast
qed simp

end

subsection \<open>\<open>LruCache\<close> is a tier\<close>

definition max_entry :: nat where
  "max_entry = 2 ^ 50"

definition contents :: "('k, 'v) lru_cache \<Rightarrow> 'k \<Rightarrow> ('v \<times> nat) option" where
  "contents c k = recency_find k (lru_abs c)"

definition tier_ok :: "('k, 'v) lru_cache \<Rightarrow> bool" where
  "tier_ok c \<longleftrightarrow> lru_inv c \<and> length (lru_abs c) \<le> max (capacity c) 1 \<and> capacity c \<le> 10000 \<and>
     (\<forall>(k, v, s) \<in> set (lru_abs c). s \<le> max_entry)"

lemma distinct_abs: "lru_inv c \<Longrightarrow> distinct (map fst (lru_abs c))"
  by (simp add: lru_invD(2))

lemma contents_iff: "lru_inv c \<Longrightarrow> contents c k = Some x \<longleftrightarrow> (k, x) \<in> set (lru_abs c)"
  using map_of_eq_Some_iff[OF distinct_abs, of c k x] by (simp only: contents_def recency_find_def)

lemma map_of_recency_drop: "map_of (recency_drop k xs) j = (if j = k then None else map_of xs j)"
  by (induction xs) (auto simp: recency_drop_def)

lemma map_of_recency_use: "map_of (recency_use k xs) j = map_of xs j"
  by (auto simp: recency_use_def recency_find_def map_of_recency_drop split: option.splits)

lemma total_size_le: "\<forall>(k, v, s) \<in> set xs. s \<le> b \<Longrightarrow> total_size xs \<le> length xs * b"
  by (induction xs) (auto simp: total_size_def)

lemma tier_ok_room:
  assumes "tier_ok c" "s \<le> max_entry"
  shows "current_size c + s \<le> u64_max"
proof -
  have "current_size c \<le> length (lru_abs c) * max_entry"
    using assms(1) total_size_le[of "lru_abs c" max_entry] total_size_abs[of c] by (simp add: tier_ok_def)
  also have "\<dots> \<le> 10000 * max_entry"
    using assms(1) by (intro mult_le_mono1) (auto simp add: tier_ok_def max_def split: if_splits)
  finally show ?thesis using assms(2) by (simp add: max_entry_def u64_max_def)
qed

lemma recency_find_put:
  "recency_put cap mx k v s xs = (r, ys) \<Longrightarrow> map_of ys k = Some (v, s)"
  by (auto simp: recency_put_def Let_def split: option.splits)

lemma recency_put_entries:
  assumes "recency_put cap mx k v s xs = ((old, ev), ys)" "distinct (map fst xs)"
  shows "set ys \<subseteq> insert (k, v, s) (set xs) \<and> (\<forall>j x. (j, x) \<in> set ev \<longrightarrow> (j, x) \<in> set xs \<and> j \<noteq> k) \<and>
    (\<forall>j x. (j, x) \<in> set xs \<longrightarrow> j \<noteq> k \<longrightarrow> (j, x) \<in> set ys \<or> (j, x) \<in> set ev) \<and>
    (length xs \<le> max cap 1 \<longrightarrow> length ys \<le> max cap 1)"
proof (cases "recency_find k xs")
  case (Some x)
  then have "(k, x) \<in> set xs" by (simp add: recency_find_def map_of_SomeD)
  then have "length (recency_drop k xs) < length xs"
    unfolding recency_drop_def by (intro length_filter_less) auto
  then show ?thesis
    using assms Some by (cases x) (auto simp: recency_put_def recency_drop_def)
next
  case None
  define n where "n = keep_count cap mx s xs (length xs)"
  have r: "ev = rev (drop n xs)" "ys = (k, v, s) # take n xs"
    using assms(1) None by (simp_all add: recency_put_def Let_def n_def)
  have "(j, x) \<in> set (drop n xs) \<Longrightarrow> (j, x) \<in> set xs \<and> j \<noteq> k" for j x
    using None in_set_dropD[of "(j, x)" n xs] by (force simp: recency_find_def map_of_eq_None_iff)
  moreover have "set (take n xs) \<union> set (drop n xs) = set xs"
    by (metis append_take_drop_id set_append)
  moreover have "length ys \<le> max cap 1"
    using r keep_count_fits[of cap mx s xs "length xs"] by (auto simp: n_def)
  ultimately show ?thesis unfolding r by auto
qed

lemma put_tier_ok:
  assumes "tier_ok c" "s \<le> max_entry"
  shows "\<exists>old ev c'. put_with_evictions now k v s c = Some ((old, ev), c') \<and> tier_ok c' \<and>
    contents c' k = Some (v, s) \<and> contents c' \<subseteq>\<^sub>m (contents c)(k \<mapsto> (v, s)) \<and>
    (\<forall>j w u. (j, w, u) \<in> set ev \<longrightarrow> contents c j = Some (w, u) \<and> j \<noteq> k) \<and>
    (\<forall>j w u. contents c j = Some (w, u) \<longrightarrow> j \<noteq> k \<longrightarrow> contents c' j = Some (w, u) \<or> (j, w, u) \<in> set ev)"
proof -
  have inv: "lru_inv c" using assms(1) by (simp add: tier_ok_def)
  obtain old ev c' where c': "put_with_evictions now k v s c = Some ((old, ev), c')" "lru_inv c'" "same_limits c c'"
    "recency_put (capacity c) (max_size c) k v s (lru_abs c) = ((old, ev), lru_abs c')"
    using put_with_evictions_refines[OF inv tier_ok_room[OF assms], of now k v] by (metis surj_pair)
  note R = recency_put_entries[OF c'(4) distinct_abs[OF inv]]
  have "tier_ok c'"
    using R assms c'(2,3) unfolding tier_ok_def same_limits_def by (auto split: prod.splits)
  moreover have k: "contents c' k = Some (v, s)"
    using recency_find_put[OF c'(4)] by (simp add: contents_def recency_find_def)
  moreover have "contents c' \<subseteq>\<^sub>m (contents c)(k \<mapsto> (v, s))"
    unfolding map_le_def
  proof
    fix j assume "j \<in> dom (contents c')"
    then obtain x where x: "contents c' j = Some x" by auto
    then have "(j, x) \<in> insert (k, v, s) (set (lru_abs c))" using R contents_iff[OF c'(2)] by blast
    then show "contents c' j = ((contents c)(k \<mapsto> (v, s))) j"
      using x k contents_iff[OF inv, of j x] by (cases "j = k") auto
  qed
  ultimately show ?thesis
    using c'(1) R contents_iff[OF inv] contents_iff[OF c'(2)] by (intro exI[of _ old] exI[of _ ev] exI[of _ c']) simp
qed

lemma get_tier_ok:
  assumes "tier_ok c" "get_with_size now k c = (r, c')"
  shows "tier_ok c' \<and> contents c' = contents c \<and> r = contents c k"
proof -
  have inv: "lru_inv c" using assms(1) by (simp add: tier_ok_def)
  have G: "lru_inv c'" "lru_abs c' = recency_use k (lru_abs c)" "r = recency_find k (lru_abs c)" "same_limits c c'"
    using get_with_size_refines[OF inv assms(2)] by simp_all
  have c: "contents c' = contents c"
    by (simp add: contents_def recency_find_def G(2) map_of_recency_use fun_eq_iff)
  then have set: "set (lru_abs c') = set (lru_abs c)"
    using contents_iff[OF inv] contents_iff[OF G(1)] by (metis subsetI subset_antisym surj_pair)
  have "length (lru_abs c') = card (set (map fst (lru_abs c')))" "length (lru_abs c) = card (set (map fst (lru_abs c)))"
    using distinct_card[OF distinct_abs[OF inv]] distinct_card[OF distinct_abs[OF G(1)]] by simp_all
  then have "length (lru_abs c') = length (lru_abs c)" using set by (simp only: set_map)
  then show ?thesis using assms(1) G c set by (simp add: tier_ok_def same_limits_def contents_def)
qed

lemma remove_tier_ok:
  assumes "tier_ok c"
  shows "\<exists>r c'. lru_remove k c = Some (r, c') \<and> tier_ok c' \<and> contents c' = (contents c)(k := None)"
proof -
  have inv: "lru_inv c" using assms(1) by (simp add: tier_ok_def)
  obtain r c' where R: "lru_remove k c = Some (r, c')" "lru_inv c'" "same_limits c c'"
    "lru_abs c' = recency_drop k (lru_abs c)"
    using lru_remove_refines[OF inv, of k] by blast
  have "tier_ok c'"
    using assms R order_trans[OF length_filter_le[of "\<lambda>x. fst x \<noteq> k" "lru_abs c"]]
    by (auto simp: tier_ok_def same_limits_def recency_drop_def simp del: length_lru_abs)
  moreover have "contents c' = (contents c)(k := None)"
    by (auto simp: contents_def recency_find_def R(4) map_of_recency_drop)
  ultimately show ?thesis using R(1) by blast
qed

interpretation lru: cache_tier tier_ok contents "\<lambda>s. s \<le> max_entry" "get_with_size now" "put_with_evictions now" lru_remove
  for now
proof
  show "s \<le> max_entry" if "tier_ok c" "contents c k = Some (v, s)" for c :: "('a, 'b) lru_cache" and k v s
    using that contents_iff[of c k "(v, s)"] by (auto simp: tier_ok_def)
qed (rule get_tier_ok put_tier_ok remove_tier_ok; assumption)+

subsection \<open>Three tiers\<close>

record ('k, 'v) tiered_cache =
  l1 :: "('k, 'v) lru_cache"
  l2 :: "('k, 'v) lru_cache"
  l3 :: "('k, 'v) lru_cache"

definition new_tiered :: "('k, 'v) tiered_cache" where
  "new_tiered = \<lparr>l1 = new_lru 100 (1024 * 1024), l2 = new_lru 1000 (100 * 1024 * 1024),
     l3 = new_lru 10000 (10 * 1024 * 1024 * 1024)\<rparr>"

text \<open>The loops that write evicted entries into the next tier, with that tier's own evictions.\<close>

fun demote ::
  "nat \<Rightarrow> ('k \<times> 'v \<times> nat) list \<Rightarrow> ('k, 'v) lru_cache \<Rightarrow> (('k \<times> 'v \<times> nat) list \<times> ('k, 'v) lru_cache) option"
where
  "demote now [] c = Some ([], c)"
| "demote now ((k, v, s) # es) c = do {
     ((_, ev), c1) \<leftarrow> put_with_evictions now k v s c;
     (evs, c2) \<leftarrow> demote now es c1;
     Some (ev @ evs, c2)
   }"

definition tiered_get :: "nat \<Rightarrow> 'k \<Rightarrow> ('k, 'v) tiered_cache \<Rightarrow> ('v option \<times> ('k, 'v) tiered_cache) option" where
  "tiered_get now k t =
     (case lru_get now k (l1 t) of
        (Some v, c1) \<Rightarrow> Some (Some v, t\<lparr>l1 := c1\<rparr>)
      | (None, c1) \<Rightarrow>
          (case get_with_size now k (l2 t) of
             (Some (v, s), c2) \<Rightarrow> do {
               ((_, ev), c1') \<leftarrow> put_with_evictions now k v s c1;
               (_, c2') \<leftarrow> demote now ev c2;
               Some (Some v, t\<lparr>l1 := c1', l2 := c2'\<rparr>)
             }
           | (None, c2) \<Rightarrow>
               (case get_with_size now k (l3 t) of
                  (Some (v, s), c3) \<Rightarrow> do {
                    ((_, ev), c2') \<leftarrow> put_with_evictions now k v s c2;
                    (_, c3') \<leftarrow> demote now ev c3;
                    Some (Some v, t\<lparr>l1 := c1, l2 := c2', l3 := c3'\<rparr>)
                  }
                | (None, c3) \<Rightarrow> Some (None, t\<lparr>l1 := c1, l2 := c2, l3 := c3\<rparr>))))"

definition tiered_put :: "nat \<Rightarrow> 'k \<Rightarrow> 'v \<Rightarrow> nat \<Rightarrow> ('k, 'v) tiered_cache \<Rightarrow> ('k, 'v) tiered_cache option" where
  "tiered_put now k v s t = do {
     ((_, ev), c1) \<leftarrow> put_with_evictions now k v s (l1 t);
     if ev = [] then Some (t\<lparr>l1 := c1\<rparr>)
     else do {
       (l3_evictions, c2) \<leftarrow> demote now ev (l2 t);
       if l3_evictions = [] then Some (t\<lparr>l1 := c1, l2 := c2\<rparr>)
       else do {
         (_, c3) \<leftarrow> demote now l3_evictions (l3 t);
         Some (t\<lparr>l1 := c1, l2 := c2, l3 := c3\<rparr>)
       }
     }
   }"

definition tiered_invalidate :: "'k \<Rightarrow> ('k, 'v) tiered_cache \<Rightarrow> ('k, 'v) tiered_cache option" where
  "tiered_invalidate k t = do {
     (_, c1) \<leftarrow> lru_remove k (l1 t);
     (_, c2) \<leftarrow> lru_remove k (l2 t);
     (_, c3) \<leftarrow> lru_remove k (l3 t);
     Some \<lparr>l1 = c1, l2 = c2, l3 = c3\<rparr>
   }"

definition tiered_clear :: "('k, 'v) tiered_cache \<Rightarrow> ('k, 'v) tiered_cache" where
  "tiered_clear t = \<lparr>l1 = lru_clear (l1 t), l2 = lru_clear (l2 t), l3 = lru_clear (l3 t)\<rparr>"

definition tiered_ok :: "('k, 'v) tiered_cache \<Rightarrow> bool" where
  "tiered_ok t \<longleftrightarrow> tier_ok (l1 t) \<and> tier_ok (l2 t) \<and> tier_ok (l3 t)"

text \<open>The value a reader sees, and every copy that some tier holds.\<close>

definition visible :: "('k, 'v) tiered_cache \<Rightarrow> 'k \<Rightarrow> 'v option" where
  "visible t k = map_option fst
     (case contents (l1 t) k of Some x \<Rightarrow> Some x
      | None \<Rightarrow> (case contents (l2 t) k of Some x \<Rightarrow> Some x | None \<Rightarrow> contents (l3 t) k))"

definition copies :: "('k, 'v) tiered_cache \<Rightarrow> ('k \<times> 'v \<times> nat) set" where
  "copies t = {(k, x). contents (l1 t) k = Some x \<or> contents (l2 t) k = Some x \<or> contents (l3 t) k = Some x}"

lemma demote_eq: "demote now es c = lru.put_all now es c"
  by (induction es arbitrary: c) auto

lemma tier_ok_new: "cap \<le> 10000 \<Longrightarrow> tier_ok (new_lru cap mx)"
  by (simp add: tier_ok_def lru_abs_def) (simp add: new_lru_def)

lemma tiered_ok_new: "tiered_ok new_tiered"
  by (simp add: tiered_ok_def new_tiered_def tier_ok_new)

lemma put_tierE:
  assumes "tier_ok c" "s \<le> max_entry"
  obtains old ev c' where "put_with_evictions now k v s c = Some ((old, ev), c')" "tier_ok c'"
    "contents c' k = Some (v, s)"
    "\<And>j x. contents c' j = Some x \<Longrightarrow> contents c j = Some x \<or> (j, x) = (k, v, s)"
    "\<And>j w u. (j, w, u) \<in> set ev \<Longrightarrow> contents c j = Some (w, u)" "\<forall>(j, w, u) \<in> set ev. u \<le> max_entry"
proof -
  obtain old ev c' where c': "put_with_evictions now k v s c = Some ((old, ev), c')" "tier_ok c'"
    "contents c' k = Some (v, s)" "contents c' \<subseteq>\<^sub>m (contents c)(k \<mapsto> (v, s))"
    "\<forall>j w u. (j, w, u) \<in> set ev \<longrightarrow> contents c j = Some (w, u) \<and> j \<noteq> k"
    using put_tier_ok[OF assms, of now k v] by blast
  have "contents c j = Some x \<or> (j, x) = (k, v, s)" if "contents c' j = Some x" for j x
  proof -
    have "((contents c)(k \<mapsto> (v, s))) j = Some x" using that c'(4) by (metis domI map_le_def)
    then show ?thesis by (auto split: if_splits)
  qed
  then show thesis using that[OF c'(1-3)] c'(5) lru.size_law[OF assms(1)] by blast
qed

lemma demoteE:
  assumes "tier_ok c" "\<forall>(k, v, s) \<in> set es. s \<le> max_entry"
  obtains evs c' where "demote now es c = Some (evs, c')" "tier_ok c'"
    "\<And>j x. contents c' j = Some x \<Longrightarrow> contents c j = Some x \<or> (j, x) \<in> set es"
    "\<And>j x. (j, x) \<in> set evs \<Longrightarrow> contents c j = Some x \<or> (j, x) \<in> set es"
    "\<forall>(j, w, u) \<in> set evs. u \<le> max_entry"
  using lru.put_all_ok[OF assms, of now] that unfolding demote_eq by (metis (no_types, lifting) case_prodI2 surj_pair)

lemma lru_get_tier:
  assumes "tier_ok c" "lru_get now k c = (r, c')"
  shows "tier_ok c'" "contents c' = contents c" "r = map_option fst (contents c k)"
  using assms get_tier_ok[OF assms(1), of now k] by (auto simp: lru_get_def split: prod.splits)

lemma tiered_put_ok:
  assumes "tiered_ok t" "s \<le> max_entry"
  obtains t' where "tiered_put now k v s t = Some t'" "tiered_ok t'" "visible t' k = Some v"
    "copies t' \<subseteq> insert (k, v, s) (copies t)"
proof -
  have T: "tier_ok (l1 t)" "tier_ok (l2 t)" "tier_ok (l3 t)" using assms(1) by (simp_all add: tiered_ok_def)
  obtain old ev c1 where c1: "put_with_evictions now k v s (l1 t) = Some ((old, ev), c1)" "tier_ok c1"
    "contents c1 k = Some (v, s)" "\<And>j x. contents c1 j = Some x \<Longrightarrow> contents (l1 t) j = Some x \<or> (j, x) = (k, v, s)"
    "\<And>j w u. (j, w, u) \<in> set ev \<Longrightarrow> contents (l1 t) j = Some (w, u)" "\<forall>(j, w, u) \<in> set ev. u \<le> max_entry"
    by (rule put_tierE[OF T(1) assms(2), of now k v]) (rule that)
  obtain evs c2 where c2: "demote now ev (l2 t) = Some (evs, c2)" "tier_ok c2"
    "\<And>j x. contents c2 j = Some x \<Longrightarrow> contents (l2 t) j = Some x \<or> (j, x) \<in> set ev"
    "\<And>j x. (j, x) \<in> set evs \<Longrightarrow> contents (l2 t) j = Some x \<or> (j, x) \<in> set ev"
    "\<forall>(j, w, u) \<in> set evs. u \<le> max_entry"
    by (rule demoteE[OF T(2) c1(6), of now]) (rule that)
  obtain evs3 c3 where c3: "demote now evs (l3 t) = Some (evs3, c3)" "tier_ok c3"
    "\<And>j x. contents c3 j = Some x \<Longrightarrow> contents (l3 t) j = Some x \<or> (j, x) \<in> set evs"
    by (rule demoteE[OF T(3) c2(5), of now]) (rule that)
  define t' where "t' = (if ev = [] then t\<lparr>l1 := c1\<rparr> else if evs = [] then t\<lparr>l1 := c1, l2 := c2\<rparr>
     else t\<lparr>l1 := c1, l2 := c2, l3 := c3\<rparr>)"
  have "tiered_put now k v s t = Some t'" using c1(1) c2(1) c3(1) by (simp add: tiered_put_def t'_def)
  moreover have "tiered_ok t'" using T c1(2) c2(2) c3(2) by (simp add: t'_def tiered_ok_def)
  moreover have l1: "l1 t' = c1" by (simp add: t'_def)
  then have "visible t' k = Some v" using c1(3) by (simp add: visible_def)
  moreover have "copies t' \<subseteq> insert (k, v, s) (copies t)"
  proof
    fix p assume p: "p \<in> copies t'"
    obtain j x where j: "p = (j, x)" by (cases p)
    have "contents c1 j = Some x \<or> contents c2 j = Some x \<or> contents c3 j = Some x \<or>
        contents (l2 t) j = Some x \<or> contents (l3 t) j = Some x"
      using p j by (auto simp: copies_def t'_def split: if_splits)
    then show "p \<in> insert (k, v, s) (copies t)"
      using c1(4)[of j x] c1(5)[of j "fst x" "snd x"] c2(3,4)[of j x] c3(3)[of j x] unfolding j by (auto simp: copies_def)
  qed
  ultimately show thesis using that by blast
qed

lemma tiered_get_ok:
  assumes "tiered_ok t"
  obtains t' where "tiered_get now k t = Some (visible t k, t')" "tiered_ok t'" "copies t' \<subseteq> copies t"
    "visible t' k = visible t k"
proof -
  have T: "tier_ok (l1 t)" "tier_ok (l2 t)" "tier_ok (l3 t)" using assms(1) by (simp_all add: tiered_ok_def)
  obtain r1 c1 where g1: "lru_get now k (l1 t) = (r1, c1)" by fastforce
  obtain r2 c2 where g2: "get_with_size now k (l2 t) = (r2, c2)" by fastforce
  obtain r3 c3 where g3: "get_with_size now k (l3 t) = (r3, c3)" by fastforce
  note c1 = lru_get_tier[OF T(1) g1] and c2 = get_tier_ok[OF T(2) g2] and c3 = get_tier_ok[OF T(3) g3]
  show thesis
  proof (cases "contents (l1 t) k")
    case (Some x)
    let ?t = "t\<lparr>l1 := c1\<rparr>"
    have "tiered_get now k t = Some (visible t k, ?t)" "visible ?t k = visible t k"
      using Some g1 c1 by (simp_all add: tiered_get_def visible_def)
    moreover have "tiered_ok ?t" "copies ?t = copies t" using T c1 by (simp_all add: tiered_ok_def copies_def)
    ultimately show thesis using that by blast
  next
    case none1: None
    show thesis
    proof (cases "contents (l2 t) k")
      case (Some x)
      obtain v s where x: "x = (v, s)" by (cases x)
      have s: "s \<le> max_entry" using lru.size_law[OF T(2)] Some x by simp
      obtain old ev d1 where d1: "put_with_evictions now k v s c1 = Some ((old, ev), d1)" "tier_ok d1"
        "contents d1 k = Some (v, s)" "\<And>j x. contents d1 j = Some x \<Longrightarrow> contents c1 j = Some x \<or> (j, x) = (k, v, s)"
        "\<And>j w u. (j, w, u) \<in> set ev \<Longrightarrow> contents c1 j = Some (w, u)" "\<forall>(j, w, u) \<in> set ev. u \<le> max_entry"
        by (rule put_tierE[OF c1(1) s, of now k v]) (rule that)
      obtain evs d2 where d2: "demote now ev c2 = Some (evs, d2)" "tier_ok d2"
        "\<And>j x. contents d2 j = Some x \<Longrightarrow> contents c2 j = Some x \<or> (j, x) \<in> set ev"
        by (rule demoteE[OF _ d1(6), of c2 now]) (use c2 in auto)
      let ?t = "t\<lparr>l1 := d1, l2 := d2\<rparr>"
      have "tiered_get now k t = Some (visible t k, ?t)" "visible ?t k = visible t k"
        using Some none1 x g1 c1(3) g2 c2 d1(1,3) d2(1) by (simp_all add: tiered_get_def visible_def)
      moreover have "tiered_ok ?t" using T d1(2) d2(2) by (simp add: tiered_ok_def)
      moreover have "copies ?t \<subseteq> copies t"
      proof
        fix p assume p: "p \<in> copies ?t"
        obtain j y where j: "p = (j, y)" by (cases p)
        show "p \<in> copies t"
          using p c1(2) c2 Some x d1(4)[of j y] d1(5)[of j "fst y" "snd y"] d2(3)[of j y] unfolding j by (auto simp: copies_def)
      qed
      ultimately show thesis using that by blast
    next
      case none2: None
      show thesis
      proof (cases "contents (l3 t) k")
        case (Some x)
        obtain v s where x: "x = (v, s)" by (cases x)
        have s: "s \<le> max_entry" using lru.size_law[OF T(3)] Some x by simp
        obtain old ev d2 where d2: "put_with_evictions now k v s c2 = Some ((old, ev), d2)" "tier_ok d2"
          "contents d2 k = Some (v, s)" "\<And>j x. contents d2 j = Some x \<Longrightarrow> contents c2 j = Some x \<or> (j, x) = (k, v, s)"
          "\<And>j w u. (j, w, u) \<in> set ev \<Longrightarrow> contents c2 j = Some (w, u)" "\<forall>(j, w, u) \<in> set ev. u \<le> max_entry"
          by (rule put_tierE[OF _ s, of c2 now k v]) (use c2 in auto)
        obtain evs d3 where d3: "demote now ev c3 = Some (evs, d3)" "tier_ok d3"
          "\<And>j x. contents d3 j = Some x \<Longrightarrow> contents c3 j = Some x \<or> (j, x) \<in> set ev"
          by (rule demoteE[OF _ d2(6), of c3 now]) (use c3 in auto)
        let ?t = "t\<lparr>l1 := c1, l2 := d2, l3 := d3\<rparr>"
        have "tiered_get now k t = Some (visible t k, ?t)" "visible ?t k = visible t k"
          using Some none1 none2 x g1 c1(2,3) g2 c2 g3 c3 d2(1,3) d3(1) by (simp_all add: tiered_get_def visible_def)
        moreover have "tiered_ok ?t" using c1(1) d2(2) d3(2) by (simp add: tiered_ok_def)
        moreover have "copies ?t \<subseteq> copies t"
        proof
          fix p assume p: "p \<in> copies ?t"
          obtain j y where j: "p = (j, y)" by (cases p)
          show "p \<in> copies t"
            using p c1(2) c2 c3 Some x d2(4)[of j y] d2(5)[of j "fst y" "snd y"] d3(3)[of j y] unfolding j by (auto simp: copies_def)
        qed
        ultimately show thesis using that by blast
      next
        case None
        let ?t = "t\<lparr>l1 := c1, l2 := c2, l3 := c3\<rparr>"
        have "tiered_get now k t = Some (visible t k, ?t)" "visible ?t k = visible t k"
          using None none1 none2 g1 c1(2,3) g2 c2 g3 c3 by (simp_all add: tiered_get_def visible_def)
        moreover have "tiered_ok ?t" "copies ?t = copies t" using c1 c2 c3 by (simp_all add: tiered_ok_def copies_def)
        ultimately show thesis using that by blast
      qed
    qed
  qed
qed

lemma tiered_invalidate_ok:
  assumes "tiered_ok t"
  obtains t' where "tiered_invalidate k t = Some t'" "tiered_ok t'" "copies t' = {p \<in> copies t. fst p \<noteq> k}"
    "visible t' k = None" "\<And>j. j \<noteq> k \<Longrightarrow> visible t' j = visible t j"
proof -
  obtain r1 c1 r2 c2 r3 c3 where c: "lru_remove k (l1 t) = Some (r1, c1)" "tier_ok c1" "contents c1 = (contents (l1 t))(k := None)"
    "lru_remove k (l2 t) = Some (r2, c2)" "tier_ok c2" "contents c2 = (contents (l2 t))(k := None)"
    "lru_remove k (l3 t) = Some (r3, c3)" "tier_ok c3" "contents c3 = (contents (l3 t))(k := None)"
    using remove_tier_ok[of "l1 t" k] remove_tier_ok[of "l2 t" k] remove_tier_ok[of "l3 t" k] assms
    unfolding tiered_ok_def by blast
  let ?t = "\<lparr>l1 = c1, l2 = c2, l3 = c3\<rparr>"
  show thesis
  proof (rule that[of ?t])
    show "visible ?t j = visible t j" if "j \<noteq> k" for j
      using c(3,6,9) that by (simp add: visible_def cong: option.case_cong)
  qed (use c in \<open>auto simp: tiered_invalidate_def tiered_ok_def copies_def visible_def split: if_splits\<close>)
qed

lemma tiered_clear_ok: "tiered_ok t \<Longrightarrow> tiered_ok (tiered_clear t) \<and> copies (tiered_clear t) = {}"
  by (auto simp: tiered_ok_def tier_ok_def tiered_clear_def copies_def contents_def recency_find_def lru_clear_refines
      lru_clear_def lru_abs_def lru_inv_def)

subsection \<open>Properties of the tiers\<close>

text \<open>
  \<open>TieredCache\<close>, for entries up to a size no file reaches: no operation panics and each
  keeps all three tiers consistent; \<open>get\<close> answers from the first tier that has the key, and the
  answer does not change by asking; after \<open>put\<close> the new value is the one seen; \<open>invalidate\<close> removes
  the key from every tier and no other key; and no operation invents a copy that was not put.
\<close>

theorem tiered_cache_correct:
  assumes "tiered_ok t" "s \<le> max_entry"
  shows "(\<exists>t'. tiered_get now k t = Some (visible t k, t') \<and> tiered_ok t' \<and> copies t' \<subseteq> copies t \<and>
           visible t' k = visible t k) \<and>
    (\<exists>t'. tiered_put now k v s t = Some t' \<and> tiered_ok t' \<and> visible t' k = Some v \<and>
       copies t' \<subseteq> insert (k, v, s) (copies t)) \<and>
    (\<exists>t'. tiered_invalidate k t = Some t' \<and> tiered_ok t' \<and> visible t' k = None \<and>
       (\<forall>j. j \<noteq> k \<longrightarrow> visible t' j = visible t j) \<and> copies t' = {p \<in> copies t. fst p \<noteq> k}) \<and>
    tiered_ok (tiered_clear t) \<and> copies (tiered_clear t) = {}"
proof -
  obtain t1 where g: "tiered_get now k t = Some (visible t k, t1)" "tiered_ok t1" "copies t1 \<subseteq> copies t"
    "visible t1 k = visible t k" by (rule tiered_get_ok[OF assms(1)])
  obtain t2 where p: "tiered_put now k v s t = Some t2" "tiered_ok t2" "visible t2 k = Some v"
    "copies t2 \<subseteq> insert (k, v, s) (copies t)" by (rule tiered_put_ok[OF assms])
  obtain t3 where i: "tiered_invalidate k t = Some t3" "tiered_ok t3" "copies t3 = {p \<in> copies t. fst p \<noteq> k}"
    "visible t3 k = None" "\<And>j. j \<noteq> k \<Longrightarrow> visible t3 j = visible t j" by (rule tiered_invalidate_ok[OF assms(1), of k]) (rule that)
  show ?thesis using g p i tiered_clear_ok[OF assms(1)] by blast
qed

theorem tiered_cache_correct_witness:
  "\<exists>t. tiered_put 0 (1::nat) ''v'' 2000000 new_tiered = Some t \<and> visible t 1 = Some ''v''"
  using tiered_cache_correct[OF tiered_ok_new, of 2000000 0 "1::nat" "''v''"] by (auto simp: max_entry_def)

text \<open>
  The tiers do not keep the last value written: when a hit in the second tier demotes an
  entry of the first, what falls out of the second tier is dropped although an older copy of
  it may still be in the third. Then a later \<open>get\<close> returns a value that had been overwritten.
\<close>

definition forty_mb :: nat where
  "forty_mb = 40 * 1024 * 1024"

definition stale_run :: "(string option \<times> (nat, string) tiered_cache) option" where
  "stale_run = do {
     t1 \<leftarrow> tiered_put 1 0 ''old'' forty_mb new_tiered;
     t2 \<leftarrow> tiered_put 2 1 ''a'' forty_mb t1;
     t3 \<leftarrow> tiered_put 3 2 ''b'' forty_mb t2;
     t4 \<leftarrow> tiered_put 4 3 ''c'' forty_mb t3;
     (_, t5) \<leftarrow> tiered_get 5 0 t4;
     t6 \<leftarrow> tiered_put 6 0 ''new'' forty_mb t5;
     t7 \<leftarrow> tiered_put 7 4 ''d'' forty_mb t6;
     (_, t8) \<leftarrow> tiered_get 8 3 t7;
     tiered_get 9 0 t8
   }"

theorem tiered_get_stale: "map_option fst stale_run = Some (Some ''old'')"
  by code_simp

end
