(* ===== verification/Predictive_Cache.thy ===== *)
theory Predictive_Cache
  imports Lru_Cache
begin

text \<open>
  \<open>PredictiveCache\<close> of \<open>fish-cache/src/strategies.rs\<close>: an \<open>LruCache\<close> and, per key, the pattern of
  its accesses. Instants and durations are nanoseconds. The moving average is computed in
  floating point; it is the parameter \<open>ema\<close> of the previous interval and the observation.
\<close>

record access_pattern =
  ap_count :: nat
  ap_last_access :: nat
  access_interval :: nat
  predicted_next_access :: "nat option"

record ('k, 'v) predictive_cache =
  pc_cache :: "('k, 'v) lru_cache"
  access_patterns :: "('k, access_pattern) hash_map"

definition new_predictive :: "nat \<Rightarrow> nat \<Rightarrow> ('k, 'v) predictive_cache" where
  "new_predictive cap mx = \<lparr>pc_cache = new_lru cap mx, access_patterns = []\<rparr>"

definition one_ms :: nat where
  "one_ms = 1000000"

definition note_access :: "(nat \<Rightarrow> nat \<Rightarrow> nat) \<Rightarrow> nat \<Rightarrow> access_pattern \<Rightarrow> access_pattern" where
  "note_access ema now p =
     (let elapsed = now - ap_last_access p;
          p1 = p\<lparr>ap_count := ap_count p + 1\<rparr>;
          p2 = (if 1 < ap_count p1 \<and> one_ms \<le> elapsed then
                  let i = ema (access_interval p1) elapsed
                  in p1\<lparr>access_interval := i, predicted_next_access := Some (now + i)\<rparr>
                else p1)
      in p2\<lparr>ap_last_access := now\<rparr>)"

definition predictive_get ::
  "(nat \<Rightarrow> nat \<Rightarrow> nat) \<Rightarrow> nat \<Rightarrow> 'k \<Rightarrow> ('k, 'v) predictive_cache \<Rightarrow> 'v option \<times> ('k, 'v) predictive_cache"
where
  "predictive_get ema now k p =
     (let ps = (case hm_get (access_patterns p) k of
            None \<Rightarrow> access_patterns p
          | Some a \<Rightarrow> hm_insert k (note_access ema now a) (access_patterns p))
      in case lru_get now k (pc_cache p) of
           (r, c) \<Rightarrow> (r, \<lparr>pc_cache = c, access_patterns = ps\<rparr>))"

definition predictive_put :: "nat \<Rightarrow> 'k \<Rightarrow> 'v \<Rightarrow> nat \<Rightarrow> ('k, 'v) predictive_cache \<Rightarrow> ('k, 'v) predictive_cache option" where
  "predictive_put now k v s p =
     (let ps = (case hm_get (access_patterns p) k of
            None \<Rightarrow> hm_insert k \<lparr>ap_count = 0, ap_last_access = now, access_interval = 0,
                      predicted_next_access = None\<rparr> (access_patterns p)
          | Some _ \<Rightarrow> access_patterns p)
      in map_option (\<lambda>(_, c). \<lparr>pc_cache = c, access_patterns = ps\<rparr>) (lru_put now k v s (pc_cache p)))"

definition predict_next_access :: "'k \<Rightarrow> ('k, 'v) predictive_cache \<Rightarrow> nat option" where
  "predict_next_access k p = Option.bind (hm_get (access_patterns p) k) predicted_next_access"

text \<open>\<open>prefetch\<close>; every key comes with the clock reading of its turn.\<close>

fun prefetch ::
  "('k \<Rightarrow> 'v option) \<Rightarrow> ('k \<times> nat) list \<Rightarrow> ('k, 'v) predictive_cache \<Rightarrow> ('k, 'v) predictive_cache option"
where
  "prefetch fetch [] p = Some p"
| "prefetch fetch ((k, now) # ks) p =
     (case predict_next_access k p of
        Some t \<Rightarrow>
          if t \<le> now + 60 * 1000 * one_ms then
            (case fetch k of
               Some v \<Rightarrow> Option.bind (predictive_put now k v 1024 p) (prefetch fetch ks)
             | None \<Rightarrow> prefetch fetch ks p)
          else prefetch fetch ks p
      | None \<Rightarrow> prefetch fetch ks p)"

text \<open>A prediction needs two accesses that are at least a millisecond apart.\<close>

lemma note_access_prediction:
  assumes "predicted_next_access p = None" "predicted_next_access (note_access ema now p) = Some t"
  shows "1 \<le> ap_count p" "ap_last_access p + one_ms \<le> now" "t = now + ema (access_interval p) (now - ap_last_access p)"
  using assms by (auto simp: note_access_def Let_def one_ms_def split: if_splits)

lemma predictive_get_answer:
  "fst (predictive_get ema now k p) = fst (lru_get now k (pc_cache p))"
  "pc_cache (snd (predictive_get ema now k p)) = snd (lru_get now k (pc_cache p))"
  "fst ` set (access_patterns (snd (predictive_get ema now k p))) = fst ` set (access_patterns p)"
  using hm_get_key[of "access_patterns p" k]
  by (cases "hm_get (access_patterns p) k"; cases "lru_get now k (pc_cache p)";
      simp add: predictive_get_def insert_absorb)+

text \<open>Prefetching touches no key without a prediction.\<close>

lemma prefetch_unpredicted:
  assumes "\<And>k now. (k, now) \<in> set ks \<Longrightarrow> predict_next_access k p = None"
  shows "prefetch fetch ks p = Some p"
  using assms
proof (induction ks)
  case (Cons x ks)
  obtain k now where "x = (k, now)" by (cases x)
  moreover from this have "predict_next_access k p = None" using Cons.prems[of k now] by simp
  ultimately show ?case using Cons.IH Cons.prems by fastforce
qed simp

end
