(* ===== verification/Cache_Gc.thy ===== *)
theory Cache_Gc
  imports Fish_Prelude "HOL-Library.Multiset"
begin

text \<open>
  The background collector of the cache directory, \<open>fish-cache/src/gc.rs\<close>. The directory is
  the list of its regular files in the order \<open>read_dir\<close> gives them; \<open>removable\<close> says for which
  paths \<open>remove_file\<close> succeeds. The watermark ratios are floats: a ratio is a value of any type
  and \<open>scale\<close> its truncated product with a size. The sizes of the files of one directory are taken to
  add up to less than \<open>2 ^ 64\<close>.
\<close>

datatype eviction_policy = Lru | SmallestFirst | TtlOnly

record 'r gc_config =
  max_size_bytes :: nat
  high_watermark_ratio :: 'r
  low_watermark_ratio :: 'r
  ttl :: nat
  policy :: eviction_policy
  scan_interval :: nat

record ('p, 'r) background_gc =
  cache_root :: 'p
  gc_conf :: "'r gc_config"
  running :: bool

definition new_gc :: "'p \<Rightarrow> 'r gc_config \<Rightarrow> ('p, 'r) background_gc" where
  "new_gc root conf = \<lparr>cache_root = root, gc_conf = conf, running = False\<rparr>"

definition start_gc :: "('p, 'r) background_gc \<Rightarrow> ('p, 'r) background_gc" where
  "start_gc g = g\<lparr>running := True\<rparr>"

definition stop_gc :: "('p, 'r) background_gc \<Rightarrow> ('p, 'r) background_gc" where
  "stop_gc g = g\<lparr>running := False\<rparr>"

record 'p cached_file =
  path :: 'p
  file_size :: nat
  mtime :: nat

text \<open>The result: number and bytes removed, and the files left.\<close>

record 'p gc_result =
  removed_count :: nat
  freed_bytes :: nat
  files_left :: "'p cached_file list"

text \<open>First pass: expired files are removed, the others are collected.\<close>

fun expire ::
  "('p \<Rightarrow> bool) \<Rightarrow> nat \<Rightarrow> nat \<Rightarrow> 'p cached_file list \<Rightarrow> nat \<times> nat \<times> 'p cached_file list \<times> 'p cached_file list"
where
  "expire removable now limit [] = (0, 0, [], [])"
| "expire removable now limit (f # fs) =
     (case expire removable now limit fs of (n, freed, stuck, fresh) \<Rightarrow>
        if limit \<le> now - mtime f then
          if removable (path f) then (Suc n, file_size f + freed, stuck, fresh)
          else (n, freed, f # stuck, fresh)
        else (n, freed, stuck, f # fresh))"

definition eviction_order :: "eviction_policy \<Rightarrow> 'p cached_file list \<Rightarrow> 'p cached_file list" where
  "eviction_order pol fs =
     (case pol of
        Lru \<Rightarrow> sort_key mtime fs
      | SmallestFirst \<Rightarrow> sort_key file_size fs
      | TtlOnly \<Rightarrow> fs)"

text \<open>Second pass: number and bytes removed, and the files kept.\<close>

fun evict_files ::
  "('p \<Rightarrow> bool) \<Rightarrow> nat \<Rightarrow> nat \<Rightarrow> 'p cached_file list \<Rightarrow> nat \<times> nat \<times> 'p cached_file list"
where
  "evict_files removable target current [] = (0, 0, [])"
| "evict_files removable target current (f # fs) =
     (if current \<le> target then (0, 0, f # fs)
      else if removable (path f) then
        (case evict_files removable target (current - file_size f) fs of
           (n, freed, left) \<Rightarrow> (Suc n, file_size f + freed, left))
      else
        (case evict_files removable target current fs of
           (n, freed, left) \<Rightarrow> (n, freed, f # left)))"

definition scan_and_evict ::
  "(nat \<Rightarrow> 'r \<Rightarrow> nat) \<Rightarrow> ('p \<Rightarrow> bool) \<Rightarrow> nat \<Rightarrow> 'p cached_file list \<Rightarrow> 'r gc_config \<Rightarrow> 'p gc_result"
where
  "scan_and_evict scale removable now files conf =
     (case expire removable now (ttl conf) files of (n, freed, stuck, fresh) \<Rightarrow>
        let total_size = sum_list (map file_size fresh);
            threshold = scale (max_size_bytes conf) (high_watermark_ratio conf);
            target_size = scale (max_size_bytes conf) (low_watermark_ratio conf)
        in if threshold < total_size then
             (case evict_files removable target_size total_size (eviction_order (policy conf) fresh) of
                (m, extra, left) \<Rightarrow>
                  \<lparr>removed_count = n + m, freed_bytes = freed + extra, files_left = stuck @ left\<rparr>)
           else \<lparr>removed_count = n, freed_bytes = freed, files_left = stuck @ fresh\<rparr>)"

subsection \<open>What the two passes do\<close>

definition expired :: "nat \<Rightarrow> nat \<Rightarrow> 'p cached_file \<Rightarrow> bool" where
  "expired now limit f \<longleftrightarrow> limit \<le> now - mtime f"

definition bytes :: "'p cached_file list \<Rightarrow> nat" where
  "bytes fs = sum_list (map file_size fs)"

lemma bytes_simps [simp]: "bytes [] = 0" "bytes (f # fs) = file_size f + bytes fs" "bytes (fs @ gs) = bytes fs + bytes gs"
  by (simp_all add: bytes_def)

lemma expire_spec:
  "expire removable now limit fs =
     (length (filter (\<lambda>f. expired now limit f \<and> removable (path f)) fs),
      bytes (filter (\<lambda>f. expired now limit f \<and> removable (path f)) fs),
      filter (\<lambda>f. expired now limit f \<and> \<not> removable (path f)) fs,
      filter (\<lambda>f. \<not> expired now limit f) fs)"
  by (induction fs) (auto simp: expired_def)

text \<open>The eviction loop removes the removable files of a prefix.\<close>

lemma evict_files_spec:
  obtains gone rest where "fs = gone @ rest"
    "evict_files removable target current fs =
       (length (filter (removable \<circ> path) gone), bytes (filter (removable \<circ> path) gone),
        filter (\<lambda>f. \<not> removable (path f)) gone @ rest)"
    "rest = [] \<or> current - bytes (filter (removable \<circ> path) gone) \<le> target"
    "gone = [] \<or> target < current - bytes (filter (removable \<circ> path) (butlast gone))"
proof -
  have "\<exists>gone rest. fs = gone @ rest \<and>
    evict_files removable target current fs =
       (length (filter (removable \<circ> path) gone), bytes (filter (removable \<circ> path) gone),
        filter (\<lambda>f. \<not> removable (path f)) gone @ rest) \<and>
    (rest = [] \<or> current - bytes (filter (removable \<circ> path) gone) \<le> target) \<and>
    (gone = [] \<or> target < current - bytes (filter (removable \<circ> path) (butlast gone)))"
  proof (induction fs arbitrary: current)
    case (Cons f fs)
    show ?case
    proof (cases "current \<le> target")
      case False
      define c where "c = (if removable (path f) then current - file_size f else current)"
      obtain gone rest where IH: "fs = gone @ rest"
        "evict_files removable target c fs =
           (length (filter (removable \<circ> path) gone), bytes (filter (removable \<circ> path) gone),
            filter (\<lambda>f. \<not> removable (path f)) gone @ rest)"
        "rest = [] \<or> c - bytes (filter (removable \<circ> path) gone) \<le> target"
        "gone = [] \<or> target < c - bytes (filter (removable \<circ> path) (butlast gone))"
        using Cons.IH[of c] by blast
      have e: "evict_files removable target current (f # fs) =
          (if removable (path f) then
             (case evict_files removable target c fs of (n, freed, left) \<Rightarrow> (Suc n, file_size f + freed, left))
           else (case evict_files removable target c fs of (n, freed, left) \<Rightarrow> (n, freed, f # left)))"
        using False by (simp add: c_def)
      moreover have "current - bytes (filter (removable \<circ> path) (f # xs)) = c - bytes (filter (removable \<circ> path) xs)" for xs
        by (simp add: c_def)
      moreover have "butlast (f # gone) = [] \<or> butlast (f # gone) = f # butlast gone" by simp
      ultimately have "target < current - bytes (filter (removable \<circ> path) (butlast (f # gone)))"
        "rest = [] \<or> current - bytes (filter (removable \<circ> path) (f # gone)) \<le> target"
        using IH(3,4) False by (cases "gone = []"; simp)+
      moreover have "evict_files removable target current (f # fs) =
          (length (filter (removable \<circ> path) (f # gone)), bytes (filter (removable \<circ> path) (f # gone)),
           filter (\<lambda>f. \<not> removable (path f)) (f # gone) @ rest)"
        unfolding e IH(2) by simp
      ultimately show ?thesis
        using IH(1) by (subst ex_comm, intro exI[of _ rest] exI[of _ "f # gone"] conjI) (simp_all only: append_Cons simp_thms)
    qed (intro exI[of _ "[]"] exI[of _ "f # fs"], simp)
  qed simp
  then show thesis using that by blast
qed

definition eviction_key :: "eviction_policy \<Rightarrow> 'p cached_file \<Rightarrow> nat" where
  "eviction_key pol f = (case pol of Lru \<Rightarrow> mtime f | SmallestFirst \<Rightarrow> file_size f | TtlOnly \<Rightarrow> 0)"

lemma mset_eviction_order [simp]: "mset (eviction_order pol fs) = mset fs"
  by (cases pol) (simp_all add: eviction_order_def)

lemma sorted_eviction_order: "sorted (map (eviction_key pol) (eviction_order pol fs))"
proof -
  have "map (eviction_key TtlOnly) fs = replicate (length fs) 0"
    by (induction fs) (simp_all add: eviction_key_def)
  moreover have "map (eviction_key Lru) (sort_key mtime fs) = map mtime (sort_key mtime fs)"
    "map (eviction_key SmallestFirst) (sort_key file_size fs) = map file_size (sort_key file_size fs)"
    by (simp_all add: eviction_key_def)
  ultimately show ?thesis by (cases pol) (simp_all only: eviction_order_def eviction_policy.case, simp_all)
qed

lemma bytes_mset: "mset fs = mset gs \<Longrightarrow> bytes fs = bytes gs"
  unfolding bytes_def by (metis mset_map sum_mset_sum_list)

lemma bytes_filter: "bytes (filter P fs) + bytes (filter (\<lambda>f. \<not> P f) fs) = bytes fs"
  by (induction fs) auto

lemma evict_order_spec:
  assumes "evict_files removable target (bytes fresh) (eviction_order pol fresh) = (m, extra, left)"
  obtains gone where "mset fresh = mset gone + mset left" "m = length gone" "extra = bytes gone"
    "\<forall>f \<in> set gone. removable (path f)"
    "bytes left \<le> target \<or> (\<forall>f \<in> set left. \<not> removable (path f))"
    "\<forall>f \<in> set gone. \<forall>g \<in> set left. removable (path g) \<longrightarrow> eviction_key pol f \<le> eviction_key pol g"
proof -
  obtain front rest where e: "eviction_order pol fresh = front @ rest"
    "evict_files removable target (bytes fresh) (eviction_order pol fresh) =
       (length (filter (removable \<circ> path) front), bytes (filter (removable \<circ> path) front),
        filter (\<lambda>f. \<not> removable (path f)) front @ rest)"
    "rest = [] \<or> bytes fresh - bytes (filter (removable \<circ> path) front) \<le> target"
    by (rule evict_files_spec[of "eviction_order pol fresh" removable target "bytes fresh"])
  define gone where "gone = filter (removable \<circ> path) front"
  have left: "left = filter (\<lambda>f. \<not> removable (path f)) front @ rest" "m = length gone" "extra = bytes gone"
    using e(2) assms by (simp_all add: gone_def)
  have "mset front = mset gone + mset (filter (\<lambda>f. \<not> removable (path f)) front)"
    by (simp add: gone_def comp_def)
  moreover have "mset fresh = mset front + mset rest"
    using mset_eviction_order[of pol fresh] by (simp add: e(1))
  ultimately have m: "mset fresh = mset gone + mset left" by (simp add: left(1))
  then have "bytes fresh = bytes gone + bytes left" using bytes_mset[of fresh "gone @ left"] by simp
  then have b: "bytes left \<le> target \<or> (\<forall>f \<in> set left. \<not> removable (path f))"
    using e(3) by (auto simp: left(1) gone_def)
  have "sorted (map (eviction_key pol) front @ map (eviction_key pol) rest)"
    using sorted_eviction_order[of pol fresh] by (simp add: e(1))
  then have "\<forall>f \<in> set front. \<forall>g \<in> set rest. eviction_key pol f \<le> eviction_key pol g"
    by (simp add: sorted_append)
  then have "\<forall>f \<in> set gone. \<forall>g \<in> set left. removable (path g) \<longrightarrow> eviction_key pol f \<le> eviction_key pol g"
    by (auto simp: gone_def left(1))
  moreover have "\<forall>f \<in> set gone. removable (path f)" by (simp add: gone_def)
  ultimately show thesis using that m left(2,3) b by blast
qed

subsection \<open>Properties\<close>

text \<open>
  A collection removes only files that can be removed and accounts for every byte; every
  expired file that can be removed goes; below the high watermark nothing else is touched;
  above it files go in the order of the policy (oldest first, or smallest first) until the
  rest fits under the low watermark or nothing removable is left.
\<close>

theorem scan_and_evict_correct:
  assumes "scan_and_evict scale removable now files conf = r"
  shows "\<exists>gone. mset files = mset gone + mset (files_left r) \<and>
    removed_count r = length gone \<and> freed_bytes r = bytes gone \<and> (\<forall>f \<in> set gone. removable (path f)) \<and>
    (\<forall>f \<in> set (files_left r). expired now (ttl conf) f \<longrightarrow> \<not> removable (path f)) \<and>
    (bytes (filter (\<lambda>f. \<not> expired now (ttl conf) f) files) \<le> scale (max_size_bytes conf) (high_watermark_ratio conf) \<longrightarrow>
       (\<forall>f \<in> set gone. expired now (ttl conf) f)) \<and>
    (scale (max_size_bytes conf) (high_watermark_ratio conf) < bytes (filter (\<lambda>f. \<not> expired now (ttl conf) f) files) \<longrightarrow>
       bytes (filter (\<lambda>f. \<not> expired now (ttl conf) f) (files_left r)) \<le> scale (max_size_bytes conf) (low_watermark_ratio conf) \<or>
       (\<forall>f \<in> set (files_left r). \<not> removable (path f))) \<and>
    (\<forall>f \<in> set gone. \<forall>g \<in> set (files_left r). removable (path g) \<longrightarrow> \<not> expired now (ttl conf) f \<longrightarrow>
       eviction_key (policy conf) f \<le> eviction_key (policy conf) g)"
proof -
  let ?E = "expired now (ttl conf)"
  let ?dead = "filter (\<lambda>f. ?E f \<and> removable (path f)) files"
  let ?stuck = "filter (\<lambda>f. ?E f \<and> \<not> removable (path f)) files"
  let ?fresh = "filter (\<lambda>f. \<not> ?E f) files"
  let ?high = "scale (max_size_bytes conf) (high_watermark_ratio conf)"
  let ?low = "scale (max_size_bytes conf) (low_watermark_ratio conf)"
  have parts: "mset files = mset ?dead + mset ?stuck + mset ?fresh"
    by (induction files) auto
  show ?thesis
  proof (cases "?high < bytes ?fresh")
    case False
    then have r: "r = \<lparr>removed_count = length ?dead, freed_bytes = bytes ?dead, files_left = ?stuck @ ?fresh\<rparr>"
      using assms by (simp add: scan_and_evict_def expire_spec Let_def bytes_def)
    show ?thesis
      using False parts unfolding r by (intro exI[of _ ?dead]) (simp add: add.assoc; auto)
  next
    case True
    obtain m extra left where v: "evict_files removable ?low (bytes ?fresh) (eviction_order (policy conf) ?fresh) = (m, extra, left)"
      by (cases "evict_files removable ?low (bytes ?fresh) (eviction_order (policy conf) ?fresh)") auto
    obtain gone where g: "mset ?fresh = mset gone + mset left" "m = length gone" "extra = bytes gone"
      "\<forall>f \<in> set gone. removable (path f)" "bytes left \<le> ?low \<or> (\<forall>f \<in> set left. \<not> removable (path f))"
      "\<forall>f \<in> set gone. \<forall>g \<in> set left. removable (path g) \<longrightarrow> eviction_key (policy conf) f \<le> eviction_key (policy conf) g"
      by (rule evict_order_spec[OF v])
    have r: "r = \<lparr>removed_count = length ?dead + m, freed_bytes = bytes ?dead + extra, files_left = ?stuck @ left\<rparr>"
      using assms True v by (simp add: scan_and_evict_def expire_spec Let_def bytes_def)
    have "set ?fresh = set gone \<union> set left" using arg_cong[OF g(1), of set_mset] by simp
    then have fresh: "\<forall>f \<in> set left. \<not> ?E f" "\<forall>f \<in> set gone. \<not> ?E f" by auto
    then have "filter (\<lambda>f. \<not> ?E f) (?stuck @ left) = left" by (auto simp: filter_id_conv filter_empty_conv)
    then show ?thesis
      using True parts g fresh unfolding r by (intro exI[of _ "?dead @ gone"]) (simp add: add_ac; auto)
  qed
qed

definition two_files :: "nat cached_file list" where
  "two_files = [\<lparr>path = 0, file_size = 60, mtime = 90\<rparr>, \<lparr>path = 1, file_size = 50, mtime = 80\<rparr>]"

definition ratio_conf :: "eviction_policy \<Rightarrow> nat gc_config" where
  "ratio_conf pol = \<lparr>max_size_bytes = 100, high_watermark_ratio = 90, low_watermark_ratio = 70,
     ttl = 1000, policy = pol, scan_interval = 300\<rparr>"

theorem scan_and_evict_correct_witness:
  "\<exists>r gone. scan_and_evict (\<lambda>n p. n * p div 100) (\<lambda>_. True) 100 two_files (ratio_conf Lru) = r \<and>
     mset two_files = mset gone + mset (files_left r) \<and> files_left r = [\<lparr>path = 0, file_size = 60, mtime = 90\<rparr>]"
proof -
  let ?r = "scan_and_evict (\<lambda>n p. n * p div 100) (\<lambda>_. True) 100 two_files (ratio_conf Lru)"
  have "files_left ?r = [\<lparr>path = 0, file_size = 60, mtime = 90\<rparr>]" by code_simp
  moreover obtain gone where "mset two_files = mset gone + mset (files_left ?r)"
    using scan_and_evict_correct[of "\<lambda>n p. n * p div 100" "\<lambda>_. True" 100 two_files "ratio_conf Lru" ?r, OF refl]
    by (elim exE conjE) (rule that)
  ultimately show ?thesis by blast
qed

text \<open>
  The policy \<open>TtlOnly\<close> is documented to remove expired entries only; above the high
  watermark it nevertheless removes files that have not expired.
\<close>

theorem ttl_only_removes_unexpired:
  "expire (\<lambda>_. True) 100 1000 two_files = (0, 0, [], two_files) \<and>
   removed_count (scan_and_evict (\<lambda>n p. n * p div 100) (\<lambda>_. True) 100 two_files (ratio_conf TtlOnly)) = 1"
  by code_simp

end
