(* ===== verification/Buffer_Pool.thy ===== *)
theory Buffer_Pool
  imports Fish_Prelude
begin

text \<open>
  The pool of byte buffers of \<open>fish-cache/src/pool.rs\<close>. A buffer is its capacity and its length;
  its bytes do not matter here. \<open>grow old n\<close> is the capacity the allocator gives when room for
  \<open>n\<close> bytes is needed and the buffer has capacity \<open>old\<close>: at least \<open>n\<close>, which \<open>Vec\<close> documents.
\<close>

definition SIZE_TIERS :: "nat list" where
  "SIZE_TIERS = [256, 1024, 4096, 16384, 65536, 262144]"

record buffer =
  b_capacity :: nat
  b_len :: nat

record pool_stats =
  pool_hits :: nat
  pool_misses :: nat
  allocations :: nat
  deallocations :: nat

record buffer_pool =
  pools :: "buffer list list"
  pool_stats :: pool_stats

definition new_pool :: buffer_pool where
  "new_pool = \<lparr>pools = map (\<lambda>_. []) SIZE_TIERS,
     pool_stats = \<lparr>pool_hits = 0, pool_misses = 0, allocations = 0, deallocations = 0\<rparr>\<rparr>"

fun position :: "('a \<Rightarrow> bool) \<Rightarrow> 'a list \<Rightarrow> nat option" where
  "position P [] = None"
| "position P (x # xs) = (if P x then Some 0 else map_option Suc (position P xs))"

definition find_tier :: "nat \<Rightarrow> nat" where
  "find_tier n = (case position (\<lambda>tier. n \<le> tier) SIZE_TIERS of Some i \<Rightarrow> i | None \<Rightarrow> length SIZE_TIERS - 1)"

definition get_buffer :: "(nat \<Rightarrow> nat \<Rightarrow> nat) \<Rightarrow> nat \<Rightarrow> buffer_pool \<Rightarrow> buffer \<times> buffer_pool" where
  "get_buffer grow min_size p =
     (let tier = find_tier min_size;
          stats = (pool_stats p)\<lparr>allocations := allocations (pool_stats p) + 1\<rparr>;
          miss = (\<lparr>b_capacity = grow 0 min_size, b_len = 0\<rparr>,
                  p\<lparr>pool_stats := stats\<lparr>pool_misses := pool_misses stats + 1\<rparr>\<rparr>)
      in case vec_get (pools p) tier of
           Some (b # bs) \<Rightarrow>
             (\<lparr>b_capacity = (if min_size \<le> b_capacity b then b_capacity b else grow (b_capacity b) min_size), b_len = 0\<rparr>,
              p\<lparr>pools := (pools p)[tier := bs], pool_stats := stats\<lparr>pool_hits := pool_hits stats + 1\<rparr>\<rparr>)
         | _ \<Rightarrow> miss)"

definition return_buffer :: "buffer \<Rightarrow> buffer_pool \<Rightarrow> buffer_pool" where
  "return_buffer b p =
     (let tier = find_tier (b_capacity b);
          p1 = p\<lparr>pool_stats := (pool_stats p)\<lparr>deallocations := deallocations (pool_stats p) + 1\<rparr>\<rparr>
      in case vec_get SIZE_TIERS tier of
           Some tier_size \<Rightarrow>
             if tier_size * 2 div 3 \<le> b_capacity b \<and> b_capacity b \<le> tier_size * 3 div 2 then
               (case vec_get (pools p) tier of
                  Some pool \<Rightarrow> if length pool < 10 then p1\<lparr>pools := (pools p)[tier := pool @ [b]]\<rparr> else p1
                | None \<Rightarrow> p1)
             else p1
         | None \<Rightarrow> p1)"

definition clear_pools :: "buffer_pool \<Rightarrow> buffer_pool" where
  "clear_pools p = p\<lparr>pools := map (\<lambda>_. []) (pools p)\<rparr>"

text \<open>A scoped buffer returns its buffer when it is dropped, unless nothing was written to it.\<close>

definition drop_scoped :: "buffer \<Rightarrow> buffer_pool \<Rightarrow> buffer_pool" where
  "drop_scoped b p = (if b_len b \<noteq> 0 then return_buffer b p else p)"

subsection \<open>The invariant\<close>

definition pool_ok :: "buffer_pool \<Rightarrow> bool" where
  "pool_ok p \<longleftrightarrow> length (pools p) = length SIZE_TIERS \<and>
     (\<forall>i < length SIZE_TIERS. length (pools p ! i) \<le> 10 \<and>
        (\<forall>b \<in> set (pools p ! i). find_tier (b_capacity b) = i \<and>
           SIZE_TIERS ! i * 2 div 3 \<le> b_capacity b \<and> b_capacity b \<le> SIZE_TIERS ! i * 3 div 2)) \<and>
     allocations (pool_stats p) = pool_hits (pool_stats p) + pool_misses (pool_stats p)"

lemma position_bound: "position P xs = Some i \<Longrightarrow> i < length xs \<and> P (xs ! i)"
  by (induction xs arbitrary: i) (auto split: if_splits)

lemma length_SIZE_TIERS [simp]: "length SIZE_TIERS = 6"
  by (simp add: SIZE_TIERS_def)

lemma find_tier_less [simp]: "find_tier n < 6"
  using position_bound[of "\<lambda>tier. n \<le> tier" SIZE_TIERS] by (auto simp: find_tier_def split: option.splits)

lemma pool_ok_new: "pool_ok new_pool"
  by (simp add: pool_ok_def new_pool_def)

lemma pool_ok_get:
  assumes "pool_ok p" "\<And>old n. n \<le> grow old n" "get_buffer grow min_size p = (b, p')"
  shows "pool_ok p'" "min_size \<le> b_capacity b" "b_len b = 0"
proof -
  have t: "find_tier min_size < length (pools p)" using assms(1) by (simp add: pool_ok_def)
  show "min_size \<le> b_capacity b" "b_len b = 0"
    using assms(2,3) by (auto simp: get_buffer_def Let_def split: option.splits list.splits if_splits)
  show "pool_ok p'"
  proof (cases "pools p ! find_tier min_size")
    case Nil
    then have "p' = p\<lparr>pool_stats := (pool_stats p)\<lparr>allocations := allocations (pool_stats p) + 1,
        pool_misses := pool_misses (pool_stats p) + 1\<rparr>\<rparr>"
      using assms(3) t by (simp add: get_buffer_def Let_def)
    then show ?thesis using assms(1) by (simp add: pool_ok_def)
  next
    case (Cons c cs)
    then have "pools p' = (pools p)[find_tier min_size := cs]"
      "pool_stats p' = (pool_stats p)\<lparr>allocations := allocations (pool_stats p) + 1,
        pool_hits := pool_hits (pool_stats p) + 1\<rparr>"
      using assms(3) t by (auto simp add: get_buffer_def Let_def)
    moreover have "length (c # cs) \<le> 10" using assms(1) unfolding Cons[symmetric] by (simp add: pool_ok_def)
    ultimately show ?thesis using assms(1) t Cons by (auto simp: pool_ok_def nth_list_update)
  qed
qed

lemma pool_ok_return:
  assumes "pool_ok p"
  shows "pool_ok (return_buffer b p)"
proof -
  let ?i = "find_tier (b_capacity b)"
  have t: "?i < 6" "?i < length (pools p)" using assms find_tier_less[of "b_capacity b"] by (simp_all add: pool_ok_def)
  let ?p1 = "p\<lparr>pool_stats := (pool_stats p)\<lparr>deallocations := deallocations (pool_stats p) + 1\<rparr>\<rparr>"
  have p1: "pool_ok ?p1" using assms by (simp add: pool_ok_def)
  have "pool_ok (?p1\<lparr>pools := (pools p)[?i := pools p ! ?i @ [b]]\<rparr>)"
    if "SIZE_TIERS ! ?i * 2 div 3 \<le> b_capacity b" "b_capacity b \<le> SIZE_TIERS ! ?i * 3 div 2" "length (pools p ! ?i) < 10"
    using assms t that by (auto simp: pool_ok_def nth_list_update)
  then show ?thesis using p1 t by (auto simp: return_buffer_def Let_def)
qed

lemma pool_ok_clear: "pool_ok p \<Longrightarrow> pool_ok (clear_pools p)"
  by (simp add: pool_ok_def clear_pools_def)

lemma pool_ok_drop: "pool_ok p \<Longrightarrow> pool_ok (drop_scoped b p)"
  by (simp add: drop_scoped_def pool_ok_return)

text \<open>
  A buffer handed out is empty and large enough, whatever was returned to the pool before;
  the pool keeps at most ten buffers per tier, each within a factor of 3/2 of the tier's size.
\<close>

lemma buffer_pool_correct:
  assumes "pool_ok p" "\<And>old n. n \<le> grow old n"
  shows "pool_ok (snd (get_buffer grow min_size p)) \<and> min_size \<le> b_capacity (fst (get_buffer grow min_size p)) \<and>
    b_len (fst (get_buffer grow min_size p)) = 0 \<and> pool_ok (return_buffer b p) \<and> pool_ok (drop_scoped b p) \<and>
    pool_ok (clear_pools p) \<and> sum_list (map length (pools p)) \<le> 60"
proof -
  obtain c p' where g: "get_buffer grow min_size p = (c, p')" by fastforce
  have "sum_list xs \<le> length xs * 10" if "\<forall>x \<in> set xs. x \<le> (10::nat)" for xs
    using that by (induction xs) auto
  from this[of "map length (pools p)"] have "sum_list (map length (pools p)) \<le> 60"
    using assms(1) by (fastforce simp: pool_ok_def in_set_conv_nth)
  then show ?thesis
    using pool_ok_get[OF assms g] g assms(1) by (simp add: pool_ok_return pool_ok_drop pool_ok_clear)
qed

end
