(* ===== verification/Utf8.thy ===== *)
theory Utf8
  imports "HOL-Library.Word"
begin

text \<open>The byte sequences that the standard library takes for strings, on keys and on files read as text.\<close>

type_synonym byte = "8 word"

subsection \<open>UTF-8\<close>

text \<open>The byte sequences that \<open>String::from_utf8\<close> accepts.\<close>

definition cont :: "byte \<Rightarrow> bool" where
  "cont b \<longleftrightarrow> 0x80 \<le> b \<and> b \<le> 0xBF"

fun valid_utf8 :: "byte list \<Rightarrow> bool" where
  "valid_utf8 [] = True"
| "valid_utf8 (a # s) =
     (if a < 0x80 then valid_utf8 s
      else case s of
        [] \<Rightarrow> False
      | b # s1 \<Rightarrow>
          if 0xC2 \<le> a \<and> a \<le> 0xDF then cont b \<and> valid_utf8 s1
          else (case s1 of
             [] \<Rightarrow> False
           | c # s2 \<Rightarrow>
               if a = 0xE0 then 0xA0 \<le> b \<and> b \<le> 0xBF \<and> cont c \<and> valid_utf8 s2
               else if a = 0xED then 0x80 \<le> b \<and> b \<le> 0x9F \<and> cont c \<and> valid_utf8 s2
               else if 0xE1 \<le> a \<and> a \<le> 0xEF then cont b \<and> cont c \<and> valid_utf8 s2
               else (case s2 of
                  [] \<Rightarrow> False
                | d # s3 \<Rightarrow>
                    if a = 0xF0 then 0x90 \<le> b \<and> b \<le> 0xBF \<and> cont c \<and> cont d \<and> valid_utf8 s3
                    else if 0xF1 \<le> a \<and> a \<le> 0xF3 then cont b \<and> cont c \<and> cont d \<and> valid_utf8 s3
                    else a = 0xF4 \<and> 0x80 \<le> b \<and> b \<le> 0x8F \<and> cont c \<and> cont d \<and> valid_utf8 s3)))"

lemma valid_utf8_ascii: "list_all (\<lambda>b. b < 0x80) bs \<Longrightarrow> valid_utf8 bs"
  by (induction bs) simp_all

end
