(* ===== verification/Cache_Keys.thy ===== *)
theory Cache_Keys
  imports Fish_Prelude Utf8
begin

unbundle bit_operations_syntax

text \<open>
  How a cache key becomes a file name: \<open>encode_key\<close>, \<open>decode_key\<close> and \<open>valid_object_hash\<close> of
  \<open>fish-cache/src/lib.rs\<close>. A \<open>str\<close> is its list of UTF-8 bytes. What the disk cache needs from
  the encoding is the interface \<open>key_codec\<close>.
\<close>

subsection \<open>The encoding\<close>

text \<open>The characters are written as their code: \<open>-\<close> 45, \<open>.\<close> 46, \<open>_\<close> 95, \<open>~\<close> 126, \<open>%\<close> 37.\<close>

definition is_ascii_alphanumeric :: "byte \<Rightarrow> bool" where
  "is_ascii_alphanumeric b \<longleftrightarrow> 48 \<le> b \<and> b \<le> 57 \<or> 65 \<le> b \<and> b \<le> 90 \<or> 97 \<le> b \<and> b \<le> 122"

definition key_char_safe :: "byte \<Rightarrow> bool" where
  "key_char_safe b \<longleftrightarrow> is_ascii_alphanumeric b \<or> b \<in> {45, 46, 95, 126}"

definition hex_val :: "byte \<Rightarrow> byte option" where
  "hex_val b =
     (if 48 \<le> b \<and> b \<le> 57 then Some (b - 48)
      else if 65 \<le> b \<and> b \<le> 70 then Some (b - 65 + 10)
      else None)"

text \<open>One digit of the format \<open>{:02X}\<close>.\<close>

definition hex_digit :: "byte \<Rightarrow> byte" where
  "hex_digit d = (if d < 10 then 48 + d else 55 + d)"

fun encode_key :: "byte list \<Rightarrow> byte list" where
  "encode_key [] = []"
| "encode_key (b # bs) =
     (if key_char_safe b then b # encode_key bs
      else 37 # hex_digit (drop_bit 4 b) # hex_digit (b AND 15) # encode_key bs)"

text \<open>The loop of \<open>decode_key\<close>, before the check that the result is UTF-8.\<close>

fun decode_bytes :: "byte list \<Rightarrow> byte list option" where
  "decode_bytes [] = Some []"
| "decode_bytes (b # bs) =
     (if b = 37 then
        (case bs of
           h # l # rest \<Rightarrow> do {
             hi \<leftarrow> hex_val h;
             lo \<leftarrow> hex_val l;
             out \<leftarrow> decode_bytes rest;
             Some ((push_bit 4 hi OR lo) # out)
           }
         | _ \<Rightarrow> None)
      else map_option ((#) b) (decode_bytes bs))"

definition decode_key :: "byte list \<Rightarrow> byte list option" where
  "decode_key encoded = do {
     out \<leftarrow> decode_bytes encoded;
     if valid_utf8 out then Some out else None
   }"

text \<open>\<open>/\<close> is 47, \<open>\\<close> is 92.\<close>

definition valid_object_hash :: "byte list \<Rightarrow> bool" where
  "valid_object_hash h \<longleftrightarrow> h \<noteq> [] \<and> h \<noteq> [46] \<and> h \<noteq> [46, 46] \<and> (\<forall>b \<in> set h. b \<notin> {47, 92, 0})"

subsection \<open>Digits\<close>

lemma hex_val_digit: "d < 16 \<Longrightarrow> hex_val (hex_digit d) = Some d"
proof -
  assume "d < 16"
  then have "unat d < 16" by (simp add: word_less_nat_alt)
  then have "unat d \<in> set [0..<16]" by simp
  moreover have "list_all (\<lambda>n. hex_val (hex_digit (of_nat n)) = Some (of_nat n)) [0..<16]" by code_simp
  ultimately have "hex_val (hex_digit (of_nat (unat d))) = Some (of_nat (unat d))" by (simp only: list_all_iff)
  then show ?thesis by simp
qed

lemma nibbles: "drop_bit 4 (b :: byte) < 16" "b AND 15 < 16" "push_bit 4 (drop_bit 4 b) OR (b AND 15) = b"
proof -
  have "unat (drop_bit 4 b) = unat b div 16" by (simp add: drop_bit_eq_div unat_div_distrib)
  moreover have "unat b < 256" by (rule order.strict_trans2[OF unsigned_less]) simp
  ultimately show "drop_bit 4 b < 16" by (simp add: word_less_nat_alt)
  have m: "(15 :: byte) = mask 4" by (simp add: mask_eq_exp_minus_1)
  show "b AND 15 < 16" unfolding m by (rule order.strict_trans2[OF and_mask_less']) simp_all
  show "push_bit 4 (drop_bit 4 b) OR (b AND 15) = b"
    unfolding m by (rule bit_eqI) (auto simp: bit_simps not_less)
qed

subsection \<open>The interface of a key encoding\<close>

locale key_codec =
  fixes valid :: "'s \<Rightarrow> bool"
    and file_name :: "'s \<Rightarrow> 'n"
    and key_of :: "'n \<Rightarrow> 's option"
  assumes key_of_file_name: "valid s \<Longrightarrow> key_of (file_name s) = Some s"
begin

lemma file_name_inj: "valid s \<Longrightarrow> valid t \<Longrightarrow> file_name s = file_name t \<longleftrightarrow> s = t"
  by (metis key_of_file_name option.inject)

text \<open>A store of files under their encoded names is a store of keys.\<close>

definition by_key :: "('n \<Rightarrow> 'a option) \<Rightarrow> 's \<Rightarrow> 'a option" where
  "by_key files s = (if valid s then files (file_name s) else None)"

lemma by_key_upd: "valid s \<Longrightarrow> by_key (files(file_name s := x)) = (by_key files)(s := x)"
  by (auto simp: by_key_def fun_eq_iff file_name_inj)

end

lemma decode_encode_bytes: "decode_bytes (encode_key k) = Some k"
proof (induction k)
  case (Cons b k)
  have "b \<noteq> 37" if "key_char_safe b"
    using that by (auto simp: key_char_safe_def is_ascii_alphanumeric_def)
  then show ?case using Cons by (simp add: hex_val_digit nibbles)
qed simp

lemma encode_key_inj [simp]: "encode_key k = encode_key k' \<longleftrightarrow> k = k'"
  by (metis decode_encode_bytes option.inject)

interpretation fish_keys: key_codec valid_utf8 encode_key decode_key
  by unfold_locales (simp add: decode_key_def decode_encode_bytes)

lemma hex_digit_safe: "d < 16 \<Longrightarrow> key_char_safe (hex_digit d)"
proof -
  assume "d < 16"
  then have "unat d \<in> set [0..<16]" by (simp add: word_less_nat_alt)
  moreover have "list_all (\<lambda>n. key_char_safe (hex_digit (of_nat n))) [0..<16]" by code_simp
  ultimately have "key_char_safe (hex_digit (of_nat (unat d)))" by (simp only: list_all_iff)
  then show ?thesis by simp
qed

lemma encode_key_alphabet: "b \<in> set (encode_key k) \<Longrightarrow> key_char_safe b \<or> b = 37"
  by (induction k rule: encode_key.induct) (auto simp: hex_digit_safe nibbles split: if_splits)

lemma safe_not_separator: "key_char_safe b \<or> b = 37 \<Longrightarrow> b \<notin> {47, 92, 0}"
  by (auto simp: key_char_safe_def is_ascii_alphanumeric_def)

lemma encode_key_length: "length k \<le> length (encode_key k) \<and> length (encode_key k) \<le> 3 * length k"
  by (induction k) auto

subsection \<open>Properties\<close>

text \<open>
  C18. \<open>decode_key\<close> undoes \<open>encode_key\<close> on every string; so two keys never share a file name.
  The file name consists of unreserved characters and \<open>%\<close> alone: it has no separator and no
  NUL byte, whatever the key.
\<close>

theorem key_encoding_roundtrip:
  assumes "valid_utf8 k" "valid_utf8 k'"
  shows "decode_key (encode_key k) = Some k \<and> (encode_key k = encode_key k' \<longleftrightarrow> k = k') \<and>
    (\<forall>b \<in> set (encode_key k). (key_char_safe b \<or> b = 37) \<and> b \<notin> {47, 92, 0})"
  using fish_keys.key_of_file_name[OF assms(1)] fish_keys.file_name_inj[OF assms]
    encode_key_alphabet[of _ k] safe_not_separator by blast

text \<open>The keys \<open>a/b\<close> and \<open>a%2Fb\<close>, and one with the two-byte letter \<open>C3 A9\<close>.\<close>

theorem key_encoding_roundtrip_witness:
  "decode_key (encode_key [97, 47, 98]) = Some [97, 47, 98] \<and>
   encode_key [97, 47, 98] = [97, 37, 50, 70, 98] \<and>
   encode_key [97, 47, 98] \<noteq> encode_key [97, 37, 50, 70, 98, 0xC3, 0xA9]"
proof -
  have v: "valid_utf8 [97, 47, 98]" "valid_utf8 [97, 37, 50, 70, 98, 0xC3, 0xA9]" by code_simp+
  have "encode_key [97, 47, 98] = [97, 37, 50, 70, 98]" by code_simp
  then show ?thesis using key_encoding_roundtrip[OF v] by auto
qed

end
