(* ===== verification/Sample_Format.thy ===== *)
theory Sample_Format
  imports Main "HOL-Library.Word"
begin

text \<open>
  A plain byte format for the witnesses, which have to instantiate the JSON functions of the code
  with concrete ones: a value is a list of numbers, and a number is that many ones and a zero.
\<close>

definition numbers_bytes :: "nat list \<Rightarrow> 8 word list" where
  "numbers_bytes ns = concat (map (\<lambda>n. replicate n 1 @ [0]) ns)"

fun read_numbers :: "nat \<Rightarrow> 8 word list \<Rightarrow> nat list" where
  "read_numbers n [] = []"
| "read_numbers n (b # bs) = (if b = 0 then n # read_numbers 0 bs else read_numbers (Suc n) bs)"

definition bytes_numbers :: "8 word list \<Rightarrow> nat list" where
  "bytes_numbers = read_numbers 0"

lemma read_number: "read_numbers m (replicate n 1 @ 0 # bs) = (m + n) # read_numbers 0 bs"
  by (induction n arbitrary: m) simp_all

lemma bytes_numbers_round [simp]: "bytes_numbers (numbers_bytes ns) = ns"
  unfolding bytes_numbers_def numbers_bytes_def by (induction ns) (simp_all add: read_number)

subsection \<open>Values as numbers\<close>

definition put_list :: "nat list \<Rightarrow> nat list" where
  "put_list xs = length xs # xs"

fun get_list :: "nat list \<Rightarrow> nat list \<times> nat list" where
  "get_list [] = ([], [])"
| "get_list (n # ns) = (take n ns, drop n ns)"

lemma get_put_list [simp]: "get_list (put_list xs @ ns) = (xs, ns)"
  by (simp add: put_list_def)

definition put_string :: "string \<Rightarrow> nat list" where
  "put_string s = put_list (map of_char s)"

definition get_string :: "nat list \<Rightarrow> string \<times> nat list" where
  "get_string ns = (case get_list ns of (xs, r) \<Rightarrow> (map char_of xs, r))"

lemma get_put_string [simp]: "get_string (put_string s @ ns) = (s, ns)"
  by (simp add: get_string_def put_string_def comp_def)

definition put_bytes :: "8 word list \<Rightarrow> nat list" where
  "put_bytes bs = put_list (map unat bs)"

definition get_bytes :: "nat list \<Rightarrow> 8 word list \<times> nat list" where
  "get_bytes ns = (case get_list ns of (xs, r) \<Rightarrow> (map of_nat xs, r))"

lemma get_put_bytes [simp]: "get_bytes (put_bytes s @ ns) = (s, ns)"
  by (simp add: get_bytes_def put_bytes_def comp_def)

definition put_option :: "('a \<Rightarrow> nat list) \<Rightarrow> 'a option \<Rightarrow> nat list" where
  "put_option f x = (case x of None \<Rightarrow> [0] | Some y \<Rightarrow> 1 # f y)"

fun get_option :: "(nat list \<Rightarrow> 'a \<times> nat list) \<Rightarrow> nat list \<Rightarrow> 'a option \<times> nat list" where
  "get_option g [] = (None, [])"
| "get_option g (n # ns) = (if n = 0 then (None, ns) else map_prod Some id (g ns))"

lemma get_put_option [simp]:
  "(\<And>y. g (f y @ ns) = (y, ns)) \<Longrightarrow> get_option g (put_option f x @ ns) = (x, ns)"
  by (cases x) (simp_all add: put_option_def)

definition put_int :: "int \<Rightarrow> nat list" where
  "put_int i = [if i < 0 then 1 else 0, nat \<bar>i\<bar>]"

fun get_int :: "nat list \<Rightarrow> int \<times> nat list" where
  "get_int (s # n # ns) = ((if s = 0 then int n else - int n), ns)"
| "get_int ns = (0, ns)"

lemma get_put_int [simp]: "get_int (put_int i @ ns) = (i, ns)"
  by (simp add: put_int_def)

definition put_nat :: "nat \<Rightarrow> nat list" where
  "put_nat n = [n]"

fun get_nat :: "nat list \<Rightarrow> nat \<times> nat list" where
  "get_nat [] = (0, [])"
| "get_nat (n # ns) = (n, ns)"

lemma get_put_nat [simp]: "get_nat (put_nat n @ ns) = (n, ns)"
  by (simp add: put_nat_def)

definition put_strings :: "string list \<Rightarrow> nat list" where
  "put_strings ss = length ss # concat (map put_string ss)"

fun get_many :: "nat \<Rightarrow> nat list \<Rightarrow> string list \<times> nat list" where
  "get_many 0 ns = ([], ns)"
| "get_many (Suc k) ns = (case get_string ns of (s, r) \<Rightarrow> map_prod ((#) s) id (get_many k r))"

fun get_strings :: "nat list \<Rightarrow> string list \<times> nat list" where
  "get_strings [] = ([], [])"
| "get_strings (n # ns) = get_many n ns"

lemma get_put_strings [simp]: "get_strings (put_strings ss @ ns) = (ss, ns)"
  unfolding put_strings_def by (induction ss) simp_all

end
