(* ===== verification/Local_Cache.thy ===== *)
theory Local_Cache
  imports Cache_Keys Task_Model Sample_Format
begin

text \<open>
  The fingerprint cache on disk, \<open>LocalCache\<close> of \<open>fish-cache/src/lib.rs\<close>, and the executor that
  uses it. The two directories are maps from path names relative to the directory to files;
  the order of such a map is the order in which the operating system lists the directory. One
  process uses the cache at a time. Whether a system call succeeds is an argument. The JSON
  form of a record is the parameter pair \<open>ser\<close>, \<open>de\<close>, of which the proofs use only that \<open>de\<close>
  reads back what \<open>ser\<close> wrote. A temporary file is gone after a successful rename and is not
  modelled as a state of its own.
\<close>

subsection \<open>State\<close>

record fp_record =
  r_fingerprint :: string
  stored_at :: nat
  artifact_hash :: "byte list option"
  r_key :: "byte list option"

record disk_file =
  content :: "byte list"
  modified :: "int option"

type_synonym directory = "(byte list, disk_file) hash_map"

text \<open>Times are nanoseconds since the epoch, as \<open>SystemTime\<close> has them; \<open>as_secs\<close> drops the fraction.\<close>

definition secs :: "nat \<Rightarrow> nat" where
  "secs t = t div 1000000000"

record local_cache =
  fp_dir :: directory
  obj_dir :: directory
  memory_cache :: "(byte list, fp_record) hash_map"
  cache_hits :: nat
  cache_misses :: nat
  cache_errors :: nat
  cas_enabled :: bool

datatype cache_error = No_Home_Dir | Init_Failed | Read_Failed "byte list" | Write_Failed "byte list"
  | Invalid_Hash "byte list"

definition new_cache :: "directory \<Rightarrow> directory \<Rightarrow> local_cache" where
  "new_cache fps objs = \<lparr>fp_dir = fps, obj_dir = objs, memory_cache = [], cache_hits = 0,
     cache_misses = 0, cache_errors = 0, cas_enabled = False\<rparr>"

text \<open>\<open>created\<close>: the fingerprint directory could be created.\<close>

definition open_cache :: "bool \<Rightarrow> directory \<Rightarrow> directory \<Rightarrow> cache_error + local_cache" where
  "open_cache created fps objs = (if created then Inr (new_cache fps objs) else Inl Init_Failed)"

text \<open>\<open>PathBuf::join\<close> with a relative path.\<close>

definition path_join :: "string \<Rightarrow> string \<Rightarrow> string" where
  "path_join p q = (if p = [] \<or> last p = CHR ''/'' then p @ q else p @ ''/'' @ q)"

text \<open>The root that \<open>default_location\<close> opens, from the environment variables.\<close>

definition default_root :: "(string \<Rightarrow> string option) \<Rightarrow> cache_error + string" where
  "default_root var =
     (case var ''FISH_CACHE_DIR'' of
        Some dir \<Rightarrow> Inr dir
      | None \<Rightarrow>
          (case (case var ''HOME'' of Some h \<Rightarrow> Some h | None \<Rightarrow> var ''USERPROFILE'') of
             None \<Rightarrow> Inl No_Home_Dir
           | Some home \<Rightarrow> Inr (path_join (path_join home ''.fish'') ''cache'')))"

definition with_cas :: "bool \<Rightarrow> local_cache \<Rightarrow> local_cache" where
  "with_cas b c = c\<lparr>cas_enabled := b\<rparr>"

definition record_hit :: "local_cache \<Rightarrow> local_cache" where
  "record_hit c = c\<lparr>cache_hits := (cache_hits c + 1) mod 2 ^ 64\<rparr>"

definition record_miss :: "local_cache \<Rightarrow> local_cache" where
  "record_miss c = c\<lparr>cache_misses := (cache_misses c + 1) mod 2 ^ 64\<rparr>"

definition record_error :: "local_cache \<Rightarrow> local_cache" where
  "record_error c = c\<lparr>cache_errors := (cache_errors c + 1) mod 2 ^ 64\<rparr>"

text \<open>The suffix \<open>.json\<close>.\<close>

definition json_suffix :: "byte list" where
  "json_suffix = [46, 106, 115, 111, 110]"

definition fingerprint_path :: "byte list \<Rightarrow> byte list" where
  "fingerprint_path k = encode_key k @ json_suffix"

subsection \<open>Records\<close>

text \<open>\<open>readable\<close>: \<open>fs::read\<close> of a file that exists succeeds.\<close>

definition read_record ::
  "(byte list \<Rightarrow> fp_record option) \<Rightarrow> bool \<Rightarrow> byte list \<Rightarrow> local_cache \<Rightarrow>
     (cache_error + fp_record option) \<times> local_cache"
where
  "read_record de readable k c =
     (case hm_get (fp_dir c) (fingerprint_path k) of
        None \<Rightarrow> (Inr None, c\<lparr>memory_cache := hm_remove k (memory_cache c)\<rparr>)
      | Some f \<Rightarrow>
          (case hm_get (memory_cache c) k of
             Some r \<Rightarrow> (Inr (Some r), c)
           | None \<Rightarrow>
               if \<not> readable then (Inl (Read_Failed k), c)
               else (case de (content f) of
                  None \<Rightarrow> (Inr None, c)
                | Some r \<Rightarrow> (Inr (Some r), c\<lparr>memory_cache := hm_insert k r (memory_cache c)\<rparr>))))"

definition cache_matches ::
  "(byte list \<Rightarrow> fp_record option) \<Rightarrow> bool \<Rightarrow> byte list \<Rightarrow> string \<Rightarrow> local_cache \<Rightarrow> bool \<times> local_cache"
where
  "cache_matches de readable k fp c =
     (case read_record de readable k c of
        (Inr (Some r), c') \<Rightarrow> if r_fingerprint r = fp then (True, record_hit c') else (False, record_miss c')
      | (_, c') \<Rightarrow> (False, record_miss c'))"

definition cache_get ::
  "(byte list \<Rightarrow> fp_record option) \<Rightarrow> bool \<Rightarrow> byte list \<Rightarrow> local_cache \<Rightarrow> string option \<times> local_cache"
where
  "cache_get de readable k c =
     (case read_record de readable k c of
        (Inr (Some r), c') \<Rightarrow> (Some (r_fingerprint r), c')
      | (_, c') \<Rightarrow> (None, c'))"

definition cache_artifact_hash ::
  "(byte list \<Rightarrow> fp_record option) \<Rightarrow> bool \<Rightarrow> byte list \<Rightarrow> local_cache \<Rightarrow> byte list option \<times> local_cache"
where
  "cache_artifact_hash de readable k c =
     (case read_record de readable k c of
        (Inr (Some r), c') \<Rightarrow> (artifact_hash r, c')
      | (_, c') \<Rightarrow> (None, c'))"

datatype write_result = Written | Mkdir_Fails | Write_Fails | Rename_Fails

definition put_with_artifact ::
  "(fp_record \<Rightarrow> byte list) \<Rightarrow> write_result \<Rightarrow> nat \<Rightarrow> byte list \<Rightarrow> string \<Rightarrow> byte list option \<Rightarrow>
     local_cache \<Rightarrow> (cache_error + unit) \<times> local_cache"
where
  "put_with_artifact ser io now k fp art c =
     (if io = Mkdir_Fails then (Inl (Write_Failed k), c)
      else
        let r = \<lparr>r_fingerprint = fp, stored_at = secs now, artifact_hash = art, r_key = Some k\<rparr>;
            c1 = c\<lparr>memory_cache := hm_insert k r (memory_cache c)\<rparr>
        in if io = Written then
             (Inr (), c1\<lparr>fp_dir := hm_insert (fingerprint_path k) \<lparr>content = ser r, modified = Some (int now)\<rparr> (fp_dir c1)\<rparr>)
           else (Inl (Write_Failed k), c1))"

definition cache_put ::
  "(fp_record \<Rightarrow> byte list) \<Rightarrow> write_result \<Rightarrow> nat \<Rightarrow> byte list \<Rightarrow> string \<Rightarrow> local_cache \<Rightarrow>
     (cache_error + unit) \<times> local_cache"
where
  "cache_put ser io now k fp c = put_with_artifact ser io now k fp None c"

subsection \<open>Objects\<close>

definition put_object ::
  "write_result \<Rightarrow> nat \<Rightarrow> byte list \<Rightarrow> byte list \<Rightarrow> local_cache \<Rightarrow> (cache_error + unit) \<times> local_cache"
where
  "put_object io now h bs c =
     (if \<not> valid_object_hash h then (Inl (Invalid_Hash h), c)
      else if io = Written then (Inr (), c\<lparr>obj_dir := hm_insert h \<lparr>content = bs, modified = Some (int now)\<rparr> (obj_dir c)\<rparr>)
      else (Inl (Write_Failed h), c))"

definition get_object :: "bool \<Rightarrow> byte list \<Rightarrow> local_cache \<Rightarrow> byte list option" where
  "get_object readable h c =
     (if \<not> valid_object_hash h then None
      else case hm_get (obj_dir c) h of
        None \<Rightarrow> None
      | Some f \<Rightarrow> if readable then Some (content f) else None)"

subsection \<open>The caching executor\<close>

text \<open>A \<open>str\<close> of the task model is its UTF-8 bytes.\<close>

definition str_bytes :: "string \<Rightarrow> byte list" where
  "str_bytes s = map of_char s"

record exec_io =
  read_ok :: bool
  write_io :: write_result
  exec_now :: nat

definition caching_execute ::
  "(fp_record \<Rightarrow> byte list) \<Rightarrow> (byte list \<Rightarrow> fp_record option) \<Rightarrow> (task \<Rightarrow> 'e + task_outcome) \<Rightarrow> exec_io \<Rightarrow>
     task \<Rightarrow> local_cache \<Rightarrow> ('e + task_outcome) \<times> local_cache"
where
  "caching_execute ser de inner io t c =
     (let run = (\<lambda>c1. case inner t of
            Inl e \<Rightarrow> (Inl e, c1)
          | Inr r \<Rightarrow>
              (Inr r,
               if status r = Run_Executed then
                 (case cache t of
                    None \<Rightarrow> c1
                  | Some e \<Rightarrow>
                      (case cache_put ser (write_io io) (exec_now io) (str_bytes (key e)) (fingerprint e) c1 of
                         (Inl _, c2) \<Rightarrow> record_error c2
                       | (Inr _, c2) \<Rightarrow> c2))
               else c1))
      in case cache t of
           None \<Rightarrow> run c
         | Some e \<Rightarrow>
             (case cache_matches de (read_ok io) (str_bytes (key e)) (fingerprint e) c of
                (True, c1) \<Rightarrow> (Inr outcome_cached, c1)
              | (False, c1) \<Rightarrow> run c1))"

subsection \<open>The abstract cache\<close>

text \<open>What a key maps to on disk, and the memory cache in step with it.\<close>

definition stored :: "(byte list \<Rightarrow> fp_record option) \<Rightarrow> local_cache \<Rightarrow> byte list \<Rightarrow> fp_record option" where
  "stored de c k = Option.bind (fish_keys.by_key (\<lambda>e. hm_get (fp_dir c) (e @ json_suffix)) k) (\<lambda>f. de (content f))"

definition coherent :: "(byte list \<Rightarrow> fp_record option) \<Rightarrow> local_cache \<Rightarrow> bool" where
  "coherent de c \<longleftrightarrow>
     (\<forall>k r f. hm_get (memory_cache c) k = Some r \<longrightarrow> hm_get (fp_dir c) (fingerprint_path k) = Some f \<longrightarrow>
        de (content f) = Some r)"

lemma fingerprint_path_inj [simp]: "fingerprint_path k = fingerprint_path k' \<longleftrightarrow> k = k'"
  by (simp add: fingerprint_path_def)

lemma stored_eq: "valid_utf8 k \<Longrightarrow> stored de c k = Option.bind (hm_get (fp_dir c) (fingerprint_path k)) (\<lambda>f. de (content f))"
  by (simp add: stored_def fish_keys.by_key_def fingerprint_path_def)

lemma coherent_new: "coherent de (new_cache fps objs)"
  by (simp add: coherent_def new_cache_def)

lemma stored_cong: "fp_dir c' = fp_dir c \<Longrightarrow> stored de c' = stored de c"
  by (simp add: stored_def fun_eq_iff)

lemma coherent_cong: "fp_dir c' = fp_dir c \<Longrightarrow> memory_cache c' = memory_cache c \<Longrightarrow> coherent de c' \<longleftrightarrow> coherent de c"
  by (simp add: coherent_def)

lemma stats_frame [simp]:
  "fp_dir (record_hit c) = fp_dir c" "memory_cache (record_hit c) = memory_cache c" "obj_dir (record_hit c) = obj_dir c"
  "fp_dir (record_miss c) = fp_dir c" "memory_cache (record_miss c) = memory_cache c" "obj_dir (record_miss c) = obj_dir c"
  "fp_dir (record_error c) = fp_dir c" "memory_cache (record_error c) = memory_cache c" "obj_dir (record_error c) = obj_dir c"
  by (simp_all add: record_hit_def record_miss_def record_error_def)

lemma read_record_frame:
  assumes "coherent de c" "read_record de readable k c = (r, c')"
  shows "coherent de c'" "fp_dir c' = fp_dir c" "obj_dir c' = obj_dir c"
  using assms by (auto simp: read_record_def coherent_def split: option.splits if_splits)

lemma read_record_stored:
  assumes "coherent de c" "valid_utf8 k" "read_record de True k c = (r, c')"
  shows "r = Inr (stored de c k)"
proof (cases "hm_get (fp_dir c) (fingerprint_path k)")
  case (Some f)
  then have "hm_get (memory_cache c) k = Some x \<Longrightarrow> de (content f) = Some x" for x
    using assms(1) unfolding coherent_def by blast
  then show ?thesis
    using assms(2,3) Some by (auto simp: read_record_def stored_eq split: option.splits)
qed (use assms(2,3) in \<open>auto simp: read_record_def stored_eq\<close>)

lemma cache_get_ok:
  assumes "coherent de c" "valid_utf8 k" "cache_get de True k c = (r, c')"
  shows "r = map_option r_fingerprint (stored de c k)" "coherent de c'" "fp_dir c' = fp_dir c"
proof -
  obtain x c1 where x: "read_record de True k c = (x, c1)" by fastforce
  show "r = map_option r_fingerprint (stored de c k)" "coherent de c'" "fp_dir c' = fp_dir c"
    using assms(3) read_record_frame[OF assms(1) x] read_record_stored[OF assms(1,2) x]
    by (auto simp: cache_get_def x split: option.splits)
qed

lemma cache_matches_frame:
  assumes "coherent de c" "cache_matches de readable k fp c = (b, c')"
  shows "coherent de c'" "fp_dir c' = fp_dir c" "obj_dir c' = obj_dir c"
proof -
  obtain x c1 where x: "read_record de readable k c = (x, c1)" by fastforce
  note F = read_record_frame[OF assms(1) x]
  have c': "c' = record_hit c1 \<or> c' = record_miss c1"
    using assms(2) by (auto simp: cache_matches_def x split: sum.splits option.splits if_splits)
  then show "fp_dir c' = fp_dir c" "obj_dir c' = obj_dir c" using F by auto
  from c' show "coherent de c'" using F(1) by (auto simp: coherent_def)
qed

lemma cache_matches_ok:
  assumes "coherent de c" "valid_utf8 k" "cache_matches de True k fp c = (b, c')"
  shows "b \<longleftrightarrow> (\<exists>r. stored de c k = Some r \<and> r_fingerprint r = fp)"
proof -
  obtain x c1 where x: "read_record de True k c = (x, c1)" by fastforce
  show ?thesis
    using assms(3) unfolding cache_matches_def x read_record_stored[OF assms(1,2) x]
    by (cases "stored de c k") (auto split: if_splits)
qed

lemma put_written_ok:
  assumes "coherent de c" "valid_utf8 k" and ser: "\<And>r. de (ser r) = Some r"
    and "put_with_artifact ser Written now k fp art c = (res, c')"
  shows "res = Inr ()" "coherent de c'" "obj_dir c' = obj_dir c"
    "stored de c' = (stored de c)(k \<mapsto> \<lparr>r_fingerprint = fp, stored_at = secs now, artifact_hash = art, r_key = Some k\<rparr>)"
proof -
  let ?r = "\<lparr>r_fingerprint = fp, stored_at = secs now, artifact_hash = art, r_key = Some k\<rparr>"
  let ?f = "\<lparr>content = ser ?r, modified = Some (int now)\<rparr>"
  have c': "res = Inr ()" "memory_cache c' = hm_insert k ?r (memory_cache c)"
    "fp_dir c' = hm_insert (fingerprint_path k) ?f (fp_dir c)" "obj_dir c' = obj_dir c"
    using assms(4) by (auto simp: put_with_artifact_def Let_def)
  show "res = Inr ()" "obj_dir c' = obj_dir c" by (rule c')+
  show "coherent de c'" using assms(1) ser by (auto simp: coherent_def c')
  have upd: "(\<lambda>e. hm_get (fp_dir c') (e @ json_suffix)) = (\<lambda>e. hm_get (fp_dir c) (e @ json_suffix))(encode_key k := Some ?f)"
    by (auto simp: c' fingerprint_path_def fun_eq_iff)
  show "stored de c' = (stored de c)(k \<mapsto> ?r)"
    unfolding stored_def upd fish_keys.by_key_upd[OF assms(2)] using ser by (simp add: fun_eq_iff)
qed

lemma put_failed:
  assumes "io \<noteq> Written" "put_with_artifact ser io now k fp art c = (res, c')"
  shows "res = Inl (Write_Failed k)" "fp_dir c' = fp_dir c" "obj_dir c' = obj_dir c"
  using assms by (auto simp: put_with_artifact_def Let_def split: if_splits)

text \<open>
  A \<open>put\<close> whose write fails reports the error but leaves its record in the memory cache: when an
  older file for the key exists, later reads of this process see the record that is not on disk.
\<close>

lemma failed_put_is_visible:
  assumes "hm_get (fp_dir c) (fingerprint_path k) = Some f"
    and "put_with_artifact ser Write_Fails now k fp art c = (res, c')"
  shows "res = Inl (Write_Failed k)" "fst (cache_get de readable k c') = Some fp"
    "fst (cache_matches de readable k fp c')"
  using assms by (auto simp: put_with_artifact_def Let_def cache_get_def cache_matches_def read_record_def)

subsection \<open>JSON for the witnesses\<close>

definition sample_ser :: "fp_record \<Rightarrow> byte list" where
  "sample_ser r = numbers_bytes (put_option put_bytes (artifact_hash r) @ put_option put_bytes (r_key r) @
     put_nat (stored_at r) @ put_string (r_fingerprint r) @ [])"

definition sample_de :: "byte list \<Rightarrow> fp_record option" where
  "sample_de bs =
     (let (art, ns) = get_option get_bytes (bytes_numbers bs); (k, ns) = get_option get_bytes ns;
          (t, ns) = get_nat ns; (fp, _) = get_string ns
      in Some \<lparr>r_fingerprint = fp, stored_at = t, artifact_hash = art, r_key = k\<rparr>)"

lemma sample_de_ser: "sample_de (sample_ser r) = Some r"
  by (simp add: sample_de_def sample_ser_def del: append_Nil2)

subsection \<open>Properties\<close>

text \<open>
  C19. The cache on disk is a map from keys to records, although every key is a file name and
  some records are also kept in memory: reading gives the record last put for exactly that key,
  with fingerprint and artifact hash, \<open>matches\<close> compares with it, and a put changes no other key.
  A put that fails leaves the directory as it was.
\<close>

theorem local_cache_refines:
  assumes "coherent de c" "valid_utf8 k" "\<And>r. de (ser r) = Some r"
  shows "(\<exists>c'. cache_get de True k c = (map_option r_fingerprint (stored de c k), c') \<and>
           coherent de c' \<and> stored de c' = stored de c) \<and>
    (\<exists>b c'. cache_matches de True k fp c = (b, c') \<and>
       (b \<longleftrightarrow> (\<exists>r. stored de c k = Some r \<and> r_fingerprint r = fp)) \<and>
       coherent de c' \<and> stored de c' = stored de c) \<and>
    (\<exists>c'. put_with_artifact ser Written now k fp art c = (Inr (), c') \<and> coherent de c' \<and>
       stored de c' = (stored de c)(k \<mapsto> \<lparr>r_fingerprint = fp, stored_at = secs now, artifact_hash = art, r_key = Some k\<rparr>)) \<and>
    (\<forall>io. io \<noteq> Written \<longrightarrow>
       (\<exists>c'. put_with_artifact ser io now k fp art c = (Inl (Write_Failed k), c') \<and> stored de c' = stored de c))"
proof (intro conjI allI impI)
  obtain r d where g: "cache_get de True k c = (r, d)" by fastforce
  note G = cache_get_ok[OF assms(1,2) g]
  show "\<exists>c'. cache_get de True k c = (map_option r_fingerprint (stored de c k), c') \<and>
           coherent de c' \<and> stored de c' = stored de c"
    using g G stored_cong[OF G(3)] by blast
  obtain b d' where m: "cache_matches de True k fp c = (b, d')" by fastforce
  note M = cache_matches_frame[OF assms(1) m] cache_matches_ok[OF assms(1,2) m]
  show "\<exists>b c'. cache_matches de True k fp c = (b, c') \<and>
       (b \<longleftrightarrow> (\<exists>r. stored de c k = Some r \<and> r_fingerprint r = fp)) \<and>
       coherent de c' \<and> stored de c' = stored de c"
    using m M(1,4) stored_cong[OF M(2)] by blast
  obtain res p where p: "put_with_artifact ser Written now k fp art c = (res, p)" by fastforce
  show "\<exists>c'. put_with_artifact ser Written now k fp art c = (Inr (), c') \<and> coherent de c' \<and>
       stored de c' = (stored de c)(k \<mapsto> \<lparr>r_fingerprint = fp, stored_at = secs now, artifact_hash = art, r_key = Some k\<rparr>)"
    using put_written_ok[OF assms p] p by blast
next
  fix io :: write_result
  assume io: "io \<noteq> Written"
  obtain res p where p: "put_with_artifact ser io now k fp art c = (res, p)" by fastforce
  show "\<exists>c'. put_with_artifact ser io now k fp art c = (Inl (Write_Failed k), c') \<and> stored de c' = stored de c"
    using put_failed[OF io p] p stored_cong by blast
qed

text \<open>A key put into an empty cache, with the byte format of the witnesses.\<close>

theorem local_cache_refines_witness:
  "\<exists>c'. put_with_artifact sample_ser Written 5000000000 [97] ''f'' None (new_cache [] []) = (Inr (), c') \<and>
     stored sample_de c' [97] = Some \<lparr>r_fingerprint = ''f'', stored_at = 5, artifact_hash = None, r_key = Some [97]\<rparr>"
proof -
  have v: "valid_utf8 [97]" by code_simp
  obtain c' where "put_with_artifact sample_ser Written 5000000000 [97] ''f'' None (new_cache [] []) = (Inr (), c')"
    and "stored sample_de c' = (stored sample_de (new_cache [] []))
       ([97] \<mapsto> \<lparr>r_fingerprint = ''f'', stored_at = secs 5000000000, artifact_hash = None, r_key = Some [97]\<rparr>)"
    using local_cache_refines[where fp = "''f''" and now = 5000000000 and art = None, OF coherent_new[of sample_de "[]" "[]"] v sample_de_ser]
    by (elim conjE exE) (rule that)
  then show ?thesis by (simp add: secs_def)
qed

subsection \<open>The caching executor\<close>

lemma put_ok:
  assumes "coherent de c" "valid_utf8 k" and ser: "\<And>r. de (ser r) = Some r"
  obtains c' where "cache_put ser Written now k fp c = (Inr (), c')" "coherent de c'"
    "stored de c' = (stored de c)(k \<mapsto> \<lparr>r_fingerprint = fp, stored_at = secs now, artifact_hash = None, r_key = Some k\<rparr>)"
proof -
  obtain res c' where p: "put_with_artifact ser Written now k fp None c = (res, c')" by fastforce
  show thesis
    using that[of c'] put_written_ok[OF assms p] p by (simp add: cache_put_def)
qed

text \<open>The task is in the cache: it has an entry whose fingerprint is the stored one.\<close>

definition is_cached :: "(byte list \<Rightarrow> fp_record option) \<Rightarrow> task \<Rightarrow> local_cache \<Rightarrow> bool" where
  "is_cached de t c \<longleftrightarrow>
     (\<exists>e r. cache t = Some e \<and> stored de c (str_bytes (key e)) = Some r \<and> r_fingerprint r = fingerprint e)"

lemma execute_hit:
  assumes "coherent de c" "\<And>e. cache t = Some e \<Longrightarrow> valid_utf8 (str_bytes (key e))"
    "read_ok io" "is_cached de t c"
  obtains c' where "caching_execute ser de inner io t c = (Inr outcome_cached, c')" "coherent de c'"
    "stored de c' = stored de c"
proof -
  obtain e where e: "cache t = Some e" using assms(4) by (auto simp: is_cached_def)
  obtain b c' where m: "cache_matches de True (str_bytes (key e)) (fingerprint e) c = (b, c')" by fastforce
  note M = cache_matches_frame[OF assms(1) m] cache_matches_ok[OF assms(1) assms(2)[OF e] m]
  have b unfolding M(4) using assms(4) e by (auto simp: is_cached_def)
  then show thesis
    using that[of c'] M(1) stored_cong[OF M(2)] m e assms(3) by (simp add: caching_execute_def)
qed

lemma execute_miss:
  assumes "coherent de c" "\<And>e. cache t = Some e \<Longrightarrow> valid_utf8 (str_bytes (key e))"
    "\<And>r. de (ser r) = Some r" "read_ok io" "write_io io = Written" "\<not> is_cached de t c"
  obtains c' where "caching_execute ser de inner io t c = (inner t, c')" "coherent de c'"
    "stored de c' =
       (case (inner t, cache t) of
          (Inr r, Some e) \<Rightarrow>
            if status r = Run_Executed then
              (stored de c)(str_bytes (key e) \<mapsto> \<lparr>r_fingerprint = fingerprint e, stored_at = secs (exec_now io),
                 artifact_hash = None, r_key = Some (str_bytes (key e))\<rparr>)
            else stored de c
        | _ \<Rightarrow> stored de c)"
proof (cases "cache t")
  case None
  then show thesis
    using that[of c] assms(1) by (auto simp: caching_execute_def split: sum.splits)
next
  case (Some e)
  note v = assms(2)[OF Some]
  obtain b c1 where m: "cache_matches de True (str_bytes (key e)) (fingerprint e) c = (b, c1)" by fastforce
  note M = cache_matches_frame[OF assms(1) m] cache_matches_ok[OF assms(1) v m]
  have b: "\<not> b" unfolding M(4) using assms(6) Some by (auto simp: is_cached_def)
  note S = stored_cong[OF M(2), of de]
  obtain c2 where p: "cache_put ser Written (exec_now io) (str_bytes (key e)) (fingerprint e) c1 = (Inr (), c2)"
    "coherent de c2"
    "stored de c2 = (stored de c1)(str_bytes (key e) \<mapsto> \<lparr>r_fingerprint = fingerprint e, stored_at = secs (exec_now io),
       artifact_hash = None, r_key = Some (str_bytes (key e))\<rparr>)"
    by (rule put_ok[OF M(1) v assms(3)])
  show thesis
  proof (cases "\<exists>r. inner t = Inr r \<and> status r = Run_Executed")
    case True
    then show thesis
      using that[of c2] p m b Some assms(4,5) by (auto simp: caching_execute_def S)
  next
    case False
    then show thesis
      using that[of c1] M(1) m b Some assms(4) by (auto simp: caching_execute_def S split: sum.splits)
  qed
qed

text \<open>
  C20. The caching executor runs the task exactly when the fingerprint stored for its key is not
  the task's. A hit answers "cached" and leaves the cache alone; otherwise the answer is the
  executor's, and the fingerprint is stored only if the task was executed, so a failed or
  skipped task never becomes a hit. After an execution the same task is a hit.
\<close>

theorem caching_executor_correct:
  assumes "coherent de c" "\<And>e. cache t = Some e \<Longrightarrow> valid_utf8 (str_bytes (key e))"
    "\<And>r. de (ser r) = Some r" "read_ok io" "write_io io = Written"
    and run: "caching_execute ser de inner io t c = (res, c')"
  shows "coherent de c' \<and> res = (if is_cached de t c then Inr outcome_cached else inner t) \<and>
    (stored de c' \<noteq> stored de c \<longrightarrow> (\<exists>r. \<not> is_cached de t c \<and> inner t = Inr r \<and> status r = Run_Executed)) \<and>
    (is_cached de t c' \<longleftrightarrow> is_cached de t c \<or> (\<exists>r. inner t = Inr r \<and> status r = Run_Executed \<and> cache t \<noteq> None))"
proof (cases "is_cached de t c")
    case True
    obtain d where d: "caching_execute ser de inner io t c = (Inr outcome_cached, d)" "coherent de d"
      "stored de d = stored de c"
      by (rule execute_hit[OF assms(1,2) assms(4) True])
    then have "is_cached de t d" using True by (simp add: is_cached_def)
    then show ?thesis using run d True by auto
  next
    case False
    obtain d where d: "caching_execute ser de inner io t c = (inner t, d)" "coherent de d"
      and s: "stored de d = (case (inner t, cache t) of
          (Inr r, Some e) \<Rightarrow>
            if status r = Run_Executed then
              (stored de c)(str_bytes (key e) \<mapsto> \<lparr>r_fingerprint = fingerprint e, stored_at = secs (exec_now io),
                 artifact_hash = None, r_key = Some (str_bytes (key e))\<rparr>)
            else stored de c
        | _ \<Rightarrow> stored de c)"
      by (rule execute_miss[OF assms(1-5) False])
    have "is_cached de t d \<longleftrightarrow> (\<exists>r. inner t = Inr r \<and> status r = Run_Executed \<and> cache t \<noteq> None)"
      using False s by (auto simp: is_cached_def split: sum.splits option.splits if_splits)
    moreover have "stored de d \<noteq> stored de c \<longrightarrow> (\<exists>r. inner t = Inr r \<and> status r = Run_Executed)"
      using s by (auto split: sum.splits option.splits if_splits)
    ultimately show ?thesis using run d False by auto
qed

text \<open>A task with key \<open>k\<close> on an empty cache: executed, stored, and a hit the second time.\<close>

definition sample_cached_task :: task where
  "sample_cached_task = with_cache \<lparr>key = ''k'', fingerprint = ''fp''\<rparr> (new_task ''t'' [] (new_command ''cc''))"

theorem caching_executor_correct_witness:
  "\<exists>c'. caching_execute sample_ser sample_de (\<lambda>_. Inr outcome_executed :: unit + task_outcome)
       \<lparr>read_ok = True, write_io = Written, exec_now = 7\<rparr> sample_cached_task (new_cache [] []) = (Inr outcome_executed, c') \<and>
     is_cached sample_de sample_cached_task c'"
proof -
  let ?i = "\<lambda>_. Inr outcome_executed :: unit + task_outcome"
  let ?io = "\<lparr>read_ok = True, write_io = Written, exec_now = 7\<rparr>"
  obtain res c' where r: "caching_execute sample_ser sample_de ?i ?io sample_cached_task (new_cache [] []) = (res, c')"
    by fastforce
  have t: "cache sample_cached_task = Some \<lparr>key = ''k'', fingerprint = ''fp''\<rparr>"
    by (simp add: sample_cached_task_def with_cache_def)
  have v: "valid_utf8 (str_bytes ''k'')" by code_simp
  have n: "\<not> is_cached sample_de sample_cached_task (new_cache [] [])"
    by (simp add: is_cached_def stored_def new_cache_def fish_keys.by_key_def)
  show ?thesis
    using caching_executor_correct[OF coherent_new _ sample_de_ser _ _ r] n r v t
    by (auto simp: outcome_executed_def)
qed

end
