(* ===== verification/Cache_Prune.thy ===== *)
theory Cache_Prune
  imports Local_Cache "HOL-Library.Multiset"
begin

text \<open>
  Listing, measuring and pruning the disk cache: \<open>LocalCache::records\<close>, \<open>disk_stats\<close>, \<open>prune\<close>
  and their helpers in \<open>fish-cache/src/lib.rs\<close>. File names are UTF-8 and relative to the
  directory, with \<open>/\<close> (47) between components; the artifact hash of a record names a file of the
  object directory. Which files can be read, and which removed, are arguments; the sums of
  file sizes are assumed to fit in a \<open>u64\<close>. \<open>sort_unstable_by_key\<close> keeps the listing order
  among equal keys here.
\<close>

subsection \<open>File names\<close>

definition file_name_of :: "byte list \<Rightarrow> byte list" where
  "file_name_of p = rev (takeWhile (\<lambda>b. b \<noteq> 47) (rev p))"

definition extension :: "byte list \<Rightarrow> byte list option" where
  "extension p = snd (split_ext 46 (file_name_of p))"

definition json_ext :: "byte list" where
  "json_ext = [106, 115, 111, 110]"

definition tmp_ext :: "byte list" where
  "tmp_ext = [116, 109, 112]"

definition is_tmp :: "byte list \<Rightarrow> bool" where
  "is_tmp p \<longleftrightarrow> extension p = Some tmp_ext"

definition strip_json :: "byte list \<Rightarrow> byte list" where
  "strip_json p =
     (if length json_suffix \<le> length p \<and> drop (length p - length json_suffix) p = json_suffix
      then take (length p - length json_suffix) p else p)"

subsection \<open>Records and sizes\<close>

record cache_record =
  rec_key :: "byte list"
  rec_fingerprint :: string
  rec_stored_at :: nat
  rec_path :: "byte list"
  rec_size :: nat
  rec_artifact :: "byte list option"

text \<open>The key of a record, or for one written before keys were stored the name of its file.\<close>

definition record_key :: "byte list \<Rightarrow> fp_record \<Rightarrow> byte list" where
  "record_key p r =
     (case r_key r of
        Some k \<Rightarrow> k
      | None \<Rightarrow>
          let raw = map (\<lambda>b. if b = 92 then 47 else b) (strip_json p)
          in if 47 \<in> set raw then raw
             else (case decode_key raw of Some k \<Rightarrow> k | None \<Rightarrow> raw))"

definition record_of ::
  "(byte list \<Rightarrow> fp_record option) \<Rightarrow> (byte list \<Rightarrow> bool) \<Rightarrow> byte list \<times> disk_file \<Rightarrow> cache_record option"
where
  "record_of de readable = (\<lambda>(p, f).
     if extension p \<noteq> Some json_ext \<or> \<not> readable p then None
     else map_option (\<lambda>r. \<lparr>rec_key = record_key p r, rec_fingerprint = r_fingerprint r,
            rec_stored_at = stored_at r, rec_path = p, rec_size = length (content f),
            rec_artifact = artifact_hash r\<rparr>) (de (content f)))"

definition records ::
  "(byte list \<Rightarrow> fp_record option) \<Rightarrow> (byte list \<Rightarrow> bool) \<Rightarrow> directory \<Rightarrow> cache_record list"
where
  "records de readable fps = List.map_filter (record_of de readable) fps"

record cache_disk_stats =
  record_count :: nat
  fingerprints_bytes :: nat
  object_count :: nat
  objects_bytes :: nat
  total_bytes :: nat

definition file_len :: "disk_file \<Rightarrow> nat" where
  "file_len f = length (content f)"

definition disk_stats ::
  "(byte list \<Rightarrow> fp_record option) \<Rightarrow> (byte list \<Rightarrow> bool) \<Rightarrow> local_cache \<Rightarrow> cache_disk_stats"
where
  "disk_stats de readable c =
     (let recs = records de readable (fp_dir c);
          objs = filter (\<lambda>(p, _). \<not> is_tmp p) (obj_dir c);
          fb = sum_list (map rec_size recs);
          ob = sum_list (map (file_len \<circ> snd) objs)
      in \<lparr>record_count = length recs, fingerprints_bytes = fb, object_count = length objs,
          objects_bytes = ob, total_bytes = fb + ob\<rparr>)"

definition ref_counts :: "cache_record list \<Rightarrow> (byte list, nat) hash_map" where
  "ref_counts recs =
     foldl (\<lambda>m r. case rec_artifact r of
        None \<Rightarrow> m
      | Some h \<Rightarrow> hm_insert h ((case hm_get m h of None \<Rightarrow> 0 | Some n \<Rightarrow> n) + 1) m) [] recs"

subsection \<open>Pruning\<close>

datatype location = Fp_File "byte list" | Obj_File "byte list"

record prune_state =
  p_fps :: directory
  p_objs :: directory
  p_removed :: "location list"
  p_refs :: "(byte list, nat) hash_map"
  p_records :: nat
  p_objects :: nat
  p_freed :: nat

definition ref_count :: "prune_state \<Rightarrow> byte list \<Rightarrow> nat" where
  "ref_count s h = (case hm_get (p_refs s) h of None \<Rightarrow> 0 | Some n \<Rightarrow> n)"

text \<open>\<open>fs::remove_file\<close> of an object: \<open>None\<close> when there is no such file or it cannot be removed.\<close>

definition removable_object :: "(location \<Rightarrow> bool) \<Rightarrow> prune_state \<Rightarrow> byte list \<Rightarrow> disk_file option" where
  "removable_object can s p = (if can (Obj_File p) then hm_get (p_objs s) p else None)"

definition drop_record_and_cascade ::
  "(location \<Rightarrow> bool) \<Rightarrow> cache_record \<Rightarrow> prune_state \<Rightarrow> nat \<times> prune_state"
where
  "drop_record_and_cascade can r s =
     (if hm_get (p_fps s) (rec_path r) = None \<or> \<not> can (Fp_File (rec_path r)) then (0, s)
      else
        let s1 = s\<lparr>p_fps := hm_remove (rec_path r) (p_fps s), p_records := p_records s + 1,
                   p_freed := p_freed s + rec_size r\<rparr>
        in case rec_artifact r of
             None \<Rightarrow> (rec_size r, s1)
           | Some h \<Rightarrow>
               let count = ref_count s h;
                   s2 = (if 0 < count then s1\<lparr>p_refs := hm_insert h (count - 1) (p_refs s1)\<rparr> else s1)
               in if count \<le> 1 \<and> Obj_File h \<notin> set (p_removed s) then
                    let s3 = s2\<lparr>p_removed := Obj_File h # p_removed s2\<rparr>
                    in case removable_object can s h of
                         None \<Rightarrow> (rec_size r, s3)
                       | Some f \<Rightarrow> (rec_size r + file_len f,
                           s3\<lparr>p_objs := hm_remove h (p_objs s3), p_objects := p_objects s3 + 1\<rparr>)
                  else (rec_size r, s2))"

definition file_age_secs :: "nat \<Rightarrow> disk_file \<Rightarrow> nat option" where
  "file_age_secs now f =
     (case modified f of
        None \<Rightarrow> None
      | Some t \<Rightarrow> if t < 0 then None else Some (now - secs (nat t)))"

definition mtime_key :: "byte list \<times> disk_file \<Rightarrow> int" where
  "mtime_key e = (case modified (snd e) of None \<Rightarrow> 0 | Some t \<Rightarrow> t)"

fun expire_records ::
  "(location \<Rightarrow> bool) \<Rightarrow> nat \<Rightarrow> nat \<Rightarrow> cache_record list \<Rightarrow> prune_state \<Rightarrow> prune_state"
where
  "expire_records can now age [] s = s"
| "expire_records can now age (r # rs) s =
     expire_records can now age rs
       (if age \<le> now - rec_stored_at r then snd (drop_record_and_cascade can r s) else s)"

definition old_enough :: "nat \<Rightarrow> nat \<Rightarrow> disk_file \<Rightarrow> bool" where
  "old_enough now age f \<longleftrightarrow> (case file_age_secs now f of None \<Rightarrow> False | Some a \<Rightarrow> age \<le> a)"

text \<open>The sweep of orphaned objects and stale temporary files.\<close>

fun sweep_objects ::
  "(location \<Rightarrow> bool) \<Rightarrow> nat \<Rightarrow> nat \<Rightarrow> directory \<Rightarrow> prune_state \<Rightarrow> prune_state"
where
  "sweep_objects can now age [] s = s"
| "sweep_objects can now age ((p, f) # fs) s =
     sweep_objects can now age fs
       (if Obj_File p \<in> set (p_removed s) \<or> \<not> old_enough now age f then s
        else if is_tmp p \<or> hm_get (p_refs s) (file_name_of p) = None then
          (case removable_object can s p of
             None \<Rightarrow> s
           | Some _ \<Rightarrow>
               s\<lparr>p_objs := hm_remove p (p_objs s), p_removed := Obj_File p # p_removed s,
                 p_objects := (if is_tmp p then p_objects s else p_objects s + 1),
                 p_freed := p_freed s + file_len f\<rparr>)
        else s)"

text \<open>Only the directory itself is listed here, not the ones below it.\<close>

fun cleanup_tmp_files ::
  "(location \<Rightarrow> bool) \<Rightarrow> nat \<Rightarrow> nat \<Rightarrow> directory \<Rightarrow> prune_state \<Rightarrow> prune_state"
where
  "cleanup_tmp_files can now age [] s = s"
| "cleanup_tmp_files can now age ((p, f) # fs) s =
     cleanup_tmp_files can now age fs
       (if 47 \<in> set p \<or> \<not> is_tmp p \<or> Fp_File p \<in> set (p_removed s) \<or> \<not> old_enough now age f \<or> \<not> can (Fp_File p)
        then s
        else s\<lparr>p_fps := hm_remove p (p_fps s), p_removed := Fp_File p # p_removed s,
               p_freed := p_freed s + file_len f\<rparr>)"

definition age_phase ::
  "(byte list \<Rightarrow> fp_record option) \<Rightarrow> (byte list \<Rightarrow> bool) \<Rightarrow> (location \<Rightarrow> bool) \<Rightarrow> nat \<Rightarrow> nat \<Rightarrow>
     prune_state \<Rightarrow> prune_state"
where
  "age_phase de readable can now age s =
     (let s1 = s\<lparr>p_refs := ref_counts (records de readable (p_fps s))\<rparr>;
          s2 = expire_records can now age (records de readable (p_fps s1)) s1;
          s3 = sweep_objects can now age (sort_key mtime_key (p_objs s2)) s2
      in cleanup_tmp_files can now age (p_fps s3) s3)"

fun evict_records ::
  "(location \<Rightarrow> bool) \<Rightarrow> nat \<Rightarrow> cache_record list \<Rightarrow> nat \<Rightarrow> prune_state \<Rightarrow> nat \<times> prune_state"
where
  "evict_records can mx [] tot s = (tot, s)"
| "evict_records can mx (r # rs) tot s =
     (if tot \<le> mx then (tot, s)
      else case drop_record_and_cascade can r s of
        (freed, s') \<Rightarrow> evict_records can mx rs (tot - freed) s')"

fun evict_objects ::
  "(location \<Rightarrow> bool) \<Rightarrow> nat \<Rightarrow> directory \<Rightarrow> nat \<Rightarrow> prune_state \<Rightarrow> nat \<times> prune_state"
where
  "evict_objects can mx [] tot s = (tot, s)"
| "evict_objects can mx ((p, f) # fs) tot s =
     (if tot \<le> mx then (tot, s)
      else if Obj_File p \<in> set (p_removed s) then evict_objects can mx fs tot s
      else case removable_object can s p of
        None \<Rightarrow> evict_objects can mx fs tot s
      | Some g \<Rightarrow>
          evict_objects can mx fs (tot - file_len g)
            (s\<lparr>p_objs := hm_remove p (p_objs s), p_removed := Obj_File p # p_removed s,
               p_objects := p_objects s + 1, p_freed := p_freed s + file_len g\<rparr>))"

definition size_phase ::
  "(byte list \<Rightarrow> fp_record option) \<Rightarrow> (byte list \<Rightarrow> bool) \<Rightarrow> (location \<Rightarrow> bool) \<Rightarrow> nat \<Rightarrow>
     prune_state \<Rightarrow> prune_state"
where
  "size_phase de readable can mx s =
     (let recs = sort_key rec_stored_at (records de readable (p_fps s));
          objs = sort_key mtime_key (p_objs s);
          tot = sum_list (map rec_size recs) +
            sum_list (map (file_len \<circ> snd) (filter (\<lambda>(p, _). Obj_File p \<notin> set (p_removed s)) objs))
      in case evict_records can mx recs tot (s\<lparr>p_refs := ref_counts recs\<rparr>) of
           (tot', s') \<Rightarrow> snd (evict_objects can mx objs tot' s'))"

record prune_report =
  removed_records :: nat
  removed_objects :: nat
  freed :: nat

definition prune ::
  "(byte list \<Rightarrow> fp_record option) \<Rightarrow> (byte list \<Rightarrow> bool) \<Rightarrow> (location \<Rightarrow> bool) \<Rightarrow> nat \<Rightarrow>
     nat option \<Rightarrow> nat option \<Rightarrow> local_cache \<Rightarrow> prune_report \<times> local_cache"
where
  "prune de readable can now older_than max_size c =
     (let s = \<lparr>p_fps = fp_dir c, p_objs = obj_dir c, p_removed = [], p_refs = [], p_records = 0,
               p_objects = 0, p_freed = 0\<rparr>;
          s1 = (case older_than of
                  None \<Rightarrow> s
                | Some age \<Rightarrow> age_phase de readable can (secs now) (secs age) s);
          s2 = size_phase de readable can (case max_size of None \<Rightarrow> u64_max | Some m \<Rightarrow> m) s1
      in (\<lparr>removed_records = p_records s2, removed_objects = p_objects s2, freed = p_freed s2\<rparr>,
          c\<lparr>fp_dir := p_fps s2, obj_dir := p_objs s2, memory_cache := []\<rparr>))"

subsection \<open>Records of a directory\<close>

lemma records_simps [simp]:
  "records de readable [] = []"
  "records de readable (e # fs) = (case record_of de readable e of None \<Rightarrow> records de readable fs
     | Some r \<Rightarrow> r # records de readable fs)"
  unfolding records_def by (simp_all add: map_filter_simps split: option.splits)

lemma record_of_path: "record_of de readable e = Some r \<Longrightarrow> rec_path r = fst e"
  by (cases e) (auto simp: record_of_def split: if_splits)

lemma records_paths: "r \<in> set (records de readable fps) \<Longrightarrow> rec_path r \<in> fst ` set fps"
  by (induction fps) (auto simp: record_of_path split: option.splits dest: record_of_path)

lemma records_filter:
  "records de readable (filter (\<lambda>(p, _). P p) fps) = filter (\<lambda>r. P (rec_path r)) (records de readable fps)"
  by (induction fps) (auto dest: record_of_path split: option.splits)

lemma hm_remove_filter: "hm_remove p fps = filter (\<lambda>(q, _). q \<noteq> p) fps"
  by (induction fps) (auto simp: delete_simps)

lemma records_remove:
  "records de readable (hm_remove p fps) = filter (\<lambda>r. rec_path r \<noteq> p) (records de readable fps)"
  unfolding hm_remove_filter by (rule records_filter)

lemma distinct_records:
  "distinct (hm_keys fps) \<Longrightarrow> distinct (map rec_path (records de readable fps))"
proof (induction fps)
  case (Cons e fps)
  then show ?case
    using records_paths[of _ de readable fps] record_of_path[of de readable e]
    by (auto split: option.splits)
qed simp

lemma record_file: "r \<in> set (records de readable fps) \<Longrightarrow> hm_get fps (rec_path r) \<noteq> None"
  using records_paths[of r] hm_key_get[of "rec_path r" fps] by auto

lemma filter_one_out:
  assumes "distinct (map f xs)" "x \<in> set xs"
  shows "length (filter P (filter (\<lambda>y. f y \<noteq> f x) xs)) + (if P x then 1 else 0) = length (filter P xs)"
    and "sum_list (map g (filter (\<lambda>y. f y \<noteq> f x) xs)) + g x = sum_list (map (g :: 'a \<Rightarrow> nat) xs)"
proof -
  obtain as bs where xs: "xs = as @ x # bs" using assms(2) by (meson split_list)
  then have "f x \<notin> f ` set as" "f x \<notin> f ` set bs" using assms(1) by auto
  then have "filter (\<lambda>y. f y \<noteq> f x) as = as" "filter (\<lambda>y. f y \<noteq> f x) bs = bs"
    by (auto simp: filter_id_conv rev_image_eqI)
  then have "filter (\<lambda>y. f y \<noteq> f x) xs = as @ bs" by (simp add: xs)
  then show "length (filter P (filter (\<lambda>y. f y \<noteq> f x) xs)) + (if P x then 1 else 0) = length (filter P xs)"
    "sum_list (map g (filter (\<lambda>y. f y \<noteq> f x) xs)) + g x = sum_list (map g xs)"
    by (simp_all add: xs)
qed

text \<open>How many records name an object.\<close>

definition n_refs ::
  "(byte list \<Rightarrow> fp_record option) \<Rightarrow> (byte list \<Rightarrow> bool) \<Rightarrow> directory \<Rightarrow> byte list \<Rightarrow> nat"
where
  "n_refs de readable fps h = length (filter (\<lambda>r. rec_artifact r = Some h) (records de readable fps))"

lemma n_refs_pos: "r \<in> set (records de readable fps) \<Longrightarrow> rec_artifact r = Some h \<Longrightarrow> 0 < n_refs de readable fps h"
  by (auto simp: n_refs_def length_greater_0_conv filter_empty_conv simp del: length_greater_0_conv)

lemma n_refs_remove:
  assumes "distinct (hm_keys fps)" "r \<in> set (records de readable fps)"
  shows "n_refs de readable (hm_remove (rec_path r) fps) h + (if rec_artifact r = Some h then 1 else 0) =
    n_refs de readable fps h"
  using filter_one_out(1)[OF distinct_records[OF assms(1)] assms(2), of "\<lambda>r. rec_artifact r = Some h"]
  by (simp add: n_refs_def records_remove)

definition or_zero :: "nat option \<Rightarrow> nat" where
  "or_zero x = (case x of None \<Rightarrow> 0 | Some n \<Rightarrow> n)"

lemma ref_counts_spec:
  "or_zero (hm_get (ref_counts recs) h) = length (filter (\<lambda>r. rec_artifact r = Some h) recs)"
proof -
  have "or_zero (hm_get (foldl (\<lambda>m r. case rec_artifact r of None \<Rightarrow> m
      | Some h \<Rightarrow> hm_insert h ((case hm_get m h of None \<Rightarrow> 0 | Some n \<Rightarrow> n) + 1) m) m recs) h) =
    or_zero (hm_get m h) + length (filter (\<lambda>r. rec_artifact r = Some h) recs)" for m
    by (induction recs arbitrary: m) (auto simp: or_zero_def split: option.splits)
  from this[of "[]"] show ?thesis by (simp add: ref_counts_def or_zero_def)
qed

subsection \<open>The invariant of the reference counts\<close>

definition refs_ok :: "(byte list \<Rightarrow> fp_record option) \<Rightarrow> (byte list \<Rightarrow> bool) \<Rightarrow> prune_state \<Rightarrow> bool" where
  "refs_ok de readable s \<longleftrightarrow> distinct (hm_keys (p_fps s)) \<and> (\<forall>h. ref_count s h = n_refs de readable (p_fps s) h)"

lemma refs_ok_start:
  "distinct (hm_keys (p_fps s)) \<Longrightarrow> mset recs = mset (records de readable (p_fps s)) \<Longrightarrow>
     refs_ok de readable (s\<lparr>p_refs := ref_counts recs\<rparr>)"
proof -
  assume a: "distinct (hm_keys (p_fps s))" "mset recs = mset (records de readable (p_fps s))"
  have "length (filter P recs) = length (filter P (records de readable (p_fps s)))" for P
    using a(2) by (metis mset_filter size_mset)
  then show ?thesis
    using a(1) ref_counts_spec[of recs] by (auto simp: refs_ok_def ref_count_def n_refs_def or_zero_def)
qed

text \<open>What one \<open>drop_record_and_cascade\<close> does.\<close>

lemma drop_cases:
  assumes "refs_ok de readable s" "r \<in> set (records de readable (p_fps s))" "can (Fp_File (rec_path r))"
  obtains (record_only) fr where "drop_record_and_cascade can r s = (rec_size r, fr)"
      "p_fps fr = hm_remove (rec_path r) (p_fps s)" "p_objs fr = p_objs s" "refs_ok de readable fr"
      "set (p_removed fr) \<subseteq> set (p_removed s) \<union> {x. \<exists>h. rec_artifact r = Some h \<and> x = Obj_File h \<and>
         removable_object can s h = None}"
  | (both) h f fr where "rec_artifact r = Some h" "n_refs de readable (hm_remove (rec_path r) (p_fps s)) h = 0"
      "drop_record_and_cascade can r s = (rec_size r + file_len f, fr)" "hm_get (p_objs s) h = Some f"
      "p_fps fr = hm_remove (rec_path r) (p_fps s)" "p_objs fr = hm_remove h (p_objs s)" "refs_ok de readable fr"
      "p_removed fr = Obj_File h # p_removed s"
proof (cases "rec_artifact r")
  case None
  then have "n_refs de readable (hm_remove (rec_path r) (p_fps s)) h = n_refs de readable (p_fps s) h" for h
    using n_refs_remove[of "p_fps s" r de readable h] assms(1,2) by (simp add: refs_ok_def)
  then show thesis
    using None assms record_file[OF assms(2)]
    by (intro record_only[of "snd (drop_record_and_cascade can r s)"])
      (auto simp: drop_record_and_cascade_def Let_def refs_ok_def ref_count_def distinct_removeAll)
next
  case (Some h)
  have d: "distinct (hm_keys (p_fps s))" and c: "ref_count s h = n_refs de readable (p_fps s) h"
    using assms(1) by (simp_all add: refs_ok_def)
  note n = n_refs_remove[OF d assms(2)]
  have pos: "0 < ref_count s h" using n[of h] Some c by simp
  define t where "t = s\<lparr>p_fps := hm_remove (rec_path r) (p_fps s), p_records := p_records s + 1,
      p_freed := p_freed s + rec_size r, p_refs := hm_insert h (ref_count s h - 1) (p_refs s)\<rparr>"
  have ok: "refs_ok de readable t'" if "p_fps t' = p_fps t" "p_refs t' = p_refs t" for t'
    unfolding refs_ok_def
  proof (intro conjI allI)
    fix g
    show "ref_count t' g = n_refs de readable (p_fps t') g"
      using n[of g] assms(1) Some that by (auto simp: refs_ok_def ref_count_def t_def)
  qed (use d in \<open>simp add: that t_def distinct_removeAll\<close>)
  show thesis
  proof (cases "ref_count s h \<le> 1 \<and> Obj_File h \<notin> set (p_removed s)")
    case False
    then show thesis
      using Some assms(3) record_file[OF assms(2)] pos
      by (intro record_only[of t]) (auto simp: drop_record_and_cascade_def Let_def ok, auto simp: t_def)
  next
    case True
    define u where "u = t\<lparr>p_removed := Obj_File h # p_removed s\<rparr>"
    show thesis
    proof (cases "removable_object can s h")
      case None
      then show thesis
        using True Some assms(3) record_file[OF assms(2)] pos
        by (intro record_only[of u]) (auto simp: drop_record_and_cascade_def Let_def ok u_def, auto simp: t_def)
    next
      case (Some f)
      have "n_refs de readable (hm_remove (rec_path r) (p_fps s)) h = 0"
        using n[of h] \<open>rec_artifact r = Some h\<close> True c by simp
      then show thesis
        using True Some \<open>rec_artifact r = Some h\<close> assms(3) record_file[OF assms(2)] pos
        by (intro both[of h f "u\<lparr>p_objs := hm_remove h (p_objs u), p_objects := p_objects u + 1\<rparr>"])
          (auto simp: drop_record_and_cascade_def Let_def ok u_def removable_object_def split: if_splits, auto simp: t_def)
    qed
  qed
qed

subsection \<open>The age-based phase\<close>

text \<open>The object file of every record is the one of the start.\<close>

definition keeps_objects ::
  "(byte list \<Rightarrow> fp_record option) \<Rightarrow> (byte list \<Rightarrow> bool) \<Rightarrow> directory \<Rightarrow> prune_state \<Rightarrow> bool"
where
  "keeps_objects de readable objs s \<longleftrightarrow>
     (\<forall>h. 0 < n_refs de readable (p_fps s) h \<longrightarrow> hm_get (p_objs s) h = hm_get objs h)"

lemma n_refs_remove_le: "n_refs de readable (hm_remove p fps) h \<le> n_refs de readable fps h"
proof -
  have "length (filter P (filter Q xs)) \<le> length (filter P xs)" for P Q and xs :: "cache_record list"
    by (induction xs) auto
  then show ?thesis by (simp add: n_refs_def records_remove del: filter_filter)
qed

lemma drop_keeps:
  assumes "refs_ok de readable s" "keeps_objects de readable objs s" "r \<in> set (records de readable (p_fps s))"
    "drop_record_and_cascade can r s = (fr, s')"
  shows "refs_ok de readable s'" "keeps_objects de readable objs s'"
    "p_fps s' = (if can (Fp_File (rec_path r)) then hm_remove (rec_path r) (p_fps s) else p_fps s)"
proof -
  have *: "0 < n_refs de readable (hm_remove p (p_fps s)) h \<Longrightarrow> 0 < n_refs de readable (p_fps s) h" for p h
    using n_refs_remove_le[of de readable p "p_fps s" h] by linarith
  have "refs_ok de readable s' \<and> keeps_objects de readable objs s' \<and>
    p_fps s' = (if can (Fp_File (rec_path r)) then hm_remove (rec_path r) (p_fps s) else p_fps s)"
  proof (cases "can (Fp_File (rec_path r))")
    case False
    then show ?thesis using assms(1,2,4) by (simp add: drop_record_and_cascade_def)
  next
    case True
    from assms(1,3) True show ?thesis
    proof (cases rule: drop_cases)
      case record_only
      then show ?thesis using True assms(2,4) by (auto simp: keeps_objects_def dest: *)
    next
      case both
      then show ?thesis using True assms(2,4) by (auto simp: keeps_objects_def dest: *)
    qed
  qed
  then show "refs_ok de readable s'" "keeps_objects de readable objs s'"
    "p_fps s' = (if can (Fp_File (rec_path r)) then hm_remove (rec_path r) (p_fps s) else p_fps s)"
    by blast+
qed

text \<open>The records that stay: too young, or not removable.\<close>

definition stays :: "(location \<Rightarrow> bool) \<Rightarrow> nat \<Rightarrow> nat \<Rightarrow> cache_record \<Rightarrow> bool" where
  "stays can now age r \<longleftrightarrow> now - rec_stored_at r < age \<or> \<not> can (Fp_File (rec_path r))"

lemma expire_records_spec:
  assumes "refs_ok de readable s" "keeps_objects de readable objs s"
    "set rs \<subseteq> set (records de readable (p_fps s))" "distinct (map rec_path rs)"
  shows "refs_ok de readable (expire_records can now age rs s) \<and>
    keeps_objects de readable objs (expire_records can now age rs s) \<and>
    records de readable (p_fps (expire_records can now age rs s)) =
      filter (\<lambda>r. stays can now age r \<or> rec_path r \<notin> rec_path ` set (filter (\<lambda>r. \<not> stays can now age r) rs))
        (records de readable (p_fps s))"
  using assms
proof (induction rs arbitrary: s)
  case (Cons r rs)
  define s' where "s' = (if age \<le> now - rec_stored_at r then snd (drop_record_and_cascade can r s) else s)"
  have r: "r \<in> set (records de readable (p_fps s))" using Cons.prems(3) by simp
  obtain fr d where d: "drop_record_and_cascade can r s = (fr, d)" by fastforce
  note D = drop_keeps[OF Cons.prems(1,2) r d]
  have s': "refs_ok de readable s'" "keeps_objects de readable objs s'"
    "p_fps s' = (if stays can now age r then p_fps s else hm_remove (rec_path r) (p_fps s))"
    using D d Cons.prems(1,2) by (auto simp: s'_def stays_def)
  have recs: "records de readable (p_fps s') =
      (if stays can now age r then records de readable (p_fps s)
       else filter (\<lambda>x. rec_path x \<noteq> rec_path r) (records de readable (p_fps s)))"
    by (simp add: s'(3) records_remove)
  have sub: "set rs \<subseteq> set (records de readable (p_fps s'))"
    using Cons.prems(3,4) by (auto simp: recs rev_image_eqI)
  have "rec_path x = rec_path r \<longleftrightarrow> x = r" if "x \<in> set (records de readable (p_fps s))" for x
    using distinct_records[of "p_fps s" de readable] Cons.prems(1) r that
    by (auto simp: refs_ok_def distinct_map inj_on_def)
  then have "filter (\<lambda>x. stays can now age x \<or> rec_path x \<notin> rec_path ` set (filter (\<lambda>r. \<not> stays can now age r) rs))
        (records de readable (p_fps s')) =
      filter (\<lambda>x. stays can now age x \<or> rec_path x \<notin> rec_path ` set (filter (\<lambda>r. \<not> stays can now age r) (r # rs)))
        (records de readable (p_fps s))"
    unfolding recs by (auto intro!: filter_cong)
  then show ?case
    using Cons.IH[OF s'(1,2) sub] Cons.prems(4) by (simp add: s'_def)
qed simp

lemma sweep_objects_spec:
  "p_fps (sweep_objects can now age fs s) = p_fps s \<and> p_refs (sweep_objects can now age fs s) = p_refs s \<and>
   (47 \<notin> set h \<longrightarrow> \<not> is_tmp h \<longrightarrow> hm_get (p_refs s) h \<noteq> None \<longrightarrow>
      hm_get (p_objs (sweep_objects can now age fs s)) h = hm_get (p_objs s) h)"
proof (induction fs arbitrary: s)
  case (Cons e fs)
  obtain p f where e: "e = (p, f)" by fastforce
  have "file_name_of h = h" if "47 \<notin> set h"
  proof -
    have "takeWhile (\<lambda>b. b \<noteq> 47) (rev h) = rev h"
      using that by (intro iffD2[OF takeWhile_eq_all_conv]) auto
    then show ?thesis unfolding file_name_of_def by (simp only: rev_rev_ident)
  qed
  then show ?case
    unfolding e sweep_objects.simps Cons.IH[THEN conjunct1] Cons.IH[THEN conjunct2, THEN conjunct1]
    using Cons.IH[THEN conjunct2, THEN conjunct2]
    by (auto split: option.splits if_splits)
qed simp

lemma cleanup_tmp_spec:
  "p_objs (cleanup_tmp_files can now age fs s) = p_objs s \<and>
   records de readable (p_fps (cleanup_tmp_files can now age fs s)) = records de readable (p_fps s)"
proof (induction fs arbitrary: s)
  case (Cons e fs)
  obtain p f where e: "e = (p, f)" by fastforce
  have "rec_path r \<noteq> p" if tmp: "is_tmp p" and r: "r \<in> set (records de readable (p_fps s))" for r
  proof
    assume "rec_path r = p"
    moreover obtain x where "record_of de readable x = Some r"
      using r by (auto simp: records_def List.map_filter_def)
    ultimately have "extension p = Some json_ext"
      by (cases x) (auto simp: record_of_def split: if_splits)
    then show False using tmp by (simp add: is_tmp_def json_ext_def tmp_ext_def)
  qed
  then have "is_tmp p \<Longrightarrow> records de readable (hm_remove p (p_fps s)) = records de readable (p_fps s)"
    by (simp add: records_remove filter_id_conv)
  then show ?case using Cons.IH by (simp add: e)
qed simp

lemma age_phase_spec:
  assumes "distinct (hm_keys (p_fps s))" and t_def: "t = age_phase de readable can now age s"
  shows "records de readable (p_fps t) = filter (stays can now age) (records de readable (p_fps s))"
    and "r \<in> set (records de readable (p_fps t)) \<Longrightarrow> rec_artifact r = Some h \<Longrightarrow> valid_object_hash h \<Longrightarrow>
      \<not> is_tmp h \<Longrightarrow> hm_get (p_objs t) h = hm_get (p_objs s) h"
proof -
  let ?recs = "records de readable (p_fps s)"
  let ?s1 = "s\<lparr>p_refs := ref_counts ?recs\<rparr>"
  let ?s2 = "expire_records can now age ?recs ?s1"
  let ?s3 = "sweep_objects can now age (sort_key mtime_key (p_objs ?s2)) ?s2"
  have ok: "refs_ok de readable ?s1" by (rule refs_ok_start[OF assms(1) refl])
  have "keeps_objects de readable (p_objs s) ?s1" by (simp add: keeps_objects_def)
  have "set ?recs \<subseteq> set (records de readable (p_fps ?s1))" by simp
  note E = expire_records_spec[OF ok \<open>keeps_objects de readable (p_objs s) ?s1\<close> this distinct_records[OF assms(1)], of can now age]
  have t: "t = cleanup_tmp_files can now age (p_fps ?s3) ?s3" by (simp add: t_def age_phase_def Let_def)
  have s3: "p_fps ?s3 = p_fps ?s2" using sweep_objects_spec by blast
  have recs: "records de readable (p_fps t) = records de readable (p_fps ?s2)"
    unfolding t using cleanup_tmp_spec[of can now age "p_fps ?s3" ?s3 de readable] s3 by simp
  show "records de readable (p_fps t) = filter (stays can now age) ?recs"
    unfolding recs using E by (auto intro!: filter_cong simp: rev_image_eqI)
  assume r: "r \<in> set (records de readable (p_fps t))" "rec_artifact r = Some h" "valid_object_hash h" "\<not> is_tmp h"
  have pos: "0 < n_refs de readable (p_fps ?s2) h" using n_refs_pos[of r] r(1,2) by (simp add: recs)
  then have "hm_get (p_refs ?s2) h \<noteq> None"
    using E by (auto simp: refs_ok_def ref_count_def split: option.splits)
  moreover have "47 \<notin> set h" using r(3) by (auto simp: valid_object_hash_def)
  ultimately have "hm_get (p_objs ?s3) h = hm_get (p_objs ?s2) h"
    using sweep_objects_spec r(4) by blast
  then show "hm_get (p_objs t) h = hm_get (p_objs s) h"
    using E pos cleanup_tmp_spec[of can now age "p_fps ?s3" ?s3 de readable]
    by (simp add: t keeps_objects_def)
qed

subsection \<open>The size-based phase\<close>

definition record_bytes :: "(byte list \<Rightarrow> fp_record option) \<Rightarrow> (byte list \<Rightarrow> bool) \<Rightarrow> directory \<Rightarrow> nat" where
  "record_bytes de readable fps = sum_list (map rec_size (records de readable fps))"

text \<open>Every file noted as removed is gone, and \<open>tot\<close> counts what is left.\<close>

definition size_inv ::
  "(byte list \<Rightarrow> fp_record option) \<Rightarrow> (byte list \<Rightarrow> bool) \<Rightarrow> nat \<Rightarrow> prune_state \<Rightarrow> bool"
where
  "size_inv de readable tot s \<longleftrightarrow>
     distinct (hm_keys (p_objs s)) \<and> (\<forall>p. Obj_File p \<in> set (p_removed s) \<longrightarrow> hm_get (p_objs s) p = None) \<and>
     tot = record_bytes de readable (p_fps s) + hm_sum file_len (p_objs s)"

lemma record_bytes_remove:
  assumes "distinct (hm_keys fps)" "r \<in> set (records de readable fps)"
  shows "record_bytes de readable (hm_remove (rec_path r) fps) + rec_size r = record_bytes de readable fps"
  using filter_one_out(2)[OF distinct_records[OF assms(1)] assms(2), of rec_size]
  by (simp add: record_bytes_def records_remove)

lemma drop_size:
  assumes "refs_ok de readable s" "size_inv de readable tot s" "r \<in> set (records de readable (p_fps s))"
    "\<And>l. can l" "drop_record_and_cascade can r s = (fr, s')"
  shows "refs_ok de readable s'" "size_inv de readable (tot - fr) s'" "p_fps s' = hm_remove (rec_path r) (p_fps s)"
proof -
  have d: "distinct (hm_keys (p_fps s))" using assms(1) by (simp add: refs_ok_def)
  note b = record_bytes_remove[OF d assms(3)]
  have "refs_ok de readable s' \<and> size_inv de readable (tot - fr) s' \<and> p_fps s' = hm_remove (rec_path r) (p_fps s)"
    using assms(1,3) assms(4)[of "Fp_File (rec_path r)"]
  proof (cases rule: drop_cases)
    case (record_only t)
    then have "Obj_File p \<in> set (p_removed t) \<Longrightarrow> hm_get (p_objs t) p = None" for p
      using assms(2,4) by (auto simp: size_inv_def removable_object_def)
    then show ?thesis using record_only b assms(2,5) by (auto simp: size_inv_def)
  next
    case (both h f t)
    have "hm_sum file_len (hm_remove h (p_objs s)) + file_len f = hm_sum file_len (p_objs s)"
      using assms(2) both(4) by (intro hm_sum_remove) (simp_all add: size_inv_def)
    then show ?thesis using both b assms(2,5) by (auto simp: size_inv_def distinct_removeAll)
  qed
  then show "refs_ok de readable s'" "size_inv de readable (tot - fr) s'" "p_fps s' = hm_remove (rec_path r) (p_fps s)"
    by blast+
qed

lemma evict_records_size:
  assumes "refs_ok de readable s" "size_inv de readable tot s" "\<And>l. can l"
    "set rs \<subseteq> set (records de readable (p_fps s))" "distinct (map rec_path rs)"
    "evict_records can mx rs tot s = (tot', s')"
  shows "size_inv de readable tot' s' \<and>
    (tot' \<le> mx \<or> set (records de readable (p_fps s')) \<subseteq> set (records de readable (p_fps s)) - set rs) \<and>
    (tot \<le> mx \<longrightarrow> s' = s) \<and> set (map fst (p_objs s')) \<subseteq> set (map fst (p_objs s))"
  using assms
proof (induction rs arbitrary: s tot)
  case (Cons r rs)
  show ?case
  proof (cases "tot \<le> mx")
    case True
    then show ?thesis using Cons.prems by simp
  next
    case False
    obtain fr d where d: "drop_record_and_cascade can r s = (fr, d)" by fastforce
    have r: "r \<in> set (records de readable (p_fps s))" using Cons.prems(4) by simp
    note D = drop_size[OF Cons.prems(1,2) r Cons.prems(3) d]
    have recs: "set (records de readable (p_fps d)) = {x \<in> set (records de readable (p_fps s)). rec_path x \<noteq> rec_path r}"
      by (simp add: D(3) records_remove)
    have sub: "set rs \<subseteq> set (records de readable (p_fps d))"
      using Cons.prems(4,5) by (auto simp: recs rev_image_eqI)
    have ev: "evict_records can mx rs (tot - fr) d = (tot', s')"
      using Cons.prems(6) False d by simp
    have "p_objs d = p_objs s \<or> (\<exists>h. p_objs d = hm_remove h (p_objs s))"
      using d by (auto simp: drop_record_and_cascade_def Let_def split: if_splits option.splits)
    then have objs: "fst ` set (p_objs d) \<subseteq> fst ` set (p_objs s)"
      by (elim disjE exE) (simp_all only: set_hm_keys_remove Diff_subset order_refl)
    have "distinct (map rec_path rs)" using Cons.prems(5) by simp
    note IH = Cons.IH[OF D(1,2) Cons.prems(3) sub this ev]
    have "r \<notin> set (records de readable (p_fps d))" by (simp add: recs)
    then have "set (records de readable (p_fps d)) - set rs \<subseteq> set (records de readable (p_fps s)) - set (r # rs)"
      using recs by auto
    then have "tot' \<le> mx \<or> set (records de readable (p_fps s')) \<subseteq> set (records de readable (p_fps s)) - set (r # rs)"
      using IH by blast
    moreover have "set (map fst (p_objs s')) \<subseteq> set (map fst (p_objs s))"
      using IH objs by (simp only: list.set_map) blast
    ultimately show ?thesis using IH False by blast
  qed
qed simp

lemma evict_objects_size:
  assumes "size_inv de readable tot s" "\<And>l. can l" "evict_objects can mx fs tot s = (tot', s')"
  shows "size_inv de readable tot' s' \<and> p_fps s' = p_fps s \<and>
    (tot' \<le> mx \<or> fst ` set (p_objs s') \<subseteq> fst ` set (p_objs s) - fst ` set fs) \<and>
    (tot \<le> mx \<longrightarrow> s' = s \<and> tot' = tot)"
  using assms
proof (induction fs arbitrary: s tot)
  case (Cons e fs)
  obtain p f where e: "e = (p, f)" by fastforce
  show ?case
  proof (cases "tot \<le> mx")
    case True
    then show ?thesis using Cons.prems by (simp add: e)
  next
    case False
    show ?thesis
    proof (cases "Obj_File p \<in> set (p_removed s) \<or> hm_get (p_objs s) p = None")
      case True
      then have gone: "p \<notin> fst ` set (p_objs s)"
        using Cons.prems(1) hm_key_get[of p "p_objs s"] by (auto simp: size_inv_def)
      have "evict_objects can mx fs tot s = (tot', s')"
        using True False Cons.prems(3) by (auto simp: e removable_object_def split: if_splits)
      then show ?thesis using Cons.IH[OF Cons.prems(1,2)] gone False by (auto simp: e)
    next
      case rem: False
      then obtain g where g: "hm_get (p_objs s) p = Some g" by auto
      let ?s = "s\<lparr>p_objs := hm_remove p (p_objs s), p_removed := Obj_File p # p_removed s,
               p_objects := p_objects s + 1, p_freed := p_freed s + file_len g\<rparr>"
      have "hm_sum file_len (hm_remove p (p_objs s)) + file_len g = hm_sum file_len (p_objs s)"
        using Cons.prems(1) g by (intro hm_sum_remove) (simp_all add: size_inv_def)
      then have inv: "size_inv de readable (tot - file_len g) ?s"
        using Cons.prems(1) by (auto simp: size_inv_def distinct_removeAll)
      have ev: "evict_objects can mx fs (tot - file_len g) ?s = (tot', s')"
        using False rem g Cons.prems(2)[of "Obj_File p"] Cons.prems(3) by (simp add: e removable_object_def)
      show ?thesis using Cons.IH[OF inv Cons.prems(2) ev] False by (auto simp: e)
    qed
  qed
qed simp

lemma hm_sum_sorted:
  assumes "size_inv de readable tot s"
  shows "sum_list (map (file_len \<circ> snd) (filter (\<lambda>(p, _). Obj_File p \<notin> set (p_removed s)) (sort_key f (p_objs s)))) =
    hm_sum file_len (p_objs s)"
proof -
  have "filter (\<lambda>(p, _). Obj_File p \<notin> set (p_removed s)) (sort_key f (p_objs s)) = sort_key f (p_objs s)"
    using assms weak_map_of_SomeI[of _ _ "p_objs s"] by (force simp: size_inv_def filter_id_conv)
  moreover have "sum_list (map g (sort_key f xs)) = sum_list (map g xs)" for g :: "byte list \<times> disk_file \<Rightarrow> nat" and xs
    by (metis mset_map mset_sort sum_mset_sum_list)
  ultimately show ?thesis by (simp add: hm_sum_def)
qed

lemma size_phase_spec:
  assumes "distinct (hm_keys (p_fps s))" "size_inv de readable tot s" "\<And>l. can l"
    and s': "s' = size_phase de readable can mx s"
  shows "record_bytes de readable (p_fps s') + hm_sum file_len (p_objs s') \<le> mx \<and>
    (tot \<le> mx \<longrightarrow> p_fps s' = p_fps s \<and> p_objs s' = p_objs s)"
proof -
  let ?recs = "sort_key rec_stored_at (records de readable (p_fps s))"
  let ?objs = "sort_key mtime_key (p_objs s)"
  let ?s = "s\<lparr>p_refs := ref_counts ?recs\<rparr>"
  have ok: "refs_ok de readable ?s" using refs_ok_start[OF assms(1), of ?recs] by simp
  have inv: "size_inv de readable tot ?s" using assms(2) by (simp add: size_inv_def)
  have "sum_list (map rec_size ?recs) = record_bytes de readable (p_fps s)"
    unfolding record_bytes_def by (metis mset_map mset_sort sum_mset_sum_list)
  then have tot: "tot = sum_list (map rec_size ?recs) +
      sum_list (map (file_len \<circ> snd) (filter (\<lambda>(p, _). Obj_File p \<notin> set (p_removed s)) ?objs))"
    using assms(2) hm_sum_sorted[OF assms(2), of mtime_key] by (simp add: size_inv_def)
  obtain t1 s1 where e1: "evict_records can mx ?recs tot ?s = (t1, s1)" by fastforce
  obtain t2 s2 where e2: "evict_objects can mx ?objs t1 s1 = (t2, s2)" by fastforce
  have s2: "s' = s2" using e1 e2 tot by (simp add: s' size_phase_def Let_def)
  have "distinct (map rec_path ?recs)"
    using distinct_records[OF assms(1), of de readable] by (simp add: distinct_map)
  note A = evict_records_size[OF ok inv assms(3) _ this e1]
  have A': "size_inv de readable t1 s1" "t1 \<le> mx \<or> records de readable (p_fps s1) = []"
    "tot \<le> mx \<longrightarrow> s1 = ?s" "fst ` set (p_objs s1) \<subseteq> fst ` set (p_objs s)"
    using A by auto
  note B = evict_objects_size[OF A'(1) assms(3) e2]
  have "t2 \<le> mx"
  proof (cases "t2 \<le> mx")
    case False
    then have t1: "\<not> t1 \<le> mx" and "fst ` set (p_objs s2) \<subseteq> fst ` set (p_objs s1) - fst ` set ?objs"
      using B by blast+
    moreover have "fst ` set (p_objs s1) - fst ` set ?objs = {}"
      using A'(4) by (simp only: set_sort Diff_eq_empty_iff)
    ultimately have "fst ` set (p_objs s2) = {}" by (simp only: subset_empty)
    then have "p_objs s2 = []" by simp
    moreover have "p_fps s2 = p_fps s1" using B by blast
    moreover have "size_inv de readable t2 s2" using B by blast
    ultimately have "t2 = 0" using t1 A'(2) by (simp add: size_inv_def record_bytes_def)
    then show ?thesis by simp
  qed
  moreover have "tot \<le> mx \<longrightarrow> s2 = ?s"
    using A'(3) B e1 by (cases ?recs) auto
  ultimately show ?thesis using B by (auto simp: s2 size_inv_def)
qed

subsection \<open>The phases together\<close>

text \<open>Only whole files go, and what is noted as removed is gone.\<close>

definition shrunk :: "directory \<Rightarrow> directory \<Rightarrow> prune_state \<Rightarrow> bool" where
  "shrunk fps objs s \<longleftrightarrow>
     (\<exists>P. p_fps s = filter P fps) \<and> (\<exists>Q. p_objs s = filter Q objs) \<and>
     (\<forall>p. Obj_File p \<in> set (p_removed s) \<longrightarrow> hm_get (p_objs s) p = None)"

lemma filter_remove: "\<exists>Q. hm_remove p (filter P xs) = filter Q xs"
  unfolding hm_remove_filter filter_filter by blast

lemma shrunk_fps:
  assumes "shrunk fps objs s" "p_fps s' = hm_remove p (p_fps s)" "p_objs s' = p_objs s"
    "\<And>x. Obj_File x \<in> set (p_removed s') \<Longrightarrow> Obj_File x \<in> set (p_removed s) \<or> hm_get (p_objs s) x = None"
  shows "shrunk fps objs s'"
proof -
  obtain P Q where "p_fps s = filter P fps" "p_objs s = filter Q objs"
    using assms(1) by (auto simp: shrunk_def)
  then show ?thesis
    using assms filter_remove[of p P fps] by (auto simp: shrunk_def)
qed

lemma shrunk_objs:
  assumes "shrunk fps objs s" "p_fps s' = p_fps s \<or> (\<exists>q. p_fps s' = hm_remove q (p_fps s))"
    "p_objs s' = hm_remove p (p_objs s)" "p_removed s' = Obj_File p # p_removed s"
  shows "shrunk fps objs s'"
proof -
  obtain P Q where PQ: "p_fps s = filter P fps" "p_objs s = filter Q objs"
    using assms(1) by (auto simp: shrunk_def)
  have "\<exists>P. p_fps s' = filter P fps" using assms(2) PQ(1) filter_remove by auto
  moreover have "\<exists>Q. p_objs s' = filter Q objs" using assms(3) PQ(2) filter_remove by auto
  ultimately show ?thesis using assms by (auto simp: shrunk_def)
qed

lemma drop_shrunk:
  assumes "shrunk fps objs s" "\<And>l. can l"
  shows "shrunk fps objs (snd (drop_record_and_cascade can r s))"
proof (cases "hm_get (p_fps s) (rec_path r)")
  case (Some g)
  show ?thesis
  proof (cases "\<exists>h f. rec_artifact r = Some h \<and> ref_count s h \<le> 1 \<and> Obj_File h \<notin> set (p_removed s) \<and> hm_get (p_objs s) h = Some f")
    case True
    then obtain h f where "rec_artifact r = Some h" "ref_count s h \<le> 1" "Obj_File h \<notin> set (p_removed s)"
      "hm_get (p_objs s) h = Some f" by blast
    then show ?thesis
      using Some assms(2)
      by (intro shrunk_objs[OF assms(1), of _ h]) (simp_all add: drop_record_and_cascade_def Let_def removable_object_def, blast)
  next
    case False
    then show ?thesis
      using Some assms(2)
      by (intro shrunk_fps[OF assms(1), of _ "rec_path r"])
        (auto simp: drop_record_and_cascade_def Let_def removable_object_def split: option.splits if_splits)
  qed
qed (use assms in \<open>simp add: drop_record_and_cascade_def\<close>)

lemma expire_shrunk:
  "shrunk fps objs s \<Longrightarrow> (\<And>l. can l) \<Longrightarrow> shrunk fps objs (expire_records can now age rs s)"
  by (induction rs arbitrary: s) (simp_all add: drop_shrunk)

lemma sweep_shrunk:
  "shrunk fps objs s \<Longrightarrow> (\<And>l. can l) \<Longrightarrow> shrunk fps objs (sweep_objects can now age fs s)"
proof (induction fs arbitrary: s)
  case (Cons e fs)
  obtain p f where e: "e = (p, f)" by fastforce
  show ?case
    unfolding e sweep_objects.simps
    by (intro Cons.IH Cons.prems)
      (use Cons.prems(1) in \<open>auto split: option.splits intro: shrunk_objs[OF Cons.prems(1), of _ p]\<close>)
qed simp

lemma cleanup_shrunk:
  "shrunk fps objs s \<Longrightarrow> shrunk fps objs (cleanup_tmp_files can now age fs s)"
proof (induction fs arbitrary: s)
  case (Cons e fs)
  obtain p f where e: "e = (p, f)" by fastforce
  show ?case
    unfolding e cleanup_tmp_files.simps
    by (intro Cons.IH)
      (use Cons.prems in \<open>auto intro: shrunk_fps[OF Cons.prems, of _ p]\<close>)
qed simp

lemma age_phase_shrunk:
  "shrunk fps objs s \<Longrightarrow> (\<And>l. can l) \<Longrightarrow> shrunk fps objs (age_phase de readable can now age s)"
  unfolding age_phase_def Let_def
  by (intro cleanup_shrunk sweep_shrunk expire_shrunk) (simp_all add: shrunk_def)

lemma shrunk_size:
  assumes "shrunk fps objs s" "distinct (hm_keys fps)" "distinct (hm_keys objs)"
  shows "distinct (hm_keys (p_fps s))"
    and "size_inv de readable (record_bytes de readable (p_fps s) + hm_sum file_len (p_objs s)) s"
    and "hm_sum file_len (p_objs s) \<le> hm_sum file_len objs"
proof -
  have le: "sum_list (map g (filter P xs)) \<le> sum_list (map (g :: byte list \<times> disk_file \<Rightarrow> nat) xs)" for g P xs
    by (induction xs) auto
  obtain P Q where "p_fps s = filter P fps" "p_objs s = filter Q objs"
    using assms(1) by (auto simp: shrunk_def)
  then show "distinct (hm_keys (p_fps s))"
    "size_inv de readable (record_bytes de readable (p_fps s) + hm_sum file_len (p_objs s)) s"
    "hm_sum file_len (p_objs s) \<le> hm_sum file_len objs"
    using assms le by (auto simp: size_inv_def shrunk_def distinct_map_filter hm_sum_def)
qed

text \<open>The state \<open>prune\<close> starts from.\<close>

abbreviation prune_start :: "local_cache \<Rightarrow> prune_state" where
  "prune_start c \<equiv> \<lparr>p_fps = fp_dir c, p_objs = obj_dir c, p_removed = [], p_refs = [], p_records = 0,
     p_objects = 0, p_freed = 0\<rparr>"

definition disk_bytes :: "(byte list \<Rightarrow> fp_record option) \<Rightarrow> (byte list \<Rightarrow> bool) \<Rightarrow> local_cache \<Rightarrow> nat" where
  "disk_bytes de readable c = record_bytes de readable (fp_dir c) + hm_sum file_len (obj_dir c)"

definition size_limit :: "nat option \<Rightarrow> nat" where
  "size_limit max_size = (case max_size of None \<Rightarrow> u64_max | Some m \<Rightarrow> m)"

definition too_young :: "nat \<Rightarrow> nat option \<Rightarrow> cache_record \<Rightarrow> bool" where
  "too_young now older_than r \<longleftrightarrow>
     (case older_than of None \<Rightarrow> True | Some age \<Rightarrow> secs now - rec_stored_at r < secs age)"

text \<open>
  A prune during which every removal succeeds leaves at most \<open>max_size\<close> bytes of records and
  objects. When the cache fits, what it removes is decided by age alone: exactly the records of
  the given age go, and an object that a remaining record refers to is untouched (an object
  whose name ends in \<open>.tmp\<close> excepted, which the sweep takes for a temporary file). Without an
  age and within the limit nothing changes on disk.
\<close>

theorem prune_correct:
  assumes "distinct (hm_keys (fp_dir c))" "distinct (hm_keys (obj_dir c))" "\<And>l. can l"
    and run: "prune de readable can now older_than max_size c = (rep, c')"
  shows "disk_bytes de readable c' \<le> size_limit max_size \<and> memory_cache c' = [] \<and>
    (disk_bytes de readable c \<le> size_limit max_size \<longrightarrow>
       records de readable (fp_dir c') = filter (too_young now older_than) (records de readable (fp_dir c)) \<and>
       (\<forall>r h. r \<in> set (records de readable (fp_dir c')) \<longrightarrow> rec_artifact r = Some h \<longrightarrow>
          valid_object_hash h \<longrightarrow> \<not> is_tmp h \<longrightarrow> hm_get (obj_dir c') h = hm_get (obj_dir c) h) \<and>
       (older_than = None \<longrightarrow> fp_dir c' = fp_dir c \<and> obj_dir c' = obj_dir c))"
proof -
  define s1 where "s1 = (case older_than of None \<Rightarrow> prune_start c
    | Some age \<Rightarrow> age_phase de readable can (secs now) (secs age) (prune_start c))"
  define s2 where "s2 = size_phase de readable can (size_limit max_size) s1"
  have c': "fp_dir c' = p_fps s2" "obj_dir c' = p_objs s2" "memory_cache c' = []"
    using run by (auto simp: prune_def Let_def s2_def s1_def size_limit_def)
  have "shrunk (fp_dir c) (obj_dir c) (prune_start c)"
    by (auto simp: shrunk_def intro!: exI[of _ "\<lambda>_. True"])
  then have "shrunk (fp_dir c) (obj_dir c) s1"
    using age_phase_shrunk[OF _ assms(3)] by (auto simp: s1_def split: option.splits)
  note S = shrunk_size[OF this assms(1,2)]
  note Z = size_phase_spec[OF S(1,2) assms(3) s2_def]
  have recs: "records de readable (p_fps s1) = filter (too_young now older_than) (records de readable (fp_dir c))"
    using age_phase_spec(1)[of "prune_start c", OF _ refl, of de readable can "secs now"] assms(1,3)
    by (auto simp: s1_def stays_def too_young_def[abs_def] intro!: filter_cong split: option.splits)
  have objs: "hm_get (p_objs s1) h = hm_get (obj_dir c) h"
    if "r \<in> set (records de readable (p_fps s1))" "rec_artifact r = Some h" "valid_object_hash h" "\<not> is_tmp h" for r h
    using age_phase_spec(2)[of "prune_start c", OF _ refl, of r de readable can "secs now" _ h] assms(1) that
    by (auto simp: s1_def split: option.splits)
  have "sum_list (map rec_size (filter P xs)) \<le> sum_list (map rec_size xs)" for P and xs :: "cache_record list"
    by (induction xs) auto
  then have "record_bytes de readable (p_fps s1) \<le> record_bytes de readable (fp_dir c)"
    by (simp add: record_bytes_def recs)
  then have le: "record_bytes de readable (p_fps s1) + hm_sum file_len (p_objs s1) \<le> disk_bytes de readable c"
    using S(3) by (simp add: disk_bytes_def)
  have keep: "fp_dir c' = p_fps s1" "obj_dir c' = p_objs s1" if "disk_bytes de readable c \<le> size_limit max_size"
    using Z le that c' by auto
  have "disk_bytes de readable c' \<le> size_limit max_size" using Z by (simp add: disk_bytes_def c')
  then show ?thesis using keep recs objs c'(3) by (auto simp: s1_def)
qed

text \<open>Two records stored three seconds apart, each with an object; the keys are single bytes.\<close>

definition two_records :: local_cache where
  "two_records =
     (let c = snd (put_object Written 0 [1] [1, 2, 3] (new_cache [] []));
          c = snd (put_object Written 0 [2] [4] c);
          c = snd (put_with_artifact sample_ser Written 0 [1] [] (Some [1]) c)
      in snd (put_with_artifact sample_ser Written 3000000000 [2] [] (Some [2]) c))"

text \<open>Pruning records of two seconds and more at time 4.\<close>

theorem prune_correct_witness:
  "\<exists>rep c'. prune sample_de (\<lambda>_. True) (\<lambda>_. True) 4000000000 (Some 2000000000) None two_records = (rep, c') \<and>
     map rec_key (records sample_de (\<lambda>_. True) (fp_dir c')) = [[2]] \<and>
     hm_get (obj_dir c') [2] = hm_get (obj_dir two_records) [2]"
proof -
  obtain rep c' where p: "prune sample_de (\<lambda>_. True) (\<lambda>_. True) 4000000000 (Some 2000000000) None two_records = (rep, c')"
    by fastforce
  have d: "distinct (hm_keys (fp_dir two_records))" "distinct (hm_keys (obj_dir two_records))" by code_simp+
  have "disk_bytes sample_de (\<lambda>_. True) two_records \<le> 1000000" by code_simp
  then have "disk_bytes sample_de (\<lambda>_. True) two_records \<le> size_limit None"
    by (simp add: size_limit_def u64_max_def)
  then have r: "records sample_de (\<lambda>_. True) (fp_dir c') =
      filter (too_young 4000000000 (Some 2000000000)) (records sample_de (\<lambda>_. True) (fp_dir two_records))"
    and o: "\<And>r h. r \<in> set (records sample_de (\<lambda>_. True) (fp_dir c')) \<Longrightarrow> rec_artifact r = Some h \<Longrightarrow>
      valid_object_hash h \<Longrightarrow> \<not> is_tmp h \<Longrightarrow> hm_get (obj_dir c') h = hm_get (obj_dir two_records) h"
    using prune_correct[OF d TrueI p] by blast+
  have l: "map (\<lambda>r. (rec_key r, rec_artifact r)) (filter (too_young 4000000000 (Some 2000000000))
      (records sample_de (\<lambda>_. True) (fp_dir two_records))) = [([2], Some [2])]"
    by code_simp
  then obtain x where "records sample_de (\<lambda>_. True) (fp_dir c') = [x]" "rec_key x = [2]" "rec_artifact x = Some [2]"
    unfolding r[symmetric] by auto
  moreover have "valid_object_hash [2]" "\<not> is_tmp [2]" by code_simp+
  ultimately show ?thesis using p o[of x] by auto
qed

text \<open>
  The bytes of an object that goes together with its last record count towards the limit but
  are not reported as freed.
\<close>

lemma freed_bytes_omit_object:
  assumes "hm_get (p_fps s) (rec_path r) \<noteq> None" "\<And>l. can l" "rec_artifact r = Some h" "ref_count s h = 1"
    "Obj_File h \<notin> set (p_removed s)" "hm_get (p_objs s) h = Some f"
  shows "fst (drop_record_and_cascade can r s) = rec_size r + file_len f"
    and "p_freed (snd (drop_record_and_cascade can r s)) = p_freed s + rec_size r"
    and "p_objs (snd (drop_record_and_cascade can r s)) = hm_remove h (p_objs s)"
  using assms by (auto simp: drop_record_and_cascade_def Let_def removable_object_def)

end
