(* ===== verification/Lockless_Graph.thy ===== *)
theory Lockless_Graph
  imports Fish_Prelude "HOL-Library.List_Lexorder" "HOL-Library.Char_ord"
begin

text \<open>
  The dependency graph keyed by names, \<open>LocklessDependencyGraph\<close> of \<open>fish-graph/src/lockless.rs\<close>.
  The recursion of \<open>compute_critical_path\<close> is bounded by a depth: it enters a node only when
  the node is not being visited, so one more than the number of nodes is enough. \<open>None\<close> is
  the panic of an overflowing sum of weights (and, never reached, the end of the depth).
\<close>

record lockless_node =
  ln_id :: string
  dependencies :: "string list"
  reverse_dependencies :: "string list"
  execution_weight :: nat

type_synonym lockless_graph = "(string, lockless_node) hash_map"

datatype lockless_error = Cycle string

definition default_node :: lockless_node where
  "default_node = \<lparr>ln_id = [], dependencies = [], reverse_dependencies = [], execution_weight = 0\<rparr>"

text \<open>\<open>entry(id).or_default()\<close> followed by an update of the node.\<close>

definition upsert :: "string \<Rightarrow> (lockless_node \<Rightarrow> lockless_node) \<Rightarrow> lockless_graph \<Rightarrow> lockless_graph" where
  "upsert i f g = hm_insert i (f (case hm_get g i of None \<Rightarrow> default_node | Some n \<Rightarrow> n)) g"

definition drop_reverse :: "string \<Rightarrow> string \<Rightarrow> lockless_graph \<Rightarrow> lockless_graph" where
  "drop_reverse i old_dep g =
     (case hm_get g old_dep of
        None \<Rightarrow> g
      | Some n \<Rightarrow> hm_insert old_dep
          (n\<lparr>reverse_dependencies := filter (\<lambda>rd. rd \<noteq> i) (reverse_dependencies n)\<rparr>) g)"

definition add_reverse :: "string \<Rightarrow> string \<Rightarrow> lockless_graph \<Rightarrow> lockless_graph" where
  "add_reverse i dep = upsert dep (\<lambda>n. n\<lparr>ln_id := dep,
     reverse_dependencies := (if i \<in> set (reverse_dependencies n) then reverse_dependencies n
                              else reverse_dependencies n @ [i])\<rparr>)"

definition insert_node :: "string \<Rightarrow> string list \<Rightarrow> nat \<Rightarrow> lockless_graph \<Rightarrow> lockless_graph" where
  "insert_node i deps weight g =
     (let previous = (case hm_get g i of None \<Rightarrow> [] | Some n \<Rightarrow> dependencies n);
          g1 = foldl (\<lambda>g d. drop_reverse i d g) g previous;
          g2 = upsert i (\<lambda>n. n\<lparr>ln_id := i, dependencies := deps, execution_weight := weight\<rparr>) g1
      in foldl (\<lambda>g d. add_reverse i d g) g2 deps)"

definition node_count :: "lockless_graph \<Rightarrow> nat" where
  "node_count g = length g"

definition deps_named :: "lockless_graph \<Rightarrow> string \<Rightarrow> string list" where
  "deps_named g i = (case hm_get g i of None \<Rightarrow> [] | Some n \<Rightarrow> dependencies n)"

definition weight_of :: "lockless_graph \<Rightarrow> string \<Rightarrow> nat" where
  "weight_of g i = (case hm_get g i of None \<Rightarrow> 0 | Some n \<Rightarrow> execution_weight n)"

subsection \<open>Transitive dependencies\<close>

fun push_unvisited :: "string list \<Rightarrow> string list \<Rightarrow> string list \<Rightarrow> string list \<times> string list" where
  "push_unvisited [] visited stack = (visited, stack)"
| "push_unvisited (d # ds) visited stack =
     (if d \<in> set visited then push_unvisited ds visited stack
      else push_unvisited ds (d # visited) (d # stack))"

definition all_deps :: "lockless_graph \<Rightarrow> string set" where
  "all_deps g = (\<Union>(_, n) \<in> set g. set (dependencies n))"

lemma finite_all_deps [simp]: "finite (all_deps g)"
  by (auto simp: all_deps_def)

lemma deps_named_all: "set (deps_named g i) \<subseteq> all_deps g"
proof (cases "hm_get g i")
  case (Some n)
  then have "(i, n) \<in> set g" by (rule map_of_SomeD)
  then show ?thesis using Some by (force simp: deps_named_def all_deps_def)
qed (simp add: deps_named_def)

lemma push_unvisited_new:
  obtains new where "push_unvisited ds visited stack = (new @ visited, new @ stack)"
    "distinct new" "set new = set ds - set visited"
proof -
  have "\<exists>new. push_unvisited ds visited stack = (new @ visited, new @ stack) \<and> distinct new \<and>
    set new = set ds - set visited"
  proof (induction ds visited stack rule: push_unvisited.induct)
    case (2 d ds visited stack)
    show ?case
    proof (cases "d \<in> set visited")
      case True
      then show ?thesis using "2.IH"(1) by auto
    next
      case False
      then obtain new where "push_unvisited ds (d # visited) (d # stack) = (new @ d # visited, new @ d # stack)"
        "distinct new" "set new = set ds - set (d # visited)"
        using "2.IH"(2) by blast
      then show ?thesis using False by (intro exI[of _ "new @ [d]"]) auto
    qed
  qed simp
  then show thesis using that by blast
qed

function dfs_deps :: "lockless_graph \<Rightarrow> string list \<Rightarrow> string list \<Rightarrow> string list" where
  "dfs_deps g visited [] = visited"
| "dfs_deps g visited (i # stack) =
     (let (v', s') = push_unvisited (deps_named g i) visited stack in dfs_deps g v' s')"
  by pat_completeness auto
termination dfs_deps
proof (relation "measure (\<lambda>(g, visited, stack). 2 * card (all_deps g - set visited) + length stack)", goal_cases)
  case (2 g visited i stack x v' s')
  obtain new where n: "push_unvisited (deps_named g i) visited stack = (new @ visited, new @ stack)"
    "distinct new" "set new = set (deps_named g i) - set visited"
    by (rule push_unvisited_new)
  then have e: "v' = new @ visited" "s' = new @ stack" using 2 by simp_all
  have sub: "set new \<subseteq> all_deps g - set visited" using n(3) deps_named_all[of g i] by auto
  have "all_deps g - set v' = (all_deps g - set visited) - set new" by (auto simp: e)
  then have "card (all_deps g - set v') + length new = card (all_deps g - set visited)"
    using card_Diff_subset[OF _ sub] card_mono[OF _ sub] n(2) by (simp add: distinct_card)
  then show ?case by (simp add: e)
qed simp

text \<open>The visited names, in the order of the \<open>BTreeSet\<close>.\<close>

definition transitive_dependencies :: "lockless_graph \<Rightarrow> string \<Rightarrow> string list" where
  "transitive_dependencies g i = sort (dfs_deps g [] [i])"

subsection \<open>The critical path\<close>

type_synonym path_memo = "(string, nat \<times> string list) hash_map"

fun longest_path ::
    "lockless_graph \<Rightarrow> nat \<Rightarrow> string \<Rightarrow> path_memo \<Rightarrow> string list \<Rightarrow>
       (lockless_error + (nat \<times> string list) \<times> path_memo) option"
  and longest_dep ::
    "lockless_graph \<Rightarrow> nat \<Rightarrow> string list \<Rightarrow> nat \<times> string list \<Rightarrow> path_memo \<Rightarrow> string list \<Rightarrow>
       (lockless_error + (nat \<times> string list) \<times> path_memo) option"
where
  "longest_path g 0 i memo visiting = None"
| "longest_path g (Suc depth) i memo visiting =
     (case hm_get memo i of
        Some cached \<Rightarrow> Some (Inr (cached, memo))
      | None \<Rightarrow>
          if i \<in> set visiting then Some (Inl (Cycle i))
          else (case hm_get g i of
            None \<Rightarrow> Some (Inr ((0, [i]), memo))
          | Some node \<Rightarrow>
              (case longest_dep g depth (dependencies node) (0, []) memo (i # visiting) of
                 None \<Rightarrow> None
               | Some (Inl e) \<Rightarrow> Some (Inl e)
               | Some (Inr ((max_dep_weight, best_prefix), memo')) \<Rightarrow>
                   (case add_u64 max_dep_weight (execution_weight node) of
                      None \<Rightarrow> None
                    | Some total_weight \<Rightarrow>
                        let result = (total_weight, best_prefix @ [i])
                        in Some (Inr (result, hm_insert i result memo'))))))"
| "longest_dep g depth [] best memo visiting = Some (Inr (best, memo))"
| "longest_dep g depth (d # ds) best memo visiting =
     (case longest_path g depth d memo visiting of
        None \<Rightarrow> None
      | Some (Inl e) \<Rightarrow> Some (Inl e)
      | Some (Inr ((w, path), memo')) \<Rightarrow>
          longest_dep g depth ds (if fst best < w then (w, path) else best) memo' visiting)"

fun best_of_ids ::
  "lockless_graph \<Rightarrow> string list \<Rightarrow> nat \<times> string list \<Rightarrow> path_memo \<Rightarrow>
     (lockless_error + string list) option"
where
  "best_of_ids g [] best memo = Some (Inr (snd best))"
| "best_of_ids g (i # ids) best memo =
     (case longest_path g (Suc (length g)) i memo [] of
        None \<Rightarrow> None
      | Some (Inl e) \<Rightarrow> Some (Inl e)
      | Some (Inr ((w, path), memo')) \<Rightarrow>
          best_of_ids g ids (if fst best < w then (w, path) else best) memo')"

definition compute_critical_path :: "lockless_graph \<Rightarrow> (lockless_error + string list) option" where
  "compute_critical_path g = best_of_ids g (sort (hm_keys g)) (0, []) []"

subsection \<open>Transitive dependencies are reachability\<close>

text \<open>\<open>(d, i)\<close>: node \<open>i\<close> lists \<open>d\<close> as a dependency.\<close>

definition dep_rel :: "lockless_graph \<Rightarrow> (string \<times> string) set" where
  "dep_rel g = {(d, i). d \<in> set (deps_named g i)}"

lemma dep_rel_iff [simp]: "(d, i) \<in> dep_rel g \<longleftrightarrow> d \<in> set (deps_named g i)"
  by (simp add: dep_rel_def)

definition dfs_ok :: "lockless_graph \<Rightarrow> string \<Rightarrow> string list \<Rightarrow> string list \<Rightarrow> bool" where
  "dfs_ok g i visited stack \<longleftrightarrow> distinct visited \<and>
     set visited \<subseteq> {d. (d, i) \<in> (dep_rel g)\<^sup>+} \<and> set stack \<subseteq> insert i (set visited) \<and>
     (\<forall>x. x \<in> insert i (set visited) \<longrightarrow> x \<in> set stack \<or> set (deps_named g x) \<subseteq> set visited)"

lemma dfs_deps_correct:
  "dfs_ok g i visited stack \<Longrightarrow> distinct (dfs_deps g visited stack) \<and>
     set (dfs_deps g visited stack) = {d. (d, i) \<in> (dep_rel g)\<^sup>+}"
proof (induction g visited stack rule: dfs_deps.induct)
  case (1 g visited)
  have "d \<in> set visited" if "(d, i) \<in> (dep_rel g)\<^sup>+" for d
    using that
  proof (induction rule: converse_trancl_induct)
    case (base y)
    then show ?case using 1 by (auto simp: dfs_ok_def)
  next
    case (step y z)
    then show ?case using 1 by (auto simp: dfs_ok_def)
  qed
  then show ?case using 1 by (auto simp: dfs_ok_def)
next
  case (2 g visited x stack)
  obtain new where n: "push_unvisited (deps_named g x) visited stack = (new @ visited, new @ stack)"
    "distinct new" "set new = set (deps_named g x) - set visited"
    by (rule push_unvisited_new)
  have x: "x = i \<or> (x, i) \<in> (dep_rel g)\<^sup>+" using "2.prems" by (auto simp: dfs_ok_def)
  then have "(d, i) \<in> (dep_rel g)\<^sup>+" if "d \<in> set (deps_named g x)" for d
    using that by (auto intro: trancl_into_trancl2)
  then have "dfs_ok g i (new @ visited) (new @ stack)"
    using "2.prems" n(2,3) by (auto simp: dfs_ok_def)
  then show ?case using "2.IH"[OF n(1)[symmetric] refl] n(1) by simp
qed

lemma transitive_dependencies_correct:
  "set (transitive_dependencies g i) = {d. (d, i) \<in> (dep_rel g)\<^sup>+}"
  "distinct (transitive_dependencies g i)" "sorted (transitive_dependencies g i)"
  using dfs_deps_correct[of g i "[]" "[i]"] by (simp_all add: transitive_dependencies_def dfs_ok_def)

subsection \<open>Chains of dependencies\<close>

text \<open>A chain leads from a dependency to a dependent; it is written in build order.\<close>

fun dep_chain :: "lockless_graph \<Rightarrow> string list \<Rightarrow> bool" where
  "dep_chain g [] = True"
| "dep_chain g [i] = True"
| "dep_chain g (d # i # p) \<longleftrightarrow> d \<in> set (deps_named g i) \<and> dep_chain g (i # p)"

definition chain_weight :: "lockless_graph \<Rightarrow> string list \<Rightarrow> nat" where
  "chain_weight g p = sum_list (map (weight_of g) p)"

lemma dep_chain_snoc: "dep_chain g (p @ [i]) \<longleftrightarrow> p = [] \<or> dep_chain g p \<and> last p \<in> set (deps_named g i)"
  by (induction g p rule: dep_chain.induct) auto

lemma chain_weight_snoc [simp]: "chain_weight g (p @ [i]) = chain_weight g p + weight_of g i"
  by (simp add: chain_weight_def)

lemma chain_weight_Nil [simp]: "chain_weight g [] = 0"
  by (simp add: chain_weight_def)

text \<open>No cycle below a node.\<close>

definition below_acyclic :: "lockless_graph \<Rightarrow> string \<Rightarrow> bool" where
  "below_acyclic g i \<longleftrightarrow> (\<forall>x. (x, i) \<in> (dep_rel g)\<^sup>* \<longrightarrow> (x, x) \<notin> (dep_rel g)\<^sup>+)"

lemma below_acyclicI:
  assumes "\<And>d. d \<in> set (deps_named g i) \<Longrightarrow> below_acyclic g d"
  shows "below_acyclic g i"
  unfolding below_acyclic_def
proof (intro allI impI notI)
  fix x
  assume x: "(x, i) \<in> (dep_rel g)\<^sup>*" and cyc: "(x, x) \<in> (dep_rel g)\<^sup>+"
  have "\<exists>d. d \<in> set (deps_named g i) \<and> (x, d) \<in> (dep_rel g)\<^sup>*"
  proof (cases "x = i")
    case True
    then obtain d where "(x, d) \<in> (dep_rel g)\<^sup>*" "(d, i) \<in> dep_rel g" using cyc by (auto dest: tranclD2)
    then show ?thesis by auto
  next
    case False
    then have "(x, i) \<in> (dep_rel g)\<^sup>+" using x by (simp add: rtrancl_eq_or_trancl)
    then show ?thesis by (auto dest!: tranclD2)
  qed
  then show False using assms cyc by (auto simp: below_acyclic_def)
qed

lemma chain_reaches: "dep_chain g p \<Longrightarrow> p \<noteq> [] \<Longrightarrow> x \<in> set p \<Longrightarrow> (x, last p) \<in> (dep_rel g)\<^sup>*"
proof (induction p rule: rev_induct)
  case (snoc i p)
  then show ?case
    by (cases "x = i"; cases "p = []") (auto simp: dep_chain_snoc intro: rtrancl_into_rtrancl)
qed simp

lemma chain_distinct: "dep_chain g p \<Longrightarrow> p \<noteq> [] \<Longrightarrow> below_acyclic g (last p) \<Longrightarrow> distinct p"
proof (induction p rule: rev_induct)
  case (snoc i p)
  show ?case
  proof (cases "p = []")
    case False
    then have c: "dep_chain g p" "(last p, i) \<in> dep_rel g" using snoc.prems(1) by (auto simp: dep_chain_snoc)
    have i: "below_acyclic g i" using snoc.prems(3) by simp
    then have "below_acyclic g (last p)"
      using c(2) unfolding below_acyclic_def by (meson rtrancl.rtrancl_into_rtrancl)
    moreover have "i \<notin> set p"
    proof
      assume "i \<in> set p"
      then have "(i, i) \<in> (dep_rel g)\<^sup>+" using chain_reaches[OF c(1) False] c(2) by (meson rtrancl_into_trancl1)
      then show False using i by (auto simp: below_acyclic_def)
    qed
    ultimately show ?thesis using snoc.IH[OF c(1) False] by simp
  qed simp
qed simp

text \<open>The heaviest chain that ends at a node.\<close>

definition heaviest_at :: "lockless_graph \<Rightarrow> string \<Rightarrow> nat \<Rightarrow> string list \<Rightarrow> bool" where
  "heaviest_at g i w p \<longleftrightarrow> p \<noteq> [] \<and> last p = i \<and> dep_chain g p \<and> chain_weight g p = w \<and>
     (\<forall>q. q \<noteq> [] \<longrightarrow> last q = i \<longrightarrow> dep_chain g q \<longrightarrow> chain_weight g q \<le> w)"

text \<open>What the loop over the dependencies \<open>ds\<close> has found.\<close>

definition heaviest_of :: "lockless_graph \<Rightarrow> string set \<Rightarrow> nat \<Rightarrow> string list \<Rightarrow> bool" where
  "heaviest_of g D w p \<longleftrightarrow> dep_chain g p \<and> chain_weight g p = w \<and> (p = [] \<or> last p \<in> D) \<and>
     (\<forall>q. q \<noteq> [] \<longrightarrow> last q \<in> D \<longrightarrow> dep_chain g q \<longrightarrow> chain_weight g q \<le> w)"

lemma heaviest_of_empty: "heaviest_of g {} 0 []"
  by (simp add: heaviest_of_def)

lemma heaviest_of_insert:
  assumes "heaviest_of g D w p" "heaviest_at g d v q"
  shows "heaviest_of g (insert d D) (if w < v then v else w) (if w < v then q else p)"
  using assms unfolding heaviest_of_def heaviest_at_def
  by (auto simp: not_less intro: le_trans)

lemma heaviest_at_node:
  assumes "heaviest_of g (set (deps_named g i)) w p"
  shows "heaviest_at g i (w + weight_of g i) (p @ [i])"
  unfolding heaviest_at_def
proof (intro conjI allI impI)
  show "dep_chain g (p @ [i])" using assms by (auto simp: heaviest_of_def dep_chain_snoc)
  fix q
  assume q: "q \<noteq> []" "last q = i" "dep_chain g q"
  define r where "r = butlast q"
  have r: "q = r @ [i]" using append_butlast_last_id[OF q(1)] q(2) by (simp add: r_def)
  then show "chain_weight g q \<le> w + weight_of g i"
    using q(3) assms by (cases "r = []") (auto simp: heaviest_of_def dep_chain_snoc chain_weight_def)
qed (use assms in \<open>simp_all add: heaviest_of_def\<close>)

lemma chain_weight_le:
  "distinct (hm_keys g) \<Longrightarrow> distinct p \<Longrightarrow> chain_weight g p \<le> hm_sum execution_weight g"
proof (induction p arbitrary: g)
  case (Cons i p)
  have "map (weight_of (hm_remove i g)) p = map (weight_of g) p"
    using Cons.prems(2) by (intro map_cong) (auto simp: weight_of_def)
  then have "chain_weight g p \<le> hm_sum execution_weight (hm_remove i g)"
    using Cons.IH[of "hm_remove i g"] Cons.prems unfolding chain_weight_def
    by (simp add: distinct_removeAll del: map_eq_conv)
  moreover have "hm_sum execution_weight (hm_remove i g) + weight_of g i \<le> hm_sum execution_weight g"
  proof (cases "hm_get g i")
    case None
    then have "hm_remove i g = g" by (simp add: delete_id map_of_eq_None_iff)
    then show ?thesis using None by (simp add: weight_of_def)
  next
    case (Some n)
    then show ?thesis
      using hm_sum_remove[OF Cons.prems(1) Some, of execution_weight] by (simp add: weight_of_def)
  qed
  ultimately show ?case by (simp add: chain_weight_def)
qed (simp add: chain_weight_def)

subsection \<open>The recursion\<close>

definition memo_ok :: "lockless_graph \<Rightarrow> path_memo \<Rightarrow> bool" where
  "memo_ok g memo \<longleftrightarrow> (\<forall>i w p. hm_get memo i = Some (w, p) \<longrightarrow> heaviest_at g i w p \<and> below_acyclic g i)"

definition graph_ok :: "lockless_graph \<Rightarrow> bool" where
  "graph_ok g \<longleftrightarrow> distinct (hm_keys g) \<and> hm_sum execution_weight g \<le> u64_max"

text \<open>The nodes being visited are those on the way down to \<open>i\<close>, and the depth suffices.\<close>

definition call_ok :: "lockless_graph \<Rightarrow> nat \<Rightarrow> string \<Rightarrow> string list \<Rightarrow> bool" where
  "call_ok g depth i visiting \<longleftrightarrow>
     (\<forall>v \<in> set visiting. (i, v) \<in> (dep_rel g)\<^sup>+) \<and> set visiting \<subseteq> set (hm_keys g) \<and> distinct visiting \<and>
     length g < depth + length visiting"

definition path_result ::
  "lockless_graph \<Rightarrow> string \<Rightarrow> (lockless_error + (nat \<times> string list) \<times> path_memo) option \<Rightarrow> bool"
where
  "path_result g i r \<longleftrightarrow>
     (case r of
        None \<Rightarrow> False
      | Some (Inl (Cycle x)) \<Rightarrow> (x, x) \<in> (dep_rel g)\<^sup>+
      | Some (Inr ((w, p), memo')) \<Rightarrow> memo_ok g memo' \<and> heaviest_at g i w p \<and> below_acyclic g i)"

definition deps_result ::
  "lockless_graph \<Rightarrow> string set \<Rightarrow> string set \<Rightarrow> (lockless_error + (nat \<times> string list) \<times> path_memo) option \<Rightarrow> bool"
where
  "deps_result g D N r \<longleftrightarrow>
     (case r of
        None \<Rightarrow> False
      | Some (Inl (Cycle x)) \<Rightarrow> (x, x) \<in> (dep_rel g)\<^sup>+
      | Some (Inr ((w, p), memo')) \<Rightarrow> memo_ok g memo' \<and> heaviest_of g D w p \<and> (\<forall>d \<in> N. below_acyclic g d))"

lemma deps_result_insert: "deps_result g D N r \<Longrightarrow> below_acyclic g d \<Longrightarrow> deps_result g D (insert d N) r"
  by (auto simp: deps_result_def split: option.splits sum.splits lockless_error.splits)

lemma visiting_short: "set visiting \<subseteq> set (hm_keys g) \<Longrightarrow> distinct visiting \<Longrightarrow> length visiting \<le> length g"
  using card_mono[of "set (hm_keys g)" "set visiting"] card_length[of "hm_keys g"]
  by (simp add: distinct_card)

lemma longest_path_ok:
  "graph_ok g \<Longrightarrow> memo_ok g memo \<Longrightarrow> call_ok g depth i visiting \<Longrightarrow>
     path_result g i (longest_path g depth i memo visiting)"
  "graph_ok g \<Longrightarrow> memo_ok g memo \<Longrightarrow> (\<And>d. d \<in> set ds \<Longrightarrow> call_ok g depth d visiting) \<Longrightarrow>
     heaviest_of g D (fst best) (snd best) \<Longrightarrow>
     deps_result g (D \<union> set ds) (set ds) (longest_dep g depth ds best memo visiting)"
proof (induction g depth i memo visiting and g depth ds best memo visiting arbitrary: and D rule: longest_path_longest_dep.induct)
  case (1 g i memo visiting)
  then show ?case using visiting_short[of visiting g] by (simp add: call_ok_def)
next
  case (2 g depth i memo visiting)
  show ?case
  proof (cases "hm_get memo i")
    case (Some c)
    then show ?thesis using "2.prems" by (cases c) (simp add: path_result_def memo_ok_def)
  next
    case no_memo: None
    show ?thesis
    proof (cases "i \<in> set visiting")
      case True
      then show ?thesis using no_memo "2.prems"(3) by (simp add: path_result_def call_ok_def)
    next
      case fresh: False
      show ?thesis
      proof (cases "hm_get g i")
        case None
        then have "deps_named g i = []" "weight_of g i = 0" by (simp_all add: deps_named_def weight_of_def)
        then have "heaviest_at g i 0 [i]" "below_acyclic g i"
          using heaviest_at_node[of g i 0 "[]"] heaviest_of_empty[of g] by (auto intro: below_acyclicI)
        then show ?thesis using None no_memo fresh "2.prems"(2) by (simp add: path_result_def)
      next
        case (Some n)
        then have n: "deps_named g i = dependencies n" "weight_of g i = execution_weight n"
          by (simp_all add: deps_named_def weight_of_def)
        have key: "i \<in> set (hm_keys g)" using hm_get_key[OF Some] by simp
        have "call_ok g depth d (i # visiting)" if d: "d \<in> set (dependencies n)" for d
        proof -
          have e: "(d, i) \<in> dep_rel g" using d n(1) by simp
          show ?thesis
            using "2.prems"(3) fresh key trancl_into_trancl2[OF e] r_into_trancl[OF e]
            by (simp add: call_ok_def del: dep_rel_iff)
        qed
        then have R: "deps_result g (set (dependencies n)) (set (dependencies n))
            (longest_dep g depth (dependencies n) (0, []) memo (i # visiting))"
          using "2.IH"[OF no_memo fresh Some "2.prems"(1,2), of "{}"] heaviest_of_empty[of g] by simp
        show ?thesis
        proof (cases "longest_dep g depth (dependencies n) (0, []) memo (i # visiting)")
          case None
          then show ?thesis using R by (simp add: deps_result_def)
        next
          case r: (Some r)
          show ?thesis
          proof (cases r)
            case (Inl e)
            then show ?thesis
              using R r no_memo fresh Some by (cases e) (simp add: deps_result_def path_result_def)
          next
            case (Inr b)
            obtain w p memo' where b: "b = ((w, p), memo')" by (metis prod.exhaust)
            have h: "heaviest_at g i (w + weight_of g i) (p @ [i])" and a: "below_acyclic g i"
              and m: "memo_ok g memo'"
              using R by (auto simp: deps_result_def r Inr b n(1) intro: heaviest_at_node below_acyclicI)
            have "distinct (p @ [i])" using h a chain_distinct[of g "p @ [i]"] by (auto simp: heaviest_at_def)
            then have "w + weight_of g i \<le> u64_max"
              using chain_weight_le[of g "p @ [i]"] "2.prems"(1) h by (auto simp: graph_ok_def heaviest_at_def)
            then show ?thesis
              using h a m no_memo fresh Some r
              by (auto simp: Inr b n(2) path_result_def memo_ok_def Let_def)
          qed
        qed
      qed
    qed
  qed
next
  case (3 g depth best memo visiting)
  then show ?case by (cases best) (simp add: deps_result_def)
next
  case (4 g depth d ds best memo visiting)
  have P: "path_result g d (longest_path g depth d memo visiting)"
    using "4.IH"(1) "4.prems" by simp
  show ?case
  proof (cases "longest_path g depth d memo visiting")
    case None
    then show ?thesis using P by (simp add: path_result_def)
  next
    case r: (Some r)
    show ?thesis
    proof (cases r)
      case (Inl e)
      then show ?thesis using P r by (cases e) (simp add: deps_result_def path_result_def)
    next
      case (Inr b)
      obtain w p memo' where b: "b = ((w, p), memo')" by (metis prod.exhaust)
      have P': "memo_ok g memo'" "heaviest_at g d w p" "below_acyclic g d"
        using P by (simp_all add: path_result_def r Inr b)
      define best' where "best' = (if fst best < w then (w, p) else best)"
      have "heaviest_of g (insert d D) (fst best') (snd best')"
        using heaviest_of_insert[OF "4.prems"(4) P'(2)] by (auto simp: best'_def split: if_splits)
      then have "deps_result g (insert d D \<union> set ds) (set ds) (longest_dep g depth ds best' memo' visiting)"
        using "4.IH"(2)[OF r Inr b[symmetric] refl "4.prems"(1) P'(1), of "insert d D"] "4.prems"(3)
        by (simp add: best'_def)
      moreover have "longest_dep g depth (d # ds) best memo visiting = longest_dep g depth ds best' memo' visiting"
        using r Inr b by (simp add: best'_def)
      ultimately show ?thesis using deps_result_insert[OF _ P'(3)] by simp
    qed
  qed
qed

lemma best_of_ids_ok:
  assumes "graph_ok g" "memo_ok g memo" "heaviest_of g D (fst best) (snd best)"
  shows "case best_of_ids g ids best memo of
     None \<Rightarrow> False
   | Some (Inl (Cycle x)) \<Rightarrow> (x, x) \<in> (dep_rel g)\<^sup>+
   | Some (Inr p) \<Rightarrow> (\<exists>w. heaviest_of g (D \<union> set ids) w p) \<and> (\<forall>i \<in> set ids. below_acyclic g i)"
  using assms
proof (induction ids arbitrary: D best memo)
  case Nil
  then show ?case by auto
next
  case (Cons i ids)
  have P: "path_result g i (longest_path g (Suc (length g)) i memo [])"
    by (rule longest_path_ok(1)[OF Cons.prems(1,2)]) (simp add: call_ok_def)
  show ?case
  proof (cases "longest_path g (Suc (length g)) i memo []")
    case None
    then show ?thesis using P by (simp add: path_result_def)
  next
    case r: (Some r)
    show ?thesis
    proof (cases r)
      case (Inl e)
      then show ?thesis using P r by (cases e) (simp add: path_result_def)
    next
      case (Inr b)
      obtain w p memo' where b: "b = ((w, p), memo')" by (metis prod.exhaust)
      have P': "memo_ok g memo'" "heaviest_at g i w p" "below_acyclic g i"
        using P unfolding r Inr b by (simp_all add: path_result_def)
      define best' where "best' = (if fst best < w then (w, p) else best)"
      have h: "heaviest_of g (insert i D) (fst best') (snd best')"
        using heaviest_of_insert[OF Cons.prems(3) P'(2)] by (auto simp: best'_def split: if_splits)
      have e: "best_of_ids g (i # ids) best memo = best_of_ids g ids best' memo'"
        using r Inr b by (simp add: best'_def del: longest_path.simps)
      show ?thesis
        using Cons.IH[OF Cons.prems(1) P'(1) h] P'(3) unfolding e
        by (auto split: option.splits sum.splits lockless_error.splits)
    qed
  qed
qed

text \<open>
  C21. \<open>compute_critical_path\<close> always answers: with the error exactly when the graph has a
  cycle (of which the error names a node), and otherwise with a chain of dependencies, in build
  order, that no other chain outweighs.
\<close>

theorem compute_critical_path_correct:
  assumes "distinct (hm_keys g)" "hm_sum execution_weight g \<le> u64_max"
  shows "case compute_critical_path g of
     None \<Rightarrow> False
   | Some (Inl (Cycle x)) \<Rightarrow> (x, x) \<in> (dep_rel g)\<^sup>+
   | Some (Inr p) \<Rightarrow> acyclic (dep_rel g) \<and> dep_chain g p \<and>
       (\<forall>q. dep_chain g q \<longrightarrow> chain_weight g q \<le> chain_weight g p)"
proof -
  have ok: "graph_ok g" using assms by (simp add: graph_ok_def)
  have "memo_ok g []" by (simp add: memo_ok_def)
  note B = best_of_ids_ok[OF ok this, of "{}" "(0, [])" "sort (hm_keys g)", simplified, OF heaviest_of_empty]
  have not_key: "i \<notin> fst ` set g \<Longrightarrow> deps_named g i = [] \<and> weight_of g i = 0" for i
    by (simp add: deps_named_def weight_of_def map_of_eq_None_iff[symmetric])
  have *: "acyclic (dep_rel g) \<and> (\<forall>q. dep_chain g q \<longrightarrow> chain_weight g q \<le> chain_weight g p) \<and> dep_chain g p"
    if "heaviest_of g (fst ` set g) w p" "\<forall>i \<in> fst ` set g. below_acyclic g i" for w p
  proof (intro conjI allI impI)
    show "acyclic (dep_rel g)"
      unfolding acyclic_def
    proof (intro allI notI)
      fix x
      assume x: "(x, x) \<in> (dep_rel g)\<^sup>+"
      then obtain d where "d \<in> set (deps_named g x)" by (auto dest: tranclD2)
      then have "x \<in> fst ` set g" using not_key[of x] by (cases "x \<in> fst ` set g") simp_all
      then show False using that(2) x by (auto simp: below_acyclic_def)
    qed
    show "dep_chain g p" using that(1) by (simp add: heaviest_of_def)
    fix q
    assume q: "dep_chain g q"
    show "chain_weight g q \<le> chain_weight g p"
    proof (cases "q = [] \<or> last q \<in> fst ` set g")
      case True
      then show ?thesis using that(1) q unfolding heaviest_of_def by (cases "q = []") (simp, blast)
    next
      case False
      then obtain r where r: "q = r @ [last q]" by (metis append_butlast_last_id)
      then have "r = []" using q not_key[of "last q"] False dep_chain_snoc[of g r "last q"] by auto
      then have "chain_weight g q = weight_of g (last q)" using r chain_weight_snoc[of g "[]" "last q"] by simp
      then show ?thesis using not_key[of "last q"] False by simp
    qed
  qed
  show ?thesis
    using B * unfolding compute_critical_path_def
    by (auto split: option.splits sum.splits lockless_error.splits)
qed

definition heavy_chain :: lockless_graph where
  "heavy_chain =
     (let g = insert_node ''a'' [] 1 []; g = insert_node ''b'' [] 1 g; g = insert_node ''c'' [''a''] 1 g;
          g = insert_node ''d'' [''b''] 100 g
      in insert_node ''e'' [''c'', ''d''] 1 g)"

theorem compute_critical_path_correct_witness:
  "compute_critical_path heavy_chain = Some (Inr [''b'', ''d'', ''e'']) \<and> acyclic (dep_rel heavy_chain)"
proof -
  have c: "compute_critical_path heavy_chain = Some (Inr [''b'', ''d'', ''e''])" by code_simp
  have "distinct (hm_keys heavy_chain)" "hm_sum execution_weight heavy_chain \<le> u64_max" by code_simp+
  from compute_critical_path_correct[OF this] c show ?thesis by simp
qed

subsection \<open>Insertion\<close>

text \<open>Every node carries its own name, and the reverse edges are exactly the edges turned round.\<close>

definition revs_named :: "lockless_graph \<Rightarrow> string \<Rightarrow> string list" where
  "revs_named g i = (case hm_get g i of None \<Rightarrow> [] | Some n \<Rightarrow> reverse_dependencies n)"

definition lockless_ok :: "lockless_graph \<Rightarrow> bool" where
  "lockless_ok g \<longleftrightarrow>
     (\<forall>i n. hm_get g i = Some n \<longrightarrow> ln_id n = i) \<and>
     (\<forall>i d. d \<in> set (deps_named g i) \<longleftrightarrow> i \<in> set (revs_named g d)) \<and> (\<forall>d. distinct (revs_named g d))"

definition named_ok :: "lockless_graph \<Rightarrow> bool" where
  "named_ok g \<longleftrightarrow> (\<forall>i n. hm_get g i = Some n \<longrightarrow> ln_id n = i)"

lemma drop_reverse_effect:
  "deps_named (drop_reverse i d g) x = deps_named g x" "weight_of (drop_reverse i d g) x = weight_of g x"
  "revs_named (drop_reverse i d g) x = (if x = d then filter (\<lambda>y. y \<noteq> i) (revs_named g x) else revs_named g x)"
  "named_ok g \<Longrightarrow> named_ok (drop_reverse i d g)"
  by (auto simp: drop_reverse_def deps_named_def weight_of_def revs_named_def named_ok_def split: option.splits)

lemma drop_reverses_effect:
  "deps_named (foldl (\<lambda>g d. drop_reverse i d g) g ds) x = deps_named g x"
  "weight_of (foldl (\<lambda>g d. drop_reverse i d g) g ds) x = weight_of g x"
  "revs_named (foldl (\<lambda>g d. drop_reverse i d g) g ds) x =
     (if x \<in> set ds then filter (\<lambda>y. y \<noteq> i) (revs_named g x) else revs_named g x)"
  "named_ok g \<Longrightarrow> named_ok (foldl (\<lambda>g d. drop_reverse i d g) g ds)"
  by (induction ds arbitrary: g) (auto simp: drop_reverse_effect)

lemma add_reverse_effect:
  "deps_named (add_reverse i d g) x = deps_named g x" "weight_of (add_reverse i d g) x = weight_of g x"
  "revs_named (add_reverse i d g) x =
     (if x = d \<and> i \<notin> set (revs_named g d) then revs_named g d @ [i] else revs_named g x)"
  "named_ok g \<Longrightarrow> named_ok (add_reverse i d g)"
  by (auto simp: add_reverse_def upsert_def default_node_def deps_named_def weight_of_def revs_named_def named_ok_def
      split: option.splits)

lemma add_reverses_effect:
  "deps_named (foldl (\<lambda>g d. add_reverse i d g) g ds) x = deps_named g x"
  "weight_of (foldl (\<lambda>g d. add_reverse i d g) g ds) x = weight_of g x"
  "set (revs_named (foldl (\<lambda>g d. add_reverse i d g) g ds) x) =
     (if x \<in> set ds then insert i (set (revs_named g x)) else set (revs_named g x))"
  "(\<forall>x. distinct (revs_named g x)) \<Longrightarrow> distinct (revs_named (foldl (\<lambda>g d. add_reverse i d g) g ds) x)"
  "named_ok g \<Longrightarrow> named_ok (foldl (\<lambda>g d. add_reverse i d g) g ds)"
  by (induction ds arbitrary: g) (auto simp: add_reverse_effect)

text \<open>
  Inserting a node, for the first time or again, replaces its dependencies and weight, leaves
  those of all others alone, and keeps the reverse edges exact: no stale and no duplicate ones.
\<close>

theorem insert_node_correct:
  assumes "lockless_ok g"
  shows "lockless_ok (insert_node i ds w g) \<and>
    deps_named (insert_node i ds w g) = (deps_named g)(i := ds) \<and>
    weight_of (insert_node i ds w g) = (weight_of g)(i := w)"
proof -
  define g1 where "g1 = foldl (\<lambda>g d. drop_reverse i d g) g (deps_named g i)"
  define g2 where "g2 = upsert i (\<lambda>n. n\<lparr>ln_id := i, dependencies := ds, execution_weight := w\<rparr>) g1"
  have g: "insert_node i ds w g = foldl (\<lambda>g d. add_reverse i d g) g2 ds"
    by (simp add: insert_node_def g2_def g1_def Let_def deps_named_def)
  have inv: "named_ok g" "\<And>i d. d \<in> set (deps_named g i) \<longleftrightarrow> i \<in> set (revs_named g d)"
    "\<And>d. distinct (revs_named g d)"
    using assms by (simp_all add: lockless_ok_def named_ok_def)
  have e2: "deps_named g2 x = (if x = i then ds else deps_named g1 x)" "weight_of g2 x = (if x = i then w else weight_of g1 x)"
    "revs_named g2 x = revs_named g1 x" "named_ok g1 \<Longrightarrow> named_ok g2" for x
    by (auto simp: g2_def upsert_def default_node_def deps_named_def weight_of_def revs_named_def named_ok_def
        split: option.splits)
  note e1 = drop_reverses_effect[where i = i and g = g and ds = "deps_named g i", folded g1_def]
  have revs: "set (revs_named g2 x) = set (revs_named g x) - {i}" for x
    using inv(2)[of x i] by (auto simp: e2 e1)
  have dist: "distinct (revs_named g2 x)" for x
    using inv(3) by (simp add: e2 e1)
  have deps: "deps_named (insert_node i ds w g) x = (if x = i then ds else deps_named g x)" for x
    by (simp add: g add_reverses_effect e2 e1)
  have "d \<in> set (deps_named (insert_node i ds w g) j) \<longleftrightarrow> j \<in> set (revs_named (insert_node i ds w g) d)" for j d
    using inv(2)[of d j] unfolding deps by (simp add: g add_reverses_effect revs)
  moreover have "named_ok (insert_node i ds w g)"
    using inv(1) by (simp add: g add_reverses_effect e2 e1)
  moreover have "distinct (revs_named (insert_node i ds w g) d)" for d
    using add_reverses_effect(4)[of g2] dist by (simp add: g)
  ultimately show ?thesis
    by (auto simp: lockless_ok_def named_ok_def deps fun_eq_iff g add_reverses_effect e2 e1)
qed

end
