(* ===== verification/Cas_Chunking.thy ===== *)
theory Cas_Chunking
  imports Fish_Prelude "HOL-Library.Word"
begin

text \<open>
  Content-defined chunking, \<open>FastCdcChunker\<close> of \<open>fish-cas/src/chunking.rs\<close>: data is cut where a
  hash of the next eight bytes is a multiple of the average size, within the minimal and maximal
  size. BLAKE3 is the parameter \<open>digest\<close>. The chunk map of \<open>reconstruct_from_chunks\<close> is a map
  from digests to bytes.
\<close>

record 'h chunk =
  ch_hash :: 'h
  ch_offset :: nat
  ch_length :: nat
  ch_data :: "8 word list"

record 'h chunk_manifest =
  total_size :: nat
  chunk_hashes :: "'h list"
  chunk_lengths :: "nat list"

record chunker =
  min_size :: nat
  avg_size :: nat
  max_chunk :: nat

definition default_chunker :: chunker where
  "default_chunker = \<lparr>min_size = 16 * 1024, avg_size = 64 * 1024, max_chunk = 256 * 1024\<rparr>"

subsection \<open>Cutting\<close>

text \<open>The hash of a window, with the wrap-around of \<open>u64\<close>.\<close>

definition window_hash :: "8 word list \<Rightarrow> 64 word" where
  "window_hash w = foldl (\<lambda>h b. h * 0x5bd1e995 + ucast b) 0 w"

definition is_boundary :: "chunker \<Rightarrow> 8 word list \<Rightarrow> bool" where
  "is_boundary c w \<longleftrightarrow> unat (window_hash w) mod max (avg_size c) 1 = 0"

text \<open>The inner loop: the first boundary from \<open>pos\<close> on, or the limit; \<open>rest\<close> is the data from the chunk's offset on.\<close>

function find_cut :: "chunker \<Rightarrow> 8 word list \<Rightarrow> nat \<Rightarrow> nat \<Rightarrow> nat" where
  "find_cut c rest limit pos =
     (if pos < limit then
        if is_boundary c (take 8 (drop pos rest)) then pos else find_cut c rest limit (pos + 1)
      else pos)"
  by pat_completeness auto
termination find_cut
  by (relation "measure (\<lambda>(c, rest, limit, pos). limit - pos)") auto

declare find_cut.simps [simp del]

definition chunk_len :: "chunker \<Rightarrow> 8 word list \<Rightarrow> nat" where
  "chunk_len c rest =
     (let remaining = length rest;
          n = (if remaining \<le> min_size c then remaining
               else find_cut c rest (min remaining (max_chunk c)) (min_size c))
      in if n = 0 then remaining else n)"

lemma find_cut_bounds: "pos \<le> find_cut c rest limit pos \<and> find_cut c rest limit pos \<le> max pos limit"
proof (induction c rest limit pos rule: find_cut.induct)
  case (1 c rest limit pos)
  show ?case
    using 1 unfolding find_cut.simps[of c rest limit pos] by (auto simp: max_def split: if_splits)
qed

lemma chunk_len_bounds:
  assumes "rest \<noteq> []"
  shows "0 < chunk_len c rest" "chunk_len c rest \<le> length rest"
    "0 < min_size c \<Longrightarrow> chunk_len c rest \<le> max (min_size c) (max_chunk c)"
    "min_size c < length rest \<Longrightarrow> min_size c \<le> chunk_len c rest"
  using assms find_cut_bounds[of "min_size c" c rest "min (length rest) (max_chunk c)"]
  by (auto simp: chunk_len_def Let_def)

text \<open>The outer loop, from \<open>offset\<close>, of which \<open>rest\<close> is the data still to be cut.\<close>

function cut_chunks ::
  "(8 word list \<Rightarrow> 'h) \<Rightarrow> chunker \<Rightarrow> nat \<Rightarrow> 8 word list \<Rightarrow> 'h chunk list"
where
  "cut_chunks digest c offset rest =
     (if rest = [] then []
      else
        let n = chunk_len c rest; slice = take n rest
        in \<lparr>ch_hash = digest slice, ch_offset = offset, ch_length = n, ch_data = slice\<rparr>
           # cut_chunks digest c (offset + n) (drop n rest))"
  by pat_completeness auto
termination cut_chunks
  by (relation "measure (\<lambda>(digest, c, offset, rest). length rest)") (auto simp: chunk_len_bounds)

declare cut_chunks.simps [simp del]

definition chunk_data ::
  "(8 word list \<Rightarrow> 'h) \<Rightarrow> chunker \<Rightarrow> 8 word list \<Rightarrow> 'h chunk list \<times> 'h chunk_manifest"
where
  "chunk_data digest c data =
     (if data = [] then
        ([\<lparr>ch_hash = digest [], ch_offset = 0, ch_length = 0, ch_data = []\<rparr>],
         \<lparr>total_size = 0, chunk_hashes = [digest []], chunk_lengths = [0]\<rparr>)
      else
        let chunks = cut_chunks digest c 0 data
        in (chunks, \<lparr>total_size = length data, chunk_hashes = map ch_hash chunks,
                     chunk_lengths = map ch_length chunks\<rparr>))"

text \<open>The missing hash is the error.\<close>

fun collect_chunks :: "('h \<Rightarrow> 8 word list option) \<Rightarrow> 'h list \<Rightarrow> 8 word list \<Rightarrow> 'h + 8 word list" where
  "collect_chunks m [] buffer = Inr buffer"
| "collect_chunks m (h # hs) buffer =
     (case m h of None \<Rightarrow> Inl h | Some bs \<Rightarrow> collect_chunks m hs (buffer @ bs))"

definition reconstruct_from_chunks ::
  "'h chunk_manifest \<Rightarrow> ('h \<Rightarrow> 8 word list option) \<Rightarrow> 'h + 8 word list"
where
  "reconstruct_from_chunks m chunks = collect_chunks chunks (chunk_hashes m) []"

text \<open>The map a receiver builds from the chunks, as the callers do.\<close>

definition chunk_map :: "'h chunk list \<Rightarrow> 'h \<Rightarrow> 8 word list option" where
  "chunk_map chunks = foldl (\<lambda>m ch. m(ch_hash ch \<mapsto> ch_data ch)) Map.empty chunks"

subsection \<open>Properties of the cut\<close>

text \<open>The chunks are consecutive pieces of the data, each named by its digest.\<close>

lemma cut_chunks_pieces:
  "concat (map ch_data (cut_chunks digest c offset rest)) = rest \<and>
   (\<forall>ch \<in> set (cut_chunks digest c offset rest). ch_hash ch = digest (ch_data ch) \<and>
      ch_length ch = length (ch_data ch) \<and> 0 < ch_length ch \<and>
      (0 < min_size c \<longrightarrow> ch_length ch \<le> max (min_size c) (max_chunk c))) \<and>
   (\<forall>ch \<in> set (butlast (cut_chunks digest c offset rest)). min_size c \<le> ch_length ch) \<and>
   (rest \<noteq> [] \<longrightarrow> cut_chunks digest c offset rest \<noteq> [])"
proof (induction digest c offset rest rule: cut_chunks.induct)
  case (1 digest c offset rest)
  show ?case
  proof (cases "rest = []")
    case False
    let ?n = "chunk_len c rest"
    note b = chunk_len_bounds[OF False, of c]
    have e: "cut_chunks digest c offset rest =
        \<lparr>ch_hash = digest (take ?n rest), ch_offset = offset, ch_length = ?n, ch_data = take ?n rest\<rparr>
        # cut_chunks digest c (offset + ?n) (drop ?n rest)"
      using False by (simp add: cut_chunks.simps[of digest c offset rest] Let_def)
    have IH: "concat (map ch_data (cut_chunks digest c (offset + ?n) (drop ?n rest))) = drop ?n rest"
      "\<forall>ch \<in> set (cut_chunks digest c (offset + ?n) (drop ?n rest)). ch_hash ch = digest (ch_data ch) \<and>
        ch_length ch = length (ch_data ch) \<and> 0 < ch_length ch \<and>
        (0 < min_size c \<longrightarrow> ch_length ch \<le> max (min_size c) (max_chunk c))"
      "\<forall>ch \<in> set (butlast (cut_chunks digest c (offset + ?n) (drop ?n rest))). min_size c \<le> ch_length ch"
      using 1[OF False refl refl] by blast+
    have "min_size c \<le> ?n" if "cut_chunks digest c (offset + ?n) (drop ?n rest) \<noteq> []"
    proof (cases "min_size c < length rest")
      case False
      then have "?n = length rest" using b(1) by (auto simp: chunk_len_def Let_def)
      then show ?thesis using that by (simp add: cut_chunks.simps)
    qed (rule b(4))
    then show ?thesis unfolding e using IH b by auto
  qed (simp add: cut_chunks.simps)
qed

text \<open>Where the cuts are: the first boundary behind the minimal size, or the limit.\<close>

lemma find_cut_first:
  "(\<forall>p. pos \<le> p \<and> p < find_cut c rest limit pos \<longrightarrow> \<not> is_boundary c (take 8 (drop p rest))) \<and>
   (find_cut c rest limit pos < limit \<longrightarrow> is_boundary c (take 8 (drop (find_cut c rest limit pos) rest)))"
proof (induction c rest limit pos rule: find_cut.induct)
  case (1 c rest limit pos)
  show ?case
  proof (cases "pos < limit \<and> \<not> is_boundary c (take 8 (drop pos rest))")
    case True
    then have e: "find_cut c rest limit pos = find_cut c rest limit (pos + 1)"
      by (simp add: find_cut.simps[of c rest limit pos])
    have "\<not> is_boundary c (take 8 (drop p rest))" if "pos \<le> p" "p < find_cut c rest limit (pos + 1)" for p
      using 1 True that by (cases "p = pos") auto
    then show ?thesis unfolding e using 1 True by blast
  qed (auto simp: find_cut.simps[of c rest limit pos])
qed

lemma chunk_len_cut:
  assumes "0 < min_size c"
  shows "\<forall>p. min_size c \<le> p \<and> p < chunk_len c rest \<and> min_size c < length rest \<longrightarrow> \<not> is_boundary c (take 8 (drop p rest))"
    "chunk_len c rest < length rest \<Longrightarrow>
       is_boundary c (take 8 (drop (chunk_len c rest) rest)) \<or> max_chunk c \<le> chunk_len c rest"
  using assms find_cut_first[of "min_size c" c rest "min (length rest) (max_chunk c)"]
    find_cut_bounds[of "min_size c" c rest "min (length rest) (max_chunk c)"]
  by (auto simp: chunk_len_def Let_def min_def split: if_splits)

text \<open>Each chunk is the slice of the data that its offset and its length name.\<close>

lemma cut_chunks_slices:
  "i < length (cut_chunks digest c offset rest) \<Longrightarrow>
     ch_offset (cut_chunks digest c offset rest ! i) =
       offset + sum_list (map ch_length (take i (cut_chunks digest c offset rest))) \<and>
     ch_data (cut_chunks digest c offset rest ! i) =
       take (ch_length (cut_chunks digest c offset rest ! i))
         (drop (sum_list (map ch_length (take i (cut_chunks digest c offset rest)))) rest) \<and>
     ch_length (cut_chunks digest c offset rest ! i) =
       chunk_len c (drop (sum_list (map ch_length (take i (cut_chunks digest c offset rest)))) rest)"
proof (induction digest c offset rest arbitrary: i rule: cut_chunks.induct)
  case (1 digest c offset rest)
  show ?case
  proof (cases "rest = []")
    case False
    let ?n = "chunk_len c rest"
    have e: "cut_chunks digest c offset rest =
        \<lparr>ch_hash = digest (take ?n rest), ch_offset = offset, ch_length = ?n, ch_data = take ?n rest\<rparr>
        # cut_chunks digest c (offset + ?n) (drop ?n rest)"
      using False by (simp add: cut_chunks.simps[of digest c offset rest] Let_def)
    show ?thesis
    proof (cases i)
      case (Suc j)
      then have "j < length (cut_chunks digest c (offset + ?n) (drop ?n rest))" using "1.prems" e by simp
      from "1.IH"[OF False refl refl this] show ?thesis
        unfolding e Suc by (simp add: add.assoc add.commute)
    qed (simp add: e)
  qed (use "1.prems" in \<open>simp add: cut_chunks.simps\<close>)
qed

lemma chunk_map_get:
  assumes "\<And>ch. ch \<in> set chunks \<Longrightarrow> ch_hash ch = digest (ch_data ch)"
    "inj_on digest (ch_data ` set chunks)" "ch \<in> set chunks"
  shows "chunk_map chunks (ch_hash ch) = Some (ch_data ch)"
  using assms
proof (induction chunks rule: rev_induct)
  case (snoc x chunks)
  have e: "chunk_map (chunks @ [x]) = (chunk_map chunks)(ch_hash x \<mapsto> ch_data x)"
    by (simp add: chunk_map_def)
  show ?case
  proof (cases "ch_hash ch = ch_hash x")
    case True
    then have "digest (ch_data ch) = digest (ch_data x)" using snoc.prems(1,3) by auto
    then have "ch_data ch = ch_data x"
      by (rule inj_onD[OF snoc.prems(2)]) (use snoc.prems(3) in auto)
    then show ?thesis using True by (simp add: e)
  next
    case False
    then have "chunk_map chunks (ch_hash ch) = Some (ch_data ch)"
      using snoc.prems by (intro snoc.IH) (auto intro: inj_on_subset)
    then show ?thesis using False by (simp add: e)
  qed
qed simp

lemma collect_all:
  "(\<And>ch. ch \<in> set chunks \<Longrightarrow> m (ch_hash ch) = Some (ch_data ch)) \<Longrightarrow>
     collect_chunks m (map ch_hash chunks) buffer = Inr (buffer @ concat (map ch_data chunks))"
  by (induction chunks arbitrary: buffer) auto

lemma collect_missing:
  "x \<in> set cs \<Longrightarrow> m (ch_hash x) = None \<Longrightarrow> \<exists>h. collect_chunks m (map ch_hash cs) buffer = Inl h \<and> m h = None"
  by (induction cs arbitrary: buffer) (auto split: option.splits)

text \<open>
  C22. Cutting loses nothing. Empty data gives one empty chunk. Otherwise every chunk is a non-empty slice of
  the data, the one that its offset and length name; the first is at offset 0, each further one starts where
  the one before ends, and together they are the data. Each is named by its digest and the manifest lists
  the digests and lengths in order. If the minimal size is positive and not above the maximal one, every
  chunk but the last has at least the minimal size, none exceeds the maximal size, and a cut below it is the
  first boundary of the content behind the minimal size. The manifest with the map of the chunks, however it
  was filled, gives the data back, provided the digest does not collide on these chunks. A map that lacks a
  chunk is an error.
\<close>

theorem chunk_roundtrip:
  assumes "chunk_data digest c data = (chunks, manifest)" "inj_on digest (ch_data ` set chunks)"
  shows "concat (map ch_data chunks) = data \<and> total_size manifest = length data \<and>
    chunk_hashes manifest = map ch_hash chunks \<and> chunk_lengths manifest = map ch_length chunks \<and>
    (data = [] \<longrightarrow> length chunks = 1) \<and> (data \<noteq> [] \<longrightarrow> (\<forall>ch \<in> set chunks. 0 < ch_length ch)) \<and>
    (\<forall>i < length chunks.
       ch_offset (chunks ! i) = sum_list (map ch_length (take i chunks)) \<and>
       ch_data (chunks ! i) = take (ch_length (chunks ! i)) (drop (ch_offset (chunks ! i)) data) \<and>
       ch_length (chunks ! i) = length (ch_data (chunks ! i)) \<and>
       ch_hash (chunks ! i) = digest (ch_data (chunks ! i))) \<and>
    (0 < min_size c \<and> min_size c \<le> max_chunk c \<longrightarrow>
       (\<forall>ch \<in> set chunks. ch_length ch \<le> max_chunk c) \<and>
       (\<forall>i. Suc i < length chunks \<longrightarrow> min_size c \<le> ch_length (chunks ! i) \<and>
          (ch_length (chunks ! i) < max_chunk c \<longrightarrow> is_boundary c (take 8 (drop (ch_offset (chunks ! Suc i)) data))) \<and>
          (\<forall>p. min_size c \<le> p \<and> p < ch_length (chunks ! i) \<longrightarrow>
             \<not> is_boundary c (take 8 (drop (ch_offset (chunks ! i) + p) data))))) \<and>
    reconstruct_from_chunks manifest (chunk_map chunks) = Inr data \<and>
    (\<forall>m ch. ch \<in> set chunks \<and> m (ch_hash ch) = None \<longrightarrow>
       (\<exists>h. reconstruct_from_chunks manifest m = Inl h \<and> m h = None))"
proof -
  have c: "concat (map ch_data chunks) = data" "chunk_hashes manifest = map ch_hash chunks"
    "total_size manifest = length data" "chunk_lengths manifest = map ch_length chunks"
    and ch: "\<forall>ch \<in> set chunks. ch_hash ch = digest (ch_data ch) \<and> ch_length ch = length (ch_data ch) \<and>
      (0 < min_size c \<longrightarrow> ch_length ch \<le> max (min_size c) (max_chunk c))"
    and b: "\<forall>ch \<in> set (butlast chunks). min_size c \<le> ch_length ch"
    using assms(1) cut_chunks_pieces[of digest c 0 data]
    by (auto simp: chunk_data_def Let_def split: if_splits)
  have empty: "data = [] \<longrightarrow> length chunks = 1 \<and> chunks ! 0 = \<lparr>ch_hash = digest [], ch_offset = 0, ch_length = 0, ch_data = []\<rparr>"
    and full: "data \<noteq> [] \<Longrightarrow> chunks = cut_chunks digest c 0 data"
    using assms(1) by (auto simp: chunk_data_def Let_def split: if_splits)
  have slice: "ch_offset (chunks ! i) = sum_list (map ch_length (take i chunks)) \<and>
       ch_data (chunks ! i) = take (ch_length (chunks ! i)) (drop (ch_offset (chunks ! i)) data) \<and>
       ch_length (chunks ! i) = length (ch_data (chunks ! i)) \<and>
       ch_hash (chunks ! i) = digest (ch_data (chunks ! i))" if i: "i < length chunks" for i
  proof (cases "data = []")
    case True
    then show ?thesis using empty i by simp
  next
    case False
    note S = cut_chunks_slices[of i digest c 0 data, folded full[OF False], OF i, unfolded add_0]
    have "ch_length (chunks ! i) = length (ch_data (chunks ! i))" "ch_hash (chunks ! i) = digest (ch_data (chunks ! i))"
      using ch nth_mem[OF i] by blast+
    then show ?thesis using S by (simp only:)
  qed
  have cut: "(\<forall>ch \<in> set chunks. ch_length ch \<le> max_chunk c) \<and>
       (\<forall>i. Suc i < length chunks \<longrightarrow> min_size c \<le> ch_length (chunks ! i) \<and>
          (ch_length (chunks ! i) < max_chunk c \<longrightarrow> is_boundary c (take 8 (drop (ch_offset (chunks ! Suc i)) data))) \<and>
          (\<forall>p. min_size c \<le> p \<and> p < ch_length (chunks ! i) \<longrightarrow>
             \<not> is_boundary c (take 8 (drop (ch_offset (chunks ! i) + p) data))))"
    if min: "0 < min_size c \<and> min_size c \<le> max_chunk c"
  proof (intro conjI allI impI)
    show "\<forall>ch \<in> set chunks. ch_length ch \<le> max_chunk c" using ch min by (auto simp: max_def)
    fix i assume i: "Suc i < length chunks"
    let ?off = "ch_offset (chunks ! i)" and ?n = "ch_length (chunks ! i)"
    have "chunks ! i \<in> set (butlast chunks)" using i by (metis One_nat_def Suc_eq_plus1 in_set_conv_nth length_butlast less_diff_conv nth_butlast)
    then show mn: "min_size c \<le> ?n" using b by blast
    have "data \<noteq> []" using empty i by auto
    then have n: "?n = chunk_len c (drop ?off data)"
      using cut_chunks_slices[of i digest c 0 data] full i by simp
    have next_off: "ch_offset (chunks ! Suc i) = ?off + ?n"
      using slice[OF i, THEN conjunct1] slice[of i, THEN conjunct1] i by (simp add: take_Suc_conv_app_nth)
    have "0 < ch_length (chunks ! Suc i)"
      using cut_chunks_pieces[of digest c 0 data] full[OF \<open>data \<noteq> []\<close>] nth_mem[OF i] by auto
    moreover have "ch_length (chunks ! Suc i) \<le> length (drop (ch_offset (chunks ! Suc i)) data)"
      using slice[OF i] by (metis length_take min.cobounded1)
    ultimately have more: "?off + ?n < length data" unfolding next_off length_drop by linarith
    note L = chunk_len_cut[of c "drop ?off data"]
    show "is_boundary c (take 8 (drop (ch_offset (chunks ! Suc i)) data))" if "?n < max_chunk c"
      using L(2) min that more n unfolding next_off by (simp add: add.commute)
    fix p assume p: "min_size c \<le> p \<and> p < ?n"
    moreover have "min_size c < length data - ?off" using more mn by linarith
    ultimately show "\<not> is_boundary c (take 8 (drop (?off + p) data))"
      using L(1) min n by (simp add: add.commute)
  qed
  have "reconstruct_from_chunks manifest (chunk_map chunks) = Inr data"
    using collect_all[of chunks "chunk_map chunks" "[]"] chunk_map_get[OF _ assms(2)] ch c(1,2)
    by (simp add: reconstruct_from_chunks_def)
  moreover have "\<exists>h. reconstruct_from_chunks manifest m = Inl h \<and> m h = None"
    if "x \<in> set chunks" "m (ch_hash x) = None" for m x
    using collect_missing[of x chunks m "[]"] that by (simp add: reconstruct_from_chunks_def c(2))
  moreover have "data \<noteq> [] \<longrightarrow> (\<forall>ch \<in> set chunks. 0 < ch_length ch)"
    using cut_chunks_pieces[of digest c 0 data] full by auto
  ultimately show ?thesis using c empty slice cut by blast
qed

text \<open>Twelve bytes, with a digest that is the identity.\<close>

theorem chunk_roundtrip_witness:
  "\<exists>chunks manifest. chunk_data (\<lambda>bs. bs) \<lparr>min_size = 2, avg_size = 3, max_chunk = 5\<rparr> [7, 1, 2, 3, 9, 9, 1, 4, 4, 5, 6, 2] = (chunks, manifest) \<and>
     1 < length chunks \<and>
     reconstruct_from_chunks manifest (chunk_map chunks) = Inr [7, 1, 2, 3, 9, 9, 1, 4, 4, 5, 6, 2]"
proof -
  let ?d = "[7, 1, 2, 3, 9, 9, 1, 4, 4, 5, 6, 2] :: 8 word list"
  let ?c = "\<lparr>min_size = 2, avg_size = 3, max_chunk = 5\<rparr>"
  obtain chunks manifest where r: "chunk_data (\<lambda>bs. bs) ?c ?d = (chunks, manifest)" by fastforce
  have P: "concat (map ch_data chunks) = ?d" "\<forall>ch \<in> set chunks. ch_length ch \<le> 5"
    "reconstruct_from_chunks manifest (chunk_map chunks) = Inr ?d"
    using chunk_roundtrip[OF r] by (auto simp: inj_on_def)
  have "1 < length chunks"
  proof (rule ccontr)
    assume "\<not> 1 < length chunks"
    then obtain x where "chunks = [x]" using P(1) by (cases chunks) auto
    moreover have "\<forall>ch \<in> set chunks. ch_length ch = length (ch_data ch)"
      using r cut_chunks_pieces[of "\<lambda>bs. bs" ?c 0 ?d] by (auto simp: chunk_data_def Let_def)
    ultimately show False using P(1,2) by simp
  qed
  then show ?thesis using r P(3) by blast
qed

text \<open>
  With a minimal size of zero the maximal size is no bound: a boundary right at the offset makes
  the loop take all that remains.
\<close>

lemma zero_min_size_ignores_max:
  "is_boundary \<lparr>min_size = 0, avg_size = a, max_chunk = 1\<rparr> (take 8 rest) \<Longrightarrow>
     chunk_len \<lparr>min_size = 0, avg_size = a, max_chunk = 1\<rparr> rest = length rest"
  by (simp add: chunk_len_def Let_def find_cut.simps)

end
