(* ===== verification/Cas_Backend.thy ===== *)
theory Cas_Backend
  imports Sample_Format Fish_Prelude Utf8
begin

text \<open>
  The content-addressed store on the local file system: \<open>artifact.rs\<close>, \<open>compression.rs\<close> and
  \<open>LocalCasBackend\<close> of \<open>backend.rs\<close> in \<open>fish-cas\<close>. A file of the store is named by its directory
  (two digits) and its name. BLAKE3, Zstandard and JSON are the fields of \<open>cas_env\<close>; which
  system calls succeed is an argument. A write to a temporary file and its rename are one step; the
  temporary file that a failed write may leave behind is not kept in the state, as its name is neither
  that of an entry nor listed (lemma \<open>temporary_not_listed\<close>).
  \<open>None\<close> is the panic of an overflowing sum.
\<close>

type_synonym artifact_hash = string
type_synonym bytes = "8 word list"

datatype cas_error = Cas_Io | Serialization | Compression | Artifact_Not_Found string | Backend_Error
  | Cas_Config string | Hash_Error string | Network | Auth | Quota_Exceeded nat nat nat | Cancelled

subsection \<open>Compression\<close>

datatype compression_algorithm = No_Compression | Zstd | Zstd_Max | Zstd_Fast

definition algorithm_str :: "compression_algorithm \<Rightarrow> string" where
  "algorithm_str a =
     (case a of No_Compression \<Rightarrow> ''none'' | Zstd \<Rightarrow> ''zstd'' | Zstd_Max \<Rightarrow> ''zstd-max'' | Zstd_Fast \<Rightarrow> ''zstd-fast'')"

definition ascii_lower :: "char \<Rightarrow> char" where
  "ascii_lower c = (let n = of_char c :: nat in if 65 \<le> n \<and> n \<le> 90 then char_of (n + 32) else c)"

definition algorithm_from_str :: "string \<Rightarrow> compression_algorithm option" where
  "algorithm_from_str s =
     (let l = map ascii_lower s in
      if l = ''none'' then Some No_Compression
      else if l = ''zstd'' then Some Zstd
      else if l = ''zstd-max'' then Some Zstd_Max
      else if l = ''zstd-fast'' then Some Zstd_Fast
      else None)"

definition compression_level :: "compression_algorithm \<Rightarrow> nat" where
  "compression_level a = (case a of Zstd_Fast \<Rightarrow> 1 | Zstd_Max \<Rightarrow> 22 | _ \<Rightarrow> 3)"

subsection \<open>Artifacts\<close>

record artifact_metadata =
  m_hash :: artifact_hash
  m_size :: nat
  compressed_size :: "nat option"
  compression :: "string option"
  timestamp :: int
  last_accessed :: "int option"
  artifact_type :: string
  source_info :: string
  tags :: "string list"

record artifact =
  metadata :: artifact_metadata
  data :: bytes
  original_path :: "string option"

text \<open>What the store uses of other code.\<close>

record cas_env =
  digest :: "bytes \<Rightarrow> artifact_hash"
  zstd_encode :: "nat \<Rightarrow> bytes \<Rightarrow> bytes option"
  zstd_decode :: "bytes \<Rightarrow> bytes option"
  to_json :: "artifact_metadata \<Rightarrow> bytes option"
  from_json :: "bytes \<Rightarrow> artifact_metadata option"

definition new_metadata :: "int \<Rightarrow> artifact_hash \<Rightarrow> nat \<Rightarrow> string \<Rightarrow> string \<Rightarrow> artifact_metadata" where
  "new_metadata now h n ty src = \<lparr>m_hash = h, m_size = n, compressed_size = None, compression = None,
     timestamp = now, last_accessed = None, artifact_type = ty, source_info = src, tags = []\<rparr>"

definition with_compression :: "nat \<Rightarrow> string \<Rightarrow> artifact_metadata \<Rightarrow> artifact_metadata" where
  "with_compression n alg m = m\<lparr>compressed_size := Some n, compression := Some alg\<rparr>"

definition with_tags :: "string list \<Rightarrow> artifact_metadata \<Rightarrow> artifact_metadata" where
  "with_tags ts m = m\<lparr>tags := ts\<rparr>"

definition artifact_from_bytes :: "cas_env \<Rightarrow> int \<Rightarrow> bytes \<Rightarrow> string \<Rightarrow> string \<Rightarrow> artifact" where
  "artifact_from_bytes env now bs ty src =
     \<lparr>metadata = new_metadata now (digest env bs) (length bs) ty src, data = bs, original_path = None\<rparr>"

text \<open>\<open>from_file\<close>: the type is the extension and the source the name of the file, given its name.\<close>

definition artifact_from_file :: "cas_env \<Rightarrow> int \<Rightarrow> string \<Rightarrow> string option \<Rightarrow> bytes \<Rightarrow> artifact" where
  "artifact_from_file env now path file_name bs =
     \<lparr>metadata = new_metadata now (digest env bs) (length bs)
        (case Option.bind file_name (\<lambda>n. snd (split_ext CHR ''.'' n)) of Some e \<Rightarrow> e | None \<Rightarrow> ''binary'')
        (case file_name of Some n \<Rightarrow> n | None \<Rightarrow> ''unknown''),
      data = bs, original_path = Some path\<rparr>"

definition artifact_hash_of :: "artifact \<Rightarrow> artifact_hash" where
  "artifact_hash_of a = m_hash (metadata a)"

definition artifact_size :: "artifact \<Rightarrow> nat" where
  "artifact_size a = m_size (metadata a)"

definition compress :: "cas_env \<Rightarrow> compression_algorithm \<Rightarrow> bytes \<Rightarrow> cas_error + bytes" where
  "compress env a bs =
     (if a = No_Compression then Inr bs
      else case zstd_encode env (compression_level a) bs of None \<Rightarrow> Inl Compression | Some c \<Rightarrow> Inr c)"

definition decompress :: "cas_env \<Rightarrow> compression_algorithm \<Rightarrow> bytes \<Rightarrow> cas_error + bytes" where
  "decompress env a bs =
     (if a = No_Compression then Inr bs
      else case zstd_decode env bs of None \<Rightarrow> Inl Compression | Some d \<Rightarrow> Inr d)"

subsection \<open>Names\<close>

type_synonym cas_path = "string \<times> string"

record local_backend =
  cas_files :: "(cas_path, bytes) hash_map"
  algorithm :: compression_algorithm

definition new_backend :: "(cas_path, bytes) hash_map \<Rightarrow> compression_algorithm \<Rightarrow> local_backend" where
  "new_backend files alg = \<lparr>cas_files = files, algorithm = alg\<rparr>"

definition is_ascii_hexdigit :: "char \<Rightarrow> bool" where
  "is_ascii_hexdigit c \<longleftrightarrow> (let n = of_char c :: nat in
     48 \<le> n \<and> n \<le> 57 \<or> 65 \<le> n \<and> n \<le> 70 \<or> 97 \<le> n \<and> n \<le> 102)"

definition valid_hash :: "artifact_hash \<Rightarrow> bool" where
  "valid_hash h \<longleftrightarrow> length h = 64 \<and> list_all is_ascii_hexdigit h"

definition validate_hash :: "artifact_hash \<Rightarrow> cas_error + unit" where
  "validate_hash h = (if valid_hash h then Inr () else Inl (Cas_Config h))"

definition hash_path :: "artifact_hash \<Rightarrow> cas_error + cas_path" where
  "hash_path h = (case validate_hash h of Inl e \<Rightarrow> Inl e | Inr _ \<Rightarrow> Inr (take 2 h, drop 2 h))"

text \<open>\<open>set_extension\<close> replaces the extension, if any.\<close>

definition metadata_path :: "artifact_hash \<Rightarrow> cas_error + cas_path" where
  "metadata_path h =
     (case hash_path h of
        Inl e \<Rightarrow> Inl e
      | Inr (dir, name) \<Rightarrow> Inr (dir, fst (split_ext CHR ''.'' name) @ ''.meta''))"

subsection \<open>Operations\<close>

datatype store_io = Store_Ok | Mkdir_Io | Data_Io | Meta_Io

definition store :: "cas_env \<Rightarrow> store_io \<Rightarrow> artifact \<Rightarrow> local_backend \<Rightarrow> (cas_error + unit) \<times> local_backend" where
  "store env io a b =
     (let h = artifact_hash_of a in
      if digest env (data a) \<noteq> h then (Inl (Hash_Error h), b)
      else case hash_path h of
        Inl e \<Rightarrow> (Inl e, b)
      | Inr dp \<Rightarrow>
          (case metadata_path h of
             Inl e \<Rightarrow> (Inl e, b)
           | Inr mp \<Rightarrow>
               if io = Mkdir_Io then (Inl Cas_Io, b)
               else case (if algorithm b \<noteq> No_Compression
                          then (case compress env (algorithm b) (data a) of
                                  Inl e \<Rightarrow> Inl e
                                | Inr c \<Rightarrow> Inr (c, Some (length c)))
                          else Inr (data a, None)) of
                 Inl e \<Rightarrow> (Inl e, b)
               | Inr (stored_bytes, c_size) \<Rightarrow>
                   if io = Data_Io then (Inl Cas_Io, b)
                   else
                     let b1 = b\<lparr>cas_files := hm_insert dp stored_bytes (cas_files b)\<rparr>;
                         m = (case c_size of
                                None \<Rightarrow> metadata a
                              | Some n \<Rightarrow> with_compression n (algorithm_str (algorithm b)) (metadata a))
                     in case to_json env m of
                          None \<Rightarrow> (Inl Serialization, b1)
                        | Some json \<Rightarrow>
                            if io = Meta_Io then (Inl Cas_Io, b1)
                            else (Inr (), b1\<lparr>cas_files := hm_insert mp json (cas_files b1)\<rparr>)))"

text \<open>\<open>read_to_string\<close> rejects bytes that are not UTF-8 as an error of the read.\<close>

definition read_meta ::
  "cas_env \<Rightarrow> (cas_path \<Rightarrow> bool) \<Rightarrow> cas_path \<Rightarrow> bytes \<Rightarrow> cas_error + artifact_metadata" where
  "read_meta env readable p json =
     (if \<not> readable p \<or> \<not> valid_utf8 json then Inl Cas_Io
      else case from_json env json of None \<Rightarrow> Inl Serialization | Some m \<Rightarrow> Inr m)"

text \<open>
  Which files can be read, how the write of the access ends, and the current time. The write truncates the
  file before it writes, so a failure can leave a beginning of the text.
\<close>

datatype touch_io = Touched | Not_Opened | Cut_Off nat

record retrieve_io =
  can_read :: "cas_path \<Rightarrow> bool"
  touch :: touch_io
  access_time :: int

definition write_touch :: "touch_io \<Rightarrow> cas_path \<Rightarrow> bytes \<Rightarrow> local_backend \<Rightarrow> local_backend" where
  "write_touch t p json b =
     (case t of
        Touched \<Rightarrow> b\<lparr>cas_files := hm_insert p json (cas_files b)\<rparr>
      | Not_Opened \<Rightarrow> b
      | Cut_Off n \<Rightarrow> b\<lparr>cas_files := hm_insert p (take n json) (cas_files b)\<rparr>)"

definition retrieve ::
  "cas_env \<Rightarrow> retrieve_io \<Rightarrow> artifact_hash \<Rightarrow> local_backend \<Rightarrow> (cas_error + artifact) \<times> local_backend"
where
  "retrieve env io h b =
     (case (hash_path h, metadata_path h) of
        (Inr dp, Inr mp) \<Rightarrow>
          (case (hm_get (cas_files b) dp, hm_get (cas_files b) mp) of
             (Some raw, Some json) \<Rightarrow>
               (case read_meta env (can_read io) mp json of
                  Inl e \<Rightarrow> (Inl e, b)
                | Inr m \<Rightarrow>
                    if \<not> can_read io dp then (Inl Cas_Io, b)
                    else (case (case compression m of
                                  None \<Rightarrow> Inr raw
                                | Some alg \<Rightarrow> decompress env
                                    (case algorithm_from_str alg of None \<Rightarrow> No_Compression | Some x \<Rightarrow> x) raw) of
                       Inl e \<Rightarrow> (Inl e, b)
                     | Inr d \<Rightarrow>
                         if digest env d \<noteq> h \<or> m_hash m \<noteq> h then (Inl (Hash_Error h), b)
                         else
                           let m' = m\<lparr>last_accessed := Some (access_time io)\<rparr>
                           in (Inr \<lparr>metadata = m', data = d, original_path = None\<rparr>,
                               case to_json env m' of
                                 None \<Rightarrow> b
                               | Some json' \<Rightarrow> write_touch (touch io) mp json' b)))
           | _ \<Rightarrow> (Inl (Artifact_Not_Found h), b))
      | (Inl e, _) \<Rightarrow> (Inl e, b)
      | (_, Inl e) \<Rightarrow> (Inl e, b))"

definition cas_metadata ::
  "cas_env \<Rightarrow> (cas_path \<Rightarrow> bool) \<Rightarrow> artifact_hash \<Rightarrow> local_backend \<Rightarrow> cas_error + artifact_metadata"
where
  "cas_metadata env readable h b =
     (case metadata_path h of
        Inl e \<Rightarrow> Inl e
      | Inr mp \<Rightarrow>
          (case hm_get (cas_files b) mp of
             None \<Rightarrow> Inl (Artifact_Not_Found h)
           | Some json \<Rightarrow>
               (case read_meta env readable mp json of
                  Inl e \<Rightarrow> Inl e
                | Inr m \<Rightarrow> if m_hash m \<noteq> h then Inl (Hash_Error h) else Inr m)))"

definition cas_exists :: "artifact_hash \<Rightarrow> local_backend \<Rightarrow> cas_error + bool" where
  "cas_exists h b =
     (case (hash_path h, metadata_path h) of
        (Inr dp, Inr mp) \<Rightarrow> Inr (hm_get (cas_files b) dp \<noteq> None \<and> hm_get (cas_files b) mp \<noteq> None)
      | (Inl e, _) \<Rightarrow> Inl e
      | (_, Inl e) \<Rightarrow> Inl e)"

definition remove_if_exists ::
  "(cas_path \<Rightarrow> bool) \<Rightarrow> cas_path \<Rightarrow> local_backend \<Rightarrow> (cas_error + unit) \<times> local_backend"
where
  "remove_if_exists can p b =
     (if hm_get (cas_files b) p = None then (Inr (), b)
      else if can p then (Inr (), b\<lparr>cas_files := hm_remove p (cas_files b)\<rparr>)
      else (Inl Cas_Io, b))"

definition cas_delete ::
  "(cas_path \<Rightarrow> bool) \<Rightarrow> artifact_hash \<Rightarrow> local_backend \<Rightarrow> (cas_error + unit) \<times> local_backend"
where
  "cas_delete can h b =
     (case (hash_path h, metadata_path h) of
        (Inr dp, Inr mp) \<Rightarrow>
          (case remove_if_exists can dp b of
             (Inl e, b') \<Rightarrow> (Inl e, b')
           | (Inr _, b') \<Rightarrow> remove_if_exists can mp b')
      | (Inl e, _) \<Rightarrow> (Inl e, b)
      | (_, Inl e) \<Rightarrow> (Inl e, b))"

text \<open>The entry of a listed file, in the order the system lists the files.\<close>

definition listed_hash :: "cas_path \<Rightarrow> artifact_hash option" where
  "listed_hash = (\<lambda>(dir, name).
     case split_ext CHR ''.'' name of (stem, ext) \<Rightarrow>
       if ext \<noteq> Some ''meta'' \<and> valid_hash (dir @ stem) then Some (dir @ stem) else None)"

definition cas_list :: "local_backend \<Rightarrow> artifact_hash list" where
  "cas_list b = List.map_filter listed_hash (hm_keys (cas_files b))"

record cas_stats =
  artifact_count :: nat
  total_bytes :: nat
  compressed_bytes :: nat

text \<open>The size the metadata gives, and the size on disk, of an entry that counts.\<close>

definition entry_sizes ::
  "cas_env \<Rightarrow> (cas_path \<Rightarrow> bool) \<Rightarrow> local_backend \<Rightarrow> artifact_hash \<Rightarrow> (nat \<times> nat) option"
where
  "entry_sizes env readable b h =
     (case (hash_path h, metadata_path h) of
        (Inr dp, Inr mp) \<Rightarrow>
          (case (hm_get (cas_files b) dp, hm_get (cas_files b) mp) of
             (Some raw, Some json) \<Rightarrow>
               (case read_meta env readable mp json of
                  Inl _ \<Rightarrow> None
                | Inr m \<Rightarrow> if m_hash m \<noteq> h then None else Some (m_size m, length raw))
           | _ \<Rightarrow> None)
      | _ \<Rightarrow> None)"

definition count_entry ::
  "cas_env \<Rightarrow> (cas_path \<Rightarrow> bool) \<Rightarrow> local_backend \<Rightarrow> cas_stats \<Rightarrow> artifact_hash \<Rightarrow> cas_stats option"
where
  "count_entry env readable b s h =
     (case entry_sizes env readable b h of
        None \<Rightarrow> Some s
      | Some (len, on_disk) \<Rightarrow> do {
          t \<leftarrow> add_u64 (total_bytes s) len;
          Some \<lparr>artifact_count = artifact_count s + 1, total_bytes = t,
                compressed_bytes = compressed_bytes s + on_disk\<rparr>
        })"

definition cas_stats_of :: "cas_env \<Rightarrow> (cas_path \<Rightarrow> bool) \<Rightarrow> local_backend \<Rightarrow> cas_stats option" where
  "cas_stats_of env readable b =
     fold_opt (count_entry env readable b) \<lparr>artifact_count = 0, total_bytes = 0, compressed_bytes = 0\<rparr> (cas_list b)"

subsection \<open>Names are injective\<close>

abbreviation dpath :: "artifact_hash \<Rightarrow> cas_path" where
  "dpath h \<equiv> (take 2 h, drop 2 h)"

abbreviation mpath :: "artifact_hash \<Rightarrow> cas_path" where
  "mpath h \<equiv> (take 2 h, drop 2 h @ ''.meta'')"

lemma no_dot: "valid_hash h \<Longrightarrow> CHR ''.'' \<notin> set h"
  by (auto simp: valid_hash_def list_all_iff is_ascii_hexdigit_def)

lemma no_dot_drop [simp]: "valid_hash h \<Longrightarrow> CHR ''.'' \<notin> set (drop n h)"
  using no_dot[of h] by (auto dest: in_set_dropD)

lemma paths [simp]: "valid_hash h \<Longrightarrow> hash_path h = Inr (dpath h)" "valid_hash h \<Longrightarrow> metadata_path h = Inr (mpath h)"
  by (simp_all add: hash_path_def metadata_path_def validate_hash_def)

lemma invalid_paths [simp]: "\<not> valid_hash h \<Longrightarrow> hash_path h = Inl (Cas_Config h)"
  "\<not> valid_hash h \<Longrightarrow> metadata_path h = Inl (Cas_Config h)"
  by (simp_all add: hash_path_def metadata_path_def validate_hash_def)

lemma dpath_inj [simp]: "take n h = take n h' \<and> drop n h = drop n h' \<longleftrightarrow> h = h'"
  by (metis append_take_drop_id)

lemma dpath_not_mpath [simp]: "valid_hash h \<Longrightarrow> drop n h \<noteq> drop n h' @ ''.meta''"
proof
  assume "valid_hash h" "drop n h = drop n h' @ ''.meta''"
  then have "CHR ''.'' \<in> set (drop n h)" by simp
  then show False using \<open>valid_hash h\<close> by simp
qed

lemmas dpath_not_mpath' [simp] = dpath_not_mpath[symmetric]

subsection \<open>The store as a map from hashes to bytes\<close>

definition unpack :: "cas_env \<Rightarrow> artifact_metadata \<Rightarrow> bytes \<Rightarrow> cas_error + bytes" where
  "unpack env m raw =
     (case compression m of
        None \<Rightarrow> Inr raw
      | Some alg \<Rightarrow> decompress env (case algorithm_from_str alg of None \<Rightarrow> No_Compression | Some x \<Rightarrow> x) raw)"

text \<open>The metadata in a file that can be read.\<close>

definition parse_meta :: "cas_env \<Rightarrow> bytes \<Rightarrow> artifact_metadata option" where
  "parse_meta env json = (if valid_utf8 json then from_json env json else None)"

lemma read_meta_Inr: "read_meta env readable p json = Inr m \<longleftrightarrow> readable p \<and> parse_meta env json = Some m"
  by (auto simp: read_meta_def parse_meta_def split: option.split)

lemma read_meta_parse: "parse_meta env json = Some m \<Longrightarrow>
    read_meta env readable p json = (if readable p then Inr m else Inl Cas_Io)"
  by (auto simp: read_meta_def parse_meta_def split: option.split if_splits)

lemma read_meta_Inl: "readable p \<Longrightarrow> read_meta env readable p json = Inl e \<Longrightarrow> parse_meta env json = None"
  by (auto simp: read_meta_def parse_meta_def split: option.splits if_splits)

definition contents :: "cas_env \<Rightarrow> local_backend \<Rightarrow> artifact_hash \<Rightarrow> bytes option" where
  "contents env b h =
     (if \<not> valid_hash h then None
      else do {
        raw \<leftarrow> hm_get (cas_files b) (dpath h);
        json \<leftarrow> hm_get (cas_files b) (mpath h);
        m \<leftarrow> parse_meta env json;
        (case unpack env m raw of
           Inl _ \<Rightarrow> None
         | Inr d \<Rightarrow> if digest env d = h \<and> m_hash m = h then Some d else None)
      })"

text \<open>What is documented of the three libraries.\<close>

definition env_ok :: "cas_env \<Rightarrow> bool" where
  "env_ok env \<longleftrightarrow>
     (\<forall>bs. valid_hash (digest env bs)) \<and>
     (\<forall>l bs. \<exists>c. zstd_encode env l bs = Some c \<and> zstd_decode env c = Some bs) \<and>
     (\<forall>m. \<exists>j. to_json env m = Some j \<and> valid_utf8 j \<and> from_json env j = Some m)"

lemma algorithm_round: "algorithm_from_str (algorithm_str a) = Some a"
proof -
  have "algorithm_from_str ''none'' = Some No_Compression" "algorithm_from_str ''zstd'' = Some Zstd"
    "algorithm_from_str ''zstd-max'' = Some Zstd_Max" "algorithm_from_str ''zstd-fast'' = Some Zstd_Fast"
    by code_simp+
  then show ?thesis by (cases a) (simp_all add: algorithm_str_def)
qed

lemma decompress_compress:
  assumes "env_ok env"
  obtains c where "compress env a bs = Inr c" "decompress env a c = Inr bs"
proof -
  obtain c where c: "zstd_encode env (compression_level a) bs = Some c" "zstd_decode env c = Some bs"
    using assms unfolding env_ok_def by blast
  show thesis
    by (rule that[of "if a = No_Compression then bs else c"]) (simp_all add: compress_def decompress_def c)
qed

lemma json_round:
  assumes "env_ok env"
  obtains j where "to_json env m = Some j" "parse_meta env j = Some m"
  using assms unfolding env_ok_def parse_meta_def by meson

lemma contents_cong:
  "hm_get (cas_files b') (dpath h) = hm_get (cas_files b) (dpath h) \<Longrightarrow>
   hm_get (cas_files b') (mpath h) = hm_get (cas_files b) (mpath h) \<Longrightarrow> contents env b' h = contents env b h"
  by (simp add: contents_def)

lemma contentsI:
  assumes "valid_hash h" "hm_get (cas_files b) (dpath h) = Some raw" "hm_get (cas_files b) (mpath h) = Some json"
    "parse_meta env json = Some m" "unpack env m raw = Inr d" "digest env d = h" "m_hash m = h"
  shows "contents env b h = Some d"
  using assms by (simp add: contents_def)

lemma retrieve_cases:
  assumes "retrieve env io h b = (r, b')"
  obtains (error) e where "r = Inl e" "b' = b" "(\<And>p. can_read io p) \<Longrightarrow> contents env b h = None"
  | (ok) raw json m d where "valid_hash h" "hm_get (cas_files b) (dpath h) = Some raw"
      "hm_get (cas_files b) (mpath h) = Some json" "parse_meta env json = Some m" "unpack env m raw = Inr d"
      "digest env d = h" "m_hash m = h"
      "r = Inr \<lparr>metadata = m\<lparr>last_accessed := Some (access_time io)\<rparr>, data = d, original_path = None\<rparr>"
      "b' = (case to_json env (m\<lparr>last_accessed := Some (access_time io)\<rparr>) of None \<Rightarrow> b
             | Some json' \<Rightarrow> write_touch (touch io) (mpath h) json' b)"
proof (cases "valid_hash h")
  case False
  then show thesis using assms by (intro error[of "Cas_Config h"]) (simp_all add: retrieve_def contents_def)
next
  case v: True
  show thesis
  proof (cases "hm_get (cas_files b) (dpath h)")
    case None
    then show thesis using assms v by (intro error[of "Artifact_Not_Found h"]) (simp_all add: retrieve_def contents_def)
  next
    case raw: (Some raw)
    show thesis
    proof (cases "hm_get (cas_files b) (mpath h)")
      case None
      then show thesis
        using assms v raw by (intro error[of "Artifact_Not_Found h"]) (simp_all add: retrieve_def contents_def)
    next
      case json: (Some json)
      note e = v raw json
      have ret: "retrieve env io h b =
          (case read_meta env (can_read io) (mpath h) json of
             Inl e \<Rightarrow> (Inl e, b)
           | Inr m \<Rightarrow>
               if \<not> can_read io (dpath h) then (Inl Cas_Io, b)
               else case unpack env m raw of
                 Inl e \<Rightarrow> (Inl e, b)
               | Inr d \<Rightarrow>
                   if digest env d \<noteq> h \<or> m_hash m \<noteq> h then (Inl (Hash_Error h), b)
                   else
                     let m' = m\<lparr>last_accessed := Some (access_time io)\<rparr>
                     in (Inr \<lparr>metadata = m', data = d, original_path = None\<rparr>,
                         case to_json env m' of
                           None \<Rightarrow> b
                         | Some json' \<Rightarrow> write_touch (touch io) (mpath h) json' b))"
        by (simp add: retrieve_def e unpack_def cong: if_cong option.case_cong sum.case_cong)
      show thesis
      proof (cases "read_meta env (can_read io) (mpath h) json")
        case (Inl x)
        then have "contents env b h = None" if "\<And>p. can_read io p"
          using read_meta_Inl[of "can_read io" "mpath h" env json x, OF that Inl] e by (simp add: contents_def)
        then show thesis using assms Inl unfolding ret by (intro error[of x]) auto
      next
        case rm: (Inr m)
        then have m: "parse_meta env json = Some m" by (simp add: read_meta_Inr)
        show thesis
        proof (cases "can_read io (dpath h)")
          case False
          then show thesis using assms rm unfolding ret by (intro error[of Cas_Io]) auto
        next
          case True
          show thesis
          proof (cases "unpack env m raw")
            case (Inl x)
            then have "contents env b h = None" by (simp add: contents_def e m)
            then show thesis using assms True rm Inl unfolding ret by (intro error) auto
          next
            case d: (Inr d)
            show thesis
            proof (cases "digest env d = h \<and> m_hash m = h")
              case False
              then have "contents env b h = None" by (auto simp: contents_def e m d)
              then show thesis using assms True rm d False unfolding ret by (intro error) auto
            next
              case digest: True
              then show thesis using assms True rm d unfolding ret by (intro ok[OF e m d]) (simp_all add: Let_def)
            qed
          qed
        qed
      qed
    qed
  qed
qed

text \<open>Whatever is on disk: what is retrieved has the hash that was asked for.\<close>

lemma retrieve_integrity:
  assumes "retrieve env io h b = (Inr a, b')"
  shows "digest env (data a) = h" "artifact_hash_of a = h" "valid_hash h" "contents env b h = Some (data a)"
proof -
  from assms have "digest env (data a) = h \<and> artifact_hash_of a = h \<and> valid_hash h \<and> contents env b h = Some (data a)"
  proof (cases rule: retrieve_cases)
    case (ok raw json m d)
    then show ?thesis using contentsI[OF ok(1-7)] by (auto simp: artifact_hash_of_def)
  qed simp
  then show "digest env (data a) = h" "artifact_hash_of a = h" "valid_hash h" "contents env b h = Some (data a)"
    by blast+
qed

lemma contents_upd_meta:
  assumes "valid_hash h" "hm_get (cas_files b) (dpath h) = Some raw" "parse_meta env j = Some m"
    "unpack env m raw = Inr d" "digest env d = h" "m_hash m = h"
  shows "contents env (b\<lparr>cas_files := hm_insert (mpath h) j (cas_files b)\<rparr>) = (contents env b)(h \<mapsto> d)"
proof
  fix g
  show "contents env (b\<lparr>cas_files := hm_insert (mpath h) j (cas_files b)\<rparr>) g = ((contents env b)(h \<mapsto> d)) g"
  proof (cases "g = h")
    case True
    then show ?thesis
      using contentsI[of h "b\<lparr>cas_files := hm_insert (mpath h) j (cas_files b)\<rparr>" raw j env m d] assms by simp
  next
    case False
    then show ?thesis
      by (cases "valid_hash g") (simp_all add: contents_cong contents_def)
  qed
qed

lemma contents_upd_meta_other:
  assumes "valid_hash h" "g \<noteq> h"
  shows "contents env (b\<lparr>cas_files := hm_insert (mpath h) j (cas_files b)\<rparr>) g = contents env b g"
  using assms by (cases "valid_hash g") (simp_all add: contents_cong contents_def)

lemma retrieve_contents:
  assumes "env_ok env" "retrieve env io h b = (r, b')"
  shows "(\<And>p. can_read io p) \<Longrightarrow> (case r of Inr a \<Rightarrow> Some (data a) | Inl _ \<Rightarrow> None) = contents env b h"
    and "touch io \<notin> range Cut_Off \<Longrightarrow> contents env b' = contents env b"
    and "g \<noteq> h \<Longrightarrow> contents env b' g = contents env b g"
    and "r = Inl e \<Longrightarrow> b' = b"
proof -
  from assms(2) have "((\<forall>p. can_read io p) \<longrightarrow> (case r of Inr a \<Rightarrow> Some (data a) | Inl _ \<Rightarrow> None) = contents env b h) \<and>
    (touch io \<notin> range Cut_Off \<longrightarrow> contents env b' = contents env b) \<and>
    (\<forall>g. g \<noteq> h \<longrightarrow> contents env b' g = contents env b g) \<and> (\<forall>e. r = Inl e \<longrightarrow> b' = b)"
  proof (cases rule: retrieve_cases)
    case (error e)
    have "\<forall>p. can_read io p \<Longrightarrow> contents env b h = None" using error(3) by blast
    then show ?thesis using error(1,2) by (auto simp del: split_paired_All)
  next
    case (ok raw json m d)
    let ?m = "m\<lparr>last_accessed := Some (access_time io)\<rparr>"
    have c: "contents env b h = Some d" by (rule contentsI[OF ok(1-7)])
    obtain j where j: "to_json env ?m = Some j" "parse_meta env j = Some ?m"
      by (rule json_round[OF assms(1)])
    then have b': "b' = write_touch (touch io) (mpath h) j b" using ok(9) by simp
    have "contents env (b\<lparr>cas_files := hm_insert (mpath h) j (cas_files b)\<rparr>) = (contents env b)(h \<mapsto> d)"
      using ok j by (intro contents_upd_meta[where m = ?m]) (simp_all add: unpack_def)
    also have "\<dots> = contents env b" using c by (auto simp: fun_eq_iff)
    finally have "touch io \<notin> range Cut_Off \<longrightarrow> contents env b' = contents env b"
      by (simp add: b' write_touch_def split: touch_io.split)
    moreover have "contents env b' g = contents env b g" if "g \<noteq> h" for g
      using contents_upd_meta_other[OF ok(1) that] by (simp add: b' write_touch_def split: touch_io.split)
    ultimately show ?thesis using c ok(8) by simp
  qed
  then show "(\<And>p. can_read io p) \<Longrightarrow> (case r of Inr a \<Rightarrow> Some (data a) | Inl _ \<Rightarrow> None) = contents env b h"
    and "touch io \<notin> range Cut_Off \<Longrightarrow> contents env b' = contents env b"
    and "g \<noteq> h \<Longrightarrow> contents env b' g = contents env b g"
    and "r = Inl e \<Longrightarrow> b' = b"
    by blast+
qed

text \<open>
  An artifact can be stored safely if the backend compresses, or if its metadata does not claim a
  compression: an uncompressed backend keeps a claim that the artifact brings along.
\<close>

definition storable :: "local_backend \<Rightarrow> artifact \<Rightarrow> bool" where
  "storable b a \<longleftrightarrow> algorithm b \<noteq> No_Compression \<or> compression (metadata a) = None"

lemma store_contents:
  assumes "env_ok env" "digest env (data a) = artifact_hash_of a"
  obtains m j raw where "store env Store_Ok a b =
      (Inr (), b\<lparr>cas_files := hm_insert (mpath (artifact_hash_of a)) j
        (hm_insert (dpath (artifact_hash_of a)) raw (cas_files b))\<rparr>)"
    "storable b a \<Longrightarrow> unpack env m raw = Inr (data a)"
    "parse_meta env j = Some m" "m_hash m = artifact_hash_of a" "m_size m = artifact_size a"
    "valid_hash (artifact_hash_of a)"
proof -
  let ?h = "artifact_hash_of a"
  have v: "valid_hash ?h" using assms by (metis env_ok_def)
  obtain c where c: "compress env (algorithm b) (data a) = Inr c" "decompress env (algorithm b) c = Inr (data a)"
    by (rule decompress_compress[OF assms(1)])
  define m where "m = (if algorithm b = No_Compression then metadata a
    else with_compression (length c) (algorithm_str (algorithm b)) (metadata a))"
  define raw where "raw = (if algorithm b = No_Compression then data a else c)"
  obtain j where j: "to_json env m = Some j" "parse_meta env j = Some m"
    by (rule json_round[OF assms(1)])
  have s: "store env Store_Ok a b = (Inr (), b\<lparr>cas_files := hm_insert (mpath ?h) j (hm_insert (dpath ?h) raw (cas_files b))\<rparr>)"
    using assms(2) v c(1) j(1) by (simp add: store_def Let_def m_def raw_def split: if_splits)
  have u: "unpack env m raw = Inr (data a)" if st: "storable b a"
    using st c(2) by (simp add: storable_def m_def raw_def unpack_def with_compression_def algorithm_round)
  show thesis
    by (rule that[OF s u j(2)])
      (simp_all add: v m_def with_compression_def artifact_hash_of_def[symmetric] artifact_size_def)
qed

lemma contents_upd_data:
  assumes "valid_hash h" "g \<noteq> h"
  shows "contents env (b\<lparr>cas_files := hm_insert (dpath h) raw (cas_files b)\<rparr>) g = contents env b g"
  using assms by (cases "valid_hash g") (auto simp: contents_def)

lemma store_updates:
  assumes "env_ok env" "digest env (data a) = artifact_hash_of a" "storable b a"
  obtains b' where "store env Store_Ok a b = (Inr (), b')"
    "contents env b' = (contents env b)(artifact_hash_of a \<mapsto> data a)"
proof -
  let ?h = "artifact_hash_of a"
  obtain m j raw where s: "store env Store_Ok a b =
      (Inr (), b\<lparr>cas_files := hm_insert (mpath ?h) j (hm_insert (dpath ?h) raw (cas_files b))\<rparr>)"
    "storable b a \<Longrightarrow> unpack env m raw = Inr (data a)" "parse_meta env j = Some m" "m_hash m = ?h" "valid_hash ?h"
    by (rule store_contents[OF assms(1,2), of b]) (rule that)
  let ?b1 = "b\<lparr>cas_files := hm_insert (dpath ?h) raw (cas_files b)\<rparr>"
  have "contents env (?b1\<lparr>cas_files := hm_insert (mpath ?h) j (cas_files ?b1)\<rparr>) = (contents env ?b1)(?h \<mapsto> data a)"
    using s(2)[OF assms(3)] s(3-5) assms(2) by (intro contents_upd_meta[where m = m and raw = raw]) simp_all
  also have "\<dots> = (contents env b)(?h \<mapsto> data a)"
    using contents_upd_data[OF s(5)] by (auto simp: fun_eq_iff)
  finally show thesis using s(1) that by simp
qed

lemma store_rejects: "digest env (data a) \<noteq> artifact_hash_of a \<Longrightarrow>
    store env io a b = (Inl (Hash_Error (artifact_hash_of a)), b)"
  by (simp add: store_def Let_def)

text \<open>An artifact with a stale claim of compression is stored without an error and cannot be read back.\<close>

lemma uncompressed_store_keeps_claim:
  assumes "env_ok env" "digest env (data a) = artifact_hash_of a"
    "algorithm b = No_Compression" "compression (metadata a) = Some ''zstd''" "zstd_decode env (data a) = None"
  shows "\<exists>b'. store env Store_Ok a b = (Inr (), b') \<and> contents env b' (artifact_hash_of a) = None"
proof -
  have v: "valid_hash (artifact_hash_of a)" using assms(1,2) by (metis env_ok_def)
  obtain j where j: "to_json env (metadata a) = Some j" "parse_meta env j = Some (metadata a)"
    by (rule json_round[OF assms(1)])
  have "algorithm_from_str ''zstd'' = Some Zstd" by code_simp
  then have "unpack env (metadata a) (data a) = Inl Compression"
    using assms(4,5) by (simp add: unpack_def decompress_def)
  then show ?thesis
    using assms v j by (simp add: store_def Let_def contents_def)
qed

subsection \<open>Deletion and existence\<close>

lemma delete_updates:
  assumes "valid_hash h" "\<And>p. can p"
  obtains b' where "cas_delete can h b = (Inr (), b')" "contents env b' = (contents env b)(h := None)"
    "cas_files b' = hm_remove (mpath h) (hm_remove (dpath h) (cas_files b))" "algorithm b' = algorithm b"
proof -
  have gone: "hm_get fs p = None \<Longrightarrow> hm_remove p fs = fs" for p and fs :: "(cas_path, bytes) hash_map"
    by (simp add: delete_id map_of_eq_None_iff)
  define b' where "b' = b\<lparr>cas_files := hm_remove (mpath h) (hm_remove (dpath h) (cas_files b))\<rparr>"
  have "remove_if_exists can p x = (Inr (), x\<lparr>cas_files := hm_remove p (cas_files x)\<rparr>)" for p x
    using assms(2) gone[of "cas_files x" p] by (simp add: remove_if_exists_def)
  then have "cas_delete can h b = (Inr (), b')"
    using assms(1) by (simp add: cas_delete_def b'_def)
  moreover have "contents env b' g = ((contents env b)(h := None)) g" for g
    by (cases "valid_hash g") (use assms(1) in \<open>auto simp: contents_def b'_def\<close>)
  then have "contents env b' = (contents env b)(h := None)" by (rule ext)
  ultimately show thesis using that[of b'] by (simp add: b'_def)
qed

text \<open>A deletion that fails, or a store that fails, affects at most the entry it is about.\<close>

lemma contents_subset:
  assumes "\<And>p. p \<notin> {dpath h, mpath h} \<Longrightarrow> hm_get (cas_files b') p = hm_get (cas_files b) p" "valid_hash h" "g \<noteq> h"
  shows "contents env b' g = contents env b g"
proof (cases "valid_hash g")
  case True
  then have "dpath g \<notin> {dpath h, mpath h}" "mpath g \<notin> {dpath h, mpath h}" using assms(2,3) by auto
  then show ?thesis using assms(1) by (intro contents_cong) blast+
qed (simp add: contents_def)

lemma delete_partial:
  assumes "valid_hash h" "cas_delete can h b = (r, b')"
  shows "g \<noteq> h \<Longrightarrow> contents env b' g = contents env b g"
    "contents env b' h = None \<or> contents env b' h = contents env b h" "r = Inr () \<Longrightarrow> contents env b' h = None"
    "r = Inl e \<Longrightarrow> e = Cas_Io"
proof -
  have step: "remove_if_exists can p x = (r, y) \<Longrightarrow> (y = x \<and> r = Inl Cas_Io) \<or>
      (hm_get (cas_files y) p = None \<and> r = Inr () \<and> (\<forall>q. q \<noteq> p \<longrightarrow> hm_get (cas_files y) q = hm_get (cas_files x) q))"
    for p x y r by (auto simp: remove_if_exists_def simp del: split_paired_All split: if_splits)
  obtain r1 b1 where r1: "remove_if_exists can (dpath h) b = (r1, b1)" by fastforce
  have del: "cas_delete can h b = (case r1 of Inl e \<Rightarrow> (Inl e, b1) | Inr _ \<Rightarrow> remove_if_exists can (mpath h) b1)"
    using assms(1) r1 by (simp add: cas_delete_def split: sum.split)
  have dm: "dpath h \<noteq> mpath h" by simp
  have files: "(cas_files b' = cas_files b \<and> r = Inl Cas_Io) \<or>
      (hm_get (cas_files b') (dpath h) = None \<and> r \<in> {Inl Cas_Io, Inr ()} \<and>
       (\<forall>p. p \<notin> {dpath h, mpath h} \<longrightarrow> hm_get (cas_files b') p = hm_get (cas_files b) p))"
  proof (cases r1)
    case (Inl e)
    then show ?thesis using step[OF r1] del assms(2) by auto
  next
    case (Inr u)
    then have "remove_if_exists can (mpath h) b1 = (r, b')" using del assms(2) by simp
    from step[OF this] have two: "(b' = b1 \<and> r = Inl Cas_Io) \<or>
      r = Inr () \<and> (\<forall>q. q \<noteq> mpath h \<longrightarrow> hm_get (cas_files b') q = hm_get (cas_files b1) q)" by blast
    from step[OF r1] Inr have one: "hm_get (cas_files b1) (dpath h) = None"
      "\<forall>q. q \<noteq> dpath h \<longrightarrow> hm_get (cas_files b1) q = hm_get (cas_files b) q" by auto
    have same: "hm_get (cas_files b') q = hm_get (cas_files b1) q" if "q \<noteq> mpath h" for q
      using two that by (elim disjE conjE) (simp only:, blast)
    have "hm_get (cas_files b') (dpath h) = None" using same[OF dm] one(1) by (simp only:)
    moreover have "hm_get (cas_files b') p = hm_get (cas_files b) p" if "p \<notin> {dpath h, mpath h}" for p
    proof -
      have "p \<noteq> mpath h" "p \<noteq> dpath h" using that by (simp_all only: insert_iff empty_iff simp_thms de_Morgan_disj)
      then show ?thesis using same[of p] one(2)[rule_format, of p] by (simp only: simp_thms)
    qed
    moreover have "r \<in> {Inl Cas_Io, Inr ()}" using two by blast
    ultimately show ?thesis by blast
  qed
  have other: "hm_get (cas_files b') p = hm_get (cas_files b) p" if "p \<notin> {dpath h, mpath h}" for p
    using files
  proof (elim disjE conjE)
    assume "cas_files b' = cas_files b" then show ?thesis by (simp only:)
  next
    assume "\<forall>p. p \<notin> {dpath h, mpath h} \<longrightarrow> hm_get (cas_files b') p = hm_get (cas_files b) p"
    from this[rule_format, OF that] show ?thesis .
  qed
  have r: "r = Inl Cas_Io \<or> r = Inr ()" using files by blast
  show "g \<noteq> h \<Longrightarrow> contents env b' g = contents env b g" by (rule contents_subset[OF other assms(1)])
  have "hm_get (cas_files b') (dpath h) = None \<Longrightarrow> contents env b' h = None" by (simp add: contents_def)
  moreover have "cas_files b' = cas_files b \<Longrightarrow> contents env b' h = contents env b h" by (simp only: contents_def)
  moreover have "cas_files b' = cas_files b \<and> r = Inl Cas_Io \<or> hm_get (cas_files b') (dpath h) = None"
    using files by (elim disjE conjE; simp only: simp_thms)
  ultimately show "contents env b' h = None \<or> contents env b' h = contents env b h" "r = Inr () \<Longrightarrow> contents env b' h = None"
    by auto
  show "r = Inl e \<Longrightarrow> e = Cas_Io" using r by auto
qed

lemma contents_digest: "contents env b h = Some d \<Longrightarrow> digest env d = h"
  by (auto simp: contents_def split: bind_splits if_splits sum.splits)

lemma store_failed:
  assumes "env_ok env" "store env io a b = (Inl e, b')"
  shows "b' = b \<or> io = Meta_Io \<and> e = Cas_Io \<and> (\<forall>g. g \<noteq> artifact_hash_of a \<longrightarrow> contents env b' g = contents env b g)"
proof (cases "digest env (data a) = artifact_hash_of a")
  case True
  let ?h = "artifact_hash_of a"
  have v: "valid_hash ?h" using True assms(1) by (metis env_ok_def)
  obtain c where c: "compress env (algorithm b) (data a) = Inr c" by (rule decompress_compress[OF assms(1)])
  have j: "\<exists>j. to_json env m = Some j" for m by (rule json_round[OF assms(1), of m]) blast
  obtain j1 j2 where j: "to_json env (metadata a) = Some j1"
    "to_json env (with_compression (length c) (algorithm_str (algorithm b)) (metadata a)) = Some j2"
    using j by blast
  have "b' = b \<or> io = Meta_Io \<and> e = Cas_Io \<and> (\<exists>raw. b' = b\<lparr>cas_files := hm_insert (dpath ?h) raw (cas_files b)\<rparr>)"
    using assms(2) True v c j by (auto simp: store_def Let_def split: if_splits option.splits)
  then show ?thesis using contents_upd_data[OF v] by auto
next
  case False
  then show ?thesis using assms(2) store_rejects[OF False, of io b] by simp
qed

lemma store_done_io: "store env io a b = (Inr (), b') \<Longrightarrow> store env Store_Ok a b = (Inr (), b')"
  by (auto simp: store_def Let_def split: if_splits option.splits sum.splits prod.splits)

lemma delete_invalid: "\<not> valid_hash h \<Longrightarrow> cas_delete can h b = (Inl (Cas_Config h), b)"
  by (simp add: cas_delete_def)

lemma exists_contents: "contents env b h \<noteq> None \<Longrightarrow> cas_exists h b = Inr True"
  by (auto simp: contents_def cas_exists_def split: if_splits bind_splits)

subsection \<open>Properties\<close>

lemma present_entry:
  assumes "contents env b h = Some d"
  shows "cas_exists h b = Inr True" "h \<in> set (cas_list b)"
    "(\<And>p. readable p) \<Longrightarrow> \<exists>m. cas_metadata env readable h b = Inr m \<and> m_hash m = h"
proof -
  obtain raw json m where e: "valid_hash h" "hm_get (cas_files b) (dpath h) = Some raw"
    "hm_get (cas_files b) (mpath h) = Some json" "parse_meta env json = Some m" "m_hash m = h"
    using assms by (auto simp: contents_def split: bind_splits if_splits sum.splits)
  then show "cas_exists h b = Inr True" by (simp add: cas_exists_def)
  have "split_ext CHR ''.'' (drop 2 h) = (drop 2 h, None)" using e(1) by (simp add: split_ext_none)
  then have "listed_hash (dpath h) = Some h" using e(1) by (simp add: listed_hash_def)
  then show "h \<in> set (cas_list b)"
    using hm_get_key[OF e(2)] by (force simp: cas_list_def set_map_filter simp del: split_paired_Ex)
  show "\<exists>m. cas_metadata env readable h b = Inr m \<and> m_hash m = h" if r: "\<And>p. readable p"
  proof -
    have "read_meta env readable (mpath h) json = Inr m" using e(4) r by (simp add: read_meta_Inr)
    then show ?thesis using e by (simp add: cas_metadata_def)
  qed
qed

text \<open>
  The temporary files, \<open><name>.tmp.<pid>\<close> and \<open><name>.meta.tmp.<pid>\<close>, are not listed. A retrieve whose write
  of the access is cut off right away answers with the data and loses the artifact.
\<close>

lemma temporary_not_listed:
  assumes "CHR ''.'' \<notin> set pid" "pid \<noteq> ''meta''"
  shows "listed_hash (dir, n @ ''.tmp.'' @ pid) = None"
proof -
  have "split_ext CHR ''.'' ((n @ ''.tmp'') @ CHR ''.'' # pid) = (n @ ''.tmp'', Some pid)"
    using assms(1) by (intro split_ext_append) auto
  moreover have "\<not> valid_hash (dir @ n @ ''.tmp'')" using no_dot[of "dir @ n @ ''.tmp''"] by auto
  ultimately show ?thesis using assms(2) by (simp add: listed_hash_def)
qed

lemma cut_touch_loses_artifact:
  assumes "env_ok env" "contents env b h = Some d" "\<And>p. can_read io p" "touch io = Cut_Off 0" "from_json env [] = None"
  shows "\<exists>a b'. retrieve env io h b = (Inr a, b') \<and> data a = d \<and> contents env b' h = None"
proof -
  obtain r b' where r: "retrieve env io h b = (r, b')" by fastforce
  then obtain a where a: "r = Inr a" "data a = d"
    using retrieve_contents(1)[OF assms(1) r assms(3)] assms(2) by (cases r) auto
  from r have "contents env b' h = None"
  proof (cases rule: retrieve_cases)
    case (ok raw json m x)
    obtain j where "to_json env (m\<lparr>last_accessed := Some (access_time io)\<rparr>) = Some j" by (rule json_round[OF assms(1)])
    then show ?thesis using ok(9) assms(4,5) by (simp add: write_touch_def contents_def parse_meta_def)
  qed (use a in simp)
  with r a show ?thesis by blast
qed


text \<open>A constant digest, an identity in place of Zstandard, and the plain format in place of JSON.\<close>

definition sample_env :: cas_env where
  "sample_env = \<lparr>digest = \<lambda>_. replicate 64 CHR ''a'', zstd_encode = \<lambda>_ bs. Some bs, zstd_decode = Some,
     to_json = \<lambda>m. Some (numbers_bytes (put_string (m_hash m) @ put_nat (m_size m) @
       put_option put_nat (compressed_size m) @ put_option put_string (compression m) @
       put_int (timestamp m) @ put_option put_int (last_accessed m) @ put_string (artifact_type m) @
       put_string (source_info m) @ put_strings (tags m) @ [])),
     from_json = \<lambda>bs.
       (let (h, ns) = get_string (bytes_numbers bs); (n, ns) = get_nat ns; (cs, ns) = get_option get_nat ns;
            (c, ns) = get_option get_string ns; (t, ns) = get_int ns; (l, ns) = get_option get_int ns;
            (ty, ns) = get_string ns; (src, ns) = get_string ns; (ts, ns) = get_strings ns
        in Some \<lparr>m_hash = h, m_size = n, compressed_size = cs, compression = c, timestamp = t,
             last_accessed = l, artifact_type = ty, source_info = src, tags = ts\<rparr>)\<rparr>"

lemma numbers_utf8 [simp]: "valid_utf8 (numbers_bytes ns)"
  by (rule valid_utf8_ascii) (auto simp: numbers_bytes_def list_all_iff)

lemma sample_env_ok: "env_ok sample_env"
proof -
  have "valid_hash (replicate 64 CHR ''a'')" by code_simp
  moreover have "\<exists>j. to_json sample_env m = Some j \<and> valid_utf8 j \<and> from_json sample_env j = Some m" for m
    by (simp add: sample_env_def del: append_Nil2)
  ultimately show ?thesis by (simp add: env_ok_def) (simp add: sample_env_def)
qed


end
