(* ===== verification/Cas_Storage.thy ===== *)
theory Cas_Storage
  imports Cas_Backend
begin

text \<open>
  The storage layer over a backend, \<open>CasStorage\<close> of \<open>fish-cas/src/storage.rs\<close>: its configuration,
  the quota and the cleanup policies. A \<open>dyn CasBackend\<close> is the operations it provides, which are
  arguments here; what the storage relies on is the interface \<open>cas_backend\<close>, which the local
  backend is shown to satisfy. Listing the store succeeds. \<open>None\<close> is the panic of an overflow.
\<close>

subsection \<open>Configuration\<close>

datatype backend_type = Local | Remote | Hybrid

datatype remote_backend_type = S3 | GCS | Azure | Custom

record auth_config =
  access_key :: "string option"
  secret_key :: "string option"
  token :: "string option"

record remote_config =
  remote_type :: remote_backend_type
  endpoint :: string
  auth :: "auth_config option"
  bucket :: string
  region :: "string option"

record storage_config =
  backend :: backend_type
  local_path :: "string option"
  config_compression :: compression_algorithm
  max_size_bytes :: nat
  remote :: "remote_config option"

definition local_config :: "string \<Rightarrow> storage_config" where
  "local_config p = \<lparr>backend = Local, local_path = Some p, config_compression = Zstd, max_size_bytes = 0, remote = None\<rparr>"

definition remote_only_config :: "remote_config \<Rightarrow> storage_config" where
  "remote_only_config r = \<lparr>backend = Remote, local_path = None, config_compression = Zstd, max_size_bytes = 0, remote = Some r\<rparr>"

definition hybrid_config :: "string \<Rightarrow> remote_config \<Rightarrow> storage_config" where
  "hybrid_config p r = \<lparr>backend = Hybrid, local_path = Some p, config_compression = Zstd, max_size_bytes = 0, remote = Some r\<rparr>"

definition set_compression :: "compression_algorithm \<Rightarrow> storage_config \<Rightarrow> storage_config" where
  "set_compression a c = c\<lparr>config_compression := a\<rparr>"

definition with_max_size :: "nat \<Rightarrow> storage_config \<Rightarrow> storage_config" where
  "with_max_size n c = c\<lparr>max_size_bytes := n\<rparr>"

definition default_config :: storage_config where
  "default_config = local_config ''.fish/cas''"

text \<open>
  \<open>CasStorage::new\<close> without the feature \<open>remote\<close>; \<open>files\<close> is what the disk holds at the path, or
  nothing when the directory cannot be created.
\<close>

definition open_storage ::
  "(string \<Rightarrow> (cas_path, bytes) hash_map option) \<Rightarrow> storage_config \<Rightarrow> cas_error + local_backend"
where
  "open_storage files c =
     (case backend c of
        Local \<Rightarrow>
          (case local_path c of
             None \<Rightarrow> Inl (Cas_Config ''Local path required for local backend'')
           | Some p \<Rightarrow>
               (case files p of
                  None \<Rightarrow> Inl Cas_Io
                | Some fs \<Rightarrow> Inr (new_backend fs (config_compression c))))
      | _ \<Rightarrow> Inl (Cas_Config ''Remote storage requires 'remote' feature''))"

subsection \<open>The quota\<close>

definition storage_store ::
  "('s \<Rightarrow> cas_stats option) \<Rightarrow> (artifact \<Rightarrow> 's \<Rightarrow> (cas_error + unit) \<times> 's) \<Rightarrow> storage_config \<Rightarrow>
     artifact \<Rightarrow> 's \<Rightarrow> ((cas_error + unit) \<times> 's) option"
where
  "storage_store stats put c a s =
     (if 0 < max_size_bytes c then
        (case stats s of
           None \<Rightarrow> None
         | Some st \<Rightarrow>
             if max_size_bytes c < saturating_add (total_bytes st) (artifact_size a)
             then Some (Inl (Quota_Exceeded (total_bytes st) (artifact_size a) (max_size_bytes c)), s)
             else Some (put a s))
      else Some (put a s))"

text \<open>A sequence of stores, whatever each of them answers.\<close>

fun store_all ::
  "('s \<Rightarrow> cas_stats option) \<Rightarrow> (artifact \<Rightarrow> 's \<Rightarrow> (cas_error + unit) \<times> 's) \<Rightarrow> storage_config \<Rightarrow>
     artifact list \<Rightarrow> 's \<Rightarrow> ((cas_error + unit) list \<times> 's) option"
where
  "store_all stats put c [] s = Some ([], s)"
| "store_all stats put c (a # as) s =
     (case storage_store stats put c a s of
        None \<Rightarrow> None
      | Some (r, s') \<Rightarrow> map_option (map_prod ((#) r) id) (store_all stats put c as s'))"

subsection \<open>Cleanup\<close>

datatype cleanup_policy = Older_Than nat | Not_Accessed_In nat | Remove_Tags "string list" | Keep_Most_Recent nat

record cleanup_result =
  removed_count :: nat
  freed_bytes :: nat

text \<open>The cast \<open>as i64\<close> of a \<open>u64\<close>, and subtraction of \<open>i64\<close>.\<close>

definition as_i64 :: "nat \<Rightarrow> int" where
  "as_i64 n = (if n < 2 ^ 63 then int n else int n - 2 ^ 64)"

definition sub_i64 :: "int \<Rightarrow> int \<Rightarrow> int option" where
  "sub_i64 a b = (if - (2 ^ 63) \<le> a - b \<and> a - b < 2 ^ 63 then Some (a - b) else None)"

definition should_remove_metadata :: "int \<Rightarrow> cleanup_policy \<Rightarrow> artifact_metadata \<Rightarrow> bool option" where
  "should_remove_metadata now p m =
     (case p of
        Older_Than d \<Rightarrow> map_option (\<lambda>age. as_i64 d < age) (sub_i64 now (timestamp m))
      | Not_Accessed_In d \<Rightarrow>
          map_option (\<lambda>age. as_i64 d < age)
            (sub_i64 now (case last_accessed m of Some t \<Rightarrow> t | None \<Rightarrow> timestamp m))
      | Remove_Tags ts \<Rightarrow> Some (\<exists>t \<in> set ts. t \<in> set (tags m))
      | Keep_Most_Recent _ \<Rightarrow> Some False)"

fun select_removals ::
  "(artifact_metadata \<Rightarrow> bool option) \<Rightarrow> (artifact_hash \<times> artifact_metadata) list \<Rightarrow>
     (artifact_hash \<times> artifact_metadata) list option"
where
  "select_removals P [] = Some []"
| "select_removals P (e # es) = do {
     r \<leftarrow> P (snd e);
     rest \<leftarrow> select_removals P es;
     Some (if r then e # rest else rest)
   }"

definition load_entries ::
  "(artifact_hash \<Rightarrow> 's \<Rightarrow> cas_error + artifact_metadata) \<Rightarrow> 's \<Rightarrow> artifact_hash list \<Rightarrow>
     (artifact_hash \<times> artifact_metadata) list"
where
  "load_entries meta s hs = List.map_filter (\<lambda>h. case meta h s of Inl _ \<Rightarrow> None | Inr m \<Rightarrow> Some (h, m)) hs"

text \<open>\<open>sort_by_key\<close> with the reversed time stamp, then \<open>skip(keep)\<close>.\<close>

definition removals ::
  "int \<Rightarrow> cleanup_policy \<Rightarrow> (artifact_hash \<times> artifact_metadata) list \<Rightarrow>
     (artifact_hash \<times> artifact_metadata) list option"
where
  "removals now p es =
     (case p of
        Keep_Most_Recent keep \<Rightarrow> Some (drop keep (sort_key (\<lambda>e. - timestamp (snd e)) es))
      | _ \<Rightarrow> select_removals (should_remove_metadata now p) es)"

fun delete_all ::
  "(artifact_hash \<Rightarrow> 's \<Rightarrow> (cas_error + unit) \<times> 's) \<Rightarrow> (artifact_hash \<times> artifact_metadata) list \<Rightarrow>
     cleanup_result \<Rightarrow> 's \<Rightarrow> ((cas_error + cleanup_result) \<times> 's) option"
where
  "delete_all del [] r s = Some (Inr r, s)"
| "delete_all del ((h, m) # es) r s =
     (case del h s of
        (Inl e, s') \<Rightarrow> Some (Inl e, s')
      | (Inr _, s') \<Rightarrow>
          (case add_u64 (freed_bytes r) (m_size m) of
             None \<Rightarrow> None
           | Some f \<Rightarrow> delete_all del es \<lparr>removed_count = removed_count r + 1, freed_bytes = f\<rparr> s'))"

definition cleanup ::
  "('s \<Rightarrow> artifact_hash list) \<Rightarrow> (artifact_hash \<Rightarrow> 's \<Rightarrow> cas_error + artifact_metadata) \<Rightarrow>
     (artifact_hash \<Rightarrow> 's \<Rightarrow> (cas_error + unit) \<times> 's) \<Rightarrow> int \<Rightarrow> cleanup_policy \<Rightarrow> 's \<Rightarrow>
     ((cas_error + cleanup_result) \<times> 's) option"
where
  "cleanup list_of meta del now p s =
     (case removals now p (load_entries meta s (list_of s)) of
        None \<Rightarrow> None
      | Some es \<Rightarrow> delete_all del es \<lparr>removed_count = 0, freed_bytes = 0\<rparr> s)"

lemma select_removals_spec:
  "select_removals P es = Some ys \<Longrightarrow> ys = filter (\<lambda>e. P (snd e) = Some True) es"
  by (induction es arbitrary: ys) (auto split: bind_splits if_splits)

lemma removals_subset:
  assumes "removals now p es = Some ys" "distinct (map fst es)"
  shows "set ys \<subseteq> set es \<and> distinct (map fst ys)"
proof (cases "\<exists>keep. p = Keep_Most_Recent keep")
  case True
  then obtain keep where "ys = drop keep (sort_key (\<lambda>e. - timestamp (snd e)) es)"
    using assms(1) by (auto simp: removals_def)
  moreover have "distinct (map fst (sort_key (\<lambda>e. - timestamp (snd e)) es))"
    using assms(2) by (simp add: distinct_map)
  ultimately show ?thesis
    by (simp add: drop_map[symmetric]) (metis set_drop_subset set_sort)
next
  case False
  then have "select_removals (should_remove_metadata now p) es = Some ys"
    using assms(1) by (auto simp: removals_def split: cleanup_policy.splits)
  then show ?thesis
    using assms(2) by (auto dest!: select_removals_spec simp: distinct_map_filter)
qed

subsection \<open>The interface of a backend\<close>

locale cas_backend =
  fixes invar :: "'s \<Rightarrow> bool"
    and list_of :: "'s \<Rightarrow> artifact_hash list"
    and meta :: "artifact_hash \<Rightarrow> 's \<Rightarrow> cas_error + artifact_metadata"
    and stats :: "'s \<Rightarrow> cas_stats option"
    and put :: "artifact \<Rightarrow> 's \<Rightarrow> (cas_error + unit) \<times> 's"
    and del :: "artifact_hash \<Rightarrow> 's \<Rightarrow> (cas_error + unit) \<times> 's"
  assumes list_distinct: "invar s \<Longrightarrow> distinct (list_of s)"
    and put_error: "invar s \<Longrightarrow> put a s = (Inl e, s') \<Longrightarrow> s' = s"
    and put_invar: "invar s \<Longrightarrow> put a s = (Inr (), s') \<Longrightarrow> invar s'"
    and put_total: "invar s \<Longrightarrow> put a s = (Inr (), s') \<Longrightarrow> stats s = Some st \<Longrightarrow>
      total_bytes st + artifact_size a \<le> u64_max \<Longrightarrow>
      \<exists>st'. stats s' = Some st' \<and> total_bytes st' \<le> total_bytes st + artifact_size a"
    and del_ok: "invar s \<Longrightarrow> h \<in> set (list_of s) \<Longrightarrow>
      \<exists>s'. del h s = (Inr (), s') \<and> invar s' \<and> list_of s' = removeAll h (list_of s)"
begin

text \<open>Stores under a quota never exceed it, and never panic.\<close>

lemma store_within_quota:
  assumes "invar s" "stats s = Some st" "total_bytes st \<le> max_size_bytes c"
    "0 < max_size_bytes c" "max_size_bytes c < u64_max"
  shows "\<exists>r s' st'. storage_store stats put c a s = Some (r, s') \<and> invar s' \<and> stats s' = Some st' \<and>
    total_bytes st' \<le> max_size_bytes c \<and>
    (r, s') = (if max_size_bytes c < total_bytes st + artifact_size a
               then (Inl (Quota_Exceeded (total_bytes st) (artifact_size a) (max_size_bytes c)), s) else put a s)"
proof (cases "max_size_bytes c < total_bytes st + artifact_size a")
  case True
  then show ?thesis using assms by (simp add: storage_store_def saturating_add_def)
next
  case False
  obtain r s' where p: "put a s = (r, s')" by fastforce
  have "storage_store stats put c a s = Some (r, s')"
    using assms(2,4) False p by (simp add: storage_store_def saturating_add_def)
  moreover have "invar s' \<and> (\<exists>st'. stats s' = Some st' \<and> total_bytes st' \<le> max_size_bytes c)"
  proof (cases r)
    case (Inl e)
    then show ?thesis using put_error[OF assms(1)] p assms(1-3) by auto
  next
    case (Inr u)
    then have p: "put a s = (Inr (), s')" using p by simp
    show ?thesis
      using put_invar[OF assms(1) p] put_total[OF assms(1) p assms(2)] False assms(5) by fastforce
  qed
  ultimately show ?thesis using False p by auto
qed

lemma store_all_within_quota:
  assumes "0 < max_size_bytes c" "max_size_bytes c < u64_max"
  shows "invar s \<Longrightarrow> stats s = Some st \<Longrightarrow> total_bytes st \<le> max_size_bytes c \<Longrightarrow>
    \<exists>rs s' st'. store_all stats put c as s = Some (rs, s') \<and> invar s' \<and> stats s' = Some st' \<and>
      total_bytes st' \<le> max_size_bytes c"
proof (induction "as" arbitrary: s st)
  case (Cons a "as")
  obtain r s' st' where "storage_store stats put c a s = Some (r, s')" "invar s'" "stats s' = Some st'"
    "total_bytes st' \<le> max_size_bytes c"
    using store_within_quota[OF Cons.prems assms] by blast
  then show ?case using Cons.IH[of s' st'] by auto
qed simp

text \<open>Deleting entries of the list removes exactly them and adds up their sizes.\<close>

lemma delete_all_spec:
  assumes "invar s" "set (map fst es) \<subseteq> set (list_of s)" "distinct (map fst es)"
    "freed_bytes r + sum_list (map (m_size \<circ> snd) es) \<le> u64_max"
  shows "\<exists>s'. delete_all del es r s =
      Some (Inr \<lparr>removed_count = removed_count r + length es,
                 freed_bytes = freed_bytes r + sum_list (map (m_size \<circ> snd) es)\<rparr>, s') \<and>
    invar s' \<and> list_of s' = filter (\<lambda>h. h \<notin> fst ` set es) (list_of s)"
  using assms
proof (induction es arbitrary: r s)
  case (Cons e es)
  obtain h m where e: "e = (h, m)" by fastforce
  obtain s1 where s1: "del h s = (Inr (), s1)" "invar s1" "list_of s1 = removeAll h (list_of s)"
    using del_ok[OF Cons.prems(1), of h] Cons.prems(2) by (auto simp: e)
  let ?r = "\<lparr>removed_count = removed_count r + 1, freed_bytes = freed_bytes r + m_size m\<rparr>"
  have "\<exists>s'. delete_all del es ?r s1 =
      Some (Inr \<lparr>removed_count = removed_count ?r + length es,
                 freed_bytes = freed_bytes ?r + sum_list (map (m_size \<circ> snd) es)\<rparr>, s') \<and>
    invar s' \<and> list_of s' = filter (\<lambda>h. h \<notin> fst ` set es) (list_of s1)"
    using Cons.prems(2-4) s1(2,3) by (intro Cons.IH) (auto simp: e)
  then show ?case
    using s1 Cons.prems(4) by (auto simp: e removeAll_filter_not_eq comp_def eq_commute[of h])
qed (simp cong: filter_cong)

lemma entries_listed:
  "fst ` set (load_entries meta s hs) \<subseteq> set hs"
  "distinct hs \<Longrightarrow> distinct (map fst (load_entries meta s hs))"
  "(h, m) \<in> set (load_entries meta s hs) \<longleftrightarrow> h \<in> set hs \<and> meta h s = Inr m"
  by (induction hs) (auto simp: load_entries_def map_filter_simps split: sum.splits)

lemma cleanup_spec:
  assumes "invar s" "removals now p (load_entries meta s (list_of s)) = Some es"
    "sum_list (map (m_size \<circ> snd) es) \<le> u64_max"
  shows "\<exists>s'. cleanup list_of meta del now p s =
      Some (Inr \<lparr>removed_count = length es, freed_bytes = sum_list (map (m_size \<circ> snd) es)\<rparr>, s') \<and>
    invar s' \<and> list_of s' = filter (\<lambda>h. h \<notin> fst ` set es) (list_of s)"
proof -
  let ?all = "load_entries meta s (list_of s)"
  have all: "distinct (map fst ?all)" by (rule entries_listed(2)[OF list_distinct[OF assms(1)]])
  have "set es \<subseteq> set ?all \<and> distinct (map fst es)"
    using removals_subset[OF assms(2) all] .
  then show ?thesis
    using delete_all_spec[OF assms(1), of es "\<lparr>removed_count = 0, freed_bytes = 0\<rparr>"] entries_listed(1)[of s "list_of s"]
      assms(2,3)
    by (auto simp: cleanup_def)
qed

end

subsection \<open>The local backend is one\<close>

text \<open>The files are those of the entries: a data file or a metadata file of a valid hash.\<close>

definition cas_inv :: "local_backend \<Rightarrow> bool" where
  "cas_inv b \<longleftrightarrow> distinct (hm_keys (cas_files b)) \<and>
     (\<forall>p \<in> set (hm_keys (cas_files b)). \<exists>h. valid_hash h \<and> (p = dpath h \<or> p = mpath h))"

lemma cas_inv_new: "cas_inv (new_backend [] alg)"
  by (simp add: cas_inv_def new_backend_def)

lemma listed_dpath: "valid_hash h \<Longrightarrow> listed_hash (dpath h) = Some h"
  by (simp add: listed_hash_def)

lemma listed_mpath:
  assumes "valid_hash h"
  shows "listed_hash (mpath h) = None"
proof -
  have "drop 2 h \<noteq> []" using assms by (simp add: valid_hash_def)
  moreover have "drop 2 h \<noteq> [CHR ''.'']" using no_dot_drop[OF assms, of 2] by (cases "drop 2 h") auto
  ultimately show ?thesis
    using assms split_ext_append[of "CHR ''.''" "''meta''" "drop 2 h"] by (simp add: listed_hash_def)
qed

lemma listed_iff:
  assumes "\<forall>p \<in> set ks. \<exists>h. valid_hash h \<and> (p = dpath h \<or> p = mpath h)"
  shows "h \<in> set (List.map_filter listed_hash ks) \<longleftrightarrow> valid_hash h \<and> dpath h \<in> set ks"
    and "distinct ks \<Longrightarrow> distinct (List.map_filter listed_hash ks)"
proof -
  have *: "h \<in> set (List.map_filter listed_hash ks) \<longleftrightarrow> valid_hash h \<and> dpath h \<in> set ks"
    if "\<forall>p \<in> set ks. \<exists>h. valid_hash h \<and> (p = dpath h \<or> p = mpath h)" for h ks
    using that
  proof (induction ks)
    case (Cons p ks)
    then obtain g where "valid_hash g" "p = dpath g \<or> p = mpath g" by auto
    then show ?case
      using Cons by (cases "p = dpath g") (auto simp: map_filter_simps listed_dpath listed_mpath)
  qed (simp add: map_filter_simps)
  show "h \<in> set (List.map_filter listed_hash ks) \<longleftrightarrow> valid_hash h \<and> dpath h \<in> set ks"
    by (rule *[OF assms])
  show "distinct ks \<Longrightarrow> distinct (List.map_filter listed_hash ks)"
    using assms
  proof (induction ks)
    case (Cons p ks)
    then obtain g where "valid_hash g" "p = dpath g \<or> p = mpath g" by auto
    then show ?case
      using Cons *[of ks g]
      by (cases "p = dpath g") (auto simp: map_filter_simps listed_dpath listed_mpath)
  qed (simp add: map_filter_simps)
qed

lemma cas_list_iff: "cas_inv b \<Longrightarrow> h \<in> set (cas_list b) \<longleftrightarrow> valid_hash h \<and> hm_get (cas_files b) (dpath h) \<noteq> None"
  unfolding cas_list_def cas_inv_def using listed_iff(1)[of "hm_keys (cas_files b)" h]
  by (simp add: map_of_eq_None_iff)

lemma cas_list_distinct: "cas_inv b \<Longrightarrow> distinct (cas_list b)"
  unfolding cas_list_def cas_inv_def using listed_iff(2) by blast

lemma cas_inv_insert:
  "cas_inv b \<Longrightarrow> valid_hash h \<Longrightarrow> p = dpath h \<or> p = mpath h \<Longrightarrow>
     cas_inv (b\<lparr>cas_files := hm_insert p x (cas_files b)\<rparr>)"
proof -
  assume a: "cas_inv b" "valid_hash h" "p = dpath h \<or> p = mpath h"
  have "distinct (hm_keys (hm_insert p x (cas_files b)))"
    using a(1) unfolding cas_inv_def by (intro distinct_update) blast
  moreover have "\<exists>h. valid_hash h \<and> (q = dpath h \<or> q = mpath h)" if "q \<in> fst ` set (hm_insert p x (cas_files b))" for q
    using that a unfolding cas_inv_def set_hm_keys_insert by (simp only: list.set_map) blast
  ultimately show ?thesis unfolding cas_inv_def by (simp add: Ball_def)
qed

lemma cas_inv_remove: "cas_inv b \<Longrightarrow> cas_inv (b\<lparr>cas_files := hm_remove p (cas_files b)\<rparr>)"
proof -
  assume a: "cas_inv b"
  have "set (hm_keys (hm_remove p (cas_files b))) \<subseteq> set (hm_keys (cas_files b))"
    by (simp only: hm_keys_remove set_removeAll Diff_subset)
  moreover have "distinct (hm_keys (hm_remove p (cas_files b)))"
    using a unfolding cas_inv_def hm_keys_remove by (intro distinct_removeAll) blast
  moreover have "cas_files (b\<lparr>cas_files := hm_remove p (cas_files b)\<rparr>) = hm_remove p (cas_files b)" by simp
  ultimately show ?thesis using a unfolding cas_inv_def by (simp only:) blast
qed

lemma cas_list_remove:
  assumes "cas_inv b" "valid_hash h" "cas_files b' = hm_remove (mpath h) (hm_remove (dpath h) (cas_files b))"
  shows "cas_list b' = removeAll h (cas_list b)"
proof -
  have "List.map_filter listed_hash (removeAll (mpath h) (removeAll (dpath h) ks)) =
      removeAll h (List.map_filter listed_hash ks)"
    if "\<forall>p \<in> set ks. \<exists>h. valid_hash h \<and> (p = dpath h \<or> p = mpath h)" for ks
    using that
  proof (induction ks)
    case (Cons p ks)
    then obtain g where "valid_hash g" "p = dpath g \<or> p = mpath g" by auto
    then show ?case
      using Cons assms(2)
      by (cases "p = dpath g") (auto simp: map_filter_simps listed_dpath listed_mpath)
  qed (simp add: map_filter_simps)
  then show ?thesis using assms(1,3) by (simp add: cas_list_def cas_inv_def)
qed

definition counted_size :: "cas_env \<Rightarrow> (cas_path \<Rightarrow> bool) \<Rightarrow> local_backend \<Rightarrow> artifact_hash \<Rightarrow> nat" where
  "counted_size env readable b h = (case entry_sizes env readable b h of None \<Rightarrow> 0 | Some (len, _) \<Rightarrow> len)"

lemma fold_count:
  "fold_opt (count_entry env readable b) st hs = Some st' \<Longrightarrow>
     total_bytes st' = total_bytes st + sum_list (map (counted_size env readable b) hs)"
  "total_bytes st + sum_list (map (counted_size env readable b) hs) \<le> u64_max \<Longrightarrow>
     \<exists>st'. fold_opt (count_entry env readable b) st hs = Some st'"
proof (induction hs arbitrary: st)
  case (Cons h hs)
  {
    case 1
    then show ?case
      using Cons.IH(1)
      by (auto simp: count_entry_def counted_size_def add_u64_def split: option.splits if_splits bind_splits)
  next
    case 2
    then show ?case
    proof (cases "entry_sizes env readable b h")
      case (Some e)
      then show ?thesis
        using 2 Cons.IH(2) by (cases e) (simp add: count_entry_def counted_size_def)
    qed (use 2 Cons.IH(2) in \<open>simp add: count_entry_def counted_size_def\<close>)
  }
qed simp_all

lemma stats_total:
  assumes "cas_inv b"
  shows "cas_stats_of env readable b = Some st \<Longrightarrow>
      total_bytes st = (\<Sum>h \<in> set (cas_list b). counted_size env readable b h)"
    and "(\<Sum>h \<in> set (cas_list b). counted_size env readable b h) \<le> u64_max \<Longrightarrow>
      \<exists>st. cas_stats_of env readable b = Some st"
  using fold_count[where env = env and readable = readable and b = b and hs = "cas_list b"
      and st = "\<lparr>artifact_count = 0, total_bytes = 0, compressed_bytes = 0\<rparr>"]
    sum_list_distinct_conv_sum_set[OF cas_list_distinct[OF assms], of "counted_size env readable b"]
  by (auto simp: cas_stats_of_def)

lemma store_total:
  assumes "cas_inv b" "b' = b\<lparr>cas_files := hm_insert (mpath h) j (hm_insert (dpath h) raw (cas_files b))\<rparr>"
    "valid_hash h" "parse_meta env j = Some m"
  shows "cas_inv b'" "(\<Sum>g \<in> set (cas_list b'). counted_size env readable b' g) \<le>
    (\<Sum>g \<in> set (cas_list b). counted_size env readable b g) + m_size m"
proof -
  let ?b1 = "b\<lparr>cas_files := hm_insert (dpath h) raw (cas_files b)\<rparr>"
  have inv1: "cas_inv ?b1" by (rule cas_inv_insert[OF assms(1,3)]) simp
  have "cas_inv (?b1\<lparr>cas_files := hm_insert (mpath h) j (cas_files ?b1)\<rparr>)"
    by (rule cas_inv_insert[OF inv1 assms(3)]) simp
  then show inv: "cas_inv b'" by (simp add: assms(2))
  have "g \<in> set (cas_list b') \<longleftrightarrow> g = h \<or> g \<in> set (cas_list b)" for g
    using assms(3) unfolding cas_list_iff[OF inv] cas_list_iff[OF assms(1)] unfolding assms(2) by auto
  then have "set (cas_list b') = insert h (set (cas_list b))" by blast
  moreover have same: "counted_size env readable b' g = counted_size env readable b g" if "g \<noteq> h" for g
    using that assms(3) by (cases "valid_hash g") (simp_all add: counted_size_def entry_sizes_def assms(2))
  moreover have "counted_size env readable b' h \<le> m_size m"
    using assms(3,4) by (simp add: counted_size_def entry_sizes_def assms(2) read_meta_parse split: option.splits)
  ultimately show "(\<Sum>g \<in> set (cas_list b'). counted_size env readable b' g) \<le>
    (\<Sum>g \<in> set (cas_list b). counted_size env readable b g) + m_size m"
  proof -
    let ?L = "set (cas_list b)" let ?f = "counted_size env readable b" let ?f' = "counted_size env readable b'"
    assume s: "set (cas_list b') = insert h ?L" and h: "?f' h \<le> m_size m"
    have "(\<Sum>g \<in> insert h ?L. ?f' g) = ?f' h + (\<Sum>g \<in> ?L - {h}. ?f' g)"
      by (rule sum.insert_remove) simp
    also have "(\<Sum>g \<in> ?L - {h}. ?f' g) = (\<Sum>g \<in> ?L - {h}. ?f g)" by (rule sum.cong) (auto simp: same)
    also have "\<dots> \<le> (\<Sum>g \<in> ?L. ?f g)" by (rule sum_mono2) auto
    finally show ?thesis using s h by simp
  qed
qed

lemma store_cases:
  assumes "env_ok env" "cas_inv b" "store env Store_Ok a b = (r, b')"
  obtains (rejected) e where "r = Inl e" "b' = b" "digest env (data a) \<noteq> artifact_hash_of a"
  | (stored) "r = Inr ()" "digest env (data a) = artifact_hash_of a" "cas_inv b'"
      "\<And>readable. (\<Sum>g \<in> set (cas_list b'). counted_size env readable b' g) \<le>
         (\<Sum>g \<in> set (cas_list b). counted_size env readable b g) + artifact_size a"
proof (cases "digest env (data a) = artifact_hash_of a")
  case True
  obtain m j raw where s: "store env Store_Ok a b =
      (Inr (), b\<lparr>cas_files := hm_insert (mpath (artifact_hash_of a)) j
        (hm_insert (dpath (artifact_hash_of a)) raw (cas_files b))\<rparr>)"
    "parse_meta env j = Some m" "m_size m = artifact_size a" "valid_hash (artifact_hash_of a)"
    by (rule store_contents[OF assms(1) True, of b])
  then show thesis
    using stored True assms(3) store_total[OF assms(2) refl s(4,2), where raw = raw] s(1,3) by simp
next
  case False
  then show thesis
    using assms(3) store_rejects[OF False, of Store_Ok b]
    by (intro rejected[of "Hash_Error (artifact_hash_of a)"]) simp_all
qed

interpretation lb: cas_backend "\<lambda>b. env_ok env \<and> cas_inv b" cas_list "cas_metadata env readable"
  "cas_stats_of env readable" "store env Store_Ok" "cas_delete (\<lambda>_. True)"
  for env readable
proof
  fix s
  assume s: "env_ok env \<and> cas_inv s"
  show "distinct (cas_list s)" using s cas_list_distinct by blast
  show "s' = s" if "store env Store_Ok a s = (Inl e, s')" for a e s'
    using s that by (auto elim: store_cases)
  show "env_ok env \<and> cas_inv s'" if "store env Store_Ok a s = (Inr (), s')" for a s'
    using s that by (auto elim: store_cases)
  show "\<exists>st'. cas_stats_of env readable s' = Some st' \<and> total_bytes st' \<le> total_bytes st + artifact_size a"
    if p: "store env Store_Ok a s = (Inr (), s')" and st: "cas_stats_of env readable s = Some st"
      and le: "total_bytes st + artifact_size a \<le> u64_max" for a s' st
  proof -
    have env: "env_ok env" and inv: "cas_inv s" using s by blast+
    from env inv p show ?thesis
    proof (cases rule: store_cases)
      case stored
      note T = stats_total[OF stored(3), of env readable]
      have t: "total_bytes st = (\<Sum>g \<in> set (cas_list s). counted_size env readable s g)"
        by (rule stats_total(1)[OF inv st])
      then show ?thesis using T stored(4)[of readable] le by (metis le_trans)
    qed simp
  qed
  show "\<exists>s'. cas_delete (\<lambda>_. True) h s = (Inr (), s') \<and> (env_ok env \<and> cas_inv s') \<and> cas_list s' = removeAll h (cas_list s)"
    if "h \<in> set (cas_list s)" for h
  proof -
    have inv: "cas_inv s" and v: "valid_hash h" using s that cas_list_iff by blast+
    obtain s' where d: "cas_delete (\<lambda>_. True) h s = (Inr (), s')"
      "cas_files s' = hm_remove (mpath h) (hm_remove (dpath h) (cas_files s))" "algorithm s' = algorithm s"
      by (rule delete_updates[OF v TrueI])
    have e: "s' = s\<lparr>cas_files := hm_remove (mpath h) (hm_remove (dpath h) (cas_files s))\<rparr>" using d(2,3) by simp
    have "cas_inv (s\<lparr>cas_files := hm_remove (dpath h) (cas_files s)\<rparr>)" by (rule cas_inv_remove[OF inv])
    from cas_inv_remove[OF this, of "mpath h"]
    have "cas_inv (s\<lparr>cas_files := hm_remove (mpath h) (hm_remove (dpath h) (cas_files s))\<rparr>)" by simp
    then have "cas_inv s'" unfolding e .
    then show ?thesis using d(1) cas_list_remove[OF inv v d(2)] s by blast
  qed
qed

subsection \<open>Properties\<close>

text \<open>
  With a quota, no sequence of stores into the local backend takes the total size of the
  artifacts above it, none of them panics, and a store is refused exactly when the artifact does
  not fit beside what is there; then nothing changes.
\<close>

theorem quota_respected:
  assumes "env_ok env" "cas_inv b" "cas_stats_of env readable b = Some st" "total_bytes st \<le> max_size_bytes c"
    "0 < max_size_bytes c" "max_size_bytes c < u64_max"
  shows "(\<exists>rs b' st'. store_all (cas_stats_of env readable) (store env Store_Ok) c as b = Some (rs, b') \<and>
      cas_stats_of env readable b' = Some st' \<and> total_bytes st' \<le> max_size_bytes c) \<and>
    storage_store (cas_stats_of env readable) (store env Store_Ok) c a b =
      Some (if max_size_bytes c < total_bytes st + artifact_size a
            then (Inl (Quota_Exceeded (total_bytes st) (artifact_size a) (max_size_bytes c)), b)
            else store env Store_Ok a b)"
proof
  show "\<exists>rs b' st'. store_all (cas_stats_of env readable) (store env Store_Ok) c as b = Some (rs, b') \<and>
      cas_stats_of env readable b' = Some st' \<and> total_bytes st' \<le> max_size_bytes c"
    using lb.store_all_within_quota[OF assms(5,6) conjI[OF assms(1,2)] assms(3,4), of "as"] by blast
  obtain r b' where "storage_store (cas_stats_of env readable) (store env Store_Ok) c a b = Some (r, b')"
    "(r, b') = (if max_size_bytes c < total_bytes st + artifact_size a
       then (Inl (Quota_Exceeded (total_bytes st) (artifact_size a) (max_size_bytes c)), b) else store env Store_Ok a b)"
    using lb.store_within_quota[OF conjI[OF assms(1,2)] assms(3-6), of a] by blast
  then show "storage_store (cas_stats_of env readable) (store env Store_Ok) c a b =
      Some (if max_size_bytes c < total_bytes st + artifact_size a
            then (Inl (Quota_Exceeded (total_bytes st) (artifact_size a) (max_size_bytes c)), b)
            else store env Store_Ok a b)"
    by simp
qed

theorem quota_respected_witness:
  "\<exists>rs b'. store_all (cas_stats_of sample_env (\<lambda>_. True)) (store sample_env Store_Ok)
       (with_max_size 3 (local_config ''cas'')) [artifact_from_bytes sample_env 0 [1, 2] ''o'' ''s''] (new_backend [] Zstd) =
     Some (rs, b') \<and> (\<exists>st'. cas_stats_of sample_env (\<lambda>_. True) b' = Some st' \<and> total_bytes st' \<le> 3)"
proof -
  let ?c = "with_max_size 3 (local_config ''cas'')"
  have c: "max_size_bytes ?c = 3" by (simp add: with_max_size_def)
  have s: "cas_stats_of sample_env (\<lambda>_. True) (new_backend [] Zstd) =
      Some \<lparr>artifact_count = 0, total_bytes = 0, compressed_bytes = 0\<rparr>"
    by (simp add: cas_stats_of_def cas_list_def new_backend_def map_filter_simps)
  have q: "total_bytes \<lparr>artifact_count = 0, total_bytes = 0, compressed_bytes = 0\<rparr> \<le> max_size_bytes ?c"
    "0 < max_size_bytes ?c" "max_size_bytes ?c < u64_max"
    unfolding c by (simp_all add: u64_max_def)
  show ?thesis
    using quota_respected[OF sample_env_ok cas_inv_new s q, THEN conjunct1] unfolding c by blast
qed

text \<open>
  A cleanup removes exactly the entries its policy names and reports their number and
  sizes: for the policies on age, use and tags those whose metadata say so; for
  \<open>KeepMostRecent(n)\<close> all but \<open>n\<close>, and no entry that is kept is older than one that goes.
\<close>

theorem cleanup_correct:
  assumes "env_ok env" "cas_inv b"
    and all: "all = load_entries (cas_metadata env readable) b (cas_list b)"
    and es: "removals now p all = Some es" "sum_list (map (m_size \<circ> snd) es) \<le> u64_max"
  shows "\<exists>b'. cleanup cas_list (cas_metadata env readable) (cas_delete (\<lambda>_. True)) now p b =
      Some (Inr \<lparr>removed_count = length es, freed_bytes = sum_list (map (m_size \<circ> snd) es)\<rparr>, b') \<and>
    set (cas_list b') = set (cas_list b) - fst ` set es \<and>
    ((\<forall>keep. p \<noteq> Keep_Most_Recent keep) \<longrightarrow>
       set es = {(h, m). h \<in> set (cas_list b) \<and> cas_metadata env readable h b = Inr m \<and>
         should_remove_metadata now p m = Some True}) \<and>
    (\<forall>keep. p = Keep_Most_Recent keep \<longrightarrow> length es = length all - keep \<and>
       (\<forall>e \<in> set es. \<forall>k \<in> set all - set es. timestamp (snd e) \<le> timestamp (snd k)))"
proof -
  obtain b' where b': "cleanup cas_list (cas_metadata env readable) (cas_delete (\<lambda>_. True)) now p b =
      Some (Inr \<lparr>removed_count = length es, freed_bytes = sum_list (map (m_size \<circ> snd) es)\<rparr>, b')"
    "cas_list b' = filter (\<lambda>h. h \<notin> fst ` set es) (cas_list b)"
    using lb.cleanup_spec[OF conjI[OF assms(1,2)] es(1)[unfolded all] es(2)] by blast
  have "set es = {(h, m). h \<in> set (cas_list b) \<and> cas_metadata env readable h b = Inr m \<and>
         should_remove_metadata now p m = Some True}" if "\<forall>keep. p \<noteq> Keep_Most_Recent keep"
  proof -
    have "select_removals (should_remove_metadata now p) all = Some es"
      using es(1) that by (auto simp: removals_def split: cleanup_policy.splits)
    from select_removals_spec[OF this] show ?thesis
      using lb.entries_listed(3)[of _ _ env readable b "cas_list b"] by (auto simp: all)
  qed
  moreover have "length es = length all - keep \<and>
       (\<forall>e \<in> set es. \<forall>k \<in> set all - set es. timestamp (snd e) \<le> timestamp (snd k))"
    if "p = Keep_Most_Recent keep" for keep
  proof -
    let ?s = "sort_key (\<lambda>e. - timestamp (snd e)) all"
    have e: "es = drop keep ?s" using es(1) that by (simp add: removals_def)
    have "sorted (map (\<lambda>e. - timestamp (snd e)) (take keep ?s) @ map (\<lambda>e. - timestamp (snd e)) (drop keep ?s))"
      by (simp flip: map_append)
    then have le: "\<forall>k \<in> set (take keep ?s). \<forall>e \<in> set (drop keep ?s). timestamp (snd e) \<le> timestamp (snd k)"
      by (simp add: sorted_append)
    have "set all = set (take keep ?s) \<union> set (drop keep ?s)"
      by (metis append_take_drop_id set_append set_sort)
    then show ?thesis using le e by auto
  qed
  ultimately show ?thesis using b' by auto
qed

text \<open>One stored artifact, cleaned up by keeping none.\<close>

theorem cleanup_correct_witness:
  "\<exists>b b'. store sample_env Store_Ok (artifact_from_bytes sample_env 0 [1, 2] ''o'' ''s'') (new_backend [] Zstd) = (Inr (), b) \<and>
     length (cas_list b) = 1 \<and>
     cleanup cas_list (cas_metadata sample_env (\<lambda>_. True)) (cas_delete (\<lambda>_. True)) 5 (Keep_Most_Recent 0) b =
       Some (Inr \<lparr>removed_count = 1, freed_bytes = 2\<rparr>, b') \<and> cas_list b' = []"
proof -
  let ?a = "artifact_from_bytes sample_env 0 [1, 2] ''o'' ''s''"
  let ?h = "artifact_hash_of ?a"
  have a: "digest sample_env (data ?a) = ?h" "artifact_size ?a = 2"
    by (simp_all add: artifact_from_bytes_def artifact_hash_of_def artifact_size_def new_metadata_def sample_env_def)
  obtain m j raw where s: "store sample_env Store_Ok ?a (new_backend [] Zstd) =
      (Inr (), (new_backend [] Zstd)\<lparr>cas_files := hm_insert (mpath ?h) j
        (hm_insert (dpath ?h) raw (cas_files (new_backend [] Zstd)))\<rparr>)"
    "parse_meta sample_env j = Some m" "m_hash m = ?h" "m_size m = artifact_size ?a" "valid_hash ?h"
    by (rule store_contents[OF sample_env_ok a(1)])
  define b where "b = (new_backend [] Zstd)\<lparr>cas_files := hm_insert (mpath ?h) j
        (hm_insert (dpath ?h) raw (cas_files (new_backend [] Zstd)))\<rparr>"
  have f: "cas_files b = [(dpath ?h, raw), (mpath ?h, j)]" using s(5) by (simp add: b_def new_backend_def)
  have l: "cas_list b = [?h]" by (simp add: cas_list_def f map_filter_simps listed_dpath[OF s(5)] listed_mpath[OF s(5)])
  have "cas_metadata sample_env (\<lambda>_. True) ?h b = Inr m" using s(2,3,5) by (simp add: cas_metadata_def f read_meta_parse)
  then have e: "[(?h, m)] = load_entries (cas_metadata sample_env (\<lambda>_. True)) b (cas_list b)"
    by (simp add: l load_entries_def map_filter_simps)
  have inv: "cas_inv b" using store_total(1)[OF cas_inv_new refl s(5,2)] by (simp add: b_def)
  have r: "removals 5 (Keep_Most_Recent 0) [(?h, m)] = Some [(?h, m)]" by (simp add: removals_def)
  have "sum_list (map (m_size \<circ> snd) [(?h, m)]) \<le> u64_max" using s(4) a(2) by (simp add: u64_max_def)
  from cleanup_correct[OF sample_env_ok inv e r this] show ?thesis
    using s(1,4) a(2) l by (auto simp flip: b_def)
qed

text \<open>
  A limit of the largest \<open>Duration\<close> becomes \<open>-1\<close> by the cast, so that the policy removes every
  artifact stored up to now instead of none.
\<close>

lemma older_than_max_removes_all:
  "timestamp m \<le> now \<Longrightarrow> now - timestamp m < 2 ^ 63 \<Longrightarrow>
     should_remove_metadata now (Older_Than u64_max) m = Some True"
  by (simp add: should_remove_metadata_def as_i64_def sub_i64_def u64_max_def)

end
