(* ===== verification/File_Level.thy ===== *)
theory File_Level
  imports Cas_Backend Rust_Str
begin

text \<open>
  The cache of single files and the dependencies between files: \<open>FileLevelCache\<close> and
  \<open>FileDependencyGraph\<close> of \<open>fish-cache/src/file_level.rs\<close>. The cache is keyed by the text of a
  path, the dependency maps by its components, as \<open>PathBuf\<close> compares them.
\<close>

subsection \<open>The file cache\<close>

record file_cache =
  file_artifacts :: "(string, artifact_hash) hash_map"
  cas_objects :: "(artifact_hash, artifact) hash_map"

definition new_file_cache :: file_cache where
  "new_file_cache = \<lparr>file_artifacts = [], cas_objects = []\<rparr>"

definition normalize_path_key :: "string \<Rightarrow> string" where
  "normalize_path_key p = map (\<lambda>c. if c = CHR 0x5C then CHR ''/'' else c) p"

definition is_file_cached :: "string \<Rightarrow> file_cache \<Rightarrow> bool" where
  "is_file_cached p c \<longleftrightarrow> hm_get (file_artifacts c) (normalize_path_key p) \<noteq> None"

definition get_file_artifact :: "string \<Rightarrow> file_cache \<Rightarrow> artifact option" where
  "get_file_artifact p c =
     (case hm_get (file_artifacts c) (normalize_path_key p) of
        None \<Rightarrow> None
      | Some h \<Rightarrow> hm_get (cas_objects c) h)"

definition cache_file :: "string \<Rightarrow> artifact \<Rightarrow> file_cache \<Rightarrow> file_cache" where
  "cache_file p a c =
     c\<lparr>cas_objects := hm_insert (artifact_hash_of a) a (cas_objects c),
       file_artifacts := hm_insert (normalize_path_key p) (artifact_hash_of a) (file_artifacts c)\<rparr>"

definition invalidate_file :: "string \<Rightarrow> file_cache \<Rightarrow> file_cache" where
  "invalidate_file p c = c\<lparr>file_artifacts := hm_remove (normalize_path_key p) (file_artifacts c)\<rparr>"

fun starts_with :: "string \<Rightarrow> string \<Rightarrow> bool" where
  "starts_with s p \<longleftrightarrow> strip_prefix p s \<noteq> None"

definition invalidate_directory :: "string \<Rightarrow> file_cache \<Rightarrow> file_cache" where
  "invalidate_directory d c =
     (let dir_key = normalize_path_key d;
          dir_key = (if dir_key \<noteq> [] \<and> last dir_key = CHR ''/'' then dir_key else dir_key @ ''/'')
      in c\<lparr>file_artifacts := filter (\<lambda>(key, _). \<not> starts_with key dir_key) (file_artifacts c)\<rparr>)"

record file_cache_stats =
  total_files :: nat
  total_artifacts :: nat

definition file_stats :: "file_cache \<Rightarrow> file_cache_stats" where
  "file_stats c = \<lparr>total_files = length (file_artifacts c), total_artifacts = length (cas_objects c)\<rparr>"

subsection \<open>File dependencies\<close>

type_synonym path_map = "(bool \<times> string list, string list) hash_map"

record file_deps =
  fd_dependencies :: path_map
  fd_reverse :: path_map

definition new_file_deps :: file_deps where
  "new_file_deps = \<lparr>fd_dependencies = [], fd_reverse = []\<rparr>"

definition push_path :: "string \<Rightarrow> string \<Rightarrow> path_map \<Rightarrow> path_map" where
  "push_path k v m =
     (case hm_get m (path_components k) of
        None \<Rightarrow> hm_insert (path_components k) [v] m
      | Some vs \<Rightarrow> hm_insert (path_components k) (vs @ [v]) m)"

definition add_file_dependency :: "string \<Rightarrow> string \<Rightarrow> file_deps \<Rightarrow> file_deps" where
  "add_file_dependency file depends_on g =
     g\<lparr>fd_dependencies := push_path file depends_on (fd_dependencies g),
       fd_reverse := push_path depends_on file (fd_reverse g)\<rparr>"

definition get_dependents :: "string \<Rightarrow> file_deps \<Rightarrow> string list" where
  "get_dependents file g = (case hm_get (fd_reverse g) (path_components file) of None \<Rightarrow> [] | Some vs \<Rightarrow> vs)"

text \<open>The paths that can come into the queue.\<close>

definition known_paths :: "file_deps \<Rightarrow> (bool \<times> string list) set" where
  "known_paths g = fst ` set (fd_reverse g)"

lemma finite_known [simp]: "finite (known_paths g)"
  by (simp add: known_paths_def)

lemma dependents_known: "get_dependents p g \<noteq> [] \<Longrightarrow> path_components p \<in> known_paths g"
  by (auto simp: get_dependents_def known_paths_def hm_get_key split: option.splits)

text \<open>
  The queue is a stack: the last path pushed is the next popped. \<open>visited\<close> is a set of paths.
\<close>

function invalidate_loop ::
  "file_deps \<Rightarrow> string list \<Rightarrow> (bool \<times> string list) list \<Rightarrow> file_cache \<Rightarrow> file_cache"
where
  "invalidate_loop g [] visited c = c"
| "invalidate_loop g (current # queue) visited c =
     (if path_components current \<in> set visited then invalidate_loop g queue visited c
      else
        let visited' = path_components current # visited;
            new = filter (\<lambda>d. path_components d \<notin> set visited') (get_dependents current g)
        in invalidate_loop g (rev new @ queue) visited' (invalidate_file current c))"
  by pat_completeness auto
termination invalidate_loop
proof (relation "measures [\<lambda>(g, queue, visited, c). card (known_paths g - set visited),
    \<lambda>(g, queue, visited, c). length queue]", goal_cases)
  case (3 g current queue visited c visited' new)
  show ?case
  proof (cases "get_dependents current g = []")
    case True
    then have "card (known_paths g - set visited') \<le> card (known_paths g - set visited)"
      using 3(2) by (intro card_mono) auto
    then show ?thesis using True 3(2,3) by auto
  next
    case False
    then have "known_paths g - set visited' \<subset> known_paths g - set visited"
      using 3(1,2) dependents_known[OF False] by auto
    then have "card (known_paths g - set visited') < card (known_paths g - set visited)"
      by (intro psubset_card_mono) auto
    then show ?thesis by simp
  qed
qed simp_all

definition invalidate_with_dependents :: "string \<Rightarrow> file_deps \<Rightarrow> file_cache \<Rightarrow> file_cache" where
  "invalidate_with_dependents file g c = invalidate_loop g [file] [] c"

subsection \<open>Dependency files\<close>

text \<open>\<open>content.replace("\\\r\n", " ").replace("\\\n", " ")\<close>.\<close>

fun join_crlf :: "string \<Rightarrow> string" where
  "join_crlf (a # b # c # s) =
     (if a = CHR 0x5C \<and> b = CHR 0x0D \<and> c = CHR 0x0A then CHR '' '' # join_crlf s
      else a # join_crlf (b # c # s))"
| "join_crlf s = s"

fun join_lf :: "string \<Rightarrow> string" where
  "join_lf (a # b # s) =
     (if a = CHR 0x5C \<and> b = CHR 0x0A then CHR '' '' # join_lf s else a # join_lf (b # s))"
| "join_lf s = s"

definition parse_dep_line :: "string \<Rightarrow> file_deps \<Rightarrow> file_deps" where
  "parse_dep_line raw g =
     (let line = trim raw in
      if line = [] \<or> hd line = CHR ''#'' then g
      else if CHR '':'' \<in> set line then
        let target = trim (takeWhile (\<lambda>c. c \<noteq> CHR '':'') line);
            deps_str = trim (tl (dropWhile (\<lambda>c. c \<noteq> CHR '':'') line))
        in if target = [] then g
           else foldl (\<lambda>g d. add_file_dependency target d g) g (split_whitespace deps_str)
      else g)"

text \<open>The content of the file, if it can be read.\<close>

definition parse_dep_file :: "string option \<Rightarrow> file_deps \<Rightarrow> (unit + unit) \<times> file_deps" where
  "parse_dep_file content g =
     (case content of
        None \<Rightarrow> (Inl (), g)
      | Some s \<Rightarrow> (Inr (), foldl (\<lambda>g l. parse_dep_line l g) g (str_lines (join_lf (join_crlf s)))))"

subsection \<open>What the operations do\<close>

lemma cached_after_cache: "is_file_cached q (cache_file p a c) \<longleftrightarrow> normalize_path_key q = normalize_path_key p \<or> is_file_cached q c"
  by (simp add: is_file_cached_def cache_file_def)

lemma get_after_cache:
  "get_file_artifact q (cache_file p a c) =
     (if normalize_path_key q = normalize_path_key p then Some a
      else if hm_get (file_artifacts c) (normalize_path_key q) = Some (artifact_hash_of a) then Some a
      else get_file_artifact q c)"
  by (simp add: get_file_artifact_def cache_file_def split: option.splits)

lemma cached_after_invalidate:
  "is_file_cached q (invalidate_file p c) \<longleftrightarrow> normalize_path_key q \<noteq> normalize_path_key p \<and> is_file_cached q c"
  by (simp add: is_file_cached_def invalidate_file_def)

lemma strip_prefix_iff: "strip_prefix p s \<noteq> None \<longleftrightarrow> (\<exists>r. s = p @ r)"
  by (induction p s rule: strip_prefix.induct) auto

text \<open>A whole directory: the files below it go, and a sibling whose name only starts alike stays.\<close>

lemma cached_after_directory:
  assumes "normalize_path_key d \<noteq> []" "last (normalize_path_key d) \<noteq> CHR ''/''"
  shows "is_file_cached q (invalidate_directory d c) \<longleftrightarrow>
    is_file_cached q c \<and> \<not> (\<exists>r. normalize_path_key q = normalize_path_key d @ ''/'' @ r)"
proof -
  have *: "hm_get (filter (\<lambda>(k, _). P k) m) k = (if P k then hm_get m k else None)" for P k and m :: "(string, artifact_hash) hash_map"
    by (induction m) auto
  show ?thesis
    using assms strip_prefix_iff[of "normalize_path_key d @ ''/''" "normalize_path_key q"]
    by (auto simp: is_file_cached_def invalidate_directory_def Let_def *)
qed

subsection \<open>Invalidation reaches all dependents\<close>

text \<open>\<open>(a, b)\<close>: file \<open>a\<close> depends on \<open>b\<close>, by the components of their paths.\<close>

definition file_rel :: "file_deps \<Rightarrow> ((bool \<times> string list) \<times> (bool \<times> string list)) set" where
  "file_rel g = {(path_components a, path_components b) | a b. a \<in> set (get_dependents b g)}"

lemma file_relI: "a \<in> set (get_dependents b g) \<Longrightarrow> (path_components a, path_components b) \<in> file_rel g"
  by (auto simp: file_rel_def)

lemma file_relE:
  assumes "(x, path_components b) \<in> file_rel g"
  obtains a where "a \<in> set (get_dependents b g)" "x = path_components a"
proof -
  obtain a b' where "x = path_components a" "path_components b = path_components b'" "a \<in> set (get_dependents b' g)"
    using assms by (auto simp: file_rel_def)
  moreover from this(2) have "get_dependents b' g = get_dependents b g" by (simp add: get_dependents_def)
  ultimately show thesis using that by simp
qed

lemma get_dependents_add:
  "get_dependents q (add_file_dependency file depends_on g) =
     get_dependents q g @ (if path_components q = path_components depends_on then [file] else [])"
  by (auto simp: get_dependents_def add_file_dependency_def push_path_def split: option.splits)

lemma file_rel_add:
  "file_rel (add_file_dependency file depends_on g) =
     insert (path_components file, path_components depends_on) (file_rel g)"
  by (auto simp: file_rel_def get_dependents_add)

text \<open>
  What the loop invalidates: paths that reach the start along dependencies, one for each
  component list, and it stops only when these are closed.
\<close>

definition loop_inv :: "file_deps \<Rightarrow> string \<Rightarrow> string list \<Rightarrow> string list \<Rightarrow> (bool \<times> string list) list \<Rightarrow> bool" where
  "loop_inv g start queue seen visited \<longleftrightarrow>
     set visited = path_components ` set seen \<and>
     (\<forall>p \<in> set seen \<union> set queue. (path_components p, path_components start) \<in> (file_rel g)\<^sup>*) \<and>
     path_components start \<in> path_components ` (set seen \<union> set queue) \<and>
     (\<forall>p \<in> set seen. \<forall>d \<in> set (get_dependents p g). path_components d \<in> path_components ` (set seen \<union> set queue))"

lemma invalidate_loop_spec:
  assumes "loop_inv g start queue seen visited"
    "\<And>k. hm_get (file_artifacts c) k = (if k \<in> normalize_path_key ` set seen then None else m k)"
  shows "\<exists>seen'. path_components ` set seen' = {x. (x, path_components start) \<in> (file_rel g)\<^sup>*} \<and>
    set seen' \<subseteq> set seen \<union> set queue \<union> {d. \<exists>p. d \<in> set (get_dependents p g)} \<and>
    (\<forall>k. hm_get (file_artifacts (invalidate_loop g queue visited c)) k =
       (if k \<in> normalize_path_key ` set seen' then None else m k))"
  using assms
proof (induction g queue visited c arbitrary: seen rule: invalidate_loop.induct)
  case (1 g visited c)
  have "x \<in> path_components ` set seen" if "(x, path_components start) \<in> (file_rel g)\<^sup>*" for x
    using that
  proof (induction rule: converse_rtrancl_induct)
    case base
    then show ?case using "1.prems"(1) by (simp add: loop_inv_def)
  next
    case (step y z)
    then obtain p where p: "p \<in> set seen" "z = path_components p" by blast
    obtain a where "a \<in> set (get_dependents p g)" "y = path_components a"
      using step(1) unfolding p(2) by (rule file_relE)
    then show ?case using "1.prems"(1) p(1) by (auto simp: loop_inv_def)
  qed
  then have "path_components ` set seen = {x. (x, path_components start) \<in> (file_rel g)\<^sup>*}"
    using "1.prems"(1) by (auto simp: loop_inv_def)
  then show ?case using "1.prems"(2) by (intro exI[of _ seen]) auto
next
  case (2 g current queue visited c)
  show ?case
  proof (cases "path_components current \<in> set visited")
    case True
    then have "path_components ` (set seen \<union> set (current # queue)) = path_components ` (set seen \<union> set queue)"
      using "2.prems"(1) by (auto simp: loop_inv_def)
    then have "loop_inv g start queue seen visited"
      using "2.prems"(1) unfolding loop_inv_def by simp
    then obtain seen' where "path_components ` set seen' = {x. (x, path_components start) \<in> (file_rel g)\<^sup>*}"
      "set seen' \<subseteq> set seen \<union> set queue \<union> {d. \<exists>p. d \<in> set (get_dependents p g)}"
      "\<forall>k. hm_get (file_artifacts (invalidate_loop g queue visited c)) k =
         (if k \<in> normalize_path_key ` set seen' then None else m k)"
      using "2.IH"(1)[OF True _ "2.prems"(2)] by blast
    then show ?thesis using True by (intro exI[of _ seen']) auto
  next
    case False
    let ?v = "path_components current # visited"
    let ?new = "filter (\<lambda>d. path_components d \<notin> set ?v) (get_dependents current g)"
    have cur: "(path_components current, path_components start) \<in> (file_rel g)\<^sup>*"
      using "2.prems"(1) by (simp add: loop_inv_def)
    have reach: "(path_components d, path_components start) \<in> (file_rel g)\<^sup>*" if "d \<in> set (get_dependents current g)" for d
      using file_relI[OF that] cur by (rule converse_rtrancl_into_rtrancl)
    have old: "path_components ` (set seen \<union> set (current # queue)) \<subseteq>
        path_components ` (set (current # seen) \<union> set (rev ?new @ queue))"
      by auto
    have new: "path_components d \<in> path_components ` (set (current # seen) \<union> set (rev ?new @ queue))"
      if d: "d \<in> set (get_dependents current g)" for d
    proof (cases "path_components d \<in> set ?v")
      case True
      then show ?thesis using "2.prems"(1) by (auto simp: loop_inv_def)
    next
      case False
      then show ?thesis using d by auto
    qed
    note I = "2.prems"(1)[unfolded loop_inv_def]
    have inv: "loop_inv g start (rev ?new @ queue) (current # seen) ?v"
      unfolding loop_inv_def
    proof (intro conjI ballI)
      show "set ?v = path_components ` set (current # seen)" using I by simp
      show "path_components start \<in> path_components ` (set (current # seen) \<union> set (rev ?new @ queue))"
        using I old by blast
    next
      fix p
      assume "p \<in> set (current # seen) \<union> set (rev ?new @ queue)"
      then show "(path_components p, path_components start) \<in> (file_rel g)\<^sup>*"
        using I cur reach by auto
    next
      fix p d
      assume "p \<in> set (current # seen)" "d \<in> set (get_dependents p g)"
      then show "path_components d \<in> path_components ` (set (current # seen) \<union> set (rev ?new @ queue))"
      proof (cases "p \<in> set seen")
        case True
        then have "path_components d \<in> path_components ` (set seen \<union> set (current # queue))"
          using I \<open>d \<in> set (get_dependents p g)\<close> by blast
        then show ?thesis using old by (rule rev_subsetD)
      next
        case False
        then have "p = current" using \<open>p \<in> set (current # seen)\<close> by simp
        then show ?thesis using new \<open>d \<in> set (get_dependents p g)\<close> by (simp only:)
      qed
    qed
    have m: "hm_get (file_artifacts (invalidate_file current c)) k =
        (if k \<in> normalize_path_key ` set (current # seen) then None else m k)" for k
      using "2.prems"(2) by (simp add: invalidate_file_def)
    obtain seen' where s: "path_components ` set seen' = {x. (x, path_components start) \<in> (file_rel g)\<^sup>*}"
      "set seen' \<subseteq> set (current # seen) \<union> set (rev ?new @ queue) \<union> {d. \<exists>p. d \<in> set (get_dependents p g)}"
      "\<forall>k. hm_get (file_artifacts (invalidate_loop g (rev ?new @ queue) ?v (invalidate_file current c))) k =
         (if k \<in> normalize_path_key ` set seen' then None else m k)"
      using "2.IH"(2)[OF False refl refl inv m] by blast
    have "set seen' \<subseteq> set seen \<union> set (current # queue) \<union> {d. \<exists>p. d \<in> set (get_dependents p g)}"
      using s(2) by auto
    then show ?thesis using s(1,3) False by (intro exI[of _ seen']) (simp add: Let_def)
  qed
qed

text \<open>
  Invalidating a file takes the file and all that depend on it, directly or not, out of the
  cache and nothing else, provided that paths are written in one way: no two paths among the
  dependencies and the question differ as text while they have the same components.
\<close>

theorem invalidate_with_dependents_correct:
  assumes one_way: "inj_on path_components (insert q (insert start {d. \<exists>p. d \<in> set (get_dependents p g)}))"
    and sep: "CHR 0x5C \<notin> set q" "CHR 0x5C \<notin> set start" "\<And>p d. d \<in> set (get_dependents p g) \<Longrightarrow> CHR 0x5C \<notin> set d"
  shows "is_file_cached q (invalidate_with_dependents start g c) \<longleftrightarrow>
    is_file_cached q c \<and> (path_components q, path_components start) \<notin> (file_rel g)\<^sup>*"
proof -
  have norm: "normalize_path_key p = p" if "CHR 0x5C \<notin> set p" for p
    using that by (induction p) (auto simp: normalize_path_key_def)
  obtain seen where s: "path_components ` set seen = {x. (x, path_components start) \<in> (file_rel g)\<^sup>*}"
    "set seen \<subseteq> {start} \<union> {d. \<exists>p. d \<in> set (get_dependents p g)}"
    "hm_get (file_artifacts (invalidate_loop g [start] [] c)) k =
       (if k \<in> normalize_path_key ` set seen then None else hm_get (file_artifacts c) k)" for k
    using invalidate_loop_spec[where g = g and start = start and queue = "[start]" and seen = "[]" and visited = "[]"
        and c = c and m = "hm_get (file_artifacts c)"]
    by (auto simp: loop_inv_def)
  have "normalize_path_key p = p" if "p \<in> set seen" for p
    using that s(2) sep(2,3) by (intro norm) auto
  then have "normalize_path_key ` set seen = set seen" by force
  moreover have "q \<in> set seen \<longleftrightarrow> path_components q \<in> path_components ` set seen"
    using s(2) one_way by (auto dest!: inj_onD)
  ultimately show ?thesis
    by (simp add: is_file_cached_def invalidate_with_dependents_def s(1,3) norm[OF sep(1)] del: invalidate_loop.simps)
qed

end
