(* ===== verification/Virtual_Fs.thy ===== *)
theory Virtual_Fs
  imports Fish_Prelude "HOL-Library.Sublist" "HOL-Library.Word"
begin

text \<open>
  The file tree a remote worker reads its sources from, \<open>VirtualFileSystem\<close> of
  \<open>fish-worker/src/virtual_fs.rs\<close>: the tree, the operations that walk it, the read cache with its
  byte budget, and mounting a local directory. A \<open>Path\<close> is the list its \<open>iter()\<close> yields, by which
  paths are also compared and hashed. Readers work under separate locks, so a reader in flight is
  part of the state of \<open>vfs_step\<close>.
\<close>

subsection \<open>Nodes\<close>

datatype path_part = Utf8 string | Not_Utf8 "8 word list"

type_synonym vfs_path = "path_part list"

text \<open>\<open>filter_map(|c| c.to_str())\<close>: parts that are not UTF-8 are skipped.\<close>

fun to_str :: "path_part \<Rightarrow> string option" where
  "to_str (Utf8 s) = Some s"
| "to_str (Not_Utf8 _) = None"

definition path_names :: "vfs_path \<Rightarrow> string list" where
  "path_names p = List.map_filter to_str p"

record file_metadata =
  md_size :: nat
  md_modified :: nat
  md_executable :: bool

datatype vfs_node =
    Vfs_File "8 word list" file_metadata
  | Vfs_Dir "(string \<times> vfs_node) list" file_metadata

datatype vfs_error = Not_Found string | Invalid_Path string | Vfs_Io

record virtual_fs =
  vfs_root :: vfs_node
  cache_entries :: "(vfs_path, 8 word list) hash_map"
  cache_bytes :: nat
  max_cache_bytes :: nat

definition empty_dir :: vfs_node where
  "empty_dir = Vfs_Dir [] \<lparr>md_size = 0, md_modified = 0, md_executable = False\<rparr>"

definition new_vfs :: "nat \<Rightarrow> virtual_fs" where
  "new_vfs limit = \<lparr>vfs_root = empty_dir, cache_entries = [], cache_bytes = 0, max_cache_bytes = limit\<rparr>"

subsection \<open>Walking the tree\<close>

text \<open>The components from \<open>index\<close> on are the list.\<close>

fun traverse_node :: "vfs_node \<Rightarrow> string list \<Rightarrow> vfs_error + 8 word list" where
  "traverse_node (Vfs_File content _) cs =
     (if cs = [] then Inr content else Inl (Invalid_Path ''Path too long for file''))"
| "traverse_node (Vfs_Dir children _) [] = Inl (Invalid_Path ''Path too short for directory'')"
| "traverse_node (Vfs_Dir children _) (c # cs) =
     (case hm_get children c of
        None \<Rightarrow> Inl (Not_Found c)
      | Some child \<Rightarrow> traverse_node child cs)"

definition read_from_node :: "vfs_node \<Rightarrow> vfs_path \<Rightarrow> vfs_error + 8 word list" where
  "read_from_node node p =
     (if path_names p = [] then Inl (Invalid_Path ''Empty path'') else traverse_node node (path_names p))"

fun traverse_and_write ::
  "vfs_node \<Rightarrow> string list \<Rightarrow> 8 word list \<Rightarrow> file_metadata \<Rightarrow> (vfs_error + unit) \<times> vfs_node"
where
  "traverse_and_write (Vfs_File old om) cs content m =
     (if cs = [] then (Inr (), Vfs_File content m)
      else (Inl (Invalid_Path ''Cannot traverse through file''), Vfs_File old om))"
| "traverse_and_write (Vfs_Dir children dm) [] content m =
     (Inl (Invalid_Path ''Path too short''), Vfs_Dir children dm)"
| "traverse_and_write (Vfs_Dir children dm) [c] content m =
     (Inr (), Vfs_Dir (hm_insert c (Vfs_File content m) children) dm)"
| "traverse_and_write (Vfs_Dir children dm) (c # d # cs) content m =
     (let child = (case hm_get children c of None \<Rightarrow> empty_dir | Some n \<Rightarrow> n)
      in case traverse_and_write child (d # cs) content m of
           (r, child') \<Rightarrow> (r, Vfs_Dir (hm_insert c child' children) dm))"

definition write_to_node ::
  "vfs_node \<Rightarrow> vfs_path \<Rightarrow> 8 word list \<Rightarrow> file_metadata \<Rightarrow> (vfs_error + unit) \<times> vfs_node"
where
  "write_to_node node p content m =
     (if path_names p = [] then (Inl (Invalid_Path ''Empty path''), node)
      else traverse_and_write node (path_names p) content m)"

definition write_file ::
  "vfs_path \<Rightarrow> 8 word list \<Rightarrow> file_metadata \<Rightarrow> virtual_fs \<Rightarrow> (vfs_error + unit) \<times> virtual_fs"
where
  "write_file p content m v =
     (case write_to_node (vfs_root v) p content m of (r, root') \<Rightarrow> (r, v\<lparr>vfs_root := root'\<rparr>))"

fun traverse_exists :: "vfs_node \<Rightarrow> string list \<Rightarrow> bool" where
  "traverse_exists (Vfs_File _ _) cs \<longleftrightarrow> cs = []"
| "traverse_exists (Vfs_Dir children _) [] \<longleftrightarrow> False"
| "traverse_exists (Vfs_Dir children _) (c # cs) \<longleftrightarrow>
     (case hm_get children c of Some child \<Rightarrow> traverse_exists child cs | None \<Rightarrow> False)"

definition vfs_exists :: "vfs_path \<Rightarrow> virtual_fs \<Rightarrow> bool" where
  "vfs_exists p v \<longleftrightarrow> (if path_names p = [] then True else traverse_exists (vfs_root v) (path_names p))"

fun traverse_metadata :: "vfs_node \<Rightarrow> string list \<Rightarrow> vfs_error + bool \<times> file_metadata" where
  "traverse_metadata (Vfs_File _ m) cs =
     (if cs = [] then Inr (True, m) else Inl (Invalid_Path ''Path too long for file''))"
| "traverse_metadata (Vfs_Dir children m) [] = Inr (False, m)"
| "traverse_metadata (Vfs_Dir children m) (c # cs) =
     (case hm_get children c of
        None \<Rightarrow> Inl (Not_Found c)
      | Some child \<Rightarrow> traverse_metadata child cs)"

definition vfs_metadata :: "vfs_path \<Rightarrow> virtual_fs \<Rightarrow> vfs_error + file_metadata" where
  "vfs_metadata p v =
     (case traverse_metadata (vfs_root v) (path_names p) of Inl e \<Rightarrow> Inl e | Inr (_, m) \<Rightarrow> Inr m)"

text \<open>The names of a directory, in the order the map is iterated.\<close>

fun traverse_list :: "vfs_node \<Rightarrow> string list \<Rightarrow> vfs_error + string list" where
  "traverse_list (Vfs_File _ _) cs = Inl (Invalid_Path ''Cannot list file'')"
| "traverse_list (Vfs_Dir children _) [] = Inr (hm_keys children)"
| "traverse_list (Vfs_Dir children _) (c # cs) =
     (case hm_get children c of
        None \<Rightarrow> Inl (Not_Found c)
      | Some child \<Rightarrow> traverse_list child cs)"

definition list_directory :: "vfs_path \<Rightarrow> virtual_fs \<Rightarrow> vfs_error + string list" where
  "list_directory p v = traverse_list (vfs_root v) (path_names p)"

subsection \<open>The read cache\<close>

text \<open>The last part of \<open>read_file\<close>, under the write lock of the cache.\<close>

definition memoize :: "vfs_path \<Rightarrow> 8 word list \<Rightarrow> virtual_fs \<Rightarrow> virtual_fs option" where
  "memoize p content v =
     (if hm_get (cache_entries v) p \<noteq> None then Some v
      else if saturating_add (cache_bytes v) (length content) \<le> max_cache_bytes v
      then map_option (\<lambda>n. v\<lparr>cache_entries := hm_insert p content (cache_entries v), cache_bytes := n\<rparr>)
             (add_u64 (cache_bytes v) (length content))
      else Some v)"

definition read_file :: "vfs_path \<Rightarrow> virtual_fs \<Rightarrow> ((vfs_error + 8 word list) \<times> virtual_fs) option" where
  "read_file p v =
     (case hm_get (cache_entries v) p of
        Some cached \<Rightarrow> Some (Inr cached, v)
      | None \<Rightarrow>
          (case read_from_node (vfs_root v) p of
             Inl e \<Rightarrow> Some (Inl e, v)
           | Inr content \<Rightarrow> map_option (\<lambda>v'. (Inr content, v')) (memoize p content v)))"

definition clear_cache :: "virtual_fs \<Rightarrow> virtual_fs" where
  "clear_cache v = v\<lparr>cache_entries := [], cache_bytes := 0\<rparr>"

record vfs_cache_stats =
  vs_entries :: nat
  vs_total_size :: nat
  vs_max_size :: nat

definition vfs_cache_stats_of :: "virtual_fs \<Rightarrow> vfs_cache_stats" where
  "vfs_cache_stats_of v =
     \<lparr>vs_entries = length (cache_entries v), vs_total_size = cache_bytes v, vs_max_size = max_cache_bytes v\<rparr>"

subsection \<open>Mounting\<close>

text \<open>
  What a local path is: a file with its content, if it can be read, the time of its last change
  and whether it is executable; a directory with its entries, if it can be listed, each with its
  name; or something else.
\<close>

datatype local_entry =
    Local_File "8 word list option" nat bool
  | Local_Dir "(string \<times> local_entry) option list option"
  | Local_Other

function mount_recursive :: "local_entry \<Rightarrow> vfs_path \<Rightarrow> virtual_fs \<Rightarrow> (vfs_error + unit) \<times> virtual_fs"
  and mount_entries ::
    "(string \<times> local_entry) option list \<Rightarrow> vfs_path \<Rightarrow> virtual_fs \<Rightarrow> (vfs_error + unit) \<times> virtual_fs"
where
  "mount_recursive (Local_File content modified exec) p v =
     (case content of
        None \<Rightarrow> (Inl Vfs_Io, v)
      | Some c \<Rightarrow> write_file p c \<lparr>md_size = length c, md_modified = modified, md_executable = exec\<rparr> v)"
| "mount_recursive (Local_Dir (Some entries)) p v = mount_entries entries p v"
| "mount_recursive (Local_Dir None) p v = (Inl Vfs_Io, v)"
| "mount_recursive Local_Other p v = (Inr (), v)"
| "mount_entries [] p v = (Inr (), v)"
| "mount_entries (None # es) p v = (Inl Vfs_Io, v)"
| "mount_entries (Some (name, e) # es) p v =
     (case mount_recursive e (p @ [Utf8 name]) v of
        (Inl err, v') \<Rightarrow> (Inl err, v')
      | (Inr _, v') \<Rightarrow> mount_entries es p v')"
  by pat_completeness auto
termination
  by (relation "measure (case_sum (\<lambda>(e, _). size e)
        (\<lambda>(es, _). size_list (size_option (\<lambda>x. Suc (size (snd x)))) es))") (auto simp: size_prod_simp)

text \<open>The canonical local path, if there is one.\<close>

definition mount_local :: "local_entry option \<Rightarrow> vfs_path \<Rightarrow> virtual_fs \<Rightarrow> (vfs_error + unit) \<times> virtual_fs" where
  "mount_local e p v = (case e of None \<Rightarrow> (Inl Vfs_Io, v) | Some l \<Rightarrow> mount_recursive l p v)"

subsection \<open>The files of a tree\<close>

text \<open>The tree as a map from paths to files.\<close>

fun files_of :: "vfs_node \<Rightarrow> string list \<Rightarrow> (8 word list \<times> file_metadata) option" where
  "files_of (Vfs_File content m) cs = (if cs = [] then Some (content, m) else None)"
| "files_of (Vfs_Dir children _) [] = None"
| "files_of (Vfs_Dir children _) (c # cs) =
     (case hm_get children c of None \<Rightarrow> None | Some child \<Rightarrow> files_of child cs)"

text \<open>
  Directories other than the root come into being on the way to a file, so they are never empty;
  and no name occurs twice.
\<close>

fun tree_ok :: "vfs_node \<Rightarrow> bool" where
  "tree_ok (Vfs_File _ _) \<longleftrightarrow> True"
| "tree_ok (Vfs_Dir children _) \<longleftrightarrow>
     distinct (hm_keys children) \<and>
     (\<forall>(k, n) \<in> set children. tree_ok n \<and> (\<forall>m. n \<noteq> Vfs_Dir [] m))"

abbreviation is_dir :: "vfs_node \<Rightarrow> bool" where
  "is_dir n \<equiv> \<exists>children m. n = Vfs_Dir children m"

lemma files_of_empty [simp]: "files_of empty_dir cs = None"
  by (cases cs) (simp_all add: empty_dir_def)

lemma traverse_node_files: "traverse_node n cs = Inr b \<longleftrightarrow> (\<exists>m. files_of n cs = Some (b, m))"
  by (induction n cs rule: traverse_node.induct) (auto split: option.splits)

lemma traverse_exists_files: "traverse_exists n cs \<longleftrightarrow> files_of n cs \<noteq> None"
  by (induction n cs rule: traverse_exists.induct) (auto split: option.splits)

lemma traverse_metadata_files:
  "traverse_metadata n cs = Inr (True, m) \<longleftrightarrow> (\<exists>b. files_of n cs = Some (b, m))"
  by (induction n cs rule: traverse_metadata.induct) (auto split: option.splits)

text \<open>Below a file there is nothing.\<close>

lemma files_of_below: "files_of n p \<noteq> None \<Longrightarrow> strict_prefix p q \<Longrightarrow> files_of n q = None"
proof (induction n p arbitrary: q rule: files_of.induct)
  case (3 children m c cs)
  then show ?case by (cases q) (auto split: option.splits)
qed (auto split: if_splits)

lemma write_keeps_dir: "is_dir n \<Longrightarrow> is_dir (snd (traverse_and_write n cs b m))"
  by (induction n cs b m rule: traverse_and_write.induct) (auto split: prod.splits)

text \<open>
  A write fails exactly when a proper prefix of the path is a file, and then changes nothing.
  Otherwise the file is there afterwards, what was below its path is gone, and nothing else changes.
\<close>

lemma write_blocked:
  assumes "strict_prefix pre cs" "files_of n pre \<noteq> None"
  shows "\<exists>e. traverse_and_write n cs b m = (Inl e, n)"
  using assms
proof (induction n cs b m arbitrary: pre rule: traverse_and_write.induct)
  case (1 old om cs b m)
  then show ?case by (auto split: if_splits)
next
  case (3 children dm c b m)
  then show ?case by (cases pre) auto
next
  case (4 children dm c d cs b m)
  then obtain pre' where pre: "pre = c # pre'" "strict_prefix pre' (d # cs)"
    by (cases pre) auto
  then obtain child where child: "hm_get children c = Some child" "files_of child pre' \<noteq> None"
    using 4(3) by (auto split: option.splits)
  then have "\<exists>e. traverse_and_write child (d # cs) b m = (Inl e, child)"
    using "4.IH"[OF refl pre(2)] by simp
  then show ?case using child(1) by (auto simp: update_triv)
qed auto

lemma write_effect:
  assumes "cs \<noteq> []" "is_dir n" "\<forall>pre. strict_prefix pre cs \<longrightarrow> files_of n pre = None"
  shows "\<exists>n'. traverse_and_write n cs b m = (Inr (), n') \<and>
    files_of n' q = (if q = cs then Some (b, m) else if strict_prefix cs q then None else files_of n q)"
  using assms
proof (induction n cs b m arbitrary: q rule: traverse_and_write.induct)
  case (3 children dm c b m)
  show ?case
  proof (cases q)
    case (Cons x xs)
    then show ?thesis by (cases xs) (auto split: option.splits)
  qed simp
next
  case (4 children dm c d cs b m)
  define child where "child = (case hm_get children c of None \<Rightarrow> empty_dir | Some n \<Rightarrow> n)"
  have child: "files_of child pre = files_of (Vfs_Dir children dm) (c # pre)" for pre
    by (simp add: child_def split: option.splits)
  have "files_of child [] = None"
    using 4(4) child[of "[]"] by (auto dest: spec[of _ "[c]"])
  then have dir: "is_dir child" by (cases child) auto
  have clear: "\<forall>pre. strict_prefix pre (d # cs) \<longrightarrow> files_of child pre = None"
    using 4(4) child by (metis (no_types, lifting) Cons_prefix_Cons strict_prefix_def list.inject)
  show ?case
  proof (cases q)
    case Nil
    then show ?thesis
      using "4.IH"[OF child_def _ dir clear, of "[]"] by (auto simp: child_def[symmetric])
  next
    case (Cons x xs)
    show ?thesis
      using "4.IH"[OF child_def _ dir clear, of xs] child[of xs]
      unfolding Cons by (auto simp: child_def[symmetric] strict_prefix_def split: option.splits)
  qed
qed auto

lemma set_hm_insert: "set (hm_insert k v m) \<subseteq> insert (k, v) (set m)"
  by (induction m) auto

lemma tree_ok_child: "tree_ok (Vfs_Dir children m) \<Longrightarrow> hm_get children c = Some n \<Longrightarrow> tree_ok n \<and> (\<forall>m. n \<noteq> Vfs_Dir [] m)"
  by (auto dest!: map_of_SomeD)

lemma tree_ok_insert:
  assumes "tree_ok (Vfs_Dir children dm)" "tree_ok n" "\<And>m. n \<noteq> Vfs_Dir [] m"
  shows "tree_ok (Vfs_Dir (hm_insert c n children) dm)"
proof -
  have "tree_ok x \<and> (\<forall>m. x \<noteq> Vfs_Dir [] m)" if "(k, x) \<in> set (hm_insert c n children)" for k x
    using subsetD[OF set_hm_insert that] assms by auto
  then show ?thesis using assms(1) by (auto simp: distinct_update simp del: not_Cons_self2)
qed

lemma hm_insert_not_Nil [simp]: "hm_insert k v m \<noteq> []"
  by (cases m) auto

lemma tree_ok_write:
  assumes "tree_ok n" "is_dir n" "cs \<noteq> []" "\<forall>pre. strict_prefix pre cs \<longrightarrow> files_of n pre = None"
    "traverse_and_write n cs b m = (r, n')"
  shows "tree_ok n' \<and> (\<forall>m. n' \<noteq> Vfs_Dir [] m)"
  using assms
proof (induction n cs b m arbitrary: r n' rule: traverse_and_write.induct)
  case (3 children dm c b m)
  then show ?case using tree_ok_insert[OF 3(1), of "Vfs_File b m" c] by auto
next
  case (4 children dm c d cs b m)
  define child where "child = (case hm_get children c of None \<Rightarrow> empty_dir | Some n \<Rightarrow> n)"
  have child: "files_of child pre = files_of (Vfs_Dir children dm) (c # pre)" for pre
    by (simp add: child_def split: option.splits)
  have "files_of child [] = None"
    using 4(5) child[of "[]"] by (auto dest: spec[of _ "[c]"])
  then have dir: "is_dir child" by (cases child) auto
  have clear: "\<forall>pre. strict_prefix pre (d # cs) \<longrightarrow> files_of child pre = None"
    using 4(5) child by (metis (no_types, lifting) Cons_prefix_Cons strict_prefix_def list.inject)
  have ok: "tree_ok child"
    using tree_ok_child[OF 4(2)] by (auto simp: child_def empty_dir_def split: option.splits)
  obtain r1 child' where w: "traverse_and_write child (d # cs) b m = (r1, child')" by force
  have "n' = Vfs_Dir (hm_insert c child' children) dm"
    using 4(6) w by (simp add: child_def[symmetric])
  moreover have "tree_ok child'" "\<And>m. child' \<noteq> Vfs_Dir [] m"
    using "4.IH"[OF child_def ok dir _ clear w] by auto
  ultimately show ?case
    using tree_ok_insert[OF 4(2), of child' c] by simp
qed auto

lemma nonempty_has_file: "tree_ok n \<Longrightarrow> (\<And>m. n \<noteq> Vfs_Dir [] m) \<Longrightarrow> \<exists>q. files_of n q \<noteq> None"
proof (induction n)
  case (Vfs_File b m)
  then show ?case by (intro exI[of _ "[]"]) simp
next
  case (Vfs_Dir children m)
  then obtain c n rest where ch: "children = (c, n) # rest" by (cases children) auto
  then have "\<exists>q. files_of n q \<noteq> None"
    using Vfs_Dir by fastforce
  then obtain q where "files_of n q \<noteq> None" by blast
  then show ?case using ch by (intro exI[of _ "c # q"]) simp
qed

lemma traverse_list_files:
  assumes "tree_ok n" "is_dir n \<or> cs \<noteq> []"
  shows "case traverse_list n cs of
      Inr names \<Rightarrow> distinct names \<and> set names = {x. \<exists>q. files_of n (cs @ x # q) \<noteq> None}
    | Inl _ \<Rightarrow> \<forall>x q. files_of n (cs @ x # q) = None"
  using assms
proof (induction n cs rule: traverse_list.induct)
  case (2 children m)
  have "(\<exists>q. files_of (Vfs_Dir children m) (x # q) \<noteq> None) \<longleftrightarrow> hm_get children x \<noteq> None" for x
    using tree_ok_child[OF 2(1), of x] nonempty_has_file by (fastforce split: option.splits)
  then show ?case using 2(1) by (auto simp: map_of_eq_None_iff)
next
  case (3 children m c cs)
  show ?case
  proof (cases "hm_get children c")
    case (Some child)
    then have ok: "tree_ok child" using tree_ok_child[OF 3(2)] by blast
    show ?thesis
    proof (cases "is_dir child \<or> cs \<noteq> []")
      case True
      then show ?thesis using "3.IH"[OF Some ok] Some by (simp split: sum.splits)
    next
      case False
      then obtain b fm where "child = Vfs_File b fm" "cs = []" by (cases child) auto
      then show ?thesis using Some by simp
    qed
  qed simp
qed auto

subsection \<open>Readers and writers in flight\<close>

text \<open>
  A read that has found the cache without an entry, and one that has read the tree but not yet
  offered its result to the cache. Between two locks anything else may happen.
\<close>

datatype reader = Missed vfs_path | Fetched vfs_path "8 word list"

inductive vfs_step :: "virtual_fs \<times> reader list \<Rightarrow> virtual_fs \<times> reader list \<Rightarrow> bool" where
  miss: "hm_get (cache_entries v) p = None \<Longrightarrow> vfs_step (v, rs) (v, Missed p # rs)"
| fetch: "Missed p \<in> set rs \<Longrightarrow> read_from_node (vfs_root v) p = Inr c \<Longrightarrow>
    vfs_step (v, rs) (v, Fetched p c # remove1 (Missed p) rs)"
| fail: "Missed p \<in> set rs \<Longrightarrow> read_from_node (vfs_root v) p = Inl e \<Longrightarrow>
    vfs_step (v, rs) (v, remove1 (Missed p) rs)"
| remember: "Fetched p c \<in> set rs \<Longrightarrow> memoize p c v = Some v' \<Longrightarrow>
    vfs_step (v, rs) (v', remove1 (Fetched p c) rs)"
| overwrite: "write_file p c m v = (r, v') \<Longrightarrow> vfs_step (v, rs) (v', rs)"
| clear: "vfs_step (v, rs) (clear_cache v, rs)"

text \<open>A read that nobody interrupts is three of these steps.\<close>

lemma read_file_steps:
  assumes "read_file p v = Some (r, v')"
  shows "vfs_step\<^sup>*\<^sup>* (v, rs) (v', rs)"
proof (cases "hm_get (cache_entries v) p")
  case None
  have missed: "vfs_step (v, rs) (v, Missed p # rs)" by (rule miss[OF None])
  show ?thesis
  proof (cases "read_from_node (vfs_root v) p")
    case (Inl e)
    then have "vfs_step (v, Missed p # rs) (v, rs)"
      using fail[of p "Missed p # rs" v e] by simp
    then show ?thesis using assms None Inl missed by (auto simp: read_file_def)
  next
    case (Inr c)
    then have "memoize p c v = Some v'" using assms None by (auto simp: read_file_def)
    then have "vfs_step (v, Fetched p c # rs) (v', rs)"
      using remember[of p c "Fetched p c # rs" v v'] by simp
    moreover have "vfs_step (v, Missed p # rs) (v, Fetched p c # rs)"
      using fetch[of p "Missed p # rs" v c] Inr by simp
    ultimately show ?thesis using missed by (meson converse_rtranclp_into_rtranclp rtranclp.rtrancl_refl)
  qed
qed (use assms in \<open>auto simp: read_file_def\<close>)

definition vfs_inv :: "virtual_fs \<Rightarrow> bool" where
  "vfs_inv v \<longleftrightarrow>
     is_dir (vfs_root v) \<and> tree_ok (vfs_root v) \<and> distinct (hm_keys (cache_entries v)) \<and>
     cache_bytes v = hm_sum length (cache_entries v) \<and> cache_bytes v \<le> max_cache_bytes v"

lemma vfs_inv_new: "vfs_inv (new_vfs limit)"
  by (simp add: vfs_inv_def new_vfs_def empty_dir_def)

lemma memoize_cases:
  assumes "memoize p c v = Some v'"
  shows "v' = v \<or>
    hm_get (cache_entries v) p = None \<and> cache_bytes v + length c \<le> max_cache_bytes v \<and>
    v' = v\<lparr>cache_entries := hm_insert p c (cache_entries v), cache_bytes := cache_bytes v + length c\<rparr>"
  using assms by (auto simp: memoize_def add_u64_def saturating_add_def min_def split: if_splits)

lemma vfs_inv_memoize: "vfs_inv v \<Longrightarrow> memoize p c v = Some v' \<Longrightarrow> vfs_inv v'"
  by (drule memoize_cases) (auto simp: vfs_inv_def distinct_update hm_sum_insert_new)

lemma vfs_inv_write:
  assumes "vfs_inv v" "write_file p c m v = (r, v')"
  shows "vfs_inv v'"
proof -
  let ?w = "traverse_and_write (vfs_root v) (path_names p) c m"
  have v': "v' = v\<lparr>vfs_root := snd (write_to_node (vfs_root v) p c m)\<rparr>"
    using assms(2) by (auto simp: write_file_def split: prod.splits)
  show ?thesis
  proof (cases "path_names p = []")
    case True
    then show ?thesis using assms(1) v' by (simp add: write_to_node_def)
  next
    case False
    have "tree_ok (snd ?w)"
    proof (cases "\<exists>pre. strict_prefix pre (path_names p) \<and> files_of (vfs_root v) pre \<noteq> None")
      case True
      then obtain e where "?w = (Inl e, vfs_root v)" using write_blocked by blast
      then show ?thesis using assms(1) by (simp add: vfs_inv_def)
    next
      case clear: False
      then have "\<forall>pre. strict_prefix pre (path_names p) \<longrightarrow> files_of (vfs_root v) pre = None" by blast
      then show ?thesis
        using tree_ok_write[OF _ _ False, of "vfs_root v" c m "fst ?w" "snd ?w"] assms(1)
        by (simp add: vfs_inv_def)
    qed
    moreover have "is_dir (snd ?w)"
      using assms(1) by (intro write_keeps_dir) (simp add: vfs_inv_def)
    ultimately show ?thesis
      using assms(1) v' False by (simp add: vfs_inv_def write_to_node_def)
  qed
qed

lemma write_file_frame:
  "write_file p c m v = (r, v') \<Longrightarrow>
     cache_entries v' = cache_entries v \<and> cache_bytes v' = cache_bytes v \<and> max_cache_bytes v' = max_cache_bytes v"
  by (auto simp: write_file_def split: prod.splits)

lemma vfs_inv_step:
  assumes "vfs_step (v, rs) (v', rs')" "vfs_inv v"
  shows "vfs_inv v' \<and> max_cache_bytes v' = max_cache_bytes v"
  using assms(1)
proof (cases rule: vfs_step.cases)
  case remember
  then show ?thesis
    using vfs_inv_memoize[OF assms(2) remember(3)] memoize_cases[OF remember(3)] by auto
next
  case overwrite
  then show ?thesis using vfs_inv_write[OF assms(2)] write_file_frame by blast
next
  case clear
  then show ?thesis using assms(2) by (simp add: vfs_inv_def clear_cache_def)
qed (use assms(2) in auto)

lemma vfs_inv_reachable:
  assumes "vfs_step\<^sup>*\<^sup>* (v, rs) (v', rs')" "vfs_inv v"
  shows "vfs_inv v' \<and> max_cache_bytes v' = max_cache_bytes v"
  using assms by (induction rule: rtranclp_induct2) (auto dest: vfs_inv_step)

lemma memoize_fits:
  assumes "vfs_inv v" "max_cache_bytes v < u64_max"
  shows "memoize p c v \<noteq> None"
  using assms by (auto simp: memoize_def saturating_add_def add_u64_def min_def split: if_splits)

lemma write_file_effect:
  assumes "vfs_inv v" "write_file p c m v = (r, v')"
  shows "if path_names p = [] \<or> (\<exists>pre. strict_prefix pre (path_names p) \<and> files_of (vfs_root v) pre \<noteq> None)
    then (\<exists>e. r = Inl e) \<and> v' = v
    else r = Inr () \<and>
      files_of (vfs_root v') = (\<lambda>q. if q = path_names p then Some (c, m)
        else if strict_prefix (path_names p) q then None else files_of (vfs_root v) q)"
proof (cases "path_names p = []")
  case True
  then show ?thesis using assms(2) by (auto simp: write_file_def write_to_node_def)
next
  case False
  then have w: "traverse_and_write (vfs_root v) (path_names p) c m = (r, vfs_root v')" "v' = v\<lparr>vfs_root := vfs_root v'\<rparr>"
    using assms(2) by (auto simp: write_file_def write_to_node_def split: prod.splits)
  show ?thesis
  proof (cases "\<exists>pre. strict_prefix pre (path_names p) \<and> files_of (vfs_root v) pre \<noteq> None")
    case True
    then obtain e where "traverse_and_write (vfs_root v) (path_names p) c m = (Inl e, vfs_root v)"
      using write_blocked by blast
    then show ?thesis using w True by simp
  next
    case clear: False
    have "is_dir (vfs_root v)" using assms(1) by (simp add: vfs_inv_def)
    moreover have "\<forall>pre. strict_prefix pre (path_names p) \<longrightarrow> files_of (vfs_root v) pre = None"
      using clear by blast
    ultimately have "r = Inr () \<and> files_of (vfs_root v') q = (if q = path_names p then Some (c, m)
        else if strict_prefix (path_names p) q then None else files_of (vfs_root v) q)" for q
      using write_effect[OF False, of "vfs_root v" c m q] w(1) by auto
    then show ?thesis using clear False by auto
  qed
qed

subsection \<open>What the cache answers\<close>

text \<open>As long as nobody writes, the cache and the readers in flight hold what the tree holds.\<close>

definition vfs_coherent :: "virtual_fs \<times> reader list \<Rightarrow> bool" where
  "vfs_coherent = (\<lambda>(v, rs).
     (\<forall>p c. hm_get (cache_entries v) p = Some c \<longrightarrow> read_from_node (vfs_root v) p = Inr c) \<and>
     (\<forall>p c. Fetched p c \<in> set rs \<longrightarrow> read_from_node (vfs_root v) p = Inr c))"

definition quiet_step :: "virtual_fs \<times> reader list \<Rightarrow> virtual_fs \<times> reader list \<Rightarrow> bool" where
  "quiet_step s s' \<longleftrightarrow> vfs_step s s' \<and> vfs_root (fst s') = vfs_root (fst s)"

lemma memoize_root: "memoize p c v = Some v' \<Longrightarrow> vfs_root v' = vfs_root v"
  by (drule memoize_cases) auto

lemma coherent_step: "quiet_step s s' \<Longrightarrow> vfs_coherent s \<Longrightarrow> vfs_coherent s'"
proof -
  assume a: "quiet_step s s'" "vfs_coherent s"
  have "vfs_step s s'" using a(1) by (simp add: quiet_step_def)
  then show ?thesis
  proof (cases rule: vfs_step.cases)
    case (remember p c rs v v')
    then show ?thesis
      using memoize_cases[OF remember(4)] a(2) unfolding vfs_coherent_def
      by (auto dest: subsetD[OF set_remove1_subset] split: if_splits)
  next
    case (overwrite p c m v r v' rs)
    then show ?thesis
      using a write_file_frame[OF overwrite(3)] by (auto simp: vfs_coherent_def quiet_step_def)
  qed (use a(2) in \<open>auto simp: vfs_coherent_def clear_cache_def dest: subsetD[OF set_remove1_subset]\<close>)
qed

lemma coherent_reads:
  assumes "quiet_step\<^sup>*\<^sup>* (v, []) (v', rs)" "cache_entries v = []"
  shows "vfs_coherent (v', rs) \<and> vfs_root v' = vfs_root v"
  using assms
proof (induction rule: rtranclp_induct2)
  case refl
  then show ?case by (simp add: vfs_coherent_def)
next
  case (step a b c d)
  then show ?case using coherent_step[OF step(2)] by (auto simp: quiet_step_def)
qed

subsection \<open>Mounting a directory\<close>

fun local_files :: "local_entry \<Rightarrow> string list \<Rightarrow> (8 word list \<times> file_metadata) option"
  and local_entry_files :: "(string \<times> local_entry) option list \<Rightarrow> string list \<Rightarrow> (8 word list \<times> file_metadata) option"
where
  "local_files (Local_File content t x) q =
     (case content of
        Some c \<Rightarrow> if q = [] then Some (c, \<lparr>md_size = length c, md_modified = t, md_executable = x\<rparr>) else None
      | None \<Rightarrow> None)"
| "local_files (Local_Dir None) q = None"
| "local_files (Local_Dir (Some es)) q = local_entry_files es q"
| "local_files Local_Other q = None"
| "local_entry_files [] q = None"
| "local_entry_files (None # es) q = None"
| "local_entry_files (Some (name, e) # es) q =
     (case q of
        [] \<Rightarrow> None
      | n # q' \<Rightarrow> if n = name then local_files e q' else local_entry_files es q)"

text \<open>Everything can be read, and names are unique.\<close>

function readable_entry :: "local_entry \<Rightarrow> bool"
  and readable_entries :: "(string \<times> local_entry) option list \<Rightarrow> bool"
where
  "readable_entry (Local_File content t x) \<longleftrightarrow> content \<noteq> None"
| "readable_entry (Local_Dir None) \<longleftrightarrow> False"
| "readable_entry (Local_Dir (Some es)) \<longleftrightarrow> readable_entries es"
| "readable_entry Local_Other \<longleftrightarrow> True"
| "readable_entries [] \<longleftrightarrow> True"
| "readable_entries (None # es) \<longleftrightarrow> False"
| "readable_entries (Some (name, e) # es) \<longleftrightarrow>
     readable_entry e \<and> readable_entries es \<and> name \<notin> fst ` Option.these (set es)"
  by pat_completeness auto
termination
  by (relation "measure (case_sum size (size_list (size_option (\<lambda>x. Suc (size (snd x))))))")
     (auto simp: size_prod_simp)

lemma local_entry_files_none:
  "name \<notin> fst ` Option.these (set es) \<Longrightarrow> local_entry_files es (name # q) = None"
proof (induction es)
  case (Cons x es)
  then show ?case by (cases x) (auto simp: these_insert_Some)
qed simp

lemma local_entry_files_Nil: "local_entry_files es [] = None"
proof (induction es)
  case (Cons x es)
  then show ?case by (cases x) auto
qed simp

lemma path_names_snoc [simp]: "path_names (p @ [Utf8 n]) = path_names p @ [n]"
  by (simp add: path_names_def List.map_filter_def)

text \<open>What mounting needs: nothing at or below the path yet, and no file above it.\<close>

definition mount_point :: "virtual_fs \<Rightarrow> string list \<Rightarrow> bool" where
  "mount_point v ns \<longleftrightarrow>
     (\<forall>pre. prefix pre ns \<longrightarrow> files_of (vfs_root v) pre = None) \<and> (\<forall>q. files_of (vfs_root v) (ns @ q) = None)"

definition mounted :: "virtual_fs \<Rightarrow> string list \<Rightarrow> (string list \<Rightarrow> (8 word list \<times> file_metadata) option) \<Rightarrow> virtual_fs \<Rightarrow> bool" where
  "mounted v ns f v' \<longleftrightarrow> vfs_inv v' \<and>
     (\<forall>q. files_of (vfs_root v') q =
        (if prefix ns q \<and> f (drop (length ns) q) \<noteq> None then f (drop (length ns) q) else files_of (vfs_root v) q))"

lemma mount_spec:
  "vfs_inv v \<Longrightarrow> readable_entry e \<Longrightarrow> path_names p \<noteq> [] \<Longrightarrow> mount_point v (path_names p) \<Longrightarrow>
     \<exists>v'. mount_recursive e p v = (Inr (), v') \<and> mounted v (path_names p) (local_files e) v'"
  "vfs_inv v \<Longrightarrow> readable_entries es \<Longrightarrow> 
     \<forall>pre. prefix pre (path_names p) \<longrightarrow> files_of (vfs_root v) pre = None \<Longrightarrow>
     \<forall>n \<in> fst ` Option.these (set es). mount_point v (path_names p @ [n]) \<Longrightarrow>
     \<exists>v'. mount_entries es p v = (Inr (), v') \<and> mounted v (path_names p) (local_entry_files es) v'"
proof (induction e p v and es p v rule: mount_recursive_mount_entries.induct)
  case (1 content t x p v)
  obtain c where c: "content = Some c" using 1 by auto
  let ?m = "\<lparr>md_size = length c, md_modified = t, md_executable = x\<rparr>"
  obtain r v' where w: "write_file p c ?m v = (r, v')" by force
  have "\<forall>pre. strict_prefix pre (path_names p) \<longrightarrow> files_of (vfs_root v) pre = None"
    using 1(4) by (auto simp: mount_point_def strict_prefix_def)
  then have "r = Inr ()" and f: "files_of (vfs_root v') = (\<lambda>q. if q = path_names p then Some (c, ?m)
        else if strict_prefix (path_names p) q then None else files_of (vfs_root v) q)"
    using write_file_effect[OF 1(1) w] 1(3) by (auto split: if_splits)
  moreover have "mounted v (path_names p) (local_files (Local_File content t x)) v'"
    using vfs_inv_write[OF 1(1) w] 1(4) unfolding mounted_def f c
    by (auto simp: mount_point_def strict_prefix_def prefix_def)
  ultimately show ?case using w c by (intro exI[of _ v']) (simp del: local_files.simps)
next
  case (2 es p v)
  have "mount_point v (path_names p @ [n])" for n
    using 2(5) unfolding mount_point_def by (auto simp: prefix_snoc)
  then show ?case using 2 by (auto simp: mount_point_def)
next
  case (4 p v)
  then show ?case by (auto simp: mounted_def)
next
  case (5 p v)
  then show ?case by (auto simp: mounted_def)
next
  case (7 name e es p v)
  let ?n = "path_names p"
  have point: "mount_point v (?n @ [name])" and ok: "readable_entry e" "readable_entries es"
    and fresh: "name \<notin> fst ` Option.these (set es)"
    using 7(4,6) by (auto simp: these_insert_Some)
  obtain v1 where v1: "mount_recursive e (p @ [Utf8 name]) v = (Inr (), v1)"
    and m1: "mounted v (?n @ [name]) (local_files e) v1"
    using "7.IH"(1)[OF 7(3) ok(1)] point by auto
  have same: "files_of (vfs_root v1) q = files_of (vfs_root v) q" if "\<not> prefix (?n @ [name]) q" for q
    using m1 that by (simp add: mounted_def)
  have clear: "\<forall>pre. prefix pre ?n \<longrightarrow> files_of (vfs_root v1) pre = None"
    using 7(5) same by (metis prefix_length_le length_append_singleton not_less_eq_eq)
  have "mount_point v1 (?n @ [n])" if n: "n \<in> fst ` Option.these (set es)" for n
  proof -
    have "n \<noteq> name" using n fresh by blast
    then have "\<not> prefix (?n @ [name]) (?n @ n # q)" for q by simp
    moreover have "mount_point v (?n @ [n])" using 7(6) n by (auto simp: these_insert_Some)
    ultimately show ?thesis
      using clear same by (auto simp: mount_point_def prefix_snoc)
  qed
  then obtain v2 where v2: "mount_entries es p v1 = (Inr (), v2)"
    and m2: "mounted v1 ?n (local_entry_files es) v2"
    using "7.IH"(2)[OF v1[symmetric] refl _ ok(2) clear] m1 by (auto simp: mounted_def)
  have "files_of (vfs_root v2) q =
      (if prefix ?n q \<and> local_entry_files (Some (name, e) # es) (drop (length ?n) q) \<noteq> None
       then local_entry_files (Some (name, e) # es) (drop (length ?n) q) else files_of (vfs_root v) q)" for q
  proof (cases "prefix (?n @ [name]) q")
    case True
    then obtain r where q: "q = ?n @ name # r" by (auto simp: prefix_def)
    then show ?thesis
      using m1 m2 local_entry_files_none[OF fresh, of r] by (simp add: mounted_def)
  next
    case False
    show ?thesis
    proof (cases "prefix ?n q")
      case True
      then obtain r where q: "q = ?n @ r" by (auto simp: prefix_def)
      then show ?thesis
        using m2 same[OF False] False by (cases r) (auto simp: mounted_def local_entry_files_Nil)
    next
      case out: False
      then show ?thesis using m2 same[OF False] by (simp add: mounted_def)
    qed
  qed
  then have "mounted v ?n (local_entry_files (Some (name, e) # es)) v2"
    using m2 by (simp add: mounted_def)
  then show ?case using v1 v2 by (intro exI[of _ v2]) (simp del: local_entry_files.simps)
qed auto

subsection \<open>Properties\<close>

text \<open>
  C24. The tree is a map from paths to files. A write fails exactly on the empty path and when a
  proper prefix of the path is a file, and then changes nothing; otherwise it puts the file there
  and removes what was below the path, even a whole directory, and touches nothing else. Reading,
  existence and metadata answer from the map, and a listing names exactly what leads to a file.
\<close>

theorem virtual_fs_refines:
  assumes "vfs_inv v"
  shows "(\<forall>p c m. case write_file p c m v of (r, v') \<Rightarrow>
      if path_names p = [] \<or> (\<exists>pre. strict_prefix pre (path_names p) \<and> files_of (vfs_root v) pre \<noteq> None)
      then (\<exists>e. r = Inl e) \<and> v' = v
      else r = Inr () \<and> vfs_inv v' \<and>
        files_of (vfs_root v') = (\<lambda>q. if q = path_names p then Some (c, m)
          else if strict_prefix (path_names p) q then None else files_of (vfs_root v) q)) \<and>
    (\<forall>q b. read_from_node (vfs_root v) q = Inr b \<longleftrightarrow> (\<exists>m. files_of (vfs_root v) (path_names q) = Some (b, m))) \<and>
    (\<forall>q. vfs_exists q v \<longleftrightarrow> path_names q = [] \<or> files_of (vfs_root v) (path_names q) \<noteq> None) \<and>
    (\<forall>q b m. files_of (vfs_root v) (path_names q) = Some (b, m) \<longrightarrow> vfs_metadata q v = Inr m) \<and>
    (\<forall>q. case list_directory q v of
        Inr ns \<Rightarrow> distinct ns \<and> set ns = {x. \<exists>rest. files_of (vfs_root v) (path_names q @ x # rest) \<noteq> None}
      | Inl _ \<Rightarrow> \<forall>x rest. files_of (vfs_root v) (path_names q @ x # rest) = None)"
proof (intro conjI allI)
  obtain children dm where root: "vfs_root v = Vfs_Dir children dm" and ok: "tree_ok (vfs_root v)"
    using assms by (auto simp: vfs_inv_def)
  fix p c m q b
  obtain r v' where w: "write_file p c m v = (r, v')" by force
  show "case write_file p c m v of (r, v') \<Rightarrow>
      if path_names p = [] \<or> (\<exists>pre. strict_prefix pre (path_names p) \<and> files_of (vfs_root v) pre \<noteq> None)
      then (\<exists>e. r = Inl e) \<and> v' = v
      else r = Inr () \<and> vfs_inv v' \<and>
        files_of (vfs_root v') = (\<lambda>q. if q = path_names p then Some (c, m)
          else if strict_prefix (path_names p) q then None else files_of (vfs_root v) q)"
    using write_file_effect[OF assms w] vfs_inv_write[OF assms w] w by simp
  show "read_from_node (vfs_root v) q = Inr b \<longleftrightarrow> (\<exists>m. files_of (vfs_root v) (path_names q) = Some (b, m))"
    using traverse_node_files root by (simp add: read_from_node_def)
  show "vfs_exists q v \<longleftrightarrow> path_names q = [] \<or> files_of (vfs_root v) (path_names q) \<noteq> None"
    by (simp add: vfs_exists_def traverse_exists_files)
  show "files_of (vfs_root v) (path_names q) = Some (b, m) \<longrightarrow> vfs_metadata q v = Inr m"
    using traverse_metadata_files[of "vfs_root v" "path_names q" m] by (auto simp: vfs_metadata_def)
  show "case list_directory q v of
        Inr ns \<Rightarrow> distinct ns \<and> set ns = {x. \<exists>rest. files_of (vfs_root v) (path_names q @ x # rest) \<noteq> None}
      | Inl _ \<Rightarrow> \<forall>x rest. files_of (vfs_root v) (path_names q @ x # rest) = None"
    using traverse_list_files[OF ok] root by (simp add: list_directory_def)
qed

definition plain_file :: file_metadata where
  "plain_file = \<lparr>md_size = 1, md_modified = 5, md_executable = False\<rparr>"

definition one_file_vfs :: virtual_fs where
  "one_file_vfs = snd (write_file [Utf8 ''a'', Utf8 ''b''] [7] plain_file (new_vfs 10))"

lemma one_file_inv: "vfs_inv one_file_vfs"
  unfolding one_file_vfs_def by (rule vfs_inv_write[OF vfs_inv_new prod.collapse[symmetric]])

theorem virtual_fs_refines_witness:
  "vfs_inv one_file_vfs \<and>
   (\<exists>m. files_of (vfs_root one_file_vfs) (path_names [Utf8 ''a'', Utf8 ''b'']) = Some ([7], m))"
  using one_file_inv virtual_fs_refines[OF one_file_inv, THEN conjunct2, THEN conjunct1, rule_format,
      of "[Utf8 ''a'', Utf8 ''b'']" "[7]"]
  by (simp add: one_file_vfs_def write_file_def write_to_node_def new_vfs_def empty_dir_def
      read_from_node_def path_names_def List.map_filter_def)

text \<open>
  C25. Whatever readers, writers and cache clearings do, in any interleaving, the cache never
  holds more bytes than its budget, its byte count is exact, no entry is counted twice although
  two readers of one path may both offer it, and no addition overflows.
\<close>

theorem vfs_cache_bounded:
  assumes "vfs_step\<^sup>*\<^sup>* (new_vfs limit, []) (v, rs)" "limit < u64_max"
  shows "cache_bytes v = hm_sum length (cache_entries v) \<and> cache_bytes v \<le> limit \<and>
    distinct (hm_keys (cache_entries v)) \<and> is_dir (vfs_root v) \<and> tree_ok (vfs_root v) \<and>
    (\<forall>p. read_file p v \<noteq> None) \<and> (\<forall>p c. Fetched p c \<in> set rs \<longrightarrow> memoize p c v \<noteq> None)"
proof -
  have inv: "vfs_inv v" and limit: "max_cache_bytes v = limit"
    using vfs_inv_reachable[OF assms(1) vfs_inv_new] by (simp_all add: new_vfs_def)
  have "read_file p v \<noteq> None" for p
    using memoize_fits[OF inv] assms(2) limit by (auto simp: read_file_def split: option.splits sum.splits)
  then show ?thesis
    using inv limit memoize_fits[OF inv] assms(2) by (simp add: vfs_inv_def)
qed

theorem vfs_cache_bounded_witness:
  "\<exists>v. vfs_step\<^sup>*\<^sup>* (new_vfs 10, []) (v, []) \<and> cache_entries v = [([Utf8 ''a'', Utf8 ''b''], [7])] \<and>
     cache_bytes v = 1 \<and> read_file [Utf8 ''a'', Utf8 ''b''] v = Some (Inr [7], v)"
proof -
  let ?p = "[Utf8 ''a'', Utf8 ''b'']"
  let ?v = "one_file_vfs\<lparr>cache_entries := [(?p, [7])], cache_bytes := 1\<rparr>"
  have first: "vfs_step (new_vfs 10, []) (one_file_vfs, [])"
    unfolding one_file_vfs_def by (rule overwrite[OF prod.collapse[symmetric]])
  have read: "read_file ?p one_file_vfs = Some (Inr [7], ?v)"
    by (simp add: one_file_vfs_def read_file_def read_from_node_def memoize_def write_file_def write_to_node_def
        new_vfs_def empty_dir_def path_names_def List.map_filter_def saturating_add_def add_u64_def u64_max_def)
  have s: "vfs_step\<^sup>*\<^sup>* (new_vfs 10, []) (?v, [])"
    by (rule converse_rtranclp_into_rtranclp[OF first read_file_steps[OF read, of "[]"]])
  show ?thesis
    using s vfs_cache_bounded[OF s] by (intro exI[of _ ?v] conjI) (simp_all add: read_file_def u64_max_def)
qed

text \<open>
  Mounting a local directory, or a file at a non-empty path, into a new file system succeeds
  when everything in it can be read, and then exactly the files of the directory are there, with
  their contents.
\<close>

theorem mount_correct:
  assumes "readable_entry e" "path_names p \<noteq> [] \<or> (\<exists>es. e = Local_Dir es)"
  shows "\<exists>v. mount_local (Some e) p (new_vfs limit) = (Inr (), v) \<and>
    (\<forall>q b. read_from_node (vfs_root v) (p @ q) = Inr b \<longleftrightarrow> (\<exists>m. local_files e (path_names q) = Some (b, m))) \<and>
    (\<forall>q. \<not> prefix (path_names p) (path_names q) \<longrightarrow> (\<exists>err. read_from_node (vfs_root v) q = Inl err))"
proof -
  have none: "files_of (vfs_root (new_vfs limit)) q = None" for q by (simp add: new_vfs_def)
  obtain v where v: "mount_recursive e p (new_vfs limit) = (Inr (), v)"
    and m: "mounted (new_vfs limit) (path_names p) (local_files e) v"
  proof (cases "path_names p = []")
    case False
    moreover have "mount_point (new_vfs limit) (path_names p)" by (simp add: mount_point_def none)
    ultimately show ?thesis
      using mount_spec(1)[OF vfs_inv_new assms(1)] that by blast
  next
    case True
    then obtain es where e: "e = Local_Dir (Some es)"
      using assms by (metis not_None_eq readable_entry.simps(2))
    have "\<exists>v. mount_entries es p (new_vfs limit) = (Inr (), v) \<and>
        mounted (new_vfs limit) (path_names p) (local_entry_files es) v"
      using assms(1) by (intro mount_spec(2)[OF vfs_inv_new]) (simp_all add: e none mount_point_def)
    moreover have "local_files e = local_entry_files es" by (simp add: e fun_eq_iff)
    ultimately show ?thesis using that by (auto simp: e)
  qed
  have "is_dir (vfs_root v)" using m by (simp add: mounted_def vfs_inv_def)
  then have read: "read_from_node (vfs_root v) q = Inr b \<longleftrightarrow> (\<exists>m. files_of (vfs_root v) (path_names q) = Some (b, m))" for q b
    using traverse_node_files by (auto simp: read_from_node_def)
  have names: "path_names (p @ q) = path_names p @ path_names q" for q
    by (simp add: path_names_def List.map_filter_def)
  have "read_from_node (vfs_root v) (p @ q) = Inr b \<longleftrightarrow> (\<exists>m. local_files e (path_names q) = Some (b, m))" for q b
    using m none by (auto simp: read mounted_def names)
  moreover have "\<exists>err. read_from_node (vfs_root v) q = Inl err" if "\<not> prefix (path_names p) (path_names q)" for q
    using m none read[of q] that by (cases "read_from_node (vfs_root v) q") (auto simp: mounted_def)
  ultimately show ?thesis using v by (auto simp: mount_local_def)
qed

theorem mount_correct_witness:
  "\<exists>v. mount_local (Some (Local_Dir (Some [Some (''x'', Local_File (Some [1, 2]) 9 True)]))) [] (new_vfs 0) = (Inr (), v) \<and>
     read_from_node (vfs_root v) [Utf8 ''x''] = Inr [1, 2]"
proof -
  let ?e = "Local_Dir (Some [Some (''x'', Local_File (Some [1, 2]) 9 True)])"
  obtain v where v: "mount_local (Some ?e) [] (new_vfs 0) = (Inr (), v)"
    "\<forall>q b. read_from_node (vfs_root v) ([] @ q) = Inr b \<longleftrightarrow> (\<exists>m. local_files ?e (path_names q) = Some (b, m))"
    using mount_correct[of ?e "[]" 0] by auto
  have "read_from_node (vfs_root v) [Utf8 ''x''] = Inr [1, 2]"
    using v(2)[rule_format, of "[Utf8 ''x'']" "[1, 2]"] by (simp add: path_names_def List.map_filter_def)
  then show ?thesis using v(1) by blast
qed

text \<open>
  Without a write in between, reads answer what the tree holds. But a write does not remove the
  path from the cache: a file that was read once is answered from the cache after it was replaced.
\<close>

lemma quiet_reads_fresh:
  assumes "quiet_step\<^sup>*\<^sup>* (v, []) (v', rs)" "cache_entries v = []" "read_file p v' = Some (Inr c, v'')"
  shows "read_from_node (vfs_root v) p = Inr c"
  using coherent_reads[OF assms(1,2)] assms(3)
  by (auto simp: vfs_coherent_def read_file_def split: option.splits sum.splits)

lemma read_after_write_stale:
  "\<exists>v1 v2. read_file [Utf8 ''a'', Utf8 ''b''] one_file_vfs = Some (Inr [7], v1) \<and>
     write_file [Utf8 ''a'', Utf8 ''b''] [8] plain_file v1 = (Inr (), v2) \<and>
     read_from_node (vfs_root v2) [Utf8 ''a'', Utf8 ''b''] = Inr [8] \<and>
     read_file [Utf8 ''a'', Utf8 ''b''] v2 = Some (Inr [7], v2)"
  by (simp add: one_file_vfs_def write_file_def write_to_node_def new_vfs_def empty_dir_def plain_file_def
      read_file_def memoize_def saturating_add_def add_u64_def u64_max_def
      read_from_node_def path_names_def List.map_filter_def)

end
