(* ===== verification/Remote_Server.thy ===== *)
theory Remote_Server
  imports Rust_Str Fish_Prelude Sample_Format
begin

unbundle bit_operations_syntax

text \<open>
  The remote cache: the requests of \<open>fish-remote-cache/src/protocol.rs\<close>, the server of \<open>server.rs\<close>
  with its maps in memory and its files, and the client of \<open>client.rs\<close>. A connection is the list
  of lines that arrive on it. The storage directory is a map from file names to contents, one for
  each subdirectory; the order of such a map is the order in which the directory is listed. Locks
  are never poisoned, since nothing panics while one is held. Base64, BLAKE3 and JSON are the
  fields of \<open>server_env\<close>.
\<close>

subsection \<open>The protocol\<close>

type_synonym token = "8 word list"

datatype cache_request =
    Get_Fingerprint string "token option"
  | Put_Fingerprint string string "token option"
  | Get_Artifact string "token option"
  | Put_Artifact string string "token option"
  | Ping "token option"

datatype cache_response =
    Fingerprint_Resp string bool "string option" "string option"
  | Put_Fingerprint_Result string bool "string option"
  | Artifact_Resp string bool "string option" "string option"
  | Put_Artifact_Result string bool "string option"
  | Pong string string nat "string option"
  | Error_Resp string

record server_env =
  b64_encode :: "8 word list \<Rightarrow> string"
  b64_decode :: "string \<Rightarrow> 8 word list option"
  blob_hash :: "8 word list \<Rightarrow> string"
  index_to_json :: "(string, string) hash_map \<Rightarrow> 8 word list"
  index_from_json :: "8 word list \<Rightarrow> (string, string) hash_map option"
  pkg_version :: string

subsection \<open>The server\<close>

record server_disk =
  fp_files :: "(string, string) hash_map"
  object_files :: "(string, 8 word list) hash_map"
  index_file :: "8 word list option"

record cache_server =
  auth_token :: "token option"
  storage :: "server_disk option"
  fingerprints :: "(string, string) hash_map"
  server_artifacts :: "(string, 8 word list) hash_map"
  artifact_index :: "(string, string) hash_map"

text \<open>Both loops of \<open>new\<close>; a file that is not a regular one or cannot be read is skipped.\<close>

definition load_fingerprints :: "(string \<Rightarrow> bool) \<Rightarrow> (string, string) hash_map \<Rightarrow> (string, string) hash_map" where
  "load_fingerprints readable files =
     foldl (\<lambda>m (name, text). if readable name then hm_insert (fst (split_ext CHR ''.'' name)) (trim text) m else m)
       [] files"

definition load_index :: "server_env \<Rightarrow> bool \<Rightarrow> 8 word list option \<Rightarrow> (string, string) hash_map" where
  "load_index env readable f =
     (case f of
        Some json \<Rightarrow>
          if readable then (case index_from_json env json of
             Some index \<Rightarrow> foldl (\<lambda>m (h, c). hm_insert h c m) [] index
           | None \<Rightarrow> [])
          else []
      | None \<Rightarrow> [])"

definition new_server ::
  "server_env \<Rightarrow> (string \<Rightarrow> bool) \<Rightarrow> bool \<Rightarrow> token option \<Rightarrow> server_disk option \<Rightarrow> cache_server"
where
  "new_server env readable index_readable tok disk =
     \<lparr>auth_token = tok, storage = disk,
      fingerprints = (case disk of Some d \<Rightarrow> load_fingerprints readable (fp_files d) | None \<Rightarrow> []),
      server_artifacts = [],
      artifact_index = (case disk of Some d \<Rightarrow> load_index env index_readable (index_file d) | None \<Rightarrow> [])\<rparr>"

definition constant_time_eq :: "8 word list \<Rightarrow> 8 word list \<Rightarrow> bool" where
  "constant_time_eq a b =
     (if length a \<noteq> length b then False
      else foldl (\<lambda>diff (x, y). diff OR (x XOR y)) 0 (zip a b) = 0)"

definition check_auth :: "token option \<Rightarrow> token option \<Rightarrow> bool" where
  "check_auth expected t =
     (case expected of
        Some e \<Rightarrow> (case t of Some tok \<Rightarrow> constant_time_eq e tok | None \<Rightarrow> False)
      | None \<Rightarrow> True)"

definition safe_key_identifier :: "string \<Rightarrow> string option" where
  "safe_key_identifier k =
     (if k = [] \<or> 256 < utf8_len k then None
      else if contains_str ''..'' k \<or> CHR ''/'' \<in> set k \<or> CHR 0x5C \<in> set k \<or> CHR 0x00 \<in> set k then None
      else if list_all (\<lambda>c. is_alphanumeric c \<or> c = CHR ''_'' \<or> c = CHR ''-'' \<or> c = CHR ''.'') k then Some k
      else None)"

text \<open>A write to a temporary file and its rename: either may fail, and a failed rename leaves the temporary file.\<close>

record write_io =
  tmp_written :: bool
  renamed :: bool

definition write_renamed :: "write_io \<Rightarrow> string \<Rightarrow> string \<Rightarrow> 'v \<Rightarrow> (string, 'v) hash_map \<Rightarrow> (string, 'v) hash_map" where
  "write_renamed io target tmp v m =
     (if tmp_written io then
        if renamed io then hm_insert target v (hm_remove tmp m) else hm_insert tmp v m
      else m)"

record request_io =
  fp_io :: write_io
  object_io :: write_io
  index_io :: write_io
  object_readable :: "string \<Rightarrow> bool"

definition put_fingerprint_on ::
  "request_io \<Rightarrow> string \<Rightarrow> string \<Rightarrow> cache_server \<Rightarrow> cache_server"
where
  "put_fingerprint_on io k fp s =
     (let s1 = s\<lparr>fingerprints := hm_insert k fp (fingerprints s)\<rparr>
      in case (storage s, safe_key_identifier k) of
           (Some d, Some safe_k) \<Rightarrow>
             s1\<lparr>storage := Some (d\<lparr>fp_files :=
                  write_renamed (fp_io io) (safe_k @ ''.json'') (safe_k @ ''.tmp'') fp (fp_files d)\<rparr>)\<rparr>
         | _ \<Rightarrow> s1)"

definition find_artifact :: "request_io \<Rightarrow> string \<Rightarrow> cache_server \<Rightarrow> 8 word list option" where
  "find_artifact io h s =
     (case hm_get (server_artifacts s) h of
        Some d \<Rightarrow> Some d
      | None \<Rightarrow>
          (case storage s of
             None \<Rightarrow> None
           | Some disk \<Rightarrow> do {
               c \<leftarrow> hm_get (artifact_index s) h;
               safe_h \<leftarrow> safe_key_identifier c;
               if object_readable io safe_h then hm_get (object_files disk) safe_h else None
             }))"

definition put_artifact_on ::
  "server_env \<Rightarrow> request_io \<Rightarrow> string \<Rightarrow> 8 word list \<Rightarrow> cache_server \<Rightarrow> cache_server"
where
  "put_artifact_on env io h bytes s =
     (let s1 = s\<lparr>server_artifacts := hm_insert h bytes (server_artifacts s)\<rparr>
      in case (storage s, safe_key_identifier (blob_hash env bytes)) of
           (Some d, Some safe_h) \<Rightarrow>
             (let objects = write_renamed (object_io io) safe_h (safe_h @ ''.tmp'') bytes (object_files d);
                  index = hm_insert h safe_h (artifact_index s1);
                  index' = (if tmp_written (index_io io) \<and> renamed (index_io io)
                            then Some (index_to_json env index) else index_file d)
              in s1\<lparr>storage := Some (d\<lparr>object_files := objects, index_file := index'\<rparr>), artifact_index := index\<rparr>)
         | _ \<Rightarrow> s1)"

definition process_request ::
  "server_env \<Rightarrow> request_io \<Rightarrow> cache_request \<Rightarrow> cache_server \<Rightarrow> cache_response \<times> cache_server"
where
  "process_request env io req s =
     (case req of
        Ping t \<Rightarrow>
          (if \<not> check_auth (auth_token s) t
           then (Pong ''unauthorized'' (pkg_version env) 0 (Some ''invalid authentication token''), s)
           else (Pong ''ok'' (pkg_version env) (length (fingerprints s)) None, s))
      | Get_Fingerprint k t \<Rightarrow>
          (if \<not> check_auth (auth_token s) t then (Fingerprint_Resp k False None (Some ''unauthorized''), s)
           else (case hm_get (fingerprints s) k of
                   Some fp \<Rightarrow> (Fingerprint_Resp k True (Some fp) None, s)
                 | None \<Rightarrow> (Fingerprint_Resp k False None None, s)))
      | Put_Fingerprint k fp t \<Rightarrow>
          (if \<not> check_auth (auth_token s) t then (Put_Fingerprint_Result k False (Some ''unauthorized''), s)
           else (Put_Fingerprint_Result k True None, put_fingerprint_on io k fp s))
      | Get_Artifact h t \<Rightarrow>
          (if \<not> check_auth (auth_token s) t then (Artifact_Resp h False None (Some ''unauthorized''), s)
           else (case find_artifact io h s of
                   Some d \<Rightarrow> (Artifact_Resp h True (Some (b64_encode env d)) None, s)
                 | None \<Rightarrow> (Artifact_Resp h False None None, s)))
      | Put_Artifact h data t \<Rightarrow>
          (if \<not> check_auth (auth_token s) t then (Put_Artifact_Result h False (Some ''unauthorized''), s)
           else (case b64_decode env data of
                   None \<Rightarrow> (Put_Artifact_Result h False (Some ''invalid base64 payload''), s)
                 | Some bytes \<Rightarrow> (Put_Artifact_Result h True None, put_artifact_on env io h bytes s))))"

text \<open>
  The lines of a connection, each with what the system calls of its turn do. \<open>parse\<close> reads a
  request, \<open>None\<close> where the text is not one. The connection ends with an error at a line that is too
  long.
\<close>

fun handle_lines ::
  "server_env \<Rightarrow> (string \<Rightarrow> cache_request option) \<Rightarrow> (request_io \<times> string) list \<Rightarrow> cache_server \<Rightarrow>
     cache_response list \<times> cache_server"
where
  "handle_lines env parse [] s = ([], s)"
| "handle_lines env parse ((io, line) # ls) s =
     (if 64 * 1024 * 1024 < utf8_len line then ([], s)
      else if trim line = [] then handle_lines env parse ls s
      else
        case (case parse (trim line) of
                Some req \<Rightarrow> process_request env io req s
              | None \<Rightarrow> (Error_Resp ''invalid request format'', s)) of
          (resp, s') \<Rightarrow> apfst ((#) resp) (handle_lines env parse ls s'))"

subsection \<open>The client\<close>

datatype remote_error = Network | Protocol string

text \<open>
  What happens to one attempt of \<open>send_request\<close>: the request does not get through; it is processed
  but the answer is lost or is no response; or it is answered.
\<close>

datatype delivery = Unreachable | Lost remote_error | Garbled | Replied

fun send_loop ::
  "(cache_request \<Rightarrow> 's \<Rightarrow> cache_response \<times> 's) \<Rightarrow> delivery list \<Rightarrow> cache_request \<Rightarrow> remote_error \<Rightarrow> 's \<Rightarrow>
     (remote_error + cache_response) \<times> 's"
where
  "send_loop serve [] req last_err s = (Inl last_err, s)"
| "send_loop serve (d # ds) req last_err s =
     (case d of
        Unreachable \<Rightarrow> send_loop serve ds req Network s
      | Lost e \<Rightarrow> send_loop serve ds req e (snd (serve req s))
      | Garbled \<Rightarrow> (Inl (Protocol ''cannot parse response''), snd (serve req s))
      | Replied \<Rightarrow> apfst Inr (serve req s))"

definition send_request ::
  "(cache_request \<Rightarrow> 's \<Rightarrow> cache_response \<times> 's) \<Rightarrow> delivery list \<Rightarrow> cache_request \<Rightarrow> 's \<Rightarrow>
     (remote_error + cache_response) \<times> 's"
where
  "send_request serve ds req s = send_loop serve (take 3 ds) req Network s"

text \<open>What the operations make of a response.\<close>

definition ping_result :: "remote_error + cache_response \<Rightarrow> remote_error + bool" where
  "ping_result r =
     (case r of
        Inl e \<Rightarrow> Inl e
      | Inr (Pong st _ _ err) \<Rightarrow> (case err of Some m \<Rightarrow> Inl (Protocol m) | None \<Rightarrow> Inr (st = ''ok''))
      | Inr (Error_Resp m) \<Rightarrow> Inl (Protocol m)
      | Inr _ \<Rightarrow> Inl (Protocol ''unexpected response to ping''))"

definition fingerprint_result :: "remote_error + cache_response \<Rightarrow> remote_error + string option" where
  "fingerprint_result r =
     (case r of
        Inl e \<Rightarrow> Inl e
      | Inr (Fingerprint_Resp _ found fp err) \<Rightarrow>
          (case err of Some m \<Rightarrow> Inl (Protocol m) | None \<Rightarrow> Inr (if found then fp else None))
      | Inr (Error_Resp m) \<Rightarrow> Inl (Protocol m)
      | Inr _ \<Rightarrow> Inl (Protocol ''unexpected response to get_fingerprint''))"

definition put_fingerprint_result :: "remote_error + cache_response \<Rightarrow> remote_error + unit" where
  "put_fingerprint_result r =
     (case r of
        Inl e \<Rightarrow> Inl e
      | Inr (Put_Fingerprint_Result _ success err) \<Rightarrow>
          (case err of Some m \<Rightarrow> Inl (Protocol m)
           | None \<Rightarrow> if success then Inr () else Inl (Protocol ''failed to put fingerprint''))
      | Inr (Error_Resp m) \<Rightarrow> Inl (Protocol m)
      | Inr _ \<Rightarrow> Inl (Protocol ''unexpected response to put_fingerprint''))"

definition artifact_result :: "server_env \<Rightarrow> remote_error + cache_response \<Rightarrow> remote_error + 8 word list option" where
  "artifact_result env r =
     (case r of
        Inl e \<Rightarrow> Inl e
      | Inr (Artifact_Resp _ found payload err) \<Rightarrow>
          (case err of Some m \<Rightarrow> Inl (Protocol m)
           | None \<Rightarrow>
               if \<not> found then Inr None
               else (case payload of
                  None \<Rightarrow> Inr None
                | Some enc \<Rightarrow>
                    (case b64_decode env enc of
                       None \<Rightarrow> Inl (Protocol ''invalid base64 artifact'')
                     | Some d \<Rightarrow> Inr (Some d))))
      | Inr (Error_Resp m) \<Rightarrow> Inl (Protocol m)
      | Inr _ \<Rightarrow> Inl (Protocol ''unexpected response to get_artifact''))"

definition put_artifact_result :: "remote_error + cache_response \<Rightarrow> remote_error + unit" where
  "put_artifact_result r =
     (case r of
        Inl e \<Rightarrow> Inl e
      | Inr (Put_Artifact_Result _ success err) \<Rightarrow>
          (case err of Some m \<Rightarrow> Inl (Protocol m)
           | None \<Rightarrow> if success then Inr () else Inl (Protocol ''failed to put artifact''))
      | Inr (Error_Resp m) \<Rightarrow> Inl (Protocol m)
      | Inr _ \<Rightarrow> Inl (Protocol ''unexpected response to put_artifact''))"

text \<open>The operations over a server that is reached over a network; the state says what happens to each of the coming calls.\<close>

type_synonym network = "cache_server \<times> delivery list list"

definition call_server :: "server_env \<Rightarrow> request_io \<Rightarrow> cache_request \<Rightarrow> network \<Rightarrow> (remote_error + cache_response) \<times> network" where
  "call_server env io req = (\<lambda>(s, calls).
     case send_request (process_request env io) (case calls of [] \<Rightarrow> [] | ds # _ \<Rightarrow> ds) req s of
       (r, s') \<Rightarrow> (r, (s', tl calls)))"

definition client_ping :: "server_env \<Rightarrow> request_io \<Rightarrow> token option \<Rightarrow> network \<Rightarrow> (remote_error + bool) \<times> network" where
  "client_ping env io tok n = apfst ping_result (call_server env io (Ping tok) n)"

definition client_get_fingerprint ::
  "server_env \<Rightarrow> request_io \<Rightarrow> token option \<Rightarrow> string \<Rightarrow> network \<Rightarrow> (remote_error + string option) \<times> network"
where
  "client_get_fingerprint env io tok k n = apfst fingerprint_result (call_server env io (Get_Fingerprint k tok) n)"

definition client_put_fingerprint ::
  "server_env \<Rightarrow> request_io \<Rightarrow> token option \<Rightarrow> string \<Rightarrow> string \<Rightarrow> network \<Rightarrow> (remote_error + unit) \<times> network"
where
  "client_put_fingerprint env io tok k fp n =
     apfst put_fingerprint_result (call_server env io (Put_Fingerprint k fp tok) n)"

definition client_get_artifact ::
  "server_env \<Rightarrow> request_io \<Rightarrow> token option \<Rightarrow> string \<Rightarrow> network \<Rightarrow> (remote_error + 8 word list option) \<times> network"
where
  "client_get_artifact env io tok h n = apfst (artifact_result env) (call_server env io (Get_Artifact h tok) n)"

definition client_put_artifact ::
  "server_env \<Rightarrow> request_io \<Rightarrow> token option \<Rightarrow> string \<Rightarrow> 8 word list \<Rightarrow> network \<Rightarrow> (remote_error + unit) \<times> network"
where
  "client_put_artifact env io tok h d n =
     apfst put_artifact_result (call_server env io (Put_Artifact h (b64_encode env d) tok) n)"

subsection \<open>Authentication\<close>

lemma xor_eq_0_iff: "(x :: 8 word) XOR y = 0 \<longleftrightarrow> x = y"
  by (auto simp: bit_eq_iff bit_simps)

lemma foldl_or_zero:
  "foldl (\<lambda>diff (x, y). diff OR (x XOR y)) (d :: 8 word) ps = 0 \<longleftrightarrow> d = 0 \<and> (\<forall>(x, y) \<in> set ps. x = y)"
  by (induction ps arbitrary: d) (auto simp: xor_eq_0_iff or_eq_0_iff)

lemma constant_time_eq_iff [simp]: "constant_time_eq a b \<longleftrightarrow> a = b"
proof -
  have "length a = length b \<Longrightarrow> (\<forall>(x, y) \<in> set (zip a b). x = y) \<longleftrightarrow> a = b"
    by (induction a b rule: list_induct2) auto
  then show ?thesis by (auto simp: constant_time_eq_def foldl_or_zero)
qed

lemma check_auth_iff: "check_auth expected t \<longleftrightarrow> expected = None \<or> t = expected"
  by (cases expected; cases t) (auto simp: check_auth_def)

fun request_token :: "cache_request \<Rightarrow> token option" where
  "request_token (Get_Fingerprint _ t) = t"
| "request_token (Put_Fingerprint _ _ t) = t"
| "request_token (Get_Artifact _ t) = t"
| "request_token (Put_Artifact _ _ t) = t"
| "request_token (Ping t) = t"

text \<open>A response that tells nothing of what is stored.\<close>

fun reveals_nothing :: "cache_response \<Rightarrow> bool" where
  "reveals_nothing (Fingerprint_Resp _ found fp err) \<longleftrightarrow> \<not> found \<and> fp = None \<and> err \<noteq> None"
| "reveals_nothing (Put_Fingerprint_Result _ success err) \<longleftrightarrow> \<not> success \<and> err \<noteq> None"
| "reveals_nothing (Artifact_Resp _ found payload err) \<longleftrightarrow> \<not> found \<and> payload = None \<and> err \<noteq> None"
| "reveals_nothing (Put_Artifact_Result _ success err) \<longleftrightarrow> \<not> success \<and> err \<noteq> None"
| "reveals_nothing (Pong _ _ n err) \<longleftrightarrow> n = 0 \<and> err \<noteq> None"
| "reveals_nothing (Error_Resp _) \<longleftrightarrow> True"

lemma unauthorized_request:
  "auth_token s = Some t \<Longrightarrow> request_token req \<noteq> Some t \<Longrightarrow>
     \<exists>resp. process_request env io req s = (resp, s) \<and> reveals_nothing resp"
  by (cases req) (auto simp: process_request_def check_auth_iff)

text \<open>
  C26. A server with a token answers a connection on which no request carries that token without
  changing anything and without telling anything of what it stores, line by line.
\<close>

theorem server_requires_token:
  assumes "auth_token s = Some t"
    "\<And>io line req. (io, line) \<in> set ls \<Longrightarrow> parse (trim line) = Some req \<Longrightarrow> request_token req \<noteq> Some t"
  shows "snd (handle_lines env parse ls s) = s \<and> list_all reveals_nothing (fst (handle_lines env parse ls s))"
  using assms(2)
proof (induction ls)
  case (Cons l ls)
  obtain io line where l: "l = (io, line)" by fastforce
  have "\<exists>resp. (case parse (trim line) of
      Some req \<Rightarrow> process_request env io req s | None \<Rightarrow> (Error_Resp ''invalid request format'', s)) = (resp, s) \<and>
      reveals_nothing resp"
    using unauthorized_request[OF assms(1)] Cons.prems[of io line] l by (auto split: option.splits)
  then obtain resp where resp: "(case parse (trim line) of
      Some req \<Rightarrow> process_request env io req s | None \<Rightarrow> (Error_Resp ''invalid request format'', s)) = (resp, s)"
    "reveals_nothing resp" by blast
  have "snd (handle_lines env parse ls s) = s \<and> list_all reveals_nothing (fst (handle_lines env parse ls s))"
    using Cons.IH Cons.prems by (meson list.set_intros(2))
  then show ?case using resp by (simp add: l)
qed simp

definition sample_server_env :: server_env where
  "sample_server_env = \<lparr>b64_encode = map (\<lambda>b. char_of (unat b)), b64_decode = (\<lambda>s. Some (map (\<lambda>c. of_nat (of_char c)) s)),
     blob_hash = (\<lambda>d. if d = [] then ''empty'' else ''data''), 
     index_to_json = (\<lambda>m. numbers_bytes (put_strings (map fst m) @ put_strings (map snd m) @ [])),
     index_from_json = (\<lambda>bs. let (ks, ns) = get_strings (bytes_numbers bs); (vs, ns) = get_strings ns in Some (zip ks vs)),
     pkg_version = ''0''\<rparr>"

definition sample_io :: request_io where
  "sample_io = \<lparr>fp_io = \<lparr>tmp_written = True, renamed = True\<rparr>, object_io = \<lparr>tmp_written = True, renamed = True\<rparr>,
     index_io = \<lparr>tmp_written = True, renamed = True\<rparr>, object_readable = (\<lambda>_. True)\<rparr>"

theorem server_requires_token_witness:
  "\<exists>s. fingerprints s = [(''k'', ''fp'')] \<and>
     snd (handle_lines sample_server_env (\<lambda>l. Some (Get_Fingerprint l None)) [(sample_io, ''k'')] s) = s"
proof -
  let ?s = "(new_server sample_server_env (\<lambda>_. True) True (Some [1]) None)\<lparr>fingerprints := [(''k'', ''fp'')]\<rparr>"
  have "snd (handle_lines sample_server_env (\<lambda>l. Some (Get_Fingerprint l None)) [(sample_io, ''k'')] ?s) = ?s"
    by (rule server_requires_token[of ?s "[1]", THEN conjunct1]) (auto simp: new_server_def)
  then show ?thesis by (intro exI[of _ ?s]) simp
qed

subsection \<open>What a restart keeps\<close>

lemma snoc_fold_get:
  assumes "distinct (hm_keys files)" "inj_on stem (fst ` set files)"
  shows "hm_get (foldl (\<lambda>m (name, v). hm_insert (stem name) (g v) m) [] files) k = Some t \<longleftrightarrow>
    (\<exists>name v. hm_get files name = Some v \<and> stem name = k \<and> t = g v)"
  using assms
proof (induction files rule: rev_induct)
  case (snoc p files)
  obtain n v where p: "p = (n, v)" by fastforce
  have n: "n \<notin> fst ` set files" using snoc.prems(1) p by auto
  have none: "hm_get files n = None" using n by (simp add: map_of_eq_None_iff)
  then have get: "hm_get (files @ [(n, v)]) name = (if name = n then Some v else hm_get files name)" for name
    by (auto simp: map_add_def split: option.splits)
  have stem: "stem n \<notin> stem ` (fst ` set files)" using snoc.prems(2) p n by simp
  have other: "hm_get files name = Some w \<Longrightarrow> stem name \<noteq> stem n" for name w
    using stem hm_get_key[of files name w] by (metis image_eqI)
  have IH: "hm_get (foldl (\<lambda>m (name, v). hm_insert (stem name) (g v) m) [] files) k = Some t \<longleftrightarrow>
      (\<exists>name v. hm_get files name = Some v \<and> stem name = k \<and> t = g v)"
    using snoc by (auto intro: inj_on_subset)
  show ?case
  proof (cases "stem n = k")
    case True
    then have "(\<exists>name w. hm_get (files @ [p]) name = Some w \<and> stem name = k \<and> t = g w) \<longleftrightarrow> t = g v"
      using other unfolding p get by (metis option.inject)
    then show ?thesis using True by (auto simp: p)
  next
    case False
    then have "(\<exists>name w. hm_get (files @ [p]) name = Some w \<and> stem name = k \<and> t = g w) \<longleftrightarrow>
        (\<exists>name w. hm_get files name = Some w \<and> stem name = k \<and> t = g w)"
      using none unfolding p get by (metis option.distinct(1))
    then show ?thesis using False IH by (simp add: p)
  qed
qed simp

text \<open>\<open>file_stem\<close> of the name of a fingerprint file.\<close>

lemma stem_json: "k \<noteq> [] \<Longrightarrow> fst (split_ext CHR ''.'' (k @ ''.json'')) = k"
  using split_ext_append[of "CHR ''.''" "''json''" k] by simp

lemma safe_key_Some: "safe_key_identifier k = Some k' \<Longrightarrow> k' = k \<and> k \<noteq> []"
  by (auto simp: safe_key_identifier_def split: if_splits)

lemma load_fingerprints_get:
  assumes "distinct (hm_keys files)"
    "\<And>name. name \<in> fst ` set files \<Longrightarrow> \<exists>k. k \<noteq> [] \<and> name = k @ ''.json''"
  shows "hm_get (load_fingerprints (\<lambda>_. True) files) k =
    (if k = [] then None else map_option trim (hm_get files (k @ ''.json'')))"
proof -
  let ?stem = "\<lambda>name. fst (split_ext CHR ''.'' name)"
  have inj: "inj_on ?stem (fst ` set files)"
    using assms(2) stem_json by (intro inj_onI) metis
  have load: "load_fingerprints (\<lambda>_. True) files = foldl (\<lambda>m (name, v). hm_insert (?stem name) (trim v) m) [] files"
    by (simp add: load_fingerprints_def)
  have "(\<exists>name v. hm_get files name = Some v \<and> ?stem name = k \<and> t = trim v) \<longleftrightarrow>
      k \<noteq> [] \<and> map_option trim (hm_get files (k @ ''.json'')) = Some t" for t
  proof
    assume "\<exists>name v. hm_get files name = Some v \<and> ?stem name = k \<and> t = trim v"
    then obtain name v where nv: "hm_get files name = Some v" "?stem name = k" "t = trim v" by blast
    obtain j where "j \<noteq> []" "name = j @ ''.json''" using assms(2)[OF hm_get_key[OF nv(1)]] by blast
    then show "k \<noteq> [] \<and> map_option trim (hm_get files (k @ ''.json'')) = Some t"
      using nv stem_json[of j] by simp
  next
    assume "k \<noteq> [] \<and> map_option trim (hm_get files (k @ ''.json'')) = Some t"
    then show "\<exists>name v. hm_get files name = Some v \<and> ?stem name = k \<and> t = trim v"
      using stem_json[of k] by (rule_tac exI[of _ "k @ ''.json''"]) auto
  qed
  then have "hm_get (load_fingerprints (\<lambda>_. True) files) k = Some t \<longleftrightarrow>
      k \<noteq> [] \<and> map_option trim (hm_get files (k @ ''.json'')) = Some t" for t
    unfolding load snoc_fold_get[OF assms(1) inj] by blast
  then show ?thesis by (intro option_eqI) simp
qed

text \<open>
  The state of a server with storage all of whose writes succeed: the files are the safe part of
  the fingerprints, and every artifact is indexed by the hash of its content.
\<close>

definition persisted :: "server_env \<Rightarrow> 8 word list set \<Rightarrow> cache_server \<Rightarrow> bool" where
  "persisted env D s \<longleftrightarrow>
     (\<exists>d. storage s = Some d \<and> distinct (hm_keys (fp_files d)) \<and> distinct (hm_keys (artifact_index s)) \<and>
        (\<forall>name. name \<in> fst ` set (fp_files d) \<longrightarrow> (\<exists>k. safe_key_identifier k = Some k \<and> name = k @ ''.json'')) \<and>
        (\<forall>k. safe_key_identifier k = Some k \<longrightarrow> hm_get (fp_files d) (k @ ''.json'') = hm_get (fingerprints s) k) \<and>
        index_file d = (if artifact_index s = [] then None else Some (index_to_json env (artifact_index s))) \<and>
        (\<forall>h. hm_get (artifact_index s) h = map_option (blob_hash env) (hm_get (server_artifacts s) h)) \<and>
        (\<forall>h b. hm_get (server_artifacts s) h = Some b \<longrightarrow> b \<in> D \<and> hm_get (object_files d) (blob_hash env b) = Some b))"

definition good_env :: "server_env \<Rightarrow> bool" where
  "good_env env \<longleftrightarrow>
     (\<forall>d. b64_decode env (b64_encode env d) = Some d) \<and>
     (\<forall>d. safe_key_identifier (blob_hash env d) = Some (blob_hash env d) \<and> CHR ''.'' \<notin> set (blob_hash env d)) \<and>
     (\<forall>m. distinct (hm_keys m) \<longrightarrow>
        (\<exists>m'. index_from_json env (index_to_json env m) = Some m' \<and> distinct (hm_keys m') \<and> hm_get m' = hm_get m))"

lemma sample_io_writes [simp]: "write_renamed (fp_io sample_io) t tmp v m = hm_insert t v (hm_remove tmp m)"
  "write_renamed (object_io sample_io) t tmp v m = hm_insert t v (hm_remove tmp m)"
  "object_readable sample_io h" "tmp_written (index_io sample_io)" "renamed (index_io sample_io)"
  by (simp_all add: write_renamed_def sample_io_def)

lemma tmp_not_json: "k @ ''.tmp'' \<noteq> j @ ''.json''"
proof
  assume "k @ ''.tmp'' = j @ ''.json''"
  then have "last (k @ ''.tmp'') = last (j @ ''.json'')" by simp
  then show False by simp
qed

lemma persisted_put_fingerprint:
  assumes "persisted env D s"
  shows "persisted env D (put_fingerprint_on sample_io k fp s)"
proof -
  obtain d where d: "storage s = Some d" and P: "distinct (hm_keys (fp_files d))"
    "\<forall>name. name \<in> fst ` set (fp_files d) \<longrightarrow> (\<exists>k. safe_key_identifier k = Some k \<and> name = k @ ''.json'')"
    using assms by (auto simp: persisted_def)
  have gone: "hm_remove (k @ ''.tmp'') (fp_files d) = fp_files d"
  proof -
    have "k @ ''.tmp'' \<notin> fst ` set (fp_files d)" using P(2) tmp_not_json by blast
    then show ?thesis by (rule delete_id)
  qed
  show ?thesis
  proof (cases "safe_key_identifier k")
    case None
    then show ?thesis using assms d by (auto simp: persisted_def put_fingerprint_on_def)
  next
    case (Some k')
    then have k: "safe_key_identifier k = Some k" using safe_key_Some by blast
    show ?thesis
      using assms d k gone
      by (auto simp: persisted_def put_fingerprint_on_def distinct_update)
  qed
qed

lemma persisted_put_artifact:
  assumes "persisted env D s" "good_env env" "b \<in> D" "inj_on (blob_hash env) D"
  shows "persisted env D (put_artifact_on env sample_io h b s)"
proof -
  obtain d where d: "storage s = Some d" and P: 
    "\<forall>h b. hm_get (server_artifacts s) h = Some b \<longrightarrow> b \<in> D \<and> hm_get (object_files d) (blob_hash env b) = Some b"
    using assms(1) by (auto simp: persisted_def)
  have safe: "safe_key_identifier (blob_hash env b) = Some (blob_hash env b)"
    and dot: "CHR ''.'' \<notin> set (blob_hash env c)" for c
    using assms(2) by (auto simp: good_env_def)
  have tmp: "blob_hash env c \<noteq> blob_hash env b @ ''.tmp''" for c
    using dot[of c] by (metis UnCI list.set_intros(1) set_append)
  have objects: "hm_get (hm_insert (blob_hash env b) b (hm_remove (blob_hash env b @ ''.tmp'') (object_files d))) (blob_hash env c) = Some c"
    if "c = b \<or> c \<in> D \<and> hm_get (object_files d) (blob_hash env c) = Some c" for c
    using that tmp[of c] assms(3,4) by (auto dest: inj_onD)
  show ?thesis
    using assms(1,3) d safe objects P
    by (auto simp: persisted_def put_artifact_on_def Let_def distinct_update split: if_splits)
qed

definition request_data :: "server_env \<Rightarrow> cache_request list \<Rightarrow> 8 word list set" where
  "request_data env reqs = {b. \<exists>h payload t. Put_Artifact h payload t \<in> set reqs \<and> b64_decode env payload = Some b}"

definition serve_all :: "server_env \<Rightarrow> cache_request list \<Rightarrow> cache_server \<Rightarrow> cache_server" where
  "serve_all env reqs s = foldl (\<lambda>s req. snd (process_request env sample_io req s)) s reqs"

lemma persisted_request:
  assumes "persisted env D s" "good_env env" "inj_on (blob_hash env) D" "request_data env [req] \<subseteq> D"
  shows "persisted env D (snd (process_request env sample_io req s))"
proof (cases req)
  case (Put_Artifact h payload t)
  then show ?thesis
    using assms persisted_put_artifact[OF assms(1,2) _ assms(3)]
    by (auto simp: process_request_def request_data_def split: option.splits)
qed (use assms(1) persisted_put_fingerprint[OF assms(1)] in \<open>auto simp: process_request_def split: option.splits\<close>)

lemma persisted_serve_all:
  assumes "persisted env D s" "good_env env" "inj_on (blob_hash env) D" "request_data env reqs \<subseteq> D"
  shows "persisted env D (serve_all env reqs s)"
  using assms(1,4)
proof (induction reqs arbitrary: s)
  case (Cons req reqs)
  have "request_data env [req] \<subseteq> D" "request_data env reqs \<subseteq> D"
    using Cons.prems(2) by (auto simp: request_data_def)
  then show ?case
    using Cons.IH[OF persisted_request[OF Cons.prems(1) assms(2,3)]] by (simp add: serve_all_def)
qed (simp add: serve_all_def)

definition empty_disk :: server_disk where
  "empty_disk = \<lparr>fp_files = [], object_files = [], index_file = None\<rparr>"

lemma persisted_new: "persisted env D (new_server env (\<lambda>_. True) True tok (Some empty_disk))"
  by (simp add: persisted_def new_server_def empty_disk_def load_fingerprints_def load_index_def)

text \<open>
  C27. Restarting the server on its storage keeps every artifact under every name it was put
  under, and the fingerprints of the keys that are safe as file names, trimmed; the others,
  although their put was answered with success, are gone.
\<close>

theorem server_survives_restart:
  assumes "good_env env" "inj_on (blob_hash env) (request_data env reqs)"
    and s: "s = serve_all env reqs (new_server env (\<lambda>_. True) True tok (Some empty_disk))"
    and s': "s' = new_server env (\<lambda>_. True) True tok (storage s)"
  shows "(\<forall>h. find_artifact sample_io h s' = find_artifact sample_io h s) \<and>
    (\<forall>k. hm_get (fingerprints s') k =
       (if safe_key_identifier k = None then None else map_option trim (hm_get (fingerprints s) k)))"
proof -
  have "persisted env (request_data env reqs) s"
    unfolding s by (rule persisted_serve_all[OF persisted_new assms(1,2) subset_refl])
  then obtain d where d: "storage s = Some d" and P: "distinct (hm_keys (fp_files d))" "distinct (hm_keys (artifact_index s))"
    "\<And>name. name \<in> fst ` set (fp_files d) \<Longrightarrow> \<exists>k. safe_key_identifier k = Some k \<and> name = k @ ''.json''"
    "\<And>k. safe_key_identifier k = Some k \<Longrightarrow> hm_get (fp_files d) (k @ ''.json'') = hm_get (fingerprints s) k"
    "index_file d = (if artifact_index s = [] then None else Some (index_to_json env (artifact_index s)))"
    "\<And>h. hm_get (artifact_index s) h = map_option (blob_hash env) (hm_get (server_artifacts s) h)"
    "\<And>h b. hm_get (server_artifacts s) h = Some b \<Longrightarrow> hm_get (object_files d) (blob_hash env b) = Some b"
    by (auto simp: persisted_def)
  have names: "\<And>name. name \<in> fst ` set (fp_files d) \<Longrightarrow> \<exists>k. k \<noteq> [] \<and> name = k @ ''.json''"
    using P(3) safe_key_Some by blast
  have fps: "hm_get (fingerprints s') k = (if safe_key_identifier k = None then None else map_option trim (hm_get (fingerprints s) k))" for k
  proof (cases "safe_key_identifier k")
    case None
    then have "hm_get (fp_files d) (k @ ''.json'') = None"
      using P(3)[of "k @ ''.json''"] hm_get_key[of "fp_files d" "k @ ''.json''"] by fastforce
    then show ?thesis using None load_fingerprints_get[OF P(1) names, of k] by (simp add: s' d new_server_def)
  next
    case (Some k')
    then have "k' = k \<and> k \<noteq> []" by (rule safe_key_Some)
    then show ?thesis using Some P(4)[of k] load_fingerprints_get[OF P(1) names, of k] by (simp add: s' d new_server_def)
  qed
  have index: "hm_get (artifact_index s') h = hm_get (artifact_index s) h" for h
  proof (cases "artifact_index s = []")
    case True
    then show ?thesis using P(5) by (simp add: s' d new_server_def load_index_def)
  next
    case False
    obtain m' where m: "index_from_json env (index_to_json env (artifact_index s)) = Some m'" "distinct (hm_keys m')"
      "hm_get m' = hm_get (artifact_index s)"
      using assms(1) P(2) unfolding good_env_def by blast
    have "hm_get (foldl (\<lambda>m (h, c). hm_insert h c m) [] m') h = Some c \<longleftrightarrow> hm_get m' h = Some c" for c
      using snoc_fold_get[OF m(2), of "\<lambda>x. x" "\<lambda>x. x"] by auto
    then show ?thesis
      using m P(5) False by (cases "hm_get m' h") (auto simp: s' d new_server_def load_index_def)
  qed
  have "find_artifact sample_io h s' = find_artifact sample_io h s" for h
    using assms(1) P(6)[of h] P(7)[of h] index[of h] d
    by (auto simp: find_artifact_def s' new_server_def good_env_def split: option.splits)
  then show ?thesis using fps by blast
qed

lemma sample_server_good: "good_env sample_server_env"
  unfolding good_env_def
proof (intro conjI allI impI)
  fix d :: "8 word list" and m :: "(string, string) hash_map"
  have "unat x mod 256 = unat x" for x :: "8 word" by (simp add: unsigned_less[of x, simplified])
  then show "b64_decode sample_server_env (b64_encode sample_server_env d) = Some d"
    by (simp add: sample_server_env_def comp_def)
  have safe: "safe_key_identifier ''empty'' = Some ''empty''" "safe_key_identifier ''data'' = Some ''data''"
    by code_simp+
  then show "safe_key_identifier (blob_hash sample_server_env d) = Some (blob_hash sample_server_env d)"
    by (simp add: sample_server_env_def)
  show "CHR ''.'' \<notin> set (blob_hash sample_server_env d)" by (simp add: sample_server_env_def)
  assume "distinct (hm_keys m)"
  moreover have "index_from_json sample_server_env (index_to_json sample_server_env m) = Some m"
    by (simp add: sample_server_env_def zip_map_fst_snd del: append_Nil2)
  ultimately show "\<exists>m'. index_from_json sample_server_env (index_to_json sample_server_env m) = Some m' \<and>
      distinct (hm_keys m') \<and> hm_get m' = hm_get m" by blast
qed

theorem server_survives_restart_witness:
  "\<exists>s s'. s = serve_all sample_server_env [Put_Fingerprint ''k'' '' f'' None, Put_Artifact ''k'' ''x'' None]
       (new_server sample_server_env (\<lambda>_. True) True None (Some empty_disk)) \<and>
     s' = new_server sample_server_env (\<lambda>_. True) True None (storage s) \<and>
     find_artifact sample_io ''k'' s' = Some [0x78] \<and> hm_get (fingerprints s') ''k'' = Some ''f''"
proof -
  let ?reqs = "[Put_Fingerprint ''k'' '' f'' None, Put_Artifact ''k'' ''x'' None]"
  define s where "s = serve_all sample_server_env ?reqs (new_server sample_server_env (\<lambda>_. True) True None (Some empty_disk))"
  define s' where "s' = new_server sample_server_env (\<lambda>_. True) True None (storage s)"
  have "inj_on (blob_hash sample_server_env) (request_data sample_server_env ?reqs)"
    by (rule inj_onI) (auto simp: request_data_def sample_server_env_def)
  note R = server_survives_restart[OF sample_server_good this s_def s'_def]
  have safe: "safe_key_identifier ''k'' = Some ''k''" "trim '' f'' = ''f''" by code_simp+
  have "find_artifact sample_io ''k'' s = Some [0x78]" "hm_get (fingerprints s) ''k'' = Some '' f''"
    by (simp_all add: s_def serve_all_def process_request_def check_auth_iff new_server_def empty_disk_def
        load_fingerprints_def load_index_def put_fingerprint_on_def put_artifact_on_def safe find_artifact_def
        sample_server_env_def Let_def split: option.splits)
  then have "find_artifact sample_io ''k'' s' = Some [0x78]" "hm_get (fingerprints s') ''k'' = Some ''f''"
    using R[THEN conjunct1, rule_format, of "''k''"] R[THEN conjunct2, rule_format, of "''k''"] safe by simp_all
  then show ?thesis using s_def s'_def by blast
qed

subsection \<open>The contract of a remote cache\<close>

text \<open>
  What the caches in front rely on, \<open>RemoteCacheClient\<close>: a get that succeeds tells what is stored
  and changes nothing; a put stores, and one that fails has stored the new value or nothing.
\<close>

locale remote_client =
  fixes invar :: "'s \<Rightarrow> bool"
    and get_fp :: "string \<Rightarrow> 's \<Rightarrow> (remote_error + string option) \<times> 's"
    and put_fp :: "string \<Rightarrow> string \<Rightarrow> 's \<Rightarrow> (remote_error + unit) \<times> 's"
    and get_art :: "string \<Rightarrow> 's \<Rightarrow> (remote_error + 8 word list option) \<times> 's"
    and put_art :: "string \<Rightarrow> 8 word list \<Rightarrow> 's \<Rightarrow> (remote_error + unit) \<times> 's"
    and fps :: "'s \<Rightarrow> string \<Rightarrow> string option"
    and arts :: "'s \<Rightarrow> string \<Rightarrow> 8 word list option"
  assumes get_fp: "invar s \<Longrightarrow> get_fp k s = (r, s') \<Longrightarrow>
      invar s' \<and> fps s' = fps s \<and> arts s' = arts s \<and> (\<forall>v. r = Inr v \<longrightarrow> v = fps s k)"
    and put_fp: "invar s \<Longrightarrow> put_fp k f s = (u, s') \<Longrightarrow>
      invar s' \<and> arts s' = arts s \<and> (fps s' = (fps s)(k \<mapsto> f) \<or> (fps s' = fps s \<and> (\<exists>e. u = Inl e)))"
    and get_art: "invar s \<Longrightarrow> get_art k s = (a, s') \<Longrightarrow>
      invar s' \<and> fps s' = fps s \<and> arts s' = arts s \<and> (\<forall>b. a = Inr b \<longrightarrow> b = arts s k)"
    and put_art: "invar s \<Longrightarrow> put_art k d s = (u, s') \<Longrightarrow>
      invar s' \<and> fps s' = fps s \<and> (arts s' k = Some d \<or> (arts s' = arts s \<and> (\<exists>e. u = Inl e)))"

text \<open>
  The client over a server with storage or without, a network that may lose requests and answers,
  and any token: when the server does not accept it, every operation fails.
\<close>

lemma send_loop_inv:
  assumes "\<And>s. P s \<Longrightarrow> P (snd (serve req s))" "P s" "send_loop serve ds req e s = (r, s')"
  shows "P s'"
  using assms(2,3)
proof (induction ds arbitrary: e s)
  case (Cons d ds)
  then show ?case using assms(1)
    by (cases d) (auto simp: apfst_def map_prod_def split: prod.splits, metis snd_conv)
qed simp

lemma send_loop_answer:
  assumes "\<And>s. P s \<Longrightarrow> P (snd (serve req s))" "P s" "send_loop serve ds req e s = (Inr resp, s')"
  shows "\<exists>s1. P s1 \<and> serve req s1 = (resp, s')"
  using assms(2,3)
proof (induction ds arbitrary: e s)
  case (Cons d ds)
  then show ?case using assms(1)
    by (cases d) (auto simp: apfst_def map_prod_def split: prod.splits)
qed simp

lemma call_server_run:
  assumes "call_server env io req n = (r, n')"
  shows "\<exists>ds e. send_loop (process_request env io) ds req e (fst n) = (r, fst n')"
proof (cases n)
  case (Pair s calls)
  then have "send_loop (process_request env io) (take 3 (case calls of [] \<Rightarrow> [] | ds # _ \<Rightarrow> ds)) req Network s = (r, fst n')"
    using assms by (auto simp: call_server_def send_request_def split: prod.splits)
  then show ?thesis using Pair by (metis fst_conv)
qed

lemma call_server_inv:
  assumes "\<And>s. P s \<Longrightarrow> P (snd (process_request env io req s))" "P (fst n)" "call_server env io req n = (r, n')"
  shows "P (fst n')"
proof -
  obtain ds e where "send_loop (process_request env io) ds req e (fst n) = (r, fst n')"
    using call_server_run[OF assms(3)] by blast
  then show ?thesis using send_loop_inv[of P "process_request env io" req] assms(1,2) by blast
qed

lemma call_server_answer:
  assumes "\<And>s. P s \<Longrightarrow> P (snd (process_request env io req s))" "P (fst n)" "call_server env io req n = (Inr resp, n')"
  shows "\<exists>s1. P s1 \<and> process_request env io req s1 = (resp, fst n')"
proof -
  obtain ds e where "send_loop (process_request env io) ds req e (fst n) = (Inr resp, fst n')"
    using call_server_run[OF assms(3)] by blast
  then show ?thesis using send_loop_answer[of P "process_request env io" req] assms(1,2) by blast
qed

lemma get_requests_frame:
  "snd (process_request env io (Get_Fingerprint k t) s) = s" "snd (process_request env io (Get_Artifact k t) s) = s"
  by (auto simp: process_request_def split: option.splits)

lemma put_fingerprint_frame:
  "server_artifacts (put_fingerprint_on io k fp s) = server_artifacts s"
  "artifact_index (put_fingerprint_on io k fp s) = artifact_index s"
  "fingerprints (put_fingerprint_on io k fp s) = hm_insert k fp (fingerprints s)"
  "auth_token (put_fingerprint_on io k fp s) = auth_token s"
  "find_artifact io' h (put_fingerprint_on io k fp s) = find_artifact io' h s"
  by (auto simp: put_fingerprint_on_def find_artifact_def Let_def split: option.splits cong: if_cong)

lemma put_artifact_frame:
  "server_artifacts (put_artifact_on env io h b s) = hm_insert h b (server_artifacts s)"
  "fingerprints (put_artifact_on env io h b s) = fingerprints s"
  "auth_token (put_artifact_on env io h b s) = auth_token s"
  "find_artifact io' h (put_artifact_on env io h b s) = Some b"
  by (auto simp: put_artifact_on_def find_artifact_def Let_def split: option.splits)

lemma rejected_token:
  "auth_token s = Some t \<Longrightarrow> request_token req \<noteq> Some t \<Longrightarrow> snd (process_request env io req s) = s"
  using unauthorized_request[of s t req env io] by auto

text \<open>What each operation leaves of the server, whether the token is accepted or not.\<close>

lemma put_fingerprint_request:
  "process_request env io (Put_Fingerprint k fp t) s =
     (if check_auth (auth_token s) t then (Put_Fingerprint_Result k True None, put_fingerprint_on io k fp s)
      else (Put_Fingerprint_Result k False (Some ''unauthorized''), s))"
  by (simp add: process_request_def)

lemma put_artifact_request:
  assumes "b64_decode env (b64_encode env d) = Some d"
  shows "process_request env io (Put_Artifact h (b64_encode env d) t) s =
     (if check_auth (auth_token s) t then (Put_Artifact_Result h True None, put_artifact_on env io h d s)
      else (Put_Artifact_Result h False (Some ''unauthorized''), s))"
  using assms by (simp add: process_request_def)

lemma client_get_fingerprint_law:
  assumes "client_get_fingerprint env io tok k n = (r, n')"
  shows "fst n' = fst n \<and> (\<forall>v. r = Inr v \<longrightarrow> v = hm_get (fingerprints (fst n)) k)"
proof -
  obtain resp where c: "call_server env io (Get_Fingerprint k tok) n = (resp, n')" "r = fingerprint_result resp"
    using assms by (cases "call_server env io (Get_Fingerprint k tok) n") (auto simp: client_get_fingerprint_def)
  have same: "fst n' = fst n"
    using call_server_inv[of "\<lambda>s. s = fst n", OF _ _ c(1)] by (simp add: get_requests_frame)
  have "v = hm_get (fingerprints (fst n)) k" if ok: "r = Inr v" for v
  proof -
    obtain a where a: "resp = Inr a" using ok c(2) by (cases resp) (auto simp: fingerprint_result_def)
    have "process_request env io (Get_Fingerprint k tok) (fst n) = (a, fst n')"
      using call_server_answer[of "\<lambda>s. s = fst n", OF _ _ c(1)[unfolded a]] by (auto simp: get_requests_frame)
    then show ?thesis
      using ok c(2) a by (auto simp: process_request_def fingerprint_result_def split: if_splits option.splits)
  qed
  then show ?thesis using same by blast
qed

lemma client_get_artifact_law:
  assumes "b64_decode env = g" "\<And>d. g (b64_encode env d) = Some d" "client_get_artifact env io tok k n = (r, n')"
  shows "fst n' = fst n \<and> (\<forall>v. r = Inr v \<longrightarrow> v = find_artifact io k (fst n))"
proof -
  obtain resp where c: "call_server env io (Get_Artifact k tok) n = (resp, n')" "r = artifact_result env resp"
    using assms(3) by (cases "call_server env io (Get_Artifact k tok) n") (auto simp: client_get_artifact_def)
  have same: "fst n' = fst n"
    using call_server_inv[of "\<lambda>s. s = fst n", OF _ _ c(1)] by (simp add: get_requests_frame)
  have "v = find_artifact io k (fst n)" if ok: "r = Inr v" for v
  proof -
    obtain a where a: "resp = Inr a" using ok c(2) by (cases resp) (auto simp: artifact_result_def)
    have "process_request env io (Get_Artifact k tok) (fst n) = (a, fst n')"
      using call_server_answer[of "\<lambda>s. s = fst n", OF _ _ c(1)[unfolded a]] by (auto simp: get_requests_frame)
    then show ?thesis
      using ok c(2) a assms(1,2) by (auto simp: process_request_def artifact_result_def split: if_splits option.splits)
  qed
  then show ?thesis using same by blast
qed

lemma client_put_fingerprint_law:
  assumes "client_put_fingerprint env io tok k fp n = (r, n')"
  shows "find_artifact io' h (fst n') = find_artifact io' h (fst n) \<and>
    (hm_get (fingerprints (fst n')) = (hm_get (fingerprints (fst n)))(k \<mapsto> fp) \<or>
     hm_get (fingerprints (fst n')) = hm_get (fingerprints (fst n)) \<and> (\<exists>e. r = Inl e))"
proof -
  obtain resp where c: "call_server env io (Put_Fingerprint k fp tok) n = (resp, n')" "r = put_fingerprint_result resp"
    using assms by (cases "call_server env io (Put_Fingerprint k fp tok) n") (auto simp: client_put_fingerprint_def)
  let ?same = "\<lambda>s. find_artifact io' h s = find_artifact io' h (fst n) \<and> auth_token s = auth_token (fst n)"
  let ?put = "\<lambda>s. hm_get (fingerprints s) = (hm_get (fingerprints (fst n)))(k \<mapsto> fp)"
  let ?P = "\<lambda>s. ?same s \<and> (?put s \<or> hm_get (fingerprints s) = hm_get (fingerprints (fst n)))"
  have step: "?P s \<Longrightarrow> ?P (snd (process_request env io (Put_Fingerprint k fp tok) s))" for s
    by (auto simp: put_fingerprint_request put_fingerprint_frame fun_eq_iff)
  have P: "?P (fst n')" by (rule call_server_inv[of ?P, OF step _ c(1)]) simp_all
  have "?put (fst n')" if ok: "r = Inr ()"
  proof -
    obtain a where a: "resp = Inr a" using ok c(2) by (cases resp) (auto simp: put_fingerprint_result_def)
    obtain s1 where s1: "?P s1" "process_request env io (Put_Fingerprint k fp tok) s1 = (a, fst n')"
      using call_server_answer[of ?P, OF step _ c(1)[unfolded a]] by auto
    then have "fst n' = put_fingerprint_on io k fp s1"
      using ok c(2) a by (auto simp: put_fingerprint_request put_fingerprint_result_def split: if_splits)
    then show ?thesis using s1(1) by (auto simp: put_fingerprint_frame fun_eq_iff)
  qed
  then show ?thesis using P by (cases r) auto
qed

lemma client_put_artifact_law:
  assumes "b64_decode env (b64_encode env d) = Some d" "client_put_artifact env io tok h d n = (r, n')"
  shows "hm_get (fingerprints (fst n')) = hm_get (fingerprints (fst n)) \<and>
    (find_artifact io' h (fst n') = Some d \<or> fst n' = fst n \<and> (\<exists>e. r = Inl e))"
proof -
  let ?req = "Put_Artifact h (b64_encode env d) tok"
  obtain resp where c: "call_server env io ?req n = (resp, n')" "r = put_artifact_result resp"
    using assms(2) by (cases "call_server env io ?req n") (auto simp: client_put_artifact_def)
  let ?P = "\<lambda>s. hm_get (fingerprints s) = hm_get (fingerprints (fst n)) \<and> (find_artifact io' h s = Some d \<or> s = fst n)"
  have step: "?P s \<Longrightarrow> ?P (snd (process_request env io ?req s))" for s
    by (auto simp: put_artifact_request[OF assms(1)] put_artifact_frame)
  have P: "?P (fst n')" by (rule call_server_inv[of ?P, OF step _ c(1)]) simp_all
  have "find_artifact io' h (fst n') = Some d" if ok: "r = Inr ()"
  proof -
    obtain a where a: "resp = Inr a" using ok c(2) by (cases resp) (auto simp: put_artifact_result_def)
    obtain s1 where s1: "?P s1" "process_request env io ?req s1 = (a, fst n')"
      using call_server_answer[of ?P, OF step _ c(1)[unfolded a]] by auto
    then have "fst n' = put_artifact_on env io h d s1"
      using ok c(2) a by (auto simp: put_artifact_request[OF assms(1)] put_artifact_result_def split: if_splits)
    then show ?thesis by (simp add: put_artifact_frame)
  qed
  then show ?thesis using P by (cases r) auto
qed

interpretation tcp: remote_client "\<lambda>n. \<forall>d. b64_decode env (b64_encode env d) = Some d"
  "client_get_fingerprint env io tok" "client_put_fingerprint env io tok"
  "client_get_artifact env io tok" "client_put_artifact env io tok"
  "\<lambda>n. hm_get (fingerprints (fst n))" "\<lambda>n h. find_artifact io h (fst n)"
  for env io tok
proof
  fix n n' :: network and k f d r u a
  show "\<forall>d. b64_decode env (b64_encode env d) = Some d \<Longrightarrow> client_get_fingerprint env io tok k n = (r, n') \<Longrightarrow>
    (\<forall>d. b64_decode env (b64_encode env d) = Some d) \<and>
    hm_get (fingerprints (fst n')) = hm_get (fingerprints (fst n)) \<and>
    (\<lambda>h. find_artifact io h (fst n')) = (\<lambda>h. find_artifact io h (fst n)) \<and>
    (\<forall>v. r = Inr v \<longrightarrow> v = hm_get (fingerprints (fst n)) k)"
    using client_get_fingerprint_law by metis
  show "\<forall>d. b64_decode env (b64_encode env d) = Some d \<Longrightarrow> client_put_fingerprint env io tok k f n = (u, n') \<Longrightarrow>
    (\<forall>d. b64_decode env (b64_encode env d) = Some d) \<and>
    (\<lambda>h. find_artifact io h (fst n')) = (\<lambda>h. find_artifact io h (fst n)) \<and>
    (hm_get (fingerprints (fst n')) = (hm_get (fingerprints (fst n)))(k \<mapsto> f) \<or>
     hm_get (fingerprints (fst n')) = hm_get (fingerprints (fst n)) \<and> (\<exists>e. u = Inl e))"
    using client_put_fingerprint_law[of env io tok k f n u n'] by blast
  show "\<forall>d. b64_decode env (b64_encode env d) = Some d \<Longrightarrow> client_get_artifact env io tok k n = (a, n') \<Longrightarrow>
    (\<forall>d. b64_decode env (b64_encode env d) = Some d) \<and>
    hm_get (fingerprints (fst n')) = hm_get (fingerprints (fst n)) \<and>
    (\<lambda>h. find_artifact io h (fst n')) = (\<lambda>h. find_artifact io h (fst n)) \<and>
    (\<forall>b. a = Inr b \<longrightarrow> b = find_artifact io k (fst n))"
    using client_get_artifact_law[OF refl, of env io tok k n a n'] by auto
  show "\<forall>d. b64_decode env (b64_encode env d) = Some d \<Longrightarrow> client_put_artifact env io tok k d n = (u, n') \<Longrightarrow>
    (\<forall>d. b64_decode env (b64_encode env d) = Some d) \<and>
    hm_get (fingerprints (fst n')) = hm_get (fingerprints (fst n)) \<and>
    (find_artifact io k (fst n') = Some d \<or>
     (\<lambda>h. find_artifact io h (fst n')) = (\<lambda>h. find_artifact io h (fst n)) \<and> (\<exists>e. u = Inl e))"
    using client_put_artifact_law[of env d io tok k n u n' io] by metis
qed

end
