(* ===== verification/Composite_Cache.thy ===== *)
theory Composite_Cache
  imports Local_Cache Remote_Server
begin

text \<open>
  The local cache with a remote one behind it, and the executor that restores and stores the
  artifacts of a task: \<open>CompositeCache\<close> and \<open>CompositeCachingExecutor\<close> of
  \<open>fish-remote-cache/src/lib.rs\<close>, with the remote cache in memory of the same file and the
  registry of \<open>p2p_lan.rs\<close>. A \<open>dyn RemoteCacheClient\<close> is its operations, which are arguments; the
  contract they keep is \<open>remote_client\<close>. Packing the files of a directory and unpacking them are
  arguments too; they act on the state \<open>'w\<close> of the working directories.
\<close>

subsection \<open>The remote cache in memory\<close>

record memory_remote =
  mr_store :: "(string, string) hash_map"
  mr_artifacts :: "(string, 8 word list) hash_map"

definition new_memory_remote :: memory_remote where
  "new_memory_remote = \<lparr>mr_store = [], mr_artifacts = []\<rparr>"

definition mr_get_fingerprint :: "string \<Rightarrow> memory_remote \<Rightarrow> (remote_error + string option) \<times> memory_remote" where
  "mr_get_fingerprint k m = (Inr (hm_get (mr_store m) k), m)"

definition mr_put_fingerprint :: "string \<Rightarrow> string \<Rightarrow> memory_remote \<Rightarrow> (remote_error + unit) \<times> memory_remote" where
  "mr_put_fingerprint k fp m = (Inr (), m\<lparr>mr_store := hm_insert k fp (mr_store m)\<rparr>)"

definition mr_get_artifact :: "string \<Rightarrow> memory_remote \<Rightarrow> (remote_error + 8 word list option) \<times> memory_remote" where
  "mr_get_artifact k m = (Inr (hm_get (mr_artifacts m) k), m)"

definition mr_put_artifact :: "string \<Rightarrow> 8 word list \<Rightarrow> memory_remote \<Rightarrow> (remote_error + unit) \<times> memory_remote" where
  "mr_put_artifact k d m = (Inr (), m\<lparr>mr_artifacts := hm_insert k d (mr_artifacts m)\<rparr>)"

interpretation memory: remote_client "\<lambda>_. True" mr_get_fingerprint mr_put_fingerprint mr_get_artifact mr_put_artifact
  "\<lambda>m. hm_get (mr_store m)" "\<lambda>m. hm_get (mr_artifacts m)"
  by unfold_locales
     (auto simp: mr_get_fingerprint_def mr_put_fingerprint_def mr_get_artifact_def mr_put_artifact_def fun_eq_iff)

subsection \<open>Peers\<close>

text \<open>The registry of the local network; the order in which its map is iterated is that of the list.\<close>

record lan_peer =
  peer_id :: string
  address :: string
  available_artifacts :: "string list"

type_synonym lan_registry = "(string, lan_peer) hash_map"

definition register_peer :: "string \<Rightarrow> string \<Rightarrow> lan_registry \<Rightarrow> lan_registry" where
  "register_peer i a r = hm_insert i \<lparr>peer_id = i, address = a, available_artifacts = []\<rparr> r"

definition announce_artifact :: "string \<Rightarrow> string \<Rightarrow> lan_registry \<Rightarrow> lan_registry" where
  "announce_artifact i h r =
     (case hm_get r i of
        None \<Rightarrow> r
      | Some p \<Rightarrow> hm_insert i (p\<lparr>available_artifacts := List.insert h (available_artifacts p)\<rparr>) r)"

definition locate_artifact_peers :: "string \<Rightarrow> lan_registry \<Rightarrow> string list" where
  "locate_artifact_peers h r =
     map (\<lambda>(_, p). address p) (filter (\<lambda>(_, p). h \<in> set (available_artifacts p)) r)"

definition peer_count :: "lan_registry \<Rightarrow> nat" where
  "peer_count r = length r"

lemma locate_after_announce:
  assumes "distinct (hm_keys r)" "hm_get r i = Some p"
  shows "set (locate_artifact_peers h (announce_artifact i h r)) = insert (address p) (set (locate_artifact_peers h r))"
proof -
  let ?p = "p\<lparr>available_artifacts := List.insert h (available_artifacts p)\<rparr>"
  have d: "distinct (hm_keys (hm_insert i ?p r))" using assms(1) by (simp add: distinct_update)
  have "(j, q) \<in> set (hm_insert i ?p r) \<longleftrightarrow> (if j = i then q = ?p else (j, q) \<in> set r)" for j q
    using map_of_eq_Some_iff[OF d, of j q] map_of_eq_Some_iff[OF assms(1), of j q] by auto
  then have ins: "set (hm_insert i ?p r) = insert (i, ?p) (set r - {(i, p)})"
    using assms map_of_eq_Some_iff[OF assms(1), of i] by (auto split: if_splits) metis
  have "(i, p) \<in> set r" using assms by simp
  then show ?thesis
    using assms(2) by (auto simp: locate_artifact_peers_def announce_artifact_def ins image_iff)
       (intro exI[of _ i] exI[of _ ?p], simp)
qed

subsection \<open>The composite cache\<close>

record 's composite_cache =
  cc_local :: local_cache
  cc_remote :: "'s option"

record composite_io =
  cc_exec :: exec_io
  object_write :: write_result
  object_read :: bool

definition composite_matches ::
  "(fp_record \<Rightarrow> byte list) \<Rightarrow> (byte list \<Rightarrow> fp_record option) \<Rightarrow>
     (string \<Rightarrow> 's \<Rightarrow> (remote_error + string option) \<times> 's) \<Rightarrow>
     exec_io \<Rightarrow> string \<Rightarrow> string \<Rightarrow> 's composite_cache \<Rightarrow> bool \<times> 's composite_cache"
where
  "composite_matches ser de get_fp io k fp c =
     (case cache_matches de (read_ok io) (str_bytes k) fp (cc_local c) of
        (True, l) \<Rightarrow> (True, c\<lparr>cc_local := l\<rparr>)
      | (False, l) \<Rightarrow>
          (case cc_remote c of
             None \<Rightarrow> (False, c\<lparr>cc_local := l\<rparr>)
           | Some s \<Rightarrow>
               (case get_fp k s of
                  (r, s') \<Rightarrow>
                    if r = Inr (Some fp) then
                      let l' = snd (cache_put ser (write_io io) (exec_now io) (str_bytes k) fp l)
                      in (True, c\<lparr>cc_local := record_hit l', cc_remote := Some s'\<rparr>)
                    else (False, c\<lparr>cc_local := l, cc_remote := Some s'\<rparr>))))"

definition composite_put_with_artifact ::
  "(fp_record \<Rightarrow> byte list) \<Rightarrow> (string \<Rightarrow> string \<Rightarrow> 's \<Rightarrow> (remote_error + unit) \<times> 's) \<Rightarrow>
     (string \<Rightarrow> 8 word list \<Rightarrow> 's \<Rightarrow> (remote_error + unit) \<times> 's) \<Rightarrow>
     composite_io \<Rightarrow> string \<Rightarrow> string \<Rightarrow> byte list option \<Rightarrow> 's composite_cache \<Rightarrow> 's composite_cache"
where
  "composite_put_with_artifact ser put_fp put_art io k fp art c =
     (let l = snd (put_with_artifact ser (write_io (cc_exec io)) (exec_now (cc_exec io)) (str_bytes k) fp art (cc_local c));
          c1 = c\<lparr>cc_local := l\<rparr>
      in case cc_remote c of
           None \<Rightarrow> c1
         | Some s \<Rightarrow>
             let s1 = snd (put_fp k fp s)
             in (case Option.bind art (\<lambda>h. get_object (object_read io) h l) of
                   Some blob \<Rightarrow> c1\<lparr>cc_remote := Some (snd (put_art k blob s1))\<rparr>
                 | None \<Rightarrow> c1\<lparr>cc_remote := Some s1\<rparr>))"

definition composite_put ::
  "(fp_record \<Rightarrow> byte list) \<Rightarrow> (string \<Rightarrow> string \<Rightarrow> 's \<Rightarrow> (remote_error + unit) \<times> 's) \<Rightarrow>
     (string \<Rightarrow> 8 word list \<Rightarrow> 's \<Rightarrow> (remote_error + unit) \<times> 's) \<Rightarrow>
     composite_io \<Rightarrow> string \<Rightarrow> string \<Rightarrow> 's composite_cache \<Rightarrow> 's composite_cache"
where
  "composite_put ser put_fp put_art io k fp c = composite_put_with_artifact ser put_fp put_art io k fp None c"

definition composite_get_artifact ::
  "(byte list \<Rightarrow> fp_record option) \<Rightarrow> (8 word list \<Rightarrow> byte list) \<Rightarrow>
     (string \<Rightarrow> 's \<Rightarrow> (remote_error + 8 word list option) \<times> 's) \<Rightarrow>
     composite_io \<Rightarrow> string \<Rightarrow> 's composite_cache \<Rightarrow> 8 word list option \<times> 's composite_cache"
where
  "composite_get_artifact de hash_of get_art io k c =
     (case cache_artifact_hash de (read_ok (cc_exec io)) (str_bytes k) (cc_local c) of
        (art, l) \<Rightarrow>
          (case Option.bind art (\<lambda>h. get_object (object_read io) h l) of
             Some blob \<Rightarrow> (Some blob, c\<lparr>cc_local := l\<rparr>)
           | None \<Rightarrow>
               (case cc_remote c of
                  None \<Rightarrow> (None, c\<lparr>cc_local := l\<rparr>)
                | Some s \<Rightarrow>
                    (case get_art k s of
                       (Inr (Some blob), s') \<Rightarrow>
                         (Some blob,
                          c\<lparr>cc_local := snd (put_object (object_write io) (exec_now (cc_exec io)) (hash_of blob) blob l),
                            cc_remote := Some s'\<rparr>)
                     | (_, s') \<Rightarrow> (None, c\<lparr>cc_local := l, cc_remote := Some s'\<rparr>)))))"

subsection \<open>The executor\<close>

definition artifact_root :: "task \<Rightarrow> string" where
  "artifact_root t = (case cwd (spec t) of Some d \<Rightarrow> d | None \<Rightarrow> ''.'')"

definition restore_artifacts ::
  "(byte list \<Rightarrow> fp_record option) \<Rightarrow> (8 word list \<Rightarrow> byte list) \<Rightarrow>
     (string \<Rightarrow> 's \<Rightarrow> (remote_error + 8 word list option) \<times> 's) \<Rightarrow>
     (8 word list \<Rightarrow> string \<Rightarrow> 'w \<Rightarrow> bool \<times> 'w) \<Rightarrow>
     composite_io \<Rightarrow> task \<Rightarrow> 's composite_cache \<times> 'w \<Rightarrow> 's composite_cache \<times> 'w"
where
  "restore_artifacts de hash_of get_art unpack io t = (\<lambda>(c, w).
     if artifacts t = [] then (c, w)
     else case cache t of
       None \<Rightarrow> (c, w)
     | Some e \<Rightarrow>
         (case composite_get_artifact de hash_of get_art io (key e) c of
            (None, c1) \<Rightarrow> (c1, w)
          | (Some blob, c1) \<Rightarrow>
              (case unpack blob (artifact_root t) w of
                 (True, w1) \<Rightarrow> (c1, w1)
               | (False, w1) \<Rightarrow> (c1\<lparr>cc_local := record_error (cc_local c1)\<rparr>, w1))))"

definition store_artifacts ::
  "(8 word list \<Rightarrow> byte list) \<Rightarrow> (string \<Rightarrow> 8 word list \<Rightarrow> 's \<Rightarrow> (remote_error + unit) \<times> 's) \<Rightarrow>
     (string \<Rightarrow> string list \<Rightarrow> 'w \<Rightarrow> 8 word list option) \<Rightarrow>
     composite_io \<Rightarrow> task \<Rightarrow> 's composite_cache \<times> 'w \<Rightarrow> byte list option \<times> 's composite_cache"
where
  "store_artifacts hash_of put_art pack io t = (\<lambda>(c, w).
     if artifacts t = [] then (None, c)
     else case cache t of
       None \<Rightarrow> (None, c)
     | Some e \<Rightarrow>
         (case pack (artifact_root t) (artifacts t) w of
            None \<Rightarrow> (None, c)
          | Some blob \<Rightarrow>
              (Some (hash_of blob),
               c\<lparr>cc_local := snd (put_object (object_write io) (exec_now (cc_exec io)) (hash_of blob) blob (cc_local c)),
                 cc_remote := map_option (\<lambda>s. snd (put_art (key e) blob s)) (cc_remote c)\<rparr>)))"

text \<open>The operations of the remote cache, gathered for the executor.\<close>

record 's remote_ops =
  op_get_fp :: "string \<Rightarrow> 's \<Rightarrow> (remote_error + string option) \<times> 's"
  op_put_fp :: "string \<Rightarrow> string \<Rightarrow> 's \<Rightarrow> (remote_error + unit) \<times> 's"
  op_get_art :: "string \<Rightarrow> 's \<Rightarrow> (remote_error + 8 word list option) \<times> 's"
  op_put_art :: "string \<Rightarrow> 8 word list \<Rightarrow> 's \<Rightarrow> (remote_error + unit) \<times> 's"

text \<open>And what the executor uses of other code.\<close>

record 'w artifact_env =
  ser_record :: "fp_record \<Rightarrow> byte list"
  de_record :: "byte list \<Rightarrow> fp_record option"
  hash_blob :: "8 word list \<Rightarrow> byte list"
  pack_blob :: "string \<Rightarrow> string list \<Rightarrow> 'w \<Rightarrow> 8 word list option"
  unpack_blob :: "8 word list \<Rightarrow> string \<Rightarrow> 'w \<Rightarrow> bool \<times> 'w"

definition composite_execute ::
  "'w artifact_env \<Rightarrow> 's remote_ops \<Rightarrow> (task \<Rightarrow> 'w \<Rightarrow> ('e + task_outcome) \<times> 'w) \<Rightarrow> composite_io \<Rightarrow>
     task \<Rightarrow> 's composite_cache \<times> 'w \<Rightarrow> ('e + task_outcome) \<times> 's composite_cache \<times> 'w"
where
  "composite_execute aenv ops inner io t = (\<lambda>(c, w).
     let run = (\<lambda>c1. case inner t w of
            (Inl e, w1) \<Rightarrow> (Inl e, c1, w1)
          | (Inr r, w1) \<Rightarrow>
              (Inr r,
               (if status r = Run_Executed then
                  (case cache t of
                     None \<Rightarrow> c1
                   | Some e \<Rightarrow>
                       (case store_artifacts (hash_blob aenv) (op_put_art ops) (pack_blob aenv) io t (c1, w1) of
                          (art, c2) \<Rightarrow> composite_put_with_artifact (ser_record aenv) (op_put_fp ops) (op_put_art ops) io
                            (key e) (fingerprint e) art c2))
                else c1), w1))
     in case cache t of
          None \<Rightarrow> run c
        | Some e \<Rightarrow>
            (case composite_matches (ser_record aenv) (de_record aenv) (op_get_fp ops) (cc_exec io) (key e) (fingerprint e) c of
               (True, c1) \<Rightarrow>
                 (Inr outcome_cached,
                  restore_artifacts (de_record aenv) (hash_blob aenv) (op_get_art ops) (unpack_blob aenv) io t (c1, w))
             | (False, c1) \<Rightarrow> run c1))"

subsection \<open>What a remote cache may do to a run\<close>

definition local_knows :: "(byte list \<Rightarrow> fp_record option) \<Rightarrow> string \<Rightarrow> string \<Rightarrow> local_cache \<Rightarrow> bool" where
  "local_knows de k fp l \<longleftrightarrow> (\<exists>r. stored de l (str_bytes k) = Some r \<and> r_fingerprint r = fp)"

lemma is_cached_knows: "cache t = Some e \<Longrightarrow> is_cached de t l \<longleftrightarrow> local_knows de (key e) (fingerprint e) l"
  by (simp add: is_cached_def local_knows_def)

text \<open>The local cache answers as before.\<close>

definition same_records :: "(byte list \<Rightarrow> fp_record option) \<Rightarrow> local_cache \<Rightarrow> local_cache \<Rightarrow> bool" where
  "same_records de l l' \<longleftrightarrow> (coherent de l \<longrightarrow> coherent de l') \<and> stored de l' = stored de l"

lemma same_records_refl: "same_records de l l"
  by (simp add: same_records_def)

lemma same_records_trans: "same_records de l l1 \<Longrightarrow> same_records de l1 l2 \<Longrightarrow> same_records de l l2"
  by (simp add: same_records_def)

lemma same_records_cong:
  "fp_dir l' = fp_dir l \<Longrightarrow> memory_cache l' = memory_cache l \<Longrightarrow> same_records de l l'"
  using stored_cong[of l' l de] coherent_cong[of l' l de] by (simp add: same_records_def)

lemma put_object_records: "same_records de l (snd (put_object io now h b l))"
  by (rule same_records_cong) (auto simp: put_object_def)

lemma artifact_hash_records: "coherent de l \<Longrightarrow> same_records de l (snd (cache_artifact_hash de ok k l))"
proof -
  assume c: "coherent de l"
  obtain r l' where r: "read_record de ok k l = (r, l')" by fastforce
  then have "snd (cache_artifact_hash de ok k l) = l'"
    by (auto simp: cache_artifact_hash_def split: sum.splits option.splits)
  then show ?thesis
    using read_record_frame[OF c r] stored_cong[of l' l de] by (simp add: same_records_def)
qed

lemma record_error_records: "same_records de l (record_error l)"
  by (rule same_records_cong) simp_all

context remote_client
begin

definition quiet :: "'s \<Rightarrow> 's \<Rightarrow> bool" where
  "quiet s s' \<longleftrightarrow> invar s' \<and> fps s' = fps s"

lemma matches_spec:
  assumes coh: "coherent de (cc_local c)" and valid: "valid_utf8 (str_bytes k)" and ser: "\<And>r. de (ser r) = Some r"
    and io: "read_ok io" "write_io io = Written"
    and inv: "pred_option invar (cc_remote c)"
    and run: "composite_matches ser de get_fp io k fp c = (b, c')"
  shows "coherent de (cc_local c') \<and> rel_option quiet (cc_remote c) (cc_remote c') \<and>
    (local_knows de k fp (cc_local c) \<longrightarrow> b) \<and>
    (if b then local_knows de k fp (cc_local c') \<and>
       (local_knows de k fp (cc_local c) \<or> (\<exists>s. cc_remote c = Some s \<and> fps s k = Some fp))
     else stored de (cc_local c') = stored de (cc_local c))"
proof -
  obtain h l where m: "cache_matches de True (str_bytes k) fp (cc_local c) = (h, l)" by fastforce
  note M = cache_matches_frame[OF coh m] stored_cong[OF cache_matches_frame(2)[OF coh m], of de]
  have h: "h \<longleftrightarrow> local_knows de k fp (cc_local c)"
    using cache_matches_ok[OF coh valid m] by (simp add: local_knows_def)
  have refl: "rel_option quiet (cc_remote c) (cc_remote c)"
    using inv by (cases "cc_remote c") (auto simp: quiet_def)
  show ?thesis
  proof (cases "h \<or> cc_remote c = None")
    case True
    then have "b = h" "c' = c\<lparr>cc_local := l\<rparr>"
      using run m io by (auto simp: composite_matches_def split: bool.splits)
    then show ?thesis using M h refl by (auto simp: local_knows_def)
  next
    case False
    then obtain s where s: "cc_remote c = Some s" by auto
    obtain r s' where g: "get_fp k s = (r, s')" by fastforce
    have G: "invar s'" "fps s' = fps s" "\<And>v. r = Inr v \<Longrightarrow> v = fps s k"
      using get_fp[OF _ g] inv s by auto
    have q: "rel_option quiet (cc_remote c) (Some s')" using G s by (simp add: quiet_def)
    show ?thesis
    proof (cases "r = Inr (Some fp)")
      case hit: True
      obtain l' where p: "cache_put ser Written (exec_now io) (str_bytes k) fp l = (Inr (), l')" "coherent de l'"
        "stored de l' = (stored de l)(str_bytes k \<mapsto> \<lparr>r_fingerprint = fp, stored_at = secs (exec_now io), artifact_hash = None, r_key = Some (str_bytes k)\<rparr>)"
        by (rule put_ok[OF M(1) valid ser])
      have b: "b" "c' = c\<lparr>cc_local := record_hit l', cc_remote := Some s'\<rparr>"
        using run m io False s g hit p(1) by (auto simp: composite_matches_def)
      have "local_knows de k fp (record_hit l')"
        using p(3) stored_cong[of "record_hit l'" l' de] by (simp add: local_knows_def)
      moreover have "coherent de (record_hit l')" using p(2) coherent_cong[of "record_hit l'" l' de] by simp
      ultimately show ?thesis using b q G(3)[OF hit] s by auto
    next
      case miss: False
      then have "\<not> b" "c' = c\<lparr>cc_local := l, cc_remote := Some s'\<rparr>"
        using run m io False s g by (auto simp: composite_matches_def)
      then show ?thesis using q M h False by auto
    qed
  qed
qed

lemma restore_frame:
  assumes coh: "coherent de (cc_local c)" and inv: "pred_option invar (cc_remote c)"
    and run: "restore_artifacts de hash_of get_art unpack io t (c, w) = (c', w')"
  shows "same_records de (cc_local c) (cc_local c') \<and> rel_option quiet (cc_remote c) (cc_remote c')"
proof -
  have refl: "rel_option quiet (cc_remote c) (cc_remote c)"
    using inv by (cases "cc_remote c") (auto simp: quiet_def)
  have get: "same_records de (cc_local c) (cc_local c1) \<and> rel_option quiet (cc_remote c) (cc_remote c1)"
    if g: "composite_get_artifact de hash_of get_art io k c = (blob, c1)" for k blob c1
  proof -
    obtain art l where a: "cache_artifact_hash de (read_ok (cc_exec io)) (str_bytes k) (cc_local c) = (art, l)" by fastforce
    have l: "same_records de (cc_local c) l" using artifact_hash_records[OF coh] a by (metis snd_conv)
    show ?thesis
    proof (cases "Option.bind art (\<lambda>h. get_object (object_read io) h l) = None \<and> cc_remote c \<noteq> None")
      case False
      then have "c1 = c\<lparr>cc_local := l\<rparr>"
        using g a by (auto simp: composite_get_artifact_def split: option.splits)
      then show ?thesis using l refl by simp
    next
      case True
      then obtain s where s: "cc_remote c = Some s" by auto
      obtain r s' where ga: "get_art k s = (r, s')" by fastforce
      have "rel_option quiet (cc_remote c) (Some s')"
        using get_art[OF _ ga] inv s by (simp add: quiet_def)
      moreover have "cc_remote c1 = Some s'" "same_records de l (cc_local c1)"
        using g a True s ga put_object_records same_records_refl
        by (auto simp: composite_get_artifact_def split: sum.splits option.splits)
      ultimately show ?thesis using l same_records_trans by metis
    qed
  qed
  show ?thesis
  proof (cases "artifacts t = [] \<or> cache t = None")
    case True
    then show ?thesis using run refl same_records_refl by (auto simp: restore_artifacts_def split: if_splits)
  next
    case False
    then obtain e where e: "cache t = Some e" by auto
    obtain blob c1 where g: "composite_get_artifact de hash_of get_art io (key e) c = (blob, c1)" by fastforce
    have "cc_remote c' = cc_remote c1" "same_records de (cc_local c1) (cc_local c')"
      using run False e g same_records_refl record_error_records
      by (auto simp: restore_artifacts_def split: option.splits prod.splits bool.splits)
    then show ?thesis using get[OF g] same_records_trans by metis
  qed
qed

lemma store_frame:
  assumes inv: "pred_option invar (cc_remote c)"
    and run: "store_artifacts hash_of put_art pack io t (c, w) = (art, c')"
  shows "same_records de (cc_local c) (cc_local c') \<and> rel_option quiet (cc_remote c) (cc_remote c')"
proof -
  have refl: "rel_option quiet (cc_remote c) (cc_remote c)"
    using inv by (cases "cc_remote c") (auto simp: quiet_def)
  have put: "quiet s (snd (put_art k d s))" if "invar s" for s k d
    using put_art[OF that, of k d] by (cases "put_art k d s") (auto simp: quiet_def)
  have "rel_option quiet (cc_remote c) (map_option (\<lambda>s. snd (put_art k d s)) (cc_remote c))" for k d
    using inv put by (cases "cc_remote c") auto
  then show ?thesis
    using run refl same_records_refl put_object_records
    by (auto simp: store_artifacts_def split: if_splits option.splits)
qed

lemma put_with_artifact_spec:
  assumes coh: "coherent de (cc_local c)" and valid: "valid_utf8 (str_bytes k)" and ser: "\<And>r. de (ser r) = Some r"
    and io: "write_io (cc_exec io) = Written" and inv: "pred_option invar (cc_remote c)"
    and c'_def: "c' = composite_put_with_artifact ser put_fp put_art io k fp art c"
  shows "coherent de (cc_local c') \<and> local_knows de k fp (cc_local c') \<and>
    (\<forall>j. j \<noteq> str_bytes k \<longrightarrow> stored de (cc_local c') j = stored de (cc_local c) j) \<and>
    rel_option (\<lambda>s s'. invar s' \<and> (fps s' = fps s \<or> fps s' = (fps s)(k \<mapsto> fp))) (cc_remote c) (cc_remote c')"
proof -
  obtain u l where p: "put_with_artifact ser Written (exec_now (cc_exec io)) (str_bytes k) fp art (cc_local c) = (u, l)"
    by fastforce
  note P = put_written_ok[OF coh valid ser p]
  have local: "cc_local c' = l"
    using p io by (auto simp: c'_def composite_put_with_artifact_def Let_def split: option.splits)
  have "invar s' \<and> (fps s' = fps s \<or> fps s' = (fps s)(k \<mapsto> fp))"
    if "cc_remote c = Some s" "cc_remote c' = Some s'" for s s'
  proof -
    have "invar s" using inv that(1) by simp
    then have s1: "invar (snd (put_fp k fp s)) \<and> (fps (snd (put_fp k fp s)) = fps s \<or> fps (snd (put_fp k fp s)) = (fps s)(k \<mapsto> fp))"
      using put_fp[of s k fp] by (cases "put_fp k fp s") auto
    have "s' = snd (put_fp k fp s) \<or> (\<exists>blob. s' = snd (put_art k blob (snd (put_fp k fp s))))"
      using that by (auto simp: c'_def composite_put_with_artifact_def Let_def split: option.splits)
    then show ?thesis
    proof
      assume "\<exists>blob. s' = snd (put_art k blob (snd (put_fp k fp s)))"
      then obtain blob where "s' = snd (put_art k blob (snd (put_fp k fp s)))" by blast
      then show ?thesis
        using put_art[OF conjunct1[OF s1], of k blob] s1 by (cases "put_art k blob (snd (put_fp k fp s))") auto
    qed (use s1 in simp)
  qed
  moreover have "cc_remote c' = None \<longleftrightarrow> cc_remote c = None"
    by (auto simp: c'_def composite_put_with_artifact_def Let_def split: option.splits)
  ultimately have "rel_option (\<lambda>s s'. invar s' \<and> (fps s' = fps s \<or> fps s' = (fps s)(k \<mapsto> fp))) (cc_remote c) (cc_remote c')"
    by (cases "cc_remote c"; cases "cc_remote c'") auto
  then show ?thesis using P local by (auto simp: local_knows_def)
qed

text \<open>
  One run of the executor: a hit, on a fingerprint that the local or the remote cache holds, or a
  run of the task, and what is stored afterwards.
\<close>

lemma composite_execute_spec:
  assumes coh: "coherent de (cc_local c)" and valid: "\<And>e. cache t = Some e \<Longrightarrow> valid_utf8 (str_bytes (key e))"
    and ser: "\<And>r. de (ser r) = Some r" and io: "read_ok (cc_exec io)" "write_io (cc_exec io) = Written"
    and inv: "pred_option invar (cc_remote c)"
    and aenv: "ser_record aenv = ser" "de_record aenv = de"
    and ops: "op_get_fp ops = get_fp" "op_put_fp ops = put_fp" "op_get_art ops = get_art" "op_put_art ops = put_art"
    and run: "composite_execute aenv ops inner io t (c, w) = (res, c', w')"
  shows "coherent de (cc_local c') \<and> pred_option invar (cc_remote c') \<and>
    ((\<exists>e. cache t = Some e \<and> res = Inr outcome_cached \<and> is_cached de t (cc_local c') \<and>
        (is_cached de t (cc_local c) \<or> (\<exists>s. cc_remote c = Some s \<and> fps s (key e) = Some (fingerprint e))) \<and>
        rel_option (\<lambda>s s'. fps s' = fps s) (cc_remote c) (cc_remote c')) \<or>
     \<not> is_cached de t (cc_local c) \<and> inner t w = (res, w') \<and>
       (if \<exists>r. res = Inr r \<and> status r = Run_Executed
        then (cache t \<noteq> None \<longrightarrow> is_cached de t (cc_local c')) \<and>
          rel_option (\<lambda>s s'. fps s' = fps s \<or> (\<exists>e. cache t = Some e \<and> fps s' = (fps s)(key e \<mapsto> fingerprint e))) (cc_remote c) (cc_remote c')
        else stored de (cc_local c') = stored de (cc_local c) \<and>
          rel_option (\<lambda>s s'. fps s' = fps s) (cc_remote c) (cc_remote c')))"
proof (cases "cache t")
  case None
  have "c' = c" "inner t w = (res, w')"
    using run None by (auto simp: composite_execute_def split: prod.splits sum.splits if_splits)
  then show ?thesis
    using None coh inv by (cases "cc_remote c") (auto simp: is_cached_def)
next
  case (Some e)
  note v = valid[OF Some]
  obtain b c1 where m: "composite_matches ser de get_fp (cc_exec io) (key e) (fingerprint e) c = (b, c1)" by fastforce
  note M = matches_spec[OF coh v ser io inv m]
  have inv1: "pred_option invar (cc_remote c1)"
    using M by (cases "cc_remote c"; cases "cc_remote c1") (auto simp: quiet_def)
  show ?thesis
  proof (cases b)
    case True
    then have r: "res = Inr outcome_cached" "restore_artifacts de (hash_blob aenv) get_art (unpack_blob aenv) io t (c1, w) = (c', w')"
      using run Some m by (auto simp: composite_execute_def aenv ops)
    note R = restore_frame[OF _ inv1 r(2)]
    have "rel_option (\<lambda>s s'. fps s' = fps s) (cc_remote c) (cc_remote c')" "pred_option invar (cc_remote c')"
      using M R by (cases "cc_remote c"; cases "cc_remote c1"; cases "cc_remote c'"; auto simp: quiet_def)+
    then show ?thesis
      using M R True Some r(1) by (auto simp: is_cached_knows[OF Some] same_records_def local_knows_def)
  next
    case False
    obtain res1 w1 where i: "inner t w = (res1, w1)" by fastforce
    have rw: "res = res1" "w' = w1"
      using run Some m False i by (auto simp: composite_execute_def aenv ops split: sum.splits)
    have miss: "\<not> is_cached de t (cc_local c)" "stored de (cc_local c1) = stored de (cc_local c)"
      using M False by (auto simp: is_cached_knows[OF Some])
    show ?thesis
    proof (cases "\<exists>r. res = Inr r \<and> status r = Run_Executed")
      case exec: True
      obtain art c2 where st: "store_artifacts (hash_blob aenv) put_art (pack_blob aenv) io t (c1, w1) = (art, c2)" by fastforce
      have c': "c' = composite_put_with_artifact ser put_fp put_art io (key e) (fingerprint e) art c2"
        using run Some m False i exec rw st by (auto simp: composite_execute_def aenv ops)
      note S = store_frame[OF inv1 st, of de]
      have "coherent de (cc_local c2)" "pred_option invar (cc_remote c2)"
        using S M by (cases "cc_remote c1"; cases "cc_remote c2"; auto simp: quiet_def same_records_def)+
      note P = put_with_artifact_spec[OF this(1) v ser io(2) this(2) c']
      have "rel_option (\<lambda>s s'. fps s' = fps s \<or> (\<exists>e. cache t = Some e \<and> fps s' = (fps s)(key e \<mapsto> fingerprint e))) (cc_remote c) (cc_remote c')"
        "pred_option invar (cc_remote c')"
        using M S P Some by (cases "cc_remote c"; cases "cc_remote c1"; cases "cc_remote c2"; cases "cc_remote c'"; auto simp: quiet_def)+
      then show ?thesis
        using exec P miss i rw Some by (auto simp: is_cached_knows[OF Some])
    next
      case fail: False
      have "c' = c1"
        using run Some m False i fail rw by (auto simp: composite_execute_def aenv ops split: sum.splits)
      moreover have "rel_option (\<lambda>s s'. fps s' = fps s) (cc_remote c) (cc_remote c1)"
        using M by (cases "cc_remote c"; cases "cc_remote c1") (auto simp: quiet_def)
      ultimately show ?thesis
        using M fail miss i rw inv1 by auto
    qed
  qed
qed

end

subsection \<open>Properties\<close>

definition tcp_ops :: "server_env \<Rightarrow> request_io \<Rightarrow> token option \<Rightarrow> network remote_ops" where
  "tcp_ops senv io tok =
     \<lparr>op_get_fp = client_get_fingerprint senv io tok, op_put_fp = client_put_fingerprint senv io tok,
      op_get_art = client_get_artifact senv io tok, op_put_art = client_put_artifact senv io tok\<rparr>"

text \<open>
  C28. With the local cache in front of a server that is reached over a network losing requests
  and answers, with any token: a task is skipped only if the local cache or the server holds its
  fingerprint, and then the local cache holds it afterwards; otherwise the task runs, and its
  fingerprint becomes known locally, and on the server if at all only for the key of the task,
  when it was executed and not when it failed.
\<close>

theorem composite_executor_correct:
  assumes "coherent (de_record aenv) (cc_local c)" "\<And>e. cache t = Some e \<Longrightarrow> valid_utf8 (str_bytes (key e))"
    "\<And>r. de_record aenv (ser_record aenv r) = Some r" "read_ok (cc_exec io)" "write_io (cc_exec io) = Written"
    "\<And>d. b64_decode senv (b64_encode senv d) = Some d"
    and run: "composite_execute aenv (tcp_ops senv sio tok) inner io t (c, w) = (res, c', w')"
  defines "knows \<equiv> \<lambda>n. hm_get (fingerprints (fst n))"
  shows "coherent (de_record aenv) (cc_local c') \<and>
    ((\<exists>e. cache t = Some e \<and> res = Inr outcome_cached \<and> is_cached (de_record aenv) t (cc_local c') \<and>
        (is_cached (de_record aenv) t (cc_local c) \<or>
         (\<exists>n. cc_remote c = Some n \<and> knows n (key e) = Some (fingerprint e))) \<and>
        rel_option (\<lambda>n n'. knows n' = knows n) (cc_remote c) (cc_remote c')) \<or>
     \<not> is_cached (de_record aenv) t (cc_local c) \<and> inner t w = (res, w') \<and>
       (if \<exists>r. res = Inr r \<and> status r = Run_Executed
        then (cache t \<noteq> None \<longrightarrow> is_cached (de_record aenv) t (cc_local c')) \<and>
          rel_option (\<lambda>n n'. knows n' = knows n \<or>
            (\<exists>e. cache t = Some e \<and> knows n' = (knows n)(key e \<mapsto> fingerprint e))) (cc_remote c) (cc_remote c')
        else stored (de_record aenv) (cc_local c') = stored (de_record aenv) (cc_local c) \<and>
          rel_option (\<lambda>n n'. knows n' = knows n) (cc_remote c) (cc_remote c')))"
proof -
  have "pred_option (\<lambda>_. \<forall>d. b64_decode senv (b64_encode senv d) = Some d) (cc_remote c)"
    using assms(6) by (cases "cc_remote c") auto
  moreover have "op_get_fp (tcp_ops senv sio tok) = client_get_fingerprint senv sio tok"
    "op_put_fp (tcp_ops senv sio tok) = client_put_fingerprint senv sio tok"
    "op_get_art (tcp_ops senv sio tok) = client_get_artifact senv sio tok"
    "op_put_art (tcp_ops senv sio tok) = client_put_artifact senv sio tok"
    by (simp_all add: tcp_ops_def)
  ultimately show ?thesis
    using tcp.composite_execute_spec[OF assms(1-5) _ refl refl _ _ _ _ run, of senv sio tok]
    by (simp only: knows_def simp_thms)
qed

definition sample_artifact_env :: "unit artifact_env" where
  "sample_artifact_env = \<lparr>ser_record = sample_ser, de_record = sample_de, hash_blob = (\<lambda>_. []),
     pack_blob = (\<lambda>_ _ _. None), unpack_blob = (\<lambda>_ _ w. (True, w))\<rparr>"

definition shared_cache :: "network composite_cache" where
  "shared_cache = \<lparr>cc_local = new_cache [] [],
     cc_remote = Some ((new_server sample_server_env (\<lambda>_. True) True None None)\<lparr>fingerprints := [(''k'', ''fp'')]\<rparr>,
       [[Unreachable, Replied]])\<rparr>"

theorem composite_executor_correct_witness:
  "\<exists>res c' w'. composite_execute sample_artifact_env (tcp_ops sample_server_env sample_io None)
       (\<lambda>_ w. (Inr outcome_executed :: unit + task_outcome, w))
       \<lparr>cc_exec = \<lparr>read_ok = True, write_io = Written, exec_now = 7\<rparr>, object_write = Written, object_read = True\<rparr>
       sample_cached_task (shared_cache, ()) = (res, c', w') \<and>
     is_cached sample_de sample_cached_task (cc_local c')"
proof -
  let ?inner = "\<lambda>(_::task) w::unit. (Inr outcome_executed :: unit + task_outcome, w)"
  let ?io = "\<lparr>cc_exec = \<lparr>read_ok = True, write_io = Written, exec_now = 7\<rparr>, object_write = Written, object_read = True\<rparr>"
  obtain res c' w' where r: "composite_execute sample_artifact_env (tcp_ops sample_server_env sample_io None)
      ?inner ?io sample_cached_task (shared_cache, ()) = (res, c', w')" by (metis prod.exhaust)
  have t: "cache sample_cached_task = Some \<lparr>key = ''k'', fingerprint = ''fp''\<rparr>"
    by (simp add: sample_cached_task_def with_cache_def)
  have v: "valid_utf8 (str_bytes ''k'')" by code_simp
  have b64: "b64_decode sample_server_env (b64_encode sample_server_env d) = Some d" for d
    using sample_server_good by (simp add: good_env_def)
  have "is_cached sample_de sample_cached_task (cc_local c')"
    using composite_executor_correct[of sample_artifact_env shared_cache sample_cached_task ?io sample_server_env
        sample_io None ?inner "()" res c' w'] r t v b64
    by (simp add: sample_artifact_env_def shared_cache_def coherent_new sample_de_ser outcome_executed_def split: if_splits) auto
  then show ?thesis using r by blast
qed

text \<open>
  A hit on the remote cache answers "cached" even if the artifacts of the task cannot be fetched:
  nothing is restored, and the task's outputs are missing.
\<close>

lemma remote_hit_without_artifact:
  assumes "cache t = Some e" "artifacts t \<noteq> []" "fst (cache_matches (de_record aenv) (read_ok (cc_exec io)) (str_bytes (key e)) (fingerprint e) (cc_local c)) = False"
    "cc_remote c = Some m" "hm_get (mr_store m) (key e) = Some (fingerprint e)" "hm_get (mr_artifacts m) (key e) = None"
    "write_io (cc_exec io) = Written"
    and ops: "op_get_fp ops = mr_get_fingerprint" "op_get_art ops = mr_get_artifact"
  shows "\<exists>c'. composite_execute aenv ops inner io t (c, w) = (Inr outcome_cached, c', w)"
proof -
  obtain l where m: "cache_matches (de_record aenv) (read_ok (cc_exec io)) (str_bytes (key e)) (fingerprint e) (cc_local c) = (False, l)"
    using assms(3) by (metis prod.collapse)
  let ?l = "record_hit (snd (cache_put (ser_record aenv) Written (exec_now (cc_exec io)) (str_bytes (key e)) (fingerprint e) l))"
  have mem: "hm_get (memory_cache ?l) (str_bytes (key e)) =
      Some \<lparr>r_fingerprint = fingerprint e, stored_at = secs (exec_now (cc_exec io)), artifact_hash = None, r_key = Some (str_bytes (key e))\<rparr>"
    "hm_get (fp_dir ?l) (fingerprint_path (str_bytes (key e))) \<noteq> None"
    by (simp_all add: cache_put_def put_with_artifact_def Let_def)
  have "fst (cache_artifact_hash (de_record aenv) (read_ok (cc_exec io)) (str_bytes (key e)) ?l) = None"
    using mem by (auto simp: cache_artifact_hash_def read_record_def split: option.splits)
  then show ?thesis
    using assms m ops
    by (auto simp: composite_execute_def composite_matches_def mr_get_fingerprint_def restore_artifacts_def
        composite_get_artifact_def mr_get_artifact_def Let_def split: prod.splits)
qed

end
