(* ===== verification/Security_Validation.thy ===== *)
theory Security_Validation
  imports Rust_Str "HOL-Library.Sublist"
begin

text \<open>
  The security policy and its validators, and the input validators:
  \<open>fish-core/src/security.rs\<close>. Matching a regular expression is the business of the crate
  \<open>regex\<close>: an argument of the model, which answers \<open>None\<close> when the pattern does not compile.
  The documented answers for the three patterns of the code are the hypothesis
  \<open>regex_documented\<close>.
\<close>

subsection \<open>Policies\<close>

datatype security_level = Allow_All | Strict | Paranoid

record security_policy =
  level :: security_level
  allowed_executables :: "string set"
  allowed_paths :: "string set"
  max_file_size :: "nat option"
  max_execution_time :: "nat option"

definition new_policy :: "security_level \<Rightarrow> security_policy" where
  "new_policy l = \<lparr>level = l, allowed_executables = {}, allowed_paths = {},
     max_file_size = None, max_execution_time = None\<rparr>"

definition add_allowed_executable :: "string \<Rightarrow> security_policy \<Rightarrow> security_policy" where
  "add_allowed_executable e p = p\<lparr>allowed_executables := insert e (allowed_executables p)\<rparr>"

definition add_allowed_path :: "string \<Rightarrow> security_policy \<Rightarrow> security_policy" where
  "add_allowed_path a p = p\<lparr>allowed_paths := insert a (allowed_paths p)\<rparr>"

definition set_max_file_size :: "nat \<Rightarrow> security_policy \<Rightarrow> security_policy" where
  "set_max_file_size n p = p\<lparr>max_file_size := Some n\<rparr>"

definition set_max_execution_time :: "nat \<Rightarrow> security_policy \<Rightarrow> security_policy" where
  "set_max_execution_time n p = p\<lparr>max_execution_time := Some n\<rparr>"

definition is_executable_allowed :: "security_policy \<Rightarrow> string \<Rightarrow> bool" where
  "is_executable_allowed p e =
     (case level p of
        Allow_All \<Rightarrow> True
      | Strict \<Rightarrow> e \<in> allowed_executables p
      | Paranoid \<Rightarrow> e \<in> allowed_executables p)"

text \<open>\<open>Path::starts_with\<close> compares whole components.\<close>

definition path_starts_with :: "string \<Rightarrow> string \<Rightarrow> bool" where
  "path_starts_with p q =
     (let (abs_p, cs) = path_components p; (abs_q, ds) = path_components q
      in (if abs_p = abs_q then prefix ds cs else \<not> abs_q \<and> ds = []))"

definition is_path_allowed :: "security_policy \<Rightarrow> string \<Rightarrow> bool" where
  "is_path_allowed p path =
     (case level p of
        Allow_All \<Rightarrow> True
      | _ \<Rightarrow> \<exists>allowed \<in> allowed_paths p. path_starts_with path allowed)"

definition is_file_size_allowed :: "security_policy \<Rightarrow> nat \<Rightarrow> bool" where
  "is_file_size_allowed p n = (case max_file_size p of Some m \<Rightarrow> n \<le> m | None \<Rightarrow> True)"

definition is_execution_time_allowed :: "security_policy \<Rightarrow> nat \<Rightarrow> bool" where
  "is_execution_time_allowed p n = (case max_execution_time p of Some m \<Rightarrow> n \<le> m | None \<Rightarrow> True)"

subsection \<open>The validator\<close>

datatype security_error =
    Invalid_Command string
  | Executable_Not_Allowed string
  | Path_Not_Allowed string
  | Path_Traversal_Attempt string
  | File_Size_Exceeded nat
  | Suspicious_Argument string
  | Execution_Timeout
  | Policy_Lock_Poisoned

text \<open>The patterns \<open>\$\([^)]*\)\<close>, \<open>`[^`]*`\<close> and \<open>\$\{[^}]*\}\<close>.\<close>

definition cmd_substitution_patterns :: "string list" where
  "cmd_substitution_patterns =
     [[CHR 0x5C] @ ''$'' @ [CHR 0x5C] @ ''([^)]*'' @ [CHR 0x5C] @ '')'',
      [CHR 0x60] @ ''[^'' @ [CHR 0x60] @ '']*'' @ [CHR 0x60],
      [CHR 0x5C] @ ''$'' @ [CHR 0x5C] @ ''{[^}]*'' @ [CHR 0x5C] @ ''}'']"

definition is_legitimate_path :: "string \<Rightarrow> bool" where
  "is_legitimate_path arg =
     (if CHR ''>'' \<in> set arg \<or> CHR ''<'' \<in> set arg then False
      else if CHR ''/'' \<in> set arg \<or> CHR 0x5C \<in> set arg then
        (if CHR '';'' \<in> set arg \<or> CHR ''&'' \<in> set arg \<or> CHR ''|'' \<in> set arg then False else True)
      else False)"

definition suspicious_chars :: "char list" where
  "suspicious_chars = [CHR '';'', CHR ''&'', CHR ''|'', CHR ''<'', CHR ''>'']"

type_synonym regex_engine = "string \<Rightarrow> string \<Rightarrow> bool option"

definition is_suspicious_argument :: "regex_engine \<Rightarrow> string \<Rightarrow> bool" where
  "is_suspicious_argument re arg =
     (if list_ex (\<lambda>pattern. re pattern arg = Some True) cmd_substitution_patterns then True
      else list_ex (\<lambda>c. c \<in> set arg \<and> \<not> is_legitimate_path arg) suspicious_chars)"

fun reject_suspicious :: "regex_engine \<Rightarrow> string list \<Rightarrow> security_error + unit" where
  "reject_suspicious re [] = Inr ()"
| "reject_suspicious re (a # as) =
     (if is_suspicious_argument re a then Inl (Suspicious_Argument a) else reject_suspicious re as)"

text \<open>The policy behind its lock: \<open>None\<close> when the lock is poisoned.\<close>

type_synonym validator = "security_policy option"

definition new_validator :: "security_policy \<Rightarrow> validator" where
  "new_validator p = Some p"

definition validate_command ::
  "regex_engine \<Rightarrow> validator \<Rightarrow> string \<Rightarrow> string list \<Rightarrow> security_error + unit" where
  "validate_command re v command args =
     (case v of
        None \<Rightarrow> Inl Policy_Lock_Poisoned
      | Some policy \<Rightarrow>
          (case split_whitespace command of
             [] \<Rightarrow> Inl (Invalid_Command ''Empty command'')
           | executable # rest \<Rightarrow>
               if \<not> is_executable_allowed policy executable
               then Inl (Executable_Not_Allowed executable)
               else (case reject_suspicious re rest of
                       Inl e \<Rightarrow> Inl e
                     | Inr _ \<Rightarrow> reject_suspicious re args)))"

definition validate_path :: "validator \<Rightarrow> string \<Rightarrow> security_error + unit" where
  "validate_path v path =
     (case v of
        None \<Rightarrow> Inl Policy_Lock_Poisoned
      | Some policy \<Rightarrow>
          if \<not> is_path_allowed policy path then Inl (Path_Not_Allowed path)
          else if ''..'' \<in> set (snd (path_components path)) then Inl (Path_Traversal_Attempt path)
          else Inr ())"

definition validate_file_size :: "validator \<Rightarrow> nat \<Rightarrow> security_error + unit" where
  "validate_file_size v n =
     (case v of
        None \<Rightarrow> Inl Policy_Lock_Poisoned
      | Some policy \<Rightarrow>
          if \<not> is_file_size_allowed policy n then Inl (File_Size_Exceeded n) else Inr ())"

definition update_policy :: "security_policy \<Rightarrow> validator \<Rightarrow> (security_error + unit) \<times> validator" where
  "update_policy new v =
     (case v of None \<Rightarrow> (Inl Policy_Lock_Poisoned, v) | Some _ \<Rightarrow> (Inr (), Some new))"

subsection \<open>Input validators\<close>

definition dangerous_chars :: "char list" where
  "dangerous_chars = [CHR '';'', CHR ''&'', CHR ''|'', CHR 0x60, CHR ''$'', CHR ''('', CHR '')'',
     CHR ''<'', CHR ''>'', CHR '' '']"

definition validate_filename :: "string \<Rightarrow> security_error + unit" where
  "validate_filename filename =
     (if contains_str ''..'' filename \<or> CHR ''/'' \<in> set filename \<or> CHR 0x5C \<in> set filename
      then Inl (Invalid_Command ''Invalid filename'')
      else if list_ex (\<lambda>c. c \<in> set dangerous_chars) filename
      then Inl (Invalid_Command ''Filename contains dangerous characters'')
      else Inr ())"

definition blocked_prefixes :: "string list" where
  "blocked_prefixes =
     [''localhost'', ''127.'', ''0.0.0.0'', ''[::1]'', ''::1'', ''169.254.'', ''10.'', ''192.168.'',
      ''172.16.'', ''172.17.'', ''172.18.'', ''172.19.'', ''172.20.'', ''172.21.'', ''172.22.'',
      ''172.23.'', ''172.24.'', ''172.25.'', ''172.26.'', ''172.27.'', ''172.28.'', ''172.29.'',
      ''172.30.'', ''172.31.'']"

text \<open>\<open>split("://").nth(1)\<close>: what stands between the first and the second separator.\<close>

fun before_separator :: "string \<Rightarrow> string" where
  "before_separator [] = []"
| "before_separator (c # cs) =
     (if prefix ''://'' (c # cs) then [] else c # before_separator cs)"

fun second_part :: "string \<Rightarrow> string option" where
  "second_part [] = None"
| "second_part (c # cs) =
     (if prefix ''://'' (c # cs) then Some (before_separator (drop 2 cs)) else second_part cs)"

definition validate_url :: "string \<Rightarrow> security_error + unit" where
  "validate_url url =
     (if \<not> prefix ''http://'' url \<and> \<not> prefix ''https://'' url
      then Inl (Invalid_Command ''URL must use http or https'')
      else let host_part = (case second_part url of Some h \<Rightarrow> h | None \<Rightarrow> url)
      in if list_ex (\<lambda>p. prefix p host_part) blocked_prefixes
         then Inl (Invalid_Command ''Localhost or private network access not allowed'')
         else Inr ())"

definition push_component :: "string list \<Rightarrow> string \<Rightarrow> string list" where
  "push_component parts c =
     (if c = [] \<or> c = ''.'' then parts else if c = ''..'' then butlast parts else parts @ [c])"

fun join_slash :: "string list \<Rightarrow> string" where
  "join_slash [] = []"
| "join_slash [p] = p"
| "join_slash (p # ps) = p @ ''/'' @ join_slash ps"

definition backslash_to_slash :: "string \<Rightarrow> string" where
  "backslash_to_slash = map (\<lambda>c. if c = CHR 0x5C then CHR ''/'' else c)"

definition sanitize_path :: "string \<Rightarrow> string" where
  "sanitize_path path =
     join_slash (foldl push_component [] (split_char (CHR ''/'') (backslash_to_slash path)))"

subsection \<open>Commands\<close>

definition delimited :: "string \<Rightarrow> char \<Rightarrow> string \<Rightarrow> bool" where
  "delimited opening closing s \<longleftrightarrow>
     (\<exists>a b c. s = a @ opening @ b @ closing # c \<and> closing \<notin> set b)"

definition regex_documented :: "regex_engine \<Rightarrow> bool" where
  "regex_documented re \<longleftrightarrow>
     (\<forall>s. re (cmd_substitution_patterns ! 0) s = Some (delimited ''$('' (CHR '')'') s) \<and>
          re (cmd_substitution_patterns ! 1) s = Some (delimited [CHR 0x60] (CHR 0x60) s) \<and>
          re (cmd_substitution_patterns ! 2) s = Some (delimited ''${'' (CHR ''}'') s))"

definition has_shell_operator :: "string \<Rightarrow> bool" where
  "has_shell_operator s \<longleftrightarrow> (\<exists>c \<in> set suspicious_chars. c \<in> set s)"

definition has_substitution :: "string \<Rightarrow> bool" where
  "has_substitution s \<longleftrightarrow>
     delimited ''$('' (CHR '')'') s \<or> delimited [CHR 0x60] (CHR 0x60) s \<or> delimited ''${'' (CHR ''}'') s"

text \<open>The exception for file paths never applies: its argument contains an operator.\<close>

lemma operator_not_legitimate: "has_shell_operator s \<Longrightarrow> \<not> is_legitimate_path s"
  by (auto simp: has_shell_operator_def suspicious_chars_def is_legitimate_path_def)

lemma is_suspicious_iff:
  "regex_documented re \<Longrightarrow> is_suspicious_argument re s \<longleftrightarrow> has_shell_operator s \<or> has_substitution s"
  using operator_not_legitimate[of s]
  by (auto simp: regex_documented_def is_suspicious_argument_def has_substitution_def
      has_shell_operator_def cmd_substitution_patterns_def list_ex_iff)

lemma reject_suspicious_find:
  "reject_suspicious re as =
     (case List.find (is_suspicious_argument re) as of
        Some a \<Rightarrow> Inl (Suspicious_Argument a) | None \<Rightarrow> Inr ())"
  by (induction as) auto

lemma reject_suspicious_ok:
  "reject_suspicious re as = Inr () \<longleftrightarrow> (\<forall>a \<in> set as. \<not> is_suspicious_argument re a)"
  by (auto simp: reject_suspicious_find find_None_iff split: option.splits)
     (metis find_None_iff option.distinct(1))

lemma reject_suspicious_error:
  "reject_suspicious re as = Inl e \<Longrightarrow>
     \<exists>a \<in> set as. e = Suspicious_Argument a \<and> is_suspicious_argument re a"
  by (auto simp: reject_suspicious_find find_Some_iff split: option.splits)

lemma delimited_backquotes:
  "delimited [CHR 0x60] (CHR 0x60) s \<longleftrightarrow> 2 \<le> count_list s (CHR 0x60)"
proof
  assume "2 \<le> count_list s (CHR 0x60)"
  then have "CHR 0x60 \<in> set s" by (metis count_notin not_numeral_le_zero)
  then obtain a r where s: "s = a @ CHR 0x60 # r" "CHR 0x60 \<notin> set a"
    by (metis split_list_first)
  with \<open>2 \<le> _\<close> have "CHR 0x60 \<in> set r"
    by (metis add_0 count_list.simps(2) count_list_append count_notin numeral_le_one_iff
        semiring_norm(69) plus_1_eq_Suc One_nat_def)
  then obtain b c where "r = b @ CHR 0x60 # c" "CHR 0x60 \<notin> set b"
    by (metis split_list_first)
  with s show "delimited [CHR 0x60] (CHR 0x60) s"
    unfolding delimited_def by (intro exI[of _ a] exI[of _ b] exI[of _ c]) auto
qed (auto simp: delimited_def)

lemma find_first: "List.find P xs = Some a \<longleftrightarrow> (\<exists>pre post. xs = pre @ a # post \<and> P a \<and> (\<forall>b \<in> set pre. \<not> P b))"
proof (induction xs)
  case (Cons x xs)
  show ?case
  proof (cases "P x")
    case True
    then show ?thesis by (auto simp: Cons_eq_append_conv)
  next
    case False
    then show ?thesis using Cons by (auto simp: Cons_eq_append_conv) (metis append_Cons set_ConsD)
  qed
qed simp

lemma reject_suspicious_append:
  "(case reject_suspicious re xs of Inl e \<Rightarrow> Inl e | Inr _ \<Rightarrow> reject_suspicious re ys) = reject_suspicious re (xs @ ys)"
  by (induction xs) auto

definition offending :: "string \<Rightarrow> bool" where
  "offending a \<longleftrightarrow> has_shell_operator a \<or> has_substitution a"

text \<open>
  C29. Under the documented meaning of its regular expressions, the validator accepts a command line exactly
  when its first word is an executable the policy allows (any, at the lowest level) and neither the
  other words of the command nor the arguments contain one of the characters semicolon, ampersand, bar, less
  or greater, or a complete \<open>$(...)\<close>, \<open>`...`\<close> or \<open>${...}\<close>. The first word itself is not searched for
  them. A command without a word is reported as such, then an executable that is not allowed, then the first
  offending word in the order of the command and the arguments; nothing else is reported.
\<close>

theorem validate_command_correct:
  assumes "regex_documented re"
  shows "(validate_command re (Some p) command as = Inr () \<longleftrightarrow>
           (\<exists>x rest. split_whitespace command = x # rest \<and> (level p = Allow_All \<or> x \<in> allowed_executables p) \<and>
              (\<forall>a \<in> set (rest @ as). \<not> offending a))) \<and>
         (validate_command re (Some p) command as = Inl e \<longleftrightarrow>
            (split_whitespace command = [] \<and> e = Invalid_Command ''Empty command'') \<or>
            (\<exists>x rest. split_whitespace command = x # rest \<and> level p \<noteq> Allow_All \<and> x \<notin> allowed_executables p \<and>
               e = Executable_Not_Allowed x) \<or>
            (\<exists>x rest pre a post. split_whitespace command = x # rest \<and>
               (level p = Allow_All \<or> x \<in> allowed_executables p) \<and> rest @ as = pre @ a # post \<and> offending a \<and>
               (\<forall>b \<in> set pre. \<not> offending b) \<and> e = Suspicious_Argument a))"
proof (cases "split_whitespace command")
  case Nil
  then show ?thesis by (auto simp: validate_command_def)
next
  case (Cons x rest)
  have exe: "is_executable_allowed p x \<longleftrightarrow> level p = Allow_All \<or> x \<in> allowed_executables p"
    by (auto simp: is_executable_allowed_def split: security_level.splits)
  have sus: "is_suspicious_argument re = offending" by (auto simp: is_suspicious_iff[OF assms(1)] offending_def fun_eq_iff)
  have v: "validate_command re (Some p) command as =
      (if level p = Allow_All \<or> x \<in> allowed_executables p
       then (case List.find offending (rest @ as) of Some a \<Rightarrow> Inl (Suspicious_Argument a) | None \<Rightarrow> Inr ())
       else Inl (Executable_Not_Allowed x))"
    unfolding sus[symmetric] reject_suspicious_find[symmetric] reject_suspicious_append[symmetric]
    by (simp add: validate_command_def Cons exe)
  show ?thesis
  proof (cases "List.find offending (rest @ as)")
    case None
    then have "\<forall>a \<in> set (rest @ as). \<not> offending a" by (auto simp: find_None_iff)
    moreover have "\<not> (\<exists>pre post. rest @ as = pre @ b # post \<and> offending b \<and> (\<forall>b \<in> set pre. \<not> offending b))" for b
      using find_first[of offending "rest @ as" b] None by simp
    ultimately show ?thesis unfolding v Cons using None by auto
  next
    case (Some a)
    note first = Some[unfolded find_first]
    have many: "\<not> (\<forall>a \<in> set (rest @ as). \<not> offending a)" using first by fastforce
    have "(\<exists>pre post. rest @ as = pre @ b # post \<and> offending b \<and> (\<forall>b \<in> set pre. \<not> offending b)) \<longleftrightarrow> b = a" for b
      unfolding find_first[symmetric] Some by auto
    then have third: "(\<exists>pre b post. rest @ as = pre @ b # post \<and> offending b \<and> (\<forall>b \<in> set pre. \<not> offending b) \<and>
        e = Suspicious_Argument b) \<longleftrightarrow> e = Suspicious_Argument a" by metis
    show ?thesis
    proof (cases "level p = Allow_All \<or> x \<in> allowed_executables p")
      case True
      then have "validate_command re (Some p) command as = Inl (Suspicious_Argument a)" by (simp add: v Some)
      then show ?thesis using True many third unfolding Cons list.inject by auto
    next
      case False
      then show ?thesis unfolding v Cons by auto
    qed
  qed
qed

lemma first_word_not_searched:
  "validate_command re (Some (new_policy Allow_All)) ''a;b'' [] = Inr ()"
proof -
  have "split_whitespace ''a;b'' = [''a;b'']" by code_simp
  then show ?thesis by (simp add: validate_command_def new_policy_def is_executable_allowed_def)
qed

subsection \<open>Paths\<close>

definition clean_part :: "string \<Rightarrow> bool" where
  "clean_part c \<longleftrightarrow> c \<noteq> [] \<and> c \<noteq> ''.'' \<and> c \<noteq> ''..''"

lemma push_clean [simp]: "clean_part c \<Longrightarrow> push_component parts c = parts @ [c]"
  by (simp add: push_component_def clean_part_def)

lemma foldl_push_clean: "\<forall>c \<in> set cs. clean_part c \<Longrightarrow> foldl push_component parts cs = parts @ cs"
  by (induction cs arbitrary: parts) auto

lemma set_push: "set (push_component parts c) \<subseteq> set parts \<union> {c}"
  by (auto simp: push_component_def dest: in_set_butlastD)

lemma push_one_clean:
  assumes "\<forall>c \<in> set parts. clean_part c"
  shows "\<forall>c \<in> set (push_component parts c). clean_part c"
  using assms by (cases "clean_part c") (simp, simp add: push_component_def clean_part_def[of c], meson in_set_butlastD)

lemma push_keeps_clean:
  "\<forall>c \<in> set parts. clean_part c \<Longrightarrow> \<forall>c \<in> set (foldl push_component parts cs). clean_part c"
  by (induction cs arbitrary: parts) (simp, metis foldl_Cons push_one_clean)

lemma set_foldl_push: "set (foldl push_component parts cs) \<subseteq> set parts \<union> set cs"
proof (induction cs arbitrary: parts)
  case (Cons c cs)
  then show ?case using Cons[of "push_component parts c"] set_push[of parts c] by auto
qed simp

lemma foldl_push_extends:
  "''..'' \<notin> set cs \<Longrightarrow> prefix parts (foldl push_component parts cs)"
proof (induction cs arbitrary: parts)
  case (Cons c cs)
  then have "prefix parts (push_component parts c)" by (auto simp: push_component_def)
  also have "prefix \<dots> (foldl push_component (push_component parts c) cs)" using Cons by simp
  finally show ?case by simp
qed simp

lemma join_split_slash: "join_slash (split_char (CHR ''/'') s) = s"
proof (induction s)
  case (Cons c s)
  then show ?case
    by (cases "split_char (CHR ''/'') s"; cases "tl (split_char (CHR ''/'') s)") (auto split: list.splits)
qed simp

lemma split_join_slash:
  "ps \<noteq> [] \<Longrightarrow> \<forall>p \<in> set ps. CHR ''/'' \<notin> set p \<Longrightarrow> split_char (CHR ''/'') (join_slash ps) = ps"
  by (induction ps rule: join_slash.induct) (auto simp: split_char_none split_char_one)

lemma set_join_slash: "set (join_slash ps) \<subseteq> insert (CHR ''/'') (\<Union> (set ` set ps))"
  by (induction ps rule: join_slash.induct) auto

text \<open>The parts a path is resolved to: \<open>..\<close> removes the part before it.\<close>

definition resolve_path :: "string \<Rightarrow> string list" where
  "resolve_path path = foldl push_component [] (snd (path_components path))"

text \<open>
  A path is accepted only if the policy is at the lowest level or the path extends one of the
  allowed paths by whole components, and never with a \<open>..\<close>. So above the lowest level an
  accepted path, resolved, lies below a resolved allowed path that is absolute when it is (or the
  allowed path is the empty one), and without allowed paths nothing is accepted. A path with \<open>..\<close>
  that the policy admits is reported as a traversal attempt.
\<close>

theorem validate_path_confined:
  "(validate_path (Some p) path = Inr () \<longleftrightarrow>
      is_path_allowed p path \<and> ''..'' \<notin> set (snd (path_components path))) \<and>
   (validate_path (Some p) path = Inl (Path_Traversal_Attempt path) \<longleftrightarrow>
      is_path_allowed p path \<and> ''..'' \<in> set (snd (path_components path))) \<and>
   (validate_path (Some p) path = Inr () \<and> level p \<noteq> Allow_All \<longrightarrow>
      (\<exists>allowed \<in> allowed_paths p.
         (fst (path_components allowed) = fst (path_components path) \<or>
            path_components allowed = (False, [])) \<and>
         prefix (resolve_path allowed) (resolve_path path))) \<and>
   validate_path None path = Inl Policy_Lock_Poisoned"
proof -
  have "prefix (resolve_path a) (resolve_path path) \<and>
        (fst (path_components a) = fst (path_components path) \<or> path_components a = (False, []))"
    if "path_starts_with path a" "''..'' \<notin> set (snd (path_components path))" for a
  proof (cases "fst (path_components a) = fst (path_components path)")
    case True
    with that(1) obtain es where
      "snd (path_components path) = snd (path_components a) @ es"
      by (auto simp: path_starts_with_def prefix_def split: prod.splits)
    with that(2) True show ?thesis
      using foldl_push_extends[of es "resolve_path a"] by (simp add: resolve_path_def)
  next
    case False
    with that(1) show ?thesis
      by (auto simp: path_starts_with_def resolve_path_def split: prod.splits if_splits)
  qed
  then show ?thesis
    by (auto simp: validate_path_def is_path_allowed_def split: security_level.splits)
qed

text \<open>
  The sanitised form of a path has no backslash and no empty part, \<open>.\<close> or \<open>..\<close>; sanitising
  again changes nothing; and a relative path that is already in that form is left as it is.
\<close>

theorem sanitize_path_correct:
  "(sanitize_path path \<noteq> [] \<longrightarrow>
      (\<forall>c \<in> set (split_char (CHR ''/'') (sanitize_path path)). clean_part c)) \<and>
   CHR 0x5C \<notin> set (sanitize_path path) \<and>
   sanitize_path (sanitize_path path) = sanitize_path path \<and>
   (CHR 0x5C \<notin> set path \<and> (\<forall>c \<in> set (split_char (CHR ''/'') path). clean_part c) \<longrightarrow>
      sanitize_path path = path)"
proof -
  define norm where "norm = backslash_to_slash path"
  define ps where "ps = foldl push_component [] (split_char (CHR ''/'') norm)"
  have clean: "\<forall>c \<in> set ps. clean_part c"
    using push_keeps_clean[of "[]"] by (simp add: ps_def)
  have sub: "set ps \<subseteq> set (split_char (CHR ''/'') norm)"
    using set_foldl_push[of "[]"] by (simp add: ps_def)
  have slash: "\<forall>p \<in> set ps. CHR ''/'' \<notin> set p"
    using sub split_char_parts by blast
  have norm_no: "CHR 0x5C \<notin> set norm" by (auto simp: norm_def backslash_to_slash_def)
  then have no: "CHR 0x5C \<notin> set (join_slash ps)"
    using set_join_slash[of ps] sub split_char_parts[of _ "CHR ''/''" norm] by auto
  have same: "backslash_to_slash s = s" if "CHR 0x5C \<notin> set s" for s
    unfolding backslash_to_slash_def using that by (intro map_idI) auto
  have eq: "sanitize_path path = join_slash ps" by (simp add: sanitize_path_def ps_def norm_def)
  have split: "ps \<noteq> [] \<Longrightarrow> split_char (CHR ''/'') (join_slash ps) = ps"
    using split_join_slash slash by blast
  have parts: "join_slash ps \<noteq> [] \<longrightarrow>
      (\<forall>c \<in> set (split_char (CHR ''/'') (join_slash ps)). clean_part c)"
    using split clean by (cases "ps = []") auto
  have idem: "sanitize_path (join_slash ps) = join_slash ps"
  proof (cases "ps = []")
    case False
    then show ?thesis
      by (simp add: sanitize_path_def same[OF no] split foldl_push_clean[OF clean])
  qed (simp add: sanitize_path_def backslash_to_slash_def push_component_def)
  have "sanitize_path path = path"
    if "CHR 0x5C \<notin> set path" "\<forall>c \<in> set (split_char (CHR ''/'') path). clean_part c"
    using that by (simp add: sanitize_path_def same foldl_push_clean join_split_slash)
  then show ?thesis using parts no idem by (auto simp: eq)
qed

subsection \<open>Names and addresses\<close>

lemma validate_filename_iff:
  "validate_filename f = Inr () \<longleftrightarrow>
     \<not> contains_str ''..'' f \<and> set f \<inter> ({CHR ''/'', CHR 0x5C} \<union> set dangerous_chars) = {}"
  by (auto simp: validate_filename_def list_ex_iff)

text \<open>The empty name passes, and so does the one of the current directory.\<close>

lemma validate_filename_gaps: "validate_filename [] = Inr () \<and> validate_filename ''.'' = Inr ()"
  by (simp add: validate_filename_iff dangerous_chars_def)

lemma validate_url_blocks:
  assumes "p \<in> set blocked_prefixes" "CHR '':'' \<notin> set p" "CHR '':'' \<notin> set rest"
  shows "validate_url (''http://'' @ p @ rest) =
           Inl (Invalid_Command ''Localhost or private network access not allowed'')"
proof -
  have no_sep: "CHR '':'' \<notin> set s \<Longrightarrow> before_separator s = s" for s by (induction s) auto
  have "second_part (''http://'' @ p @ rest) = Some (p @ rest)"
    using assms(2,3) no_sep[of "p @ rest"] by simp
  moreover have "list_ex (\<lambda>q. prefix q (p @ rest)) blocked_prefixes"
    using assms(1) by (meson list_ex_iff prefixI)
  ultimately show ?thesis by (simp add: validate_url_def)
qed

text \<open>A user name before the host hides a blocked host.\<close>

lemma validate_url_userinfo: "validate_url ''http://u@127.0.0.1/'' = Inr ()"
  by code_simp

subsection \<open>Instances\<close>

definition documented_regex :: regex_engine where
  "documented_regex pat s =
     (if pat = cmd_substitution_patterns ! 0 then Some (delimited ''$('' (CHR '')'') s)
      else if pat = cmd_substitution_patterns ! 1 then Some (delimited [CHR 0x60] (CHR 0x60) s)
      else if pat = cmd_substitution_patterns ! 2 then Some (delimited ''${'' (CHR ''}'') s)
      else None)"

lemma documented_regex_ok: "regex_documented documented_regex"
  by (simp add: regex_documented_def documented_regex_def cmd_substitution_patterns_def)

lemma no_substitution:
  "{CHR '')'', CHR 0x60, CHR ''}''} \<inter> set s = {} \<Longrightarrow> \<not> has_substitution s"
  by (auto simp: has_substitution_def delimited_def)

definition cargo_policy :: security_policy where
  "cargo_policy = add_allowed_path ''/home/me'' (add_allowed_executable ''cargo'' (new_policy Strict))"

theorem validate_command_correct_witness:
  "validate_command documented_regex (Some cargo_policy) ''cargo build'' [''--release''] = Inr () \<and>
   validate_command documented_regex (Some cargo_policy) ''cargo build'' [''-v'', ''a;b'', ''c|d''] = Inl (Suspicious_Argument ''a;b'') \<and>
   validate_command documented_regex (Some cargo_policy) ''rm -rf'' [] = Inl (Executable_Not_Allowed ''rm'')"
proof -
  have ws: "split_whitespace ''cargo build'' = [''cargo'', ''build'']" "split_whitespace ''rm -rf'' = [''rm'', ''-rf'']"
    by code_simp+
  have pol: "level cargo_policy \<noteq> Allow_All" "allowed_executables cargo_policy = {''cargo''}"
    by (simp_all add: cargo_policy_def add_allowed_path_def add_allowed_executable_def new_policy_def)
  have ok: "\<not> has_shell_operator ''build''" "\<not> has_shell_operator ''--release''" "\<not> has_shell_operator ''-v''" "has_shell_operator ''a;b''"
    "\<not> has_substitution ''build''" "\<not> has_substitution ''--release''" "\<not> has_substitution ''-v''"
    by (simp_all add: has_shell_operator_def suspicious_chars_def no_substitution)
  note V = validate_command_correct[OF documented_regex_ok, of cargo_policy]
  have "validate_command documented_regex (Some cargo_policy) ''cargo build'' [''--release''] = Inr ()"
    using V[THEN conjunct1, of "''cargo build''" "[''--release'']"] ok pol unfolding ws by (simp add: offending_def)
  moreover have "validate_command documented_regex (Some cargo_policy) ''cargo build'' [''-v'', ''a;b'', ''c|d''] =
      Inl (Suspicious_Argument ''a;b'')"
  proof (rule V[THEN conjunct2, THEN iffD2], rule disjI2, rule disjI2, intro exI conjI)
    show "split_whitespace ''cargo build'' = ''cargo'' # [''build'']" by (rule ws(1))
    show "[''build''] @ [''-v'', ''a;b'', ''c|d''] = [''build'', ''-v''] @ ''a;b'' # [''c|d'']" by simp
    show "offending ''a;b''" using ok by (simp add: offending_def)
    show "\<forall>b \<in> set [''build'', ''-v'']. \<not> offending b" using ok by (simp add: offending_def)
    show "level cargo_policy = Allow_All \<or> ''cargo'' \<in> allowed_executables cargo_policy" unfolding pol(2) by blast
  qed (rule refl)
  moreover have "validate_command documented_regex (Some cargo_policy) ''rm -rf'' [] = Inl (Executable_Not_Allowed ''rm'')"
    using V[THEN conjunct2, of "''rm -rf''" "[]" "Executable_Not_Allowed ''rm''"] pol unfolding ws by simp
  ultimately show ?thesis by blast
qed

theorem validate_path_confined_witness:
  "validate_path (Some cargo_policy) ''/home/me/src/a.rs'' = Inr () \<and>
   validate_path (Some cargo_policy) ''/home/me/../you'' = Inl (Path_Traversal_Attempt ''/home/me/../you'') \<and>
   prefix (resolve_path ''/home/me'') (resolve_path ''/home/me/src/a.rs'')"
proof -
  have a: "is_path_allowed cargo_policy ''/home/me/src/a.rs''" by code_simp
  have b: "is_path_allowed cargo_policy ''/home/me/../you''" by code_simp
  have c: "''..'' \<notin> set (snd (path_components ''/home/me/src/a.rs''))" by code_simp
  have d: "''..'' \<in> set (snd (path_components ''/home/me/../you''))" by code_simp
  have e: "level cargo_policy \<noteq> Allow_All" "allowed_paths cargo_policy = {''/home/me''}"
    by (simp_all add: cargo_policy_def add_allowed_path_def add_allowed_executable_def new_policy_def)
  have ok: "validate_path (Some cargo_policy) ''/home/me/src/a.rs'' = Inr ()"
    and no: "validate_path (Some cargo_policy) ''/home/me/../you'' = Inl (Path_Traversal_Attempt ''/home/me/../you'')"
    using validate_path_confined[of cargo_policy] a b c d by blast+
  have "prefix (resolve_path ''/home/me'') (resolve_path ''/home/me/src/a.rs'')"
    using validate_path_confined[of cargo_policy "''/home/me/src/a.rs''"] ok e by auto
  with ok no show ?thesis by simp
qed

theorem sanitize_path_correct_witness:
  "sanitize_path ''a/../b/./c.rs'' = ''b/c.rs'' \<and> sanitize_path ''b/c.rs'' = ''b/c.rs'' \<and>
   (\<forall>c \<in> set (split_char (CHR ''/'') ''b/c.rs''). clean_part c)"
proof -
  have eq: "sanitize_path ''a/../b/./c.rs'' = ''b/c.rs''" by code_simp
  show ?thesis
    using sanitize_path_correct[of "''a/../b/./c.rs''"] by (simp add: eq)
qed

end
