(* ===== verification/Wire_Frames.thy ===== *)
theory Wire_Frames
  imports Fish_Prelude "HOL-Library.Word" "HOL-Library.Sublist"
begin

text \<open>
  The binary frames between workers, \<open>BinaryFrame\<close> of \<open>fish-worker/src/protocol.rs\<close>: a magic
  number, type and flags of 16 bits, a length of 64 bits, all big endian, and the payload.
\<close>

unbundle bit_operations_syntax

subsection \<open>Big endian numbers\<close>

type_synonym byte = "8 word"

primrec to_le_bytes :: "nat \<Rightarrow> 'a::len word \<Rightarrow> byte list" where
  "to_le_bytes 0 w = []"
| "to_le_bytes (Suc n) w = ucast w # to_le_bytes n (drop_bit 8 w)"

primrec from_le_bytes :: "byte list \<Rightarrow> 'a::len word" where
  "from_le_bytes [] = 0"
| "from_le_bytes (b # bs) = ucast b OR push_bit 8 (from_le_bytes bs)"

definition to_be_bytes :: "nat \<Rightarrow> 'a::len word \<Rightarrow> byte list" where
  "to_be_bytes n w = rev (to_le_bytes n w)"

definition from_be_bytes :: "byte list \<Rightarrow> 'a::len word" where
  "from_be_bytes bs = from_le_bytes (rev bs)"

lemma length_to_le_bytes [simp]: "length (to_le_bytes n w) = n"
  by (induction n arbitrary: w) auto

lemma length_to_be_bytes [simp]: "length (to_be_bytes n w) = n"
  by (simp add: to_be_bytes_def)

lemma from_to_le_bytes: "from_le_bytes (to_le_bytes n w) = take_bit (8 * n) (w :: 'a::len word)"
proof (induction n arbitrary: w)
  case (Suc n)
  show ?case
    by (rule bit_word_eqI)
      (auto simp: Suc bit_simps not_le less_diff_conv2 algebra_simps dest: bit_imp_le_length)
qed simp

lemma bit_from_le_bytes: "bit (from_le_bytes bs :: 'a::len word) n \<Longrightarrow> n < 8 * length bs"
proof (induction bs arbitrary: n)
  case (Cons b bs)
  then consider "bit b n" | "8 \<le> n" "bit (from_le_bytes bs :: 'a word) (n - 8)"
    by (auto simp: bit_simps)
  then show ?case
  proof cases
    case 1
    then show ?thesis using bit_imp_le_length[of b n] by simp
  next
    case 2
    then show ?thesis using Cons.IH[of "n - 8"] by simp
  qed
qed simp

lemma to_from_le_bytes:
  "8 * length bs \<le> LENGTH('a) \<Longrightarrow> to_le_bytes (length bs) (from_le_bytes bs :: 'a::len word) = bs"
proof (induction bs)
  case (Cons b bs)
  have "ucast (from_le_bytes (b # bs) :: 'a word) = b"
    using Cons.prems by (intro bit_word_eqI) (auto simp: bit_simps)
  moreover have "drop_bit 8 (from_le_bytes (b # bs) :: 'a word) = from_le_bytes bs"
    using Cons.prems
    by (intro bit_word_eqI) (auto simp: bit_simps dest: bit_imp_le_length bit_from_le_bytes)
  ultimately show ?case using Cons by simp
qed simp

lemma from_to_be_bytes [simp]:
  "LENGTH('a) \<le> 8 * n \<Longrightarrow> from_be_bytes (to_be_bytes n w) = (w :: 'a::len word)"
  by (simp add: from_be_bytes_def to_be_bytes_def from_to_le_bytes take_bit_word_eq_self)

lemma to_from_be_bytes:
  "8 * length bs \<le> LENGTH('a) \<Longrightarrow> to_be_bytes (length bs) (from_be_bytes bs :: 'a::len word) = bs"
  using to_from_le_bytes[of "rev bs", where 'a = 'a] by (simp add: from_be_bytes_def to_be_bytes_def)

subsection \<open>Frames\<close>

datatype frame_type =
  Task_Request | Task_Response | Vfs_Request | Vfs_Response | Ping_Frame | Pong_Frame | Raw_Payload

definition frame_code :: "frame_type \<Rightarrow> 16 word" where
  "frame_code t =
     (case t of Task_Request \<Rightarrow> 1 | Task_Response \<Rightarrow> 2 | Vfs_Request \<Rightarrow> 3 | Vfs_Response \<Rightarrow> 4
      | Ping_Frame \<Rightarrow> 5 | Pong_Frame \<Rightarrow> 6 | Raw_Payload \<Rightarrow> 7)"

datatype frame_error =
    Unexpected_Eof
  | Io_Error string
  | Invalid_Magic
  | Unknown_Frame_Type "16 word"

definition try_frame_type :: "16 word \<Rightarrow> frame_error + frame_type" where
  "try_frame_type v =
     (if v = 1 then Inr Task_Request else if v = 2 then Inr Task_Response
      else if v = 3 then Inr Vfs_Request else if v = 4 then Inr Vfs_Response
      else if v = 5 then Inr Ping_Frame else if v = 6 then Inr Pong_Frame
      else if v = 7 then Inr Raw_Payload else Inl (Unknown_Frame_Type v))"

record binary_frame =
  frame_type :: frame_type
  flags :: "16 word"
  payload :: "byte list"

definition new_frame :: "frame_type \<Rightarrow> byte list \<Rightarrow> binary_frame" where
  "new_frame t p = \<lparr>frame_type = t, flags = 0, payload = p\<rparr>"

definition frame_with_flags :: "frame_type \<Rightarrow> 16 word \<Rightarrow> byte list \<Rightarrow> binary_frame" where
  "frame_with_flags t f p = \<lparr>frame_type = t, flags = f, payload = p\<rparr>"

definition binary_magic :: "byte list" where
  "binary_magic = [0x46, 0x4F, 0x52, 0x47]"

text \<open>The bytes \<open>encode\<close> hands to its writer; a \<open>Vec\<close> has a length below \<open>2 ^ 63\<close>.\<close>

definition encode_frame :: "binary_frame \<Rightarrow> byte list" where
  "encode_frame f =
     binary_magic @ to_be_bytes 2 (frame_code (frame_type f)) @ to_be_bytes 2 (flags f) @
     to_be_bytes 8 (word_of_nat (length (payload f)) :: 64 word) @ payload f"

text \<open>
  A reader is what is left of its bytes and what comes after them: the end of the stream or an
  error of the operating system. \<open>read_exact\<close> consumes what there is before it fails.
\<close>

record byte_source =
  unread :: "byte list"
  broken :: "string option"

definition read_exact :: "nat \<Rightarrow> byte_source \<Rightarrow> (frame_error + byte list) \<times> byte_source" where
  "read_exact n r =
     (if n \<le> length (unread r) then (Inr (take n (unread r)), r\<lparr>unread := drop n (unread r)\<rparr>)
      else (Inl (case broken r of None \<Rightarrow> Unexpected_Eof | Some e \<Rightarrow> Io_Error e), r\<lparr>unread := []\<rparr>))"

text \<open>
  \<open>vec![0u8; n]\<close> reserves the whole payload before it is read; it does not return when \<open>n\<close> is more
  than the process can allocate, which is \<open>None\<close>.
\<close>

definition decode_payload ::
  "nat \<Rightarrow> frame_type \<Rightarrow> 16 word \<Rightarrow> nat \<Rightarrow> byte_source \<Rightarrow> ((frame_error + binary_frame option) \<times> byte_source) option" where
  "decode_payload max_alloc t fl n r =
     (if max_alloc < n then None
      else case read_exact n r of
          (Inl e, r') \<Rightarrow> Some (Inl e, r')
        | (Inr p, r') \<Rightarrow> Some (Inr (Some \<lparr>frame_type = t, flags = fl, payload = p\<rparr>), r'))"

definition decode_frame ::
  "nat \<Rightarrow> byte_source \<Rightarrow> ((frame_error + binary_frame option) \<times> byte_source) option" where
  "decode_frame max_alloc r =
     (case read_exact 4 r of
        (Inl e, r1) \<Rightarrow> Some (if e = Unexpected_Eof then Inr None else Inl e, r1)
      | (Inr magic, r1) \<Rightarrow>
          if magic \<noteq> binary_magic then Some (Inl Invalid_Magic, r1)
          else (case read_exact 2 r1 of
              (Inl e, r2) \<Rightarrow> Some (Inl e, r2)
            | (Inr tb, r2) \<Rightarrow>
                (case try_frame_type (from_be_bytes tb) of
                   Inl e \<Rightarrow> Some (Inl e, r2)
                 | Inr t \<Rightarrow>
                     (case read_exact 2 r2 of
                        (Inl e, r3) \<Rightarrow> Some (Inl e, r3)
                      | (Inr fb, r3) \<Rightarrow>
                          (case read_exact 8 r3 of
                             (Inl e, r4) \<Rightarrow> Some (Inl e, r4)
                           | (Inr lb, r4) \<Rightarrow>
                               decode_payload max_alloc t (from_be_bytes fb)
                                 (unat (from_be_bytes lb :: 64 word)) r4)))))"

subsection \<open>Encoding and decoding\<close>

lemma try_frame_code [simp]: "try_frame_type (frame_code t) = Inr t"
  by (cases t) (simp_all add: try_frame_type_def frame_code_def)

lemma try_frame_type_Inr: "try_frame_type v = Inr t \<Longrightarrow> v = frame_code t"
  by (auto simp: try_frame_type_def frame_code_def split: if_splits)

lemma read_exact_Inr:
  "read_exact n r = (Inr xs, r') \<Longrightarrow>
     length xs = n \<and> unread r = xs @ unread r' \<and> broken r' = broken r"
  by (auto simp: read_exact_def split: if_splits)

lemma read_exact_Inl:
  "read_exact n r = (Inl e, r') \<Longrightarrow>
     length (unread r) < n \<and> r' = r\<lparr>unread := []\<rparr> \<and>
     e = (case broken r of None \<Rightarrow> Unexpected_Eof | Some m \<Rightarrow> Io_Error m)"
  by (auto simp: read_exact_def split: if_splits)

lemma length_binary_magic [simp]: "length binary_magic = 4"
  by (simp add: binary_magic_def)

lemma unat_payload_length:
  "n \<le> u64_max \<Longrightarrow> unat (word_of_nat n :: 64 word) = n"
  by (simp add: u64_max_def unat_of_nat take_bit_nat_eq_self)

lemma decode_encode:
  assumes "unread r = encode_frame f @ rest" "length (payload f) \<le> max_alloc"
    "length (payload f) \<le> u64_max"
  shows "decode_frame max_alloc r = Some (Inr (Some f), r\<lparr>unread := rest\<rparr>)"
  using assms
  by (simp add: decode_frame_def encode_frame_def decode_payload_def read_exact_def unat_payload_length)

lemma encode_decode:
  assumes "decode_frame max_alloc r = Some (Inr (Some f), r')"
  shows "unread r = encode_frame f @ unread r' \<and> broken r' = broken r \<and> length (payload f) \<le> max_alloc"
proof -
  from assms obtain r1 tb r2 fb r3 lb r4 where
    m: "read_exact 4 r = (Inr binary_magic, r1)" and t: "read_exact 2 r1 = (Inr tb, r2)"
    and ty: "try_frame_type (from_be_bytes tb) = Inr (frame_type f)"
    and fl: "read_exact 2 r2 = (Inr fb, r3)" and l: "read_exact 8 r3 = (Inr lb, r4)"
    and flags: "flags f = from_be_bytes fb" and n: "unat (from_be_bytes lb :: 64 word) \<le> max_alloc"
    and p: "read_exact (unat (from_be_bytes lb :: 64 word)) r4 = (Inr (payload f), r')"
    by (auto simp: decode_frame_def decode_payload_def split: prod.splits sum.splits if_splits)
  note reads = m[THEN read_exact_Inr] t[THEN read_exact_Inr] fl[THEN read_exact_Inr]
    l[THEN read_exact_Inr] p[THEN read_exact_Inr]
  have "to_be_bytes 2 (frame_code (frame_type f)) = tb"
    using try_frame_type_Inr[OF ty] to_from_be_bytes[of tb, where 'a = 16] reads by simp
  moreover have "to_be_bytes 2 (flags f) = fb"
    using to_from_be_bytes[of fb, where 'a = 16] reads flags by simp
  moreover have "to_be_bytes 8 (word_of_nat (length (payload f)) :: 64 word) = lb"
    using to_from_be_bytes[of lb, where 'a = 64] reads by simp
  ultimately show ?thesis using reads n by (simp add: encode_frame_def)
qed

text \<open>
  C30. A frame is decoded from its encoding, whatever follows it, and what follows is left to be
  read; and the bytes a decoded frame was read from are exactly its encoding, so no two byte
  sequences denote the same frame and a stream of frames is read back frame by frame.
\<close>

theorem frame_roundtrip:
  "(length (payload f) \<le> max_alloc \<and> length (payload f) \<le> u64_max \<longrightarrow>
      decode_frame max_alloc (r\<lparr>unread := encode_frame f @ rest\<rparr>) = Some (Inr (Some f), r\<lparr>unread := rest\<rparr>)) \<and>
   (decode_frame max_alloc r = Some (Inr (Some f), r') \<longrightarrow>
      unread r = encode_frame f @ unread r' \<and> broken r' = broken r)"
  using decode_encode[of "r\<lparr>unread := encode_frame f @ rest\<rparr>" f rest max_alloc]
    encode_decode[of max_alloc r f r'] by auto

subsection \<open>Damaged streams\<close>

lemma decode_truncated:
  assumes "strict_prefix bs (encode_frame f)" "length (payload f) \<le> u64_max"
  shows "decode_frame max_alloc \<lparr>unread = bs, broken = None\<rparr> =
        (if length bs < 4 then Some (Inr None, \<lparr>unread = [], broken = None\<rparr>)
         else if 16 \<le> length bs \<and> max_alloc < length (payload f) then None
         else Some (Inl Unexpected_Eof, \<lparr>unread = [], broken = None\<rparr>))"
proof -
  define k where "k = length bs"
  obtain zs where zs: "encode_frame f = bs @ zs" "zs \<noteq> []"
    using assms(1) by (auto simp: strict_prefix_def prefix_def)
  then have bs: "bs = take k (encode_frame f)" by (simp add: k_def)
  have "length (encode_frame f) = length (payload f) + 16" by (simp add: encode_frame_def)
  then have k: "k < length (payload f) + 16" using zs by (cases zs) (simp_all add: k_def)
  note defs = bs decode_frame_def read_exact_def encode_frame_def
  consider "k < 4" | "4 \<le> k" "k < 6" | "6 \<le> k" "k < 8" | "8 \<le> k" "k < 16" | "16 \<le> k" by linarith
  then show ?thesis
  proof cases
    case 5
    then have "k - 4 - 2 - 2 - 8 < length (payload f)" using k by linarith
    with 5 show ?thesis using assms(2) by (simp add: defs decode_payload_def unat_payload_length)
  qed (auto simp: defs)
qed

text \<open>
  A frame that is cut off is never taken for another one: after at least four bytes the
  decoder reports an unexpected end (or does not get the memory its header asks for), with
  fewer it reports the end of the stream, as for an empty stream. Other magic bytes and unknown
  types are refused; and a header alone, without any payload, makes the decoder ask for
  whatever length it names.
\<close>

theorem decode_damaged:
  "(strict_prefix bs (encode_frame f) \<and> length (payload f) \<le> u64_max \<longrightarrow>
      decode_frame max_alloc \<lparr>unread = bs, broken = None\<rparr> =
        (if length bs < 4 then Some (Inr None, \<lparr>unread = [], broken = None\<rparr>)
         else if 16 \<le> length bs \<and> max_alloc < length (payload f) then None
         else Some (Inl Unexpected_Eof, \<lparr>unread = [], broken = None\<rparr>))) \<and>
   (length magic = 4 \<and> magic \<noteq> binary_magic \<longrightarrow>
      fst (the (decode_frame max_alloc \<lparr>unread = magic @ rest, broken = b\<rparr>)) = Inl Invalid_Magic) \<and>
   (\<not> (1 \<le> v \<and> v \<le> 7) \<longrightarrow>
      fst (the (decode_frame max_alloc \<lparr>unread = binary_magic @ to_be_bytes 2 v @ rest, broken = b\<rparr>)) =
        Inl (Unknown_Frame_Type v)) \<and>
   (max_alloc < unat n \<longrightarrow>
      decode_frame max_alloc
        \<lparr>unread = binary_magic @ to_be_bytes 2 (frame_code t) @ to_be_bytes 2 fl @ to_be_bytes 8 (n :: 64 word),
         broken = b\<rparr> = None)"
proof (intro conjI impI)
  assume "strict_prefix bs (encode_frame f) \<and> length (payload f) \<le> u64_max"
  then show "decode_frame max_alloc \<lparr>unread = bs, broken = None\<rparr> =
        (if length bs < 4 then Some (Inr None, \<lparr>unread = [], broken = None\<rparr>)
         else if 16 \<le> length bs \<and> max_alloc < length (payload f) then None
         else Some (Inl Unexpected_Eof, \<lparr>unread = [], broken = None\<rparr>))"
    using decode_truncated by blast
next
  assume "length magic = 4 \<and> magic \<noteq> binary_magic"
  then show "fst (the (decode_frame max_alloc \<lparr>unread = magic @ rest, broken = b\<rparr>)) = Inl Invalid_Magic"
    by (simp add: decode_frame_def read_exact_def)
next
  assume "\<not> (1 \<le> v \<and> v \<le> 7)"
  then have "try_frame_type v = Inl (Unknown_Frame_Type v)" by (auto simp: try_frame_type_def)
  then show "fst (the (decode_frame max_alloc \<lparr>unread = binary_magic @ to_be_bytes 2 v @ rest, broken = b\<rparr>)) =
        Inl (Unknown_Frame_Type v)"
    by (simp add: decode_frame_def read_exact_def)
next
  assume "max_alloc < unat n"
  then show "decode_frame max_alloc
        \<lparr>unread = binary_magic @ to_be_bytes 2 (frame_code t) @ to_be_bytes 2 fl @ to_be_bytes 8 n,
         broken = b\<rparr> = None"
    by (simp add: decode_frame_def read_exact_def decode_payload_def)
qed

definition ping_frame :: binary_frame where
  "ping_frame = new_frame Ping_Frame [1, 2]"

theorem frame_roundtrip_witness:
  "decode_frame 8 \<lparr>unread = encode_frame ping_frame @ [9], broken = None\<rparr> =
     Some (Inr (Some ping_frame), \<lparr>unread = [9], broken = None\<rparr>)"
  using frame_roundtrip[where f = ping_frame and max_alloc = 8 and rest = "[9]" and r = "\<lparr>unread = [], broken = None\<rparr>"]
  by (simp add: ping_frame_def new_frame_def u64_max_def)

theorem decode_damaged_witness:
  "decode_frame 8 \<lparr>unread = binary_magic, broken = None\<rparr> =
     Some (Inl Unexpected_Eof, \<lparr>unread = [], broken = None\<rparr>)"
proof -
  have "strict_prefix binary_magic (encode_frame ping_frame)"
    by (simp add: encode_frame_def ping_frame_def new_frame_def strict_prefix_def)
  then show ?thesis
    by (subst decode_damaged[where f = ping_frame, THEN conjunct1, rule_format])
      (simp_all add: ping_frame_def new_frame_def u64_max_def)
qed

end
