(* ===== verification/Remote_Worker.thy ===== *)
theory Remote_Worker
  imports Task_Model Rust_Str Virtual_Fs "HOL-Library.Multiset"
begin

text \<open>
  Tasks on a remote worker: the messages of \<open>fish-worker/src/protocol.rs\<close>, the connection
  handler of \<open>server.rs\<close> and the client of \<open>client.rs\<close>. JSON, base64, archives, processes, temporary directories and
  the network are arguments of the model, collected in the records \<open>wire\<close> and \<open>host\<close>. Paths are
  strings; the parts of a path are joined with single slashes.
\<close>

subsection \<open>Messages\<close>

record source_context =
  src_root :: string
  src_data :: string
  src_format :: string
  src_use_vfs :: "bool option"
  src_vfs_mount :: "string option"

record remote_task_request =
  rq_task_id :: string
  rq_command :: string
  rq_args :: "string list"
  rq_env :: "string \<rightharpoonup> string"
  rq_cwd :: "string option"
  rq_auth_token :: "string option"
  rq_timeout_secs :: "nat option"
  rq_source :: "source_context option"

record vfs_file_request =
  vq_file_path :: string
  vq_auth_token :: "string option"

record remote_task_response =
  rs_task_id :: string
  rs_exit_code :: "int option"
  rs_stdout :: string
  rs_stderr :: string
  rs_duration_ms :: nat
  rs_error :: "string option"

record vfs_file_response =
  vs_success :: bool
  vs_content :: "string option"
  vs_error :: "string option"
  vs_metadata :: "file_metadata option"

record 'f worker_health =
  wh_name :: string
  wh_active_jobs :: nat
  wh_max_concurrency :: nat
  wh_uptime_secs :: nat
  wh_cpu_pct :: "'f option"
  wh_memory_used :: "nat option"
  wh_memory_total :: "nat option"

record 'f ping_response =
  pr_status :: string
  pr_health :: "'f worker_health"
  pr_error :: "string option"

text \<open>
  What \<open>serde_json\<close> makes of a line: each request type is tried on it. A request to ping has only
  a token.
\<close>

record ('w, 'f) wire =
  task_line :: "remote_task_request \<Rightarrow> 'w option"
  vfs_line :: "vfs_file_request \<Rightarrow> 'w option"
  ping_line :: "string option \<Rightarrow> 'w option"
  as_task :: "'w \<Rightarrow> remote_task_request option"
  as_vfs :: "'w \<Rightarrow> vfs_file_request option"
  as_ping :: "'w \<Rightarrow> string option option"
  task_answer :: "remote_task_response \<Rightarrow> 'w option"
  vfs_answer :: "vfs_file_response \<Rightarrow> 'w option"
  ping_answer :: "'f ping_response \<Rightarrow> 'w option"
  as_task_answer :: "'w \<Rightarrow> remote_task_response option"
  as_vfs_answer :: "'w \<Rightarrow> vfs_file_response option"
  as_ping_answer :: "'w \<Rightarrow> 'f ping_response option"

datatype io_kind =
    Os_Error string | Invalid_Data | Unexpected_End | Permission_Denied string
  | Not_Found_Kind string | Connection_Refused string | Other_Kind string

datatype executor_error = Spawn string io_kind | Record_Error string io_kind

subsection \<open>The worker\<close>

text \<open>
  What the worker finds outside itself: decoded base64, a fresh temporary directory for a prefix,
  what an archive unpacks to, whether a directory can be removed, a process that runs to its end, the text of an error, and the
  estimates and clocks that only appear in answers.
\<close>

record 'f host =
  decode_base64 :: "string \<Rightarrow> 8 word list option"
  encode_base64 :: "8 word list \<Rightarrow> string"
  fresh_dir :: "string \<Rightarrow> string option"
  unpack_into :: "8 word list \<Rightarrow> string \<Rightarrow> string + local_entry"
  removable :: "string \<Rightarrow> bool"
  run_process :: "task \<Rightarrow> nat option \<Rightarrow> executor_error + task_outcome"
  error_text :: "executor_error \<Rightarrow> string"
  vfs_error_text :: "vfs_error \<Rightarrow> string"
  as_vfs_path :: "string \<Rightarrow> vfs_path"
  job_millis :: nat
  uptime_secs :: nat
  load_pct :: "nat \<Rightarrow> nat \<Rightarrow> 'f"

record worker_server =
  ws_token :: "string option"
  ws_name :: string
  ws_max_concurrency :: nat
  ws_active_jobs :: nat
  ws_vfs :: virtual_fs
  ws_temp_dirs :: "string list"

definition worker_with_options :: "string option \<Rightarrow> string \<Rightarrow> nat \<Rightarrow> worker_server" where
  "worker_with_options token name concurrency =
     \<lparr>ws_token = token, ws_name = name, ws_max_concurrency = max concurrency 1, ws_active_jobs = 0,
      ws_vfs = new_vfs (1024 * 1024 * 100), ws_temp_dirs = []\<rparr>"

definition new_worker :: "string option \<Rightarrow> worker_server" where
  "new_worker token = worker_with_options token ''fish-worker-node'' 8"

text \<open>\<open>fetch_add\<close> and \<open>fetch_sub\<close> on an \<open>AtomicUsize\<close> wrap around.\<close>

definition job_started :: "worker_server \<Rightarrow> worker_server" where
  "job_started s = s\<lparr>ws_active_jobs := (ws_active_jobs s + 1) mod (u64_max + 1)\<rparr>"

definition job_finished :: "worker_server \<Rightarrow> worker_server" where
  "job_finished s = s\<lparr>ws_active_jobs := (ws_active_jobs s + u64_max) mod (u64_max + 1)\<rparr>"

definition unauthorized :: "worker_server \<Rightarrow> string option \<Rightarrow> bool" where
  "unauthorized s token = (case ws_token s of None \<Rightarrow> False | Some expected \<Rightarrow> token \<noteq> Some expected)"

text \<open>
  The stages of \<open>unpack_source\<close> and \<open>unpack_source_to_vfs\<close>: the archive is decoded, a directory is
  made and kept, the archive is unpacked into it. The directory stays on disk when unpacking fails.
\<close>

definition source_blob :: "'f host \<Rightarrow> source_context \<Rightarrow> string + 8 word list" where
  "source_blob h ctx =
     (if src_format ctx \<noteq> ''tar.zst'' then Inl (''unsupported source format: '' @ src_format ctx)
      else case decode_base64 h (src_data ctx) of None \<Rightarrow> Inl ''invalid base64'' | Some blob \<Rightarrow> Inr blob)"

definition keep_dir :: "'f host \<Rightarrow> string \<Rightarrow> worker_server \<Rightarrow> (string + string) \<times> worker_server" where
  "keep_dir h name s =
     (case fresh_dir h name of
        None \<Rightarrow> (Inl ''no temporary directory'', s)
      | Some root \<Rightarrow> (Inr root, s\<lparr>ws_temp_dirs := root # ws_temp_dirs s\<rparr>))"

definition unpack_source ::
  "'f host \<Rightarrow> string \<Rightarrow> source_context \<Rightarrow> worker_server \<Rightarrow> (string + string \<times> local_entry) \<times> worker_server" where
  "unpack_source h name ctx s =
     (case source_blob h ctx of
        Inl e \<Rightarrow> (Inl e, s)
      | Inr blob \<Rightarrow>
          (case keep_dir h name s of
             (Inl e, s') \<Rightarrow> (Inl e, s')
           | (Inr root, s') \<Rightarrow>
               (case unpack_into h blob root of
                  Inl e \<Rightarrow> (Inl e, s')
                | Inr tree \<Rightarrow> (Inr (root, tree), s'))))"

definition unpack_source_to_vfs ::
  "'f host \<Rightarrow> source_context \<Rightarrow> worker_server \<Rightarrow> (string + string) \<times> worker_server" where
  "unpack_source_to_vfs h ctx s =
     (case unpack_source h ''fish-source-vfs-'' ctx s of
        (Inl e, s') \<Rightarrow> (Inl e, s')
      | (Inr (root, tree), s') \<Rightarrow>
          let mount = (case src_vfs_mount ctx of None \<Rightarrow> ''/vfs'' | Some m \<Rightarrow> m)
          in (case mount_local (Some tree) (as_vfs_path h mount) (ws_vfs s') of
                (Inl e, v) \<Rightarrow> (Inl (vfs_error_text h e), s'\<lparr>ws_vfs := v\<rparr>)
              | (Inr _, v) \<Rightarrow> (Inr root, s'\<lparr>ws_vfs := v\<rparr>)))"

definition materialize_source ::
  "'f host \<Rightarrow> source_context option \<Rightarrow> worker_server \<Rightarrow> (string + string option) \<times> worker_server" where
  "materialize_source h src s =
     (case src of
        None \<Rightarrow> (Inr None, s)
      | Some ctx \<Rightarrow>
          if src_use_vfs ctx = Some True
          then (case unpack_source_to_vfs h ctx s of (Inl e, s') \<Rightarrow> (Inl e, s') | (Inr root, s') \<Rightarrow> (Inr (Some root), s'))
          else (case unpack_source h ''fish-source-'' ctx s of
                  (Inl e, s') \<Rightarrow> (Inl e, s') | (Inr (root, _), s') \<Rightarrow> (Inr (Some root), s')))"

subsection \<open>Working directories\<close>

fun join_parts :: "string list \<Rightarrow> string" where
  "join_parts [] = []"
| "join_parts [p] = p"
| "join_parts (p # q # ps) = p @ ''/'' @ join_parts (q # ps)"

text \<open>\<open>strip_prefix(root).map(|relative| dir.join(relative)).unwrap_or(dir)\<close>.\<close>

definition path_join :: "string \<Rightarrow> string list \<Rightarrow> string" where
  "path_join dir parts =
     (if dir = [] then join_parts parts
      else if last dir = CHR ''/'' then dir @ join_parts parts
      else dir @ ''/'' @ join_parts parts)"

definition strip_path :: "string \<Rightarrow> string \<Rightarrow> (bool \<times> string list) option" where
  "strip_path root p =
     (let (abs_p, cs) = path_components p; (abs_r, ds) = path_components root
      in if abs_p = abs_r then (if prefix ds cs then Some (False, drop (length ds) cs) else None)
         else if \<not> abs_r \<and> ds = [] then Some (abs_p, cs) else None)"

text \<open>Joining an absolute path replaces the directory.\<close>

definition relocate :: "string \<Rightarrow> string option \<Rightarrow> string \<Rightarrow> string" where
  "relocate root wd dir =
     (case wd of
        None \<Rightarrow> dir
      | Some p \<Rightarrow>
          (case strip_path root p of
             None \<Rightarrow> dir
           | Some (True, parts) \<Rightarrow> ''/'' @ join_parts parts
           | Some (False, parts) \<Rightarrow> path_join dir parts))"

subsection \<open>Requests\<close>

definition requested_spec :: "remote_task_request \<Rightarrow> string option \<Rightarrow> command_spec" where
  "requested_spec q dir =
     \<lparr>program = rq_command q, args = rq_args q, env = rq_env q, env_clear = False,
      cwd = (case dir of
               Some d \<Rightarrow> Some (relocate (case rq_source q of Some c \<Rightarrow> src_root c | None \<Rightarrow> []) (rq_cwd q) d)
             | None \<Rightarrow> rq_cwd q)\<rparr>"

definition requested_task :: "remote_task_request \<Rightarrow> string option \<Rightarrow> task" where
  "requested_task q dir =
     (let c = requested_spec q dir in new_task (rq_task_id q) (command_line c) c)"

definition outcome_response ::
  "'f host \<Rightarrow> remote_task_request \<Rightarrow> executor_error + task_outcome \<Rightarrow> remote_task_response" where
  "outcome_response h q r =
     (case r of
        Inr out \<Rightarrow>
          \<lparr>rs_task_id = rq_task_id q,
           rs_exit_code = (case exit_code out of
              Some c \<Rightarrow> Some c
            | None \<Rightarrow> if status out = Run_Failed then Some 1 else Some 0),
           rs_stdout = stdout out, rs_stderr = stderr out, rs_duration_ms = job_millis h, rs_error = None\<rparr>
      | Inl e \<Rightarrow>
          \<lparr>rs_task_id = rq_task_id q, rs_exit_code = Some 1, rs_stdout = [], rs_stderr = error_text h e,
           rs_duration_ms = job_millis h, rs_error = Some (error_text h e)\<rparr>)"

definition unauthorized_response :: "remote_task_request \<Rightarrow> remote_task_response" where
  "unauthorized_response q =
     \<lparr>rs_task_id = rq_task_id q, rs_exit_code = Some 1, rs_stdout = [],
      rs_stderr = ''unauthorized: invalid auth token'', rs_duration_ms = 0, rs_error = Some ''unauthorized''\<rparr>"

text \<open>A directory that cannot be removed stays: the result of \<open>remove_dir_all\<close> is ignored.\<close>

definition drop_dir :: "'f host \<Rightarrow> string option \<Rightarrow> worker_server \<Rightarrow> worker_server" where
  "drop_dir h dir s =
     (case dir of
        None \<Rightarrow> s
      | Some d \<Rightarrow> if removable h d then s\<lparr>ws_temp_dirs := removeAll d (ws_temp_dirs s)\<rparr> else s)"

text \<open>An error of the handler closes the connection without an answer: \<open>Inl\<close>.\<close>

definition handle_task ::
  "'f host \<Rightarrow> remote_task_request \<Rightarrow> worker_server \<Rightarrow> (string + remote_task_response) \<times> worker_server" where
  "handle_task h q s =
     (if unauthorized s (rq_auth_token q) then (Inr (unauthorized_response q), s)
      else case materialize_source h (rq_source q) (job_started s) of
          (Inl e, s1) \<Rightarrow> (Inl e, s1)
        | (Inr dir, s1) \<Rightarrow>
            let result = run_process h (requested_task q dir) (rq_timeout_secs q)
            in (Inr (outcome_response h q result), job_finished (drop_dir h dir s1)))"

text \<open>\<open>None\<close> is the panic of the file system on an overflow of its byte count.\<close>

definition handle_vfs ::
  "'f host \<Rightarrow> vfs_file_request \<Rightarrow> worker_server \<Rightarrow> (vfs_file_response \<times> worker_server) option" where
  "handle_vfs h q s =
     (if unauthorized s (vq_auth_token q)
      then Some (\<lparr>vs_success = False, vs_content = None, vs_error = Some ''unauthorized'', vs_metadata = None\<rparr>, s)
      else let p = as_vfs_path h (vq_file_path q)
      in case read_file p (ws_vfs s) of
          None \<Rightarrow> None
        | Some (Inr content, v) \<Rightarrow>
            Some (\<lparr>vs_success = True, vs_content = Some (encode_base64 h content), vs_error = None,
                   vs_metadata = (case vfs_metadata p v of Inr m \<Rightarrow> Some m | Inl _ \<Rightarrow> None)\<rparr>,
                  s\<lparr>ws_vfs := v\<rparr>)
        | Some (Inl e, v) \<Rightarrow>
            Some (\<lparr>vs_success = False, vs_content = None, vs_error = Some (vfs_error_text h e), vs_metadata = None\<rparr>,
                  s\<lparr>ws_vfs := v\<rparr>))"

definition health_of :: "'f host \<Rightarrow> worker_server \<Rightarrow> 'f worker_health option" where
  "health_of h s =
     (let jobs = ws_active_jobs s
      in if u64_max < jobs * 64 * 1024 * 1024 then None
         else Some \<lparr>wh_name = ws_name s, wh_active_jobs = jobs, wh_max_concurrency = ws_max_concurrency s,
           wh_uptime_secs = uptime_secs h,
           wh_cpu_pct = (if 0 < ws_max_concurrency s then Some (load_pct h jobs (ws_max_concurrency s)) else None),
           wh_memory_used = Some (jobs * 64 * 1024 * 1024),
           wh_memory_total = Some (1024 * 1024 * 1024 * 8)\<rparr>)"

text \<open>\<open>None\<close> is the panic of the memory estimate on overflow.\<close>

definition handle_ping :: "'f host \<Rightarrow> string option \<Rightarrow> worker_server \<Rightarrow> 'f ping_response option" where
  "handle_ping h token s =
     (case health_of h s of
        None \<Rightarrow> None
      | Some health \<Rightarrow>
          if unauthorized s token
          then Some \<lparr>pr_status = ''unauthorized'', pr_health = health, pr_error = Some ''invalid authentication token''\<rparr>
          else Some \<lparr>pr_status = ''ok'', pr_health = health, pr_error = None\<rparr>)"

definition invalid_request :: remote_task_response where
  "invalid_request =
     \<lparr>rs_task_id = ''unknown'', rs_exit_code = Some 1, rs_stdout = [],
      rs_stderr = ''invalid request wire format'', rs_duration_ms = 0, rs_error = Some ''invalid_request''\<rparr>"

text \<open>
  One connection: nothing, a blank line, or a line. The connection is closed without an answer
  (\<open>None\<close>) after an error or a panic.
\<close>

datatype 'w incoming = Nothing | Blank | Line 'w

definition handle_connection ::
  "('w, 'f) wire \<Rightarrow> 'f host \<Rightarrow> 'w incoming \<Rightarrow> worker_server \<Rightarrow> 'w option \<times> worker_server" where
  "handle_connection w h i s =
     (case i of
        Nothing \<Rightarrow> (None, s)
      | Blank \<Rightarrow> (None, s)
      | Line l \<Rightarrow>
          (case as_task w l of
             Some q \<Rightarrow>
               (case handle_task h q s of
                  (Inl _, s') \<Rightarrow> (None, s')
                | (Inr r, s') \<Rightarrow> (task_answer w r, s'))
           | None \<Rightarrow>
             (case as_vfs w l of
                Some q \<Rightarrow>
                  (case handle_vfs h q s of
                     None \<Rightarrow> (None, s)
                   | Some (r, s') \<Rightarrow> (vfs_answer w r, s'))
              | None \<Rightarrow>
                (case as_ping w l of
                   Some token \<Rightarrow> (case handle_ping h token s of None \<Rightarrow> (None, s) | Some r \<Rightarrow> (ping_answer w r, s))
                 | None \<Rightarrow> (task_answer w invalid_request, s)))))"

subsection \<open>The client\<close>

record worker_client =
  server_addr :: string
  client_token :: "string option"
  timeout_secs :: nat
  pack_source :: bool
  use_vfs :: bool

definition new_client :: "string \<Rightarrow> string option \<Rightarrow> worker_client" where
  "new_client addr token =
     \<lparr>server_addr = addr, client_token = token, timeout_secs = 120, pack_source = False, use_vfs = False\<rparr>"

text \<open>
  A connection is \<open>None\<close> when it is refused; otherwise the line that is sent is lost or followed by
  the end of the stream or by a line.
\<close>

datatype 'w reply = Lost string | Closed | Answered 'w

type_synonym 'w connection = "('w \<Rightarrow> 'w reply) option"

definition exchange ::
  "string \<Rightarrow> 'w option \<Rightarrow> ('w \<Rightarrow> 'w reply) \<Rightarrow> ('w \<Rightarrow> 'r option) \<Rightarrow> executor_error + 'r" where
  "exchange command l conn parse =
     (case l of
        None \<Rightarrow> Inl (Spawn command Invalid_Data)
      | Some line \<Rightarrow>
          (case conn line of
             Lost e \<Rightarrow> Inl (Spawn command (Os_Error e))
           | Closed \<Rightarrow> Inl (Spawn command Unexpected_End)
           | Answered a \<Rightarrow> (case parse a of None \<Rightarrow> Inl (Spawn command Invalid_Data) | Some r \<Rightarrow> Inr r)))"

record client_host =
  is_dir_at :: "string \<Rightarrow> bool"
  pack_tree_at :: "string \<Rightarrow> string + 8 word list"
  to_base64 :: "8 word list \<Rightarrow> string"

definition pack_source_context :: "client_host \<Rightarrow> string option \<Rightarrow> bool \<Rightarrow> string + source_context option" where
  "pack_source_context ch wd vfs =
     (case wd of
        None \<Rightarrow> Inr None
      | Some d \<Rightarrow>
          if \<not> is_dir_at ch d then Inr None
          else (case pack_tree_at ch d of
              Inl e \<Rightarrow> Inl e
            | Inr blob \<Rightarrow>
                Inr (Some \<lparr>src_root = d, src_data = to_base64 ch blob, src_format = ''tar.zst'',
                     src_use_vfs = Some vfs, src_vfs_mount = (if vfs then Some ''/vfs'' else None)\<rparr>)))"

definition request_of :: "worker_client \<Rightarrow> task \<Rightarrow> source_context option \<Rightarrow> remote_task_request" where
  "request_of c t src =
     \<lparr>rq_task_id = label t, rq_command = program (spec t), rq_args = args (spec t), rq_env = env (spec t),
      rq_cwd = cwd (spec t), rq_auth_token = client_token c, rq_timeout_secs = Some (timeout_secs c),
      rq_source = src\<rparr>"

definition outcome_of :: "remote_task_response \<Rightarrow> task_outcome" where
  "outcome_of r =
     \<lparr>status = (if rs_exit_code r = Some 0 \<and> rs_error r = None then Run_Executed else Run_Failed),
      exit_code = rs_exit_code r, stdout = rs_stdout r, stderr = rs_stderr r, duration = rs_duration_ms r\<rparr>"

definition send_task ::
  "('w, 'f) wire \<Rightarrow> client_host \<Rightarrow> worker_client \<Rightarrow> 'w connection \<Rightarrow> task \<Rightarrow> executor_error + task_outcome" where
  "send_task w ch c conn t =
     (case conn of
        None \<Rightarrow> Inl (Spawn (label t) (Os_Error ''connect''))
      | Some ex \<Rightarrow>
          (case (if pack_source c then pack_source_context ch (cwd (spec t)) (use_vfs c) else Inr None) of
             Inl e \<Rightarrow> Inl (Spawn (label t) (Other_Kind e))
           | Inr src \<Rightarrow>
               (case exchange (label t) (task_line w (request_of c t src)) ex
                       (as_task_answer w) of
                  Inl e \<Rightarrow> Inl e
                | Inr r \<Rightarrow> Inr (outcome_of r))))"

definition worker_ping ::
  "('w, 'f) wire \<Rightarrow> worker_client \<Rightarrow> 'w connection \<Rightarrow> executor_error + 'f ping_response" where
  "worker_ping w c conn =
     (case conn of
        None \<Rightarrow> Inl (Spawn (''ping to '' @ server_addr c) (Os_Error ''connect''))
      | Some ex \<Rightarrow> exchange (''ping to '' @ server_addr c) (ping_line w (client_token c)) ex
                    (as_ping_answer w))"

definition client_health ::
  "('w, 'f) wire \<Rightarrow> worker_client \<Rightarrow> 'w connection \<Rightarrow> executor_error + 'f worker_health" where
  "client_health w c conn =
     (case worker_ping w c conn of
        Inl e \<Rightarrow> Inl e
      | Inr r \<Rightarrow>
          if pr_status r = ''ok'' then Inr (pr_health r)
          else Inl (Spawn (''health check for '' @ server_addr c)
                 (Permission_Denied (case pr_error r of Some e \<Rightarrow> e | None \<Rightarrow> ''unhealthy worker''))))"

definition request_vfs_file ::
  "('w, 'f) wire \<Rightarrow> worker_client \<Rightarrow> 'w connection \<Rightarrow> string \<Rightarrow> executor_error + vfs_file_response" where
  "request_vfs_file w c conn path =
     (case conn of
        None \<Rightarrow> Inl (Spawn ''vfs_request'' (Other_Kind ''connect''))
      | Some ex \<Rightarrow>
          (case vfs_line w \<lparr>vq_file_path = path, vq_auth_token = client_token c\<rparr> of
             None \<Rightarrow> Inl (Spawn ''vfs_request'' (Other_Kind ''serialize''))
           | Some l \<Rightarrow>
               (case ex l of
                  Lost e \<Rightarrow> Inl (Spawn ''vfs_request'' (Other_Kind e))
                | Closed \<Rightarrow> Inl (Spawn ''vfs_request'' (Other_Kind ''parse''))
                | Answered a \<Rightarrow>
                    (case as_vfs_answer w a of
                       None \<Rightarrow> Inl (Spawn ''vfs_request'' (Other_Kind ''parse''))
                     | Some r \<Rightarrow> Inr r))))"

text \<open>A connection to a worker on a network that loses nothing.\<close>

definition worker_connection :: "('w, 'f) wire \<Rightarrow> 'f host \<Rightarrow> worker_server \<Rightarrow> 'w connection" where
  "worker_connection w h s =
     Some (\<lambda>l. case fst (handle_connection w h (Line l) s) of None \<Rightarrow> Closed | Some a \<Rightarrow> Answered a)"

subsection \<open>Execution on a worker\<close>

text \<open>
  The behaviour of \<open>serde_json\<close> that the protocol relies on: what is written can be read, and a
  request lacks fields that the types tried before its own require.
\<close>

definition wire_ok :: "('w, 'f) wire \<Rightarrow> bool" where
  "wire_ok w \<longleftrightarrow>
     (\<forall>q. \<exists>l. task_line w q = Some l \<and> as_task w l = Some q) \<and>
     (\<forall>q. \<exists>l. vfs_line w q = Some l \<and> as_task w l = None \<and> as_vfs w l = Some q) \<and>
     (\<forall>t. \<exists>l. ping_line w t = Some l \<and> as_task w l = None \<and> as_vfs w l = None \<and> as_ping w l = Some t) \<and>
     (\<forall>r. \<exists>a. task_answer w r = Some a \<and> as_task_answer w a = Some r) \<and>
     (\<forall>r. \<exists>a. vfs_answer w r = Some a \<and> as_vfs_answer w a = Some r) \<and>
     (\<forall>r. \<exists>a. ping_answer w r = Some a \<and> as_ping_answer w a = Some r)"

text \<open>The task as the worker runs it.\<close>

definition as_run_remotely :: "task \<Rightarrow> task" where
  "as_run_remotely t =
     t\<lparr>description := command_line (spec t), spec := (spec t)\<lparr>env_clear := False\<rparr>, cache := None, artifacts := []\<rparr>"

lemma send_task_answered:
  assumes "wire_ok w" "\<not> pack_source c"
    and "fst (handle_task h (request_of c t None) s) = Inr r"
  shows "send_task w ch c (worker_connection w h s) t = Inr (outcome_of r)"
proof -
  obtain l where l: "task_line w (request_of c t None) = Some l" "as_task w l = Some (request_of c t None)"
    using assms(1) unfolding wire_ok_def by blast
  obtain a where a: "task_answer w r = Some a" "as_task_answer w a = Some r"
    using assms(1) unfolding wire_ok_def by blast
  have "fst (handle_connection w h (Line l) s) = Some a"
    using assms(3) l a by (auto simp: handle_connection_def split: prod.splits)
  then show ?thesis
    using assms(2) l a by (simp add: send_task_def worker_connection_def exchange_def)
qed

text \<open>
  C31. A client that does not pack sources sends a task over a sound connection to a worker. If the
  worker accepts the client's token, it runs the task there with its label, program, arguments,
  environment and working directory (but never with a cleared environment) under the client's
  timeout, and the client reports the output of that run, the time the worker measured, and its
  exit code: the code of the process, or for a process without one 1 if it failed and 0 otherwise.
  It reports success exactly if that code is 0. A run that could not be made is reported as a
  failure with exit code 1 and the text of the error. A worker that does not accept the token runs
  nothing, is left unchanged, and the client reports a failure with exit code 1.
\<close>

theorem remote_execution_correct:
  assumes "wire_ok w" "\<not> pack_source c"
  shows "if unauthorized s (client_token c)
    then handle_task h (request_of c t None) s = (Inr (unauthorized_response (request_of c t None)), s) \<and>
         (\<exists>out. send_task w ch c (worker_connection w h s) t = Inr out \<and>
            status out = Run_Failed \<and> exit_code out = Some 1)
    else (\<exists>out. send_task w ch c (worker_connection w h s) t = Inr out \<and>
           duration out = job_millis h \<and>
           (case run_process h (as_run_remotely t) (Some (timeout_secs c)) of
              Inr res \<Rightarrow>
                stdout out = stdout res \<and> stderr out = stderr res \<and>
                exit_code out =
                  (case exit_code res of
                     Some code \<Rightarrow> Some code
                   | None \<Rightarrow> if status res = Run_Failed then Some 1 else Some 0) \<and>
                status out = (if exit_code out = Some 0 then Run_Executed else Run_Failed)
            | Inl e \<Rightarrow>
                status out = Run_Failed \<and> exit_code out = Some 1 \<and> stdout out = [] \<and>
                stderr out = error_text h e))"
proof (cases "unauthorized s (client_token c)")
  case True
  then have "handle_task h (request_of c t None) s = (Inr (unauthorized_response (request_of c t None)), s)"
    by (simp add: handle_task_def request_of_def)
  then show ?thesis
    using True send_task_answered[OF assms(1,2), of h t s] by (simp add: outcome_of_def unauthorized_response_def)
next
  case False
  have spec: "requested_spec (request_of c t None) None = (spec t)\<lparr>env_clear := False\<rparr>"
    by (simp add: requested_spec_def request_of_def)
  have task: "requested_task (request_of c t None) None = as_run_remotely t"
    unfolding requested_task_def Let_def spec
    by (simp add: as_run_remotely_def new_task_def command_line_def request_of_def)
  have "fst (handle_task h (request_of c t None) s) =
      Inr (outcome_response h (request_of c t None) (run_process h (as_run_remotely t) (Some (timeout_secs c))))"
    using False task by (simp add: handle_task_def materialize_source_def request_of_def)
  from send_task_answered[OF assms(1,2) this] show ?thesis
    using False by (auto simp: outcome_of_def outcome_response_def split: sum.splits option.splits)
qed

subsection \<open>Jobs and temporary directories\<close>

text \<open>
  Connections are served by threads of their own, so a job is in one of these phases while others
  go on: counted by \<open>fetch_add\<close>; with a directory into which the archive is unpacked; with a
  directory and the files still to be mounted; running, with its directory; or cleaned up but
  still counted.
\<close>

datatype phase =
    Counted
  | Unpacking string
  | Mounting string "(local_entry option \<times> vfs_path) list"
  | Running "string option"
  | Cleaned

type_synonym job = "remote_task_request \<times> phase"

definition mount_item :: "vfs_path \<Rightarrow> (string \<times> local_entry) option \<Rightarrow> local_entry option \<times> vfs_path" where
  "mount_item p e = (case e of None \<Rightarrow> (None, p) | Some (name, l) \<Rightarrow> (Some l, p @ [Utf8 name]))"

text \<open>One step of \<open>mount_recursive\<close> on a list of entries that remain, at most one write.\<close>

fun mount_next ::
  "(local_entry option \<times> vfs_path) list \<Rightarrow> virtual_fs \<Rightarrow>
   (vfs_error + (local_entry option \<times> vfs_path) list) \<times> virtual_fs"
where
  "mount_next [] v = (Inr [], v)"
| "mount_next ((None, p) # ws) v = (Inl Vfs_Io, v)"
| "mount_next ((Some (Local_File content modified exec), p) # ws) v =
     (case content of
        None \<Rightarrow> (Inl Vfs_Io, v)
      | Some c \<Rightarrow>
          (case write_file p c \<lparr>md_size = length c, md_modified = modified, md_executable = exec\<rparr> v of
             (Inl e, v') \<Rightarrow> (Inl e, v')
           | (Inr _, v') \<Rightarrow> (Inr ws, v')))"
| "mount_next ((Some (Local_Dir None), p) # ws) v = (Inl Vfs_Io, v)"
| "mount_next ((Some (Local_Dir (Some es)), p) # ws) v =
     (Inr (map (mount_item p) es @ ws), v)"
| "mount_next ((Some Local_Other, p) # ws) v = (Inr ws, v)"

text \<open>
  The worker with its readers of files (as in \<open>vfs_step\<close>), its jobs, the number of jobs that were
  given up, the directories nobody will remove, and how many removals have failed.
\<close>

record worker_run =
  wr_server :: worker_server
  wr_readers :: "reader list"
  wr_jobs :: "job list"
  wr_lost :: nat
  wr_abandoned :: "string list"
  wr_stuck :: nat

definition idle_worker :: "worker_server \<Rightarrow> worker_run" where
  "idle_worker s =
     \<lparr>wr_server = s, wr_readers = [], wr_jobs = [], wr_lost = 0, wr_abandoned = [], wr_stuck = 0\<rparr>"

fun phase_dir :: "phase \<Rightarrow> string option" where
  "phase_dir Counted = None"
| "phase_dir (Unpacking d) = Some d"
| "phase_dir (Mounting d _) = Some d"
| "phase_dir (Running dir) = dir"
| "phase_dir Cleaned = None"

definition move_job :: "remote_task_request \<Rightarrow> phase \<Rightarrow> phase \<Rightarrow> worker_run \<Rightarrow> worker_run" where
  "move_job q a b x = x\<lparr>wr_jobs := (q, b) # remove1 (q, a) (wr_jobs x)\<rparr>"

text \<open>An error between \<open>fetch_add\<close> and \<open>fetch_sub\<close>: the job is gone, its count and directory stay.\<close>

definition lose_job :: "remote_task_request \<Rightarrow> phase \<Rightarrow> worker_run \<Rightarrow> worker_run" where
  "lose_job q a x =
     x\<lparr>wr_jobs := remove1 (q, a) (wr_jobs x), wr_lost := Suc (wr_lost x),
       wr_abandoned := (case phase_dir a of None \<Rightarrow> [] | Some d \<Rightarrow> [d]) @ wr_abandoned x\<rparr>"

definition wants_vfs :: "source_context \<Rightarrow> bool" where
  "wants_vfs ctx \<longleftrightarrow> src_use_vfs ctx = Some True"

definition source_prefix :: "source_context \<Rightarrow> string" where
  "source_prefix ctx = (if wants_vfs ctx then ''fish-source-vfs-'' else ''fish-source-'')"

definition mount_work :: "'f host \<Rightarrow> source_context \<Rightarrow> local_entry \<Rightarrow> (local_entry option \<times> vfs_path) list" where
  "mount_work h ctx tree =
     [(Some tree, as_vfs_path h (case src_vfs_mount ctx of None \<Rightarrow> ''/vfs'' | Some m \<Rightarrow> m))]"

inductive worker_step :: "'f host \<Rightarrow> worker_run \<Rightarrow> worker_run \<Rightarrow> bool" for h :: "'f host" where
  accept: "\<not> unauthorized (wr_server x) (rq_auth_token q) \<Longrightarrow>
    worker_step h x (x\<lparr>wr_server := job_started (wr_server x), wr_jobs := (q, Counted) # wr_jobs x\<rparr>)"
| no_source: "(q, Counted) \<in> set (wr_jobs x) \<Longrightarrow> rq_source q = None \<Longrightarrow>
    worker_step h x (move_job q Counted (Running None) x)"
| bad_source: "(q, Counted) \<in> set (wr_jobs x) \<Longrightarrow> rq_source q = Some ctx \<Longrightarrow>
    source_blob h ctx = Inl e \<Longrightarrow>
    worker_step h x (lose_job q Counted x)"
| no_dir: "(q, Counted) \<in> set (wr_jobs x) \<Longrightarrow> rq_source q = Some ctx \<Longrightarrow>
    source_blob h ctx = Inr blob \<Longrightarrow> keep_dir h (source_prefix ctx) (wr_server x) = (Inl e, s') \<Longrightarrow>
    worker_step h x (lose_job q Counted x)"
| make_dir: "(q, Counted) \<in> set (wr_jobs x) \<Longrightarrow> rq_source q = Some ctx \<Longrightarrow>
    source_blob h ctx = Inr blob \<Longrightarrow> keep_dir h (source_prefix ctx) (wr_server x) = (Inr root, s') \<Longrightarrow>
    root \<notin> set (ws_temp_dirs (wr_server x)) \<Longrightarrow>
    worker_step h x (move_job q Counted (Unpacking root) (x\<lparr>wr_server := s'\<rparr>))"
| bad_archive: "(q, Unpacking root) \<in> set (wr_jobs x) \<Longrightarrow> rq_source q = Some ctx \<Longrightarrow>
    source_blob h ctx = Inr blob \<Longrightarrow> unpack_into h blob root = Inl e \<Longrightarrow>
    worker_step h x (lose_job q (Unpacking root) x)"
| unpacked: "(q, Unpacking root) \<in> set (wr_jobs x) \<Longrightarrow> rq_source q = Some ctx \<Longrightarrow>
    source_blob h ctx = Inr blob \<Longrightarrow> unpack_into h blob root = Inr tree \<Longrightarrow>
    worker_step h x (move_job q (Unpacking root)
      (if wants_vfs ctx then Mounting root (mount_work h ctx tree) else Running (Some root)) x)"
| mount_entry: "(q, Mounting root ws) \<in> set (wr_jobs x) \<Longrightarrow> ws \<noteq> [] \<Longrightarrow>
    mount_next ws (ws_vfs (wr_server x)) = (Inr ws', v') \<Longrightarrow>
    worker_step h x (move_job q (Mounting root ws) (Mounting root ws')
      (x\<lparr>wr_server := (wr_server x)\<lparr>ws_vfs := v'\<rparr>\<rparr>))"
| mount_error: "(q, Mounting root ws) \<in> set (wr_jobs x) \<Longrightarrow>
    mount_next ws (ws_vfs (wr_server x)) = (Inl e, v') \<Longrightarrow>
    worker_step h x (lose_job q (Mounting root ws) (x\<lparr>wr_server := (wr_server x)\<lparr>ws_vfs := v'\<rparr>\<rparr>))"
| mount_done: "(q, Mounting root []) \<in> set (wr_jobs x) \<Longrightarrow>
    worker_step h x (move_job q (Mounting root []) (Running (Some root)) x)"
| clean: "(q, Running dir) \<in> set (wr_jobs x) \<Longrightarrow> dir = None \<or> (\<exists>d. dir = Some d \<and> removable h d) \<Longrightarrow>
    worker_step h x (move_job q (Running dir) Cleaned (x\<lparr>wr_server := drop_dir h dir (wr_server x)\<rparr>))"
| clean_fails: "(q, Running (Some d)) \<in> set (wr_jobs x) \<Longrightarrow> \<not> removable h d \<Longrightarrow>
    worker_step h x (move_job q (Running (Some d)) Cleaned
      (x\<lparr>wr_server := drop_dir h (Some d) (wr_server x), wr_abandoned := d # wr_abandoned x, wr_stuck := Suc (wr_stuck x)\<rparr>))"
| finish: "(q, Cleaned) \<in> set (wr_jobs x) \<Longrightarrow>
    worker_step h x (x\<lparr>wr_server := job_finished (wr_server x), wr_jobs := remove1 (q, Cleaned) (wr_jobs x)\<rparr>)"
| stream: "vfs_step (ws_vfs (wr_server x), wr_readers x) (v', rs') \<Longrightarrow>
    worker_step h x (x\<lparr>wr_server := (wr_server x)\<lparr>ws_vfs := v'\<rparr>, wr_readers := rs'\<rparr>)"

definition worker_steps :: "worker_run \<Rightarrow> worker_run \<Rightarrow> bool" where
  "worker_steps = (\<lambda>x y. \<exists>h :: unit host. worker_step h x y)\<^sup>*\<^sup>*"

subsection \<open>The handlers are sequences of these steps\<close>

definition mount_steps ::
  "(local_entry option \<times> vfs_path) list \<times> virtual_fs \<Rightarrow> (local_entry option \<times> vfs_path) list \<times> virtual_fs \<Rightarrow> bool"
where
  "mount_steps = (\<lambda>(ws, v) (ws', v'). ws \<noteq> [] \<and> mount_next ws v = (Inr ws', v'))\<^sup>*\<^sup>*"

definition mounts_to ::
  "(local_entry option \<times> vfs_path) list \<Rightarrow> virtual_fs \<Rightarrow> vfs_error + unit \<Rightarrow>
   (local_entry option \<times> vfs_path) list \<Rightarrow> virtual_fs \<Rightarrow> bool"
where
  "mounts_to ws0 v r ws v' \<longleftrightarrow>
     (case r of
        Inr _ \<Rightarrow> mount_steps (ws0, v) (ws, v')
      | Inl e \<Rightarrow> \<exists>ws' v''. mount_steps (ws0, v) (ws', v'') \<and> mount_next ws' v'' = (Inl e, v'))"

lemma mount_steps_refl: "mount_steps y y"
  by (simp add: mount_steps_def)

lemma mounts_to_step:
  assumes "mount_next (w # ws) v = (Inr ws1, v1)" "mounts_to ws1 v1 r ws2 v2"
  shows "mounts_to (w # ws) v r ws2 v2"
proof -
  have step: "mount_steps (w # ws, v) y" if "mount_steps (ws1, v1) y" for y
    using that assms(1) unfolding mount_steps_def by (auto intro: converse_rtranclp_into_rtranclp)
  show ?thesis
  proof (cases r)
    case (Inl e)
    then show ?thesis using assms(2) step unfolding mounts_to_def Inl sum.case by blast
  next
    case (Inr u)
    then show ?thesis using assms(2) step unfolding mounts_to_def Inr sum.case by blast
  qed
qed

lemma mounts_to_trans:
  assumes "mounts_to ws0 v (Inr u) ws1 v1" "mounts_to ws1 v1 r ws2 v2"
  shows "mounts_to ws0 v r ws2 v2"
proof -
  have step: "mount_steps (ws0, v) y" if "mount_steps (ws1, v1) y" for y
    using that assms(1) unfolding mount_steps_def mounts_to_def sum.case by (rule rtranclp_trans[rotated])
  show ?thesis
  proof (cases r)
    case (Inl e)
    then show ?thesis using assms(2) step unfolding mounts_to_def Inl sum.case by blast
  next
    case (Inr u)
    then show ?thesis using assms(2) step unfolding mounts_to_def Inr sum.case by blast
  qed
qed

lemma mounts_to_refl: "mounts_to ws v (Inr u) ws v"
  by (simp add: mounts_to_def mount_steps_refl)

lemma mounts_to_done: "mount_next ws0 v = (Inl e, v') \<Longrightarrow> mounts_to ws0 v (Inl e) ws v'"
  using mount_steps_refl by (auto simp: mounts_to_def)

lemma mounts_to_next: "mount_next (w # ws) v = (Inr ws', v') \<Longrightarrow> mounts_to (w # ws) v (Inr u) ws' v'"
  by (rule mounts_to_step) (auto simp: mounts_to_def mount_steps_refl)

lemma mount_recursive_steps:
  "mount_recursive e p v = (r, v') \<Longrightarrow> mounts_to ((Some e, p) # ws) v r ws v'"
  "mount_entries es p v = (r, v') \<Longrightarrow> mounts_to (map (mount_item p) es @ ws) v r ws v'"
proof (induction e p v and es p v arbitrary: r v' ws and r v' ws rule: mount_recursive_mount_entries.induct)
  case (1 content modified exec p v)
  then show ?case
    by (cases r) (auto split: option.splits prod.splits sum.splits intro!: mounts_to_done mounts_to_next)
next
  case (2 es p v)
  then have "mounts_to (map (mount_item p) es @ ws) v r ws v'" by simp
  then show ?case by (rule mounts_to_step[rotated]) simp
next
  case (7 name e es p v)
  obtain r1 v1 where r1: "mount_recursive e (p @ [Utf8 name]) v = (r1, v1)" by fastforce
  have item: "mount_item p (Some (name, e)) = (Some e, p @ [Utf8 name])" by (simp add: mount_item_def)
  note first = 7(1)[OF r1, of "map (mount_item p) es @ ws"]
  show ?case
  proof (cases r1)
    case (Inl err)
    then have "r = Inl err" "v' = v1" using r1 7(3) by auto
    then show ?thesis using first item Inl by (simp add: mounts_to_def)
  next
    case (Inr u)
    then have "mounts_to (map (mount_item p) es @ ws) v1 r ws v'"
      using 7(2)[OF r1[symmetric]] r1 7(3) by simp
    then show ?thesis using first mounts_to_trans item Inr by simp
  qed
qed (auto simp: mount_item_def intro!: mounts_to_done mounts_to_next mounts_to_refl)

lemma mount_job_steps:
  assumes "mount_steps (ws, v) (ws', v')" "wr_jobs x = (q, Mounting root ws) # js" "ws_vfs (wr_server x) = v"
  shows "(worker_step h)\<^sup>*\<^sup>* x
    (x\<lparr>wr_server := (wr_server x)\<lparr>ws_vfs := v'\<rparr>, wr_jobs := (q, Mounting root ws') # js\<rparr>)"
  using assms(1) unfolding mount_steps_def
proof (induction rule: rtranclp_induct2)
  case refl
  have "x\<lparr>wr_server := (wr_server x)\<lparr>ws_vfs := v\<rparr>, wr_jobs := (q, Mounting root ws) # js\<rparr> = x"
    by (rule worker_run.equality) (simp_all add: assms(2,3)[symmetric])
  then show ?case by simp
next
  case (step ws1 v1 ws2 v2)
  let ?x = "x\<lparr>wr_server := (wr_server x)\<lparr>ws_vfs := v1\<rparr>, wr_jobs := (q, Mounting root ws1) # js\<rparr>"
  have "worker_step h ?x (move_job q (Mounting root ws1) (Mounting root ws2)
      (?x\<lparr>wr_server := (wr_server ?x)\<lparr>ws_vfs := v2\<rparr>\<rparr>))"
    using step(2) by (intro mount_entry) auto
  then show ?case using step(3) by (simp add: move_job_def)
qed

text \<open>\<open>x\<close> reaches \<open>y\<close> by steps that change nothing but the worker and what is told of \<open>y\<close>.\<close>

definition run_reaches :: "'f host \<Rightarrow> worker_run \<Rightarrow> worker_server \<Rightarrow> job list \<Rightarrow> nat \<Rightarrow> bool" where
  "run_reaches h x s js n \<longleftrightarrow>
     (\<exists>y. (worker_step h)\<^sup>*\<^sup>* x y \<and> wr_server y = s \<and> wr_jobs y = js \<and> wr_lost y = n \<and> wr_readers y = wr_readers x)"

lemma run_reaches_refl: "run_reaches h x (wr_server x) (wr_jobs x) (wr_lost x)"
  unfolding run_reaches_def by blast

lemma run_reaches_steps:
  "(worker_step h)\<^sup>*\<^sup>* x y \<Longrightarrow> wr_readers y = wr_readers x \<Longrightarrow> wr_server y = s \<Longrightarrow> wr_jobs y = js \<Longrightarrow> wr_lost y = n \<Longrightarrow>
     run_reaches h x s js n"
  unfolding run_reaches_def by blast

lemma run_reaches_step:
  "worker_step h x y \<Longrightarrow> wr_readers y = wr_readers x \<Longrightarrow> run_reaches h y s js n \<Longrightarrow> run_reaches h x s js n"
  unfolding run_reaches_def by (metis converse_rtranclp_into_rtranclp)

lemma run_reaches_one:
  "worker_step h x y \<Longrightarrow> wr_readers y = wr_readers x \<Longrightarrow> wr_server y = s \<Longrightarrow> wr_jobs y = js \<Longrightarrow> wr_lost y = n \<Longrightarrow>
     run_reaches h x s js n"
  by (rule run_reaches_steps[OF r_into_rtranclp])

lemma mount_local_steps:
  assumes "mount_local (Some tree) (as_vfs_path h (case src_vfs_mount ctx of None \<Rightarrow> ''/vfs'' | Some m \<Rightarrow> m))
      (ws_vfs (wr_server x)) = (r, v)"
    and "wr_jobs x = (q, Mounting root (mount_work h ctx tree)) # js"
  shows "case r of
      Inl _ \<Rightarrow> run_reaches h x ((wr_server x)\<lparr>ws_vfs := v\<rparr>) js (Suc (wr_lost x))
    | Inr _ \<Rightarrow> run_reaches h x ((wr_server x)\<lparr>ws_vfs := v\<rparr>) ((q, Running (Some root)) # js) (wr_lost x)"
proof -
  have m: "mounts_to (mount_work h ctx tree) (ws_vfs (wr_server x)) r [] v"
    using assms(1) mount_recursive_steps(1) by (simp add: mount_local_def mount_work_def)
  show ?thesis
  proof (cases r)
    case (Inl e)
    then obtain ws' v' where st: "mount_steps (mount_work h ctx tree, ws_vfs (wr_server x)) (ws', v')"
      and err: "mount_next ws' v' = (Inl e, v)"
      using m by (auto simp: mounts_to_def)
    let ?y = "x\<lparr>wr_server := (wr_server x)\<lparr>ws_vfs := v'\<rparr>, wr_jobs := (q, Mounting root ws') # js\<rparr>"
    have "(worker_step h)\<^sup>*\<^sup>* x ?y" by (rule mount_job_steps[OF st assms(2) refl])
    moreover have "worker_step h ?y (lose_job q (Mounting root ws') (?y\<lparr>wr_server := (wr_server ?y)\<lparr>ws_vfs := v\<rparr>\<rparr>))"
      using err by (intro mount_error[where e = e]) auto
    ultimately have "(worker_step h)\<^sup>*\<^sup>* x (lose_job q (Mounting root ws') (?y\<lparr>wr_server := (wr_server ?y)\<lparr>ws_vfs := v\<rparr>\<rparr>))"
      by (rule rtranclp.rtrancl_into_rtrancl)
    then show ?thesis unfolding Inl sum.case by (rule run_reaches_steps) (simp_all add: lose_job_def)
  next
    case (Inr u)
    let ?y = "x\<lparr>wr_server := (wr_server x)\<lparr>ws_vfs := v\<rparr>, wr_jobs := (q, Mounting root []) # js\<rparr>"
    have "(worker_step h)\<^sup>*\<^sup>* x ?y"
      using m Inr by (intro mount_job_steps[OF _ assms(2) refl]) (simp add: mounts_to_def)
    moreover have "worker_step h ?y (move_job q (Mounting root []) (Running (Some root)) ?y)"
      by (intro mount_done) simp
    ultimately have "(worker_step h)\<^sup>*\<^sup>* x (move_job q (Mounting root []) (Running (Some root)) ?y)"
      by (rule rtranclp.rtrancl_into_rtrancl)
    then show ?thesis unfolding Inr sum.case by (rule run_reaches_steps) (simp_all add: move_job_def)
  qed
qed

text \<open>A fresh directory is a new one.\<close>

definition host_ok :: "'f host \<Rightarrow> worker_server \<Rightarrow> bool" where
  "host_ok h s \<longleftrightarrow> (\<forall>p d. fresh_dir h p = Some d \<longrightarrow> d \<notin> set (ws_temp_dirs s))"

lemma unpack_steps:
  assumes "unpack_source h (source_prefix ctx) ctx (wr_server x) = (r, s')" "host_ok h (wr_server x)"
    and "wr_jobs x = (q, Counted) # js" "rq_source q = Some ctx"
  shows "case r of
      Inl _ \<Rightarrow> run_reaches h x s' js (Suc (wr_lost x))
    | Inr (root, tree) \<Rightarrow>
        run_reaches h x s' ((q, if wants_vfs ctx then Mounting root (mount_work h ctx tree) else Running (Some root)) # js) (wr_lost x)"
proof (cases "source_blob h ctx")
  case (Inl e)
  then have "worker_step h x (lose_job q Counted x)" using assms by (intro bad_source) auto
  then show ?thesis using assms Inl by (auto simp: unpack_source_def lose_job_def intro!: run_reaches_one)
next
  case (Inr blob)
  show ?thesis
  proof (cases "fresh_dir h (source_prefix ctx)")
    case None
    then have "worker_step h x (lose_job q Counted x)"
      using assms Inr by (intro no_dir[where e = "''no temporary directory''" and s' = "wr_server x"]) (auto simp: keep_dir_def)
    then show ?thesis using assms Inr None by (auto simp: unpack_source_def keep_dir_def lose_job_def intro!: run_reaches_one)
  next
    case (Some root)
    let ?s = "(wr_server x)\<lparr>ws_temp_dirs := root # ws_temp_dirs (wr_server x)\<rparr>"
    let ?y = "move_job q Counted (Unpacking root) (x\<lparr>wr_server := ?s\<rparr>)"
    have made: "worker_step h x ?y"
      using assms Inr Some by (intro make_dir) (auto simp: keep_dir_def host_ok_def)
    have y: "wr_jobs ?y = (q, Unpacking root) # js" "wr_server ?y = ?s" "wr_readers ?y = wr_readers x" "wr_lost ?y = wr_lost x"
      using assms(3) by (simp_all add: move_job_def)
    show ?thesis
    proof (cases "unpack_into h blob root")
      case (Inl e)
      then have "worker_step h ?y (lose_job q (Unpacking root) ?y)"
        using y assms Inr by (intro bad_archive) auto
      then have "run_reaches h ?y ?s js (Suc (wr_lost x))"
        by (rule run_reaches_one) (use y in \<open>simp_all add: lose_job_def\<close>)
      then show ?thesis
        using run_reaches_step[OF made y(3)] assms Inr Some Inl by (auto simp: unpack_source_def keep_dir_def)
    next
      case tree: (Inr tree)
      let ?p = "if wants_vfs ctx then Mounting root (mount_work h ctx tree) else Running (Some root)"
      have "worker_step h ?y (move_job q (Unpacking root) ?p ?y)"
        using y assms Inr tree by (intro unpacked) auto
      then have "run_reaches h ?y ?s ((q, ?p) # js) (wr_lost x)"
        by (rule run_reaches_one) (use y in \<open>simp_all add: move_job_def\<close>)
      then have "run_reaches h x ?s ((q, ?p) # js) (wr_lost x)" using run_reaches_step[OF made y(3)] by blast
      then show ?thesis using assms Inr Some tree by (auto simp: unpack_source_def keep_dir_def)
    qed
  qed
qed

lemma run_reaches_trans:
  assumes "run_reaches h x s js n" "\<And>y. wr_server y = s \<Longrightarrow> wr_jobs y = js \<Longrightarrow> wr_lost y = n \<Longrightarrow> run_reaches h y s' js' n'"
  shows "run_reaches h x s' js' n'"
proof -
  obtain y where y: "(worker_step h)\<^sup>*\<^sup>* x y" "wr_server y = s" "wr_jobs y = js" "wr_lost y = n" "wr_readers y = wr_readers x"
    using assms(1) unfolding run_reaches_def by blast
  obtain z where "(worker_step h)\<^sup>*\<^sup>* y z" "wr_server z = s'" "wr_jobs z = js'" "wr_lost z = n'" "wr_readers z = wr_readers y"
    using assms(2)[OF y(2-4)] unfolding run_reaches_def by blast
  then show ?thesis using y(5) rtranclp_trans[OF y(1)] by (intro run_reaches_steps[of h x z]) auto
qed

lemma materialize_steps:
  assumes "materialize_source h (rq_source q) (wr_server x) = (r, s')" "host_ok h (wr_server x)"
    and "wr_jobs x = (q, Counted) # js"
  shows "case r of
      Inl _ \<Rightarrow> run_reaches h x s' js (Suc (wr_lost x))
    | Inr dir \<Rightarrow> run_reaches h x s' ((q, Running dir) # js) (wr_lost x)"
proof (cases "rq_source q")
  case None
  then have "worker_step h x (move_job q Counted (Running None) x)" using assms(3) by (intro no_source) auto
  then show ?thesis using assms None by (auto simp: materialize_source_def move_job_def intro!: run_reaches_one)
next
  case (Some ctx)
  obtain u s1 where u: "unpack_source h (source_prefix ctx) ctx (wr_server x) = (u, s1)" by fastforce
  note steps = unpack_steps[OF u assms(2,3) Some]
  show ?thesis
  proof (cases "wants_vfs ctx")
    case False
    then show ?thesis
      using u steps assms(1) Some
      by (auto simp: materialize_source_def source_prefix_def wants_vfs_def split: sum.splits prod.splits)
  next
    case True
    show ?thesis
    proof (cases u)
      case (Inl e)
      then show ?thesis
        using u steps assms(1) Some True
        by (auto simp: materialize_source_def unpack_source_to_vfs_def source_prefix_def wants_vfs_def)
    next
      case (Inr rt)
      obtain root tree where rt: "rt = (root, tree)" by fastforce
      let ?m = "as_vfs_path h (case src_vfs_mount ctx of None \<Rightarrow> ''/vfs'' | Some m \<Rightarrow> m)"
      obtain m v where m: "mount_local (Some tree) ?m (ws_vfs s1) = (m, v)" by fastforce
      have mat: "(r, s') = (case m of Inl e \<Rightarrow> Inl (vfs_error_text h e) | Inr _ \<Rightarrow> Inr (Some root), s1\<lparr>ws_vfs := v\<rparr>)"
        using u m assms(1) Some True Inr rt
        by (auto simp: materialize_source_def unpack_source_to_vfs_def source_prefix_def wants_vfs_def Let_def
            split: sum.splits)
      have start: "run_reaches h x s1 ((q, Mounting root (mount_work h ctx tree)) # js) (wr_lost x)"
        using steps Inr rt True by simp
      have mount: "case m of
          Inl _ \<Rightarrow> run_reaches h y (s1\<lparr>ws_vfs := v\<rparr>) js (Suc (wr_lost x))
        | Inr _ \<Rightarrow> run_reaches h y (s1\<lparr>ws_vfs := v\<rparr>) ((q, Running (Some root)) # js) (wr_lost x)"
        if "wr_server y = s1" "wr_jobs y = (q, Mounting root (mount_work h ctx tree)) # js" "wr_lost y = wr_lost x" for y
        using mount_local_steps[of tree h ctx y m v q root js] m that by (cases m) auto
      show ?thesis
      proof (cases m)
        case (Inl e)
        then show ?thesis using mat run_reaches_trans[OF start] mount by simp
      next
        case (Inr u)
        then show ?thesis using mat run_reaches_trans[OF start] mount by simp
      qed
    qed
  qed
qed

lemma vfs_steps_stream:
  assumes "vfs_step\<^sup>*\<^sup>* (v, rs) (v', rs')" "ws_vfs (wr_server x) = v" "wr_readers x = rs"
  shows "(worker_step h)\<^sup>*\<^sup>* x (x\<lparr>wr_server := (wr_server x)\<lparr>ws_vfs := v'\<rparr>, wr_readers := rs'\<rparr>)"
  using assms(1)
proof (induction rule: rtranclp_induct2)
  case refl
  have "x\<lparr>wr_server := (wr_server x)\<lparr>ws_vfs := v\<rparr>, wr_readers := rs\<rparr> = x"
    by (rule worker_run.equality) (simp_all add: assms(2,3)[symmetric])
  then show ?case by simp
next
  case (step v1 rs1 v2 rs2)
  let ?x = "x\<lparr>wr_server := (wr_server x)\<lparr>ws_vfs := v1\<rparr>, wr_readers := rs1\<rparr>"
  have "worker_step h ?x (?x\<lparr>wr_server := (wr_server ?x)\<lparr>ws_vfs := v2\<rparr>, wr_readers := rs2\<rparr>)"
    using step(2) by (intro stream) simp
  then show ?case using step(3) by simp
qed

lemma handle_vfs_steps:
  assumes "handle_vfs h q (wr_server x) = Some (a, s')"
  shows "run_reaches h x s' (wr_jobs x) (wr_lost x)"
proof (cases "unauthorized (wr_server x) (vq_auth_token q)")
  case True
  then show ?thesis using assms run_reaches_refl by (auto simp: handle_vfs_def)
next
  case False
  obtain r v where rd: "read_file (as_vfs_path h (vq_file_path q)) (ws_vfs (wr_server x)) = Some (r, v)"
    using assms False by (auto simp: handle_vfs_def Let_def split: option.splits)
  then have s': "s' = (wr_server x)\<lparr>ws_vfs := v\<rparr>"
    using assms False by (auto simp: handle_vfs_def Let_def split: sum.splits)
  show ?thesis
    by (rule run_reaches_steps[OF vfs_steps_stream[OF read_file_steps[OF rd] refl refl]]) (simp_all add: s')
qed

text \<open>A task that is handled while nothing else happens: its steps in a row.\<close>

lemma handle_task_steps:
  assumes "handle_task h q (wr_server x) = (r, s')" "host_ok h (wr_server x)"
  shows "run_reaches h x s' (wr_jobs x) (case r of Inl _ \<Rightarrow> Suc (wr_lost x) | Inr _ \<Rightarrow> wr_lost x)"
proof (cases "unauthorized (wr_server x) (rq_auth_token q)")
  case True
  then show ?thesis using assms(1) run_reaches_refl by (auto simp: handle_task_def)
next
  case False
  let ?x = "x\<lparr>wr_server := job_started (wr_server x), wr_jobs := (q, Counted) # wr_jobs x\<rparr>"
  have acc: "worker_step h x ?x" using False by (rule accept)
  obtain m s1 where m: "materialize_source h (rq_source q) (job_started (wr_server x)) = (m, s1)" by fastforce
  have "host_ok h (wr_server ?x)" using assms(2) by (simp add: host_ok_def job_started_def)
  then have steps: "case m of
      Inl _ \<Rightarrow> run_reaches h ?x s1 (wr_jobs x) (Suc (wr_lost x))
    | Inr dir \<Rightarrow> run_reaches h ?x s1 ((q, Running dir) # wr_jobs x) (wr_lost x)"
    using materialize_steps[of h q ?x m s1] m by (auto split: sum.splits)
  show ?thesis
  proof (cases m)
    case (Inl e)
    then show ?thesis using steps m assms(1) False run_reaches_step[OF acc] by (auto simp: handle_task_def)
  next
    case (Inr dir)
    have rs: "s' = job_finished (drop_dir h dir s1) \<and> (\<exists>out. r = Inr out)"
      using m assms(1) False Inr by (auto simp: handle_task_def Let_def)
    have "run_reaches h y (job_finished (drop_dir h dir s1)) (wr_jobs x) (wr_lost x)"
      if y: "wr_server y = s1" "wr_jobs y = (q, Running dir) # wr_jobs x" "wr_lost y = wr_lost x" for y
    proof -
      obtain z where z: "worker_step h y z" "wr_server z = drop_dir h dir s1" "wr_jobs z = (q, Cleaned) # wr_jobs x"
        "wr_lost z = wr_lost x" "wr_readers z = wr_readers y"
      proof (cases "dir = None \<or> (\<exists>d. dir = Some d \<and> removable h d)")
        case True
        then show ?thesis using y by (intro that[OF clean[of q dir]]) (auto simp: move_job_def)
      next
        case False
        then obtain d where "dir = Some d" "\<not> removable h d" by (cases dir) auto
        then show ?thesis using y by (intro that[OF clean_fails[of q d]]) (auto simp: move_job_def)
      qed
      have "worker_step h z (z\<lparr>wr_server := job_finished (wr_server z), wr_jobs := remove1 (q, Cleaned) (wr_jobs z)\<rparr>)"
        using z(3) by (intro finish) simp
      then have "run_reaches h z (job_finished (drop_dir h dir s1)) (wr_jobs x) (wr_lost x)"
        by (rule run_reaches_one) (simp_all add: z)
      then show ?thesis using run_reaches_step[OF z(1,5)] by blast
    qed
    then have "run_reaches h ?x (job_finished (drop_dir h dir s1)) (wr_jobs x) (wr_lost x)"
      using steps Inr by (auto intro: run_reaches_trans)
    then show ?thesis using run_reaches_step[OF acc] rs by auto
  qed
qed

lemma handle_connection_steps:
  assumes "host_ok h (wr_server x)"
  shows "\<exists>n. run_reaches h x (snd (handle_connection w h i (wr_server x))) (wr_jobs x) n"
proof (cases "\<exists>l q. i = Line l \<and> as_task w l = Some q")
  case True
  then obtain l q r s' where "i = Line l" "as_task w l = Some q" "handle_task h q (wr_server x) = (r, s')"
    by (metis surj_pair)
  then show ?thesis
    using handle_task_steps[of h q x r s'] assms
    by (intro exI[of _ "case r of Inl _ \<Rightarrow> Suc (wr_lost x) | Inr _ \<Rightarrow> wr_lost x"])
      (simp add: handle_connection_def split: sum.splits)
next
  case no_task: False
  show ?thesis
  proof (cases "\<exists>l q a s'. i = Line l \<and> as_vfs w l = Some q \<and> handle_vfs h q (wr_server x) = Some (a, s')")
    case True
    then obtain l q a s' where i: "i = Line l" "as_vfs w l = Some q" "handle_vfs h q (wr_server x) = Some (a, s')"
      by blast
    then have "snd (handle_connection w h i (wr_server x)) = s'"
      using no_task by (auto simp: handle_connection_def split: option.splits)
    then show ?thesis using handle_vfs_steps[OF i(3)] by auto
  next
    case False
    then have "snd (handle_connection w h i (wr_server x)) = wr_server x"
      using no_task by (auto simp: handle_connection_def split: incoming.splits option.splits)
    then show ?thesis using run_reaches_refl[of h x] by auto
  qed
qed

subsection \<open>Accounting\<close>

definition dirs_of :: "job list \<Rightarrow> string list" where
  "dirs_of js = List.map_filter (\<lambda>j. phase_dir (snd j)) js"

definition worker_inv :: "worker_run \<Rightarrow> bool" where
  "worker_inv x \<longleftrightarrow>
     ws_active_jobs (wr_server x) = (length (wr_jobs x) + wr_lost x) mod (u64_max + 1) \<and>
     mset (ws_temp_dirs (wr_server x)) = mset (dirs_of (wr_jobs x)) + mset (wr_abandoned x) \<and>
     distinct (ws_temp_dirs (wr_server x)) \<and>
     length (wr_abandoned x) \<le> wr_lost x + wr_stuck x \<and>
     vfs_inv (ws_vfs (wr_server x))"

lemma dirs_of_Cons [simp]:
  "dirs_of [] = []"
  "dirs_of ((q, a) # js) = (case phase_dir a of None \<Rightarrow> [] | Some d \<Rightarrow> [d]) @ dirs_of js"
  by (auto simp: dirs_of_def List.map_filter_simps split: option.splits)

lemma dirs_of_remove1:
  "(q, a) \<in> set js \<Longrightarrow>
     mset (dirs_of js) = mset (case phase_dir a of None \<Rightarrow> [] | Some d \<Rightarrow> [d]) + mset (dirs_of (remove1 (q, a) js))"
proof (induction js)
  case (Cons j js)
  then show ?case by (cases j) auto
qed simp

lemma length_jobs_remove1:
  "j \<in> set js \<Longrightarrow> length js = Suc (length (remove1 j js))"
  by (metis One_nat_def Suc_pred length_pos_if_in_set length_remove1)

lemma active_jobs_wrap:
  "(n mod (m + 1) + 1) mod (m + 1) = Suc n mod (m + (1::nat))"
  "(Suc n mod (m + 1) + m) mod (m + 1) = n mod (m + (1::nat))"
proof -
  show "(n mod (m + 1) + 1) mod (m + 1) = Suc n mod (m + 1)"
    by (metis mod_add_left_eq Suc_eq_plus1)
  have "Suc n + m = n + (m + 1)" by simp
  then show "(Suc n mod (m + 1) + m) mod (m + 1) = n mod (m + 1)"
    by (metis mod_add_left_eq mod_add_self2)
qed

lemma mount_next_inv:
  "mount_next ws v = (r, v') \<Longrightarrow> vfs_inv v \<Longrightarrow> vfs_inv v'"
  by (induction ws v rule: mount_next.induct)
    (auto split: option.splits prod.splits sum.splits dest: vfs_inv_write)

lemma worker_inv_move:
  assumes "worker_inv x" "(q, a) \<in> set (wr_jobs x)" "phase_dir b = phase_dir a"
  shows "worker_inv (move_job q a b x)"
  using assms dirs_of_remove1[OF assms(2)] length_jobs_remove1[OF assms(2)]
  by (simp add: worker_inv_def move_job_def)

lemma worker_inv_lose:
  assumes "worker_inv x" "(q, a) \<in> set (wr_jobs x)"
  shows "worker_inv (lose_job q a x)"
  using assms dirs_of_remove1[OF assms(2)] length_jobs_remove1[OF assms(2)]
  by (auto simp: worker_inv_def lose_job_def split: option.splits)

lemma worker_inv_vfs:
  assumes "worker_inv x" "vfs_inv v"
  shows "worker_inv (x\<lparr>wr_server := (wr_server x)\<lparr>ws_vfs := v\<rparr>\<rparr>)"
  using assms by (simp add: worker_inv_def)

lemma worker_inv_make_dir:
  assumes "worker_inv x" "(q, Counted) \<in> set (wr_jobs x)" "root \<notin> set (ws_temp_dirs (wr_server x))"
    and "keep_dir h name (wr_server x) = (Inr root, s')"
  shows "worker_inv (move_job q Counted (Unpacking root) (x\<lparr>wr_server := s'\<rparr>))"
  using assms dirs_of_remove1[OF assms(2)] length_jobs_remove1[OF assms(2)]
  by (auto simp: worker_inv_def move_job_def keep_dir_def split: option.splits)

lemma worker_inv_clean:
  assumes "worker_inv x" "(q, Running (Some d)) \<in> set (wr_jobs x)"
  shows "removable h d \<Longrightarrow>
      worker_inv (move_job q (Running (Some d)) Cleaned (x\<lparr>wr_server := drop_dir h (Some d) (wr_server x)\<rparr>))"
    and "\<not> removable h d \<Longrightarrow>
      worker_inv (move_job q (Running (Some d)) Cleaned
        (x\<lparr>wr_server := drop_dir h (Some d) (wr_server x), wr_abandoned := d # wr_abandoned x, wr_stuck := Suc (wr_stuck x)\<rparr>))"
  using assms dirs_of_remove1[OF assms(2)] length_jobs_remove1[OF assms(2)]
  by (auto simp: worker_inv_def move_job_def drop_dir_def distinct_remove1_removeAll[symmetric])

lemma worker_inv_step:
  assumes "worker_step h x y" "worker_inv x"
  shows "worker_inv y"
  using assms
proof (cases rule: worker_step.cases)
  case (accept q)
  then show ?thesis
    using assms(2) active_jobs_wrap(1) by (simp add: worker_inv_def job_started_def)
next
  case (no_source q)
  then show ?thesis using worker_inv_move assms(2) by simp
next
  case (make_dir q ctx blob root s')
  then show ?thesis using worker_inv_make_dir assms(2) by blast
next
  case (unpacked q root ctx blob tree)
  then show ?thesis using worker_inv_move[OF assms(2) unpacked(2)] by simp
next
  case (mount_entry q root ws ws' v')
  then have "vfs_inv v'" using mount_next_inv assms(2) by (auto simp: worker_inv_def)
  then show ?thesis using mount_entry worker_inv_move worker_inv_vfs assms(2) by simp
next
  case (mount_error q root ws e v')
  then have "vfs_inv v'" using mount_next_inv assms(2) by (auto simp: worker_inv_def)
  then show ?thesis using mount_error worker_inv_lose worker_inv_vfs assms(2) by simp
next
  case (mount_done q root)
  then show ?thesis using worker_inv_move assms(2) by simp
next
  case (clean q dir)
  show ?thesis
  proof (cases dir)
    case None
    then show ?thesis using clean worker_inv_move[OF assms(2), of q "Running None" Cleaned] by (simp add: drop_dir_def)
  next
    case (Some d)
    then show ?thesis using clean worker_inv_clean(1)[OF assms(2)] by simp
  qed
next
  case (clean_fails q d)
  then show ?thesis using worker_inv_clean(2)[OF assms(2)] by simp
next
  case (finish q)
  then have len: "length (wr_jobs x) = Suc (length (remove1 (q, Cleaned) (wr_jobs x)))"
    by (simp only: length_jobs_remove1)
  show ?thesis
    using finish assms(2) active_jobs_wrap(2) dirs_of_remove1[OF finish(2)] unfolding worker_inv_def len
    by (simp add: job_finished_def)
next
  case (stream v' rs')
  then have "vfs_inv v'" using vfs_inv_step assms(2) by (auto simp: worker_inv_def)
  then show ?thesis using stream assms(2) by (simp add: worker_inv_def)
qed (use worker_inv_lose in simp_all)

lemma worker_inv_steps:
  assumes "worker_steps x y" "worker_inv x"
  shows "worker_inv y"
  using assms(1) unfolding worker_steps_def
  by (induction rule: rtranclp_induct) (use assms(2) worker_inv_step in blast)+

lemma worker_inv_start: "worker_inv (idle_worker (worker_with_options token name n))"
  by (simp add: worker_inv_def idle_worker_def worker_with_options_def vfs_inv_new)

text \<open>
  C32. Whatever the order in which connections are accepted, their sources unpacked and mounted,
  their processes run, their directories removed (or not) and files read, the number of active jobs
  a worker reports counts, modulo the width of the counter, the jobs between \<open>fetch_add\<close> and
  \<open>fetch_sub\<close> and, for ever, those that were given up because of their sources. No two jobs share a
  directory; the directories on disk are exactly those of the jobs and those that were abandoned,
  and at most one is abandoned for each job given up and each removal that failed. So a worker that
  has given up nothing and could remove everything reports no job and leaves no directory behind
  when nothing runs.
\<close>

theorem worker_accounting:
  assumes "worker_steps (idle_worker (worker_with_options token name n)) x"
  shows "ws_active_jobs (wr_server x) = (length (wr_jobs x) + wr_lost x) mod (u64_max + 1) \<and>
    distinct (dirs_of (wr_jobs x) @ wr_abandoned x) \<and>
    set (ws_temp_dirs (wr_server x)) = set (dirs_of (wr_jobs x)) \<union> set (wr_abandoned x) \<and>
    length (wr_abandoned x) \<le> wr_lost x + wr_stuck x \<and> vfs_inv (ws_vfs (wr_server x)) \<and>
    (wr_jobs x = [] \<and> wr_lost x = 0 \<and> wr_stuck x = 0 \<longrightarrow>
       ws_active_jobs (wr_server x) = 0 \<and> ws_temp_dirs (wr_server x) = [])"
proof -
  have inv: "worker_inv x" by (rule worker_inv_steps[OF assms worker_inv_start])
  then have m: "mset (ws_temp_dirs (wr_server x)) = mset (dirs_of (wr_jobs x) @ wr_abandoned x)"
    by (simp add: worker_inv_def)
  have "distinct (dirs_of (wr_jobs x) @ wr_abandoned x)"
    using inv mset_eq_imp_distinct_iff[OF m] by (simp add: worker_inv_def)
  moreover have "set (ws_temp_dirs (wr_server x)) = set (dirs_of (wr_jobs x)) \<union> set (wr_abandoned x)"
    using mset_eq_setD[OF m] by simp
  ultimately show ?thesis using inv m by (auto simp: worker_inv_def)
qed

subsection \<open>Instances\<close>

text \<open>A wire whose lines are the messages themselves, and a host on which every program prints its name.\<close>

datatype message =
    M_Task remote_task_request | M_Vfs vfs_file_request | M_Ping "string option"
  | M_Task_Answer remote_task_response | M_Vfs_Answer vfs_file_response | M_Ping_Answer "unit ping_response"

definition plain_wire :: "(message, unit) wire" where
  "plain_wire =
     \<lparr>task_line = (\<lambda>q. Some (M_Task q)), vfs_line = (\<lambda>q. Some (M_Vfs q)), ping_line = (\<lambda>t. Some (M_Ping t)),
      as_task = (\<lambda>m. case m of M_Task q \<Rightarrow> Some q | _ \<Rightarrow> None),
      as_vfs = (\<lambda>m. case m of M_Vfs q \<Rightarrow> Some q | _ \<Rightarrow> None),
      as_ping = (\<lambda>m. case m of M_Ping t \<Rightarrow> Some t | _ \<Rightarrow> None),
      task_answer = (\<lambda>r. Some (M_Task_Answer r)), vfs_answer = (\<lambda>r. Some (M_Vfs_Answer r)),
      ping_answer = (\<lambda>r. Some (M_Ping_Answer r)),
      as_task_answer = (\<lambda>m. case m of M_Task_Answer r \<Rightarrow> Some r | _ \<Rightarrow> None),
      as_vfs_answer = (\<lambda>m. case m of M_Vfs_Answer r \<Rightarrow> Some r | _ \<Rightarrow> None),
      as_ping_answer = (\<lambda>m. case m of M_Ping_Answer r \<Rightarrow> Some r | _ \<Rightarrow> None)\<rparr>"

lemma plain_wire_ok: "wire_ok plain_wire"
  by (simp add: wire_ok_def plain_wire_def)

definition echo_host :: "unit host" where
  "echo_host =
     \<lparr>decode_base64 = (\<lambda>_. None), encode_base64 = (\<lambda>_. []), fresh_dir = (\<lambda>_. Some ''/tmp/x''),
      unpack_into = (\<lambda>_ _. Inl ''bad archive''), removable = (\<lambda>_. True),
      run_process = (\<lambda>t _. Inr (outcome_executed\<lparr>stdout := program (spec t)\<rparr>)),
      error_text = (\<lambda>_. ''error''), vfs_error_text = (\<lambda>_. ''error''), as_vfs_path = (\<lambda>s. [Utf8 s]),
      job_millis = 1, uptime_secs = 1, load_pct = (\<lambda>_ _. ())\<rparr>"

definition echo_task :: task where
  "echo_task = new_task ''t'' ''t'' (new_command ''ls'')"

definition no_pack :: client_host where
  "no_pack = \<lparr>is_dir_at = (\<lambda>_. False), pack_tree_at = (\<lambda>_. Inl ''none''), to_base64 = (\<lambda>_. [])\<rparr>"

theorem remote_execution_correct_witness:
  "\<exists>out. send_task plain_wire no_pack (new_client ''w:1'' (Some ''s'')) (worker_connection plain_wire echo_host (new_worker (Some ''s''))) echo_task
      = Inr out \<and> stdout out = ''ls'' \<and> status out = Run_Executed"
proof -
  have "\<not> pack_source (new_client ''w:1'' (Some ''s''))" by (simp add: new_client_def)
  moreover have "\<not> unauthorized (new_worker (Some ''s'')) (client_token (new_client ''w:1'' (Some ''s'')))"
    by (simp add: unauthorized_def new_worker_def worker_with_options_def new_client_def)
  moreover have "run_process echo_host (as_run_remotely echo_task) to = Inr (outcome_executed\<lparr>stdout := ''ls''\<rparr>)" for to
    by (simp add: echo_host_def as_run_remotely_def echo_task_def new_task_def new_command_def)
  ultimately show ?thesis
    using remote_execution_correct[OF plain_wire_ok, of "new_client ''w:1'' (Some ''s'')" "new_worker (Some ''s'')" echo_host echo_task no_pack]
    by (auto simp: outcome_executed_def)
qed

text \<open>A request whose source is no base64 is never forgotten.\<close>

definition bad_request :: remote_task_request where
  "bad_request =
     \<lparr>rq_task_id = ''t'', rq_command = ''ls'', rq_args = [], rq_env = Map.empty, rq_cwd = None, rq_auth_token = None,
      rq_timeout_secs = None,
      rq_source = Some \<lparr>src_root = ''/r'', src_data = ''?'', src_format = ''tar.zst'', src_use_vfs = None, src_vfs_mount = None\<rparr>\<rparr>"

definition lost_worker :: worker_run where
  "lost_worker =
     lose_job bad_request Counted
       ((idle_worker (worker_with_options None ''w'' 8))\<lparr>
          wr_server := job_started (worker_with_options None ''w'' 8), wr_jobs := [(bad_request, Counted)]\<rparr>)"

theorem worker_accounting_witness:
  "worker_steps (idle_worker (worker_with_options None ''w'' 8)) lost_worker \<and>
   wr_jobs lost_worker = [] \<and> ws_active_jobs (wr_server lost_worker) = 1"
proof -
  let ?x = "idle_worker (worker_with_options None ''w'' 8)"
  let ?y = "?x\<lparr>wr_server := job_started (wr_server ?x), wr_jobs := (bad_request, Counted) # wr_jobs ?x\<rparr>"
  let ?c = "\<lparr>src_root = ''/r'', src_data = ''?'', src_format = ''tar.zst'', src_use_vfs = None, src_vfs_mount = None\<rparr>"
  have "worker_step echo_host ?x ?y"
    by (rule accept) (simp add: unauthorized_def idle_worker_def worker_with_options_def)
  moreover have "worker_step echo_host ?y (lose_job bad_request Counted ?y)"
    by (rule bad_source[where ctx = ?c and e = "''invalid base64''"])
      (simp_all add: bad_request_def source_blob_def echo_host_def)
  moreover have "lose_job bad_request Counted ?y = lost_worker"
    by (simp add: lost_worker_def idle_worker_def)
  ultimately have steps: "worker_steps ?x lost_worker"
    unfolding worker_steps_def by (auto intro: converse_rtranclp_into_rtranclp)
  have "wr_jobs lost_worker = [] \<and> wr_lost lost_worker = 1"
    by (simp add: lost_worker_def lose_job_def idle_worker_def)
  then show ?thesis
    using steps worker_accounting[OF steps] by (simp add: u64_max_def)
qed

end
