(* ===== verification/Cluster.thy ===== *)
theory Cluster
  imports Remote_Worker "HOL-Library.Product_Lexorder"
begin

text \<open>
  A cluster of remote workers, \<open>fish-worker/src/cluster.rs\<close>: the circuit breaker, the order in which
  workers are tried, and the executor that falls through them to a local one. What the workers
  answer and the clock are arguments; the clock stands still while an order is computed.
\<close>

unbundle bit_operations_syntax

subsection \<open>The circuit breaker\<close>

record circuit_breaker =
  failure_counts :: "(string, nat \<times> nat) hash_map"
  failure_threshold :: nat
  cooldown :: nat

definition new_breaker :: "nat \<Rightarrow> nat \<Rightarrow> circuit_breaker" where
  "new_breaker threshold cool = \<lparr>failure_counts = [], failure_threshold = threshold, cooldown = cool\<rparr>"

text \<open>Times are in nanoseconds.\<close>

definition default_breaker :: circuit_breaker where
  "default_breaker = new_breaker 3 (10 * 10 ^ 9)"

definition record_failure :: "nat \<Rightarrow> string \<Rightarrow> circuit_breaker \<Rightarrow> circuit_breaker" where
  "record_failure now addr b =
     (let (n, _) = (case hm_get (failure_counts b) addr of Some e \<Rightarrow> e | None \<Rightarrow> (0, now))
      in b\<lparr>failure_counts := hm_insert addr (saturating_add n 1, now) (failure_counts b)\<rparr>)"

definition record_success :: "string \<Rightarrow> circuit_breaker \<Rightarrow> circuit_breaker" where
  "record_success addr b = b\<lparr>failure_counts := hm_remove addr (failure_counts b)\<rparr>"

definition is_degraded :: "nat \<Rightarrow> circuit_breaker \<Rightarrow> string \<Rightarrow> bool" where
  "is_degraded now b addr =
     (case hm_get (failure_counts b) addr of
        Some (n, last_failure) \<Rightarrow> failure_threshold b \<le> n \<and> now - last_failure < cooldown b
      | None \<Rightarrow> False)"

definition failure_count :: "circuit_breaker \<Rightarrow> string \<Rightarrow> nat" where
  "failure_count b addr = (case hm_get (failure_counts b) addr of Some (n, _) \<Rightarrow> n | None \<Rightarrow> 0)"

subsection \<open>Clusters\<close>

datatype load_balancing = Round_Robin | Least_Loaded | Random_Start

type_synonym executor = "task \<Rightarrow> executor_error + task_outcome"

record cluster =
  cl_workers :: "worker_client list"
  cl_local :: "executor option"
  round_robin_idx :: "64 word"
  random_seed :: "64 word"
  failover_to_local :: bool
  strategy :: load_balancing
  breaker :: circuit_breaker

definition with_local_fallback :: "worker_client list \<Rightarrow> executor \<Rightarrow> cluster" where
  "with_local_fallback ws local =
     \<lparr>cl_workers = ws, cl_local = Some local, round_robin_idx = 0, random_seed = 123456789,
      failover_to_local = True, strategy = Round_Robin, breaker = default_breaker\<rparr>"

text \<open>\<open>new\<close> falls back to the default process executor, here an argument.\<close>

definition new_cluster :: "worker_client list \<Rightarrow> executor \<Rightarrow> cluster" where
  "new_cluster ws process_executor =
     \<lparr>cl_workers = ws, cl_local = Some process_executor, round_robin_idx = 0, random_seed = 123456789,
      failover_to_local = True, strategy = Round_Robin, breaker = default_breaker\<rparr>"

definition without_fallback :: "worker_client list \<Rightarrow> cluster" where
  "without_fallback ws =
     \<lparr>cl_workers = ws, cl_local = None, round_robin_idx = 0, random_seed = 123456789,
      failover_to_local = False, strategy = Round_Robin, breaker = default_breaker\<rparr>"

definition with_strategy :: "load_balancing \<Rightarrow> cluster \<Rightarrow> cluster" where
  "with_strategy st c = c\<lparr>strategy := st\<rparr>"

definition with_circuit_breaker :: "nat \<Rightarrow> nat \<Rightarrow> cluster \<Rightarrow> cluster" where
  "with_circuit_breaker threshold cool c = c\<lparr>breaker := new_breaker threshold cool\<rparr>"

definition with_source_packaging :: "cluster \<Rightarrow> cluster" where
  "with_source_packaging c = c\<lparr>cl_workers := map (\<lambda>w. w\<lparr>pack_source := True\<rparr>) (cl_workers c)\<rparr>"

definition with_vfs :: "bool \<Rightarrow> cluster \<Rightarrow> cluster" where
  "with_vfs on c = c\<lparr>cl_workers := map (\<lambda>w. w\<lparr>use_vfs := on\<rparr>) (cl_workers c)\<rparr>"

definition worker_count :: "cluster \<Rightarrow> nat" where
  "worker_count c = length (cl_workers c)"

text \<open>What a ping of each worker answers, by its index: its number of active jobs, or nothing.\<close>

type_synonym pings = "nat \<Rightarrow> nat option"

definition healthy_workers :: "nat \<Rightarrow> pings \<Rightarrow> cluster \<Rightarrow> worker_client list" where
  "healthy_workers now ping c =
     map snd (filter (\<lambda>(i, w). \<not> is_degraded now (breaker c) (server_addr w) \<and> ping i \<noteq> None)
       (enumerate 0 (cl_workers c)))"

definition mix_seed :: "64 word \<Rightarrow> 64 word" where
  "mix_seed prev =
     (let x = prev XOR drop_bit 30 prev;
          x = x * 0xBF58476D1CE4E5B9;
          x = x XOR drop_bit 27 x;
          x = x * 0x94D049BB133111EB
      in x XOR drop_bit 31 x)"

definition next_random_index :: "nat \<Rightarrow> cluster \<Rightarrow> nat \<times> cluster" where
  "next_random_index max_index c =
     (if max_index \<le> 1 then (0, c)
      else let prev = random_seed c
           in (unat (mix_seed prev) mod max_index, c\<lparr>random_seed := prev + 0x9E3779B97F4A7C15\<rparr>))"

definition rotation :: "nat \<Rightarrow> nat \<Rightarrow> nat list" where
  "rotation start n = map (\<lambda>offset. (start + offset) mod n) [0..<n]"

definition worker_load :: "pings \<Rightarrow> cluster \<Rightarrow> nat \<Rightarrow> nat \<times> nat" where
  "worker_load ping c i =
     (failure_count (breaker c) (server_addr (cl_workers c ! i)),
      case ping i of Some jobs \<Rightarrow> jobs | None \<Rightarrow> u64_max div 2)"

definition base_order :: "pings \<Rightarrow> cluster \<Rightarrow> nat list \<times> cluster" where
  "base_order ping c =
     (let n = worker_count c
      in case strategy c of
          Round_Robin \<Rightarrow>
            (rotation (unat (round_robin_idx c) mod n) n, c\<lparr>round_robin_idx := round_robin_idx c + 1\<rparr>)
        | Least_Loaded \<Rightarrow> (sort_key (worker_load ping c) [0..<n], c)
        | Random_Start \<Rightarrow> (let (start, c') = next_random_index n c in (rotation start n, c')))"

definition select_candidate_indices :: "nat \<Rightarrow> pings \<Rightarrow> cluster \<Rightarrow> nat list \<times> cluster" where
  "select_candidate_indices now ping c =
     (if worker_count c = 0 then ([], c)
      else let (indices, c') = base_order ping c
           in (sort_key (\<lambda>i. if is_degraded now (breaker c) (server_addr (cl_workers c ! i)) then 1 else 0 :: nat) indices, c'))"

text \<open>
  The loop over the candidates: \<open>clock\<close> is the time at which the failure of an attempt is recorded,
  \<open>run\<close> what each worker answers.
\<close>

fun try_candidates ::
  "(nat \<Rightarrow> nat) \<Rightarrow> (nat \<Rightarrow> executor) \<Rightarrow> task \<Rightarrow> nat \<Rightarrow> nat list \<Rightarrow> cluster \<Rightarrow>
     (executor_error + task_outcome) option \<times> cluster" where
  "try_candidates clock run t attempt [] c = (None, c)"
| "try_candidates clock run t attempt (i # js) c =
     (let addr = server_addr (cl_workers c ! i)
      in case run i t of
          Inr outcome \<Rightarrow> (Some (Inr outcome), c\<lparr>breaker := record_success addr (breaker c)\<rparr>)
        | Inl e \<Rightarrow>
            let c' = c\<lparr>breaker := record_failure (clock attempt) addr (breaker c)\<rparr>
            in if js = [] \<and> \<not> failover_to_local c then (Some (Inl e), c')
               else try_candidates clock run t (Suc attempt) js c')"

definition cluster_execute ::
  "nat \<Rightarrow> pings \<Rightarrow> (nat \<Rightarrow> nat) \<Rightarrow> (nat \<Rightarrow> executor) \<Rightarrow> task \<Rightarrow> cluster \<Rightarrow> (executor_error + task_outcome) \<times> cluster" where
  "cluster_execute now ping clock run t c =
     (if cl_workers c = []
      then (case cl_local c of
              Some local \<Rightarrow> local t
            | None \<Rightarrow> Inl (Spawn (label t) (Not_Found_Kind ''no remote workers configured and no local fallback'')), c)
      else let (candidates, c1) = select_candidate_indices now ping c
      in case try_candidates clock run t 0 candidates c1 of
          (Some r, c2) \<Rightarrow> (r, c2)
        | (None, c2) \<Rightarrow>
            (case cl_local c2 of
               Some local \<Rightarrow>
                 if failover_to_local c2 then local t
                 else Inl (Spawn (label t) (Connection_Refused ''all remote workers failed and local fallback unavailable''))
             | None \<Rightarrow> Inl (Spawn (label t) (Connection_Refused ''all remote workers failed and local fallback unavailable'')), c2))"

subsection \<open>The order of the workers\<close>

lemma rotation_permutes:
  assumes "start < n"
  shows "distinct (rotation start n) \<and> set (rotation start n) = {..<n}"
proof -
  have less: False if "a < b" "b < n" "(start + b) mod n = (start + a) mod n" for a b
    using that mod_eq_dvd_iff_nat[of "start + a" "start + b" n] nat_dvd_not_less[of "b - a" n] by auto
  have inj: "inj_on (\<lambda>k. (start + k) mod n) {..<n}"
    by (rule inj_onI) (metis less lessThan_iff nat_neq_iff)
  have "(\<lambda>k. (start + k) mod n) ` {..<n} = {..<n}"
    using assms inj by (intro endo_inj_surj) auto
  with inj show ?thesis
    by (simp add: rotation_def distinct_map lessThan_atLeast0)
qed

definition same_setup :: "cluster \<Rightarrow> cluster \<Rightarrow> bool" where
  "same_setup c c' \<longleftrightarrow>
     cl_workers c' = cl_workers c \<and> cl_local c' = cl_local c \<and>
     failover_to_local c' = failover_to_local c \<and> strategy c' = strategy c"

lemma next_random_index_less:
  assumes "0 < n" "next_random_index n c = (start, c')"
  shows "start < n \<and> same_setup c c' \<and> breaker c' = breaker c"
  using assms by (auto simp: next_random_index_def Let_def same_setup_def split: if_splits)

lemma base_order_cases:
  assumes "0 < worker_count c" "base_order ping c = (js, c')"
  obtains start where "start < worker_count c"
    "js = (if strategy c = Least_Loaded then sort_key (worker_load ping c) [0..<worker_count c]
           else rotation start (worker_count c))"
    "strategy c = Round_Robin \<Longrightarrow> start = unat (round_robin_idx c) mod worker_count c"
    "same_setup c c'" "breaker c' = breaker c"
proof (cases "strategy c")
  case Round_Robin
  then show ?thesis
    using assms by (intro that[of "unat (round_robin_idx c) mod worker_count c"])
      (auto simp: base_order_def Let_def same_setup_def)
next
  case Least_Loaded
  then show ?thesis
    using assms by (intro that[of 0]) (auto simp: base_order_def Let_def same_setup_def)
next
  case Random_Start
  obtain start c1 where r: "next_random_index (worker_count c) c = (start, c1)" by force
  then have "js = rotation start (worker_count c)" "c' = c1"
    using assms(2) Random_Start by (auto simp: base_order_def Let_def)
  then show ?thesis
    using next_random_index_less[OF assms(1) r] Random_Start by (intro that[of start]) auto
qed

lemma sort_key_two:
  "sort_key (\<lambda>i. if bad i then 1 else 0 :: nat) xs = filter (\<lambda>i. \<not> bad i) xs @ filter bad xs"
proof (induction xs)
  case (Cons x xs)
  have "insort_key (\<lambda>i. if bad i then 1 else 0 :: nat) x (A @ B) = (if bad x then A @ x # B else x # A @ B)"
    if "\<forall>a \<in> set A. \<not> bad a" "\<forall>b \<in> set B. bad b" for A B
    using that by (induction A) (cases B; simp)+
  with Cons show ?case by simp
qed simp

lemma candidates_order:
  assumes "select_candidate_indices now ping c = (is, c')" "0 < worker_count c"
  shows "distinct is \<and> set is = {..<worker_count c} \<and>
    (\<exists>start < worker_count c.
       is = (let order = (if strategy c = Least_Loaded then sort_key (worker_load ping c) [0..<worker_count c]
                          else rotation start (worker_count c));
                 bad = (\<lambda>i. is_degraded now (breaker c) (server_addr (cl_workers c ! i)))
             in filter (\<lambda>i. \<not> bad i) order @ filter bad order) \<and>
       (strategy c = Round_Robin \<longrightarrow> start = unat (round_robin_idx c) mod worker_count c))"
proof -
  obtain js where base: "base_order ping c = (js, c')"
    and eq: "is = filter (\<lambda>i. \<not> is_degraded now (breaker c) (server_addr (cl_workers c ! i))) js @
               filter (\<lambda>i. is_degraded now (breaker c) (server_addr (cl_workers c ! i))) js"
    using assms by (auto simp: select_candidate_indices_def sort_key_two split: prod.splits)
  from base_order_cases[OF assms(2) base] obtain start where start: "start < worker_count c"
    "js = (if strategy c = Least_Loaded then sort_key (worker_load ping c) [0..<worker_count c]
           else rotation start (worker_count c))"
    "strategy c = Round_Robin \<Longrightarrow> start = unat (round_robin_idx c) mod worker_count c"
    by metis
  then have "distinct js" "set js = {..<worker_count c}"
    using rotation_permutes by auto
  then have "distinct is" "set is = {..<worker_count c}"
    unfolding eq by auto
  then show ?thesis using start eq unfolding Let_def by blast
qed

text \<open>
  Every worker is a candidate exactly once, the degraded ones after all others. Within the two
  groups the order is that of the strategy: the indices from the round-robin or random start on,
  around the end; or by failures, load and index.
\<close>

theorem candidates_correct:
  assumes "select_candidate_indices now ping c = (is, c')" "0 < worker_count c"
  shows "distinct is \<and> set is = {..<worker_count c} \<and>
    (\<exists>start < worker_count c.
       is = (let order = (if strategy c = Least_Loaded then sort_key (worker_load ping c) [0..<worker_count c]
                          else rotation start (worker_count c));
                 bad = (\<lambda>i. is_degraded now (breaker c) (server_addr (cl_workers c ! i)))
             in filter (\<lambda>i. \<not> bad i) order @ filter bad order) \<and>
       (strategy c = Round_Robin \<longrightarrow> start = unat (round_robin_idx c) mod worker_count c))"
  by (rule candidates_order[OF assms])

lemma candidates_setup:
  "select_candidate_indices now ping c = (is, c') \<Longrightarrow> same_setup c c' \<and> breaker c' = breaker c"
  by (cases "base_order ping c"; cases "worker_count c = 0")
    (auto simp: select_candidate_indices_def same_setup_def elim: base_order_cases)

subsection \<open>Execution\<close>

text \<open>
  The attempts up to the first success, or all of them: what is recorded of each.
\<close>

definition record_failures :: "(nat \<Rightarrow> nat) \<Rightarrow> nat \<Rightarrow> string list \<Rightarrow> circuit_breaker \<Rightarrow> circuit_breaker" where
  "record_failures clock k addrs b = foldl (\<lambda>b (j, a). record_failure (clock j) a b) b (enumerate k addrs)"

lemma record_failures_Cons:
  "record_failures clock k (a # as) b = record_failures clock (Suc k) as (record_failure (clock k) a b)"
  by (simp add: record_failures_def)

lemma try_candidates_spec:
  assumes "try_candidates clock run t k is c = (r, c')"
  shows "case List.find (\<lambda>i. \<exists>out. run i t = Inr out) is of
      Some i \<Rightarrow>
        r = Some (run i t) \<and>
        c' = c\<lparr>breaker := record_success (server_addr (cl_workers c ! i))
                (record_failures clock k (map (\<lambda>i. server_addr (cl_workers c ! i)) (takeWhile ((\<noteq>) i) is)) (breaker c))\<rparr>
    | None \<Rightarrow>
        r = (if is = [] \<or> failover_to_local c then None else Some (run (last is) t)) \<and>
        c' = c\<lparr>breaker := record_failures clock k (map (\<lambda>i. server_addr (cl_workers c ! i)) is) (breaker c)\<rparr>"
  using assms
proof (induction clock run t k "is" c arbitrary: r c' rule: try_candidates.induct)
  case (1 clock run t attempt c)
  then show ?case by (simp add: record_failures_def)
next
  case (2 clock run t k i js c)
  show ?case
  proof (cases "run i t")
    case (Inr out)
    then show ?thesis using 2(2) by (auto simp: Let_def record_failures_def)
  next
    case (Inl e)
    let ?c = "c\<lparr>breaker := record_failure (clock k) (server_addr (cl_workers c ! i)) (breaker c)\<rparr>"
    have ne: "List.find (\<lambda>i. \<exists>out. run i t = Inr out) js = Some x \<Longrightarrow> i \<noteq> x" for x
      using Inl by (auto simp: find_Some_iff)
    show ?thesis
    proof (cases "js = [] \<and> \<not> failover_to_local c")
      case True
      then show ?thesis using 2(2) Inl by (auto simp: Let_def record_failures_def)
    next
      case False
      then have "try_candidates clock run t (Suc k) js ?c = (r, c')"
        using 2(2) Inl unfolding try_candidates.simps Let_def if_not_P[OF False] by (simp add: if_not_P[OF False])
      from "2.IH"[OF refl Inl refl False this] show ?thesis
        using Inl False ne by (auto simp: record_failures_Cons split: option.splits)
    qed
  qed
qed

text \<open>
  C33. A task given to a cluster with workers is answered by the first candidate that does not fail,
  and if there is one it is answered; otherwise by the local executor, or with an error when there
  is none; without failover the error is that of the last candidate. The candidates before the
  answering one are charged with one failure each and its own failures are forgotten.
\<close>

theorem cluster_execute_correct:
  assumes "cluster_execute now ping clock run t c = (r, c')" "cl_workers c \<noteq> []"
    "select_candidate_indices now ping c = (is, c1)"
  shows "(case List.find (\<lambda>i. \<exists>out. run i t = Inr out) is of
      Some i \<Rightarrow>
        r = run i t \<and>
        breaker c' = record_success (server_addr (cl_workers c ! i))
          (record_failures clock 0 (map (\<lambda>i. server_addr (cl_workers c ! i)) (takeWhile ((\<noteq>) i) is)) (breaker c))
    | None \<Rightarrow>
        r = (if \<not> failover_to_local c then run (last is) t
             else case cl_local c of
                 Some local \<Rightarrow> local t
               | None \<Rightarrow> Inl (Spawn (label t)
                   (Connection_Refused ''all remote workers failed and local fallback unavailable''))) \<and>
        breaker c' = record_failures clock 0 (map (\<lambda>i. server_addr (cl_workers c ! i)) is) (breaker c)) \<and>
    ((\<exists>i < worker_count c. \<exists>out. run i t = Inr out) \<longrightarrow> (\<exists>out. r = Inr out)) \<and>
    same_setup c c'"
proof -
  have same: "same_setup c c1" "breaker c1 = breaker c" using candidates_setup[OF assms(3)] by auto
  have n: "0 < worker_count c" using assms(2) by (simp add: worker_count_def)
  have ids: "set is = {..<worker_count c}" using candidates_order[OF assms(3) n] by blast
  have "0 \<in> set is" unfolding ids using n by simp
  then have ne: "is \<noteq> []" by (cases "is") simp_all
  obtain r2 c2 where tried: "try_candidates clock run t 0 is c1 = (r2, c2)" by force
  note spec = try_candidates_spec[OF tried]
  have exec: "(r, c') = (case r2 of Some r \<Rightarrow> (r, c2)
      | None \<Rightarrow> (case cl_local c2 of
               Some local \<Rightarrow>
                 if failover_to_local c2 then local t
                 else Inl (Spawn (label t) (Connection_Refused ''all remote workers failed and local fallback unavailable''))
             | None \<Rightarrow> Inl (Spawn (label t) (Connection_Refused ''all remote workers failed and local fallback unavailable'')), c2))"
    using assms tried unfolding cluster_execute_def by (simp split: option.splits)
  show ?thesis
  proof (cases "List.find (\<lambda>i. \<exists>out. run i t = Inr out) is")
    case None
    then have "\<not> (\<exists>i < worker_count c. \<exists>out. run i t = Inr out)"
      using ids by (auto simp: find_None_iff)
    moreover have r2: "r2 = (if is = [] \<or> failover_to_local c then None else Some (run (last is) t))"
      "c2 = c1\<lparr>breaker := record_failures clock 0 (map (\<lambda>i. server_addr (cl_workers c ! i)) is) (breaker c)\<rparr>"
      using spec None same by (simp_all add: same_setup_def)
    moreover have "c' = c2"
      using exec by (auto split: option.splits)
    moreover have "r = (if \<not> failover_to_local c then run (last is) t
        else case cl_local c of
            Some local \<Rightarrow> local t
          | None \<Rightarrow> Inl (Spawn (label t)
              (Connection_Refused ''all remote workers failed and local fallback unavailable'')))"
      using exec ne r2 same by (cases "cl_local c") (auto simp: same_setup_def)
    ultimately show ?thesis
      using None same by (simp add: same_setup_def) blast
  next
    case (Some i)
    then have "\<exists>out. run i t = Inr out" by (auto simp: find_Some_iff)
    moreover have r2: "r2 = Some (run i t)"
      "c2 = c1\<lparr>breaker := record_success (server_addr (cl_workers c ! i))
         (record_failures clock 0 (map (\<lambda>i. server_addr (cl_workers c ! i)) (takeWhile ((\<noteq>) i) is)) (breaker c))\<rparr>"
      using spec Some same by (simp_all add: same_setup_def)
    moreover have "r = run i t" "c' = c2" using exec r2(1) by simp_all
    ultimately show ?thesis
      using Some same by (simp add: same_setup_def)
  qed
qed

subsection \<open>What the breaker remembers\<close>

text \<open>The attempts on one worker since the last one that succeeded, the latest first.\<close>

definition recent_failures :: "string \<Rightarrow> (nat \<times> string \<times> bool) list \<Rightarrow> (nat \<times> string \<times> bool) list" where
  "recent_failures a evs = takeWhile (\<lambda>(_, _, ok). \<not> ok) (rev (filter (\<lambda>(_, x, _). x = a) evs))"

definition record_event :: "nat \<times> string \<times> bool \<Rightarrow> circuit_breaker \<Rightarrow> circuit_breaker" where
  "record_event = (\<lambda>(now, a, ok) b. if ok then record_success a b else record_failure now a b)"

definition breaker_after :: "(nat \<times> string \<times> bool) list \<Rightarrow> circuit_breaker \<Rightarrow> circuit_breaker" where
  "breaker_after evs b = fold record_event evs b"

lemma count_one_more:
  "saturating_add (min (Suc n) u64_max) 1 = min (Suc (Suc n)) u64_max" "saturating_add 0 1 = min (Suc 0) u64_max"
  by (simp_all add: saturating_add_def u64_max_def)

lemma breaker_entry:
  "hm_get (failure_counts (breaker_after evs (new_breaker k cool))) a =
     (case recent_failures a evs of
        [] \<Rightarrow> None
      | (now, _) # fs \<Rightarrow> Some (min (Suc (length fs)) u64_max, now)) \<and>
   failure_threshold (breaker_after evs (new_breaker k cool)) = k \<and>
   cooldown (breaker_after evs (new_breaker k cool)) = cool"
proof (induction evs rule: rev_induct)
  case Nil
  then show ?case by (simp add: breaker_after_def recent_failures_def new_breaker_def)
next
  case (snoc e evs)
  obtain now x ok where e: "e = (now, x, ok)" by (cases e)
  show ?case
    using snoc
    by (auto simp: e breaker_after_def record_event_def record_success_def record_failure_def Let_def
        recent_failures_def count_one_more[unfolded One_nat_def] split: list.splits option.splits prod.splits)
qed

text \<open>
  After any sequence of successes and failures, the breaker counts for a worker exactly its
  failures since its last success (up to the largest number), and takes it for degraded exactly
  while that count has reached the threshold and its last failure is younger than the cooldown;
  the other workers play no part.
\<close>

theorem breaker_correct:
  "failure_count (breaker_after evs (new_breaker k cool)) a = min (length (recent_failures a evs)) u64_max \<and>
   (is_degraded now (breaker_after evs (new_breaker k cool)) a \<longleftrightarrow>
      (case recent_failures a evs of
         [] \<Rightarrow> False
       | (last_failure, _) # fs \<Rightarrow> k \<le> min (Suc (length fs)) u64_max \<and> now - last_failure < cool))"
  using breaker_entry[of evs k cool a]
  by (auto simp: failure_count_def is_degraded_def split: list.splits option.splits)

subsection \<open>Instances\<close>

definition two_workers :: cluster where
  "two_workers = without_fallback [new_client ''a'' None, new_client ''b'' None]"

definition only_b :: "nat \<Rightarrow> executor" where
  "only_b i = (\<lambda>t. if i = 1 then Inr outcome_executed else Inl (Spawn (label t) Unexpected_End))"

lemma two_workers_order:
  "select_candidate_indices 0 (\<lambda>_. Some 0) two_workers = ([0, 1], two_workers\<lparr>round_robin_idx := 1\<rparr>)"
  by (simp add: select_candidate_indices_def base_order_def two_workers_def without_fallback_def
      worker_count_def rotation_def is_degraded_def default_breaker_def new_breaker_def Let_def)

theorem candidates_correct_witness:
  "fst (select_candidate_indices 0 (\<lambda>_. Some 0) two_workers) = [0, 1] \<and> distinct [0, 1 :: nat] \<and>
   set [0, 1] = {..<worker_count two_workers}"
proof -
  have "0 < worker_count two_workers" by (simp add: worker_count_def two_workers_def without_fallback_def)
  from candidates_correct[OF two_workers_order this] show ?thesis
    using two_workers_order by (elim conjE) (simp only: fst_conv)
qed

theorem cluster_execute_correct_witness:
  "\<exists>c'. cluster_execute 0 (\<lambda>_. Some 0) id only_b echo_task two_workers = (Inr outcome_executed, c') \<and>
     failure_count (breaker c') ''a'' = 1"
proof -
  obtain r c' where ex: "cluster_execute 0 (\<lambda>_. Some 0) id only_b echo_task two_workers = (r, c')" by force
  have ne: "cl_workers two_workers \<noteq> []" by (simp add: two_workers_def without_fallback_def)
  have "List.find (\<lambda>i. \<exists>out. only_b i echo_task = Inr out) [0, 1] = Some 1"
    by (simp add: only_b_def)
  then show ?thesis
    using cluster_execute_correct[OF ex ne two_workers_order] ex
    by (simp add: only_b_def record_failures_def two_workers_def without_fallback_def new_client_def
        record_success_def record_failure_def failure_count_def default_breaker_def new_breaker_def saturating_add_def u64_max_def)
qed

end
