(* ===== verification/Reapi.thy ===== *)
theory Reapi
  imports Fish_Prelude "HOL-Library.Word"
begin

text \<open>
  The in-process client of the remote execution protocol, \<open>fish-remote-cache/src/reapi.rs\<close>: an action
  cache, a store of blobs by hash, and the execution of an action. BLAKE3, the process that is run
  and the files found after it are arguments. A lock that is poisoned by a panicking thread makes
  every operation fail; here no operation panics while it holds a lock.
\<close>

type_synonym blob = "8 word list"

record reapi_digest =
  dg_hash :: string
  dg_size :: nat

record file_node =
  fn_name :: string
  fn_digest :: "reapi_digest option"
  fn_executable :: bool

record directory_node =
  dn_name :: string
  dn_digest :: "reapi_digest option"

record reapi_directory =
  rd_files :: "file_node list"
  rd_directories :: "directory_node list"

record reapi_command =
  cm_arguments :: "string list"
  cm_environment :: "string \<rightharpoonup> string"
  cm_output_files :: "string list"
  cm_output_directories :: "string list"
  cm_working_directory :: string

record reapi_action =
  ac_command :: "reapi_digest option"
  ac_input_root :: "reapi_digest option"
  ac_timeout_seconds :: int
  ac_do_not_cache :: bool

record output_file =
  of_path :: string
  of_digest :: "reapi_digest option"
  of_executable :: bool

record action_result =
  ar_output_files :: "output_file list"
  ar_exit_code :: int
  ar_stdout_raw :: "blob option"
  ar_stderr_raw :: "blob option"
  ar_stdout_digest :: "reapi_digest option"
  ar_stderr_digest :: "reapi_digest option"
  ar_metadata :: "string \<rightharpoonup> string"

record reapi_client =
  action_cache :: "(string, action_result) hash_map"
  blob_store :: "(string, blob) hash_map"

definition new_reapi :: reapi_client where
  "new_reapi = \<lparr>action_cache = [], blob_store = []\<rparr>"

text \<open>The length of a vector is below \<open>2 ^ 63\<close>, so its cast to \<open>i64\<close> keeps it.\<close>

definition digest_from_bytes :: "(blob \<Rightarrow> string) \<Rightarrow> blob \<Rightarrow> reapi_digest" where
  "digest_from_bytes blake3 b = \<lparr>dg_hash = blake3 b, dg_size = length b\<rparr>"

definition get_action_result :: "reapi_digest \<Rightarrow> reapi_client \<Rightarrow> action_result option" where
  "get_action_result d c = hm_get (action_cache c) (dg_hash d)"

definition update_action_result :: "reapi_digest \<Rightarrow> action_result \<Rightarrow> reapi_client \<Rightarrow> reapi_client" where
  "update_action_result d r c = c\<lparr>action_cache := hm_insert (dg_hash d) r (action_cache c)\<rparr>"

definition read_blob :: "reapi_digest \<Rightarrow> reapi_client \<Rightarrow> blob option" where
  "read_blob d c = hm_get (blob_store c) (dg_hash d)"

definition write_blob :: "(blob \<Rightarrow> string) \<Rightarrow> blob \<Rightarrow> reapi_client \<Rightarrow> reapi_digest \<times> reapi_client" where
  "write_blob blake3 b c =
     (let d = digest_from_bytes blake3 b
      in (d, c\<lparr>blob_store := hm_insert (dg_hash d) b (blob_store c)\<rparr>))"

definition find_missing_blobs :: "reapi_digest list \<Rightarrow> reapi_client \<Rightarrow> reapi_digest list" where
  "find_missing_blobs ds c = filter (\<lambda>d. hm_get (blob_store c) (dg_hash d) = None) ds"

fun batch_update_blobs :: "(reapi_digest \<times> blob) list \<Rightarrow> reapi_client \<Rightarrow> reapi_digest list \<times> reapi_client" where
  "batch_update_blobs [] c = ([], c)"
| "batch_update_blobs ((d, b) # bs) c =
     (let (ds, c') = batch_update_blobs bs (c\<lparr>blob_store := hm_insert (dg_hash d) b (blob_store c)\<rparr>)
      in (d # ds, c'))"

text \<open>
  A process ends with an exit code or by a signal and with its two streams, or cannot be started.
  It is given the program, the arguments, the directory if it exists, and the environment it adds.
\<close>

record launch =
  la_program :: string
  la_args :: "string list"
  la_dir :: "string option"
  la_env :: "string \<rightharpoonup> string"

type_synonym processes = "launch \<Rightarrow> string + int option \<times> blob \<times> blob"

definition launch_of :: "(string \<Rightarrow> bool) \<Rightarrow> reapi_command \<Rightarrow> launch option" where
  "launch_of path_exists cm =
     (case cm_arguments cm of
        [] \<Rightarrow> None
      | prog # rest \<Rightarrow>
          Some \<lparr>la_program = prog, la_args = rest,
            la_dir = (if cm_working_directory cm \<noteq> [] \<and> path_exists (cm_working_directory cm)
                      then Some (cm_working_directory cm) else None),
            la_env = cm_environment cm\<rparr>)"

text \<open>The bytes of the text that reports a failed start are an argument.\<close>

definition run_command ::
  "(string \<Rightarrow> bool) \<Rightarrow> processes \<Rightarrow> (string \<Rightarrow> blob) \<Rightarrow> reapi_command \<Rightarrow> int \<times> blob option \<times> blob option" where
  "run_command path_exists procs failed_text cm =
     (case launch_of path_exists cm of
        None \<Rightarrow> (0, None, None)
      | Some l \<Rightarrow>
          (case procs l of
             Inr (code, out, err) \<Rightarrow> ((case code of Some n \<Rightarrow> n | None \<Rightarrow> 1), Some out, Some err)
           | Inl e \<Rightarrow> (1, None, Some (failed_text e))))"

text \<open>What is stored for an output path: the file, or the bytes of the path itself.\<close>

definition output_content :: "(string \<Rightarrow> blob option option) \<Rightarrow> (string \<Rightarrow> blob) \<Rightarrow> string \<Rightarrow> blob" where
  "output_content files as_bytes p =
     (case files p of None \<Rightarrow> as_bytes p | Some None \<Rightarrow> as_bytes p | Some (Some b) \<Rightarrow> b)"

fun collect_outputs ::
  "(blob \<Rightarrow> string) \<Rightarrow> (string \<Rightarrow> blob) \<Rightarrow> string list \<Rightarrow> reapi_client \<Rightarrow> output_file list \<times> reapi_client" where
  "collect_outputs blake3 content [] c = ([], c)"
| "collect_outputs blake3 content (p # ps) c =
     (let (d, c') = write_blob blake3 (content p) c;
          (os, c'') = collect_outputs blake3 content ps c'
      in (\<lparr>of_path = p, of_digest = Some d, of_executable = False\<rparr> # os, c''))"

record machine =
  mc_blake3 :: "blob \<Rightarrow> string"
  mc_exists :: "string \<Rightarrow> bool"
  mc_processes :: processes
  mc_text :: "string \<Rightarrow> blob"
  mc_files :: "string \<Rightarrow> blob option option"

definition execute_action ::
  "machine \<Rightarrow> reapi_digest \<Rightarrow> reapi_action \<Rightarrow> reapi_command \<Rightarrow> reapi_client \<Rightarrow> action_result \<times> reapi_client" where
  "execute_action m d action cm c =
     (case get_action_result d c of
        Some cached \<Rightarrow> (cached, c)
      | None \<Rightarrow>
          (let (code, out, err) = run_command (mc_exists m) (mc_processes m) (mc_text m) cm;
               (outputs, c') = collect_outputs (mc_blake3 m) (output_content (mc_files m) (mc_text m)) (cm_output_files cm) c;
               r = \<lparr>ar_output_files = outputs, ar_exit_code = code, ar_stdout_raw = out, ar_stderr_raw = err,
                    ar_stdout_digest = None, ar_stderr_digest = None,
                    ar_metadata = [''executor'' \<mapsto> ''fish-reapi-native'']\<rparr>
           in (r, update_action_result d r c')))"

subsection \<open>Blobs\<close>

definition store_sound :: "(blob \<Rightarrow> string) \<Rightarrow> reapi_client \<Rightarrow> bool" where
  "store_sound blake3 c \<longleftrightarrow> (\<forall>h b. hm_get (blob_store c) h = Some b \<longrightarrow> blake3 b = h)"

lemma write_blob_sound: "store_sound blake3 c \<Longrightarrow> store_sound blake3 (snd (write_blob blake3 b c))"
  by (simp add: store_sound_def write_blob_def digest_from_bytes_def Let_def)

lemma read_written:
  "write_blob blake3 b c = (d, c') \<Longrightarrow> read_blob d c' = Some b \<and> dg_hash d = blake3 b \<and> dg_size d = length b"
  by (auto simp: write_blob_def read_blob_def digest_from_bytes_def Let_def)

lemma find_snoc:
  "List.find P (xs @ [y]) = (case List.find P xs of Some z \<Rightarrow> Some z | None \<Rightarrow> if P y then Some y else None)"
  by (induction xs) auto

lemma batch_update_get:
  "hm_get (blob_store (snd (batch_update_blobs bs c))) h =
     (case List.find (\<lambda>e. dg_hash (fst e) = h) (rev bs) of
        Some e \<Rightarrow> Some (snd e) | None \<Rightarrow> hm_get (blob_store c) h)"
  by (induction bs c rule: batch_update_blobs.induct)
    (auto simp: find_snoc Let_def split: prod.splits option.splits)

lemma batch_update_digests: "fst (batch_update_blobs bs c) = map fst bs"
  by (induction bs c rule: batch_update_blobs.induct) (auto simp: Let_def split: prod.splits)

text \<open>
  After the missing blobs have been uploaded, nothing is missing. The upload does not compare the
  data with the digests: the store stays sound exactly for honest callers.
\<close>

lemma upload_completes:
  assumes "map fst bs = find_missing_blobs ds c"
  shows "find_missing_blobs ds (snd (batch_update_blobs bs c)) = []"
proof -
  have "hm_get (blob_store (snd (batch_update_blobs bs c))) (dg_hash d) \<noteq> None" if "d \<in> set ds" for d
  proof (cases "hm_get (blob_store c) (dg_hash d)")
    case None
    then have "d \<in> set (map fst bs)" using that assms by (simp add: find_missing_blobs_def)
    then show ?thesis by (force simp: batch_update_get find_None_iff split: option.splits)
  qed (auto simp: batch_update_get split: option.splits)
  then show ?thesis by (auto simp: find_missing_blobs_def filter_empty_conv)
qed

lemma batch_update_sound:
  assumes "store_sound blake3 c" "\<forall>(d, b) \<in> set bs. dg_hash d = blake3 b"
  shows "store_sound blake3 (snd (batch_update_blobs bs c))"
  unfolding store_sound_def
proof (intro allI impI)
  fix h b assume got: "hm_get (blob_store (snd (batch_update_blobs bs c))) h = Some b"
  show "blake3 b = h"
  proof (cases "List.find (\<lambda>e. dg_hash (fst e) = h) (rev bs)")
    case None
    then show ?thesis using got assms(1) by (simp add: batch_update_get store_sound_def)
  next
    case (Some e)
    then have "e \<in> set bs" "dg_hash (fst e) = h"
      by (auto simp: find_Some_iff) (metis nth_mem length_rev set_rev)
    then show ?thesis using Some got assms(2) by (auto simp: batch_update_get)
  qed
qed

lemma batch_update_unchecked: "\<exists>d b. \<not> store_sound (\<lambda>b. if b = [] then ''e'' else ''n'') (snd (batch_update_blobs [(d, b)] new_reapi))"
  by (intro exI[of _ "\<lparr>dg_hash = ''e'', dg_size = 0\<rparr>"] exI[of _ "[1]"]) (simp add: store_sound_def new_reapi_def)

subsection \<open>Actions\<close>

lemma collect_outputs_spec:
  assumes "collect_outputs blake3 content ps c = (os, c')"
  shows "map of_path os = ps \<and>
    (\<forall>f \<in> set os. of_digest f = Some (digest_from_bytes blake3 (content (of_path f)))) \<and>
    action_cache c' = action_cache c \<and>
    hm_get (blob_store c') h =
      (case List.find (\<lambda>p. blake3 (content p) = h) (rev ps) of
         Some p \<Rightarrow> Some (content p) | None \<Rightarrow> hm_get (blob_store c) h)"
  using assms
proof (induction ps arbitrary: c c' os)
  case (Cons p ps)
  obtain os1 c1 where rest:
    "collect_outputs blake3 content ps (snd (write_blob blake3 (content p) c)) = (os1, c1)" by force
  then have "os = \<lparr>of_path = p, of_digest = Some (digest_from_bytes blake3 (content p)), of_executable = False\<rparr> # os1"
    "c' = c1"
    using Cons.prems by (auto simp: write_blob_def Let_def)
  then show ?case
    using Cons.IH[OF rest]
    by (auto simp: find_snoc write_blob_def digest_from_bytes_def Let_def split: option.splits)
qed simp

text \<open>
  C34. The first execution of an action runs its command and reports the exit code, or 1 when the
  process was killed or not started; it lists the requested output files in order, each with the
  digest of its content, which can be read back afterwards as long as the hash does not confuse
  the outputs. From then on the action has this result: another execution, with whatever command,
  process and files, and even one that asks not to be cached, answers it and changes nothing.
\<close>

theorem execute_action_correct:
  assumes "execute_action m d action cm c = (r, c')" "get_action_result d c = None"
  defines "content \<equiv> output_content (mc_files m) (mc_text m)"
  shows "(case cm_arguments cm of
       [] \<Rightarrow> ar_exit_code r = 0 \<and> ar_stdout_raw r = None
     | prog # rest \<Rightarrow>
         (\<exists>l. la_program l = prog \<and> la_args l = rest \<and> la_env l = cm_environment cm \<and>
            (case mc_processes m l of
               Inr (Some n, out, err) \<Rightarrow> ar_exit_code r = n \<and> ar_stdout_raw r = Some out \<and> ar_stderr_raw r = Some err
             | Inr (None, out, err) \<Rightarrow> ar_exit_code r = 1 \<and> ar_stdout_raw r = Some out \<and> ar_stderr_raw r = Some err
             | Inl e \<Rightarrow> ar_exit_code r = 1 \<and> ar_stdout_raw r = None))) \<and>
    map of_path (ar_output_files r) = cm_output_files cm \<and>
    (inj_on (mc_blake3 m) (content ` set (cm_output_files cm)) \<longrightarrow>
       (\<forall>f \<in> set (ar_output_files r). \<exists>dg. of_digest f = Some dg \<and>
          dg_hash dg = mc_blake3 m (content (of_path f)) \<and> read_blob dg c' = Some (content (of_path f)))) \<and>
    (\<forall>m' action' cm'. execute_action m' d action' cm' c' = (r, c')) \<and>
    (store_sound (mc_blake3 m) c \<longrightarrow> store_sound (mc_blake3 m) c')"
proof -
  obtain os c1 where out: "collect_outputs (mc_blake3 m) content (cm_output_files cm) c = (os, c1)" by force
  obtain code sout serr where run: "run_command (mc_exists m) (mc_processes m) (mc_text m) cm = (code, sout, serr)"
    by (cases "run_command (mc_exists m) (mc_processes m) (mc_text m) cm") auto
  have r: "ar_output_files r = os" "ar_exit_code r = code" "ar_stdout_raw r = sout" "ar_stderr_raw r = serr"
    and c': "c' = update_action_result d r c1"
    using assms(1,2) out run by (auto simp: execute_action_def content_def Let_def)
  note spec = collect_outputs_spec[OF out]
  have cached: "execute_action m' d action' cm' c' = (r, c')" for m' action' cm'
    by (simp add: execute_action_def get_action_result_def c' update_action_result_def)
  have readable: "\<exists>dg. of_digest f = Some dg \<and>
      dg_hash dg = mc_blake3 m (content (of_path f)) \<and> read_blob dg c' = Some (content (of_path f))"
    if inj: "inj_on (mc_blake3 m) (content ` set (cm_output_files cm))" and f: "f \<in> set os" for f
  proof -
    have p: "of_path f \<in> set (cm_output_files cm)" using f spec by (metis image_eqI set_map)
    then obtain p' where "List.find (\<lambda>p. mc_blake3 m (content p) = mc_blake3 m (content (of_path f)))
        (rev (cm_output_files cm)) = Some p'"
      by (cases "List.find (\<lambda>p. mc_blake3 m (content p) = mc_blake3 m (content (of_path f))) (rev (cm_output_files cm))")
        (auto simp: find_None_iff)
    moreover from this have "content p' = content (of_path f)"
      using inj p by (auto simp: find_Some_iff rev_nth dest!: inj_onD)
    ultimately show ?thesis
      using spec f by (auto simp: digest_from_bytes_def read_blob_def c' update_action_result_def)
  qed
  have sound: "store_sound (mc_blake3 m) c'" if "store_sound (mc_blake3 m) c"
    using that spec by (auto simp: store_sound_def c' update_action_result_def find_Some_iff split: option.splits)
  have "case cm_arguments cm of
       [] \<Rightarrow> ar_exit_code r = 0 \<and> ar_stdout_raw r = None
     | prog # rest \<Rightarrow>
         (\<exists>l. la_program l = prog \<and> la_args l = rest \<and> la_env l = cm_environment cm \<and>
            (case mc_processes m l of
               Inr (Some n, out, err) \<Rightarrow> ar_exit_code r = n \<and> ar_stdout_raw r = Some out \<and> ar_stderr_raw r = Some err
             | Inr (None, out, err) \<Rightarrow> ar_exit_code r = 1 \<and> ar_stdout_raw r = Some out \<and> ar_stderr_raw r = Some err
             | Inl e \<Rightarrow> ar_exit_code r = 1 \<and> ar_stdout_raw r = None))"
  proof (cases "cm_arguments cm")
    case Nil
    then show ?thesis using run r(2-4) by (auto simp: run_command_def launch_of_def)
  next
    case (Cons prog rest)
    then obtain l where l: "launch_of (mc_exists m) cm = Some l" "la_program l = prog" "la_args l = rest"
      "la_env l = cm_environment cm"
      by (simp add: launch_of_def)
    then show ?thesis
      unfolding Cons list.case using run r(2-4)
      by (intro exI[of _ l]) (auto simp: run_command_def split: sum.splits option.splits)
  qed
  then show ?thesis using cached readable sound spec r(1) by blast
qed

definition toy_machine :: machine where
  "toy_machine =
     \<lparr>mc_blake3 = (\<lambda>b. if b = [7] then ''seven'' else ''other''), mc_exists = (\<lambda>_. False),
      mc_processes = (\<lambda>_. Inr (Some 2, [1], [])), mc_text = (\<lambda>_. [0]),
      mc_files = (\<lambda>p. if p = ''o'' then Some (Some [7]) else None)\<rparr>"

definition toy_action :: reapi_action where
  "toy_action = \<lparr>ac_command = None, ac_input_root = None, ac_timeout_seconds = 0, ac_do_not_cache = True\<rparr>"

definition toy_command :: reapi_command where
  "toy_command = \<lparr>cm_arguments = [''cc''], cm_environment = Map.empty, cm_output_files = [''o''],
     cm_output_directories = [], cm_working_directory = []\<rparr>"

theorem execute_action_correct_witness:
  "\<exists>r c. execute_action toy_machine \<lparr>dg_hash = ''a'', dg_size = 1\<rparr> toy_action toy_command new_reapi = (r, c) \<and>
     ar_exit_code r = 2 \<and> execute_action toy_machine \<lparr>dg_hash = ''a'', dg_size = 1\<rparr> toy_action toy_command c = (r, c) \<and>
     store_sound (mc_blake3 toy_machine) c"
proof -
  obtain r c where e: "execute_action toy_machine \<lparr>dg_hash = ''a'', dg_size = 1\<rparr> toy_action toy_command new_reapi = (r, c)"
    by force
  have none: "get_action_result \<lparr>dg_hash = ''a'', dg_size = 1\<rparr> new_reapi = None"
    by (simp add: get_action_result_def new_reapi_def)
  have "store_sound (mc_blake3 toy_machine) new_reapi" by (simp add: store_sound_def new_reapi_def)
  then show ?thesis
    using execute_action_correct[OF e none] e by (auto simp: toy_machine_def toy_command_def)
qed

end
