(* ===== verification/Artifact_Files.thy ===== *)
theory Artifact_Files
  imports Virtual_Fs Sample_Format
begin

text \<open>
  Packing files into an archive and unpacking it, \<open>fish-remote-cache/src/artifact.rs\<close>: which files
  are packed, under which names, and which entries of an archive are unpacked. The formats (tar,
  Zstandard) and the writing of one entry are arguments, with the documented behaviour of the
  crates \<open>tar\<close> and \<open>zstd\<close> as hypotheses. A path is a flag, absolute or not, and its parts; the
  files that are read are the \<open>local_entry\<close> of \<open>Virtual_Fs\<close>.
\<close>

type_synonym bytes = "8 word list"

type_synonym file_path = "bool \<times> string list"

datatype artifact_error = Artifact_Io

subsection \<open>Collecting files\<close>

text \<open>The files below a directory with their full paths, or the error of a listing.\<close>

function collect_files :: "string list \<Rightarrow> local_entry \<Rightarrow> artifact_error + (string list \<times> bytes option) list"
  and collect_file_entries ::
    "string list \<Rightarrow> (string \<times> local_entry) option list \<Rightarrow> artifact_error + (string list \<times> bytes option) list"
where
  "collect_files dir (Local_Dir None) = Inl Artifact_Io"
| "collect_files dir (Local_Dir (Some es)) = collect_file_entries dir es"
| "collect_files dir (Local_File c _ _) = Inr [(dir, c)]"
| "collect_files dir Local_Other = Inr []"
| "collect_file_entries dir [] = Inr []"
| "collect_file_entries dir (None # es) = Inl Artifact_Io"
| "collect_file_entries dir (Some (name, e) # es) =
     (case collect_files (dir @ [name]) e of
        Inl err \<Rightarrow> Inl err
      | Inr fs \<Rightarrow>
          (case collect_file_entries dir es of Inl err \<Rightarrow> Inl err | Inr gs \<Rightarrow> Inr (fs @ gs)))"
  by pat_completeness auto
termination
  by (relation "measure (case_sum (size \<circ> snd) (\<lambda>(_, es). size_list (size_option (\<lambda>x. Suc (size (snd x)))) es))")
     (auto simp: size_prod_simp)

function collect_tree ::
    "string list \<Rightarrow> string list \<Rightarrow> local_entry \<Rightarrow> artifact_error + (string list \<times> bytes option) list"
  and collect_tree_entries ::
    "string list \<Rightarrow> string list \<Rightarrow> (string \<times> local_entry) option list \<Rightarrow>
       artifact_error + (string list \<times> bytes option) list"
where
  "collect_tree excludes dir (Local_Dir None) = Inl Artifact_Io"
| "collect_tree excludes dir (Local_Dir (Some es)) = collect_tree_entries excludes dir es"
| "collect_tree excludes dir (Local_File c _ _) = Inr [(dir, c)]"
| "collect_tree excludes dir Local_Other = Inr []"
| "collect_tree_entries excludes dir [] = Inr []"
| "collect_tree_entries excludes dir (None # es) = Inl Artifact_Io"
| "collect_tree_entries excludes dir (Some (name, e) # es) =
     (if name \<in> set excludes then collect_tree_entries excludes dir es
      else case collect_tree excludes (dir @ [name]) e of
        Inl err \<Rightarrow> Inl err
      | Inr fs \<Rightarrow>
          (case collect_tree_entries excludes dir es of Inl err \<Rightarrow> Inl err | Inr gs \<Rightarrow> Inr (fs @ gs)))"
  by pat_completeness auto
termination
  by (relation "measure (case_sum (\<lambda>(_, _, e). size e)
        (\<lambda>(_, _, es). size_list (size_option (\<lambda>x. Suc (size (snd x)))) es))") (auto simp: size_prod_simp)

text \<open>The file at a path, if there is one; a symbolic link is what it leads to.\<close>

type_synonym disk = "file_path \<Rightarrow> local_entry option"

text \<open>\<open>if path.is_absolute() { path } else { root.join(path) }\<close>; the root is absolute.\<close>

definition full_path :: "string list \<Rightarrow> file_path \<Rightarrow> string list" where
  "full_path root p = (if fst p then snd p else root @ snd p)"

fun select_files ::
  "disk \<Rightarrow> string list \<Rightarrow> file_path list \<Rightarrow> artifact_error + (string list \<times> bytes option) list" where
  "select_files d root [] = Inr []"
| "select_files d root (p # ps) =
     (let full = full_path root p;
          selected = (case d (True, full) of
              None \<Rightarrow> Inr []
            | Some (Local_Dir es) \<Rightarrow> collect_files full (Local_Dir es)
            | Some (Local_File c t x) \<Rightarrow> Inr [(full, c)]
            | Some Local_Other \<Rightarrow> Inr [])
      in case selected of
          Inl e \<Rightarrow> Inl e
        | Inr fs \<Rightarrow> (case select_files d root ps of Inl e \<Rightarrow> Inl e | Inr gs \<Rightarrow> Inr (fs @ gs)))"

subsection \<open>Archives\<close>

text \<open>\<open>full.strip_prefix(root).unwrap_or(&full)\<close>.\<close>

definition entry_path :: "string list \<Rightarrow> string list \<Rightarrow> file_path" where
  "entry_path root full = (if prefix root full then (False, drop (length root) full) else (True, full))"

fun read_all :: "string list \<Rightarrow> (string list \<times> bytes option) list \<Rightarrow> artifact_error + (file_path \<times> bytes) list" where
  "read_all root [] = Inr []"
| "read_all root ((full, c) # fs) =
     (case c of
        None \<Rightarrow> Inl Artifact_Io
      | Some b \<Rightarrow>
          (case read_all root fs of Inl e \<Rightarrow> Inl e | Inr gs \<Rightarrow> Inr ((entry_path root full, b) # gs)))"

text \<open>
  The formats: building an archive may fail, and so may each entry when it is read back.
  \<open>unpack_in\<close> writes one entry below the root.
\<close>

record 'w archive =
  build_tar :: "(file_path \<times> bytes) list \<Rightarrow> bytes option"
  tar_entries :: "bytes \<Rightarrow> (file_path \<times> bytes) option list option"
  zstd_encode :: "bytes \<Rightarrow> bytes option"
  zstd_decode :: "bytes \<Rightarrow> bytes option"
  unpack_in :: "file_path \<times> bytes \<Rightarrow> 'w \<Rightarrow> bool \<times> 'w"

definition pack_collected ::
  "'w archive \<Rightarrow> string list \<Rightarrow> artifact_error + (string list \<times> bytes option) list \<Rightarrow> artifact_error + bytes" where
  "pack_collected ar root collected =
     (case collected of
        Inl e \<Rightarrow> Inl e
      | Inr fs \<Rightarrow>
          (case read_all root fs of
             Inl e \<Rightarrow> Inl e
           | Inr es \<Rightarrow>
               (case Option.bind (build_tar ar es) (zstd_encode ar) of
                  None \<Rightarrow> Inl Artifact_Io
                | Some z \<Rightarrow> Inr z)))"

definition pack_artifacts :: "'w archive \<Rightarrow> disk \<Rightarrow> string list \<Rightarrow> file_path list \<Rightarrow> artifact_error + bytes" where
  "pack_artifacts ar d root paths = pack_collected ar root (select_files d root paths)"

text \<open>\<open>read_dir\<close> of a root that is not a directory is an error.\<close>

definition pack_tree :: "'w archive \<Rightarrow> local_entry option \<Rightarrow> string list \<Rightarrow> string list \<Rightarrow> artifact_error + bytes" where
  "pack_tree ar start root excludes =
     pack_collected ar root
       (case start of Some (Local_Dir es) \<Rightarrow> collect_tree excludes root (Local_Dir es) | _ \<Rightarrow> Inl Artifact_Io)"

definition escapes :: "file_path \<Rightarrow> bool" where
  "escapes p \<longleftrightarrow> fst p \<or> ''..'' \<in> set (snd p)"

fun unpack_entries ::
  "'w archive \<Rightarrow> (file_path \<times> bytes) option list \<Rightarrow> 'w \<Rightarrow> (artifact_error + unit) \<times> 'w" where
  "unpack_entries ar [] w = (Inr (), w)"
| "unpack_entries ar (None # es) w = (Inl Artifact_Io, w)"
| "unpack_entries ar (Some e # es) w =
     (if escapes (fst e) then unpack_entries ar es w
      else case unpack_in ar e w of
          (True, w') \<Rightarrow> unpack_entries ar es w'
        | (False, w') \<Rightarrow> (Inl Artifact_Io, w'))"

text \<open>The flag says whether the directory could be created.\<close>

definition unpack_artifacts :: "'w archive \<Rightarrow> bool \<Rightarrow> bytes \<Rightarrow> 'w \<Rightarrow> (artifact_error + unit) \<times> 'w" where
  "unpack_artifacts ar dir_ok blob w =
     (if \<not> dir_ok then (Inl Artifact_Io, w)
      else case Option.bind (zstd_decode ar blob) (tar_entries ar) of
          None \<Rightarrow> (Inl Artifact_Io, w)
        | Some es \<Rightarrow> unpack_entries ar es w)"

subsection \<open>Unpacking stays inside\<close>

lemma unpack_entries_inv:
  assumes "unpack_entries ar es w = (r, w')" "P w"
    and step: "\<And>e w. \<not> escapes (fst e) \<Longrightarrow> P w \<Longrightarrow> P (snd (unpack_in ar e w))"
  shows "P w'"
  using assms(1,2)
proof (induction es arbitrary: r w)
  case (Cons e es)
  then show ?case
    using step[of "the e" w] by (cases e) (auto split: if_splits prod.splits bool.splits)
qed simp

text \<open>
  Whatever an archive contains, unpacking it only ever writes entries with a relative path
  without \<open>..\<close>: every property of the disk that such writes keep holds afterwards, whether
  unpacking succeeds or fails half-way, and even if the archive ends in an unreadable entry. An
  entry that would leave the directory is skipped and the others are unpacked.
\<close>

theorem unpack_stays_inside:
  assumes "unpack_artifacts ar dir_ok blob w = (r, w')"
  shows "(P w \<and> (\<forall>q b w. ''..'' \<notin> set q \<and> P w \<longrightarrow> P (snd (unpack_in ar ((False, q), b) w))) \<longrightarrow> P w') \<and>
    (dir_ok \<and> Option.bind (zstd_decode ar blob) (tar_entries ar) = Some (map Some es) \<longrightarrow>
       unpack_artifacts ar dir_ok blob w = unpack_entries ar (map Some (filter (\<lambda>e. \<not> escapes (fst e)) es)) w)"
proof (intro conjI impI)
  assume "P w \<and> (\<forall>q b w. ''..'' \<notin> set q \<and> P w \<longrightarrow> P (snd (unpack_in ar ((False, q), b) w)))"
  then have w: "P w" and keep: "\<not> escapes (fst e) \<Longrightarrow> P v \<Longrightarrow> P (snd (unpack_in ar e v))" for e v
    by (cases e; cases "fst e"; auto simp: escapes_def)+
  show "P w'"
    using assms unpack_entries_inv[where P = P, OF _ w keep] w
    by (auto simp: unpack_artifacts_def split: if_splits option.splits)
next
  have "unpack_entries ar (map Some es) w = unpack_entries ar (map Some (filter (\<lambda>e. \<not> escapes (fst e)) es)) w" for w
    by (induction es arbitrary: w) (auto split: prod.splits bool.splits)
  moreover assume "dir_ok \<and> Option.bind (zstd_decode ar blob) (tar_entries ar) = Some (map Some es)"
  ultimately show "unpack_artifacts ar dir_ok blob w =
      unpack_entries ar (map Some (filter (\<lambda>e. \<not> escapes (fst e)) es)) w"
    by (simp add: unpack_artifacts_def)
qed

subsection \<open>What is packed\<close>

text \<open>The content of a file of the tree whose path has no excluded part.\<close>

definition kept_files :: "string list \<Rightarrow> local_entry \<Rightarrow> string list \<Rightarrow> bytes option" where
  "kept_files excludes e q = (if set q \<inter> set excludes = {} then map_option fst (local_files e q) else None)"

definition kept_entry_files :: "string list \<Rightarrow> (string \<times> local_entry) option list \<Rightarrow> string list \<Rightarrow> bytes option" where
  "kept_entry_files excludes es q =
     (if set q \<inter> set excludes = {} then map_option fst (local_entry_files es q) else None)"

definition listed :: "string list \<Rightarrow> (string list \<times> bytes) list \<Rightarrow> (string list \<times> bytes option) list" where
  "listed dir gs = map (\<lambda>(q, c). (dir @ q, Some c)) gs"

lemma listed_simps [simp]:
  "listed dir [] = []" "listed dir ((q, c) # gs) = (dir @ q, Some c) # listed dir gs"
  "listed dir (gs @ hs) = listed dir gs @ listed dir hs"
  by (simp_all add: listed_def)

lemma listed_child: "listed (dir @ [name]) gs = listed dir (map (\<lambda>(q, c). (name # q, c)) gs)"
  by (auto simp: listed_def)

lemma map_of_child:
  "map_of (map (\<lambda>(q, c). (name # q, c)) gs) q =
     (case q of [] \<Rightarrow> None | n # q' \<Rightarrow> if n = name then map_of gs q' else None)"
  by (induction gs) (auto split: list.splits)

lemma collect_tree_spec:
  "readable_entry e \<Longrightarrow>
     \<exists>gs. collect_tree excludes dir e = Inr (listed dir gs) \<and> distinct (map fst gs) \<and>
       (\<forall>q. map_of gs q = kept_files excludes e q)"
  "readable_entries es \<Longrightarrow>
     \<exists>gs. collect_tree_entries excludes dir es = Inr (listed dir gs) \<and> distinct (map fst gs) \<and>
       (\<forall>q. map_of gs q = kept_entry_files excludes es q)"
proof (induction excludes dir e and excludes dir es rule: collect_tree_collect_tree_entries.induct)
  case (2 excludes dir es)
  have "kept_files excludes (Local_Dir (Some es)) = kept_entry_files excludes es"
    by (simp add: kept_files_def kept_entry_files_def fun_eq_iff)
  with 2 show ?case by simp
next
  case (3 excludes dir c t x)
  then obtain b where "c = Some b" by auto
  then show ?case by (intro exI[of _ "[([], b)]"]) (auto simp: kept_files_def)
next
  case (4 excludes dir)
  then show ?case by (intro exI[of _ "[]"]) (auto simp: kept_files_def)
next
  case (5 excludes dir)
  then show ?case by (intro exI[of _ "[]"]) (auto simp: kept_entry_files_def)
next
  case (7 excludes dir name e es)
  have fresh: "local_entry_files es (name # q) = None" for q
    using 7(4) by (intro local_entry_files_none) simp
  show ?case
  proof (cases "name \<in> set excludes")
    case True
    with 7 obtain gs where gs: "collect_tree_entries excludes dir es = Inr (listed dir gs)"
      "distinct (map fst gs)" "\<forall>q. map_of gs q = kept_entry_files excludes es q" by auto
    have "kept_entry_files excludes (Some (name, e) # es) q = kept_entry_files excludes es q" for q
      using True fresh by (cases q) (auto simp: kept_entry_files_def local_entry_files_Nil)
    with gs True show ?thesis by auto
  next
    case False
    from 7(2)[OF False] 7(4) obtain gs where gs: "collect_tree excludes (dir @ [name]) e = Inr (listed (dir @ [name]) gs)"
      "distinct (map fst gs)" "\<forall>q. map_of gs q = kept_files excludes e q" by auto
    from 7(3)[OF False gs(1)] 7(4) obtain hs where hs: "collect_tree_entries excludes dir es = Inr (listed dir hs)"
      "distinct (map fst hs)" "\<forall>q. map_of hs q = kept_entry_files excludes es q" by auto
    let ?gs = "map (\<lambda>(q, c). (name # q, c)) gs @ hs"
    have "collect_tree_entries excludes dir (Some (name, e) # es) = Inr (listed dir ?gs)"
      using False gs hs by (simp add: listed_child)
    moreover have none: "kept_entry_files excludes es (name # q) = None" "kept_entry_files excludes es [] = None" for q
      using fresh by (auto simp: kept_entry_files_def local_entry_files_Nil)
    have "distinct (map fst ?gs)"
    proof -
      have "name # q \<notin> fst ` set hs" for q
        using hs(3) none(1)[of q] by (metis map_of_eq_None_iff)
      then have "set (map ((#) name) (map fst gs)) \<inter> set (map fst hs) = {}" by auto
      moreover have "distinct (map ((#) name) (map fst gs))"
        unfolding distinct_map[of "(#) name" "map fst gs"] using gs(2) by (simp add: inj_on_def)
      moreover have "map fst ?gs = map ((#) name) (map fst gs) @ map fst hs" by auto
      ultimately show ?thesis using hs(2) by (metis distinct_append)
    qed
    moreover have "map_of ?gs q = kept_entry_files excludes (Some (name, e) # es) q" for q
      using gs(3) hs(3) none fresh False
      by (cases q) (auto simp: map_add_def map_of_child kept_files_def kept_entry_files_def local_entry_files_Nil
          split: option.splits)
    ultimately show ?thesis by blast
  qed
qed auto

lemma collect_files_tree:
  "collect_files dir e = collect_tree [] dir e"
  "collect_file_entries dir es = collect_tree_entries [] dir es"
  by (induction dir e and dir es rule: collect_files_collect_file_entries.induct)
    (auto split: sum.splits)

subsection \<open>The round trip\<close>

text \<open>
  What the crates document: encoding and decoding are inverse to each other, an archive of relative
  paths without \<open>..\<close> can be built and lists its entries, and unpacking an entry adds its file where
  no other file is in the way. A directory is the map of its files.
\<close>

definition formats_ok :: "(string list \<Rightarrow> bytes option) archive \<Rightarrow> bool" where
  "formats_ok ar \<longleftrightarrow>
     (\<forall>es. (\<forall>e \<in> set es. \<not> escapes (fst e) \<and> snd (fst e) \<noteq> []) \<longrightarrow>
        (\<exists>t z. build_tar ar es = Some t \<and> tar_entries ar t = Some (map Some es) \<and>
           zstd_encode ar t = Some z \<and> zstd_decode ar z = Some t)) \<and>
     (\<forall>q b w. ''..'' \<notin> set q \<and> q \<noteq> [] \<and> (\<forall>p. w p \<noteq> None \<longrightarrow> \<not> strict_prefix p q \<and> \<not> strict_prefix q p) \<longrightarrow>
        unpack_in ar ((False, q), b) w = (True, w(q \<mapsto> b)))"

lemma read_all_listed: "read_all root (listed root gs) = Inr (map (\<lambda>(q, b). ((False, q), b)) gs)"
  by (induction gs) (auto simp: entry_path_def)

lemma unpack_listed:
  assumes "formats_ok ar" "\<forall>(q, b) \<in> set gs. ''..'' \<notin> set q \<and> q \<noteq> []" "distinct (map fst gs)"
    and "\<forall>p \<in> fst ` set gs \<union> dom w. \<forall>q \<in> fst ` set gs. \<not> strict_prefix p q \<and> \<not> strict_prefix q p"
  shows "unpack_entries ar (map (\<lambda>(q, b). Some ((False, q), b)) gs) w = (Inr (), w ++ map_of gs)"
  using assms(2-)
proof (induction gs arbitrary: w)
  case (Cons x gs)
  obtain q b where x: "x = (q, b)" by force
  have "unpack_in ar ((False, q), b) w = (True, w(q \<mapsto> b))"
    using assms(1) Cons.prems unfolding formats_ok_def x by (auto simp: dom_def)
  moreover have "unpack_entries ar (map (\<lambda>(q, b). Some ((False, q), b)) gs) (w(q \<mapsto> b)) = (Inr (), w(q \<mapsto> b) ++ map_of gs)"
  proof (rule Cons.IH)
    show "\<forall>p \<in> fst ` set gs \<union> dom (w(q \<mapsto> b)). \<forall>r \<in> fst ` set gs. \<not> strict_prefix p r \<and> \<not> strict_prefix r p"
    proof (intro ballI)
      fix p r assume "p \<in> fst ` set gs \<union> dom (w(q \<mapsto> b))" "r \<in> fst ` set gs"
      then have "p \<in> fst ` set (x # gs) \<union> dom w" "r \<in> fst ` set (x # gs)"
        by (auto simp: x split: if_splits)
      then show "\<not> strict_prefix p r \<and> \<not> strict_prefix r p" using Cons.prems(3) by blast
    qed
  qed (use Cons.prems in \<open>auto simp: x\<close>)
  ultimately have "unpack_entries ar (map (\<lambda>(q, b). Some ((False, q), b)) (x # gs)) w = (Inr (), w(q \<mapsto> b) ++ map_of gs)"
    using Cons.prems(1) by (simp add: x escapes_def)
  moreover have "w(q \<mapsto> b) ++ map_of gs = w ++ map_of (x # gs)"
    using Cons.prems(2) by (simp add: x map_add_upd_left dom_map_of_conv_image_fst)
  ultimately show ?case by (simp only:)
qed simp

lemma local_files_prefix_free:
  "readable_entry e \<Longrightarrow> local_files e p \<noteq> None \<Longrightarrow> strict_prefix p q \<Longrightarrow> local_files e q = None"
  "readable_entries es \<Longrightarrow> local_entry_files es p \<noteq> None \<Longrightarrow> strict_prefix p q \<Longrightarrow> local_entry_files es q = None"
proof (induction e p and es p arbitrary: q and q rule: local_files_local_entry_files.induct)
  case (1 content t x p)
  then show ?case by (cases content) (simp_all split: if_splits)
next
  case (7 name e es p)
  note IH = 7(1,2) and prems = 7(3-5)
  show ?case
  proof (cases p)
    case Nil
    then show ?thesis using prems by simp
  next
    case (Cons n p')
    then obtain q' where q: "q = n # q'" "strict_prefix p' q'" using prems by (cases q) auto
    show ?thesis
    proof (cases "n = name")
      case True
      have "local_files e q' = None"
        by (rule IH(1)[OF Cons True]) (use prems True Cons q in simp_all)
      then show ?thesis using True q by simp
    next
      case False
      have "local_entry_files es q = None"
        by (rule IH(2)[OF Cons False]) (use prems False Cons q in simp_all)
      then show ?thesis using False q by simp
    qed
  qed
qed simp_all

text \<open>
  C35. The files of a directory that can be read, except those with an excluded name in their path,
  are packed, and unpacking the archive into an empty directory gives exactly these files with
  their contents; packing a listed path of the directory alone packs what is below it.
\<close>

theorem pack_unpack_roundtrip:
  assumes "formats_ok ar" "readable_entries es"
    "\<And>q. local_files (Local_Dir (Some es)) q \<noteq> None \<Longrightarrow> ''..'' \<notin> set q"
  shows "(\<exists>blob. pack_tree ar (Some (Local_Dir (Some es))) root excludes = Inr blob \<and>
      unpack_artifacts ar True blob Map.empty = (Inr (), kept_files excludes (Local_Dir (Some es)))) \<and>
    (d (True, root) = Some (Local_Dir (Some es)) \<longrightarrow>
      (\<exists>blob. pack_artifacts ar d root [(False, [])] = Inr blob \<and>
        unpack_artifacts ar True blob Map.empty = (Inr (), kept_files [] (Local_Dir (Some es)))))"
proof -
  let ?top = "Local_Dir (Some es)"
  have readable: "readable_entry ?top" using assms(2) by simp
  have trip: "\<exists>blob. pack_collected ar root (collect_tree ex root ?top) = Inr blob \<and>
      unpack_artifacts ar True blob Map.empty = (Inr (), kept_files ex ?top)" for ex
  proof -
    obtain gs where gs: "collect_tree ex root ?top = Inr (listed root gs)" "distinct (map fst gs)"
      "\<forall>q. map_of gs q = kept_files ex ?top q"
      using collect_tree_spec(1)[OF readable] by blast
    have kept: "local_files ?top q \<noteq> None" if "(q, b) \<in> set gs" for q b
      using gs(2,3) that map_of_is_SomeI[of gs q b]
      by (metis kept_files_def map_option_is_None option.distinct(1))
    have clean: "\<forall>(q, b) \<in> set gs. ''..'' \<notin> set q \<and> q \<noteq> []"
      using kept assms(3) by (fastforce simp: local_entry_files_Nil)
    let ?es = "map (\<lambda>(q, b). ((False, q), b)) gs"
    have "\<forall>e \<in> set ?es. \<not> escapes (fst e) \<and> snd (fst e) \<noteq> []"
      using clean by (auto simp: escapes_def)
    then obtain t z where tz: "build_tar ar ?es = Some t" "tar_entries ar t = Some (map Some ?es)"
      "zstd_encode ar t = Some z" "zstd_decode ar z = Some t"
      using assms(1) unfolding formats_ok_def by blast
    have "unpack_entries ar (map (\<lambda>(q, b). Some ((False, q), b)) gs) Map.empty = (Inr (), Map.empty ++ map_of gs)"
    proof (rule unpack_listed[OF assms(1) clean gs(2)], intro ballI)
      fix p q assume "p \<in> fst ` set gs \<union> dom (Map.empty :: string list \<Rightarrow> bytes option)" "q \<in> fst ` set gs"
      then have "local_files ?top p \<noteq> None" "local_files ?top q \<noteq> None" using kept by force+
      then show "\<not> strict_prefix p q \<and> \<not> strict_prefix q p"
        using local_files_prefix_free(1)[OF readable] by metis
    qed
    moreover have "map_of gs = kept_files ex ?top" using gs(3) by (simp add: fun_eq_iff)
    ultimately show ?thesis
      using gs(1) tz by (simp add: pack_collected_def read_all_listed unpack_artifacts_def comp_def split_def)
  qed
  have "select_files d root [(False, [])] = collect_tree [] root ?top" if "d (True, root) = Some ?top"
    using that by (simp add: full_path_def collect_files_tree split: sum.splits)
  then show ?thesis
    using trip[of excludes] trip[of "[]"] unfolding pack_tree_def pack_artifacts_def by simp
qed

subsection \<open>Instances\<close>

definition put_entry :: "file_path \<times> bytes \<Rightarrow> nat list" where
  "put_entry e = (if fst (fst e) then 1 else 0) # put_strings (snd (fst e)) @ put_bytes (snd e)"

fun get_entries :: "nat \<Rightarrow> nat list \<Rightarrow> (file_path \<times> bytes) list" where
  "get_entries (Suc k) (n # ns) =
     (let (q, r) = get_strings ns; (b, s) = get_bytes r in ((n = 1, q), b) # get_entries k s)"
| "get_entries _ _ = []"

lemma get_put_entries: "get_entries (length es) (concat (map put_entry es)) = es"
proof (induction es)
  case (Cons e es)
  then show ?case by (cases e; cases "fst e") (simp add: put_entry_def)
qed simp

definition sample_archive :: "(string list \<Rightarrow> bytes option) archive" where
  "sample_archive =
     \<lparr>build_tar = (\<lambda>es. Some (numbers_bytes (length es # concat (map put_entry es)))),
      tar_entries = (\<lambda>t. case bytes_numbers t of [] \<Rightarrow> None | k # ns \<Rightarrow> Some (map Some (get_entries k ns))),
      zstd_encode = Some, zstd_decode = Some,
      unpack_in = (\<lambda>((_, q), b) w. (True, w(q \<mapsto> b)))\<rparr>"

lemma sample_archive_ok: "formats_ok sample_archive"
  by (simp add: formats_ok_def sample_archive_def get_put_entries)

definition sample_tree :: "(string \<times> local_entry) option list" where
  "sample_tree =
     [Some (''a.rs'', Local_File (Some [1]) 0 False),
      Some (''target'', Local_Dir (Some [Some (''o'', Local_File (Some [2]) 0 False)]))]"

theorem pack_unpack_roundtrip_witness:
  "\<exists>blob. pack_tree sample_archive (Some (Local_Dir (Some sample_tree))) [''w''] [''target''] = Inr blob \<and>
     unpack_artifacts sample_archive True blob Map.empty = (Inr (), [[''a.rs''] \<mapsto> [1]])"
proof -
  have ok: "readable_entries sample_tree"
    by (auto simp: sample_tree_def Option.these_def)
  have clean: "''..'' \<notin> set q" if "local_files (Local_Dir (Some sample_tree)) q \<noteq> None" for q
    using that by (auto simp: sample_tree_def split: list.splits if_splits)
  have kept: "kept_files [''target''] (Local_Dir (Some sample_tree)) = [[''a.rs''] \<mapsto> [1]]"
    by (rule ext) (auto simp: kept_files_def sample_tree_def split: list.splits if_splits)
  show ?thesis
    using pack_unpack_roundtrip[where root = "[''w'']" and excludes = "[''target'']", OF sample_archive_ok ok clean] kept
    by simp
qed

theorem unpack_stays_inside_witness:
  "unpack_artifacts sample_archive True (numbers_bytes (2 # put_entry ((False, [''..'', ''x'']), [1]) @ put_entry ((False, [''y'']), [2]))) Map.empty
     = (Inr (), [[''y''] \<mapsto> [2]])"
proof -
  let ?es = "[((False, [''..'', ''x'']), [1]), ((False, [''y'']), [2])] :: (file_path \<times> bytes) list"
  let ?blob = "numbers_bytes (2 # put_entry ((False, [''..'', ''x'']), [1]) @ put_entry ((False, [''y'']), [2]))"
  have entries: "tar_entries sample_archive ?blob = Some (map Some ?es)"
    using get_put_entries[of ?es] by (simp add: sample_archive_def numeral_2_eq_2)
  obtain r w where u: "unpack_artifacts sample_archive True ?blob Map.empty = (r, w)" by force
  have "True \<and> Option.bind (zstd_decode sample_archive ?blob) (tar_entries sample_archive) = Some (map Some ?es)"
    using entries by (simp add: sample_archive_def)
  note unpack_stays_inside[OF u, THEN conjunct2, rule_format, OF this]
  then show ?thesis by (simp add: escapes_def) (simp add: sample_archive_def)
qed

end
