(* ===== verification/Ci_Matrix.thy ===== *)
theory Ci_Matrix
  imports Fish_Prelude
begin

text \<open>
  The jobs of a generated pipeline, their order and their stages:
  \<open>fish-ci-generator/src/matrix.rs\<close> and the data \<open>gitlab.rs\<close> hands to its template. The templates
  themselves are rendered by the crate \<open>handlebars\<close>. The depth of the recursion of \<open>visit\<close> is
  bounded by fuel; the stack of the program is taken to be deep enough.
\<close>

record ci_job =
  job_id :: string
  job_name :: string
  backend :: string
  commands :: "string list"
  job_artifacts :: "string list"
  job_deps :: "string list"
  cache_key :: string

record cache_config =
  cc_enabled :: bool
  cc_remote_url :: "string option"
  cc_key_prefix :: string

record ci_matrix =
  jobs :: "ci_job list"
  dependencies :: "(string, string list) hash_map"
  cache_config :: cache_config

definition new_matrix :: ci_matrix where
  "new_matrix = \<lparr>jobs = [], dependencies = [],
     cache_config = \<lparr>cc_enabled = True, cc_remote_url = None, cc_key_prefix = ''fish''\<rparr>\<rparr>"

definition add_job :: "ci_job \<Rightarrow> ci_matrix \<Rightarrow> ci_matrix" where
  "add_job j m = m\<lparr>dependencies := hm_insert (job_id j) (job_deps j) (dependencies m), jobs := jobs m @ [j]\<rparr>"

definition matrix_deps :: "ci_matrix \<Rightarrow> string \<Rightarrow> string list" where
  "matrix_deps m i = (case hm_get (dependencies m) i of Some ds \<Rightarrow> ds | None \<Rightarrow> [])"

text \<open>The order so far and the ids that have been visited.\<close>

type_synonym visit_state = "string list \<times> string set"

fun visit :: "nat \<Rightarrow> (string \<Rightarrow> string list) \<Rightarrow> string \<Rightarrow> visit_state \<Rightarrow> visit_state option" where
  "visit 0 deps i st = None"
| "visit (Suc n) deps i (order, visited) =
     (if i \<in> visited then Some (order, visited)
      else case fold_opt (\<lambda>st d. visit n deps d st) (order, insert i visited) (deps i) of
          None \<Rightarrow> None
        | Some (order', visited') \<Rightarrow> Some (order' @ [i], visited'))"

text \<open>Every id that occurs.\<close>

definition all_ids :: "ci_matrix \<Rightarrow> string list" where
  "all_ids m = map job_id (jobs m) @ concat (map snd (dependencies m))"

definition topological_sort :: "ci_matrix \<Rightarrow> string list option" where
  "topological_sort m =
     map_option fst
       (fold_opt (\<lambda>st j. visit (length (all_ids m) + 2) (matrix_deps m) (job_id j) st) ([], {}) (jobs m))"

record level_state =
  levels_done :: "string list list"
  current_level :: "string list"
  completed :: "string set"

definition place_job :: "(string \<Rightarrow> string list) \<Rightarrow> string \<Rightarrow> level_state \<Rightarrow> level_state" where
  "place_job deps i s =
     (if \<forall>d \<in> set (deps i). d \<in> completed s
      then s\<lparr>current_level := current_level s @ [i], completed := insert i (completed s)\<rparr>
      else let s' = (if current_level s \<noteq> [] then s\<lparr>levels_done := levels_done s @ [current_level s], current_level := []\<rparr> else s)
           in s'\<lparr>current_level := current_level s' @ [i], completed := insert i (completed s')\<rparr>)"

definition get_parallel_levels :: "ci_matrix \<Rightarrow> string list list option" where
  "get_parallel_levels m =
     (case topological_sort m of
        None \<Rightarrow> None
      | Some order \<Rightarrow>
          let s = fold (place_job (matrix_deps m)) order \<lparr>levels_done = [], current_level = [], completed = {}\<rparr>
          in Some (if current_level s \<noteq> [] then levels_done s @ [current_level s] else levels_done s))"

text \<open>The stage the GitLab generator gives to a job: the position of its level, or none.\<close>

fun level_position :: "string \<Rightarrow> string list list \<Rightarrow> nat option" where
  "level_position i [] = None"
| "level_position i (l # ls) = (if i \<in> set l then Some 0 else map_option Suc (level_position i ls))"

definition gitlab_stages :: "ci_matrix \<Rightarrow> (ci_job \<times> nat option) list option" where
  "gitlab_stages m =
     map_option (\<lambda>ls. map (\<lambda>j. (j, level_position (job_id j) ls)) (jobs m)) (get_parallel_levels m)"

subsection \<open>The depth-first search\<close>

definition dep_rel :: "(string \<Rightarrow> string list) \<Rightarrow> (string \<times> string) set" where
  "dep_rel deps = {(i, d). d \<in> set (deps i)}"

text \<open>Every dependency of a listed id stands before it.\<close>

definition deps_first :: "(string \<Rightarrow> string list) \<Rightarrow> string list \<Rightarrow> bool" where
  "deps_first deps xs \<longleftrightarrow> (\<forall>k < length xs. set (deps (xs ! k)) \<subseteq> set (take k xs))"

lemma deps_first_snoc: "deps_first deps (xs @ [i]) \<longleftrightarrow> deps_first deps xs \<and> set (deps i) \<subseteq> set xs"
  by (auto simp: deps_first_def nth_append less_Suc_eq all_conj_distrib)

text \<open>Enough fuel: each nested call has one more id of a finite universe behind it.\<close>

lemma visit_returns:
  assumes "finite U" "\<forall>i \<in> U. set (deps i) \<subseteq> U"
  shows "i \<in> U \<Longrightarrow> card (U - v) < n \<Longrightarrow> \<exists>s' v'. visit n deps i (s, v) = Some (s', v') \<and> v \<subseteq> v'"
proof (induction n arbitrary: i s v)
  case (Suc n)
  show ?case
  proof (cases "i \<in> v")
    case False
    then have "U - insert i v \<subset> U - v" using Suc.prems(1) by auto
    then have "card (U - insert i v) < card (U - v)" using assms(1) by (intro psubset_card_mono) auto
    then have small: "card (U - insert i v) < n" using Suc.prems(2) by linarith
    have "\<exists>st. fold_opt (\<lambda>st d. visit n deps d st) (s, insert i v) (deps i) = Some st \<and> insert i v \<subseteq> snd st"
    proof (rule fold_opt_inv)
      fix st :: visit_state and d assume st: "insert i v \<subseteq> snd st" and d: "d \<in> set (deps i)"
      have "card (U - snd st) \<le> card (U - insert i v)" using assms(1) st by (intro card_mono) auto
      then show "\<exists>st'. visit n deps d st = Some st' \<and> insert i v \<subseteq> snd st'"
        using Suc.IH[of d "snd st" "fst st"] small st d assms(2) Suc.prems(1) by fastforce
    qed simp
    then show ?thesis using False by auto
  qed simp
qed simp

text \<open>
  What a visit adds: new ids, each once, that are reachable from the start; and if the graph has no
  cycle and the ids under visit (\<open>G\<close>) lead to the start, every new id after its dependencies.
\<close>

definition visit_adds :: "(string \<Rightarrow> string list) \<Rightarrow> string set \<Rightarrow> string set \<Rightarrow> visit_state \<Rightarrow> visit_state \<Rightarrow> bool" where
  "visit_adds deps R G st st' \<longleftrightarrow>
     (\<exists>new. fst st' = fst st @ new \<and> distinct new \<and> set new \<inter> snd st = {} \<and> snd st' = snd st \<union> set new \<and>
        set new \<subseteq> R \<and>
        ((\<forall>x \<in> set (fst st). set (deps x) \<subseteq> snd st) \<longrightarrow> (\<forall>x \<in> set (fst st'). set (deps x) \<subseteq> snd st')) \<and>
        (acyclic (dep_rel deps) \<and> snd st = set (fst st) \<union> G \<and> deps_first deps (fst st) \<longrightarrow>
           deps_first deps (fst st')))"

lemma visit_adds_refl: "visit_adds deps R G st st"
  by (auto simp: visit_adds_def intro: exI[of _ "[]"])

lemma visit_adds_mono: "visit_adds deps R G a b \<Longrightarrow> R \<subseteq> R' \<Longrightarrow> visit_adds deps R' G a b"
  unfolding visit_adds_def by (elim exE, rule exI, elim conjE, intro conjI) (assumption | erule (1) subset_trans)+

lemma visit_adds_trans:
  assumes "visit_adds deps R G a b" "visit_adds deps R' G b c" "R' \<subseteq> R"
  shows "visit_adds deps R G a c"
proof -
  from assms(1) obtain x where x: "fst b = fst a @ x" "distinct x" "set x \<inter> snd a = {}" "snd b = snd a \<union> set x"
    "set x \<subseteq> R" "(\<forall>z \<in> set (fst a). set (deps z) \<subseteq> snd a) \<longrightarrow> (\<forall>z \<in> set (fst b). set (deps z) \<subseteq> snd b)"
    "acyclic (dep_rel deps) \<and> snd a = set (fst a) \<union> G \<and> deps_first deps (fst a) \<longrightarrow> deps_first deps (fst b)"
    unfolding visit_adds_def by (elim exE conjE) (rule that)
  from assms(2) obtain y where y: "fst c = fst b @ y" "distinct y" "set y \<inter> snd b = {}" "snd c = snd b \<union> set y"
    "set y \<subseteq> R'" "(\<forall>z \<in> set (fst b). set (deps z) \<subseteq> snd b) \<longrightarrow> (\<forall>z \<in> set (fst c). set (deps z) \<subseteq> snd c)"
    "acyclic (dep_rel deps) \<and> snd b = set (fst b) \<union> G \<and> deps_first deps (fst b) \<longrightarrow> deps_first deps (fst c)"
    unfolding visit_adds_def by (elim exE conjE) (rule that)
  show ?thesis unfolding visit_adds_def
  proof (intro exI[of _ "x @ y"] conjI impI)
    assume asm: "acyclic (dep_rel deps) \<and> snd a = set (fst a) \<union> G \<and> deps_first deps (fst a)"
    then have "snd b = set (fst b) \<union> G" using x by auto
    then show "deps_first deps (fst c)" using asm x(7) y(7) by blast
  next
    assume "\<forall>z \<in> set (fst a). set (deps z) \<subseteq> snd a"
    then show "\<forall>z \<in> set (fst c). set (deps z) \<subseteq> snd c" using x(6) y(6) by blast
  next
    show "fst c = fst a @ x @ y" using x(1) y(1) by simp
    show "distinct (x @ y)" using x(2,4) y(2,3) by auto
    show "set (x @ y) \<inter> snd a = {}" using x(3,4) y(3) by auto
    show "snd c = snd a \<union> set (x @ y)" using x(4) y(4) by auto
    show "set (x @ y) \<subseteq> R" using x(5) y(5) assms(3) by auto
  qed
qed

lemma visit_spec:
  assumes "visit n deps i st = Some st'" "\<forall>g \<in> G. (g, i) \<in> (dep_rel deps)\<^sup>+"
  shows "visit_adds deps {x. (i, x) \<in> (dep_rel deps)\<^sup>*} G st st' \<and> i \<in> snd st'"
  using assms
proof (induction n arbitrary: i st st' G)
  case (Suc n)
  obtain s v where st: "st = (s, v)" by force
  show ?case
  proof (cases "i \<in> v")
    case True
    then show ?thesis using Suc.prems(1) st visit_adds_refl by auto
  next
    case False
    let ?R = "{x. (i, x) \<in> (dep_rel deps)\<^sup>+}"
    obtain s1 v1 where loop: "fold_opt (\<lambda>st d. visit n deps d st) (s, insert i v) (deps i) = Some (s1, v1)"
      and st': "st' = (s1 @ [i], v1)"
      using Suc.prems(1) False st by (auto split: option.splits)
    have "visit_adds deps ?R (insert i G) a b \<and> set ds \<subseteq> snd b"
      if "fold_opt (\<lambda>st d. visit n deps d st) a ds = Some b" "set ds \<subseteq> set (deps i)" for a b ds
      using that
    proof (induction ds arbitrary: a)
      case Nil
      then show ?case using visit_adds_refl by simp
    next
      case (Cons d ds)
      then obtain c where c: "visit n deps d a = Some c" "fold_opt (\<lambda>st d. visit n deps d st) c ds = Some b"
        by (auto split: option.splits)
      have edge: "(i, d) \<in> dep_rel deps" using Cons.prems(2) by (simp add: dep_rel_def)
      have grey: "\<forall>g \<in> insert i G. (g, d) \<in> (dep_rel deps)\<^sup>+"
        using edge Suc.prems(2) by (auto intro: trancl_into_trancl)
      have d: "visit_adds deps {x. (d, x) \<in> (dep_rel deps)\<^sup>*} (insert i G) a c" "d \<in> snd c"
        using Suc.IH[OF c(1) grey] by auto
      have rest: "visit_adds deps ?R (insert i G) c b" "set ds \<subseteq> snd b"
        using Cons.IH[OF c(2)] Cons.prems(2) by auto
      have sub: "{x. (d, x) \<in> (dep_rel deps)\<^sup>*} \<subseteq> ?R" using edge by auto
      have "visit_adds deps ?R (insert i G) a c"
        by (rule visit_adds_mono[OF d(1) sub])
      moreover have "snd c \<subseteq> snd b" using rest(1) by (auto simp: visit_adds_def)
      ultimately show ?case using rest d(2) visit_adds_trans[OF _ rest(1)] by auto
    qed
    from this[OF loop] have adds: "visit_adds deps ?R (insert i G) (s, insert i v) (s1, v1)"
      and all: "set (deps i) \<subseteq> v1" by auto
    then obtain new where new: "s1 = s @ new" "distinct new" "set new \<inter> insert i v = {}" "v1 = insert i v \<union> set new"
      "set new \<subseteq> ?R"
      "(\<forall>z \<in> set s. set (deps z) \<subseteq> insert i v) \<longrightarrow> (\<forall>z \<in> set s1. set (deps z) \<subseteq> v1)"
      "acyclic (dep_rel deps) \<and> insert i v = set s \<union> insert i G \<and> deps_first deps s \<longrightarrow> deps_first deps s1"
      unfolding visit_adds_def fst_conv snd_conv by (elim exE conjE) (rule that)
    have "deps_first deps (s1 @ [i])"
      if acyc: "acyclic (dep_rel deps)" and v: "v = set s \<union> G" and first: "deps_first deps s"
    proof -
      have "deps_first deps s1" using new(7) that by blast
      moreover have "d \<in> set s1" if d: "d \<in> set (deps i)" for d
      proof -
        have edge: "(i, d) \<in> dep_rel deps" using d by (simp add: dep_rel_def)
        then have "d \<noteq> i" using acyc by (auto simp: acyclic_def)
        moreover have "d \<notin> G"
          using Suc.prems(2) edge acyc by (auto simp: acyclic_def dest: trancl_into_trancl)
        ultimately show ?thesis using all d new(1,4) v by auto
      qed
      ultimately show ?thesis by (auto simp: deps_first_snoc)
    qed
    moreover have "\<forall>z \<in> set (s1 @ [i]). set (deps z) \<subseteq> v1" if "\<forall>z \<in> set s. set (deps z) \<subseteq> v"
      using new(6) that all by auto
    ultimately have "visit_adds deps {x. (i, x) \<in> (dep_rel deps)\<^sup>*} G st st'"
      unfolding visit_adds_def st st' using new(1-5) False
      by (intro exI[of _ "new @ [i]"]) (auto simp: trancl_into_rtrancl)
    then show ?thesis using new(4) st' by simp
  qed
qed simp

subsection \<open>Orders and levels\<close>

lemma deps_of_ids: "set (matrix_deps m i) \<subseteq> set (all_ids m)"
proof (cases "hm_get (dependencies m) i")
  case (Some ds)
  then have "ds \<in> set (map snd (dependencies m))" by (force dest: map_of_SomeD)
  with Some show ?thesis unfolding all_ids_def matrix_deps_def by auto
qed (simp add: matrix_deps_def)

lemma topological_sort_spec:
  "\<exists>order. topological_sort m = Some order \<and> distinct order \<and>
     set order = {x. \<exists>j \<in> set (jobs m). (job_id j, x) \<in> (dep_rel (matrix_deps m))\<^sup>*} \<and>
     (acyclic (dep_rel (matrix_deps m)) \<longrightarrow> deps_first (matrix_deps m) order)"
proof -
  let ?deps = "matrix_deps m" and ?n = "length (all_ids m) + 2" and ?U = "set (all_ids m)"
  let ?reach = "\<lambda>js. {x. \<exists>j \<in> set js. (job_id j, x) \<in> (dep_rel ?deps)\<^sup>*}"
  have fuel: "card (?U - v) < ?n" for v
    using card_mono[of ?U "?U - v"] card_length[of "all_ids m"] by auto
  have "\<exists>st'. fold_opt (\<lambda>st j. visit ?n ?deps (job_id j) st) st js = Some st' \<and>
      visit_adds ?deps (?reach js) {} st st' \<and> job_id ` set js \<subseteq> snd st'"
    if "job_id ` set js \<subseteq> ?U" for js st
    using that
  proof (induction js arbitrary: st)
    case Nil
    then show ?case using visit_adds_refl by simp
  next
    case (Cons j js)
    obtain a where a: "visit ?n ?deps (job_id j) st = Some a"
      using visit_returns[of ?U ?deps "job_id j" "snd st" ?n "fst st"] fuel deps_of_ids Cons.prems by auto
    have one: "visit_adds ?deps {x. (job_id j, x) \<in> (dep_rel ?deps)\<^sup>*} {} st a" "job_id j \<in> snd a"
      using visit_spec[OF a, of "{}"] by auto
    obtain b where b: "fold_opt (\<lambda>st j. visit ?n ?deps (job_id j) st) a js = Some b"
      "visit_adds ?deps (?reach js) {} a b" "job_id ` set js \<subseteq> snd b"
      using Cons.IH[of a] Cons.prems by auto
    have "visit_adds ?deps (?reach (j # js)) {} st a" "visit_adds ?deps (?reach (j # js)) {} a b"
      by (rule visit_adds_mono[OF one(1)], force) (rule visit_adds_mono[OF b(2)], force)
    then have "visit_adds ?deps (?reach (j # js)) {} st b" by (rule visit_adds_trans) simp
    moreover have "snd a \<subseteq> snd b" using b(2) by (auto simp: visit_adds_def)
    ultimately show ?case using a b one(2) by auto
  qed
  moreover have "job_id ` set (jobs m) \<subseteq> ?U" by (auto simp: all_ids_def)
  ultimately obtain st where run: "fold_opt (\<lambda>st j. visit ?n ?deps (job_id j) st) ([], {}) (jobs m) = Some st"
    and "visit_adds ?deps (?reach (jobs m)) {} ([], {}) st" "job_id ` set (jobs m) \<subseteq> snd st"
    by blast
  moreover obtain order v where st: "st = (order, v)" by force
  ultimately have adds: "visit_adds ?deps (?reach (jobs m)) {} ([], {}) (order, v)" and roots: "job_id ` set (jobs m) \<subseteq> v"
    by simp_all
  then have order: "distinct order" "v = set order" "set order \<subseteq> ?reach (jobs m)"
    "\<forall>x \<in> set order. set (?deps x) \<subseteq> set order" "acyclic (dep_rel ?deps) \<Longrightarrow> deps_first ?deps order"
    by (auto simp: visit_adds_def deps_first_def)
  have "x \<in> set order" if "(i, x) \<in> (dep_rel ?deps)\<^sup>*" "i \<in> set order" for i x
    using that by (rule rtrancl_closed) (use order(4) in \<open>auto simp: dep_rel_def\<close>)
  then have "set order = ?reach (jobs m)" using order(2,3) roots by auto
  then show ?thesis using run st order by (simp add: topological_sort_def)
qed

text \<open>
  The order of the jobs is always computed, also for cyclic dependencies. It names each id once,
  and exactly the jobs and what they depend on, whether or not it is a job; and without a cycle
  every id stands after all its dependencies.
\<close>

theorem topological_sort_correct:
  "\<exists>order. topological_sort m = Some order \<and> distinct order \<and>
     set order = {x. \<exists>j \<in> set (jobs m). (job_id j, x) \<in> (dep_rel (matrix_deps m))\<^sup>*} \<and>
     (acyclic (dep_rel (matrix_deps m)) \<longrightarrow> deps_first (matrix_deps m) order)"
  by (rule topological_sort_spec)

lemma place_jobs_in_order:
  assumes "deps_first deps (pre @ xs)" "completed s = set pre"
  shows "fold (place_job deps) xs s = s\<lparr>current_level := current_level s @ xs, completed := set (pre @ xs)\<rparr>"
  using assms
proof (induction xs arbitrary: pre s)
  case (Cons x xs)
  have "set (deps x) \<subseteq> set pre"
    using Cons.prems(1)[unfolded deps_first_def, rule_format, of "length pre"] by simp
  then have "place_job deps x s = s\<lparr>current_level := current_level s @ [x], completed := set (pre @ [x])\<rparr>"
    using Cons.prems(2) by (auto simp: place_job_def)
  then show ?case
    using Cons.IH[of "pre @ [x]" "place_job deps x s"] Cons.prems(1) by simp
qed (cases s, simp)

lemma place_jobs_flatten:
  "concat (levels_done (fold (place_job deps) xs s)) @ current_level (fold (place_job deps) xs s) =
     concat (levels_done s) @ current_level s @ xs"
  by (induction xs arbitrary: s) (simp_all add: place_job_def Let_def)

text \<open>
  C36. The levels, one after the other, are the order of the jobs. But since the jobs placed in the
  current level count as completed, there is a single level whenever the dependencies have no
  cycle: jobs stand beside the jobs they depend on, and the GitLab generator gives every job the
  same stage 0.
\<close>

theorem parallel_levels_collapse:
  "(\<exists>order ls. topological_sort m = Some order \<and> get_parallel_levels m = Some ls \<and> concat ls = order \<and> [] \<notin> set ls \<and>
      (acyclic (dep_rel (matrix_deps m)) \<longrightarrow> ls = (if order = [] then [] else [order]))) \<and>
   (acyclic (dep_rel (matrix_deps m)) \<longrightarrow> gitlab_stages m = Some (map (\<lambda>j. (j, Some 0)) (jobs m)))"
proof -
  obtain order where order: "topological_sort m = Some order"
    "set order = {x. \<exists>j \<in> set (jobs m). (job_id j, x) \<in> (dep_rel (matrix_deps m))\<^sup>*}"
    "acyclic (dep_rel (matrix_deps m)) \<Longrightarrow> deps_first (matrix_deps m) order"
    using topological_sort_spec by blast
  let ?init = "\<lparr>levels_done = [], current_level = [], completed = {}\<rparr>"
  let ?s = "fold (place_job (matrix_deps m)) order ?init"
  define ls where "ls = (if current_level ?s \<noteq> [] then levels_done ?s @ [current_level ?s] else levels_done ?s)"
  have levels: "get_parallel_levels m = Some ls"
    using order(1) by (simp add: get_parallel_levels_def ls_def Let_def)
  have flat: "concat ls = order"
    using place_jobs_flatten[of "matrix_deps m" order ?init] by (auto simp: ls_def)
  have "[] \<notin> set (levels_done s) \<Longrightarrow> [] \<notin> set (levels_done (fold (place_job deps) xs s))" for deps xs s
    by (induction xs arbitrary: s) (simp_all add: place_job_def Let_def)
  then have ne: "[] \<notin> set ls" by (simp add: ls_def)
  have one: "ls = (if order = [] then [] else [order])" if "acyclic (dep_rel (matrix_deps m))"
    using place_jobs_in_order[of "matrix_deps m" "[]" order ?init] order(3)[OF that] by (simp add: ls_def)
  have "gitlab_stages m = Some (map (\<lambda>j. (j, Some 0)) (jobs m))" if "acyclic (dep_rel (matrix_deps m))"
  proof -
    have "\<forall>j \<in> set (jobs m). job_id j \<in> set order" using order(2) by auto
    then show ?thesis using levels one[OF that] by (cases "jobs m") (auto simp: gitlab_stages_def)
  qed
  then show ?thesis using order(1) levels flat ne one by blast
qed

subsection \<open>An instance\<close>

definition plain_job :: "string \<Rightarrow> string list \<Rightarrow> ci_job" where
  "plain_job i ds = \<lparr>job_id = i, job_name = i, backend = ''rust'', commands = [], job_artifacts = [], job_deps = ds, cache_key = i\<rparr>"

definition two_jobs :: ci_matrix where
  "two_jobs = add_job (plain_job ''test'' [''build'']) (add_job (plain_job ''build'' []) new_matrix)"

lemma two_jobs_deps: "matrix_deps two_jobs i = (if i = ''test'' then [''build''] else [])"
  by (simp add: two_jobs_def matrix_deps_def add_job_def plain_job_def new_matrix_def)

lemma two_jobs_acyclic: "acyclic (dep_rel (matrix_deps two_jobs))"
  by (rule acyclic_by_rank[where f = "\<lambda>i. if i = ''test'' then 0 else 1"]) (auto simp: dep_rel_def two_jobs_deps)

lemma two_jobs_jobs: "jobs two_jobs = [plain_job ''build'' [], plain_job ''test'' [''build'']]"
  by (simp add: two_jobs_def add_job_def new_matrix_def)

lemma two_jobs_sort: "topological_sort two_jobs = Some [''build'', ''test'']"
proof -
  have "length (all_ids two_jobs) + 2 = Suc (Suc (Suc (Suc (Suc 0))))"
    by (simp add: all_ids_def two_jobs_def add_job_def new_matrix_def plain_job_def)
  moreover have "job_id (plain_job i ds) = i" for i ds by (simp add: plain_job_def)
  ultimately show ?thesis by (simp add: topological_sort_def two_jobs_deps two_jobs_jobs)
qed

theorem topological_sort_correct_witness:
  "topological_sort two_jobs = Some [''build'', ''test''] \<and> deps_first (matrix_deps two_jobs) [''build'', ''test'']"
  using topological_sort_correct[of two_jobs] two_jobs_acyclic two_jobs_sort by simp

theorem parallel_levels_collapse_witness:
  "get_parallel_levels two_jobs = Some [[''build'', ''test'']] \<and>
   gitlab_stages two_jobs = Some [(plain_job ''build'' [], Some 0), (plain_job ''test'' [''build''], Some 0)]"
  using parallel_levels_collapse[of two_jobs] two_jobs_acyclic two_jobs_sort two_jobs_jobs by auto

end
