(* ===== verification/Project_Model.thy ===== *)
theory Project_Model
  imports Graph_Api "HOL-Library.Char_ord" "HOL-Library.List_Lexorder" "HOL-Library.Sublist"
begin

text \<open>
  The Cargo workspace of \<open>fish-core/src/project/model.rs\<close>: which packages own changed files, the
  order in which the packages are built, and the build graph of the workspace; and the part of
  \<open>fish-cli/src/commands/affected.rs\<close> that selects the packages to build. The metadata is what
  \<open>cargo metadata\<close> reports. A path is whether it is absolute, with its components; the prefix that
  \<open>plain_path\<close> removes exists on Windows only.
\<close>

type_synonym unix_path = "bool \<times> string list"

datatype dep_kind = Normal_Dep | Development | Build_Dep

record cargo_package =
  pkg_id :: string
  pkg_name :: string
  pkg_manifest :: unix_path
  pkg_targets :: "unix_path list"

record node_dep =
  nd_pkg :: string
  nd_kinds :: "dep_kind list"

record resolve_node =
  rn_id :: string
  rn_deps :: "node_dep list"

record project =
  pr_packages :: "cargo_package list"
  pr_members :: "string list"
  pr_resolve :: "resolve_node list option"

definition is_workspace :: "project \<Rightarrow> bool" where
  "is_workspace pr \<longleftrightarrow> 1 < length (pr_members pr)"

definition package :: "project \<Rightarrow> string \<Rightarrow> cargo_package option" where
  "package pr i = find (\<lambda>p. pkg_id p = i) (pr_packages pr)"

subsection \<open>Owners of files\<close>

definition package_dir :: "cargo_package \<Rightarrow> unix_path" where
  "package_dir p =
     (case pkg_manifest p of
        (absolute, cs) \<Rightarrow> if cs = [] then (False, [''.'']) else (absolute, butlast cs))"

definition owned_by :: "unix_path \<Rightarrow> cargo_package \<Rightarrow> bool" where
  "owned_by path p \<longleftrightarrow>
     (fst path = fst (package_dir p) \<and> prefix (snd (package_dir p)) (snd path)) \<or>
     path \<in> set (pkg_targets p)"

definition specificity :: "cargo_package \<Rightarrow> nat" where
  "specificity p = (if fst (package_dir p) then 1 else 0) + length (snd (package_dir p))"

definition best_owner :: "unix_path \<Rightarrow> cargo_package list \<Rightarrow> cargo_package option" where
  "best_owner path members =
     foldl (\<lambda>best p.
        if owned_by path p \<and> (case best of None \<Rightarrow> True | Some q \<Rightarrow> specificity q < specificity p)
        then Some p else best) None members"

definition member_packages :: "project \<Rightarrow> cargo_package list" where
  "member_packages pr = List.map_filter (package pr) (pr_members pr)"

definition packages_for_paths :: "project \<Rightarrow> unix_path list \<Rightarrow> string list option" where
  "packages_for_paths pr paths =
     (let members = member_packages pr
      in case fold_opt (\<lambda>owners path.
             case best_owner path members of
               None \<Rightarrow> None
             | Some p \<Rightarrow>
                 Some (if \<exists>q \<in> set owners. pkg_id q = pkg_id p then owners else owners @ [p])) [] paths of
           None \<Rightarrow> None
         | Some owners \<Rightarrow> Some (filter (\<lambda>i. \<exists>q \<in> set owners. pkg_id q = i) (pr_members pr)))"

subsection \<open>The build order\<close>

text \<open>
  In-degrees and dependents by package. \<open>None\<close> is a failed \<open>expect\<close>, a missing key of an index
  expression, or the underflow of a degree.
\<close>

type_synonym degrees = "(string, nat) hash_map \<times> (string, string list) hash_map"

definition register :: "string list \<Rightarrow> degrees" where
  "register ms = foldl (\<lambda>(ind, by) i. (hm_insert i 0 ind, hm_insert i [] by)) ([], []) ms"

definition count_edge :: "degrees \<Rightarrow> string \<times> string \<Rightarrow> degrees option" where
  "count_edge acc e =
     (case hm_get (snd acc) (fst e) of
        None \<Rightarrow> None
      | Some l \<Rightarrow>
          (case hm_get (fst acc) (snd e) of
             None \<Rightarrow> None
           | Some k \<Rightarrow> Some (hm_insert (snd e) (Suc k) (fst acc), hm_insert (fst e) (l @ [snd e]) (snd acc))))"

definition count_node :: "string list \<Rightarrow> degrees \<Rightarrow> resolve_node \<Rightarrow> degrees option" where
  "count_node ms acc nd =
     (if rn_id nd \<notin> set ms then Some acc
      else fold_opt (\<lambda>acc d. if nd_pkg d \<in> set ms \<and> rn_id nd \<noteq> nd_pkg d
                            then count_edge acc (nd_pkg d, rn_id nd) else Some acc)
             acc (rn_deps nd))"

definition names_to_ids :: "project \<Rightarrow> (string, string) hash_map" where
  "names_to_ids pr =
     foldl (\<lambda>m i. case package pr i of None \<Rightarrow> m | Some p \<Rightarrow> hm_insert (pkg_name p) i m) [] (pr_members pr)"

text \<open>The heap of names is a list of which the least is taken.\<close>

definition push_name :: "project \<Rightarrow> string \<Rightarrow> string list \<Rightarrow> string list option" where
  "push_name pr i ready = (case package pr i of None \<Rightarrow> None | Some p \<Rightarrow> Some (pkg_name p # ready))"

definition first_ready :: "project \<Rightarrow> (string, nat) hash_map \<Rightarrow> string list option" where
  "first_ready pr ind =
     fold_opt (\<lambda>ready i.
        case hm_get ind i of
          None \<Rightarrow> None
        | Some k \<Rightarrow> if k = 0 then push_name pr i ready else Some ready) [] (pr_members pr)"

definition release ::
  "project \<Rightarrow> (string, nat) hash_map \<times> string list \<Rightarrow> string \<Rightarrow> ((string, nat) hash_map \<times> string list) option" where
  "release pr acc x =
     (case hm_get (fst acc) x of
        None \<Rightarrow> None
      | Some 0 \<Rightarrow> None
      | Some (Suc k) \<Rightarrow>
          (if k = 0 then map_option (Pair (hm_insert x k (fst acc))) (push_name pr x (snd acc))
           else Some (hm_insert x k (fst acc), snd acc)))"

definition order_measure :: "(string, nat) hash_map \<times> string list \<Rightarrow> nat" where
  "order_measure acc = 2 * hm_sum (min 1) (fst acc) + length (snd acc)"

lemma release_measure: "release pr acc x = Some acc' \<Longrightarrow> order_measure acc' \<le> order_measure acc"
  using hm_sum_insert_old[of "fst acc" x "the (hm_get (fst acc) x)" "min 1" "the (hm_get (fst acc) x) - 1"]
  by (auto simp: release_def order_measure_def push_name_def split: option.splits nat.splits if_splits)

lemma releases_measure: "fold_opt (release pr) acc xs = Some acc' \<Longrightarrow> order_measure acc' \<le> order_measure acc"
  by (induction xs arbitrary: acc) (auto split: option.splits dest!: release_measure intro: order_trans)

lemma min_list_in: "(xs :: string list) \<noteq> [] \<Longrightarrow> min_list xs \<in> set xs"
  using Min_in[of "set xs"] by (simp add: min_list_Min)

function order_loop ::
  "project \<Rightarrow> (string, string) hash_map \<Rightarrow> (string, string list) hash_map \<Rightarrow>
     (string, nat) hash_map \<Rightarrow> string list \<Rightarrow> string list \<Rightarrow> string list option" where
  "order_loop pr names by ind ready order =
     (if ready = [] then Some order
      else case hm_get names (min_list ready) of
          None \<Rightarrow> None
        | Some i \<Rightarrow>
            (case fold_opt (release pr) (ind, remove1 (min_list ready) ready)
                    (case hm_get by i of None \<Rightarrow> [] | Some ds \<Rightarrow> ds) of
               None \<Rightarrow> None
             | Some (ind', ready') \<Rightarrow> order_loop pr names by ind' ready' (order @ [i])))"
  by pat_completeness auto
lemma order_step_measure:
  assumes "ready \<noteq> []" "fold_opt (release pr) (ind, remove1 (min_list ready) ready) ds = Some (ind', ready')"
  shows "order_measure (ind', ready') < order_measure (ind, ready)"
proof -
  have "order_measure (ind', ready') \<le> order_measure (ind, remove1 (min_list ready) ready)"
    using releases_measure assms(2) .
  also have "\<dots> < order_measure (ind, ready)"
    using length_pos_if_in_set[OF min_list_in[OF assms(1)]] min_list_in[OF assms(1)]
    by (simp add: order_measure_def length_remove1)
  finally show ?thesis .
qed

termination order_loop
  by (relation "measure (\<lambda>(pr, names, by, ind, ready, order). order_measure (ind, ready))")
     (auto dest: order_step_measure)

declare order_loop.simps [simp del]

definition build_order :: "project \<Rightarrow> string list option" where
  "build_order pr =
     (let ms = pr_members pr in
      case pr_resolve pr of
        None \<Rightarrow> Some ms
      | Some nds \<Rightarrow>
          (case fold_opt (count_node ms) (register ms) nds of
             None \<Rightarrow> None
           | Some (ind, by) \<Rightarrow>
               (case first_ready pr ind of
                  None \<Rightarrow> None
                | Some ready \<Rightarrow>
                    (case order_loop pr (names_to_ids pr) by ind ready [] of
                       None \<Rightarrow> None
                     | Some order \<Rightarrow>
                         Some (if length order < card (set ms)
                               then order @ filter (\<lambda>i. i \<notin> set order) ms else order)))))"

subsection \<open>The graph of the workspace\<close>

text \<open>\<open>None\<close> is the failed debug assertion; the flag says whether assertions are compiled in.\<close>

definition add_members :: "string list \<Rightarrow> (string, nat) hash_map \<times> string build_graph" where
  "add_members ms =
     foldl (\<lambda>(ids, g) i. case add_node i g of (n, g') \<Rightarrow> (hm_insert i n ids, g')) ([], new_graph) ms"

definition link_dep ::
  "bool \<Rightarrow> bool \<Rightarrow> (string, nat) hash_map \<Rightarrow> nat \<Rightarrow> string build_graph \<Rightarrow> node_dep \<Rightarrow> string build_graph option" where
  "link_dep debug include_dev ids dnt g d =
     (case hm_get ids (nd_pkg d) of
        None \<Rightarrow> Some g
      | Some dep \<Rightarrow>
          (if dep = dnt then Some g
           else let is_dev_only = (\<forall>k \<in> set (nd_kinds d). k = Development)
                in if is_dev_only \<and> \<not> include_dev then Some g
                   else case add_dependency dep dnt g of
                       Inl _ \<Rightarrow> if debug \<and> \<not> is_dev_only then None else Some g
                     | Inr g' \<Rightarrow> Some g'))"

definition link_node ::
  "bool \<Rightarrow> bool \<Rightarrow> (string, nat) hash_map \<Rightarrow> string build_graph \<Rightarrow> resolve_node \<Rightarrow> string build_graph option" where
  "link_node debug include_dev ids g nd =
     (case hm_get ids (rn_id nd) of
        None \<Rightarrow> Some g
      | Some dnt \<Rightarrow> fold_opt (link_dep debug include_dev ids dnt) g (rn_deps nd))"

definition build_graph_with :: "bool \<Rightarrow> bool \<Rightarrow> project \<Rightarrow> string build_graph option" where
  "build_graph_with debug include_dev pr =
     (case add_members (pr_members pr) of
        (ids, g) \<Rightarrow>
          (case pr_resolve pr of
             None \<Rightarrow> Some g
           | Some nds \<Rightarrow> fold_opt (link_node debug include_dev ids) g nds))"

text \<open>The selection of \<open>run_affected\<close>: \<open>Some None\<close> when nothing is affected.\<close>

definition owner_ids :: "project \<Rightarrow> unix_path list \<Rightarrow> string build_graph \<Rightarrow> nat list" where
  "owner_ids pr paths g =
     (case packages_for_paths pr paths of
        Some owners \<Rightarrow> map node_id (filter (\<lambda>nd. payload nd \<in> set owners) (nodes g))
      | None \<Rightarrow> map node_id (nodes g))"

definition affected_graph :: "bool \<Rightarrow> bool \<Rightarrow> project \<Rightarrow> unix_path list \<Rightarrow> string build_graph option option" where
  "affected_graph debug test_mode pr paths =
     (case build_graph_with debug test_mode pr of
        None \<Rightarrow> None
      | Some g \<Rightarrow>
          (let affected = affected_nodes g (owner_ids pr paths g)
           in if affected = [] then Some None else map_option Some (subgraph g affected)))"

subsection \<open>Owners\<close>

lemma best_owner_spec:
  "case best_owner path ms of
     None \<Rightarrow> \<forall>p \<in> set ms. \<not> owned_by path p
   | Some p \<Rightarrow> p \<in> set ms \<and> owned_by path p \<and> (\<forall>q \<in> set ms. owned_by path q \<longrightarrow> specificity q \<le> specificity p)"
proof (induction ms rule: rev_induct)
  case (snoc x ms)
  then show ?case by (auto simp: best_owner_def split: option.splits)
qed (simp add: best_owner_def)

definition owners_of :: "project \<Rightarrow> unix_path list \<Rightarrow> string set" where
  "owners_of pr paths =
     {pkg_id p | p path. path \<in> set paths \<and> best_owner path (member_packages pr) = Some p}"

lemma owners_fold:
  assumes "fold_opt (\<lambda>owners path.
             case best_owner path ms of
               None \<Rightarrow> None
             | Some p \<Rightarrow>
                 Some (if \<exists>q \<in> set owners. pkg_id q = pkg_id p then owners else owners @ [p])) os paths = Some res"
  shows "pkg_id ` set res = pkg_id ` set os \<union> {pkg_id p | p path. path \<in> set paths \<and> best_owner path ms = Some p}
    \<and> (\<forall>path \<in> set paths. best_owner path ms \<noteq> None)"
  using assms
proof (induction paths arbitrary: os)
  case (Cons path paths)
  then obtain p where p: "best_owner path ms = Some p" by (auto split: option.splits)
  note IH = Cons.IH[of "if \<exists>q \<in> set os. pkg_id q = pkg_id p then os else os @ [p]"]
  have "pkg_id ` set res = pkg_id ` set (if \<exists>q \<in> set os. pkg_id q = pkg_id p then os else os @ [p]) \<union>
      {pkg_id p | p path. path \<in> set paths \<and> best_owner path ms = Some p}
    \<and> (\<forall>path \<in> set paths. best_owner path ms \<noteq> None)"
    by (rule IH) (use Cons.prems p in simp)
  moreover have "pkg_id ` set (if \<exists>q \<in> set os. pkg_id q = pkg_id p then os else os @ [p]) = insert (pkg_id p) (pkg_id ` set os)"
    by (auto simp: image_iff) (metis image_iff)?
  ultimately show ?case using p by (auto simp del: split_paired_Ex) 
qed simp

lemma owners_none:
  "fold_opt (\<lambda>owners path.
             case best_owner path ms of
               None \<Rightarrow> None
             | Some p \<Rightarrow>
                 Some (if \<exists>q \<in> set owners. pkg_id q = pkg_id p then owners else owners @ [p])) os paths = None \<longleftrightarrow>
   (\<exists>path \<in> set paths. best_owner path ms = None)"
  by (induction paths arbitrary: os) (auto split: option.splits)

lemma packages_for_paths_eq:
  "packages_for_paths pr paths =
     (if \<exists>path \<in> set paths. \<forall>p \<in> set (member_packages pr). \<not> owned_by path p then None
      else Some (filter (\<lambda>i. i \<in> owners_of pr paths) (pr_members pr)))"
proof -
  let ?f = "\<lambda>owners path. case best_owner path (member_packages pr) of
               None \<Rightarrow> None
             | Some p \<Rightarrow>
                 Some (if \<exists>q \<in> set owners. pkg_id q = pkg_id p then owners else owners @ [p])"
  have none: "best_owner path (member_packages pr) = None \<longleftrightarrow> (\<forall>p \<in> set (member_packages pr). \<not> owned_by path p)" for path
    using best_owner_spec[of "member_packages pr" path] by (auto split: option.splits)
  show ?thesis
  proof (cases "fold_opt ?f [] paths")
    case None
    with owners_none[of "member_packages pr" "[]" paths] none show ?thesis
      by (simp add: packages_for_paths_def Let_def)
  next
    case (Some os)
    have "(\<exists>q\<in>set os. pkg_id q = i) \<longleftrightarrow> i \<in> owners_of pr paths" for i
      using conjunct1[OF owners_fold[OF Some]] unfolding owners_of_def by (simp add: image_iff set_eq_iff del: split_paired_Ex) metis
    with Some owners_fold[OF Some] none show ?thesis
      by (auto simp: packages_for_paths_def Let_def)
  qed
qed

subsection \<open>Degrees\<close>

text \<open>The dependencies between members, from the dependency to the dependent, in the order read.\<close>

definition node_edges :: "string list \<Rightarrow> resolve_node \<Rightarrow> (string \<times> string) list" where
  "node_edges ms nd =
     (if rn_id nd \<notin> set ms then []
      else map (\<lambda>d. (nd_pkg d, rn_id nd))
             (filter (\<lambda>d. nd_pkg d \<in> set ms \<and> rn_id nd \<noteq> nd_pkg d) (rn_deps nd)))"

definition order_edges :: "project \<Rightarrow> (string \<times> string) list" where
  "order_edges pr =
     (case pr_resolve pr of None \<Rightarrow> [] | Some nds \<Rightarrow> concat (map (node_edges (pr_members pr)) nds))"

lemma order_edges_members: "(d, n) \<in> set (order_edges pr) \<Longrightarrow> d \<in> set (pr_members pr) \<and> n \<in> set (pr_members pr) \<and> d \<noteq> n"
  by (auto simp: order_edges_def node_edges_def split: option.splits if_splits)

lemma fold_opt_filter_map:
  "fold_opt (\<lambda>s x. if P x then f s (g x) else Some s) s xs = fold_opt f s (map g (filter P xs))"
  by (induction xs arbitrary: s) (auto split: option.splits)

lemma count_nodes: "fold_opt (count_node ms) s nds = fold_opt count_edge s (concat (map (node_edges ms) nds))"
proof (induction nds arbitrary: s)
  case (Cons nd nds)
  have "count_node ms s nd = fold_opt count_edge s (node_edges ms nd)"
    using fold_opt_filter_map[of "\<lambda>d. nd_pkg d \<in> set ms \<and> rn_id nd \<noteq> nd_pkg d" count_edge "\<lambda>d. (nd_pkg d, rn_id nd)" s "rn_deps nd"]
    by (simp add: count_node_def node_edges_def)
  then show ?case by (simp add: fold_opt_append Cons.IH split: option.splits bind_splits)
qed simp

lemma register_get:
  "hm_get (fst (register ms)) i = (if i \<in> set ms then Some 0 else None)"
  "hm_get (snd (register ms)) i = (if i \<in> set ms then Some [] else None)"
  unfolding register_def by (induction ms rule: rev_induct) (auto split: prod.splits)

lemma count_edges:
  assumes "\<forall>(d, n) \<in> set es. hm_get (snd s) d \<noteq> None \<and> hm_get (fst s) n \<noteq> None"
  shows "\<exists>s'. fold_opt count_edge s es = Some s' \<and>
     (\<forall>n. hm_get (fst s') n = map_option (\<lambda>k. k + length (filter (\<lambda>e. snd e = n) es)) (hm_get (fst s) n)) \<and>
     (\<forall>d. hm_get (snd s') d = map_option (\<lambda>l. l @ map snd (filter (\<lambda>e. fst e = d) es)) (hm_get (snd s) d))"
  using assms
proof (induction es arbitrary: s)
  case Nil
  then show ?case by (simp add: option.map_ident)
next
  case (Cons e es)
  from Cons.prems obtain l k where lk: "hm_get (snd s) (fst e) = Some l" "hm_get (fst s) (snd e) = Some k"
    by (cases e) auto
  let ?s = "(hm_insert (snd e) (Suc k) (fst s), hm_insert (fst e) (l @ [snd e]) (snd s))"
  from Cons.prems have "\<forall>(d, n) \<in> set es. hm_get (snd ?s) d \<noteq> None \<and> hm_get (fst ?s) n \<noteq> None" by auto
  from Cons.IH[OF this] obtain s' where s': "fold_opt count_edge ?s es = Some s'"
    "\<And>n. hm_get (fst s') n = map_option (\<lambda>k. k + length (filter (\<lambda>e. snd e = n) es)) (hm_get (fst ?s) n)"
    "\<And>d. hm_get (snd s') d = map_option (\<lambda>l. l @ map snd (filter (\<lambda>e. fst e = d) es)) (hm_get (snd ?s) d)"
    by blast
  have "fold_opt count_edge s (e # es) = Some s'" using lk s'(1) by (simp add: count_edge_def)
  with lk s'(2,3) show ?case by (intro exI[of _ s']) auto
qed

lemma degrees_spec:
  assumes "pr_resolve pr = Some nds"
  obtains ind rows where "fold_opt (count_node (pr_members pr)) (register (pr_members pr)) nds = Some (ind, rows)"
    "\<And>n. hm_get ind n = (if n \<in> set (pr_members pr) then Some (length (filter (\<lambda>e. snd e = n) (order_edges pr))) else None)"
    "\<And>d. hm_get rows d = (if d \<in> set (pr_members pr) then Some (map snd (filter (\<lambda>e. fst e = d) (order_edges pr))) else None)"
proof -
  have "\<forall>(d, n) \<in> set (order_edges pr).
      hm_get (snd (register (pr_members pr))) d \<noteq> None \<and> hm_get (fst (register (pr_members pr))) n \<noteq> None"
    by (auto simp: register_get dest: order_edges_members)
  from count_edges[OF this] obtain s' where "fold_opt count_edge (register (pr_members pr)) (order_edges pr) = Some s'"
    "\<And>n. hm_get (fst s') n = map_option (\<lambda>k. k + length (filter (\<lambda>e. snd e = n) (order_edges pr))) (hm_get (fst (register (pr_members pr))) n)"
    "\<And>d. hm_get (snd s') d = map_option (\<lambda>l. l @ map snd (filter (\<lambda>e. fst e = d) (order_edges pr))) (hm_get (snd (register (pr_members pr))) d)"
    by blast
  then show ?thesis
    using assms by (intro that[of "fst s'" "snd s'"]) (auto simp: count_nodes order_edges_def register_get)
qed

subsection \<open>Releasing dependents\<close>

definition pkg_names :: "project \<Rightarrow> string \<Rightarrow> string" where
  "pkg_names pr i = (case package pr i of None \<Rightarrow> [] | Some p \<Rightarrow> pkg_name p)"

text \<open>Dependents whose degree is exhausted are pushed, each once.\<close>

lemma releases_spec:
  assumes "\<And>x. x \<in> set ds \<Longrightarrow> package pr x \<noteq> None \<and> (\<exists>k. hm_get ind x = Some k \<and> count_list ds x \<le> k)"
  shows "\<exists>ind' zs. fold_opt (release pr) (ind, ready) ds = Some (ind', map (pkg_names pr) zs @ ready) \<and> distinct zs \<and>
     set zs = {x \<in> set ds. hm_get ind x = Some (count_list ds x)} \<and>
     (\<forall>x. hm_get ind' x = map_option (\<lambda>k. k - count_list ds x) (hm_get ind x))"
  using assms
proof (induction ds arbitrary: ind ready)
  case Nil
  then show ?case by (auto simp: option.map_ident)
next
  case (Cons x ds)
  obtain k p where k: "hm_get ind x = Some (Suc k)" "count_list ds x \<le> k" and p: "package pr x = Some p"
    using Cons.prems[of x] that[of "the (hm_get ind x) - 1"] by auto
  let ?ind = "hm_insert x k ind"
  let ?ready = "if k = 0 then pkg_name p # ready else ready"
  have step: "release pr (ind, ready) x = Some (?ind, ?ready)"
    using k p by (simp add: release_def push_name_def)
  have "package pr y \<noteq> None \<and> (\<exists>j. hm_get ?ind y = Some j \<and> count_list ds y \<le> j)" if "y \<in> set ds" for y
    using Cons.prems[of y] that k by (cases "y = x") auto
  from Cons.IH[of ?ind ?ready, OF this] obtain ind' zs where
    IH: "fold_opt (release pr) (?ind, ?ready) ds = Some (ind', map (pkg_names pr) zs @ ?ready)" "distinct zs"
      "set zs = {y \<in> set ds. hm_get ?ind y = Some (count_list ds y)}"
      "\<And>y. hm_get ind' y = map_option (\<lambda>k. k - count_list ds y) (hm_get ?ind y)" by blast
  let ?zs = "if k = 0 then zs @ [x] else zs"
  have "distinct ?zs \<and> set ?zs = {y \<in> set (x # ds). hm_get ind y = Some (count_list (x # ds) y)}"
  proof (cases "k = 0")
    case True
    with k(2) have c: "x \<notin> set ds" "count_list ds x = 0" by (simp_all add: count_list_0_iff)
    have m: "y \<in> set (zs @ [x]) \<longleftrightarrow> y \<in> set (x # ds) \<and> hm_get ind y = Some (count_list (x # ds) y)" for y
      using k(1) True c by (cases "y = x") (simp_all add: IH(3))
    have "distinct (zs @ [x])" using IH(2,3) c(1) by simp
    moreover have "set (zs @ [x]) = {y \<in> set (x # ds). hm_get ind y = Some (count_list (x # ds) y)}"
      by (rule set_eqI) (simp only: m mem_Collect_eq)
    ultimately show ?thesis by (simp only: if_P[OF True] simp_thms)
  next
    case False
    then have c: "x \<in> set ds \<or> k \<noteq> count_list ds x" by (metis count_list_0_iff)
    have m: "y \<in> set zs \<longleftrightarrow> y \<in> set (x # ds) \<and> hm_get ind y = Some (count_list (x # ds) y)" for y
      using c k(1) unfolding IH(3) by (cases "y = x") auto
    have "set zs = {y \<in> set (x # ds). hm_get ind y = Some (count_list (x # ds) y)}"
      by (rule set_eqI) (simp only: m mem_Collect_eq)
    with IH(2) show ?thesis by (simp only: if_not_P[OF False] simp_thms)
  qed
  moreover have "fold_opt (release pr) (ind, ready) (x # ds) = Some (ind', map (pkg_names pr) ?zs @ ready)"
    using step IH(1) p by (auto simp: pkg_names_def)
  ultimately show ?case
    using IH(4) k by (intro exI[of _ ind'] exI[of _ ?zs]) auto
qed

subsection \<open>The order of packages\<close>

definition member_deps :: "project \<Rightarrow> string \<Rightarrow> string set" where
  "member_deps pr i = {d. (d, i) \<in> set (order_edges pr)}"

definition ready_members :: "project \<Rightarrow> string set \<Rightarrow> string set" where
  "ready_members pr done_pkgs = {i \<in> set (pr_members pr) - done_pkgs. member_deps pr i \<subseteq> done_pkgs}"

text \<open>Every package stands behind its dependencies, and has the least name of those that could stand there.\<close>

definition fits_at :: "project \<Rightarrow> string list \<Rightarrow> nat \<Rightarrow> bool" where
  "fits_at pr xs k \<longleftrightarrow>
     xs ! k \<in> ready_members pr (set (take k xs)) \<and>
     (\<forall>j \<in> ready_members pr (set (take k xs)). pkg_names pr (xs ! k) \<le> pkg_names pr j)"

definition ordered_from :: "project \<Rightarrow> nat \<Rightarrow> string list \<Rightarrow> bool" where
  "ordered_from pr n xs \<longleftrightarrow> (\<forall>k. n \<le> k \<and> k < length xs \<longrightarrow> fits_at pr xs k)"

lemma ordered_from_step: "fits_at pr xs n \<Longrightarrow> ordered_from pr (Suc n) xs \<Longrightarrow> ordered_from pr n xs"
  unfolding ordered_from_def by (metis Suc_leI le_neq_implies_less)

text \<open>What Cargo guarantees: every member is a listed package, and names are unique in a workspace.\<close>

definition cargo_ok :: "project \<Rightarrow> bool" where
  "cargo_ok pr \<longleftrightarrow>
     distinct (pr_members pr) \<and> (\<forall>i \<in> set (pr_members pr). package pr i \<noteq> None) \<and>
     inj_on (pkg_names pr) (set (pr_members pr))"

lemma names_to_ids_get:
  assumes "cargo_ok pr" "i \<in> set (pr_members pr)"
  shows "hm_get (names_to_ids pr) (pkg_names pr i) = Some i"
proof -
  have "hm_get (foldl (\<lambda>m i. case package pr i of None \<Rightarrow> m | Some p \<Rightarrow> hm_insert (pkg_name p) i m) [] ms) (pkg_names pr i) = Some i"
    if "i \<in> set ms" "set ms \<subseteq> set (pr_members pr)" for ms
    using that
  proof (induction ms rule: rev_induct)
    case (snoc j ms)
    then obtain p where p: "package pr j = Some p" using assms(1) by (auto simp: cargo_ok_def)
    have "pkg_names pr j = pkg_names pr i \<Longrightarrow> j = i"
      using snoc.prems assms by (auto simp: cargo_ok_def dest: inj_onD)
    with snoc p show ?case by (auto simp: pkg_names_def)
  qed simp
  then show ?thesis using assms(2) by (simp add: names_to_ids_def)
qed

lemma first_ready_eq:
  assumes "cargo_ok pr" "\<And>i. i \<in> set (pr_members pr) \<Longrightarrow> hm_get ind i \<noteq> None"
  shows "first_ready pr ind = Some (map (pkg_names pr) (rev (filter (\<lambda>i. hm_get ind i = Some 0) (pr_members pr))))"
proof -
  have "fold_opt (\<lambda>ready i.
        case hm_get ind i of
          None \<Rightarrow> None
        | Some k \<Rightarrow> if k = 0 then push_name pr i ready else Some ready) rs ms =
      Some (map (pkg_names pr) (rev (filter (\<lambda>i. hm_get ind i = Some 0) ms)) @ rs)"
    if "set ms \<subseteq> set (pr_members pr)" for rs ms
    using that
  proof (induction ms arbitrary: rs)
    case (Cons i ms)
    then obtain k p where "hm_get ind i = Some k" "package pr i = Some p"
      using assms by (force simp: cargo_ok_def)
    with Cons show ?case by (auto simp: push_name_def pkg_names_def)
  qed simp
  from this[of "pr_members pr" "[]"] show ?thesis by (simp add: first_ready_def)
qed

lemma filter_outside_insert:
  "length (filter (\<lambda>e. snd e = n \<and> fst e \<notin> insert i S) es) =
     length (filter (\<lambda>e. snd e = n \<and> fst e \<notin> S) es) - count_list (map snd (filter (\<lambda>e. fst e = i) es)) n"
  "count_list (map snd (filter (\<lambda>e. fst e = i) es)) n \<le> length (filter (\<lambda>e. snd e = n \<and> fst e \<notin> S) es)"
  if "i \<notin> S"
proof -
  have "length (filter (\<lambda>e. snd e = n \<and> fst e \<notin> S) es) =
      length (filter (\<lambda>e. snd e = n \<and> fst e \<notin> insert i S) es) + count_list (map snd (filter (\<lambda>e. fst e = i) es)) n"
    using that by (induction es) auto
  then show "length (filter (\<lambda>e. snd e = n \<and> fst e \<notin> insert i S) es) =
     length (filter (\<lambda>e. snd e = n \<and> fst e \<notin> S) es) - count_list (map snd (filter (\<lambda>e. fst e = i) es)) n"
    "count_list (map snd (filter (\<lambda>e. fst e = i) es)) n \<le> length (filter (\<lambda>e. snd e = n \<and> fst e \<notin> S) es)"
    by simp_all
qed

definition open_deps :: "project \<Rightarrow> string set \<Rightarrow> string \<Rightarrow> nat" where
  "open_deps pr done_pkgs n = length (filter (\<lambda>e. snd e = n \<and> fst e \<notin> done_pkgs) (order_edges pr))"

lemma open_zero: "open_deps pr done_pkgs n = 0 \<longleftrightarrow> member_deps pr n \<subseteq> done_pkgs"
  by (auto simp: open_deps_def member_deps_def filter_empty_conv)

text \<open>One round of the loop keeps degrees, heap and order in step.\<close>

lemma order_round:
  assumes ok: "cargo_ok pr" and S: "\<And>x. x \<in> S \<Longrightarrow> member_deps pr x \<subseteq> S" and i: "i \<in> ready_members pr S"
    and ind: "\<And>n. n \<in> set (pr_members pr) \<Longrightarrow> hm_get ind n = Some (open_deps pr S n)"
    and ready: "distinct ready" "set ready = pkg_names pr ` ready_members pr S"
  shows "\<exists>ind' ready'.
     fold_opt (release pr) (ind, remove1 (pkg_names pr i) ready) (map snd (filter (\<lambda>e. fst e = i) (order_edges pr))) =
       Some (ind', ready') \<and>
     (\<forall>n \<in> set (pr_members pr). hm_get ind' n = Some (open_deps pr (insert i S) n)) \<and>
     distinct ready' \<and> set ready' = pkg_names pr ` ready_members pr (insert i S)"
proof -
  let ?ds = "map snd (filter (\<lambda>e. fst e = i) (order_edges pr))"
  have iS: "i \<notin> S" "i \<in> set (pr_members pr)" using i by (auto simp: ready_members_def)
  have inj: "inj_on (pkg_names pr) (set (pr_members pr))" using ok by (simp add: cargo_ok_def)
  have count: "count_list ?ds n \<le> open_deps pr S n"
    "open_deps pr (insert i S) n = open_deps pr S n - count_list ?ds n" for n
    using filter_outside_insert[OF iS(1), where n = n and es = "order_edges pr"] by (simp_all add: open_deps_def)
  have ds: "x \<in> set (pr_members pr) \<and> i \<in> member_deps pr x" if "x \<in> set ?ds" for x
    using that by (auto simp: member_deps_def dest: order_edges_members)
  have "package pr x \<noteq> None \<and> (\<exists>k. hm_get ind x = Some k \<and> count_list ?ds x \<le> k)" if "x \<in> set ?ds" for x
    using ds[OF that] ok ind count(1)[of x] by (auto simp: cargo_ok_def)
  from releases_spec[of ?ds pr ind "remove1 (pkg_names pr i) ready", OF this] obtain ind' zs where
    res: "fold_opt (release pr) (ind, remove1 (pkg_names pr i) ready) ?ds =
            Some (ind', map (pkg_names pr) zs @ remove1 (pkg_names pr i) ready)" "distinct zs"
      "set zs = {x \<in> set ?ds. hm_get ind x = Some (count_list ?ds x)}"
      "\<And>x. hm_get ind' x = map_option (\<lambda>k. k - count_list ?ds x) (hm_get ind x)" by blast
  have zs: "set zs = {x \<in> set ?ds. member_deps pr x \<subseteq> insert i S}"
  proof -
    have "hm_get ind x = Some (count_list ?ds x) \<longleftrightarrow> member_deps pr x \<subseteq> insert i S" if "x \<in> set ?ds" for x
      unfolding open_zero[symmetric] count(2) using ind[of x] ds[OF that] count(1)[of x] by simp
    then show ?thesis unfolding res(3) by blast
  qed
  have zs_new: "set zs = ready_members pr (insert i S) - ready_members pr S"
  proof (intro set_eqI iffI)
    fix x assume x: "x \<in> set zs"
    then have "x \<in> set ?ds" "member_deps pr x \<subseteq> insert i S" by (simp_all add: zs del: set_map)
    with ds[of x] iS i S[of x] show "x \<in> ready_members pr (insert i S) - ready_members pr S"
      by (auto simp: ready_members_def member_deps_def dest: order_edges_members)
  next
    fix x assume "x \<in> ready_members pr (insert i S) - ready_members pr S"
    then have "member_deps pr x \<subseteq> insert i S" "i \<in> member_deps pr x" by (auto simp: ready_members_def)
    then show "x \<in> set zs" by (force simp: zs member_deps_def)
  qed
  have old: "ready_members pr (insert i S) \<inter> ready_members pr S = ready_members pr S - {i}"
    by (auto simp: ready_members_def)
  have sub: "ready_members pr T \<subseteq> set (pr_members pr)" for T by (auto simp: ready_members_def)
  have names: "pkg_names pr ` (A - B) = pkg_names pr ` A - pkg_names pr ` B"
    if "A \<subseteq> set (pr_members pr)" "B \<subseteq> set (pr_members pr)" for A B
    using that inj by (intro inj_on_image_set_diff[of _ "set (pr_members pr)"]) auto
  have rest: "set (remove1 (pkg_names pr i) ready) = pkg_names pr ` (ready_members pr S - {i})"
    using ready i sub[of S] by (subst names) auto
  have "set (map (pkg_names pr) zs @ remove1 (pkg_names pr i) ready) =
      pkg_names pr ` ((ready_members pr (insert i S) - ready_members pr S) \<union> (ready_members pr S - {i}))"
    using rest zs_new by (simp add: image_Un)
  also have "(ready_members pr (insert i S) - ready_members pr S) \<union> (ready_members pr S - {i}) = ready_members pr (insert i S)"
    using old by blast
  finally have set_eq: "set (map (pkg_names pr) zs @ remove1 (pkg_names pr i) ready) = pkg_names pr ` ready_members pr (insert i S)" .
  have "distinct (map (pkg_names pr) zs)"
    using res(2) zs_new sub[of "insert i S"] inj by (auto simp: distinct_map intro: inj_on_subset)
  moreover have "pkg_names pr ` set zs \<inter> set (remove1 (pkg_names pr i) ready) = {}"
    unfolding rest zs_new using sub inj by (auto dest!: inj_onD[OF inj])
  ultimately have "distinct (map (pkg_names pr) zs @ remove1 (pkg_names pr i) ready)"
    using ready(1) by simp
  with res(1,4) set_eq ind count show ?thesis
    by (intro exI[of _ ind'] exI[of _ "map (pkg_names pr) zs @ remove1 (pkg_names pr i) ready"]) simp
qed

lemma ready_members_sub: "ready_members pr S \<subseteq> set (pr_members pr)"
  by (auto simp: ready_members_def)

lemma min_list_le: "(x :: string) \<in> set xs \<Longrightarrow> min_list xs \<le> x"
  by (cases "xs = []") (simp_all add: min_list_Min)

lemma order_loop_spec:
  assumes "cargo_ok pr" "names = names_to_ids pr"
    and "\<And>d. d \<in> set (pr_members pr) \<Longrightarrow> hm_get rows d = Some (map snd (filter (\<lambda>e. fst e = d) (order_edges pr)))"
    and "\<And>x. x \<in> set order \<Longrightarrow> member_deps pr x \<subseteq> set order"
    and "distinct order" "set order \<subseteq> set (pr_members pr)"
    and "\<And>n. n \<in> set (pr_members pr) \<Longrightarrow> hm_get ind n = Some (open_deps pr (set order) n)"
    and "distinct ready" "set ready = pkg_names pr ` ready_members pr (set order)"
  shows "\<exists>res. order_loop pr names rows ind ready order = Some (order @ res) \<and> distinct (order @ res) \<and>
     set res \<subseteq> set (pr_members pr) \<and> ordered_from pr (length order) (order @ res) \<and>
     ready_members pr (set (order @ res)) = {}"
  using assms
proof (induction pr names rows ind ready order rule: order_loop.induct)
  case (1 pr names rows ind ready order)
  note ok = "1.prems"(1) and rows = "1.prems"(3) and closed = "1.prems"(4) and ready = "1.prems"(8,9)
  show ?case
  proof (cases "ready = []")
    case True
    with ready(2) have "ready_members pr (set order) = {}" by simp
    with True "1.prems"(5) show ?thesis by (intro exI[of _ "[]"]) (auto simp: order_loop.simps[of pr names rows ind "[]" order] ordered_from_def)
  next
    case False
    then have "min_list ready \<in> pkg_names pr ` ready_members pr (set order)" using min_list_in ready(2) by blast
    then obtain i where i: "min_list ready = pkg_names pr i" "i \<in> ready_members pr (set order)" by blast
    then have mem: "i \<in> set (pr_members pr)" "i \<notin> set order" "member_deps pr i \<subseteq> set order"
      by (auto simp: ready_members_def)
    have name: "hm_get names (min_list ready) = Some i"
      using names_to_ids_get[OF ok mem(1)] i(1) "1.prems"(2) by simp
    have row: "(case hm_get rows i of None \<Rightarrow> [] | Some ds \<Rightarrow> ds) = map snd (filter (\<lambda>e. fst e = i) (order_edges pr))"
      using rows[OF mem(1)] by simp
    obtain ind' ready' where step:
      "fold_opt (release pr) (ind, remove1 (min_list ready) ready) (case hm_get rows i of None \<Rightarrow> [] | Some ds \<Rightarrow> ds) = Some (ind', ready')"
      "\<And>n. n \<in> set (pr_members pr) \<Longrightarrow> hm_get ind' n = Some (open_deps pr (insert i (set order)) n)"
      "distinct ready'" "set ready' = pkg_names pr ` ready_members pr (insert i (set order))"
      using order_round[OF ok closed i(2) "1.prems"(7) ready] unfolding row i(1) by blast
    have "\<exists>res. order_loop pr names rows ind' ready' (order @ [i]) = Some ((order @ [i]) @ res) \<and> distinct ((order @ [i]) @ res) \<and>
       set res \<subseteq> set (pr_members pr) \<and> ordered_from pr (length (order @ [i])) ((order @ [i]) @ res) \<and>
       ready_members pr (set ((order @ [i]) @ res)) = {}"
      by (rule "1.IH"[OF False name step(1) refl ok "1.prems"(2) rows])
         (use closed mem "1.prems"(5,6) step in auto)
    then obtain res where res: "order_loop pr names rows ind' ready' (order @ [i]) = Some (order @ i # res)"
      "distinct (order @ i # res)" "set res \<subseteq> set (pr_members pr)"
      "ordered_from pr (Suc (length order)) (order @ i # res)" "ready_members pr (set (order @ i # res)) = {}" by auto
    have least: "pkg_names pr i \<le> pkg_names pr j" if "j \<in> ready_members pr (set order)" for j
      using that min_list_le[of "pkg_names pr j" ready] ready(2) i(1) by simp
    have "take (length order) (order @ i # res) = order" "(order @ i # res) ! length order = i" by simp_all
    then have "fits_at pr (order @ i # res) (length order)"
      unfolding fits_at_def using i(2) least by metis
    then have "ordered_from pr (length order) (order @ i # res)" using res(4) by (rule ordered_from_step)
    moreover have "order_loop pr names rows ind ready order = Some (order @ i # res)"
      by (subst order_loop.simps) (simp only: False name step(1) res(1) if_False option.case prod.case)
    moreover have "set (i # res) \<subseteq> set (pr_members pr)" using res(3) mem(1) by simp
    ultimately show ?thesis using res(2,5) by blast
  qed
qed

lemma deps_ready_or_stuck:
  assumes "acyclic (set (order_edges pr))" "finite S" "\<And>i. i \<in> S \<Longrightarrow> member_deps pr i \<inter> S \<noteq> {}"
  shows "S = {}"
  using acyclic_has_source[of S "set (order_edges pr)"] assms by (fastforce simp: member_deps_def)

text \<open>
  C11. When Cargo reports a resolved workspace, no panicking expression of \<open>build_order\<close> is reached. The
  result lists every member once. It starts with packages that each stand behind all their
  dependencies and have the least name of those that could have stood there, which determines
  this part; then follow, in the order of the workspace, the packages of which each depends on another
  one of them. Without cyclic dependencies the second part is empty.
\<close>

theorem build_order_correct:
  assumes "cargo_ok pr" "pr_resolve pr = Some nds"
  shows "\<exists>order n. build_order pr = Some order \<and> distinct order \<and> set order = set (pr_members pr) \<and>
     ordered_from pr 0 (take n order) \<and>
     drop n order = filter (\<lambda>i. i \<notin> set (take n order)) (pr_members pr) \<and>
     (\<forall>i \<in> set (drop n order). member_deps pr i \<inter> set (drop n order) \<noteq> {}) \<and>
     (acyclic (set (order_edges pr)) \<longrightarrow> drop n order = [])"
proof -
  let ?ms = "pr_members pr"
  obtain ind rows where deg: "fold_opt (count_node ?ms) (register ?ms) nds = Some (ind, rows)"
    "\<And>n. hm_get ind n = (if n \<in> set ?ms then Some (length (filter (\<lambda>e. snd e = n) (order_edges pr))) else None)"
    "\<And>d. hm_get rows d = (if d \<in> set ?ms then Some (map snd (filter (\<lambda>e. fst e = d) (order_edges pr))) else None)"
    by (rule degrees_spec[OF assms(2)], rule that)
  have ind: "hm_get ind n = Some (open_deps pr {} n)" if "n \<in> set ?ms" for n
    using that deg(2) by (simp add: open_deps_def)
  let ?ready = "map (pkg_names pr) (rev (filter (\<lambda>i. hm_get ind i = Some 0) ?ms))"
  have ready: "first_ready pr ind = Some ?ready" using assms(1) ind by (intro first_ready_eq) auto
  have zero: "hm_get ind i = Some 0 \<longleftrightarrow> member_deps pr i \<subseteq> {}" if "i \<in> set ?ms" for i
    using ind[OF that] open_zero[of pr "{}" i] by simp
  have "set ?ready = pkg_names pr ` ready_members pr (set [])"
    using zero by (auto simp: ready_members_def)
  moreover have "distinct ?ready"
    using assms(1) by (auto simp: cargo_ok_def distinct_map intro: inj_on_subset)
  ultimately obtain res where res: "order_loop pr (names_to_ids pr) rows ind ?ready [] = Some res" "distinct res"
    "set res \<subseteq> set ?ms" "ordered_from pr 0 res" "ready_members pr (set res) = {}"
    using order_loop_spec[of pr "names_to_ids pr" rows "[]" ind ?ready] assms(1) deg(3) ind by auto
  let ?rest = "filter (\<lambda>i. i \<notin> set res) ?ms"
  have "?rest = [] \<longleftrightarrow> set res = set ?ms" using res(3) by (auto simp: filter_empty_conv)
  moreover have "set res = set ?ms \<longleftrightarrow> \<not> length res < card (set ?ms)"
    using res(3) card_seteq[OF _ res(3)] distinct_card[OF res(2)] by (metis linorder_not_less List.finite_set order_refl)
  ultimately have card: "length res < card (set ?ms) \<longleftrightarrow> ?rest \<noteq> []" by simp
  have order: "build_order pr = Some (res @ ?rest)"
    using assms(2) deg(1) ready res(1) card by (auto simp: build_order_def Let_def)
  have stuck: "member_deps pr i \<inter> set ?rest \<noteq> {}" if "i \<in> set ?rest" for i
    using that res(5) by (auto simp: ready_members_def member_deps_def dest: order_edges_members)
  show ?thesis
    by (rule exI[of _ "res @ ?rest"], rule exI[of _ "length res"])
       (use order res assms(1) stuck deps_ready_or_stuck[of pr "set ?rest"] in \<open>auto simp: cargo_ok_def filter_empty_conv\<close>)
qed

subsection \<open>The graph\<close>

lemma add_members_spec:
  assumes "distinct ms"
  shows "wf_graph (snd (add_members ms)) \<and> edges (snd (add_members ms)) = {} \<and>
     map payload (nodes (snd (add_members ms))) = ms \<and>
     (\<forall>x n. hm_get (fst (add_members ms)) x = Some n \<longleftrightarrow> n < length ms \<and> ms ! n = x)"
  using assms
proof (induction ms rule: rev_induct)
  case (snoc i ms)
  obtain ids g where g: "add_members ms = (ids, g)" by fastforce
  with snoc have IH: "wf_graph g" "edges g = {}" "map payload (nodes g) = ms"
    "\<And>x n. hm_get ids x = Some n \<longleftrightarrow> n < length ms \<and> ms ! n = x" by simp_all
  have len: "len g = length ms" using arg_cong[OF IH(3), of length] by simp
  have eq: "add_members (ms @ [i]) = (hm_insert i (len g) ids, snd (add_node i g))"
    using g by (simp add: add_members_def split: prod.split) (metis add_node_fst fst_conv snd_conv)
  have "hm_get (hm_insert i (len g) ids) x = Some n \<longleftrightarrow> n < length (ms @ [i]) \<and> (ms @ [i]) ! n = x" for x n
    using snoc.prems IH(4)[of x n] len by (auto simp: nth_append less_Suc_eq)
  with eq IH len show ?case by (simp add: wf_add_node)
qed (simp add: add_members_def, simp add: new_graph_def)

text \<open>The links that are attempted, as numbers of members, in order, with whether they are development only.\<close>

definition node_links :: "bool \<Rightarrow> (string, nat) hash_map \<Rightarrow> resolve_node \<Rightarrow> (nat \<times> nat \<times> bool) list" where
  "node_links include_dev ids nd =
     (case hm_get ids (rn_id nd) of
        None \<Rightarrow> []
      | Some dnt \<Rightarrow>
          List.map_filter (\<lambda>d.
             case hm_get ids (nd_pkg d) of
               None \<Rightarrow> None
             | Some dep \<Rightarrow>
                 (let dev = (\<forall>k \<in> set (nd_kinds d). k = Development)
                  in if dep = dnt \<or> dev \<and> \<not> include_dev then None else Some (dep, dnt, dev))) (rn_deps nd))"

definition link_edge :: "bool \<Rightarrow> string build_graph \<Rightarrow> nat \<times> nat \<times> bool \<Rightarrow> string build_graph option" where
  "link_edge debug g l =
     (case add_dependency (fst l) (fst (snd l)) g of
        Inl _ \<Rightarrow> if debug \<and> \<not> snd (snd l) then None else Some g
      | Inr g' \<Rightarrow> Some g')"

lemma fold_opt_filtered:
  assumes "\<And>s x. f s x = (case h x of None \<Rightarrow> Some s | Some y \<Rightarrow> k s y)"
  shows "fold_opt f s xs = fold_opt k s (List.map_filter h xs)"
  unfolding fold_opt_map_filter[symmetric] assms ..

lemma link_nodes:
  "fold_opt (link_node debug include_dev ids) g nds =
     fold_opt (link_edge debug) g (concat (map (node_links include_dev ids) nds))"
proof (induction nds arbitrary: g)
  case (Cons nd nds)
  have "link_node debug include_dev ids g nd = fold_opt (link_edge debug) g (node_links include_dev ids nd)"
  proof (cases "hm_get ids (rn_id nd)")
    case (Some dnt)
    show ?thesis unfolding link_node_def node_links_def Some option.case
      by (intro fold_opt_filtered) (auto simp: link_dep_def link_edge_def Let_def split: option.split sum.split)
  qed (simp add: link_node_def node_links_def)
  then show ?case by (simp add: fold_opt_append Cons.IH split: option.splits bind_splits)
qed simp

definition link_rel :: "(nat \<times> nat \<times> bool) list \<Rightarrow> (nat \<times> nat) set" where
  "link_rel ls = {(a, b). \<exists>dev. (a, b, dev) \<in> set ls}"

lemma link_edges_spec:
  assumes "wf_graph g" "\<forall>l \<in> set ls. fst l < len g \<and> fst (snd l) < len g \<and> fst l \<noteq> fst (snd l)"
  shows "\<exists>g'. fold_opt (link_edge False) g ls = Some g' \<and> wf_graph g' \<and> nodes g' = nodes g \<and>
     edges g \<subseteq> edges g' \<and> edges g' \<subseteq> edges g \<union> link_rel ls \<and>
     (\<forall>(a, b) \<in> link_rel ls. (a, b) \<in> edges g' \<or> (b, a) \<in> (edges g')\<^sup>+) \<and>
     (acyclic (edges g \<union> link_rel ls) \<longrightarrow> edges g' = edges g \<union> link_rel ls \<and> fold_opt (link_edge True) g ls = Some g')"
  using assms
proof (induction ls arbitrary: g)
  case Nil
  then show ?case by (simp add: link_rel_def)
next
  case (Cons l ls)
  obtain a b dev where l: "l = (a, b, dev)" by (cases l) auto
  then have ab: "a < len g" "b < len g" "a \<noteq> b" using Cons.prems(2) by simp_all
  have rel: "link_rel (l # ls) = insert (a, b) (link_rel ls)" by (auto simp: link_rel_def l)
  have prem: "\<forall>l \<in> set ls. fst l < len g \<and> fst (snd l) < len g \<and> fst l \<noteq> fst (snd l)"
    using Cons.prems(2) by simp
  show ?case
  proof (cases "(b, a) \<in> (edges g)\<^sup>*")
    case True
    with ab have cyc: "(b, a) \<in> (edges g)\<^sup>+" by (simp add: rtrancl_eq_or_trancl)
    have no: "link_edge False g l = Some g"
      using True ab Cons.prems(1) by (simp add: link_edge_def l add_dependency_eq)
    obtain g' where g':
      "fold_opt (link_edge False) g ls = Some g'" "wf_graph g'" "nodes g' = nodes g" "edges g \<subseteq> edges g'"
      "edges g' \<subseteq> edges g \<union> link_rel ls" "\<forall>(a, b) \<in> link_rel ls. (a, b) \<in> edges g' \<or> (b, a) \<in> (edges g')\<^sup>+"
      using Cons.IH[OF Cons.prems(1) prem] by (elim exE conjE) (rule that)
    have "(b, a) \<in> (edges g')\<^sup>+" using cyc g'(4) by (rule trancl_mono)
    moreover have "\<not> acyclic (edges g \<union> link_rel (l # ls))"
      using trancl_mono[OF cyc, of "edges g \<union> link_rel (l # ls)"]
        trancl_into_trancl[of b a "edges g \<union> link_rel (l # ls)" b] unfolding acyclic_def rel by blast
    ultimately show ?thesis
      using no g' rel by (intro exI[of _ g']) auto
  next
    case False
    let ?g = "with_edge a b g"
    have add: "link_edge debug g l = Some ?g" for debug
      using False ab Cons.prems(1) by (simp add: link_edge_def l add_dependency_eq)
    have wf: "wf_graph ?g" using wf_add_dependency[OF Cons.prems(1), of a b ?g] False ab Cons.prems(1) by (simp add: add_dependency_eq)
    have e: "edges ?g = insert (a, b) (edges g)" using ab Cons.prems(1) by (simp add: edges_with_edge)
    obtain g' where g':
      "fold_opt (link_edge False) ?g ls = Some g'" "wf_graph g'" "nodes g' = nodes ?g" "edges ?g \<subseteq> edges g'"
      "edges g' \<subseteq> edges ?g \<union> link_rel ls" "\<forall>(a, b) \<in> link_rel ls. (a, b) \<in> edges g' \<or> (b, a) \<in> (edges g')\<^sup>+"
      "acyclic (edges ?g \<union> link_rel ls) \<longrightarrow> edges g' = edges ?g \<union> link_rel ls \<and> fold_opt (link_edge True) ?g ls = Some g'"
      using Cons.IH[OF wf, unfolded with_edge_simps(2), OF prem, folded with_edge_simps(2)]
      by (elim exE conjE) (rule that)
    have "edges ?g \<union> link_rel ls = edges g \<union> link_rel (l # ls)" by (auto simp: e rel)
    with g' add e rel show ?thesis by (intro exI[of _ g']) auto
  qed
qed

text \<open>The dependencies between members that the graph is to have, by number.\<close>

definition declared :: "bool \<Rightarrow> project \<Rightarrow> (nat \<times> nat) set" where
  "declared include_dev pr =
     {(i, j). i < length (pr_members pr) \<and> j < length (pr_members pr) \<and> i \<noteq> j \<and>
        (\<exists>nd d. (case pr_resolve pr of None \<Rightarrow> False | Some nds \<Rightarrow> nd \<in> set nds) \<and> rn_id nd = pr_members pr ! j \<and>
           d \<in> set (rn_deps nd) \<and> nd_pkg d = pr_members pr ! i \<and>
           (include_dev \<or> (\<exists>k \<in> set (nd_kinds d). k \<noteq> Development)))}"

lemma project_graph_spec:
  assumes "distinct (pr_members pr)"
  shows "\<exists>g. build_graph_with False include_dev pr = Some g \<and> wf_graph g \<and> map payload (nodes g) = pr_members pr \<and>
     edges g \<subseteq> declared include_dev pr \<and>
     (\<forall>(i, j) \<in> declared include_dev pr. (i, j) \<in> edges g \<or> (j, i) \<in> (edges g)\<^sup>+) \<and>
     (acyclic (declared include_dev pr) \<longrightarrow>
        edges g = declared include_dev pr \<and> build_graph_with True include_dev pr = Some g)"
proof -
  obtain ids g0 where g0: "add_members (pr_members pr) = (ids, g0)" by fastforce
  with add_members_spec[OF assms] have base: "wf_graph g0" "edges g0 = {}" "map payload (nodes g0) = pr_members pr"
    "\<And>x n. hm_get ids x = Some n \<longleftrightarrow> n < length (pr_members pr) \<and> pr_members pr ! n = x" by simp_all
  have len: "len g0 = length (pr_members pr)" using arg_cong[OF base(3), of length] by simp
  show ?thesis
  proof (cases "pr_resolve pr")
    case None
    then have "declared include_dev pr = {}" by (simp add: declared_def)
    with None g0 base show ?thesis by (simp add: build_graph_with_def)
  next
    case (Some nds)
    let ?ls = "concat (map (node_links include_dev ids) nds)"
    have "(a, b, dev) \<in> set (node_links include_dev ids nd) \<longleftrightarrow>
        hm_get ids (rn_id nd) = Some b \<and> a \<noteq> b \<and>
        (\<exists>d \<in> set (rn_deps nd). hm_get ids (nd_pkg d) = Some a \<and> (dev \<longleftrightarrow> (\<forall>k \<in> set (nd_kinds d). k = Development)) \<and>
           \<not> (dev \<and> \<not> include_dev))" for a b dev nd
    proof (cases "hm_get ids (rn_id nd)")
      case (Some dnt)
      have h: "(case hm_get ids (nd_pkg d) of None \<Rightarrow> None
             | Some dep \<Rightarrow>
                 (let dev = (\<forall>k \<in> set (nd_kinds d). k = Development)
                  in if dep = dnt \<or> dev \<and> \<not> include_dev then None else Some (dep, dnt, dev))) = Some (a, b, dev) \<longleftrightarrow>
          dnt = b \<and> a \<noteq> b \<and> hm_get ids (nd_pkg d) = Some a \<and>
          (dev \<longleftrightarrow> (\<forall>k \<in> set (nd_kinds d). k = Development)) \<and> \<not> (dev \<and> \<not> include_dev)" for d
        by (cases "hm_get ids (nd_pkg d)") (auto simp: Let_def)
      show ?thesis unfolding node_links_def Some option.case set_map_filter mem_Collect_eq h option.inject by blast
    qed (simp add: node_links_def)
    then have links: "(a, b, dev) \<in> set ?ls \<longleftrightarrow>
        (\<exists>nd \<in> set nds. hm_get ids (rn_id nd) = Some b \<and> a \<noteq> b \<and>
        (\<exists>d \<in> set (rn_deps nd). hm_get ids (nd_pkg d) = Some a \<and> (dev \<longleftrightarrow> (\<forall>k \<in> set (nd_kinds d). k = Development)) \<and>
           \<not> (dev \<and> \<not> include_dev)))" for a b dev
      by auto
    have rel: "link_rel ?ls = declared include_dev pr"
    proof (intro set_eqI, clarify)
      fix i j
      show "(i, j) \<in> link_rel ?ls \<longleftrightarrow> (i, j) \<in> declared include_dev pr"
        unfolding link_rel_def declared_def mem_Collect_eq prod.case links base(4) Some option.case
      proof (rule iffI, goal_cases)
        case 1
        then show ?case by (elim exE bexE conjE) (intro conjI exI; (assumption | auto))
      next
        case 2
        then obtain nd :: resolve_node and d :: node_dep where *: "i < length (pr_members pr)"
          "j < length (pr_members pr)" "i \<noteq> j" "nd \<in> set nds"
          "rn_id nd = pr_members pr ! j" "d \<in> set (rn_deps nd)" "nd_pkg d = pr_members pr ! i"
          "include_dev \<or> (\<exists>k \<in> set (nd_kinds d). k \<noteq> Development)" by (elim exE conjE) (rule that)
        let ?dev = "\<forall>k \<in> set (nd_kinds d). k = Development"
        show ?case
          using * by (intro exI[of _ ?dev] bexI[of _ nd] bexI[of _ d] conjI) auto
      qed
    qed
    have "fst l < len g0 \<and> fst (snd l) < len g0 \<and> fst l \<noteq> fst (snd l)" if "l \<in> set ?ls" for l
      using that links[of "fst l" "fst (snd l)" "snd (snd l)"] unfolding base(4) len by auto
    then have "\<forall>l \<in> set ?ls. fst l < len g0 \<and> fst (snd l) < len g0 \<and> fst l \<noteq> fst (snd l)" ..
    from link_edges_spec[OF base(1), of ?ls, OF this] obtain g' where g':
      "fold_opt (link_edge False) g0 ?ls = Some g'" "wf_graph g'" "nodes g' = nodes g0"
      "edges g' \<subseteq> declared include_dev pr"
      "\<forall>(i, j) \<in> declared include_dev pr. (i, j) \<in> edges g' \<or> (j, i) \<in> (edges g')\<^sup>+"
      "acyclic (declared include_dev pr) \<longrightarrow>
         edges g' = declared include_dev pr \<and> fold_opt (link_edge True) g0 ?ls = Some g'"
      unfolding rel base(2) Un_empty_left by (elim exE conjE) (rule that)
    have "build_graph_with debug include_dev pr = fold_opt (link_edge debug) g0 ?ls" for debug
      by (simp add: build_graph_with_def Some g0 link_nodes)
    with g' base(3) show ?thesis by (intro exI[of _ g']) (simp only: simp_thms)
  qed
qed

text \<open>
  C12. The graph has the members in their order, and is acyclic. When the dependencies between
  members that it is to represent have no cycle, it has exactly these edges, and no debug assertion fails.
  Otherwise, in a release build, it has only such edges, and a dependency is left out only if the dependent
  is already before the dependency: so a dependency may be missing that is no development
  dependency, when a development dependency of another package comes first.
\<close>

theorem project_graph_correct:
  assumes "distinct (pr_members pr)"
  shows "\<exists>g. build_graph_with False include_dev pr = Some g \<and> wf_graph g \<and> map payload (nodes g) = pr_members pr \<and>
     edges g \<subseteq> declared include_dev pr \<and>
     (\<forall>(i, j) \<in> declared include_dev pr. (i, j) \<in> edges g \<or> (j, i) \<in> (edges g)\<^sup>+) \<and>
     (acyclic (declared include_dev pr) \<longrightarrow>
        edges g = declared include_dev pr \<and> build_graph_with True include_dev pr = Some g)"
  by (rule project_graph_spec[OF assms])

subsection \<open>The affected packages\<close>

definition changed_members :: "project \<Rightarrow> unix_path list \<Rightarrow> nat set" where
  "changed_members pr paths =
     {i. i < length (pr_members pr) \<and>
         ((\<exists>path \<in> set paths. \<forall>p \<in> set (member_packages pr). \<not> owned_by path p) \<or>
          (\<exists>path \<in> set paths. \<exists>p. best_owner path (member_packages pr) = Some p \<and> pkg_id p = pr_members pr ! i))}"

lemma owner_ids_set:
  assumes "shape_ok g" "map payload (nodes g) = pr_members pr"
  shows "set (owner_ids pr paths g) = changed_members pr paths"
proof -
  have len: "len g = length (pr_members pr)" using arg_cong[OF assms(2), of length] by simp
  have pay: "payload (nodes g ! i) = pr_members pr ! i" if "i < len g" for i
    using that assms(2) by (metis length_nodes nth_map)
  have ids: "node_id ` {nd \<in> set (nodes g). P (payload nd)} = {i. i < len g \<and> P (pr_members pr ! i)}" for P
    using pay node_id_eq[OF assms(1)] by (fastforce simp: in_set_conv_nth image_iff)
  show ?thesis
  proof (cases "\<exists>path \<in> set paths. \<forall>p \<in> set (member_packages pr). \<not> owned_by path p")
    case True
    then have "packages_for_paths pr paths = None" unfolding packages_for_paths_eq by (rule if_P)
    with True ids[of "\<lambda>_. True"] show ?thesis by (simp add: owner_ids_def changed_members_def len)
  next
    case False
    then have "packages_for_paths pr paths = Some (filter (\<lambda>i. i \<in> owners_of pr paths) (pr_members pr))"
      unfolding packages_for_paths_eq by (rule if_not_P)
    then have "set (owner_ids pr paths g) = {i. i < len g \<and> pr_members pr ! i \<in> set (pr_members pr) \<and> pr_members pr ! i \<in> owners_of pr paths}"
      using ids[of "\<lambda>x. x \<in> set (pr_members pr) \<and> x \<in> owners_of pr paths"] by (simp add: owner_ids_def)
    also have "\<dots> = changed_members pr paths"
      using False len unfolding changed_members_def owners_of_def by force
    finally show ?thesis .
  qed
qed

text \<open>
  C13. The packages built for a change are, each once, the owners of the changed files with everything
  that depends on them, directly or not, in the graph of the workspace; a file outside all
  packages affects every package. The graph handed to the build has the dependencies among them.
\<close>

theorem affected_graph_correct:
  assumes "distinct (pr_members pr)"
  shows "\<exists>g. build_graph_with False test_mode pr = Some g \<and>
    (let A = (edges g)\<^sup>* `` changed_members pr paths
     in case affected_graph False test_mode pr paths of
          None \<Rightarrow> False
        | Some None \<Rightarrow> A = {}
        | Some (Some h) \<Rightarrow> A \<noteq> {} \<and> wf_graph h \<and> distinct (map payload (nodes h)) \<and>
            set (map payload (nodes h)) = (\<lambda>i. pr_members pr ! i) ` A \<and>
            {(payload (nodes h ! x), payload (nodes h ! y)) | x y. (x, y) \<in> edges h} =
            {(pr_members pr ! a, pr_members pr ! b) | a b. (a, b) \<in> edges g \<and> a \<in> A \<and> b \<in> A})"
proof -
  obtain g where g: "build_graph_with False test_mode pr = Some g" "wf_graph g" "map payload (nodes g) = pr_members pr"
    using project_graph_spec[OF assms, of test_mode] by blast
  have len: "len g = length (pr_members pr)" using arg_cong[OF g(3), of length] by simp
  have pay: "payload (nodes g ! i) = pr_members pr ! i" if "i < len g" for i
    using that g(3) by (metis length_nodes nth_map)
  let ?A = "(edges g)\<^sup>* `` changed_members pr paths"
  let ?aff = "affected_nodes g (owner_ids pr paths g)"
  have ch: "set (owner_ids pr paths g) = changed_members pr paths" using g by (intro owner_ids_set) simp_all
  moreover have "{c \<in> changed_members pr paths. c < len g} = changed_members pr paths"
    by (auto simp: changed_members_def len)
  ultimately have aff: "distinct ?aff" "set ?aff = ?A"
    using affected_nodes_spec[of g "owner_ids pr paths g"] g(2) by simp_all
  have bound: "i < len g" if "i \<in> ?A" for i
    using that edges_rtrancl_bound[of g _ i] g(2) by (auto simp: changed_members_def len)
  show ?thesis
  proof (cases "?aff = []")
    case True
    then have "?A = {}" using aff(2) by simp
    with True g(1) show ?thesis by (intro exI[of _ g]) (simp add: affected_graph_def Let_def)
  next
    case False
    obtain h m where h: "subgraph g ?aff = Some h" "wf_graph h"
      "map payload (nodes h) = map (\<lambda>i. payload (nodes g ! i)) (filter (\<lambda>i. i < len g) ?aff)"
      "dom m = {i \<in> set ?aff. i < len g}"
      "\<forall>i j. m i = Some j \<longrightarrow> j < len h \<and> filter (\<lambda>i. i < len g) ?aff ! j = i"
      "edges h = {(x, y). \<exists>a b. (a, b) \<in> edges g \<and> m a = Some x \<and> m b = Some y}"
      using subgraph_correct[OF g(2), of ?aff] by blast
    have all: "filter (\<lambda>i. i < len g) ?aff = ?aff" using aff(2) bound by (auto simp: filter_id_conv)
    have names: "map payload (nodes h) = map (\<lambda>i. pr_members pr ! i) ?aff"
      unfolding h(3) all using aff(2) bound by (auto simp: pay)
    have dist: "distinct (map payload (nodes h))"
      unfolding names distinct_map aff(2) using aff(1) inj_on_nth[OF assms, of ?A] bound by (simp add: len)
    have at: "payload (nodes h ! j) = pr_members pr ! i" if "m i = Some j" for i j
    proof -
      from h(5) that have j: "j < len h" "?aff ! j = i" unfolding all by auto
      then have "payload (nodes h ! j) = map payload (nodes h) ! j" by simp
      also have "\<dots> = pr_members pr ! i" unfolding names using j arg_cong[OF names, of length] by simp
      finally show ?thesis .
    qed
    have "dom m = ?A" unfolding h(4) aff(2) using bound by blast
    then have dom: "i \<in> ?A \<longleftrightarrow> (\<exists>j. m i = Some j)" for i by (metis domD domI)
    have "{(payload (nodes h ! x), payload (nodes h ! y)) | x y. (x, y) \<in> edges h} =
        {(pr_members pr ! a, pr_members pr ! b) | a b. (a, b) \<in> edges g \<and> a \<in> ?A \<and> b \<in> ?A}"
      (is "?L = ?R")
    proof (intro equalityI subsetI)
      fix e assume "e \<in> ?L"
      then obtain x y a b where "e = (payload (nodes h ! x), payload (nodes h ! y))" "(a, b) \<in> edges g"
        "m a = Some x" "m b = Some y" unfolding h(6) by blast
      then have "e = (pr_members pr ! a, pr_members pr ! b) \<and> (a, b) \<in> edges g \<and> (\<exists>j. m a = Some j) \<and> (\<exists>j. m b = Some j)"
        using at by simp
      then show "e \<in> ?R" unfolding dom by blast
    next
      fix e assume "e \<in> ?R"
      then obtain a b j k where "e = (pr_members pr ! a, pr_members pr ! b)" "(a, b) \<in> edges g" "m a = Some j" "m b = Some k"
        unfolding dom by blast
      then have "e = (payload (nodes h ! j), payload (nodes h ! k)) \<and> (j, k) \<in> edges h" unfolding h(6) by (auto simp: at)
      then show "e \<in> ?L" by blast
    qed
    moreover have "?A \<noteq> {}" using False aff(2) by (metis set_empty)
    moreover have "set (map payload (nodes h)) = (\<lambda>i. pr_members pr ! i) ` ?A" by (simp add: names aff(2) del: set_map) (simp add: aff(2))
    ultimately show ?thesis
      using g(1) False h(1,2) dist by (intro exI[of _ g]) (simp add: affected_graph_def Let_def)
  qed
qed

subsection \<open>Examples\<close>

definition sample_package :: "string \<Rightarrow> string list \<Rightarrow> cargo_package" where
  "sample_package n dir = \<lparr>pkg_id = n, pkg_name = n, pkg_manifest = (True, dir @ [''Cargo.toml'']), pkg_targets = []\<rparr>"

definition normal_on :: "string \<Rightarrow> node_dep" where
  "normal_on d = \<lparr>nd_pkg = d, nd_kinds = [Normal_Dep]\<rparr>"

definition dev_on :: "string \<Rightarrow> node_dep" where
  "dev_on d = \<lparr>nd_pkg = d, nd_kinds = [Development]\<rparr>"

definition sample_project :: "resolve_node list \<Rightarrow> project" where
  "sample_project nds =
     \<lparr>pr_packages = map (\<lambda>n. sample_package n [''w'', n]) [''app'', ''core'', ''util''],
      pr_members = [''app'', ''core'', ''util''], pr_resolve = Some nds\<rparr>"

definition sample_nodes :: "resolve_node list" where
  "sample_nodes =
     [\<lparr>rn_id = ''app'', rn_deps = [normal_on ''util'', normal_on ''core'', normal_on ''serde'']\<rparr>,
      \<lparr>rn_id = ''core'', rn_deps = []\<rparr>, \<lparr>rn_id = ''serde'', rn_deps = []\<rparr>, \<lparr>rn_id = ''util'', rn_deps = []\<rparr>]"

lemma sample_ok: "cargo_ok (sample_project nds)"
  by (simp add: cargo_ok_def sample_project_def package_def sample_package_def pkg_names_def inj_on_def)

lemma sample_members: "pr_members (sample_project nds) = [''app'', ''core'', ''util'']"
  by (simp add: sample_project_def)

theorem build_order_correct_witness:
  "\<exists>order. build_order (sample_project sample_nodes) = Some order \<and>
     order = [''core'', ''util'', ''app''] \<and> set order = set (pr_members (sample_project sample_nodes))"
proof -
  have "build_order (sample_project sample_nodes) = Some [''core'', ''util'', ''app'']" by code_simp
  moreover have "pr_resolve (sample_project sample_nodes) = Some sample_nodes" by (simp add: sample_project_def)
  ultimately show ?thesis using build_order_correct[OF sample_ok, of sample_nodes sample_nodes] by auto
qed

theorem project_graph_correct_witness:
  "\<exists>g. build_graph_with False False (sample_project sample_nodes) = Some g \<and> wf_graph g \<and>
     map payload (nodes g) = [''app'', ''core'', ''util'']"
  using project_graph_correct[of "sample_project sample_nodes" False] by (auto simp: sample_members)

text \<open>A development dependency that closes a cycle with a normal one of a later package displaces it.\<close>

definition cyclic_nodes :: "resolve_node list" where
  "cyclic_nodes =
     [\<lparr>rn_id = ''core'', rn_deps = [dev_on ''util'']\<rparr>, \<lparr>rn_id = ''util'', rn_deps = [normal_on ''core'']\<rparr>]"

lemma normal_dependency_lost:
  "map_option deps (build_graph_with False True (sample_project cyclic_nodes)) = Some [[], [2], []]"
  "build_graph_with True True (sample_project cyclic_nodes) = None"
  by code_simp+

theorem affected_graph_correct_witness:
  "\<exists>g. build_graph_with False False (sample_project sample_nodes) = Some g \<and>
     map_option (map_option (\<lambda>h. map payload (nodes h)))
       (affected_graph False False (sample_project sample_nodes) [(True, [''w'', ''core'', ''lib.rs''])]) =
     Some (Some [''core'', ''app''])"
proof -
  have "map_option (map_option (\<lambda>h. map payload (nodes h)))
       (affected_graph False False (sample_project sample_nodes) [(True, [''w'', ''core'', ''lib.rs''])]) =
     Some (Some [''core'', ''app''])" by code_simp
  then show ?thesis
    using affected_graph_correct[of "sample_project sample_nodes" False] by (auto simp: sample_members)
qed

end
