(* ===== verification/Plugin_Rules.thy ===== *)
theory Plugin_Rules
  imports Remote_Worker Graph_Api "HOL-Library.Char_ord" "HOL-Library.List_Lexorder"
begin

text \<open>
  The rules of a plugin manifest as a build graph: \<open>fish-plugin/src/lib.rs\<close> and \<open>rule.rs\<close>. The
  hash, applied to all bytes fed to it, and what is found at the input paths below the root are
  arguments. Reading the manifest is in \<open>Starlark_Parser\<close>.
\<close>

record rule_spec =
  rl_name :: string
  rl_command :: string
  rl_args :: "string list"
  rl_inputs :: "string list"
  rl_outputs :: "string list"
  rl_depends_on :: "string list"
  rl_env :: "(string, string) hash_map"

record rules_manifest =
  mf_name :: string
  mf_rules :: "rule_spec list"

datatype plugin_error =
    Unresolved_Rules "string list"
  | Unknown_Dependency string string
  | Plugin_Io
  | Plugin_Graph graph_error

record plugin_host =
  ph_hash :: "octets \<Rightarrow> string"
  ph_input :: "string \<Rightarrow> local_entry option"

subsection \<open>Fingerprints\<close>

text \<open>The bytes of a directory, its entries by name; unreadable entries of a listing are skipped.\<close>

definition listed_entries :: "(string \<times> local_entry) option list \<Rightarrow> (string \<times> local_entry) list" where
  "listed_entries es = sort_key fst (List.map_filter (\<lambda>e. e) es)"

lemma listed_entries_in: "x \<in> set (listed_entries es) \<longleftrightarrow> Some x \<in> set es"
  by (auto simp: listed_entries_def map_filter_def image_iff)

lemma listed_entries_size:
  "(n, e) \<in> set (listed_entries es) \<Longrightarrow> size e < Suc (size_list (size_option (\<lambda>x. Suc (size (snd x)))) es)"
proof -
  assume "(n, e) \<in> set (listed_entries es)"
  then have "Some (n, e) \<in> set es" by (simp add: listed_entries_in)
  from size_list_estimation'[OF this, of "size e" "size_option (\<lambda>x. Suc (size (snd x)))"] show ?thesis
    by (simp add: less_Suc_eq_le)
qed

function hash_dir_simple :: "local_entry \<Rightarrow> octets option" where
  "hash_dir_simple (Local_Dir None) = None"
| "hash_dir_simple (Local_Dir (Some es)) =
     map_option concat (opt_all (map (\<lambda>(n, e).
       case e of
         Local_Dir _ \<Rightarrow> hash_dir_simple e
       | Local_File c _ _ \<Rightarrow> map_option ((@) (utf8_bytes n)) c
       | Local_Other \<Rightarrow> Some []) (listed_entries es)))"
| "hash_dir_simple (Local_File c t x) = Some []"
| "hash_dir_simple Local_Other = Some []"
  by pat_completeness auto
termination hash_dir_simple
  by (relation "measure size") (auto simp: size_prod_simp dest: listed_entries_size)

definition input_bytes :: "plugin_host \<Rightarrow> string \<Rightarrow> octets option" where
  "input_bytes h p =
     (case ph_input h p of
        None \<Rightarrow> Some []
      | Some (Local_File c _ _) \<Rightarrow> c
      | Some (Local_Dir es) \<Rightarrow> hash_dir_simple (Local_Dir es)
      | Some Local_Other \<Rightarrow> Some [])"

definition rule_bytes :: "plugin_host \<Rightarrow> rule_spec \<Rightarrow> octets option" where
  "rule_bytes h r =
     map_option (\<lambda>inputs.
        utf8_bytes (rl_name r) @ utf8_bytes (rl_command r) @ concat (map utf8_bytes (rl_args r)) @
        concat (map (\<lambda>k. utf8_bytes k @ utf8_bytes (the (hm_get (rl_env r) k))) (sort (hm_keys (rl_env r)))) @ inputs)
      (if rl_inputs r = [] then Some (utf8_bytes ''all_sources'')
       else map_option concat (opt_all (map (input_bytes h) (rl_inputs r))))"

definition compute_rule_fingerprint :: "plugin_host \<Rightarrow> rule_spec \<Rightarrow> string option" where
  "compute_rule_fingerprint h r = map_option (ph_hash h) (rule_bytes h r)"

definition combined_fingerprint :: "plugin_host \<Rightarrow> string \<Rightarrow> string list \<Rightarrow> string" where
  "combined_fingerprint h base fps = ph_hash h (utf8_bytes base @ concat (map utf8_bytes (sort fps)))"

subsection \<open>The graph\<close>

definition rule_task :: "plugin_host \<Rightarrow> string \<Rightarrow> string \<Rightarrow> rule_spec \<Rightarrow> string \<Rightarrow> task" where
  "rule_task h root mname r fp =
     (let c = foldl (\<lambda>c a. with_arg a c) (new_command (rl_command r)) (rl_args r);
          c = foldl (\<lambda>c (k, v). with_env k v c) c (rl_env r);
          c = c\<lparr>cwd := Some root\<rparr>;
          l = (if mname = [] then rl_name r else mname @ '':'' @ rl_name r)
      in with_cache \<lparr>key = ''plugin/'' @ take 12 (ph_hash h (utf8_bytes root)) @ ''/'' @ rl_name r, fingerprint = fp\<rparr>
           (new_task l (command_line c) c))"

record rule_state =
  rs_graph :: "task build_graph"
  rs_nodes :: "(string, nat) hash_map"
  rs_fps :: "(string, string) hash_map"

text \<open>The dependency whose fingerprint is missing, if there is one.\<close>

definition missing_dep :: "rule_state \<Rightarrow> rule_spec \<Rightarrow> string option" where
  "missing_dep s r = find (\<lambda>d. hm_get (rs_fps s) d = None) (rl_depends_on r)"

definition add_rule ::
  "plugin_host \<Rightarrow> string \<Rightarrow> string \<Rightarrow> rule_state \<Rightarrow> rule_spec \<Rightarrow> plugin_error + rule_state" where
  "add_rule h root mname s r =
     (case compute_rule_fingerprint h r of
        None \<Rightarrow> Inl Plugin_Io
      | Some base \<Rightarrow>
          (case missing_dep s r of
             Some d \<Rightarrow> Inl (Unknown_Dependency (rl_name r) d)
           | None \<Rightarrow>
               (let fp = combined_fingerprint h base (map (\<lambda>d. the (hm_get (rs_fps s) d)) (rl_depends_on r));
                    (n, g) = add_node (rule_task h root mname r fp) (rs_graph s)
                in Inr \<lparr>rs_graph = g, rs_nodes = hm_insert (rl_name r) n (rs_nodes s),
                        rs_fps = hm_insert (rl_name r) fp (rs_fps s)\<rparr>)))"

fun add_rules ::
  "plugin_host \<Rightarrow> string \<Rightarrow> string \<Rightarrow> rule_state \<Rightarrow> rule_spec list \<Rightarrow> plugin_error + rule_state" where
  "add_rules h root mname s [] = Inr s"
| "add_rules h root mname s (r # rs) =
     (case add_rule h root mname s r of Inl e \<Rightarrow> Inl e | Inr s' \<Rightarrow> add_rules h root mname s' rs)"

definition ready_rules :: "rule_state \<Rightarrow> rule_spec list \<Rightarrow> rule_spec list" where
  "ready_rules s rules =
     filter (\<lambda>r. \<forall>d \<in> set (rl_depends_on r). hm_get (rs_nodes s) d \<noteq> None)
       (filter (\<lambda>r. hm_get (rs_nodes s) (rl_name r) = None) rules)"

lemma add_rule_nodes:
  "add_rule h root mname s r = Inr s' \<Longrightarrow> \<exists>n. rs_nodes s' = hm_insert (rl_name r) n (rs_nodes s)"
  by (auto simp: add_rule_def Let_def split: option.splits prod.splits)

lemma add_rules_length: "add_rules h root mname s rs = Inr s' \<Longrightarrow> length (rs_nodes s) \<le> length (rs_nodes s')"
proof (induction rs arbitrary: s)
  case (Cons r rs)
  then obtain s1 where "add_rule h root mname s r = Inr s1" "add_rules h root mname s1 rs = Inr s'"
    by (auto split: sum.splits)
  moreover from this(1) have "length (rs_nodes s) \<le> length (rs_nodes s1)"
    by (auto dest!: add_rule_nodes simp: length_hm_insert)
  ultimately show ?case using Cons.IH by (meson le_trans)
qed simp

lemma round_progress:
  assumes "ready_rules s rules \<noteq> []" "add_rules h root mname s (ready_rules s rules) = Inr s'"
  shows "length (rs_nodes s) < length (rs_nodes s')"
proof -
  obtain r rs where r: "ready_rules s rules = r # rs" using assms(1) by (cases "ready_rules s rules") auto
  then have "r \<in> set (ready_rules s rules)" by simp
  then have "hm_get (rs_nodes s) (rl_name r) = None" by (simp add: ready_rules_def)
  with assms(2) r show ?thesis
    by (auto split: sum.splits dest!: add_rule_nodes add_rules_length simp: length_hm_insert)
qed

function rules_loop ::
  "plugin_host \<Rightarrow> string \<Rightarrow> rules_manifest \<Rightarrow> rule_state \<Rightarrow> plugin_error + rule_state" where
  "rules_loop h root mf s =
     (if length (rs_nodes s) < length (mf_rules mf) then
        (let ready = ready_rules s (mf_rules mf)
         in if ready = [] then
              Inl (Unresolved_Rules (map rl_name (filter (\<lambda>r. hm_get (rs_nodes s) (rl_name r) = None) (mf_rules mf))))
            else case add_rules h root (mf_name mf) s ready of
                Inl e \<Rightarrow> Inl e
              | Inr s' \<Rightarrow> rules_loop h root mf s')
      else Inr s)"
  by pat_completeness auto
termination rules_loop
  by (relation "measure (\<lambda>(h, root, mf, s). length (mf_rules mf) - length (rs_nodes s))")
     (auto dest: round_progress intro: diff_less_mono2)

declare rules_loop.simps [simp del]

text \<open>\<open>None\<close> is a missing key of an index expression.\<close>

fun link_rule :: "(string, nat) hash_map \<Rightarrow> nat \<Rightarrow> task build_graph \<Rightarrow> string list \<Rightarrow> (plugin_error + task build_graph) option" where
  "link_rule nm n g [] = Some (Inr g)"
| "link_rule nm n g (d # ds) =
     (case hm_get nm d of
        None \<Rightarrow> None
      | Some m \<Rightarrow>
          (case add_dependency m n g of
             Inl e \<Rightarrow> Some (Inl (Plugin_Graph e))
           | Inr g' \<Rightarrow> link_rule nm n g' ds))"

fun link_rules :: "(string, nat) hash_map \<Rightarrow> task build_graph \<Rightarrow> rule_spec list \<Rightarrow> (plugin_error + task build_graph) option" where
  "link_rules nm g [] = Some (Inr g)"
| "link_rules nm g (r # rs) =
     (case hm_get nm (rl_name r) of
        None \<Rightarrow> None
      | Some n \<Rightarrow>
          (case link_rule nm n g (rl_depends_on r) of
             Some (Inr g') \<Rightarrow> link_rules nm g' rs
           | other \<Rightarrow> other))"

definition build_task_graph ::
  "plugin_host \<Rightarrow> string \<Rightarrow> rules_manifest \<Rightarrow> (plugin_error + task build_graph) option" where
  "build_task_graph h root mf =
     (case rules_loop h root mf \<lparr>rs_graph = new_graph, rs_nodes = [], rs_fps = []\<rparr> of
        Inl e \<Rightarrow> Some (Inl e)
      | Inr s \<Rightarrow> link_rules (rs_nodes s) (rs_graph s) (mf_rules mf))"

subsection \<open>One rule\<close>

text \<open>What the loop knows after the rules \<open>rs\<close>, in this order.\<close>

definition rules_inv :: "plugin_host \<Rightarrow> string \<Rightarrow> string \<Rightarrow> rule_spec list \<Rightarrow> rule_state \<Rightarrow> bool" where
  "rules_inv h root mname rs s \<longleftrightarrow>
     distinct (map rl_name rs) \<and> length (rs_nodes s) = length rs \<and>
     (\<forall>n i. hm_get (rs_nodes s) n = Some i \<longleftrightarrow> i < length rs \<and> rl_name (rs ! i) = n) \<and>
     (\<forall>n. hm_get (rs_fps s) n = None \<longleftrightarrow> n \<notin> rl_name ` set rs) \<and>
     wf_graph (rs_graph s) \<and> edges (rs_graph s) = {} \<and>
     map payload (nodes (rs_graph s)) = map (\<lambda>r. rule_task h root mname r (the (hm_get (rs_fps s) (rl_name r)))) rs \<and>
     (\<forall>j < length rs. set (rl_depends_on (rs ! j)) \<subseteq> rl_name ` set (take j rs)) \<and>
     (\<forall>r \<in> set rs. \<exists>base. compute_rule_fingerprint h r = Some base \<and>
        hm_get (rs_fps s) (rl_name r) =
          Some (combined_fingerprint h base (map (\<lambda>d. the (hm_get (rs_fps s) d)) (rl_depends_on r))))"

lemma rules_inv_nodes:
  assumes "rules_inv h root mname rs s"
  shows "hm_get (rs_nodes s) n = None \<longleftrightarrow> n \<notin> rl_name ` set rs"
proof -
  have "hm_get (rs_nodes s) n = Some i \<longleftrightarrow> i < length rs \<and> rl_name (rs ! i) = n" for i
    using assms by (simp add: rules_inv_def)
  moreover have "(\<exists>i. i < length rs \<and> rl_name (rs ! i) = n) \<longleftrightarrow> n \<in> rl_name ` set rs"
    unfolding image_iff Bex_def in_set_conv_nth by blast
  ultimately show ?thesis by (metis not_None_eq)
qed

lemma add_rule_inv:
  assumes inv: "rules_inv h root mname rs s" and new: "rl_name r \<notin> rl_name ` set rs"
    and deps: "set (rl_depends_on r) \<subseteq> rl_name ` set rs" and base: "compute_rule_fingerprint h r = Some base"
  shows "\<exists>s'. add_rule h root mname s r = Inr s' \<and> rules_inv h root mname (rs @ [r]) s'"
proof -
  let ?fp = "combined_fingerprint h base (map (\<lambda>d. the (hm_get (rs_fps s) d)) (rl_depends_on r))"
  let ?s = "\<lparr>rs_graph = snd (add_node (rule_task h root mname r ?fp) (rs_graph s)),
     rs_nodes = hm_insert (rl_name r) (len (rs_graph s)) (rs_nodes s), rs_fps = hm_insert (rl_name r) ?fp (rs_fps s)\<rparr>"
  note I = inv[unfolded rules_inv_def]
  have len: "len (rs_graph s) = length rs" using I by (metis length_map length_nodes)
  have "missing_dep s r = None" using deps I by (auto simp: missing_dep_def find_None_iff)
  then have step: "add_rule h root mname s r = Inr ?s"
    by (simp add: add_rule_def base Let_def split: prod.split) (metis add_node_fst fst_conv snd_conv)
  have keep: "hm_get (rs_fps ?s) n = hm_get (rs_fps s) n" if "n \<in> rl_name ` set rs" for n
  proof -
    have "n \<noteq> rl_name r" using that new by blast
    then show ?thesis by simp
  qed
  have same: "map (\<lambda>d. the (hm_get (rs_fps ?s) d)) (rl_depends_on q) = map (\<lambda>d. the (hm_get (rs_fps s) d)) (rl_depends_on q)"
    if "set (rl_depends_on q) \<subseteq> rl_name ` set rs" for q
    using that by (intro map_cong refl arg_cong[of _ _ the] keep) blast
  have old: "set (rl_depends_on q) \<subseteq> rl_name ` set rs" if "q \<in> set rs" for q
  proof -
    from that obtain j where "j < length rs" "q = rs ! j" by (auto simp: in_set_conv_nth)
    with I have "set (rl_depends_on q) \<subseteq> rl_name ` set (take j rs)" by blast
    then show ?thesis using set_take_subset[of j rs] by blast
  qed
  have "rules_inv h root mname (rs @ [r]) ?s"
    unfolding rules_inv_def
  proof (intro conjI allI ballI impI)
    show "distinct (map rl_name (rs @ [r]))" using I new by simp
    show "length (rs_nodes ?s) = length (rs @ [r])"
      using I new rules_inv_nodes[OF inv, of "rl_name r"] by (simp add: length_hm_insert)
    show "hm_get (rs_nodes ?s) n = Some i \<longleftrightarrow> i < length (rs @ [r]) \<and> rl_name ((rs @ [r]) ! i) = n" for n i
    proof (cases "n = rl_name r")
      case True
      have "rl_name (rs ! i) \<noteq> rl_name r" if "i < length rs" using new that by (metis image_eqI nth_mem)
      with True len show ?thesis by (auto simp: nth_append less_Suc_eq)
    next
      case False
      with I show ?thesis by (auto simp: nth_append less_Suc_eq)
    qed
    show "hm_get (rs_fps ?s) n = None \<longleftrightarrow> n \<notin> rl_name ` set (rs @ [r])" for n using I by auto
    show "wf_graph (rs_graph ?s)" using I by (simp add: wf_add_node)
    show "edges (rs_graph ?s) = {}" using I by simp
    have "map (\<lambda>r. rule_task h root mname r (the (hm_get (rs_fps s) (rl_name r)))) rs =
        map (\<lambda>r. rule_task h root mname r (the (hm_get (rs_fps ?s) (rl_name r)))) rs"
      using keep by (intro map_cong) auto
    then show "map payload (nodes (rs_graph ?s)) =
        map (\<lambda>r. rule_task h root mname r (the (hm_get (rs_fps ?s) (rl_name r)))) (rs @ [r])"
      using I by simp
    show "set (rl_depends_on ((rs @ [r]) ! j)) \<subseteq> rl_name ` set (take j (rs @ [r]))" if "j < length (rs @ [r])" for j
      using that I deps by (auto simp: nth_append less_Suc_eq)
  next
    fix q assume "q \<in> set (rs @ [r])"
    then consider "q \<in> set rs" | "q = r" by auto
    then show "\<exists>base. compute_rule_fingerprint h q = Some base \<and> hm_get (rs_fps ?s) (rl_name q) =
          Some (combined_fingerprint h base (map (\<lambda>d. the (hm_get (rs_fps ?s) d)) (rl_depends_on q)))"
    proof cases
      case 1
      show ?thesis unfolding same[OF old[OF 1]] keep[OF imageI[OF 1]] using I 1 by blast
    next
      case 2
      show ?thesis unfolding 2 same[OF deps] using base by (intro exI[of _ base]) simp
    qed
  qed
  with step show ?thesis by blast
qed

subsection \<open>All rules\<close>

lemma add_rules_inv:
  assumes "rules_inv h root mname rs s" "distinct (map rl_name (rs @ xs))"
    and "\<And>x. x \<in> set xs \<Longrightarrow> set (rl_depends_on x) \<subseteq> rl_name ` set rs \<and> compute_rule_fingerprint h x \<noteq> None"
  shows "\<exists>s'. add_rules h root mname s xs = Inr s' \<and> rules_inv h root mname (rs @ xs) s'"
  using assms
proof (induction xs arbitrary: rs s)
  case (Cons x xs)
  obtain base where base: "compute_rule_fingerprint h x = Some base" using Cons.prems(3)[of x] by auto
  have "rl_name x \<notin> rl_name ` set rs" using Cons.prems(2) by auto
  from add_rule_inv[OF Cons.prems(1) this _ base] Cons.prems(3)[of x] obtain s1 where
    s1: "add_rule h root mname s x = Inr s1" "rules_inv h root mname (rs @ [x]) s1" by auto
  have "\<exists>s'. add_rules h root mname s1 xs = Inr s' \<and> rules_inv h root mname ((rs @ [x]) @ xs) s'"
    by (rule Cons.IH[OF s1(2)]) (use Cons.prems(2,3) in auto)
  with s1(1) show ?case by auto
qed auto

definition rule_deps :: "rule_spec list \<Rightarrow> (string \<times> string) set" where
  "rule_deps rules = {(d, rl_name r) | d r. r \<in> set rules \<and> d \<in> set (rl_depends_on r)}"

definition solvable :: "rule_spec list \<Rightarrow> bool" where
  "solvable rules \<longleftrightarrow>
     distinct (map rl_name rules) \<and> (\<forall>r \<in> set rules. set (rl_depends_on r) \<subseteq> rl_name ` set rules) \<and>
     acyclic (rule_deps rules)"

lemma distinct_names_eq:
  "distinct (map rl_name rules) \<Longrightarrow> r \<in> set rules \<Longrightarrow> q \<in> set rules \<Longrightarrow> rl_name r = rl_name q \<Longrightarrow> r = q"
  by (auto simp: distinct_map dest: inj_onD)

lemma stuck_not_solvable:
  assumes "solvable rules" "set rs \<subseteq> set rules" "r \<in> set rules" "r \<notin> set rs"
  shows "\<exists>q \<in> set rules. q \<notin> set rs \<and> set (rl_depends_on q) \<subseteq> rl_name ` set rs"
proof -
  let ?S = "rl_name ` (set rules - set rs)"
  obtain n where n: "n \<in> ?S" "\<forall>y \<in> ?S. (y, n) \<notin> rule_deps rules"
    using acyclic_has_source[of ?S "rule_deps rules"] assms by (auto simp: solvable_def)
  then obtain q where q: "q \<in> set rules" "q \<notin> set rs" "n = rl_name q" by auto
  have "d \<in> rl_name ` set rs" if "d \<in> set (rl_depends_on q)" for d
  proof -
    have "d \<in> rl_name ` set rules" using that q assms(1) by (auto simp: solvable_def)
    moreover have "d \<notin> ?S" using that q n(2) by (auto simp: rule_deps_def)
    ultimately show ?thesis by blast
  qed
  with q show ?thesis by blast
qed

lemma inv_solvable:
  assumes "rules_inv h root mname rs s" "set rs = set rules" "distinct (map rl_name rules)"
  shows "solvable rules"
proof -
  note I = assms(1)[unfolded rules_inv_def]
  let ?pos = "\<lambda>n. the (hm_get (rs_nodes s) n)"
  have pos: "?pos (rl_name (rs ! i)) = i" if "i < length rs" for i
  proof -
    have "hm_get (rs_nodes s) (rl_name (rs ! i)) = Some i" using I that by blast
    then show ?thesis by simp
  qed
  have earlier: "\<exists>i < j. d = rl_name (rs ! i)" if "j < length rs" "d \<in> set (rl_depends_on (rs ! j))" for d j
  proof -
    from that I have "d \<in> rl_name ` set (take j rs)" by blast
    then show ?thesis using that(1) by (force simp: in_set_conv_nth)
  qed
  have "?pos d < ?pos n" if "(d, n) \<in> rule_deps rules" for d n
  proof -
    from that assms(2) obtain r where "r \<in> set rs" "n = rl_name r" "d \<in> set (rl_depends_on r)"
      by (auto simp: rule_deps_def)
    then obtain j where "j < length rs" "n = rl_name (rs ! j)" "d \<in> set (rl_depends_on (rs ! j))"
      by (metis in_set_conv_nth)
    with earlier[of j d] pos show ?thesis by fastforce
  qed
  then have "acyclic (rule_deps rules)" by (rule acyclic_by_rank)
  moreover have "set (rl_depends_on r) \<subseteq> rl_name ` set rules" if "r \<in> set rules" for r
  proof -
    from that assms(2) obtain j where "j < length rs" "r = rs ! j" by (metis in_set_conv_nth)
    with I have "set (rl_depends_on r) \<subseteq> rl_name ` set (take j rs)" by blast
    then show ?thesis using set_take_subset[of j rs] assms(2) by blast
  qed
  ultimately show ?thesis using assms(3) by (simp add: solvable_def)
qed

lemma rules_loop_spec:
  assumes "rules_inv h root (mf_name mf) rs s" "set rs \<subseteq> set (mf_rules mf)" "distinct (map rl_name (mf_rules mf))"
    and "\<And>r. r \<in> set (mf_rules mf) \<Longrightarrow> compute_rule_fingerprint h r \<noteq> None"
  shows "(\<exists>rs' s'. rules_loop h root mf s = Inr s' \<and> rules_inv h root (mf_name mf) rs' s' \<and> set rs' = set (mf_rules mf)) \<or>
     (\<exists>ns. rules_loop h root mf s = Inl (Unresolved_Rules ns) \<and> \<not> solvable (mf_rules mf))"
  using assms
proof (induction h root mf s arbitrary: rs rule: rules_loop.induct)
  case (1 h root mf s)
  let ?rules = "mf_rules mf"
  note inv = "1.prems"(1)
  have nodes: "hm_get (rs_nodes s) n = None \<longleftrightarrow> n \<notin> rl_name ` set rs" for n by (rule rules_inv_nodes[OF inv])
  have dist: "distinct (map rl_name rs)" and len: "length (rs_nodes s) = length rs" using inv by (simp_all add: rules_inv_def)
  have seen: "rl_name r \<in> rl_name ` set rs \<longleftrightarrow> r \<in> set rs" if "r \<in> set ?rules" for r
    using that "1.prems"(2,3) by (auto dest: distinct_names_eq)
  have ready: "ready_rules s ?rules = filter (\<lambda>r. r \<notin> set rs \<and> set (rl_depends_on r) \<subseteq> rl_name ` set rs) ?rules"
    unfolding ready_rules_def filter_filter by (rule filter_cong) (auto simp: nodes seen subset_iff)
  show ?case
  proof (cases "length (rs_nodes s) < length ?rules")
    case False
    have "card (set ?rules) \<le> card (set rs)"
      using False len distinct_card[OF distinct_map[THEN iffD1, THEN conjunct1, OF dist]] distinct_card[OF distinct_map[THEN iffD1, THEN conjunct1, OF "1.prems"(3)]] by simp
    with "1.prems"(2) have "set rs = set ?rules" by (intro card_seteq) simp_all
    with False inv show ?thesis by (simp add: rules_loop.simps[of h root mf s]) blast
  next
    case True
    show ?thesis
    proof (cases "ready_rules s ?rules = []")
      case r: True
      have "\<not> set ?rules \<subseteq> set rs"
        using True len distinct_card[OF distinct_map[THEN iffD1, THEN conjunct1, OF "1.prems"(3)]] card_mono[of "set rs" "set ?rules"] card_length[of rs] by auto
      then obtain r where "r \<in> set ?rules" "r \<notin> set rs" by blast
      with stuck_not_solvable[OF _ "1.prems"(2)] r have "\<not> solvable ?rules"
        unfolding ready by (auto simp: filter_empty_conv)
      moreover have "\<exists>ns. rules_loop h root mf s = Inl (Unresolved_Rules ns)"
        using True r by (simp add: rules_loop.simps[of h root mf s])
      ultimately show ?thesis by blast
    next
      case r: False
      have "\<exists>s'. add_rules h root (mf_name mf) s (ready_rules s ?rules) = Inr s' \<and>
          rules_inv h root (mf_name mf) (rs @ ready_rules s ?rules) s'"
      proof (rule add_rules_inv[OF inv])
        show "distinct (map rl_name (rs @ ready_rules s ?rules))"
          using dist "1.prems"(2,3) unfolding ready by (auto simp: distinct_map_filter dest: distinct_names_eq[OF "1.prems"(3)])
      qed (use "1.prems"(4) in \<open>auto simp: ready\<close>)
      then obtain s' where s': "add_rules h root (mf_name mf) s (ready_rules s ?rules) = Inr s'"
        "rules_inv h root (mf_name mf) (rs @ ready_rules s ?rules) s'" by blast
      have sub: "set (rs @ ready_rules s ?rules) \<subseteq> set ?rules" using "1.prems"(2) by (auto simp: ready)
      have "rules_loop h root mf s = rules_loop h root mf s'"
        using True r s'(1) by (simp add: rules_loop.simps[of h root mf s] Let_def)
      with "1.IH"[OF True refl r s'(1) s'(2) sub "1.prems"(3,4)] show ?thesis by simp
    qed
  qed
qed

text \<open>With a repeated name the loop cannot end well.\<close>

definition known_rules :: "rule_spec list \<Rightarrow> rule_state \<Rightarrow> bool" where
  "known_rules rules s \<longleftrightarrow>
     distinct (hm_keys (rs_nodes s)) \<and> fst ` set (rs_nodes s) \<subseteq> rl_name ` set rules \<and>
     (\<forall>n. hm_get (rs_nodes s) n = None \<longleftrightarrow> hm_get (rs_fps s) n = None)"

lemma add_rules_known:
  assumes "known_rules rules s" "set xs \<subseteq> set rules"
    and "\<And>x. x \<in> set xs \<Longrightarrow> (\<forall>d \<in> set (rl_depends_on x). hm_get (rs_nodes s) d \<noteq> None) \<and> compute_rule_fingerprint h x \<noteq> None"
  shows "\<exists>s'. add_rules h root mname s xs = Inr s' \<and> known_rules rules s'"
  using assms
proof (induction xs arbitrary: s)
  case (Cons x xs)
  obtain base where base: "compute_rule_fingerprint h x = Some base" using Cons.prems(3)[of x] by auto
  have "missing_dep s x = None"
    using Cons.prems(1) Cons.prems(3)[of x] by (auto simp: missing_dep_def find_None_iff known_rules_def)
  then have "\<exists>s1 n fp. add_rule h root mname s x = Inr s1 \<and>
      rs_nodes s1 = hm_insert (rl_name x) n (rs_nodes s) \<and> rs_fps s1 = hm_insert (rl_name x) fp (rs_fps s)"
    unfolding add_rule_def base Let_def case_prod_unfold by (intro exI conjI) (simp, simp, simp)
  then obtain s1 n fp where s1: "add_rule h root mname s x = Inr s1"
    "rs_nodes s1 = hm_insert (rl_name x) n (rs_nodes s)" "rs_fps s1 = hm_insert (rl_name x) fp (rs_fps s)" by blast
  have "known_rules rules s1"
    using Cons.prems(1,2) s1(2,3) by (auto simp: known_rules_def distinct_update)
  moreover have "(\<forall>d \<in> set (rl_depends_on y). hm_get (rs_nodes s1) d \<noteq> None) \<and> compute_rule_fingerprint h y \<noteq> None"
    if "y \<in> set xs" for y using Cons.prems(3)[of y] that s1(2) by auto
  ultimately show ?case using Cons.IH[of s1] Cons.prems(2) s1(1) by auto
qed auto

lemma repeated_names:
  assumes "\<not> distinct (map rl_name (mf_rules mf))" "known_rules (mf_rules mf) s"
    and "\<And>r. r \<in> set (mf_rules mf) \<Longrightarrow> compute_rule_fingerprint h r \<noteq> None"
  shows "\<exists>ns. rules_loop h root mf s = Inl (Unresolved_Rules ns)"
  using assms
proof (induction h root mf s rule: rules_loop.induct)
  case (1 h root mf s)
  let ?rules = "mf_rules mf"
  have "length (rs_nodes s) = card (fst ` set (rs_nodes s))"
    using "1.prems"(2) distinct_card[of "hm_keys (rs_nodes s)"] by (simp add: known_rules_def)
  also have "\<dots> \<le> card (set (map rl_name ?rules))"
    using "1.prems"(2) by (intro card_mono) (simp_all add: known_rules_def)
  also have "\<dots> < length (map rl_name ?rules)"
    using "1.prems"(1) card_length[of "map rl_name ?rules"] card_distinct[of "map rl_name ?rules"] by linarith
  finally have less: "length (rs_nodes s) < length ?rules" by simp
  show ?case
  proof (cases "ready_rules s ?rules = []")
    case True
    with less show ?thesis by (simp add: rules_loop.simps[of h root mf s])
  next
    case False
    have "\<exists>s'. add_rules h root (mf_name mf) s (ready_rules s ?rules) = Inr s' \<and> known_rules ?rules s'"
      by (rule add_rules_known[OF "1.prems"(2)]) (use "1.prems"(3) in \<open>auto simp: ready_rules_def\<close>)
    then obtain s' where s': "add_rules h root (mf_name mf) s (ready_rules s ?rules) = Inr s'" "known_rules ?rules s'" by blast
    from "1.IH"[OF less refl False s'(1) "1.prems"(1) s'(2) "1.prems"(3)] show ?thesis
      using less False s'(1) by (simp add: rules_loop.simps[of h root mf s] Let_def)
  qed
qed

text \<open>Edges that lead from smaller to larger numbers are all accepted.\<close>

definition below :: "task build_graph \<Rightarrow> bool" where
  "below g \<longleftrightarrow> wf_graph g \<and> (\<forall>(a, b) \<in> edges g. a < b)"

lemma link_rule_spec:
  assumes "below g" "n < len g" "\<And>d. d \<in> set ds \<Longrightarrow> \<exists>m < n. hm_get nm d = Some m"
  shows "\<exists>g'. link_rule nm n g ds = Some (Inr g') \<and> below g' \<and> nodes g' = nodes g \<and>
     edges g' = edges g \<union> {(m, n) | m d. d \<in> set ds \<and> hm_get nm d = Some m}"
  using assms
proof (induction ds arbitrary: g)
  case (Cons d ds)
  obtain m where m: "m < n" "hm_get nm d = Some m" using Cons.prems(3)[of d] by auto
  have g: "wf_graph g" "\<And>a b. (a, b) \<in> edges g \<Longrightarrow> a < b" using Cons.prems(1) by (auto simp: below_def)
  have add: "add_dependency m n g = Inr (with_edge m n g)"
    using add_dependency_ranked[of g m n "\<lambda>x. x"] g m(1) Cons.prems(2) by simp
  have e: "edges (with_edge m n g) = insert (m, n) (edges g)" using g(1) m(1) Cons.prems(2) by (simp add: edges_with_edge)
  have "below (with_edge m n g)"
    using wf_add_dependency[OF g(1) add] e m(1) g(2) by (auto simp: below_def)
  from Cons.IH[OF this] Cons.prems(2,3) obtain g' where
    "link_rule nm n (with_edge m n g) ds = Some (Inr g')" "below g'" "nodes g' = nodes g"
    "edges g' = insert (m, n) (edges g) \<union> {(m, n) | m d. d \<in> set ds \<and> hm_get nm d = Some m}"
    by (auto simp: e)
  with m add show ?case by (intro exI[of _ g']) auto
qed auto

lemma link_rules_spec:
  assumes "below g"
    and "\<And>r. r \<in> set rs \<Longrightarrow> \<exists>n < len g. hm_get nm (rl_name r) = Some n \<and> (\<forall>d \<in> set (rl_depends_on r). \<exists>m < n. hm_get nm d = Some m)"
  shows "\<exists>g'. link_rules nm g rs = Some (Inr g') \<and> below g' \<and> nodes g' = nodes g \<and>
     edges g' = edges g \<union> {(m, n) | m n r d. r \<in> set rs \<and> hm_get nm (rl_name r) = Some n \<and> d \<in> set (rl_depends_on r) \<and> hm_get nm d = Some m}"
  using assms
proof (induction rs arbitrary: g)
  case (Cons r rs)
  obtain n where n: "n < len g" "hm_get nm (rl_name r) = Some n" "\<And>d. d \<in> set (rl_depends_on r) \<Longrightarrow> \<exists>m < n. hm_get nm d = Some m"
    using Cons.prems(2)[of r] by auto
  from link_rule_spec[OF Cons.prems(1) n(1), of "rl_depends_on r" nm] n(3) obtain g1 where
    g1: "link_rule nm n g (rl_depends_on r) = Some (Inr g1)" "below g1" "nodes g1 = nodes g"
      "edges g1 = edges g \<union> {(m, n) | m d. d \<in> set (rl_depends_on r) \<and> hm_get nm d = Some m}" by auto
  have len: "len g1 = len g" using g1(3) by (simp add: len_def del: length_nodes)
  from Cons.IH[OF g1(2)] Cons.prems(2) len obtain g' where
    g': "link_rules nm g1 rs = Some (Inr g')" "below g'" "nodes g' = nodes g1"
      "edges g' = edges g1 \<union> {(m, n) | m n r d. r \<in> set rs \<and> hm_get nm (rl_name r) = Some n \<and> d \<in> set (rl_depends_on r) \<and> hm_get nm d = Some m}"
    by (auto simp del: length_nodes)
  have "edges g' = edges g \<union> {(m, n) | m n q d. q \<in> set (r # rs) \<and> hm_get nm (rl_name q) = Some n \<and> d \<in> set (rl_depends_on q) \<and> hm_get nm d = Some m}"
    unfolding g'(4) g1(4) using n(2) by auto
  with g' g1 n(2) show ?case by (intro exI[of _ g']) auto
qed auto

text \<open>
  C37. When all inputs can be read, the manifest gives a graph exactly if its rule names are distinct,
  every dependency is a rule, and there is no cycle; else it is rejected, and no index expression
  fails. The graph is acyclic; its tasks are those of the rules, one each, its edges are exactly the declared
  dependencies, and the fingerprint of each task combines its own with those of the tasks it depends on.
\<close>

theorem build_task_graph_correct:
  assumes "\<forall>r \<in> set (mf_rules mf). compute_rule_fingerprint h r \<noteq> None"
  shows "if solvable (mf_rules mf)
     then \<exists>g rs fp. build_task_graph h root mf = Some (Inr g) \<and> wf_graph g \<and>
       distinct rs \<and> set rs = set (mf_rules mf) \<and>
       map payload (nodes g) = map (\<lambda>r. rule_task h root (mf_name mf) r (fp (rl_name r))) rs \<and>
       edges g = {(i, j). i < length rs \<and> j < length rs \<and> rl_name (rs ! i) \<in> set (rl_depends_on (rs ! j))} \<and>
       (\<forall>r \<in> set rs. \<exists>base. compute_rule_fingerprint h r = Some base \<and>
          fp (rl_name r) = combined_fingerprint h base (map fp (rl_depends_on r)))
     else \<exists>ns. build_task_graph h root mf = Some (Inl (Unresolved_Rules ns))"
proof -
  let ?rules = "mf_rules mf"
  let ?init = "\<lparr>rs_graph = new_graph, rs_nodes = [], rs_fps = []\<rparr> :: rule_state"
  have init: "rules_inv h root (mf_name mf) [] ?init" "known_rules ?rules ?init"
    by (simp_all add: rules_inv_def known_rules_def new_graph_def[THEN arg_cong, of nodes])
  show ?thesis
  proof (cases "distinct (map rl_name ?rules)")
    case False
    then obtain ns where "rules_loop h root mf ?init = Inl (Unresolved_Rules ns)"
      using repeated_names[OF _ init(2) bspec[OF assms]] by blast
    with False show ?thesis by (simp add: build_task_graph_def solvable_def)
  next
    case True
    from rules_loop_spec[OF init(1) _ True bspec[OF assms]] consider
      (ok) rs s where "rules_loop h root mf ?init = Inr s" "rules_inv h root (mf_name mf) rs s" "set rs = set ?rules"
    | (stuck) ns where "rules_loop h root mf ?init = Inl (Unresolved_Rules ns)" "\<not> solvable ?rules" by auto
    then show ?thesis
    proof cases
      case stuck
      then show ?thesis by (simp add: build_task_graph_def)
    next
      case ok
      note I = ok(2)[unfolded rules_inv_def]
      have nm: "hm_get (rs_nodes s) n = Some i \<longleftrightarrow> i < length rs \<and> rl_name (rs ! i) = n" for n i using I by blast
      have len: "len (rs_graph s) = length rs" using I by (metis length_map length_nodes)
      have "\<exists>n < len (rs_graph s). hm_get (rs_nodes s) (rl_name r) = Some n \<and>
          (\<forall>d \<in> set (rl_depends_on r). \<exists>m < n. hm_get (rs_nodes s) d = Some m)" if "r \<in> set ?rules" for r
      proof -
        from that ok(3) obtain n where n: "n < length rs" "r = rs ! n" by (metis in_set_conv_nth)
        have "\<exists>m < n. hm_get (rs_nodes s) d = Some m" if "d \<in> set (rl_depends_on r)" for d
        proof -
          from that n I have "d \<in> rl_name ` set (take n rs)" by blast
          then obtain m where "m < n" "d = rl_name (rs ! m)" using n(1) by (force simp: in_set_conv_nth)
          then show ?thesis using n(1) nm[of d m] by auto
        qed
        then show ?thesis using n nm[of "rl_name r" n] len by auto
      qed
      moreover have "below (rs_graph s)" using I by (simp add: below_def)
      ultimately obtain g where g: "link_rules (rs_nodes s) (rs_graph s) ?rules = Some (Inr g)" "below g"
        "nodes g = nodes (rs_graph s)" "edges g = edges (rs_graph s) \<union>
          {(m, n) | m n r d. r \<in> set ?rules \<and> hm_get (rs_nodes s) (rl_name r) = Some n \<and> d \<in> set (rl_depends_on r) \<and> hm_get (rs_nodes s) d = Some m}"
        using link_rules_spec[of "rs_graph s" ?rules "rs_nodes s"] by blast
      have rs: "r \<in> set ?rules \<and> n < length rs \<and> rl_name (rs ! n) = rl_name r \<longleftrightarrow> n < length rs \<and> r = rs ! n" for r n
        using ok(3) distinct_names_eq[OF True] by (metis nth_mem)
      have "edges g = {(i, j). i < length rs \<and> j < length rs \<and> rl_name (rs ! i) \<in> set (rl_depends_on (rs ! j))}"
      proof (intro set_eqI, clarify)
        fix m n
        have "(m, n) \<in> edges g \<longleftrightarrow> (\<exists>r d. (r \<in> set ?rules \<and> n < length rs \<and> rl_name (rs ! n) = rl_name r) \<and>
            d \<in> set (rl_depends_on r) \<and> m < length rs \<and> rl_name (rs ! m) = d)"
          unfolding g(4) using I by (auto simp: nm)
        then show "(m, n) \<in> edges g \<longleftrightarrow>
            (m, n) \<in> {(i, j). i < length rs \<and> j < length rs \<and> rl_name (rs ! i) \<in> set (rl_depends_on (rs ! j))}"
          unfolding rs by auto
      qed
      moreover have "distinct rs" using I by (auto simp: distinct_map)
      moreover have "wf_graph g" using g(2) by (simp add: below_def)
      moreover have "solvable ?rules" using inv_solvable[OF ok(2,3) True] .
      moreover have "build_task_graph h root mf = Some (Inr g)" using ok(1) g(1) by (simp add: build_task_graph_def)
      ultimately show ?thesis
        using ok(3) I g(3)
        by (simp only: if_True, intro exI[of _ g] exI[of _ rs] exI[of _ "\<lambda>n. the (hm_get (rs_fps s) n)"]) auto
    qed
  qed
qed

text \<open>The pieces of a fingerprint are not separated, and the outputs of a rule are not artifacts of its task.\<close>

lemma fingerprint_joins_arguments:
  "compute_rule_fingerprint h (r\<lparr>rl_args := [''-o'', ''x'']\<rparr>) = compute_rule_fingerprint h (r\<lparr>rl_args := [''-ox'']\<rparr>)"
  by (simp add: compute_rule_fingerprint_def rule_bytes_def utf8_bytes_def)

lemma outputs_not_artifacts: "artifacts (rule_task h root mname r fp) = []"
  by (simp add: rule_task_def Let_def with_cache_def new_task_def)

definition sample_rule :: "string \<Rightarrow> string list \<Rightarrow> rule_spec" where
  "sample_rule n ds = \<lparr>rl_name = n, rl_command = ''node'', rl_args = [], rl_inputs = [], rl_outputs = [],
     rl_depends_on = ds, rl_env = []\<rparr>"

definition sample_manifest :: rules_manifest where
  "sample_manifest = \<lparr>mf_name = ''engine'', mf_rules = [sample_rule ''compile'' [''codegen''], sample_rule ''codegen'' []]\<rparr>"

definition sample_plugin_host :: plugin_host where
  "sample_plugin_host = \<lparr>ph_hash = map (\<lambda>b. char_of (unat b)), ph_input = (\<lambda>_. None)\<rparr>"

theorem build_task_graph_correct_witness:
  "\<exists>g. build_task_graph sample_plugin_host ''/w'' sample_manifest = Some (Inr g) \<and> wf_graph g \<and>
     map label (map payload (nodes g)) = [''engine:codegen'', ''engine:compile''] \<and> deps g = [[], [0]]"
proof -
  have eval: "map_option (map_sum (\<lambda>_. ()) (\<lambda>g. (map label (map payload (nodes g)), deps g)))
      (build_task_graph sample_plugin_host ''/w'' sample_manifest) =
      Some (Inr ([''engine:codegen'', ''engine:compile''], [[], [0]]))" by code_simp
  then obtain g where g: "build_task_graph sample_plugin_host ''/w'' sample_manifest = Some (Inr g)"
    "map label (map payload (nodes g)) = [''engine:codegen'', ''engine:compile'']" "deps g = [[], [0]]"
    by (cases "the (build_task_graph sample_plugin_host ''/w'' sample_manifest)") auto
  have fp: "\<forall>r \<in> set (mf_rules sample_manifest). compute_rule_fingerprint sample_plugin_host r \<noteq> None"
    by (auto simp: sample_manifest_def sample_rule_def compute_rule_fingerprint_def rule_bytes_def)
  note T = build_task_graph_correct[where mf = sample_manifest and h = sample_plugin_host and root = "''/w''", OF fp]
  have "wf_graph g"
  proof (cases "solvable (mf_rules sample_manifest)")
    case True
    from T[unfolded if_P[OF True]] obtain g' where
      "build_task_graph sample_plugin_host ''/w'' sample_manifest = Some (Inr g')" "wf_graph g'"
      by (elim exE conjE) (rule that)
    with g(1) show ?thesis by (simp only: option.inject sum.inject)
  next
    case False
    from T[unfolded if_not_P[OF False]] obtain ns where
      "build_task_graph sample_plugin_host ''/w'' sample_manifest = Some (Inl (Unresolved_Rules ns))" by (elim exE) (rule that)
    with g(1) show ?thesis by (simp only: option.inject sum.simps)
  qed
  then show ?thesis by (intro exI[of _ g] conjI) (rule g(1), assumption, rule g(2), rule g(3))
qed

end
