(* ===== verification/Starlark_Parser.thy ===== *)
theory Starlark_Parser
  imports Plugin_Rules
begin

text \<open>
  The reader of \<open>BUILD.fish\<close> files, \<open>fish-plugin/src/starlark_parser.rs\<close>, and the choice of the
  manifest, \<open>manifest.rs\<close>. It works line by line: a line opens a rule, closes it, or sets one field.
\<close>

definition quote :: char where
  "quote = CHR 0x22"

abbreviation starts_with :: "string \<Rightarrow> string \<Rightarrow> bool" where
  "starts_with p s \<equiv> prefix p s"

definition ends_with :: "char \<Rightarrow> string \<Rightarrow> bool" where
  "ends_with c s \<longleftrightarrow> s \<noteq> [] \<and> last s = c"

subsection \<open>Values\<close>

definition is_quoted :: "char \<Rightarrow> string \<Rightarrow> bool" where
  "is_quoted q s \<longleftrightarrow> starts_with [q] s \<and> ends_with q s"

definition clean_string :: "string \<Rightarrow> string" where
  "clean_string val =
     (let s = trim val
      in if (is_quoted quote s \<or> is_quoted (CHR 0x27) s) \<and> 2 \<le> length s then butlast (tl s) else s)"

definition parse_string_list :: "string \<Rightarrow> string list" where
  "parse_string_list val =
     (let s = trim val;
          s = (if starts_with ''['' s \<and> ends_with (CHR '']'') s then butlast (tl s) else s)
      in filter (\<lambda>x. x \<noteq> []) (map clean_string (split_char (CHR '','') s)))"

definition parse_key_value :: "string \<Rightarrow> (string \<times> string) option" where
  "parse_key_value line =
     (case splitn2 (CHR ''='') line of
        [k, v] \<Rightarrow>
          (let val = trim v in Some (trim k, if ends_with (CHR '','') val then trim (butlast val) else val))
      | _ \<Rightarrow> None)"

subsection \<open>Rules\<close>

record rule_builder =
  rb_name :: "string option"
  rb_command :: "string option"
  rb_args :: "string list"
  rb_inputs :: "string list"
  rb_outputs :: "string list"
  rb_depends_on :: "string list"
  rb_env :: "(string, string) hash_map"

definition empty_builder :: rule_builder where
  "empty_builder = \<lparr>rb_name = None, rb_command = None, rb_args = [], rb_inputs = [], rb_outputs = [],
     rb_depends_on = [], rb_env = []\<rparr>"

definition set_field :: "string \<Rightarrow> string \<Rightarrow> rule_builder \<Rightarrow> rule_builder" where
  "set_field k v b =
     (if k = ''name'' then b\<lparr>rb_name := Some (clean_string v)\<rparr>
      else if k \<in> {''cmd'', ''command'', ''executable''} then b\<lparr>rb_command := Some (clean_string v)\<rparr>
      else if k \<in> {''args'', ''arguments''} then b\<lparr>rb_args := parse_string_list v\<rparr>
      else if k \<in> {''srcs'', ''inputs'', ''sources''} then b\<lparr>rb_inputs := parse_string_list v\<rparr>
      else if k \<in> {''outs'', ''outputs''} then b\<lparr>rb_outputs := parse_string_list v\<rparr>
      else if k \<in> {''deps'', ''depends_on''} then b\<lparr>rb_depends_on := parse_string_list v\<rparr>
      else b)"

text \<open>\<open>None\<close> is the error of a rule without a name.\<close>

definition build_rule :: "rule_builder \<Rightarrow> rule_spec option" where
  "build_rule b =
     map_option (\<lambda>n. \<lparr>rl_name = n, rl_command = (case rb_command b of None \<Rightarrow> ''echo'' | Some c \<Rightarrow> c),
        rl_args = rb_args b, rl_inputs = rb_inputs b, rl_outputs = rb_outputs b,
        rl_depends_on = rb_depends_on b, rl_env = rb_env b\<rparr>) (rb_name b)"

definition opens_rule :: "string \<Rightarrow> bool" where
  "opens_rule s \<longleftrightarrow> starts_with ''fish_rule('' s \<or> starts_with ''rule('' s \<or> starts_with ''genrule('' s \<or>
     starts_with ''cc_binary('' s \<or> starts_with ''rust_binary('' s"

text \<open>The rules so far and the rule that is being read.\<close>

definition take_rule :: "rule_spec list \<times> rule_builder option \<Rightarrow> rule_spec list option" where
  "take_rule s = (case snd s of None \<Rightarrow> Some (fst s) | Some b \<Rightarrow> map_option (\<lambda>r. fst s @ [r]) (build_rule b))"

definition parse_line ::
  "rule_spec list \<times> rule_builder option \<Rightarrow> string \<Rightarrow> (rule_spec list \<times> rule_builder option) option" where
  "parse_line s line =
     (let t = trim line
      in if t = [] \<or> starts_with ''#'' t then Some s
         else if opens_rule t then map_option (\<lambda>rs. (rs, Some empty_builder)) (take_rule s)
         else if t = '')'' \<or> t = ''),'' then map_option (\<lambda>rs. (rs, None)) (take_rule s)
         else case (snd s, parse_key_value t) of
             (Some b, Some (k, v)) \<Rightarrow> Some (fst s, Some (set_field k v b))
           | _ \<Rightarrow> Some s)"

definition parse_str :: "string \<Rightarrow> rules_manifest option" where
  "parse_str content =
     (case fold_opt parse_line ([], None) (str_lines content) of
        None \<Rightarrow> None
      | Some s \<Rightarrow> map_option (\<lambda>rs. \<lparr>mf_name = ''starlark-manifest'', mf_rules = rs\<rparr>) (take_rule s))"

subsection \<open>The choice of the manifest\<close>

definition manifest_candidates :: "string list" where
  "manifest_candidates = [''fishfile.json'', ''Fishfile.json'', ''fish.rules.json'', ''fish.plugin.json'',
     ''BUILD.fish'', ''BUILD.forge'', ''BUILD.bazel'', ''forge.rules.json'']"

text \<open>The contents of the files below the root, \<open>Some None\<close> for one that cannot be read, and the JSON reader.\<close>

definition discover_or_load ::
  "(string \<Rightarrow> string option option) \<Rightarrow> (string \<Rightarrow> rules_manifest option) \<Rightarrow> rules_manifest option" where
  "discover_or_load files from_json =
     (case find (\<lambda>c. files c \<noteq> None) manifest_candidates of
        None \<Rightarrow> None
      | Some c \<Rightarrow>
          (case files c of
             Some (Some content) \<Rightarrow> (if starts_with ''BUILD.'' c then parse_str content else from_json content)
           | _ \<Rightarrow> None))"

subsection \<open>Reading a printed manifest\<close>

definition quoted :: "string \<Rightarrow> string" where
  "quoted s = [quote] @ s @ [quote]"

fun join_items :: "string list \<Rightarrow> string" where
  "join_items [] = []"
| "join_items [x] = quoted x"
| "join_items (x # y # xs) = quoted x @ '', '' @ join_items (y # xs)"

definition list_text :: "string list \<Rightarrow> string" where
  "list_text xs = ''['' @ join_items xs @ '']''"

definition field_line :: "string \<Rightarrow> string \<Rightarrow> string" where
  "field_line k v = ''    '' @ k @ '' = '' @ v @ '',''"

definition rule_lines :: "rule_spec \<Rightarrow> string list" where
  "rule_lines r =
     [''genrule('', field_line ''name'' (quoted (rl_name r)), field_line ''command'' (quoted (rl_command r)),
      field_line ''args'' (list_text (rl_args r)), field_line ''inputs'' (list_text (rl_inputs r)),
      field_line ''outputs'' (list_text (rl_outputs r)), field_line ''deps'' (list_text (rl_depends_on r)), '')'']"

definition manifest_text :: "rule_spec list \<Rightarrow> string" where
  "manifest_text rs = concat (map (\<lambda>l. l @ [CHR 0x0A]) (concat (map rule_lines rs)))"

definition plain :: "string \<Rightarrow> bool" where
  "plain s \<longleftrightarrow> set s \<inter> {quote, CHR 0x0A, CHR 0x0D} = {}"

definition plain_item :: "string \<Rightarrow> bool" where
  "plain_item s \<longleftrightarrow> plain s \<and> s \<noteq> [] \<and> CHR '','' \<notin> set s"

definition plain_rule :: "rule_spec \<Rightarrow> bool" where
  "plain_rule r \<longleftrightarrow> plain (rl_name r) \<and> plain (rl_command r) \<and> rl_env r = [] \<and>
     (\<forall>x \<in> set (rl_args r @ rl_inputs r @ rl_outputs r @ rl_depends_on r). plain_item x)"

lemma whitespace_facts [simp]:
  "\<not> is_whitespace quote" "\<not> is_whitespace (CHR ''['')" "\<not> is_whitespace (CHR '']'')" "\<not> is_whitespace (CHR '','')"
  "is_whitespace (CHR '' '')"
  by (simp_all add: is_whitespace_def quote_def)

lemma trim_quoted [simp]: "trim (quoted s) = quoted s"
  by (rule trim_id) (simp add: trimmed_by_def quoted_def)

lemma clean_quoted: "clean_string (quoted s) = s" "clean_string (CHR '' '' # quoted s) = s"
  by (simp_all add: clean_string_def trim_space is_quoted_def ends_with_def Let_def)
     (simp_all add: quoted_def butlast_append)

lemma split_quoted:
  assumes "CHR '','' \<notin> set x"
  shows "split_char (CHR '','') (quoted x @ CHR '','' # s) = quoted x # split_char (CHR '','') s"
    "split_char (CHR '','') (CHR '' '' # quoted x @ CHR '','' # s) = (CHR '' '' # quoted x) # split_char (CHR '','') s"
    "split_char (CHR '','') (quoted x) = [quoted x]"
    "split_char (CHR '','') (CHR '' '' # quoted x) = [CHR '' '' # quoted x]"
proof -
  have c: "CHR '','' \<notin> set (quoted x)" "CHR '','' \<notin> set (CHR '' '' # quoted x)"
    using assms by (simp_all add: quoted_def quote_def)
  show "split_char (CHR '','') (quoted x @ CHR '','' # s) = quoted x # split_char (CHR '','') s"
    by (rule split_char_one[OF c(1)])
  show "split_char (CHR '','') (CHR '' '' # quoted x @ CHR '','' # s) = (CHR '' '' # quoted x) # split_char (CHR '','') s"
    using split_char_one[OF c(2), of s] by (simp del: split_char.simps)
  show "split_char (CHR '','') (quoted x) = [quoted x]" by (rule split_char_none[OF c(1)])
  show "split_char (CHR '','') (CHR '' '' # quoted x) = [CHR '' '' # quoted x]" by (rule split_char_none[OF c(2)])
qed

lemma items_split:
  assumes "\<forall>x \<in> set xs. plain_item x" "xs \<noteq> []"
  shows "map clean_string (split_char (CHR '','') (join_items xs)) = xs"
    "map clean_string (split_char (CHR '','') (CHR '' '' # join_items xs)) = xs"
proof -
  have "map clean_string (split_char (CHR '','') (join_items xs)) = xs \<and>
      map clean_string (split_char (CHR '','') (CHR '' '' # join_items xs)) = xs"
    using assms
  proof (induction xs rule: join_items.induct)
    case (2 x)
    then show ?case by (simp only: join_items.simps) (simp add: split_quoted plain_item_def clean_quoted del: split_char.simps)
  next
    case (3 x y xs)
    then show ?case
      by (simp only: join_items.simps append.simps append_assoc)
         (simp add: split_quoted plain_item_def clean_quoted del: split_char.simps join_items.simps)
  qed simp
  then show "map clean_string (split_char (CHR '','') (join_items xs)) = xs"
    "map clean_string (split_char (CHR '','') (CHR '' '' # join_items xs)) = xs" by simp_all
qed

lemma trim_list [simp]: "trim (list_text xs) = list_text xs"
  by (rule trim_id) (simp add: trimmed_by_def list_text_def)

lemma parse_list_text: "\<forall>x \<in> set xs. plain_item x \<Longrightarrow> parse_string_list (list_text xs) = xs"
proof -
  assume xs: "\<forall>x \<in> set xs. plain_item x"
  have "parse_string_list (list_text xs) = filter (\<lambda>x. x \<noteq> []) (map clean_string (split_char (CHR '','') (join_items xs)))"
    by (simp add: parse_string_list_def ends_with_def Let_def del: split_char.simps) (simp add: list_text_def butlast_append)
  also have "\<dots> = xs"
  proof (cases "xs = []")
    case True
    then show ?thesis by (simp add: clean_string_def trim_def trim_by_def is_quoted_def ends_with_def)
  next
    case False
    show ?thesis unfolding items_split(1)[OF xs False] using xs by (simp add: filter_id_conv plain_item_def)
  qed
  finally show ?thesis .
qed

lemma trim_field:
  assumes "k \<noteq> []" "\<not> is_whitespace (hd k)"
  shows "trim (field_line k v) = k @ '' = '' @ v @ '',''"
proof -
  have "trim (field_line k v) = trim (k @ '' = '' @ v @ '','')"
    by (simp add: field_line_def trim_space)
  also have "\<dots> = k @ '' = '' @ v @ '',''" using assms by (intro trim_id) (simp add: trimmed_by_def)
  finally show ?thesis .
qed

lemma parse_field:
  assumes "CHR ''='' \<notin> set k" "trim (k @ '' '') = k" "trim v = v" "v \<noteq> []" "\<not> is_whitespace (hd v)"
  shows "parse_key_value (k @ '' = '' @ v @ '','') = Some (k, v)"
proof -
  have "k @ '' = '' @ v @ '','' = (k @ '' '') @ CHR ''='' # ('' '' @ v @ '','')" by simp
  moreover have "splitn2 (CHR ''='') ((k @ '' '') @ CHR ''='' # ('' '' @ v @ '','')) = [k @ '' '', '' '' @ v @ '','']"
    using assms(1) by (intro splitn2_one) simp
  moreover have "trim ('' '' @ v @ '','') = v @ '',''"
    using assms(4,5) trim_id[of "v @ '',''"] by (simp add: trim_space trimmed_by_def)
  ultimately show ?thesis using assms(2,3) by (simp add: parse_key_value_def ends_with_def Let_def)
qed

definition field_keys :: "string list" where
  "field_keys = [''name'', ''command'', ''args'', ''inputs'', ''outputs'', ''deps'']"

lemma field_line_step:
  assumes "k \<in> set field_keys" "trim v = v" "v \<noteq> []" "\<not> is_whitespace (hd v)"
  shows "parse_line (rs, Some b) (field_line k v) = Some (rs, Some (set_field k v b))"
proof -
  have k: "k \<noteq> []" "\<not> is_whitespace (hd k)" "CHR ''='' \<notin> set k" "trim (k @ '' '') = k"
    "\<not> opens_rule (k @ '' = '' @ v @ '','')" "\<not> starts_with ''#'' (k @ '' = '' @ v @ '','')"
    "k @ '' = '' @ v @ '','' \<noteq> '')''" "k @ '' = '' @ v @ '','' \<noteq> ''),''"
    using assms(1) by (auto simp: field_keys_def is_whitespace_def trim_def trim_by_def opens_rule_def)
  show ?thesis unfolding parse_line_def trim_field[OF k(1,2)] Let_def
    using k parse_field[OF k(3,4) assms(2-4)] by simp
qed

lemma values_ok [simp]:
  "quoted s \<noteq> []" "\<not> is_whitespace (hd (quoted s))" "list_text xs \<noteq> []" "\<not> is_whitespace (hd (list_text xs))"
  by (simp_all add: quoted_def list_text_def)

lemma rule_lines_read:
  assumes "plain_rule r"
  shows "fold_opt parse_line (rs, None) (rule_lines r) = Some (rs @ [r], None)"
proof -
  have opn: "parse_line (rs, None) ''genrule('' = Some (rs, Some empty_builder)" for rs
    by (simp add: parse_line_def trim_def trim_by_def is_whitespace_def opens_rule_def take_rule_def)
  have cls: "parse_line (rs, Some b) '')'' = map_option (\<lambda>rs. (rs, None)) (take_rule (rs, Some b))" for rs b
    by (simp add: parse_line_def trim_def trim_by_def is_whitespace_def opens_rule_def)
  have steps: "parse_line (rs, Some b) (field_line k (quoted s)) = Some (rs, Some (set_field k (quoted s) b))"
    "parse_line (rs, Some b) (field_line k (list_text xs)) = Some (rs, Some (set_field k (list_text xs) b))"
    if "k \<in> set field_keys" for rs b k s xs
    using that by (simp_all add: field_line_step)
  have lists: "parse_string_list (list_text (rl_args r)) = rl_args r" "parse_string_list (list_text (rl_inputs r)) = rl_inputs r"
    "parse_string_list (list_text (rl_outputs r)) = rl_outputs r" "parse_string_list (list_text (rl_depends_on r)) = rl_depends_on r"
    using assms by (simp_all add: plain_rule_def parse_list_text)
  have "rl_env r = []" using assms by (simp add: plain_rule_def)
  then show ?thesis
    by (simp add: rule_lines_def opn cls steps field_keys_def set_field_def lists clean_quoted
        empty_builder_def take_rule_def build_rule_def)
qed

lemma all_rules_read:
  "\<forall>r \<in> set rules. plain_rule r \<Longrightarrow>
     fold_opt parse_line (rs, None) (concat (map rule_lines rules)) = Some (rs @ rules, None)"
  by (induction rules arbitrary: rs) (simp_all add: fold_opt_append rule_lines_read)

lemma quoted_plain: "plain s \<Longrightarrow> CHR 0x0A \<notin> set (quoted s)"
  by (simp add: plain_def quoted_def quote_def)

lemma list_plain: "\<forall>x \<in> set xs. plain_item x \<Longrightarrow> CHR 0x0A \<notin> set (list_text xs)"
  unfolding list_text_def by (induction xs rule: join_items.induct) (auto simp: quoted_plain plain_item_def)

text \<open>
  C38. Reading the text of a manifest gives the rules that were printed, for all rules without
  environment whose texts have no quotation mark and no line break, and whose list items are not
  empty and have no comma.
\<close>

theorem starlark_roundtrip:
  assumes "\<forall>r \<in> set rules. plain_rule r"
  shows "parse_str (manifest_text rules) = Some \<lparr>mf_name = ''starlark-manifest'', mf_rules = rules\<rparr>"
proof -
  have "CHR 0x0A \<notin> set l \<and> l \<noteq> [] \<and> last l \<noteq> CHR 0x0D" if "r \<in> set rules" "l \<in> set (rule_lines r)" for r l
    using that assms
    by (auto simp: rule_lines_def field_line_def plain_rule_def quoted_plain list_plain)
  then have "str_lines (manifest_text rules) = concat (map rule_lines rules)"
    unfolding manifest_text_def by (intro printed_lines) auto
  then show ?thesis using all_rules_read[OF assms, of "[]"] by (simp add: parse_str_def take_rule_def)
qed

text \<open>What is read otherwise: a comma inside quotation marks separates, and a list over several lines is lost.\<close>

lemma quoted_comma_splits: "parse_string_list ''[ab,c]'' = [''ab'', ''c'']"
    "parse_string_list ([CHR ''[''] @ quoted ''a,b'' @ [CHR '']'']) = [[quote, CHR ''a''], [CHR ''b'', quote]]"
  by (code_simp, code_simp)

lemma multi_line_list_lost:
  "map_option mf_rules (parse_str (concat (map (\<lambda>l. l @ [CHR 0x0A])
     [''rule('', field_line ''name'' (quoted ''x''), ''    args = ['', quoted ''-v'' @ '','', ''    ],'', '')'']))) =
   Some [(sample_rule ''x'' [])\<lparr>rl_command := ''echo'', rl_args := [''['']\<rparr>]"
  by code_simp

theorem starlark_roundtrip_witness:
  "parse_str (manifest_text (mf_rules sample_manifest)) =
     Some \<lparr>mf_name = ''starlark-manifest'', mf_rules = mf_rules sample_manifest\<rparr> \<and> mf_rules sample_manifest \<noteq> []"
proof -
  have "\<forall>r \<in> set (mf_rules sample_manifest). plain_rule r"
    by (simp add: sample_manifest_def sample_rule_def plain_rule_def plain_def plain_item_def quote_def)
  from starlark_roundtrip[OF this] show ?thesis by (simp add: sample_manifest_def)
qed

end
