(* ===== verification/Cc_Depfile.thy ===== *)
theory Cc_Depfile
  imports Rust_Str Fish_Prelude
begin

text \<open>
  The reader of the dependency files that GCC and Clang write, \<open>fish-backend-cc/src/depfile.rs\<close>.
\<close>

definition backslash :: char where
  "backslash = CHR 0x5C"

definition trim_end :: "string \<Rightarrow> string" where
  "trim_end s = rev (dropWhile is_whitespace (rev s))"

text \<open>The token so far and the characters that follow.\<close>

fun parse_deps_from :: "string \<Rightarrow> string \<Rightarrow> string list" where
  "parse_deps_from token [] = (if token = [] then [] else [token])"
| "parse_deps_from token [c] =
     (if c = backslash \<or> is_whitespace c then (if token = [] then [] else [token]) else [token @ [c]])"
| "parse_deps_from token (c # n # cs) =
     (if c = backslash then parse_deps_from (token @ [n]) cs
      else if is_whitespace c then
        (if token = [] then parse_deps_from [] (n # cs) else token # parse_deps_from [] (n # cs))
      else parse_deps_from (token @ [c]) (n # cs))"

definition parse_deps :: "string \<Rightarrow> string list" where
  "parse_deps = parse_deps_from []"

text \<open>\<open>split_once(':').unwrap_or(("", text))\<close>.\<close>

definition split_target :: "string \<Rightarrow> string \<times> string" where
  "split_target s = (case splitn2 (CHR '':'') s of [a, b] \<Rightarrow> (a, b) | _ \<Rightarrow> ([], s))"

record dep_state =
  ds_deps :: "string list"
  ds_logical :: string
  ds_target :: bool

definition dep_line :: "dep_state \<Rightarrow> string \<Rightarrow> dep_state" where
  "dep_line s raw =
     (let line = trim_end raw
      in if line = [] then s
         else let continued = (last line = backslash);
                  piece = (if continued then butlast line else line);
                  logical = (if trim piece \<noteq> [] then ds_logical s @ piece @ '' '' else ds_logical s)
              in if continued then s\<lparr>ds_logical := logical\<rparr>
                 else let (target, rest) = split_target logical
                      in \<lparr>ds_deps = ds_deps s @ parse_deps rest, ds_logical = [],
                          ds_target = (ds_target s \<or> trim target \<noteq> [])\<rparr>)"

text \<open>The content of the file is missing when it cannot be read.\<close>

definition read_depfile :: "string option \<Rightarrow> string list option" where
  "read_depfile content =
     (case content of
        None \<Rightarrow> None
      | Some text \<Rightarrow>
          (let s = foldl dep_line \<lparr>ds_deps = [], ds_logical = [], ds_target = False\<rparr> (str_lines text)
           in if ds_target s then Some (ds_deps s) else None))"

subsection \<open>Reading what a compiler writes\<close>

text \<open>
  GCC and Clang double a dollar of a name, write a backslash before a space, a hash and a few more
  characters that depend on the compiler (\<open>esc\<close>), and break lines by a backslash at their end.
\<close>

definition escape :: "(char \<Rightarrow> bool) \<Rightarrow> string \<Rightarrow> string" where
  "escape esc d =
     concat (map (\<lambda>c. if c = CHR ''$'' then [c, c] else if esc c then [backslash, c] else [c]) d)"

definition double_dollars :: "string \<Rightarrow> string" where
  "double_dollars d = concat (map (\<lambda>c. if c = CHR ''$'' then [c, c] else [c]) d)"

definition dep_words :: "(char \<Rightarrow> bool) \<Rightarrow> string list \<Rightarrow> string" where
  "dep_words esc ds = concat (map (\<lambda>d. '' '' @ escape esc d) ds)"

fun dep_rows :: "(char \<Rightarrow> bool) \<Rightarrow> string \<Rightarrow> string list list \<Rightarrow> string list" where
  "dep_rows esc start [] = []"
| "dep_rows esc start [ds] = [start @ dep_words esc ds]"
| "dep_rows esc start (ds # es # rest) = (start @ dep_words esc ds @ '' '' @ [backslash]) # dep_rows esc '' '' (es # rest)"

definition depfile_text :: "(char \<Rightarrow> bool) \<Rightarrow> string \<Rightarrow> string list list \<Rightarrow> string" where
  "depfile_text esc target rows = concat (map (\<lambda>l. l @ [CHR 0x0A]) (dep_rows esc (target @ '':'') rows))"

text \<open>
  A backslash before a space is printed differently by the two compilers, so names have none. White
  space is escaped, does not end a name and is no line break.
\<close>

definition dep_name :: "(char \<Rightarrow> bool) \<Rightarrow> string \<Rightarrow> bool" where
  "dep_name esc d \<longleftrightarrow>
     d \<noteq> [] \<and> \<not> is_whitespace (last d) \<and> backslash \<notin> set d \<and> CHR 0x0A \<notin> set d \<and>
     (\<forall>c \<in> set d. is_whitespace c \<longrightarrow> esc c)"

definition target_name :: "string \<Rightarrow> bool" where
  "target_name t \<longleftrightarrow> t \<noteq> [] \<and> (\<forall>c \<in> set t. \<not> is_whitespace c \<and> c \<noteq> CHR '':'' \<and> c \<noteq> backslash)"

lemma not_space_chars [simp]: "\<not> is_whitespace backslash" "\<not> is_whitespace (CHR '':'')" "is_whitespace (CHR '' '')"
  "\<not> is_whitespace (CHR ''#'')" "is_whitespace (CHR 0x0A)" "is_whitespace (CHR 0x0D)"
  by (simp_all add: is_whitespace_def backslash_def)

lemma parse_plain:
  "c \<noteq> backslash \<Longrightarrow> \<not> is_whitespace c \<Longrightarrow> parse_deps_from token (c # s) = parse_deps_from (token @ [c]) s"
  by (cases s) auto

lemma parse_escaped: "parse_deps_from token (backslash # c # s) = parse_deps_from (token @ [c]) s"
  by simp

lemma parse_space:
  "is_whitespace c \<Longrightarrow> parse_deps_from token (c # s) = (if token = [] then parse_deps_from [] s else token # parse_deps_from [] s)"
  by (cases s) auto

lemma escape_simps: "escape esc [] = []"
  "escape esc (c # d) =
     (if c = CHR ''$'' then c # c # escape esc d else if esc c then backslash # c # escape esc d else c # escape esc d)"
  by (simp_all add: escape_def)

lemma double_dollars_simps [simp]: "double_dollars [] = []"
  "double_dollars (c # d) = (if c = CHR ''$'' then c # c # double_dollars d else c # double_dollars d)"
  by (simp_all add: double_dollars_def)

lemma double_dollars_longer: "length d \<le> length (double_dollars d)"
  by (induction d) auto

lemma double_dollars_same: "double_dollars d = d \<longleftrightarrow> CHR ''$'' \<notin> set d"
proof (induction d)
  case (Cons c d)
  have "double_dollars d \<noteq> x # y" if "length (x # y) < length d" for x y
    using double_dollars_longer[of d] that by auto
  moreover have "c # double_dollars d \<noteq> d"
    using double_dollars_longer[of d] by (metis impossible_Cons)
  ultimately show ?case using Cons by auto
qed simp

lemma map_double_dollars: "map double_dollars ds = ds \<longleftrightarrow> (\<forall>d \<in> set ds. CHR ''$'' \<notin> set d)"
  by (induction ds) (simp_all add: double_dollars_same)

lemma double_dollars_Nil: "double_dollars d = [] \<longleftrightarrow> d = []"
  by (cases d) auto

lemma dollar_plain: "CHR ''$'' \<noteq> backslash" "\<not> is_whitespace (CHR ''$'')"
  by (simp_all add: is_whitespace_def backslash_def)

lemma parse_name:
  assumes "backslash \<notin> set d" "\<forall>c \<in> set d. is_whitespace c \<longrightarrow> esc c"
  shows "parse_deps_from token (escape esc d @ s) = parse_deps_from (token @ double_dollars d) s"
  using assms
proof (induction d arbitrary: token)
  case (Cons c d)
  then have IH: "parse_deps_from token (escape esc d @ s) = parse_deps_from (token @ double_dollars d) s" for token by simp
  consider "c = CHR ''$''" | "c \<noteq> CHR ''$''" "esc c" | "c \<noteq> CHR ''$''" "\<not> esc c" by blast
  then show ?case
  proof cases
    case 1
    then show ?thesis using IH[of "token @ [c, c]"] dollar_plain
      by (simp add: escape_simps parse_plain del: parse_deps_from.simps)
  next
    case 2
    then show ?thesis using IH[of "token @ [c]"]
      by (simp add: escape_simps parse_escaped del: parse_deps_from.simps)
  next
    case 3
    then show ?thesis using IH[of "token @ [c]"] Cons.prems
      by (auto simp: escape_simps parse_plain simp del: parse_deps_from.simps)
  qed
qed (simp add: escape_simps)

lemma parse_words:
  assumes "\<forall>d \<in> set ds. dep_name esc d" "s = [] \<or> is_whitespace (hd s)"
  shows "parse_deps_from [] (dep_words esc ds @ s) = map double_dollars ds @ parse_deps_from [] s"
  using assms(1)
proof (induction ds)
  case Nil
  then show ?case by (simp add: dep_words_def)
next
  case (Cons d ds)
  let ?r = "dep_words esc ds @ s"
  have d: "dep_name esc d" "d \<noteq> []" using Cons.prems by (simp_all add: dep_name_def)
  have "parse_deps_from [] (dep_words esc (d # ds) @ s) = parse_deps_from [] (CHR '' '' # escape esc d @ ?r)"
    by (simp add: dep_words_def)
  also have "\<dots> = parse_deps_from (double_dollars d) ?r"
    using d parse_name[of d esc "[]" ?r] by (simp add: parse_space dep_name_def del: parse_deps_from.simps)
  also have "\<dots> = double_dollars d # parse_deps_from [] ?r"
  proof (cases ?r)
    case Nil
    then show ?thesis using d by (simp add: double_dollars_Nil)
  next
    case (Cons c r)
    have "is_whitespace c"
    proof (cases ds)
      case Nil
      with Cons assms(2) show ?thesis by (auto simp: dep_words_def)
    next
      case (Cons e es)
      with \<open>?r = c # r\<close> show ?thesis by (auto simp: dep_words_def)
    qed
    with Cons d(2) show ?thesis by (simp add: parse_space double_dollars_Nil del: parse_deps_from.simps)
  qed
  finally show ?case using Cons by simp
qed

lemma parse_blank: "\<forall>c \<in> set s. is_whitespace c \<Longrightarrow> parse_deps_from [] s = []"
  by (induction s) (simp_all add: parse_space del: parse_deps_from.simps(2,3))

lemma trim_end_id: "s \<noteq> [] \<Longrightarrow> \<not> is_whitespace (last s) \<Longrightarrow> trim_end s = s"
  by (simp add: trim_end_def dropWhile_eq_self_iff[THEN iffD2] hd_rev)

lemma last_escape: "d \<noteq> [] \<Longrightarrow> escape esc d \<noteq> [] \<and> last (escape esc d) = last d"
  by (induction d) (auto simp: escape_simps)

lemma last_words:
  assumes "ds \<noteq> []" "\<forall>d \<in> set ds. dep_name esc d"
  shows "dep_words esc ds \<noteq> []" "\<not> is_whitespace (last (dep_words esc ds))" "last (dep_words esc ds) \<noteq> backslash"
proof -
  obtain es d where ds: "ds = es @ [d]" using assms(1) by (cases ds rule: rev_cases) auto
  have d: "d \<noteq> []" "\<not> is_whitespace (last d)" "backslash \<notin> set d" using assms(2) ds by (simp_all add: dep_name_def)
  have "last (dep_words esc ds) = last d" using d(1) last_escape[of d esc] by (simp add: ds dep_words_def)
  with d show "\<not> is_whitespace (last (dep_words esc ds))" by simp
  show "last (dep_words esc ds) \<noteq> backslash" using \<open>last (dep_words esc ds) = last d\<close> d by (metis last_in_set)
  show "dep_words esc ds \<noteq> []" by (simp add: ds dep_words_def)
qed

lemma trim_nonblank: "x \<in> set s \<Longrightarrow> \<not> is_whitespace x \<Longrightarrow> trim s \<noteq> []"
  by (auto simp: trim_def trim_by_def dropWhile_eq_Nil_conv dest!: set_dropWhileD)
     (metis (no_types) Un_iff in_set_conv_decomp set_append set_takeWhileD takeWhile_dropWhile_id)

text \<open>A text that is read as these names and may be continued after white space.\<close>

definition reads :: "string \<Rightarrow> string list \<Rightarrow> bool" where
  "reads w ds \<longleftrightarrow> (\<forall>s. s = [] \<or> is_whitespace (hd s) \<longrightarrow> parse_deps_from [] (w @ s) = ds @ parse_deps_from [] s)"

lemma reads_words:
  assumes "reads w acc" "\<forall>d \<in> set ds. dep_name esc d" "\<forall>c \<in> set a. is_whitespace c" "\<forall>c \<in> set b. is_whitespace c"
  shows "reads (w @ a @ dep_words esc ds @ b) (acc @ map double_dollars ds)"
proof -
  have blank: "parse_deps_from [] (u @ s) = parse_deps_from [] s" if "\<forall>c \<in> set u. is_whitespace c" for u s
    using that by (induction u) (simp_all add: parse_space del: parse_deps_from.simps)
  have start: "u @ s = [] \<or> is_whitespace (hd (u @ s))"
    if "\<forall>c \<in> set u. is_whitespace c" "s = [] \<or> is_whitespace (hd s)" for u s using that by (cases u) auto
  have words: "dep_words esc ds @ s = [] \<or> is_whitespace (hd (dep_words esc ds @ s))" if "s = [] \<or> is_whitespace (hd s)" for s
    using that by (cases ds) (auto simp: dep_words_def)
  show ?thesis unfolding reads_def
  proof (intro allI impI)
    fix s assume s: "s = [] \<or> is_whitespace (hd s)"
    have "parse_deps_from [] ((w @ a @ dep_words esc ds @ b) @ s) = acc @ parse_deps_from [] (a @ dep_words esc ds @ b @ s)"
      using assms(1)[unfolded reads_def, rule_format, OF start[OF assms(3) words[OF start[OF assms(4) s]]]] by simp
    also have "parse_deps_from [] (a @ dep_words esc ds @ b @ s) = map double_dollars ds @ parse_deps_from [] s"
      using parse_words[OF assms(2) start[OF assms(4) s]] by (simp add: blank assms(3,4))
    finally show "parse_deps_from [] ((w @ a @ dep_words esc ds @ b) @ s) = (acc @ map double_dollars ds) @ parse_deps_from [] s" by simp
  qed
qed

lemma reads_Nil: "reads [] []"
  by (simp add: reads_def)

lemma word_char: "ds \<noteq> [] \<Longrightarrow> \<forall>d \<in> set ds. dep_name esc d \<Longrightarrow> \<exists>x \<in> set (dep_words esc ds). \<not> is_whitespace x"
  using last_words[of ds esc] last_in_set[of "dep_words esc ds"] by blast

text \<open>One line, continued or last, when the text before it belongs to the target.\<close>

lemma continued_line:
  assumes "\<exists>x \<in> set piece. \<not> is_whitespace x"
  shows "dep_line s (piece @ [backslash]) = s\<lparr>ds_logical := ds_logical s @ piece @ '' ''\<rparr>"
proof -
  have "trim_end (piece @ [backslash]) = piece @ [backslash]" by (rule trim_end_id) simp_all
  with assms show ?thesis by (auto simp: dep_line_def Let_def dest: trim_nonblank)
qed

lemma split_target_at: "CHR '':'' \<notin> set t \<Longrightarrow> split_target (t @ CHR '':'' # w) = (t, w)"
  by (simp add: split_target_def splitn2_one)

lemma last_line:
  assumes "piece \<noteq> []" "\<not> is_whitespace (last piece)" "last piece \<noteq> backslash" "target_name t"
    and "ds_logical s @ piece @ '' '' = t @ CHR '':'' # w" "reads w ds"
  shows "dep_line s piece = \<lparr>ds_deps = ds_deps s @ ds, ds_logical = [], ds_target = True\<rparr>"
proof -
  have "trim_end piece = piece" using assms(1,2) by (rule trim_end_id)
  moreover have "trim piece \<noteq> []" using assms(1,2) trim_nonblank[of "last piece" piece] by simp
  moreover have "split_target (ds_logical s @ piece @ '' '') = (t, w)"
    unfolding assms(5) using assms(4) by (intro split_target_at) (auto simp: target_name_def)
  moreover have "trim t \<noteq> []" using assms(4) trim_nonblank[of "hd t" t] by (simp add: target_name_def)
  moreover have "parse_deps w = ds" using assms(6) unfolding reads_def parse_deps_def by (metis append_Nil2 parse_deps_from.simps(1))
  ultimately show ?thesis using assms(1,3) by (simp add: dep_line_def Let_def)
qed

lemma rows_read:
  assumes "target_name t" "rows \<noteq> []" "\<forall>ds \<in> set rows. ds \<noteq> [] \<and> (\<forall>d \<in> set ds. dep_name esc d)"
    and "ds_logical s = t @ CHR '':'' # w" "reads w acc"
  shows "foldl dep_line s (dep_rows esc '' '' rows) =
     \<lparr>ds_deps = ds_deps s @ acc @ map double_dollars (concat rows), ds_logical = [], ds_target = True\<rparr>"
  using assms(2-)
proof (induction rows arbitrary: s w acc)
  case (Cons ds rows)
  have ds: "ds \<noteq> []" "\<forall>d \<in> set ds. dep_name esc d" using Cons.prems(2) by simp_all
  show ?case
  proof (cases rows)
    case Nil
    have "reads (w @ '' '' @ dep_words esc ds @ '' '') (acc @ map double_dollars ds)" using Cons.prems(4) ds by (intro reads_words) simp_all
    with last_words[OF ds] assms(1) Cons.prems(3) Nil show ?thesis
      by (simp add: last_line[where t = t and w = "w @ '' '' @ dep_words esc ds @ '' ''"])
  next
    case (Cons es rest)
    let ?piece = "'' '' @ dep_words esc ds @ '' ''"
    let ?w = "w @ '' '' @ dep_words esc ds @ ''  ''"
    have "\<exists>x \<in> set ?piece. \<not> is_whitespace x" using word_char[OF ds] by auto
    then have "dep_line s (?piece @ [backslash]) = s\<lparr>ds_logical := ds_logical s @ ?piece @ '' ''\<rparr>"
      by (rule continued_line)
    moreover have "reads ?w (acc @ map double_dollars ds)" using Cons.prems(4) ds by (intro reads_words) simp_all
    ultimately show ?thesis
      using Cons.IH[of "s\<lparr>ds_logical := ds_logical s @ ?piece @ '' ''\<rparr>" ?w "acc @ map double_dollars ds"] Cons.prems(2,3) Cons by simp
  qed
qed simp

text \<open>
  C40. The dependency file that a compiler writes for a target whose printed name has no white
  space, colon or backslash is read back as the names in it, each with its dollars doubled as they
  were printed, wherever the compiler breaks the lines and whatever characters it escapes. So it is
  read back as the names themselves exactly if none of them has a dollar. The names have no
  backslash and no line break, their white space is escaped and not at their end, and only the
  first line may be without a name.
\<close>

theorem depfile_roundtrip:
  assumes "target_name t" "rows \<noteq> []" "\<forall>ds \<in> set rows. \<forall>d \<in> set ds. dep_name esc d" "\<forall>ds \<in> set (tl rows). ds \<noteq> []"
  shows "read_depfile (Some (depfile_text esc t rows)) = Some (map double_dollars (concat rows)) \<and>
    (read_depfile (Some (depfile_text esc t rows)) = Some (concat rows) \<longleftrightarrow>
       (\<forall>d \<in> set (concat rows). CHR ''$'' \<notin> set d))"
proof -
  let ?init = "\<lparr>ds_deps = [], ds_logical = [], ds_target = False\<rparr>"
  obtain ds rest where rows: "rows = ds # rest" using assms(2) by (cases rows) auto
  have ds: "\<forall>d \<in> set ds. dep_name esc d" using assms(3) rows by simp
  have read: "foldl dep_line ?init (dep_rows esc (t @ '':'') rows) = \<lparr>ds_deps = map double_dollars (concat rows), ds_logical = [], ds_target = True\<rparr>"
  proof (cases rest)
    case Nil
    have "reads (dep_words esc ds @ '' '') (map double_dollars ds)" using reads_words[OF reads_Nil ds, of "[]" "'' ''"] by simp
    moreover have "(t @ '':'') @ dep_words esc ds \<noteq> []" "\<not> is_whitespace (last ((t @ '':'') @ dep_words esc ds))"
      "last ((t @ '':'') @ dep_words esc ds) \<noteq> backslash"
      using last_words[of ds esc] ds by (cases "ds = []"; simp add: dep_words_def backslash_def)+
    ultimately show ?thesis
      using last_line[of "(t @ '':'') @ dep_words esc ds" t ?init "dep_words esc ds @ '' ''" "map double_dollars ds"] assms(1) Nil rows by simp
  next
    case (Cons es more)
    let ?piece = "(t @ '':'') @ dep_words esc ds @ '' ''"
    have "dep_line ?init (?piece @ [backslash]) = ?init\<lparr>ds_logical := ?piece @ '' ''\<rparr>"
      using continued_line[of ?piece ?init] by simp
    moreover have "reads (dep_words esc ds @ ''  '') (map double_dollars ds)" using reads_words[OF reads_Nil ds, of "[]" "''  ''"] by simp
    ultimately show ?thesis
      using rows_read[OF assms(1), of rest esc "?init\<lparr>ds_logical := ?piece @ '' ''\<rparr>" "dep_words esc ds @ ''  ''" "map double_dollars ds"]
        assms(3,4) rows Cons by simp
  qed
  have escaped: "c \<in> set (escape esc d) \<Longrightarrow> c \<in> set d \<or> c = backslash" for esc c d
    by (induction d) (auto simp: escape_simps split: if_splits)
  have name: "CHR 0x0A \<notin> set (escape esc d)" if "dep_name esc d" for esc d
  proof -
    have "CHR 0x0A \<notin> set d" using that by (simp add: dep_name_def)
    then show ?thesis using escaped[of "CHR 0x0A" esc d] by (auto simp: backslash_def)
  qed
  then have words: "CHR 0x0A \<notin> set (dep_words esc es)" if "\<forall>d \<in> set es. dep_name esc d" for esc es
    using that by (auto simp: dep_words_def)
  have last_row: "last (start @ dep_words esc es) \<noteq> CHR 0x0D"
    if "\<forall>d \<in> set es. dep_name esc d" "start \<noteq> []" "last start \<noteq> CHR 0x0D" for esc start es
    using that last_words[of es esc] by (cases "es = []") (auto simp: dep_words_def last_append)
  have lines: "\<forall>l \<in> set (dep_rows esc start rs). CHR 0x0A \<notin> set l \<and> l \<noteq> [] \<and> last l \<noteq> CHR 0x0D"
    if "\<forall>ds \<in> set rs. \<forall>d \<in> set ds. dep_name esc d" "CHR 0x0A \<notin> set start" "start \<noteq> []" "last start \<noteq> CHR 0x0D" for esc start rs
    using that
  proof (induction esc start rs rule: dep_rows.induct)
    case (3 esc start ds es rest)
    then show ?case using words[of ds esc] by (simp add: backslash_def)
  qed (simp_all add: words last_row)
  have "\<forall>l \<in> set (dep_rows esc (t @ '':'') rows). CHR 0x0A \<notin> set l \<and> l \<noteq> [] \<and> last l \<noteq> CHR 0x0D"
    by (rule lines) (use assms(1,3) in \<open>auto simp: target_name_def\<close>)
  then have "str_lines (depfile_text esc t rows) = dep_rows esc (t @ '':'') rows" unfolding depfile_text_def by (rule printed_lines)
  with read have "read_depfile (Some (depfile_text esc t rows)) = Some (map double_dollars (concat rows))"
    by (simp add: read_depfile_def)
  then show ?thesis by (simp only: option.inject map_double_dollars simp_thms)
qed

text \<open>What is read wrongly: a dollar is doubled by the compilers, and a backslash of Windows is not an escape.\<close>

lemma dollar_stays_doubled: "read_depfile (Some ''m.o: a$$b.h'') = Some [''a$$b.h'']"
  by code_simp

lemma windows_paths_lost:
  "read_depfile (Some (''m.o: src'' @ [backslash] @ ''m.c'')) = Some [''srcm.c'']"
  "read_depfile (Some (''C:'' @ [backslash] @ ''m.o: m.c'')) = Some [''m.o:'', ''m.c'']"
  by (code_simp, code_simp)

text \<open>The characters that both compilers escape.\<close>

definition common_escapes :: "char \<Rightarrow> bool" where
  "common_escapes c \<longleftrightarrow> c = CHR '' '' \<or> c = CHR ''#''"

theorem depfile_roundtrip_witness:
  "read_depfile (Some (depfile_text common_escapes ''util.o''
       [[''src/util.c'', ''include/my header.h''], [''a.h'', ''b#.h'']])) =
     Some [''src/util.c'', ''include/my header.h'', ''a.h'', ''b#.h''] \<and>
   read_depfile (Some (depfile_text common_escapes ''m.o'' [[''a$b.h'']])) = Some [''a$$b.h'']"
  using depfile_roundtrip[of "''util.o''" "[[''src/util.c'', ''include/my header.h''], [''a.h'', ''b#.h'']]" common_escapes]
    depfile_roundtrip[of "''m.o''" "[[''a$b.h'']]" common_escapes]
  by (simp add: target_name_def dep_name_def is_whitespace_def backslash_def common_escapes_def)

end
