(* ===== verification/Cc_Fingerprint.thy ===== *)
theory Cc_Fingerprint
  imports Cc_Depfile "HOL-Library.Sublist"
begin

text \<open>
  The fingerprint of a C or C++ source, \<open>fish-backend-cc/src/fingerprint.rs\<close>: the compiler, the flags, the
  source, and the headers, which are those of the dependency file or else those found by following the
  include lines. The file system, the lossy decoding of texts and the hash are arguments. A path
  is whether it is absolute, with its components, as \<open>PathBuf\<close> compares it.
\<close>

type_synonym cc_path = "bool \<times> string list"

record cc_host =
  ch_exists :: "cc_path \<Rightarrow> bool"
  ch_read :: "cc_path \<Rightarrow> octets option"
  ch_text :: "cc_path \<Rightarrow> string option"
  ch_decode :: "octets \<Rightarrow> string"
  ch_hash :: "octets \<Rightarrow> string"

datatype scan_error = Scan_Io | Scan_Panic

definition join_path :: "cc_path \<Rightarrow> cc_path \<Rightarrow> cc_path" where
  "join_path p q =
     (if fst q then q
      else if p = (False, []) then q
      else (fst p, snd p @ filter (\<lambda>c. c \<noteq> ''.'') (snd q)))"

definition path_parent :: "cc_path \<Rightarrow> cc_path option" where
  "path_parent p = (if snd p = [] then None else Some (fst p, butlast (snd p)))"

subsection \<open>Include lines\<close>

text \<open>\<open>None\<close> is the panic of a slice whose end is before its start.\<close>

definition extract_header_name :: "string \<Rightarrow> string option option" where
  "extract_header_name line =
     (case strip_prefix ''#include'' line of
        None \<Rightarrow> Some None
      | Some r \<Rightarrow>
          (let rest = trim r in
           if rest \<noteq> [] \<and> (hd rest = CHR 0x22 \<and> last rest = CHR 0x22 \<or> hd rest = CHR ''<'' \<and> last rest = CHR ''>'')
           then (if length rest < 2 then None else Some (Some (butlast (tl rest))))
           else Some None))"

definition resolve_header :: "cc_host \<Rightarrow> string \<Rightarrow> cc_path option \<Rightarrow> cc_path list \<Rightarrow> cc_path option" where
  "resolve_header h name dir incs =
     find (ch_exists h)
       (map (\<lambda>d. join_path d (path_components name)) ((case dir of None \<Rightarrow> [] | Some d \<Rightarrow> [d]) @ incs))"

definition header_of_line :: "cc_host \<Rightarrow> cc_path list \<Rightarrow> cc_path option \<Rightarrow> string \<Rightarrow> cc_path option option" where
  "header_of_line h incs dir line =
     (let t = trim line in
      if \<not> prefix ''#include'' t then Some None
      else map_option (\<lambda>n. Option.bind n (\<lambda>n. resolve_header h n dir incs)) (extract_header_name t))"

text \<open>The headers seen so far and the bytes hashed; the outer \<open>None\<close> is the end of the fuel.\<close>

type_synonym scan_state = "cc_path set \<times> octets"

fun scan_headers ::
  "nat \<Rightarrow> cc_host \<Rightarrow> cc_path list \<Rightarrow> cc_path option \<Rightarrow> string list \<Rightarrow> scan_state \<Rightarrow> (scan_error + scan_state) option" where
  "scan_headers n h incs dir [] s = Some (Inr s)"
| "scan_headers 0 h incs dir (l # ls) s = None"
| "scan_headers (Suc n) h incs dir (l # ls) (seen, out) =
     (case header_of_line h incs dir l of
        None \<Rightarrow> Some (Inl Scan_Panic)
      | Some None \<Rightarrow> scan_headers (Suc n) h incs dir ls (seen, out)
      | Some (Some p) \<Rightarrow>
          (if p \<in> seen then scan_headers (Suc n) h incs dir ls (seen, out)
           else case ch_read h p of
               None \<Rightarrow> Some (Inl Scan_Io)
             | Some c \<Rightarrow>
                 (case scan_headers n h incs (path_parent p) (str_lines (ch_decode h c)) (insert p seen, out @ c) of
                    Some (Inr s) \<Rightarrow> scan_headers (Suc n) h incs dir ls s
                  | r \<Rightarrow> r)))"

lemma scan_headers_code [code]:
  "scan_headers n h incs dir ls s =
     (case ls of
        [] \<Rightarrow> Some (Inr s)
      | l # ls' \<Rightarrow>
          (if n = 0 then None
           else case header_of_line h incs dir l of
               None \<Rightarrow> Some (Inl Scan_Panic)
             | Some None \<Rightarrow> scan_headers n h incs dir ls' s
             | Some (Some p) \<Rightarrow>
                 (if p \<in> fst s then scan_headers n h incs dir ls' s
                  else case ch_read h p of
                      None \<Rightarrow> Some (Inl Scan_Io)
                    | Some c \<Rightarrow>
                        (case scan_headers (n - 1) h incs (path_parent p) (str_lines (ch_decode h c)) (insert p (fst s), snd s @ c) of
                           Some (Inr s') \<Rightarrow> scan_headers n h incs dir ls' s'
                         | r \<Rightarrow> r))))"
  by (cases n; cases ls; cases s) (auto split: option.splits sum.splits)

subsection \<open>The fingerprint\<close>

definition flag_bytes :: "string \<Rightarrow> string list \<Rightarrow> octets" where
  "flag_bytes version flags =
     utf8_bytes version @ utf8_bytes ([CHR 0x0A] @ ''flags:'' @ [CHR 0x0A]) @
     concat (map (\<lambda>f. utf8_bytes f @ utf8_bytes [CHR 0x0A]) flags)"

definition dep_bytes :: "cc_host \<Rightarrow> cc_path \<Rightarrow> string \<Rightarrow> octets" where
  "dep_bytes h source d =
     (let base = (case path_parent source of None \<Rightarrow> (False, [''.'']) | Some b \<Rightarrow> b);
          q = join_path base (path_components d)
      in if q = source \<or> \<not> ch_exists h q then [] else case ch_read h q of None \<Rightarrow> [] | Some c \<Rightarrow> c)"

definition compute_source_fingerprint ::
  "nat \<Rightarrow> cc_host \<Rightarrow> cc_path \<Rightarrow> cc_path list \<Rightarrow> string list \<Rightarrow> string \<Rightarrow> cc_path option \<Rightarrow> (scan_error + string) option" where
  "compute_source_fingerprint fuel h source incs flags version depfile =
     (let start = flag_bytes version flags in
      if \<not> ch_exists h source then Some (Inr (ch_hash h start))
      else case ch_read h source of
          None \<Rightarrow> Some (Inl Scan_Io)
        | Some c \<Rightarrow>
            (case Option.bind depfile (\<lambda>d. read_depfile (ch_text h d)) of
               Some ds \<Rightarrow> Some (Inr (ch_hash h (start @ c @ concat (map (dep_bytes h source) ds))))
             | None \<Rightarrow>
                 map_option (map_sum (\<lambda>e. e) (\<lambda>s. ch_hash h (snd s)))
                   (scan_headers fuel h incs (path_parent source) (str_lines (ch_decode h c)) ({}, start @ c))))"

subsection \<open>The headers that are included\<close>

definition headers :: "cc_host \<Rightarrow> cc_path list \<Rightarrow> cc_path option \<Rightarrow> string list \<Rightarrow> cc_path set" where
  "headers h incs dir ls = {p. \<exists>l \<in> set ls. header_of_line h incs dir l = Some (Some p)}"

definition file_lines :: "cc_host \<Rightarrow> cc_path \<Rightarrow> string list" where
  "file_lines h p = str_lines (ch_decode h (the (ch_read h p)))"

definition include_rel :: "cc_host \<Rightarrow> cc_path list \<Rightarrow> (cc_path \<times> cc_path) set" where
  "include_rel h incs = {(p, q). q \<in> headers h incs (path_parent p) (file_lines h p)}"

definition included :: "cc_host \<Rightarrow> cc_path list \<Rightarrow> cc_path option \<Rightarrow> string list \<Rightarrow> cc_path set" where
  "included h incs dir ls = (include_rel h incs)\<^sup>* `` headers h incs dir ls"

lemma header_exists: "header_of_line h incs dir l = Some (Some p) \<Longrightarrow> ch_exists h p"
  by (auto simp: header_of_line_def resolve_header_def Let_def find_Some_iff split: if_splits Option.bind_splits)

lemma headers_Cons:
  "headers h incs dir (l # ls) =
     (case header_of_line h incs dir l of Some (Some p) \<Rightarrow> insert p (headers h incs dir ls) | _ \<Rightarrow> headers h incs dir ls)"
  by (auto simp: headers_def split: option.splits)

lemma included_Cons_mono: "included h incs dir ls \<subseteq> included h incs dir (l # ls)"
  by (auto simp: included_def headers_def)

lemma included_step:
  assumes "header_of_line h incs dir l = Some (Some p)"
  shows "p \<in> included h incs dir (l # ls)"
    "included h incs (path_parent p) (file_lines h p) \<subseteq> included h incs dir (l # ls)"
proof -
  have p: "p \<in> headers h incs dir (l # ls)" using assms by (simp add: headers_Cons)
  then show "p \<in> included h incs dir (l # ls)" by (auto simp: included_def)
  show "included h incs (path_parent p) (file_lines h p) \<subseteq> included h incs dir (l # ls)"
  proof
    fix x assume "x \<in> included h incs (path_parent p) (file_lines h p)"
    then obtain q where "q \<in> headers h incs (path_parent p) (file_lines h p)" "(q, x) \<in> (include_rel h incs)\<^sup>*"
      by (auto simp: included_def)
    then have "(p, x) \<in> (include_rel h incs)\<^sup>*"
      by (intro converse_rtrancl_into_rtrancl[of p q]) (simp_all add: include_rel_def)
    with p show "x \<in> included h incs dir (l # ls)" by (auto simp: included_def)
  qed
qed

text \<open>What a scan adds, or why it fails; it ends when the fuel exceeds the headers not yet seen.\<close>

definition scan_ok ::
  "cc_host \<Rightarrow> cc_path list \<Rightarrow> cc_path option \<Rightarrow> string list \<Rightarrow> scan_state \<Rightarrow> scan_state \<Rightarrow> bool" where
  "scan_ok h incs dir ls s s' \<longleftrightarrow>
     (\<exists>ps. distinct ps \<and> set ps \<inter> fst s = {} \<and> fst s' = fst s \<union> set ps \<and>
        snd s' = snd s @ concat (map (\<lambda>p. the (ch_read h p)) ps) \<and>
        headers h incs dir ls \<subseteq> fst s' \<and>
        (\<forall>p \<in> set ps. ch_read h p \<noteq> None \<and> headers h incs (path_parent p) (file_lines h p) \<subseteq> fst s') \<and>
        set ps \<subseteq> included h incs dir ls)"

definition bad_line :: "cc_host \<Rightarrow> string \<Rightarrow> bool" where
  "bad_line h l \<longleftrightarrow> (let t = trim l in prefix ''#include'' t \<and> extract_header_name t = None)"

definition scan_fails :: "cc_host \<Rightarrow> cc_path list \<Rightarrow> cc_path option \<Rightarrow> string list \<Rightarrow> scan_error \<Rightarrow> bool" where
  "scan_fails h incs dir ls e \<longleftrightarrow>
     (case e of
        Scan_Io \<Rightarrow> (\<exists>p \<in> included h incs dir ls. ch_read h p = None)
      | Scan_Panic \<Rightarrow> (\<exists>l \<in> set ls. bad_line h l) \<or> (\<exists>p \<in> included h incs dir ls. \<exists>l \<in> set (file_lines h p). bad_line h l))"

lemma scan_fails_mono:
  "scan_fails h incs dir ls e \<Longrightarrow> scan_fails h incs dir (l # ls) e"
  using included_Cons_mono[of h incs dir ls l] by (cases e) (auto simp: scan_fails_def)

lemma scan_fails_nested:
  "header_of_line h incs dir l = Some (Some p) \<Longrightarrow> scan_fails h incs (path_parent p) (file_lines h p) e \<Longrightarrow>
     scan_fails h incs dir (l # ls) e"
  using included_step[of h incs dir l p ls] by (cases e) (auto simp: scan_fails_def)

lemma scan_ok_skip:
  assumes "scan_ok h incs dir ls s s'" "\<And>p. header_of_line h incs dir l = Some (Some p) \<Longrightarrow> p \<in> fst s"
  shows "scan_ok h incs dir (l # ls) s s'"
proof -
  obtain ps where ps: "distinct ps" "set ps \<inter> fst s = {}" "fst s' = fst s \<union> set ps"
    "snd s' = snd s @ concat (map (\<lambda>p. the (ch_read h p)) ps)" "headers h incs dir ls \<subseteq> fst s'"
    "\<forall>p \<in> set ps. ch_read h p \<noteq> None \<and> headers h incs (path_parent p) (file_lines h p) \<subseteq> fst s'"
    "set ps \<subseteq> included h incs dir ls" using assms(1) by (auto simp: scan_ok_def)
  have "headers h incs dir (l # ls) \<subseteq> fst s'" using ps(3,5) assms(2) by (auto simp: headers_Cons split: option.splits)
  moreover have "set ps \<subseteq> included h incs dir (l # ls)" using ps(7) included_Cons_mono by blast
  ultimately show ?thesis using ps unfolding scan_ok_def by blast
qed

lemma scan_ok_nested:
  assumes p: "header_of_line h incs dir l = Some (Some p)" "p \<notin> fst s" "ch_read h p = Some c"
    and inner: "scan_ok h incs (path_parent p) (file_lines h p) (insert p (fst s), snd s @ c) s1"
    and rest: "scan_ok h incs dir ls s1 s'"
  shows "scan_ok h incs dir (l # ls) s s'"
proof -
  obtain ps where ps: "distinct ps" "set ps \<inter> insert p (fst s) = {}" "fst s1 = insert p (fst s) \<union> set ps"
    "snd s1 = snd s @ c @ concat (map (\<lambda>p. the (ch_read h p)) ps)" "headers h incs (path_parent p) (file_lines h p) \<subseteq> fst s1"
    "\<forall>q \<in> set ps. ch_read h q \<noteq> None \<and> headers h incs (path_parent q) (file_lines h q) \<subseteq> fst s1"
    "set ps \<subseteq> included h incs (path_parent p) (file_lines h p)" using inner unfolding scan_ok_def by auto
  obtain qs where qs: "distinct qs" "set qs \<inter> fst s1 = {}" "fst s' = fst s1 \<union> set qs"
    "snd s' = snd s1 @ concat (map (\<lambda>p. the (ch_read h p)) qs)" "headers h incs dir ls \<subseteq> fst s'"
    "\<forall>q \<in> set qs. ch_read h q \<noteq> None \<and> headers h incs (path_parent q) (file_lines h q) \<subseteq> fst s'"
    "set qs \<subseteq> included h incs dir ls" using rest unfolding scan_ok_def by auto
  let ?all = "p # ps @ qs"
  have "distinct ?all" "set ?all \<inter> fst s = {}" "fst s' = fst s \<union> set ?all" using ps(1-3) qs(1-3) p(2) by auto
  moreover have "snd s' = snd s @ concat (map (\<lambda>p. the (ch_read h p)) ?all)" using ps(4) qs(4) p(3) by simp
  moreover have "headers h incs dir (l # ls) \<subseteq> fst s'" using p(1) ps(3) qs(3,5) by (auto simp: headers_Cons)
  moreover have "\<forall>q \<in> set ?all. ch_read h q \<noteq> None \<and> headers h incs (path_parent q) (file_lines h q) \<subseteq> fst s'"
    using ps(5,6) qs(3,6) p(3) by auto
  moreover have "set ?all \<subseteq> included h incs dir (l # ls)"
    using included_step[OF p(1), of ls] ps(7) qs(7) included_Cons_mono[of h incs dir ls l] by auto
  ultimately show ?thesis unfolding scan_ok_def by blast
qed

definition unseen :: "cc_host \<Rightarrow> cc_path set \<Rightarrow> nat" where
  "unseen h V = card ({p. ch_exists h p} - V)"

lemma unseen_mono: "finite {p. ch_exists h p} \<Longrightarrow> V \<subseteq> W \<Longrightarrow> unseen h W \<le> unseen h V"
  by (auto simp: unseen_def intro!: card_mono)

lemma unseen_insert: "finite {p. ch_exists h p} \<Longrightarrow> ch_exists h p \<Longrightarrow> p \<notin> V \<Longrightarrow> unseen h (insert p V) < unseen h V"
  unfolding unseen_def by (intro psubset_card_mono) auto

lemma scan_spec:
  assumes "finite {p. ch_exists h p}" "unseen h (fst s) < n"
  shows "case scan_headers n h incs dir ls s of
      None \<Rightarrow> False
    | Some (Inl e) \<Rightarrow> scan_fails h incs dir ls e
    | Some (Inr s') \<Rightarrow> scan_ok h incs dir ls s s'"
  using assms
proof (induction n h incs dir ls s rule: scan_headers.induct)
  case (1 n h incs dir s)
  have "scan_ok h incs dir [] s s" unfolding scan_ok_def by (intro exI[of _ "[]"]) (simp add: headers_def)
  then show ?case by simp
next
  case (2 h incs dir l ls s)
  then show ?case by simp
next
  case (3 n h incs dir l ls seen out)
  consider (panic) "header_of_line h incs dir l = None" | (skip) "header_of_line h incs dir l = Some None"
    | (header) p where "header_of_line h incs dir l = Some (Some p)" by (metis option.exhaust)
  then show ?case
  proof cases
    case panic
    then have "bad_line h l" by (auto simp: header_of_line_def bad_line_def Let_def split: if_splits)
    with panic show ?thesis by (simp add: scan_fails_def)
  next
    case skip
    with "3.IH"(1)[OF skip refl "3.prems"] show ?thesis
      by (auto split: option.splits sum.splits intro: scan_ok_skip scan_fails_mono)
  next
    case (header p)
    show ?thesis
    proof (cases "p \<in> seen")
      case True
      with header "3.IH"(2)[OF header refl True "3.prems"] show ?thesis
        by (auto split: option.splits sum.splits intro: scan_ok_skip scan_fails_mono)
    next
      case False
      show ?thesis
      proof (cases "ch_read h p")
        case None
        then have "scan_fails h incs dir (l # ls) Scan_Io"
          using included_step(1)[OF header, of ls] by (auto simp: scan_fails_def)
        with header False None show ?thesis by simp
      next
        case (Some c)
        have lines: "str_lines (ch_decode h c) = file_lines h p" using Some by (simp add: file_lines_def)
        have less: "unseen h (insert p seen) < n"
          using unseen_insert[OF "3.prems"(1) header_exists[OF header] False] "3.prems"(2) by simp
        note inner = "3.IH"(3)[OF header refl False Some "3.prems"(1), unfolded fst_conv, OF less, unfolded lines]
        show ?thesis
        proof (cases "scan_headers n h incs (path_parent p) (file_lines h p) (insert p seen, out @ c)")
          case None
          with inner show ?thesis by simp
        next
          case r: (Some r)
          show ?thesis
          proof (cases r)
            case (Inl e)
            with inner r have "scan_fails h incs dir (l # ls) e" by (simp add: scan_fails_nested[OF header])
            with header False Some r Inl lines show ?thesis by simp
          next
            case (Inr s1)
            with inner r have ok: "scan_ok h incs (path_parent p) (file_lines h p) (insert p seen, out @ c) s1" by simp
            then have "seen \<subseteq> fst s1" by (auto simp: scan_ok_def)
            then have fuel: "unseen h (fst s1) < Suc n"
              using unseen_mono[OF "3.prems"(1), of seen "fst s1"] "3.prems"(2) by simp
            have "scan_headers (Suc n) h incs dir (l # ls) (seen, out) = scan_headers (Suc n) h incs dir ls s1"
              using header False Some r Inr lines by simp
            moreover note rest = "3.IH"(4)[OF header refl False Some _ _ "3.prems"(1) fuel, unfolded lines, OF r Inr]
            ultimately show ?thesis
              using scan_ok_nested[OF header _ Some, of "(seen, out)" s1] False ok
              by (auto split: option.splits sum.splits intro: scan_fails_mono)
          qed
        qed
      qed
    qed
  qed
qed

text \<open>From nothing seen, exactly the headers that are included, directly or not, are hashed.\<close>

lemma scan_all:
  assumes "scan_ok h incs dir ls ({}, out) s'"
  shows "\<exists>ps. distinct ps \<and> set ps = included h incs dir ls \<and> (\<forall>p \<in> set ps. ch_read h p \<noteq> None) \<and>
     snd s' = out @ concat (map (\<lambda>p. the (ch_read h p)) ps)"
proof -
  obtain ps where ps: "distinct ps" "fst s' = set ps" "snd s' = out @ concat (map (\<lambda>p. the (ch_read h p)) ps)"
    "headers h incs dir ls \<subseteq> set ps"
    "\<forall>p \<in> set ps. ch_read h p \<noteq> None \<and> headers h incs (path_parent p) (file_lines h p) \<subseteq> set ps"
    "set ps \<subseteq> included h incs dir ls" using assms unfolding scan_ok_def by auto
  have "q \<in> set ps" if "(p, q) \<in> (include_rel h incs)\<^sup>*" "p \<in> set ps" for p q
    using that by (rule rtrancl_closed) (use ps(5) in \<open>auto simp: include_rel_def\<close>)
  with ps(4) have "included h incs dir ls \<subseteq> set ps" by (auto simp: included_def)
  with ps show ?thesis by (intro exI[of _ ps]) auto
qed

text \<open>
  C39. Without a usable dependency file the computation ends, however the headers include one another,
  if finitely many paths exist. The fingerprint is then the hash of the compiler version, the flags, the source and,
  each once, exactly the headers that are included directly or through others; it fails only when the
  source or one of these cannot be read, and panics only when the source or one of these has an
  include line with a single quotation mark.
\<close>

theorem source_fingerprint_correct:
  assumes "finite {p. ch_exists h p}" "card {p. ch_exists h p} < fuel"
    and "ch_exists h source" "ch_read h source = Some c"
    and "Option.bind depfile (\<lambda>d. read_depfile (ch_text h d)) = None"
  defines "dir \<equiv> path_parent source" and "ls \<equiv> str_lines (ch_decode h c)"
  shows "case compute_source_fingerprint fuel h source incs flags version depfile of
      None \<Rightarrow> False
    | Some (Inl e) \<Rightarrow> scan_fails h incs dir ls e
    | Some (Inr fp) \<Rightarrow> \<exists>ps. distinct ps \<and> set ps = included h incs dir ls \<and> (\<forall>p \<in> set ps. ch_read h p \<noteq> None) \<and>
        fp = ch_hash h (flag_bytes version flags @ c @ concat (map (\<lambda>p. the (ch_read h p)) ps))"
proof -
  have "unseen h (fst ({}, flag_bytes version flags @ c)) < fuel" using assms(2) by (simp add: unseen_def)
  from scan_spec[OF assms(1) this, of incs dir ls] show ?thesis
    using assms(3-5) by (auto simp: compute_source_fingerprint_def dir_def ls_def split: option.splits sum.splits dest!: scan_all)
qed

text \<open>With a dependency file the names in it are hashed and no include line is read.\<close>

lemma depfile_fingerprint:
  assumes "ch_exists h source" "ch_read h source = Some c" "depfile = Some d" "read_depfile (ch_text h d) = Some ds"
  shows "compute_source_fingerprint fuel h source incs flags version depfile =
     Some (Inr (ch_hash h (flag_bytes version flags @ c @ concat (map (dep_bytes h source) ds))))"
  using assms by (simp add: compute_source_fingerprint_def)

text \<open>A comment behind an include hides the header; a lone quotation mark panics.\<close>

lemma commented_include_ignored: "extract_header_name (''#include '' @ [CHR 0x22] @ ''a.h'' @ [CHR 0x22] @ '' // x'') = Some None"
  by code_simp

lemma lone_mark_panics: "extract_header_name (''#include '' @ [CHR 0x22]) = None"
  by code_simp

text \<open>Two files: the source includes a header that includes itself.\<close>

definition tiny_files :: "(cc_path \<times> octets) list" where
  "tiny_files =
     [((False, [''m.c'']), utf8_bytes (''#include <x.h>'' @ [CHR 0x0A])),
      ((False, [''inc'', ''x.h'']), utf8_bytes (''#include '' @ [CHR 0x22] @ ''x.h'' @ [CHR 0x22, CHR 0x0A]))]"

definition tiny_host :: cc_host where
  "tiny_host = \<lparr>ch_exists = (\<lambda>p. map_of tiny_files p \<noteq> None), ch_read = map_of tiny_files, ch_text = (\<lambda>_. None),
     ch_decode = map (\<lambda>b. char_of (unat b)), ch_hash = map (\<lambda>b. char_of (unat b))\<rparr>"

theorem source_fingerprint_correct_witness:
  "\<exists>fp ps. compute_source_fingerprint 3 tiny_host (False, [''m.c'']) [(False, [''inc''])] [] [] None = Some (Inr fp) \<and>
     set ps = included tiny_host [(False, [''inc''])] (Some (False, [])) [''#include <x.h>''] \<and> length fp = 38"
proof -
  let ?c = "utf8_bytes (''#include <x.h>'' @ [CHR 0x0A])"
  have dom: "{p. ch_exists tiny_host p} = {(False, [''m.c'']), (False, [''inc'', ''x.h''])}"
    by (auto simp: tiny_host_def tiny_files_def)
  have "map_option (map_sum (\<lambda>_. ()) length) (compute_source_fingerprint 3 tiny_host (False, [''m.c'']) [(False, [''inc''])] [] [] None) =
      Some (Inr 38)" by code_simp
  then obtain fp where fp: "compute_source_fingerprint 3 tiny_host (False, [''m.c'']) [(False, [''inc''])] [] [] None = Some (Inr fp)" "length fp = 38"
    by (cases "the (compute_source_fingerprint 3 tiny_host (False, [''m.c'']) [(False, [''inc''])] [] [] None)") auto
  have ls: "str_lines (ch_decode tiny_host ?c) = [''#include <x.h>'']" by code_simp
  have "ch_read tiny_host (False, [''m.c'']) = Some ?c" "ch_exists tiny_host (False, [''m.c''])"
    by (simp_all add: tiny_host_def tiny_files_def)
  moreover have "finite {p. ch_exists tiny_host p}" "card {p. ch_exists tiny_host p} < 3" unfolding dom by simp_all
  ultimately have "\<exists>ps. set ps = included tiny_host [(False, [''inc''])] (path_parent (False, [''m.c''])) [''#include <x.h>'']"
    using source_fingerprint_correct[of tiny_host 3 "(False, [''m.c''])" ?c None "[(False, [''inc''])]" "[]" "[]"] fp(1)
    unfolding ls by auto
  with fp show ?thesis by (auto simp: path_parent_def)
qed

end
