(* ===== verification/Spec2Isabelle.thy ===== *)
theory Spec2Isabelle
  imports Query_Parser Scheduler Work_Stealing Bin_Packing Pipelining Resource_Limits
    Tiered_Cache Predictive_Cache Cache_Gc Buffer_Pool Cache_Prune
    Lockless_Graph Cas_Chunking Cas_Storage File_Level Virtual_Fs Composite_Cache
    Security_Validation Wire_Frames Cluster Reapi Artifact_Files Ci_Matrix Project_Model Starlark_Parser Cc_Fingerprint
begin

text \<open>
  A verification development for the build orchestrator whose crates are under \<open>src/crates\<close>. A
  build is a graph of tasks: a scheduler runs the tasks whose dependencies have succeeded, a
  fingerprint cache skips those whose inputs have not changed, and content-addressed stores keep
  what they produce. The theories model these parts in that order; paths below are relative to
  \<open>src/crates\<close>.

  \<^bold>\<open>The build graph\<close> (\<open>fish-graph\<close>).
  \<^item> \<open>Task_State\<close>: \<open>state.rs\<close>, the states of a task.
  \<^item> \<open>Build_Graph\<close>: \<open>graph.rs\<close> and \<open>error.rs\<close>. \<open>BuildGraph\<close> is a record of its three vectors. An index
    into a vector that may panic is an option; \<open>Dag\<close> is the interface through which orders and
    schedulers see a graph, interpreted on the well-formed build graphs.
  \<^item> \<open>Graph_Order\<close>: Kahn's algorithm, \<open>validate\<close>, \<open>levels\<close>. \<open>Graph_States\<close>: readiness, failure
    propagation, the affected set. \<open>Graph_Transform\<close>: \<open>map_nodes\<close>, \<open>subgraph\<close>, \<open>merge_subgraph\<close> and the
    expansion at run time of \<open>dynamic.rs\<close>. \<open>Graph_Api\<close>: every graph the public operations can build
    is well-formed, with the properties of each operation on such graphs.
  \<^item> \<open>Graph_Query\<close> and \<open>Query_Parser\<close>: \<open>query.rs\<close>. The order in which a hash set is iterated is a
    parameter, and evaluation is shown to return the denotation of the query for all of them.
  \<^item> \<open>Lockless_Graph\<close>: \<open>lockless.rs\<close>, the graph keyed by names with its weighted critical path.

  \<^bold>\<open>Scheduling\<close> (\<open>fish-executor\<close>, \<open>fish-scheduler\<close>).
  \<^item> \<open>Task_Model\<close>: \<open>task.rs\<close>, \<open>command.rs\<close>, \<open>middleware.rs\<close>. \<open>Critical_Path\<close>: the tails that order the ready
    tasks and the critical path of a finished run.
  \<^item> \<open>Scheduler\<close>: \<open>Scheduler::run\<close>. The worker threads and channels are an input: for each round,
    how many answers are waiting and what they are. \<open>sched_step\<close> is the step relation of which a
    run is a path; \<open>Run_States\<close> holds what every run does to the states of the tasks, shared with
    \<open>Work_Stealing\<close> (\<open>work_stealing.rs\<close>), and the two schedulers are shown to agree.
  \<^item> \<open>Bin_Packing\<close> (\<open>bin_packing.rs\<close>), \<open>Pipelining\<close> (\<open>pipelining.rs\<close>), \<open>Resource_Limits\<close>: the
    distribution over agents, early starts, and the limits memory puts on parallelism.

  \<^bold>\<open>Caches\<close> (\<open>fish-cache\<close>).
  \<^item> \<open>Lru_Cache\<close>, \<open>Tiered_Cache\<close>, \<open>Predictive_Cache\<close>: \<open>strategies.rs\<close>. The reference of the LRU cache
    is a recency list; a tier is the interface of \<open>Tiered_Cache\<close>, interpreted on the LRU cache.
  \<^item> \<open>Cache_Keys\<close>, \<open>Local_Cache\<close>, \<open>Cache_Prune\<close>: \<open>lib.rs\<close>, from the names of the files to the executor
    that skips a task and the pruning of the directory. \<open>Cache_Gc\<close>: \<open>gc.rs\<close>. \<open>Buffer_Pool\<close>:
    \<open>pool.rs\<close>. \<open>File_Level\<close>: \<open>file_level.rs\<close>.

  \<^bold>\<open>Content-addressed storage\<close> (\<open>fish-cas\<close>).
  \<^item> \<open>Cas_Chunking\<close>: \<open>chunking.rs\<close>. \<open>Cas_Backend\<close>: \<open>artifact.rs\<close>, \<open>compression.rs\<close> and the local backend
    of \<open>backend.rs\<close>. \<open>Cas_Storage\<close>: \<open>storage.rs\<close> over any backend that meets the interface
    \<open>cas_backend\<close>, which the local one does.

  \<^bold>\<open>Shared theories.\<close> \<open>Fish_Prelude\<close>: vectors, loops that may panic, hash maps as association
  lists, machine sums. \<open>Rust_Str\<close>: the operations of strings and paths. \<open>Sample_Format\<close>: a concrete
  byte format with which the witnesses instantiate the JSON functions.

  \<^bold>\<open>Conventions.\<close> A Rust function that can panic returns an option and \<open>None\<close> is the panic; a
  \<open>Result\<close> is a sum with the error on the left. A sum of \<open>u64\<close> or \<open>usize\<close> that does not fit is \<open>None\<close>:
  the code panics there when built with overflow checks and wraps around otherwise, so a theorem
  that the result is \<open>Some\<close> says that neither happens. Sums the code computes with saturating or
  wrapping operations are written that way. Hash maps whose iteration order matters take the
  order as a parameter. What a definition uses of code outside \<open>src\<close> or of the system is an
  argument: BLAKE3, Zstandard, JSON, the clock, the order in which a directory is listed, and which
  system calls succeed.

  \<^bold>\<open>Bounds and fuel.\<close> Loops whose measure HOL accepts are total functions. The remaining ones take
  fuel, and a theorem says that the bound is enough: \<open>Suc (len g)\<close> for the path queries and the
  labels of the critical path (a path visits each node once), one round per task and one more
  for a scheduler run (each round finishes a task), one more than the entries of the parent map
  for the walk back of the breadth-first search, and \<open>Suc (length g)\<close> for the depth of \<open>longest_path\<close>.
  Directories are finite maps, and file sizes on disk are natural numbers.

  \<^bold>\<open>Not modelled.\<close> Code that only moves data to and from the outside: the command line and its
  screens, the dashboard, the language server, the daemon, the HTTP backends, the network side of
  the remote worker, the sandbox and process spawning. The backends of the languages turn
  configuration files into tasks by formatting strings for external compilers. The floating-point
  statistics of analytics, hit rates and predictions have no counterpart here. Concurrency below
  the level of one operation (atomics, locks, sharded maps) is taken to be sequential.
\<close>

end
